(* ===== verification/LM_Prelude.thy ===== *)
theory LM_Prelude
  imports Main "HOL-Library.Word"
begin

text \<open>
  Shared vocabulary of the libmoon development: the fixed-width C integer types, byte-addressed
  packet memory with the little-endian loads and stores an x86 compiler emits, the byte swap of
  \<^verbatim>\<open>rte_byteorder.h\<close>, and the generic word and list lemmas the component theories rely on.

  Undefined behaviour is explicit: an access outside an object is the value \<^term>\<open>None\<close> of an
  option type, never an unspecified element of a list.
\<close>

unbundle bit_operations_syntax

section \<open>Fixed-width integers\<close>

type_synonym u8 = "8 word"
type_synonym u16 = "16 word"
type_synonym u32 = "32 word"
type_synonym u64 = "64 word"

named_theorems unat_norm
  \<open>Rewrite rules that read a word expression as the natural number it denotes.\<close>

named_theorems mem_simps
  \<open>Read-over-write laws of byte-addressed memory.\<close>

lemma unat_bound_u8: "unat (a :: u8) < 256"
  using unsigned_less [of a] by simp

lemma unat_bound_u16: "unat (a :: u16) < 65536"
  using unsigned_less [of a] by simp

lemma unat_bound_u32: "unat (a :: u32) < 4294967296"
  using unsigned_less [of a] by simp

lemma unat_bound_u64: "unat (a :: u64) < 18446744073709551616"
  using unsigned_less [of a] by simp

lemmas unat_bounds = unat_bound_u8 unat_bound_u16 unat_bound_u32 unat_bound_u64

lemma unat_add_u16 [unat_norm]: "unat (a + b :: u16) = (unat a + unat b) mod 65536"
  by (simp add: unat_word_ariths)

lemma unat_add_u32 [unat_norm]: "unat (a + b :: u32) = (unat a + unat b) mod 4294967296"
  by (simp add: unat_word_ariths)

lemma unat_add_u64 [unat_norm]: "unat (a + b :: u64) = (unat a + unat b) mod 18446744073709551616"
  by (simp add: unat_word_ariths)

lemma unat_ucast_mod [unat_norm]:
  "unat (ucast (a :: 'a::len word) :: 'b::len word) = unat a mod 2 ^ LENGTH('b)"
  by (simp only: unsigned_ucast_eq take_bit_eq_mod)

lemma unat_drop_bit [unat_norm]: "unat (drop_bit n (a :: 'a::len word)) = unat a div 2 ^ n"
proof -
  have "take_bit LENGTH('a) (unat a) = unat a"
    by (rule take_bit_nat_eq_self) (rule unsigned_less)
  moreover have "unat (drop_bit n a) = drop_bit n (take_bit LENGTH('a) (unat a))"
    by (rule unsigned_drop_bit_eq)
  ultimately show ?thesis by (simp only: drop_bit_eq_div)
qed

lemma unat_push_bit [unat_norm]:
  "unat (push_bit n (a :: 'a::len word)) = (unat a * 2 ^ n) mod 2 ^ LENGTH('a)"
proof -
  have "unat (push_bit n a) = take_bit LENGTH('a) (push_bit n (unat a))"
    by (rule unsigned_push_bit_eq)
  then show ?thesis by (simp only: take_bit_eq_mod push_bit_eq_mult)
qed

lemma unat_mask_and: "unat (a AND mask n :: 'a::len word) = unat a mod 2 ^ n"
proof -
  have "unat (a AND mask n) = unat (take_bit n a)" by (simp only: take_bit_eq_mask)
  also have "\<dots> = take_bit n (unat a)" by (rule unsigned_take_bit_eq)
  finally show ?thesis by (simp only: take_bit_eq_mod)
qed

lemma unat_word_of_nat [unat_norm]: "unat (word_of_nat n :: 'a::len word) = n mod 2 ^ LENGTH('a)"
  by (simp only: unat_of_nat)

lemma unat_or_disjoint:
  fixes a b :: "'a::len word"
  assumes "unat a mod 2 ^ n = 0" and "unat b < 2 ^ n"
  shows "unat (a OR b) = unat a + unat b"
proof -
  have a0: "take_bit n (unat a) = 0" using assms(1) by (simp only: take_bit_eq_mod)
  have b0: "take_bit n (unat b) = unat b" using assms(2) by (rule take_bit_nat_eq_self)
  have "unat a AND unat b = unat a AND take_bit n (unat b)" by (simp only: b0)
  also have "\<dots> = take_bit n (unat a) AND unat b"
    by (simp only: take_bit_eq_mask and.assoc and.commute and.left_commute)
  finally have "unat a AND unat b = 0" by (simp add: a0)
  then have "unat a OR unat b = unat a + unat b"
    by (rule disjunctive_add_eq_or [symmetric])
  then show ?thesis by (simp only: unsigned_or_eq)
qed

section \<open>Bytes and byte order\<close>

text \<open>
  Packet memory is a list of bytes. \<open>load16\<close> and \<open>load32\<close> are the unaligned little-endian loads
  through a \<^verbatim>\<open>uint16_t*\<close> or \<^verbatim>\<open>uint32_t*\<close>, \<open>store16\<close> the store.
\<close>

definition bytes16 :: "u16 \<Rightarrow> u8 list" where
  "bytes16 w = [ucast w, ucast (drop_bit 8 w)]"

definition bytes32 :: "u32 \<Rightarrow> u8 list" where
  "bytes32 w = [ucast w, ucast (drop_bit 8 w), ucast (drop_bit 16 w), ucast (drop_bit 24 w)]"

definition load16 :: "u8 list \<Rightarrow> nat \<Rightarrow> u16" where
  "load16 m i = ucast (m ! i) OR push_bit 8 (ucast (m ! (i + 1)))"

definition load32 :: "u8 list \<Rightarrow> nat \<Rightarrow> u32" where
  "load32 m i = ucast (load16 m i) OR push_bit 16 (ucast (load16 m (i + 2)))"

definition store16 :: "u8 list \<Rightarrow> nat \<Rightarrow> u16 \<Rightarrow> u8 list" where
  "store16 m i w = m[i := ucast w, i + 1 := ucast (drop_bit 8 w)]"

definition bswap16 :: "u16 \<Rightarrow> u16" where
  "bswap16 w = push_bit 8 w OR drop_bit 8 w"

lemma unat_pair16:
  "unat (ucast (a :: u8) OR push_bit 8 (ucast (b :: u8)) :: u16) = unat a + 256 * unat b"
proof -
  have "unat (push_bit 8 (ucast b :: u16)) = 256 * unat b"
    using unat_bound_u8 [of b] by (simp add: unat_push_bit unat_ucast_mod del: push_bit_numeral)
  moreover have "unat (ucast a :: u16) = unat a"
    using unat_bound_u8 [of a] by (simp add: unat_ucast_mod)
  ultimately show ?thesis
    using unat_or_disjoint [of "push_bit 8 (ucast b :: u16)" 8 "ucast a"] unat_bound_u8 [of a]
    by (simp add: or.commute)
qed

lemma unat_pair32:
  "unat (ucast (a :: u16) OR push_bit 16 (ucast (b :: u16)) :: u32) = unat a + 65536 * unat b"
proof -
  have "unat (push_bit 16 (ucast b :: u32)) = 65536 * unat b"
    using unat_bound_u16 [of b] by (simp add: unat_push_bit unat_ucast_mod)
  moreover have "unat (ucast a :: u32) = unat a"
    using unat_bound_u16 [of a] by (simp add: unat_ucast_mod)
  ultimately show ?thesis
    using unat_or_disjoint [of "push_bit 16 (ucast b :: u32)" 16 "ucast a"] unat_bound_u16 [of a]
    by (simp add: or.commute)
qed

lemma unat_load16 [unat_norm]: "unat (load16 m i) = unat (m ! i) + 256 * unat (m ! (i + 1))"
  by (simp only: load16_def unat_pair16)

lemma unat_load32 [unat_norm]:
  "unat (load32 m i) = unat (load16 m i) + 65536 * unat (load16 m (i + 2))"
  by (simp only: load32_def unat_pair32)

lemma unat_bswap16 [unat_norm]: "unat (bswap16 w) = unat w div 256 + 256 * (unat w mod 256)"
proof -
  have "unat (push_bit 8 w) = 256 * (unat w mod 256)"
    using mod_mult_mult1 [of 256 "unat w" 256] by (simp add: unat_push_bit mult.commute)
  moreover have "unat (drop_bit 8 w) = unat w div 256" by (simp add: unat_drop_bit)
  moreover have "unat w div 256 < 256" using unat_bound_u16 [of w] by simp
  ultimately show ?thesis
    using unat_or_disjoint [of "push_bit 8 w" 8 "drop_bit 8 w"]
    by (simp add: bswap16_def)
qed

lemma bswap16_invol [simp]: "bswap16 (bswap16 w) = w"
proof (rule word_unat_eq_iff [THEN iffD2])
  have "unat w div 256 < 256" using unat_bound_u16 [of w] by simp
  then show "unat (bswap16 (bswap16 w)) = unat w"
    by (simp add: unat_bswap16)
qed

section \<open>Carries and sign extension\<close>

text \<open>Adding two words with the end-around carry of one's complement arithmetic.\<close>

lemma unat_end_around:
  fixes a b :: "'a::len word"
  shows "unat (if a + b < b then a + b + 1 else a + b)
    = (if unat a + unat b < 2 ^ LENGTH('a) then unat a + unat b
       else unat a + unat b + 1 - 2 ^ LENGTH('a))"
proof -
  define M :: nat where "M = 2 ^ LENGTH('a)"
  have M: "unat a < M" "unat b < M" by (simp_all add: M_def)
  have ab: "unat (a + b) = (unat a + unat b) mod M" by (simp add: unat_word_ariths M_def)
  show ?thesis
  proof (cases "unat a + unat b < M")
    case True
    with ab show ?thesis by (simp add: word_less_nat_alt M_def)
  next
    case False
    then have ab': "unat (a + b) = unat a + unat b - M"
      using ab M by (simp add: mod_if)
    then have "unat (a + b) + 1 < M" "a + b < b"
      using M False by (simp_all add: word_less_nat_alt)
    moreover from this have "unat (a + b + 1) = unat (a + b) + 1"
      by (simp add: unat_word_ariths M_def)
    ultimately show ?thesis using ab' False by (simp add: M_def)
  qed
qed

text \<open>A non-negative \<^verbatim>\<open>int\<close>, and its sign extension, keep their value.\<close>

lemma sint_u32_small:
  assumes "unat (x :: u32) < 2147483648"
  shows "sint x = int (unat x)"
proof -
  define n where "n = unat x"
  have n: "n < 2147483648" using assms by (simp add: n_def)
  have "signed_take_bit 31 (int n) = int n"
    by (rule signed_take_bit_int_eq_self) (use n in simp_all)
  moreover have "uint x = int n" by (simp add: n_def)
  ultimately have "sint x = int n" using sint_uint [of x] by simp
  then show ?thesis by (simp only: n_def)
qed

lemma sint_u32_wraps:
  assumes "2147483648 \<le> unat (x :: u32)"
  shows "sint x = int (unat x) - 4294967296"
proof -
  define n where "n = unat x"
  have n: "2147483648 \<le> n" "n < 4294967296" using assms unat_bound_u32 [of x] by (simp_all add: n_def)
  have "signed_take_bit 31 (int n - 4294967296) = int n - 4294967296"
    by (rule signed_take_bit_int_eq_self) (use n in simp_all)
  moreover have "x = word_of_int (int n - 4294967296)"
    by (simp add: n_def)
  ultimately have "sint x = int n - 4294967296"
    using signed_of_int [where 'a = int and 'b = 32, of "int n - 4294967296"] by simp
  then show ?thesis by (simp only: n_def)
qed

lemma sint_u32_big: "2147483648 \<le> unat (x :: u32) \<Longrightarrow> sint x < 0"
  unfolding sint_u32_wraps using unat_bound_u32 [of x] by linarith

lemma unat_scast_nonneg:
  assumes "unat (x :: u32) < 2147483648"
  shows "unat (scast x :: u64) = unat x"
proof -
  define n where "n = unat x"
  have "(scast x :: u64) = word_of_nat n"
    by (simp only: scast_eq sint_u32_small [OF assms] of_int_of_nat_eq n_def)
  moreover have "n < 2147483648" using assms by (simp add: n_def)
  ultimately show ?thesis unfolding n_def [symmetric] by (simp only: unat_word_of_nat) simp
qed

text \<open>A negative value sign-extends: its upper half is all ones.\<close>

lemma unat_scast_negative:
  assumes "2147483648 \<le> unat (x :: u32)"
  shows "unat (scast x :: u64) = 18446744069414584320 + unat x"
proof -
  define n where "n = unat x"
  have n: "2147483648 \<le> n" "n < 4294967296" using assms unat_bound_u32 [of x] by (simp_all add: n_def)
  have "(scast x :: u64) = word_of_int (int n - 4294967296)"
    by (simp only: scast_eq sint_u32_wraps [OF assms] n_def)
  also have "\<dots> = word_of_nat n + - 4294967296" by simp
  also have "(- 4294967296 :: u64) = word_of_nat 18446744069414584320" by simp
  finally have "(scast x :: u64) = word_of_nat (18446744069414584320 + n)" by (simp only: of_nat_add add.commute)
  then have "unat (scast x :: u64) = (18446744069414584320 + n) mod 2 ^ 64"
    by (simp only: unat_word_of_nat) simp
  also have "\<dots> = 18446744069414584320 + n" using n by (intro mod_less) simp
  finally show ?thesis by (simp only: n_def)
qed

section \<open>Little-endian numbers\<close>

fun le_nat :: "u8 list \<Rightarrow> nat" where
  "le_nat [] = 0"
| "le_nat (b # bs) = unat b + 256 * le_nat bs"

lemma le_nat_digit: "i < length bs \<Longrightarrow> le_nat bs div 256 ^ i mod 256 = unat (bs ! i)"
proof (induction bs arbitrary: i)
  case (Cons b bs)
  show ?case
  proof (cases i)
    case 0
    then show ?thesis using unat_bound_u8 [of b] by simp
  next
    case (Suc j)
    have "(unat b + 256 * le_nat bs) div 256 ^ Suc j = (unat b + 256 * le_nat bs) div 256 div 256 ^ j"
      by (simp add: div_mult2_eq)
    moreover have "(unat b + 256 * le_nat bs) div 256 = le_nat bs" using unat_bound_u8 [of b] by simp
    ultimately show ?thesis using Cons Suc by simp
  qed
qed simp

lemma le_nat_bound: "le_nat bs < 256 ^ length bs"
proof (induction bs)
  case (Cons b bs)
  then show ?case using unat_bound_u8 [of b] by simp
qed simp


fun le_bytes :: "nat \<Rightarrow> nat \<Rightarrow> u8 list" where
  "le_bytes 0 x = []"
| "le_bytes (Suc n) x = word_of_nat (x mod 256) # le_bytes n (x div 256)"

lemma le_bytes_length [simp]: "length (le_bytes n x) = n"
  by (induction n arbitrary: x) simp_all

lemma le_nat_bytes: "le_nat (le_bytes n x) = x mod 256 ^ n"
proof (induction n arbitrary: x)
  case (Suc n)
  have "unat (word_of_nat (x mod 256) :: u8) = x mod 256" by (simp add: unat_word_of_nat)
  with Suc show ?case by (simp add: mod_mult2_eq)
qed simp

lemma le_bytes_nat: "length bs = n \<Longrightarrow> le_bytes n (le_nat bs) = bs"
proof (induction bs arbitrary: n)
  case (Cons b bs)
  have "unat b < 256" by (rule unat_bound_u8)
  then have "(unat b + 256 * le_nat bs) mod 256 = unat b" "(unat b + 256 * le_nat bs) div 256 = le_nat bs" by simp_all
  with Cons show ?case by auto
qed simp

text \<open>Reading and writing \<open>n\<close> bytes of an object; \<open>None\<close> outside its bounds.\<close>

definition load_le :: "nat \<Rightarrow> u8 list \<Rightarrow> nat \<Rightarrow> nat option" where
  "load_le n m i = (if i + n \<le> length m then Some (le_nat (take n (drop i m))) else None)"

definition store_le :: "nat \<Rightarrow> u8 list \<Rightarrow> nat \<Rightarrow> nat \<Rightarrow> u8 list option" where
  "store_le n m i x = (if i + n \<le> length m then Some (take i m @ le_bytes n x @ drop (i + n) m) else None)"

lemma store_le_length [mem_simps]: "store_le n m i x = Some m' \<Longrightarrow> length m' = length m"
  by (auto simp: store_le_def split: if_splits)

lemma load_store_le [mem_simps]:
  "store_le n m i x = Some m' \<Longrightarrow> load_le n m' i = Some (x mod 256 ^ n)"
  by (auto simp: store_le_def load_le_def le_nat_bytes split: if_splits)

lemma load_store_le_other [mem_simps]:
  assumes "store_le n m i x = Some m'" and "j + k \<le> i \<or> i + n \<le> j"
  shows "load_le k m' j = load_le k m j"
proof -
  have m: "i + n \<le> length m" "m' = take i m @ le_bytes n x @ drop (i + n) m"
    using assms(1) by (simp_all add: store_le_def split: if_splits)
  have "take k (drop j m') = take k (drop j m)"
  proof (cases "j + k \<le> i")
    case True
    then have "take k (drop j (take i m)) = take k (drop j m)" by (simp add: drop_take min_def)
    with True m show ?thesis by simp
  next
    case False
    then obtain d where "j = i + n + d" using assms(2) by (metis le_Suc_ex)
    then show ?thesis using m by (simp add: add.commute)
  qed
  then show ?thesis using m by (simp add: load_le_def)
qed

end
