(* ===== verification/Checksum.thy ===== *)
theory Checksum
  imports LM_Prelude
begin

text \<open>
  The pseudo-header checksums of \<^verbatim>\<open>src/src/util.c\<close>. libmoon offloads the UDP and TCP checksum to the
  NIC, which expects the one's complement sum of the IP pseudo header in the checksum field.

  \<open>get_ipv4_psd_sum\<close> works on the header fields as the little-endian CPU loads them, at their C widths
  (\<open>64\<close>-bit accumulator, end-around carries at \<open>32\<close> and \<open>16\<close> bits, the promotion of
  \<^verbatim>\<open>next_proto_id << 24\<close> to a signed \<^verbatim>\<open>int\<close>); \<open>get_ipv6_psd_sum\<close> builds the 40-byte pseudo header and
  sums it word by word. Both are compared with \<open>oc_sum\<close>, the one's complement sum of RFC 1071 over the
  big-endian words of the pseudo header of RFC 768 and RFC 8200.
\<close>

section \<open>Headers as the CPU loads them\<close>

record rte_ipv4_hdr =
  ip4_total_length :: u16
  ip4_next_proto_id :: u8
  ip4_src_addr :: u32
  ip4_dst_addr :: u32

record rte_ipv6_hdr =
  ip6_payload_len :: u16
  ip6_proto :: u8
  ip6_addrs :: "u8 list"

text \<open>The packed structs of \<^verbatim>\<open>rte_ip.h\<close> laid over the packet bytes at an offset (RFC 791, RFC 8200).\<close>

definition ipv4_hdr_at :: "u8 list \<Rightarrow> nat \<Rightarrow> rte_ipv4_hdr" where
  "ipv4_hdr_at d o4 = \<lparr> ip4_total_length = load16 d (o4 + 2), ip4_next_proto_id = d ! (o4 + 9),
     ip4_src_addr = load32 d (o4 + 12), ip4_dst_addr = load32 d (o4 + 16) \<rparr>"

definition ipv6_hdr_at :: "u8 list \<Rightarrow> nat \<Rightarrow> rte_ipv6_hdr" where
  "ipv6_hdr_at d o6 = \<lparr> ip6_payload_len = load16 d (o6 + 4), ip6_proto = d ! (o6 + 6),
     ip6_addrs = take 32 (drop (o6 + 8) d) \<rparr>"

section \<open>util.c\<close>

text \<open>Lines 30 to 41: the layer-4 length in network byte order, by a byte swap or by shifts.\<close>

definition psd_len :: "u16 \<Rightarrow> u16" where
  "psd_len len =
     (if len AND 0xFF \<noteq> 0
      then bswap16 (bswap16 len - 20)
      else ucast (push_bit 8 ((ucast (drop_bit 8 len) :: u64) - 20)))"

definition get_ipv4_psd_sum :: "rte_ipv4_hdr \<Rightarrow> u16" where
  "get_ipv4_psd_sum ip_hdr =
     (let len = psd_len (ip4_total_length ip_hdr);
          sum = (ucast (ip4_src_addr ip_hdr) :: u64) + ucast (ip4_dst_addr ip_hdr)
            + scast (push_bit 24 (ucast (ip4_next_proto_id ip_hdr) :: 32 word) OR ucast len);
          lower = (ucast (sum AND 0xFFFFFFFF) :: u32);
          upper = (ucast (drop_bit 32 sum) :: u32);
          lower = lower + upper;
          lower = (if lower < upper then lower + 1 else lower);
          lower16 = (ucast (lower AND 0xFFFF) :: u16);
          upper16 = (ucast (drop_bit 16 lower) :: u16);
          lower16 = lower16 + upper16
      in if lower16 < upper16 then lower16 + 1 else lower16)"

text \<open>
  \<open>((uint16_t*) data)[offset] = csum\<close>: the store is out of bounds unless both bytes lie in the packet
  buffer, and the header read needs the whole header.
\<close>

definition store_csum :: "u8 list \<Rightarrow> int \<Rightarrow> u16 \<Rightarrow> u8 list option" where
  "store_csum d off csum =
     (if 0 \<le> off \<and> 2 * nat off + 1 < length d then Some (store16 d (2 * nat off) csum) else None)"

definition calc_ipv4_pseudo_header_checksum :: "u8 list \<Rightarrow> int \<Rightarrow> u8 list option" where
  "calc_ipv4_pseudo_header_checksum d off =
     (if 34 \<le> length d
      then let csum = get_ipv4_psd_sum (ipv4_hdr_at d 14) in store_csum d off csum
      else None)"

function get_16b_loop :: "u32 \<Rightarrow> u8 list \<Rightarrow> u32 \<Rightarrow> u32 \<times> u8 list \<times> u32" where
  "get_16b_loop acc ptr16 nr =
     (if 1 < nr
      then let acc' = acc + ucast (load16 ptr16 0)
           in get_16b_loop (if 0xFFFF < acc' then acc' - 0xFFFF else acc') (drop 2 ptr16) (nr - 2)
      else (acc, ptr16, nr))"
  by pat_completeness auto
termination
proof (relation "measure (\<lambda>(s, p, nr). unat nr)")
  fix acc x :: u32 and ptr16 :: "u8 list" and nr :: u32
  assume "1 < nr"
  then have "1 < unat nr" by (simp add: word_less_nat_alt)
  moreover from this have "unat (nr - 2) = unat nr - 2" by (simp add: unat_sub word_le_nat_alt)
  ultimately show "((if 0xFFFF < x then x - 0xFFFF else x, drop 2 ptr16, nr - 2), acc, ptr16, nr)
    \<in> measure (\<lambda>(s, p, nr). unat nr)" by simp
qed simp

declare get_16b_loop.simps [simp del]

definition get_16b_sum :: "u8 list \<Rightarrow> u32 \<Rightarrow> u16" where
  "get_16b_sum ptr16 nr =
     (let (sum, ptr16, nr) = get_16b_loop 0 ptr16 nr;
          sum = (if nr \<noteq> 0 then sum + ucast (ptr16 ! 0) else sum);
          sum = drop_bit 16 (sum AND 0xffff0000) + (sum AND 0xffff);
          sum = sum AND 0x0ffff
      in ucast sum)"

definition ipv6_psd_header :: "rte_ipv6_hdr \<Rightarrow> u8 list" where
  "ipv6_psd_header ip_hdr =
     ip6_addrs ip_hdr @ bytes32 (ucast (ip6_payload_len ip_hdr))
       @ bytes32 (push_bit 24 (ucast (ip6_proto ip_hdr)))"

definition get_ipv6_psd_sum :: "rte_ipv6_hdr \<Rightarrow> u16" where
  "get_ipv6_psd_sum ip_hdr = get_16b_sum (ipv6_psd_header ip_hdr) 40"

definition calc_ipv6_pseudo_header_checksum :: "u8 list \<Rightarrow> int \<Rightarrow> u8 list option" where
  "calc_ipv6_pseudo_header_checksum d off =
     (if 54 \<le> length d
      then let csum = get_ipv6_psd_sum (ipv6_hdr_at d 14) in store_csum d off csum
      else None)"

text \<open>
  The batch loops run over an array of mbuf pointers. \<open>heap\<close> maps an mbuf to the bytes
  \<^verbatim>\<open>rte_pktmbuf_mtod\<close> points to, so an array that names one mbuf twice is modelled as such.
\<close>

fun calc_checksums :: "(u8 list \<Rightarrow> int \<Rightarrow> u8 list option) \<Rightarrow> ('p \<rightharpoonup> u8 list) \<Rightarrow> 'p list \<Rightarrow> int
    \<Rightarrow> ('p \<rightharpoonup> u8 list) option" where
  "calc_checksums calc heap [] off = Some heap"
| "calc_checksums calc heap (p # ps) off =
     (case heap p of None \<Rightarrow> None
      | Some d \<Rightarrow> (case calc d off of None \<Rightarrow> None
          | Some d' \<Rightarrow> calc_checksums calc (heap(p \<mapsto> d')) ps off))"

definition calc_ipv4_pseudo_header_checksums ::
    "('p \<rightharpoonup> u8 list) \<Rightarrow> 'p list \<Rightarrow> int \<Rightarrow> int \<Rightarrow> ('p \<rightharpoonup> u8 list) option" where
  "calc_ipv4_pseudo_header_checksums heap data n off =
     (if int (length data) < n then None
      else calc_checksums calc_ipv4_pseudo_header_checksum heap (take (nat n) data) off)"

definition calc_ipv6_pseudo_header_checksums ::
    "('p \<rightharpoonup> u8 list) \<Rightarrow> 'p list \<Rightarrow> int \<Rightarrow> int \<Rightarrow> ('p \<rightharpoonup> u8 list) option" where
  "calc_ipv6_pseudo_header_checksums heap data n off =
     (if int (length data) < n then None
      else calc_checksums calc_ipv6_pseudo_header_checksum heap (take (nat n) data) off)"

text \<open>The time stamp counter, assembled from the registers the instruction leaves its halves in.\<close>

definition read_rdtsc :: "u32 \<Rightarrow> u32 \<Rightarrow> u64" where
  "read_rdtsc eax edx = ucast eax OR push_bit 32 (ucast edx)"

section \<open>One's complement sums (RFC 1071)\<close>

definition oc_add :: "nat \<Rightarrow> nat \<Rightarrow> nat" where
  "oc_add a b = (if 65535 < a + b then a + b - 65535 else a + b)"

definition oc_sum :: "nat list \<Rightarrow> nat" where
  "oc_sum ws = foldl oc_add 0 ws"

definition be16 :: "u8 list \<Rightarrow> nat \<Rightarrow> nat" where
  "be16 d i = 256 * unat (d ! i) + unat (d ! (i + 1))"

text \<open>Pseudo headers as big-endian words: the Ethernet header takes 14 bytes.\<close>

definition ipv4_ihl :: "u8 list \<Rightarrow> nat" where
  "ipv4_ihl d = unat (d ! 14) mod 16"

definition ipv4_pseudo_words :: "u8 list \<Rightarrow> nat list" where
  "ipv4_pseudo_words d =
     [be16 d 26, be16 d 28, be16 d 30, be16 d 32, unat (d ! 23), be16 d 16 - 4 * ipv4_ihl d]"

definition ipv6_pseudo_words :: "u8 list \<Rightarrow> nat list" where
  "ipv6_pseudo_words d =
     map (\<lambda>k. be16 d (22 + 2 * k)) [0..<16] @ [be16 d 18, unat (d ! 20)]"

text \<open>The sum of the IPv4 pseudo header in the operands \<open>get_ipv4_psd_sum\<close> adds: the addresses as
  little-endian 32-bit numbers, the protocol in the top byte of a third one and the layer-4 length, byte
  swapped, in its lower half. A carry is what this sum has beyond 32 bits.\<close>

definition ipv4_le_total :: "u8 list \<Rightarrow> nat" where
  "ipv4_le_total d =
     (let l4 = be16 d 16 - 4 * ipv4_ihl d
      in unat (load32 d 26) + unat (load32 d 30) + (16777216 * unat (d ! 23) + (256 * (l4 mod 256) + l4 div 256)))"

definition oc_norm :: "nat \<Rightarrow> nat" where
  "oc_norm s = (if s = 0 then 0 else (s - 1) mod 65535 + 1)"

lemma oc_norm_le: "oc_norm s \<le> 65535"
proof -
  have "(s - 1) mod 65535 < 65535" by simp
  then show ?thesis unfolding oc_norm_def by (simp only: split: if_split) linarith
qed

lemma oc_norm_mod: "oc_norm s mod 65535 = s mod 65535"
proof (cases "s = 0")
  case False
  then have "((s - 1) mod 65535 + 1) mod 65535 = ((s - 1) + 1) mod 65535"
    by (simp only: mod_add_left_eq)
  with False show ?thesis by (simp add: oc_norm_def)
qed (simp add: oc_norm_def)

lemma oc_norm_0: "oc_norm s = 0 \<longleftrightarrow> s = 0"
  by (simp add: oc_norm_def)

lemma oc_norm_unique:
  assumes "x \<le> 65535" and "x mod 65535 = s mod 65535" and "x = 0 \<longleftrightarrow> s = 0"
  shows "x = oc_norm s"
proof -
  have eq: "x mod 65535 = oc_norm s mod 65535" using assms(2) oc_norm_mod by simp
  have z: "x = 0 \<longleftrightarrow> oc_norm s = 0" using assms(3) oc_norm_0 by simp
  have le: "oc_norm s \<le> 65535" by (rule oc_norm_le)
  show ?thesis
  proof (cases "x = 65535 \<or> oc_norm s = 65535")
    case True
    with eq z assms(1) le show ?thesis by (auto simp: le_less)
  next
    case False
    with eq assms(1) le show ?thesis by (simp add: le_less)
  qed
qed

lemma oc_norm_cong: "s mod 65535 = t mod 65535 \<Longrightarrow> s = 0 \<longleftrightarrow> t = 0 \<Longrightarrow> oc_norm s = oc_norm t"
  by (rule oc_norm_unique) (simp_all add: oc_norm_le oc_norm_mod oc_norm_0)

lemma oc_add_norm: "b \<le> 65535 \<Longrightarrow> oc_add (oc_norm s) b = oc_norm (s + b)"
  using oc_norm_le [of s] oc_norm_mod [of s] oc_norm_0 [of s]
  by (intro oc_norm_unique)
     (auto simp: oc_add_def le_mod_geq [symmetric] mod_add_left_eq [symmetric, of "s"]
        mod_add_left_eq [symmetric, of "oc_norm s"])

lemma foldl_oc_add_norm:
  "\<forall>w \<in> set ws. w \<le> 65535 \<Longrightarrow> foldl oc_add (oc_norm s) ws = oc_norm (s + sum_list ws)"
  by (induction ws arbitrary: s) (simp_all add: oc_add_norm add.assoc)

lemma oc_sum_norm: "\<forall>w \<in> set ws. w \<le> 65535 \<Longrightarrow> oc_sum ws = oc_norm (sum_list ws)"
  using foldl_oc_add_norm [of ws 0] by (simp add: oc_sum_def oc_norm_def)

text \<open>Byte order independence of the one's complement sum.\<close>

lemma bswap16_decomp: "256 * unat w = unat (bswap16 w) + 65535 * (unat w div 256)"
  using div_mult_mod_eq [of "unat w" 256] unfolding unat_bswap16 by linarith

lemma bswap16_mod: "unat (bswap16 w) mod 65535 = (256 * unat w) mod 65535"
  unfolding bswap16_decomp by (rule mod_mult_self2 [symmetric])

lemma bswap16_0: "unat (bswap16 w) = 0 \<longleftrightarrow> unat w = 0"
  using div_mult_mod_eq [of "unat w" 256] unfolding unat_bswap16 by linarith

lemma oc_norm_bswap16:
  assumes "unat w = oc_norm s" shows "unat (bswap16 w) = oc_norm (256 * s)"
proof (rule oc_norm_unique)
  show "unat (bswap16 w) \<le> 65535" using unat_bound_u16 [of "bswap16 w"] by simp
  have "unat (bswap16 w) mod 65535 = (256 * (oc_norm s mod 65535)) mod 65535"
    using bswap16_mod [of w] assms by (simp add: mod_mult_right_eq)
  then show "unat (bswap16 w) mod 65535 = (256 * s) mod 65535"
    by (simp add: oc_norm_mod mod_mult_right_eq)
  show "unat (bswap16 w) = 0 \<longleftrightarrow> 256 * s = 0" using assms by (simp add: bswap16_0 oc_norm_0)
qed


section \<open>The IPv4 sum\<close>

lemma unat_sub_u16: "b \<le> a \<Longrightarrow> unat (a - b :: u16) = unat a - unat b"
  by (simp add: unat_sub)

lemma and_mask8_u16: "unat (len AND 0xFF :: u16) = unat len mod 256"
  using unat_mask_and [of len 8] by (simp add: mask_eq_exp_minus_1)

lemma psd_len_sound:
  assumes "20 \<le> unat (bswap16 len)"
  shows "unat (bswap16 (psd_len len)) = unat (bswap16 len) - 20"
proof (cases "len AND 0xFF = 0")
  case False
  have "unat (bswap16 len - 20) = unat (bswap16 len) - 20"
    using assms by (subst unat_sub_u16) (simp_all add: word_le_nat_alt)
  with False show ?thesis by (simp add: psd_len_def)
next
  case True
  then have low: "unat len mod 256 = 0" using and_mask8_u16 [of len] by simp
  define k where "k = unat len div 256"
  have k: "unat (bswap16 len) = k" using low by (simp add: unat_bswap16 k_def)
  have kb: "20 \<le> k" "k < 256" using assms unat_bound_u16 [of len] by (simp_all add: k k_def)
  have c: "unat (ucast (drop_bit 8 len) :: u64) = k"
    using kb unfolding unat_ucast_mod unat_drop_bit by (simp add: k_def)
  have "unat ((ucast (drop_bit 8 len) :: u64) - 20) = k - 20"
    using kb c by (subst unat_sub) (simp_all add: word_le_nat_alt)
  then have "unat (psd_len len) = 256 * (k - 20)"
    using True kb unfolding psd_len_def
    by (simp add: unat_ucast_mod unat_push_bit del: push_bit_numeral)
  then show ?thesis using k by (simp add: unat_bswap16 [of "psd_len len"])
qed

lemma and_mask16_u32: "unat (x AND 0xFFFF :: u32) = unat x mod 65536"
  using unat_mask_and [of x 16] by (simp add: mask_eq_exp_minus_1)

lemma and_mask32_u64: "unat (x AND 0xFFFFFFFF :: u64) = unat x mod 4294967296"
  using unat_mask_and [of x 32] by (simp add: mask_eq_exp_minus_1)

text \<open>Folding the halves of a sum with an end-around carry keeps it modulo \<open>65535\<close>.\<close>

lemma fold_halves:
  fixes S T m k q r :: nat
  assumes "m = 65535 * k + 1" and "r = S mod m" and "q = S div m" and "q < m"
    and "T = (if r + q < m then r + q else r + q + 1 - m)"
  shows "T mod 65535 = S mod 65535" and "T = 0 \<longleftrightarrow> S = 0" and "T < m"
proof -
  have S: "S = q * m + r" unfolding assms(2,3) by (rule div_mult_mod_eq [symmetric])
  have r: "r < m" using assms(1,2) by simp
  have "r + q + 1 - m < m" if "\<not> r + q < m" using assms(4) r that by linarith
  then show "T < m" using assms(5) by simp
  show "T = 0 \<longleftrightarrow> S = 0" using assms(1,4,5) r S by auto
  have "S = T + 65535 * (k * q) \<or> S = T + 65535 * (k * q + k)"
    using assms(1,5) S by (auto simp: algebra_simps)
  then show "T mod 65535 = S mod 65535" by (elim disjE) (simp_all only: mod_mult_self2)
qed

text \<open>The operand \<^verbatim>\<open>(next_proto_id << 24) | len\<close>, an \<^verbatim>\<open>int\<close>, and the 64-bit sum it enters sign-extended.\<close>

abbreviation psd_operand :: "rte_ipv4_hdr \<Rightarrow> u32" where
  "psd_operand h \<equiv> push_bit 24 (ucast (ip4_next_proto_id h)) OR ucast (psd_len (ip4_total_length h))"

abbreviation psd_accumulator :: "rte_ipv4_hdr \<Rightarrow> u64" where
  "psd_accumulator h \<equiv> ucast (ip4_src_addr h) + ucast (ip4_dst_addr h) + scast (psd_operand h)"

lemma unat_psd_operand:
  "unat (psd_operand h) = 16777216 * unat (ip4_next_proto_id h) + unat (psd_len (ip4_total_length h))"
proof -
  let ?len = "psd_len (ip4_total_length h)"
  have "unat (push_bit 24 (ucast (ip4_next_proto_id h)) :: u32) = 16777216 * unat (ip4_next_proto_id h)"
    using unat_bound_u8 [of "ip4_next_proto_id h"] unfolding unat_push_bit unat_ucast_mod by simp
  moreover have "unat (ucast ?len :: u32) = unat ?len"
    using unat_bound_u16 [of ?len] unfolding unat_ucast_mod by simp
  ultimately show ?thesis
    using unat_or_disjoint [of "push_bit 24 (ucast (ip4_next_proto_id h)) :: u32" 16 "ucast ?len"]
      unat_bound_u16 [of ?len] by simp
qed

lemma unat_psd_accumulator:
  "unat (psd_accumulator h) = (unat (ip4_src_addr h) + unat (ip4_dst_addr h)
    + unat (scast (psd_operand h) :: u64)) mod 18446744073709551616"
  using unat_bound_u32 [of "ip4_src_addr h"] unat_bound_u32 [of "ip4_dst_addr h"]
  by (simp add: unat_add_u64 unat_ucast_mod mod_add_left_eq)

text \<open>The two folds reduce whatever the accumulator holds to its one's complement value.\<close>

lemma get_ipv4_psd_sum_folds: "unat (get_ipv4_psd_sum h) = oc_norm (unat (psd_accumulator h))"
proof -
  define sm :: u64 where "sm = psd_accumulator h"
  define S where "S = unat sm"
  define a b :: u32 where "a = ucast (sm AND 0xFFFFFFFF)" and "b = ucast (drop_bit 32 sm)"
  define L where "L = (if a + b < b then a + b + 1 else a + b)"
  define a' b' :: u16 where "a' = ucast (L AND 0xFFFF)" and "b' = ucast (drop_bit 16 L)"
  define U where "U = (if a' + b' < b' then a' + b' + 1 else a' + b')"
  have U: "get_ipv4_psd_sum h = U"
    by (simp add: get_ipv4_psd_sum_def Let_def U_def a'_def b'_def L_def a_def b_def sm_def)
  have S: "S < 18446744073709551616" using unat_bound_u64 [of sm] by (simp add: S_def)
  have a: "unat a = S mod 4294967296" by (simp add: a_def unat_ucast_mod and_mask32_u64 S_def)
  have b: "unat b = S div 4294967296" and q: "S div 4294967296 < 4294967296"
    using S unfolding b_def unat_ucast_mod unat_drop_bit S_def [symmetric] by simp_all
  have L0: "unat L = (if unat a + unat b < 4294967296 then unat a + unat b
      else unat a + unat b + 1 - 4294967296)"
    using unat_end_around [of a b] by (simp add: L_def)
  have L: "unat L mod 65535 = S mod 65535" "unat L = 0 \<longleftrightarrow> S = 0"
    using fold_halves [OF _ a b _ L0, of 65537] q b by simp_all
  have a': "unat a' = unat L mod 65536" by (simp add: a'_def unat_ucast_mod and_mask16_u32)
  have b': "unat b' = unat L div 65536" and q': "unat L div 65536 < 65536"
    using unat_bound_u32 [of L] unfolding b'_def unat_ucast_mod unat_drop_bit by simp_all
  have U0: "unat U = (if unat a' + unat b' < 65536 then unat a' + unat b'
      else unat a' + unat b' + 1 - 65536)"
    using unat_end_around [of a' b'] by (simp add: U_def)
  have "unat U mod 65535 = unat L mod 65535" "unat U = 0 \<longleftrightarrow> unat L = 0"
    using fold_halves [OF _ a' b' _ U0, of 1] q' b' by simp_all
  with L have "unat U = oc_norm S"
    by (intro oc_norm_unique) (use unat_bound_u16 [of U] in simp_all)
  then show ?thesis by (simp add: U S_def sm_def)
qed

text \<open>The sum the code means to compute, and the value the accumulator has for it: below protocol number
  128 the sum itself, from 128 on a value that has lost a carry when the sum has one.\<close>

definition psd_le_sum :: "rte_ipv4_hdr \<Rightarrow> nat" where
  "psd_le_sum h = unat (ip4_src_addr h) + unat (ip4_dst_addr h)
     + (16777216 * unat (ip4_next_proto_id h) + unat (psd_len (ip4_total_length h)))"

lemma psd_le_sum_bound: "psd_le_sum h < 12884901888"
  using unat_bound_u32 [of "ip4_src_addr h"] unat_bound_u32 [of "ip4_dst_addr h"]
    unat_bound_u32 [of "psd_operand h"] unfolding psd_le_sum_def unat_psd_operand by linarith

lemma get_ipv4_psd_sum_norm:
  assumes "unat (ip4_next_proto_id h) < 128"
  shows "unat (get_ipv4_psd_sum h) = oc_norm (psd_le_sum h)"
proof -
  have "unat (scast (psd_operand h) :: u64) = unat (psd_operand h)"
    by (rule unat_scast_nonneg)
       (use assms unat_bound_u16 [of "psd_len (ip4_total_length h)"] in \<open>unfold unat_psd_operand, linarith\<close>)
  then have "unat (psd_accumulator h) = psd_le_sum h mod 18446744073709551616"
    by (simp only: unat_psd_accumulator unat_psd_operand psd_le_sum_def)
  also have "\<dots> = psd_le_sum h" using psd_le_sum_bound [of h] by (intro mod_less) linarith
  finally show ?thesis by (simp only: get_ipv4_psd_sum_folds)
qed

lemma get_ipv4_psd_sum_high:
  assumes "128 \<le> unat (ip4_next_proto_id h)"
  shows "unat (get_ipv4_psd_sum h)
    = oc_norm (if psd_le_sum h < 4294967296 then psd_le_sum h else psd_le_sum h - 4294967296)"
proof -
  define Y where "Y = psd_le_sum h"
  have Y: "Y < 12884901888" "0 < Y" using psd_le_sum_bound [of h] assms by (simp_all add: Y_def psd_le_sum_def)
  have "unat (scast (psd_operand h) :: u64) = 18446744069414584320 + unat (psd_operand h)"
    by (rule unat_scast_negative) (use assms in \<open>unfold unat_psd_operand, linarith\<close>)
  then have acc: "unat (psd_accumulator h) = (18446744069414584320 + Y) mod 18446744073709551616"
    by (simp only: unat_psd_accumulator unat_psd_operand Y_def psd_le_sum_def) (simp only: ac_simps)
  have "oc_norm (unat (psd_accumulator h)) = oc_norm (if Y < 4294967296 then Y else Y - 4294967296)"
  proof (cases "Y < 4294967296")
    case True
    then have "unat (psd_accumulator h) = Y + 65535 * 281479271677952" using acc by simp
    then have "oc_norm (unat (psd_accumulator h)) = oc_norm Y"
      by (intro oc_norm_cong) (use Y in \<open>simp_all only: mod_mult_self2, simp\<close>)
    with True show ?thesis by simp
  next
    case False
    then have "unat (psd_accumulator h) = Y - 4294967296"
      using acc Y mod_if [of "18446744069414584320 + Y" 18446744073709551616] by simp
    with False show ?thesis by simp
  qed
  then show ?thesis by (simp only: get_ipv4_psd_sum_folds Y_def)
qed


section \<open>The sums over packet bytes\<close>

lemma be16_load16: "be16 d i = unat (bswap16 (load16 d i))"
proof -
  have "unat (d ! i) < 256" by (rule unat_bound_u8)
  then show ?thesis unfolding be16_def unat_bswap16 unat_load16 by simp
qed

lemma be16_store16:
  assumes "i + 1 < length d"
  shows "be16 (store16 d i w) i = unat (bswap16 w)"
proof -
  have "unat (ucast w :: u8) = unat w mod 256" by (simp add: unat_ucast_mod)
  moreover have "unat (ucast (drop_bit 8 w) :: u8) = unat w div 256"
    using unat_bound_u16 [of w] unfolding unat_ucast_mod unat_drop_bit by simp
  ultimately show ?thesis using assms by (simp add: be16_def store16_def unat_bswap16)
qed

lemma load16_swap_decomp: "256 * unat (load16 d i) = be16 d i + 65535 * unat (d ! (i + 1))"
  unfolding be16_def unat_load16 by (simp add: algebra_simps)

lemma load16_zero: "unat (load16 d i) = 0 \<longleftrightarrow> be16 d i = 0"
  unfolding be16_def unat_load16 by linarith

lemma be16_bound: "be16 d i \<le> 65535"
  using unat_bound_u8 [of "d ! i"] unat_bound_u8 [of "d ! (i + 1)"] unfolding be16_def by linarith

lemma oc_sum_of_le:
  assumes "unat w = oc_norm s" and "256 * s = t + 65535 * k" and "s = 0 \<longleftrightarrow> t = 0"
  shows "unat (bswap16 w) = oc_norm t"
proof -
  have "unat (bswap16 w) = oc_norm (256 * s)" by (rule oc_norm_bswap16) (rule assms(1))
  also have "\<dots> = oc_norm t" by (rule oc_norm_cong) (use assms(2,3) in auto)
  finally show ?thesis .
qed

lemma ipv4_words_linear:
  fixes a b c e p l :: nat
  assumes "256 * a = A + 65535 * a1" and "256 * b = B + 65535 * b1"
    and "256 * c = C + 65535 * c1" and "256 * e = E + 65535 * e1" and "256 * l = L + 65535 * l1"
  shows "256 * (a + 65536 * b + (c + 65536 * e) + (16777216 * p + l))
    = A + B + C + E + p + L
      + 65535 * (a1 + 65536 * b1 + c1 + 65536 * e1 + B + E + 65537 * p + l1)"
proof -
  have "16777216 * b = 65536 * (B + 65535 * b1)" using arg_cong [OF assms(2), of "\<lambda>x. 65536 * x"] by simp
  moreover have "16777216 * e = 65536 * (E + 65535 * e1)" using arg_cong [OF assms(4), of "\<lambda>x. 65536 * x"] by simp
  ultimately show ?thesis using assms by simp
qed

lemma ipv4_words_of_le:
  assumes ihl: "ipv4_ihl d = 5" and tl: "20 \<le> be16 d 16"
  obtains k where "256 * psd_le_sum (ipv4_hdr_at d 14) = sum_list (ipv4_pseudo_words d) + 65535 * k"
    and "psd_le_sum (ipv4_hdr_at d 14) = 0 \<longleftrightarrow> sum_list (ipv4_pseudo_words d) = 0"
proof -
  define pl where "pl = psd_len (load16 d 16)"
  define k where "k = unat (d ! 27) + 65536 * unat (d ! 29) + unat (d ! 31)
    + 65536 * unat (d ! 33) + be16 d 28 + be16 d 32 + 65537 * unat (d ! 23) + unat pl div 256"
  note words = ipv4_words_linear [OF load16_swap_decomp [of d 26] load16_swap_decomp [of d 28]
      load16_swap_decomp [of d 30] load16_swap_decomp [of d 32] bswap16_decomp [of pl], of "unat (d ! 23)"]
  have s: "psd_le_sum (ipv4_hdr_at d 14) = unat (load32 d 26) + unat (load32 d 30) + (16777216 * unat (d ! 23) + unat pl)"
    by (simp add: psd_le_sum_def ipv4_hdr_at_def pl_def)
  have "unat (bswap16 pl) = be16 d 16 - 4 * ipv4_ihl d"
    using psd_len_sound [of "load16 d 16"] tl ihl by (simp add: pl_def be16_load16)
  then have t: "sum_list (ipv4_pseudo_words d)
      = be16 d 26 + be16 d 28 + be16 d 30 + be16 d 32 + unat (d ! 23) + unat (bswap16 pl)"
    by (simp add: ipv4_pseudo_words_def)
  have "256 * psd_le_sum (ipv4_hdr_at d 14) = sum_list (ipv4_pseudo_words d) + 65535 * k"
    using words unfolding s t k_def unat_load32 by simp
  moreover have "psd_le_sum (ipv4_hdr_at d 14) = 0 \<longleftrightarrow> sum_list (ipv4_pseudo_words d) = 0"
    using load16_zero [of d 26] load16_zero [of d 28] load16_zero [of d 30] load16_zero [of d 32]
      bswap16_0 [of pl] unfolding s t unat_load32 by simp
  ultimately show ?thesis by (rule that)
qed

lemma oc_sum_ipv4_words: "oc_sum (ipv4_pseudo_words d) = oc_norm (sum_list (ipv4_pseudo_words d))"
  using unat_bound_u8 [of "d ! 23"] be16_bound [of d 26] be16_bound [of d 28] be16_bound [of d 30]
    be16_bound [of d 32] be16_bound [of d 16]
  by (intro oc_sum_norm) (simp add: ipv4_pseudo_words_def)

lemma ipv4_psd_sum_words:
  assumes "ipv4_ihl d = 5" and "20 \<le> be16 d 16" and "unat (d ! 23) < 128"
  shows "unat (bswap16 (get_ipv4_psd_sum (ipv4_hdr_at d 14))) = oc_sum (ipv4_pseudo_words d)"
proof -
  have "unat (get_ipv4_psd_sum (ipv4_hdr_at d 14)) = oc_norm (psd_le_sum (ipv4_hdr_at d 14))"
    by (rule get_ipv4_psd_sum_norm) (use assms(3) in \<open>simp add: ipv4_hdr_at_def\<close>)
  from oc_sum_of_le [OF this] show ?thesis
    using ipv4_words_of_le [OF assms(1,2)] by (metis oc_sum_ipv4_words)
qed

lemma psd_le_sum_total:
  assumes "ipv4_ihl d = 5" and "20 \<le> be16 d 16"
  shows "psd_le_sum (ipv4_hdr_at d 14) = ipv4_le_total d"
proof -
  define pl where "pl = psd_len (load16 d 16)"
  have l4: "unat (bswap16 pl) = be16 d 16 - 20"
    using psd_len_sound [of "load16 d 16"] assms(2) by (simp add: pl_def be16_load16)
  have "unat pl = unat (bswap16 (bswap16 pl))" by simp
  also have "\<dots> = 256 * ((be16 d 16 - 20) mod 256) + (be16 d 16 - 20) div 256"
    by (subst unat_bswap16) (simp add: l4)
  finally show ?thesis using assms(1) by (simp add: psd_le_sum_def ipv4_hdr_at_def ipv4_le_total_def pl_def Let_def)
qed

text \<open>From protocol number 128 on the sum is short by the carry it should have had: 1 in the order the CPU
  adds in, 256 in network byte order.\<close>

lemma ipv4_psd_sum_high:
  assumes "ipv4_ihl d = 5" and "20 \<le> be16 d 16" and "128 \<le> unat (d ! 23)"
  shows "oc_sum (ipv4_pseudo_words d)
    = (if psd_le_sum (ipv4_hdr_at d 14) < 4294967296
       then unat (bswap16 (get_ipv4_psd_sum (ipv4_hdr_at d 14)))
       else oc_add (unat (bswap16 (get_ipv4_psd_sum (ipv4_hdr_at d 14)))) 256)"
proof -
  define Y t where "Y = psd_le_sum (ipv4_hdr_at d 14)" and "t = sum_list (ipv4_pseudo_words d)"
  define w where "w = get_ipv4_psd_sum (ipv4_hdr_at d 14)"
  have t0: "t \<noteq> 0" using assms(3) by (simp add: t_def ipv4_pseudo_words_def)
  have w: "unat w = oc_norm (if Y < 4294967296 then Y else Y - 4294967296)"
    unfolding w_def Y_def by (rule get_ipv4_psd_sum_high) (use assms(3) in \<open>simp add: ipv4_hdr_at_def\<close>)
  obtain k where k: "256 * Y = t + 65535 * k" "Y = 0 \<longleftrightarrow> t = 0"
    using ipv4_words_of_le [OF assms(1,2)] unfolding Y_def t_def by metis
  show ?thesis
  proof (cases "Y < 4294967296")
    case True
    then have "unat (bswap16 w) = oc_norm t" using w by (intro oc_sum_of_le [OF _ k]) simp
    with True show ?thesis by (simp add: oc_sum_ipv4_words t_def w_def Y_def)
  next
    case False
    define Z where "Z = Y - 4294967296"
    have "256 * Z + 256 + 65535 * 16777472 = 256 * Y" using False by (simp add: Z_def)
    then have Z: "256 * Z + 256 + 65535 * 16777472 = t + 65535 * k" using k(1) by simp
    have "(256 * Z + 256) mod 65535 = t mod 65535"
      using arg_cong [OF Z, of "\<lambda>x. x mod 65535"] by (simp only: mod_mult_self2)
    then have "oc_norm (256 * Z + 256) = oc_norm t" using t0 by (intro oc_norm_cong) simp_all
    moreover have "unat (bswap16 w) = oc_norm (256 * Z)" using w False by (intro oc_norm_bswap16) (simp add: Z_def)
    then have "oc_add (unat (bswap16 w)) 256 = oc_norm (256 * Z + 256)" by (simp add: oc_add_norm)
    ultimately show ?thesis using False by (simp add: oc_sum_ipv4_words t_def w_def Y_def)
  qed
qed

lemma store_csum_effect:
  assumes "0 \<le> off" and "2 * nat off + 1 < length d"
  shows "store_csum d off w = Some (store16 d (2 * nat off) w)
    \<and> length (store16 d (2 * nat off) w) = length d
    \<and> be16 (store16 d (2 * nat off) w) (2 * nat off) = unat (bswap16 w)
    \<and> (\<forall>i. i \<noteq> 2 * nat off \<and> i \<noteq> 2 * nat off + 1 \<longrightarrow> store16 d (2 * nat off) w ! i = d ! i)"
  using assms be16_store16 [of "2 * nat off" d w] by (simp add: store_csum_def store16_def)


section \<open>The word-by-word sum\<close>

text \<open>The little-endian words of a byte string, an odd last byte standing for itself.\<close>

fun le_words :: "u8 list \<Rightarrow> nat list" where
  "le_words (a # b # r) = (unat a + 256 * unat b) # le_words r"
| "le_words [a] = [unat a]"
| "le_words [] = []"

definition le_words_rest :: "u8 list \<Rightarrow> nat list" where
  "le_words_rest p = (if p = [] then [] else [unat (p ! 0)])"

lemma unat_oc_step:
  assumes "unat (acc :: u32) \<le> 65535"
  shows "unat (if 0xFFFF < acc + ucast (w :: u16) then acc + ucast w - 0xFFFF else acc + ucast w)
    = oc_add (unat acc) (unat w)"
proof -
  have add: "unat (acc + ucast w) = unat acc + unat w"
    using assms unat_bound_u16 [of w] by (simp add: unat_add_u32 unat_ucast_mod)
  have "unat (acc + ucast w - 0xFFFF) = unat acc + unat w - 65535" if "65535 < unat acc + unat w"
    using that by (subst unat_sub) (simp_all add: word_le_nat_alt add)
  then show ?thesis by (simp add: oc_add_def word_less_nat_alt add)
qed

lemma oc_add_le: "a \<le> 65535 \<Longrightarrow> b \<le> 65535 \<Longrightarrow> oc_add a b \<le> 65535"
  unfolding oc_add_def by (split if_split) linarith

lemma get_16b_loop_spec:
  assumes "length p = unat nr" and "unat acc \<le> 65535"
  shows "\<exists>acc' p' nr'. get_16b_loop acc p nr = (acc', p', nr') \<and> length p' = unat nr' \<and> unat nr' \<le> 1
    \<and> unat acc' \<le> 65535
    \<and> foldl oc_add (unat acc) (le_words p) = foldl oc_add (unat acc') (le_words_rest p')"
  using assms
proof (induction acc p nr rule: get_16b_loop.induct)
  case (1 acc p nr)
  show ?case
  proof (cases "1 < nr")
    case True
    then have nr: "1 < unat nr" by (simp add: word_less_nat_alt)
    then obtain a b r where p: "p = a # b # r"
      using "1.prems"(1) by (metis One_nat_def length_Cons less_numeral_extra(3) less_numeral_extra(4) list.exhaust list.size(3) not_one_less_zero)
    let ?acc = "if 0xFFFF < acc + ucast (load16 p 0) then acc + ucast (load16 p 0) - 0xFFFF
      else acc + ucast (load16 p 0)"
    have w: "unat (load16 p 0) = unat a + 256 * unat b" by (simp add: unat_load16 p)
    have acc: "unat ?acc = oc_add (unat acc) (unat a + 256 * unat b)"
      using unat_oc_step [OF "1.prems"(2), of "load16 p 0"] w by simp
    have le: "unat ?acc \<le> 65535"
      unfolding acc
      by (rule oc_add_le [OF "1.prems"(2)]) (use w unat_bound_u16 [of "load16 p 0"] in linarith)
    have len: "length (drop 2 p) = unat (nr - 2)"
      using nr "1.prems"(1) by (simp add: unat_sub word_le_nat_alt)
    have step: "get_16b_loop acc p nr = get_16b_loop ?acc (drop 2 p) (nr - 2)"
      by (subst get_16b_loop.simps) (simp only: True if_True Let_def)
    have "foldl oc_add (unat acc) (le_words p) = foldl oc_add (unat ?acc) (le_words (drop 2 p))"
      unfolding acc by (simp add: p)
    with "1.IH" [OF True refl len le] show ?thesis unfolding step by simp
  next
    case False
    then have "unat nr \<le> 1" by (simp add: word_less_nat_alt)
    moreover have "le_words p = le_words_rest p"
      using "1.prems"(1) \<open>unat nr \<le> 1\<close> by (cases p rule: le_words.cases) (simp_all add: le_words_rest_def)
    ultimately show ?thesis using False "1.prems" by (subst get_16b_loop.simps) simp
  qed
qed

lemma and_high16_u32: "unat (drop_bit 16 (x AND 0xffff0000) :: u32) = unat x div 65536"
proof -
  have "unat x div 65536 < 65536" using unat_bound_u32 [of x] by simp
  moreover have "drop_bit 16 (x AND 0xffff0000) = drop_bit 16 x AND 0xFFFF" by simp
  ultimately show ?thesis by (simp only: and_mask16_u32 unat_drop_bit) simp
qed

lemma get_16b_sum_words:
  assumes "length p = unat nr"
  shows "unat (get_16b_sum p nr) = oc_sum (le_words p)"
proof -
  obtain acc p' nr' where l: "get_16b_loop 0 p nr = (acc, p', nr')" "length p' = unat nr'"
      "unat nr' \<le> 1" "unat acc \<le> 65535"
      "foldl oc_add 0 (le_words p) = foldl oc_add (unat acc) (le_words_rest p')"
    using get_16b_loop_spec [OF assms, of 0] by auto
  define s where "s = (if nr' \<noteq> 0 then acc + ucast (p' ! 0) else acc)"
  define x where "x = (if p' = [] then 0 else unat (p' ! 0))"
  have x: "x \<le> 255" using unat_bound_u8 [of "p' ! 0"] by (simp add: x_def)
  have "nr' \<noteq> 0 \<longleftrightarrow> p' \<noteq> []" using l(2) by (metis length_0_conv unat_eq_zero)
  then have s: "unat s = unat acc + x"
    using l(4) unat_bound_u8 [of "p' ! 0"] by (simp add: s_def x_def unat_add_u32 unat_ucast_mod)
  have "unat (drop_bit 16 (s AND 0xffff0000) + (s AND 0xffff)) = oc_add (unat acc) x"
    using s x l(4) and_high16_u32 [of s] and_mask16_u32 [of s]
    by (cases "65535 < unat acc + x") (simp_all add: unat_add_u32 oc_add_def le_div_geq le_mod_geq)
  moreover have "oc_add (unat acc) x \<le> 65535" by (rule oc_add_le) (use x l(4) in simp_all)
  ultimately have "unat (get_16b_sum p nr) = oc_add (unat acc) x"
    by (simp add: get_16b_sum_def l(1) s_def [symmetric] Let_def unat_ucast_mod and_mask16_u32)
  also have "\<dots> = foldl oc_add (unat acc) (le_words_rest p')"
    using l(4) by (simp add: le_words_rest_def x_def oc_add_def)
  finally show ?thesis using l(5) by (simp add: oc_sum_def)
qed


lemma le_words_append: "even (length p) \<Longrightarrow> le_words (p @ q) = le_words p @ le_words q"
  by (induction p rule: le_words.induct) simp_all

lemma le_words_map_load16: "length p = 2 * n \<Longrightarrow> le_words p = map (\<lambda>k. unat (load16 p (2 * k))) [0..<n]"
proof (induction n arbitrary: p)
  case (Suc n)
  then obtain a b r where p: "p = a # b # r" "length r = 2 * n"
    by (cases p rule: le_words.cases) simp_all
  have "map (\<lambda>k. unat (load16 p (2 * k))) [0..<Suc n]
      = unat (load16 p 0) # map (\<lambda>k. unat (load16 p (2 * Suc k))) [0..<n]"
    by (simp only: upt_conv_Cons zero_less_Suc map_Suc_upt [symmetric] list.map map_map o_def mult_0_right)
  also have "map (\<lambda>k. unat (load16 p (2 * Suc k))) [0..<n] = map (\<lambda>k. unat (load16 r (2 * k))) [0..<n]"
    by (simp add: p(1) unat_load16)
  finally show ?case using Suc.IH [OF p(2)] by (simp add: p(1) unat_load16)
qed simp

lemma sum_list_decomp:
  fixes f g h :: "'k \<Rightarrow> nat"
  assumes "\<And>k. 256 * f k = g k + 65535 * h k"
  shows "256 * sum_list (map f ks) = sum_list (map g ks) + 65535 * sum_list (map h ks)"
  using assms by (induction ks) (simp_all add: algebra_simps)

lemma length_bytes32 [simp]: "length (bytes32 w) = 4"
  by (simp add: bytes32_def)

lemma le_words_bytes32: "le_words (bytes32 w) = [unat w mod 65536, unat w div 65536]"
proof -
  have lo: "unat w mod 65536 = unat w mod 256 + 256 * (unat w div 256 mod 256)"
    using mod_mult2_eq [of "unat w" 256 256] by simp
  define v where "v = unat w div 65536"
  have "v < 65536" using unat_bound_u32 [of w] by (simp add: v_def)
  then have "v div 256 < 256" by simp
  then have hi: "v = v mod 256 + 256 * (v div 256 mod 256)"
    using div_mult_mod_eq [of v 256] by simp
  have "unat w div 16777216 = v div 256" using div_mult2_eq [of "unat w" 65536 256] by (simp add: v_def)
  then show ?thesis using lo hi
    unfolding bytes32_def le_words.simps unat_ucast_mod unat_drop_bit by (simp add: v_def)
qed

lemma ipv6_le_words:
  assumes "54 \<le> length d"
  shows "le_words (ipv6_psd_header (ipv6_hdr_at d 14))
    = map (\<lambda>k. unat (load16 d (22 + 2 * k))) [0..<16]
      @ [unat (load16 d 18), 0, 0, 256 * unat (d ! 20)]"
proof -
  have "le_words (take 32 (drop 22 d)) = map (\<lambda>k. unat (load16 (take 32 (drop 22 d)) (2 * k))) [0..<16]"
    by (rule le_words_map_load16) (use assms in simp)
  also have "\<dots> = map (\<lambda>k. unat (load16 d (22 + 2 * k))) [0..<16]"
    using assms by (intro map_cong) (simp_all add: unat_load16)
  finally have A: "le_words (take 32 (drop 22 d)) = map (\<lambda>k. unat (load16 d (22 + 2 * k))) [0..<16]" .
  have P: "unat (push_bit 24 (ucast (d ! 20)) :: u32) = 16777216 * unat (d ! 20)"
    using unat_bound_u8 [of "d ! 20"] unfolding unat_push_bit unat_ucast_mod by simp
  have L: "unat (ucast (load16 d 18) :: u32) = unat (load16 d 18)"
    using unat_bound_u16 [of "load16 d 18"] unfolding unat_ucast_mod by simp
  have "16777216 * unat (d ! 20) = (256 * unat (d ! 20)) * 65536" by simp
  then have M: "16777216 * unat (d ! 20) mod 65536 = 0" "16777216 * unat (d ! 20) div 65536 = 256 * unat (d ! 20)"
    by (simp_all only: mod_mult_self2_is_0 div_mult_self_is_m)
  show ?thesis
    using assms unat_bound_u16 [of "load16 d 18"]
    by (simp add: ipv6_psd_header_def ipv6_hdr_at_def le_words_append le_words_bytes32 A P L M)
qed

lemma ipv6_psd_sum_words:
  assumes "54 \<le> length d"
  shows "unat (bswap16 (get_ipv6_psd_sum (ipv6_hdr_at d 14))) = oc_sum (ipv6_pseudo_words d)"
proof -
  let ?ks = "[0..<16] :: nat list"
  let ?a = "sum_list (map (\<lambda>k. unat (load16 d (22 + 2 * k))) ?ks)"
  let ?b = "sum_list (map (\<lambda>k. be16 d (22 + 2 * k)) ?ks)"
  let ?h = "sum_list (map (\<lambda>k. unat (d ! (22 + 2 * k + 1))) ?ks)"
  define s where "s = ?a + unat (load16 d 18) + 256 * unat (d ! 20)"
  define t where "t = ?b + be16 d 18 + unat (d ! 20)"
  have len: "length (ipv6_psd_header (ipv6_hdr_at d 14)) = unat (40 :: u32)"
    using assms by (simp add: ipv6_psd_header_def ipv6_hdr_at_def bytes32_def)
  have wb: "\<forall>w \<in> set (le_words (ipv6_psd_header (ipv6_hdr_at d 14))). w \<le> 65535"
    unfolding ipv6_le_words [OF assms]
    using unat_bound_u16 unat_bound_u8 [of "d ! 20"] by (auto simp: less_Suc_eq_le [symmetric])
  have "unat (get_ipv6_psd_sum (ipv6_hdr_at d 14)) = oc_norm s"
    using get_16b_sum_words [OF len] oc_sum_norm [OF wb]
    by (simp only: get_ipv6_psd_sum_def ipv6_le_words [OF assms]) (simp add: s_def add.assoc)
  moreover have "256 * s = t + 65535 * (?h + unat (d ! 19) + unat (d ! 20))"
    using sum_list_decomp [of "\<lambda>k. unat (load16 d (22 + 2 * k))" "\<lambda>k. be16 d (22 + 2 * k)"
        "\<lambda>k. unat (d ! (22 + 2 * k + 1))" ?ks, OF load16_swap_decomp] load16_swap_decomp [of d 18]
    by (simp only: s_def t_def distrib_left) simp
  moreover have "s = 0 \<longleftrightarrow> t = 0"
    using load16_zero by (simp only: s_def t_def add_eq_0_iff_both_eq_0 sum_list_eq_0_iff) simp
  ultimately have "unat (bswap16 (get_ipv6_psd_sum (ipv6_hdr_at d 14))) = oc_norm t"
    by (rule oc_sum_of_le)
  moreover have "t = sum_list (ipv6_pseudo_words d)" by (simp only: t_def ipv6_pseudo_words_def) simp
  moreover have "\<forall>w \<in> set (ipv6_pseudo_words d). w \<le> 65535"
    using be16_bound unat_bound_u8 [of "d ! 20"] by (auto simp: ipv6_pseudo_words_def)
  ultimately show ?thesis by (simp only: oc_sum_norm)
qed


section \<open>Properties\<close>

text \<open>
  The packets libmoon hands over: an IPv4 header without options whose length field covers it, and a
  checksum field inside the buffer. The protocol numbers of UDP (17) and TCP (6) are below 128.
\<close>

definition ipv4_offloadable :: "u8 list \<Rightarrow> int \<Rightarrow> bool" where
  "ipv4_offloadable d off \<longleftrightarrow> 34 \<le> length d \<and> ipv4_ihl d = 5 \<and> 20 \<le> be16 d 16
     \<and> unat (d ! 23) < 128 \<and> 0 \<le> off \<and> 2 * nat off + 1 < length d"

definition csum_written :: "u8 list \<Rightarrow> u8 list \<Rightarrow> int \<Rightarrow> nat \<Rightarrow> bool" where
  "csum_written d d' off v \<longleftrightarrow> length d' = length d \<and> be16 d' (2 * nat off) = v
     \<and> (\<forall>i. i \<noteq> 2 * nat off \<and> i \<noteq> 2 * nat off + 1 \<longrightarrow> d' ! i = d ! i)"

lemma calc_ipv4_spec:
  assumes "ipv4_offloadable d off"
  shows "\<exists>d'. calc_ipv4_pseudo_header_checksum d off = Some d'
    \<and> csum_written d d' off (oc_sum (ipv4_pseudo_words d))"
  using assms store_csum_effect [of off d "get_ipv4_psd_sum (ipv4_hdr_at d 14)"]
    ipv4_psd_sum_words [of d]
  by (simp add: ipv4_offloadable_def calc_ipv4_pseudo_header_checksum_def csum_written_def)

lemma calc_ipv6_spec:
  assumes "54 \<le> length d" and "0 \<le> off" and "2 * nat off + 1 < length d"
  shows "\<exists>d'. calc_ipv6_pseudo_header_checksum d off = Some d'
    \<and> csum_written d d' off (oc_sum (ipv6_pseudo_words d))"
  using assms store_csum_effect [of off d "get_ipv6_psd_sum (ipv6_hdr_at d 14)"]
    ipv6_psd_sum_words [of d]
  by (simp add: calc_ipv6_pseudo_header_checksum_def csum_written_def)

lemma calc_checksums_batch:
  assumes "distinct ps" and "\<And>p. p \<in> set ps \<Longrightarrow> \<exists>d d'. heap p = Some d \<and> calc d off = Some d'"
  shows "calc_checksums calc heap ps off
    = Some (\<lambda>p. if p \<in> set ps then Option.bind (heap p) (\<lambda>d. calc d off) else heap p)"
  using assms
proof (induction ps arbitrary: heap)
  case (Cons p ps)
  from Cons.prems(2) [of p] obtain d d' where d: "heap p = Some d" "calc d off = Some d'" by auto
  have "calc_checksums calc (heap(p \<mapsto> d')) ps off = Some (\<lambda>q. if q \<in> set ps
      then Option.bind ((heap(p \<mapsto> d')) q) (\<lambda>d. calc d off) else (heap(p \<mapsto> d')) q)"
    by (rule Cons.IH) (use Cons.prems in auto)
  with d Cons.prems(1) show ?case by (auto simp: fun_eq_iff)
qed simp

text \<open>C1: For an IPv4 packet whose header has no options (IHL 5) and lies in the buffer, whose length field is
  at least 20, whose protocol number is below 128 and whose checksum field lies in the buffer, \<open>calc_ipv4_pseudo_header_checksum\<close> stores in the checksum
  field, read as a big-endian number, exactly the RFC 1071 one's complement sum of the RFC 768 pseudo
  header (source, destination, zero and protocol, layer-4 length) and changes no other byte: the
  shift/swap optimisation, the 64-bit accumulator and the two end-around folds are correct on a
  little-endian CPU.\<close>
theorem calc_ipv4_checksum_rfc:
  assumes "ipv4_offloadable d off"
  shows "\<exists>d'. calc_ipv4_pseudo_header_checksum d off = Some d' \<and> length d' = length d
    \<and> be16 d' (2 * nat off) = oc_sum (ipv4_pseudo_words d)
    \<and> (\<forall>i. i \<noteq> 2 * nat off \<and> i \<noteq> 2 * nat off + 1 \<longrightarrow> d' ! i = d ! i)"
  using calc_ipv4_spec [OF assms] by (simp add: csum_written_def)

text \<open>A UDP datagram from 10.0.0.1 to 192.168.1.255 with an IP length of 300 bytes.\<close>

definition udp4_packet :: "u8 list" where
  "udp4_packet = [0, 0, 0, 0, 0, 0, 0, 0, 0, 0, 0, 0, 8, 0, 0x45, 0, 1, 44, 0, 0, 0, 0, 64, 17, 0, 0,
     10, 0, 0, 1, 192, 168, 1, 255, 4, 210, 0, 42, 1, 24, 0, 0]"

theorem calc_ipv4_checksum_rfc_witness:
  "\<exists>d'. calc_ipv4_pseudo_header_checksum udp4_packet 20 = Some d' \<and> be16 d' 40 = 52689
    \<and> d' ! 0 = udp4_packet ! 0"
proof -
  have h: "ipv4_offloadable udp4_packet 20" by code_simp
  have "oc_sum (ipv4_pseudo_words udp4_packet) = 52689"
    by (simp add: oc_sum_def oc_add_def ipv4_pseudo_words_def ipv4_ihl_def be16_def udp4_packet_def)
  with calc_ipv4_checksum_rfc [OF h] show ?thesis by auto
qed

text \<open>C2: For an IPv6 packet, \<open>calc_ipv6_pseudo_header_checksum\<close> stores exactly the RFC 1071 sum of the
  RFC 8200 pseudo header (both addresses, upper-layer length, next header), read big-endian, and changes
  no other byte.\<close>
theorem calc_ipv6_checksum_rfc:
  assumes "54 \<le> length d" and "0 \<le> off" and "2 * nat off + 1 < length d"
  shows "\<exists>d'. calc_ipv6_pseudo_header_checksum d off = Some d' \<and> length d' = length d
    \<and> be16 d' (2 * nat off) = oc_sum (ipv6_pseudo_words d)
    \<and> (\<forall>i. i \<noteq> 2 * nat off \<and> i \<noteq> 2 * nat off + 1 \<longrightarrow> d' ! i = d ! i)"
  using calc_ipv6_spec [OF assms] by (simp add: csum_written_def)

definition udp6_packet :: "u8 list" where
  "udp6_packet = [0, 0, 0, 0, 0, 0, 0, 0, 0, 0, 0, 0, 0x86, 0xdd, 0x60, 0, 0, 0, 0, 8, 17, 64,
     0x20, 0x01, 0, 0, 0, 0, 0, 0, 0, 0, 0, 0, 0, 0, 0, 1,
     0x20, 0x01, 0, 0, 0, 0, 0, 0, 0, 0, 0, 0, 0, 0, 0, 2, 0, 0, 0, 0, 0, 0, 0, 0]"

theorem calc_ipv6_checksum_rfc_witness:
  "\<exists>d'. calc_ipv6_pseudo_header_checksum udp6_packet 30 = Some d' \<and> be16 d' 60 = 0x401E"
proof -
  have h: "54 \<le> length udp6_packet" "2 * nat 30 + 1 < length udp6_packet"
    by (simp_all add: udp6_packet_def)
  have ks: "[0..<16] = [0, 1, 2, 3, 4, 5, 6, 7, 8, 9, 10, 11, 12, 13, 14, 15 :: nat]" by code_simp
  have "oc_sum (ipv6_pseudo_words udp6_packet) = 0x401E"
    by (simp only: ks ipv6_pseudo_words_def) (simp add: oc_sum_def oc_add_def be16_def udp6_packet_def)
  with calc_ipv6_checksum_rfc [OF h(1) _ h(2)] show ?thesis by auto
qed

text \<open>The batch loop over \<open>n\<close> distinct mbufs writes every packet's checksum and leaves all other
  buffers as they are.\<close>
theorem calc_ipv4_checksums_batch:
  assumes "n \<le> int (length data)" and "distinct (take (nat n) data)"
    and "\<And>p. p \<in> set (take (nat n) data) \<Longrightarrow> \<exists>d. heap p = Some d \<and> ipv4_offloadable d off"
  shows "\<exists>heap'. calc_ipv4_pseudo_header_checksums heap data n off = Some heap'
    \<and> (\<forall>p \<in> set (take (nat n) data). \<exists>d d'. heap p = Some d \<and> heap' p = Some d'
          \<and> be16 d' (2 * nat off) = oc_sum (ipv4_pseudo_words d))
    \<and> (\<forall>p. p \<notin> set (take (nat n) data) \<longrightarrow> heap' p = heap p)"
proof -
  let ?calc = calc_ipv4_pseudo_header_checksum
  have ok: "\<exists>d d'. heap p = Some d \<and> ?calc d off = Some d' \<and> csum_written d d' off (oc_sum (ipv4_pseudo_words d))"
    if "p \<in> set (take (nat n) data)" for p
    using assms(3) [OF that] calc_ipv4_spec by blast
  have "calc_checksums ?calc heap (take (nat n) data) off
      = Some (\<lambda>p. if p \<in> set (take (nat n) data) then Option.bind (heap p) (\<lambda>d. ?calc d off) else heap p)"
    by (rule calc_checksums_batch [OF assms(2)]) (use ok in blast)
  with assms(1) ok show ?thesis
    by (fastforce simp: calc_ipv4_pseudo_header_checksums_def csum_written_def)
qed

theorem calc_ipv4_checksums_batch_witness:
  "\<exists>heap'. calc_ipv4_pseudo_header_checksums (\<lambda>p. if p \<le> (1::nat) then Some udp4_packet else None)
      [1, 0, 7] 2 20 = Some heap' \<and> heap' 7 = None"
proof -
  have h: "ipv4_offloadable udp4_packet 20" by code_simp
  have "\<exists>heap'. calc_ipv4_pseudo_header_checksums (\<lambda>p. if p \<le> (1::nat) then Some udp4_packet else None)
      [1, 0, 7] 2 20 = Some heap'
    \<and> (\<forall>p \<in> set (take (nat 2) [1, 0, 7]). \<exists>d d'. (if p \<le> (1::nat) then Some udp4_packet else None) = Some d
          \<and> heap' p = Some d' \<and> be16 d' (2 * nat 20) = oc_sum (ipv4_pseudo_words d))
    \<and> (\<forall>p. p \<notin> set (take (nat 2) [1, 0, 7]) \<longrightarrow> heap' p = (if p \<le> (1::nat) then Some udp4_packet else None))"
    by (rule calc_ipv4_checksums_batch) (use h in \<open>auto simp: eval_nat_numeral\<close>)
  then show ?thesis by (fastforce simp: eval_nat_numeral)
qed

text \<open>C3: For protocol numbers from 128 on (SCTP is 132) \<^verbatim>\<open>next_proto_id << 24\<close> is a negative \<^verbatim>\<open>int\<close> and its
  conversion to \<^verbatim>\<open>uint64_t\<close> sign-extends. For every such packet (no options, length field at least 20,
  checksum field inside the buffer) the stored sum is the RFC 1071 sum if the 32-bit operands add up
  without a carry; in every other case the carry out of bit 63 is lost, and the stored sum is a wrong one,
  short of exactly that carry (256 in network byte order).\<close>
theorem ipv4_sum_high_protocol:
  assumes "34 \<le> length d" and "ipv4_ihl d = 5" and "20 \<le> be16 d 16" and "128 \<le> unat (d ! 23)"
    and "0 \<le> off" and "2 * nat off + 1 < length d"
  shows "\<exists>d'. calc_ipv4_pseudo_header_checksum d off = Some d' \<and> length d' = length d
    \<and> (\<forall>i. i \<noteq> 2 * nat off \<and> i \<noteq> 2 * nat off + 1 \<longrightarrow> d' ! i = d ! i)
    \<and> (if ipv4_le_total d < 2 ^ 32
       then be16 d' (2 * nat off) = oc_sum (ipv4_pseudo_words d)
       else oc_add (be16 d' (2 * nat off)) 256 = oc_sum (ipv4_pseudo_words d)
          \<and> be16 d' (2 * nat off) \<noteq> oc_sum (ipv4_pseudo_words d))"
proof -
  have "x \<noteq> oc_add x 256" for x unfolding oc_add_def by (split if_split) linarith
  then show ?thesis
    using assms store_csum_effect [OF assms(5,6), of "get_ipv4_psd_sum (ipv4_hdr_at d 14)"]
    by (simp add: calc_ipv4_pseudo_header_checksum_def ipv4_psd_sum_high [OF assms(2-4)] psd_le_sum_total [OF assms(2,3)])
qed

text \<open>An SCTP packet from 10.0.0.1 to 192.168.1.255, whose sum has a carry, and one from 10.0.0.1 to
  192.168.1.16, whose sum has none.\<close>

theorem ipv4_sum_high_protocol_witness:
  "(\<exists>d'. calc_ipv4_pseudo_header_checksum (udp4_packet[23 := 132]) 20 = Some d'
      \<and> oc_add (be16 d' 40) 256 = 52804 \<and> be16 d' 40 \<noteq> 52804)
   \<and> (\<exists>d'. calc_ipv4_pseudo_header_checksum (udp4_packet[23 := 132, 33 := 16]) 20 = Some d' \<and> be16 d' 40 = 52565)"
proof -
  let ?d = "udp4_packet[23 := 132]" and ?e = "udp4_packet[23 := 132, 33 := 16]"
  have h: "34 \<le> length ?d" "ipv4_ihl ?d = 5" "20 \<le> be16 ?d 16" "128 \<le> unat (?d ! 23)"
      "34 \<le> length ?e" "ipv4_ihl ?e = 5" "20 \<le> be16 ?e 16" "128 \<le> unat (?e ! 23)"
    by (simp_all add: udp4_packet_def ipv4_ihl_def be16_def)
  have c: "\<not> ipv4_le_total ?d < 2 ^ 32" "ipv4_le_total ?e < 2 ^ 32"
    by (simp_all add: ipv4_le_total_def ipv4_ihl_def be16_def unat_load32 unat_load16 udp4_packet_def)
  have s: "oc_sum (ipv4_pseudo_words ?d) = 52804" "oc_sum (ipv4_pseudo_words ?e) = 52565"
    by (simp_all add: oc_sum_def oc_add_def ipv4_pseudo_words_def ipv4_ihl_def be16_def udp4_packet_def)
  have l: "length udp4_packet = 42" by (simp add: udp4_packet_def)
  show ?thesis
    using ipv4_sum_high_protocol [OF h(1-4), of 20] ipv4_sum_high_protocol [OF h(5-8), of 20]
    unfolding if_not_P [OF c(1)] if_P [OF c(2)] s by (auto simp: l)
qed

end
