(* ===== verification/RteRing.thy ===== *)
theory RteRing
  imports LM_Prelude
begin

text \<open>
  The rings of libmoon are thin layers over DPDK's \<^verbatim>\<open>rte_ring\<close>, which is not part of this repository.
  Its functions are therefore a parameter, the record \<open>rte_ring_api\<close>; what the callers rely on is the
  documented behaviour of \<^verbatim>\<open>rte_ring.h\<close> for single-producer/single-consumer rings, stated as the
  predicate \<open>rte_ring_laws\<close> over a view of the rings: \<open>conts\<close> (the queued objects, oldest first),
  \<open>usable\<close> (the number of slots) and \<open>valid\<close> (a ring that \<^verbatim>\<open>rte_ring_create\<close> returned and the calls
  below updated). A ring created with a power-of-two \<open>count\<close> has \<open>count - 1\<close> slots.

  The theory also holds \<open>ring.c\<close>, and the locale \<open>packet_fifo\<close>: the first-in first-out contract that
  every queue of libmoon offers its clients, with the run-level consequences proved once.
\<close>

section \<open>The DPDK interface\<close>

text \<open>Arrays of object pointers are lists; the dequeue functions return the objects they store.\<close>

record ('r, 'm) rte_ring_api =
  rte_ring_create :: "string \<Rightarrow> u32 \<Rightarrow> int \<Rightarrow> 'r option"
  rte_ring_count :: "'r \<Rightarrow> u32"
  rte_ring_free_count :: "'r \<Rightarrow> u32"
  rte_ring_empty :: "'r \<Rightarrow> int"
  rte_ring_full :: "'r \<Rightarrow> int"
  rte_ring_sp_enqueue_bulk :: "'r \<Rightarrow> 'm list \<Rightarrow> u32 \<Rightarrow> u32 \<times> 'r"
  rte_ring_sp_enqueue_burst :: "'r \<Rightarrow> 'm list \<Rightarrow> u32 \<Rightarrow> u32 \<times> 'r"
  rte_ring_sp_enqueue :: "'r \<Rightarrow> 'm \<Rightarrow> int \<times> 'r"
  rte_ring_sc_dequeue_bulk :: "'r \<Rightarrow> u32 \<Rightarrow> u32 \<times> 'm list \<times> 'r"
  rte_ring_sc_dequeue_burst :: "'r \<Rightarrow> u32 \<Rightarrow> u32 \<times> 'm list \<times> 'r"
  rte_ring_sc_dequeue :: "'r \<Rightarrow> int \<times> 'm list \<times> 'r"

record ('r, 'm) ring_view =
  conts :: "'r \<Rightarrow> 'm list"
  usable :: "'r \<Rightarrow> nat"
  valid :: "'r \<Rightarrow> bool"

definition enq_result :: "('r, 'm) ring_view \<Rightarrow> 'r \<Rightarrow> 'm list \<Rightarrow> nat \<Rightarrow> u32 \<times> 'r \<Rightarrow> bool" where
  "enq_result v r objs k res \<longleftrightarrow> unat (fst res) = k \<and> valid v (snd res)
     \<and> conts v (snd res) = conts v r @ take k objs \<and> usable v (snd res) = usable v r"

definition deq_result :: "('r, 'm) ring_view \<Rightarrow> 'r \<Rightarrow> nat \<Rightarrow> u32 \<times> 'm list \<times> 'r \<Rightarrow> bool" where
  "deq_result v r k res \<longleftrightarrow> unat (fst res) = k \<and> valid v (snd (snd res))
     \<and> fst (snd res) = take k (conts v r)
     \<and> conts v (snd (snd res)) = drop k (conts v r) \<and> usable v (snd (snd res)) = usable v r"

definition ring_law_bounds :: "('r, 'm) rte_ring_api \<Rightarrow> ('r, 'm) ring_view \<Rightarrow> bool" where
  "ring_law_bounds api v \<longleftrightarrow> (\<forall>r. valid v r \<longrightarrow>
     length (conts v r) \<le> usable v r \<and> usable v r < 2147483648
     \<and> unat (rte_ring_count api r) = length (conts v r)
     \<and> unat (rte_ring_free_count api r) = usable v r - length (conts v r)
     \<and> rte_ring_empty api r = (if conts v r = [] then 1 else 0)
     \<and> rte_ring_full api r = (if length (conts v r) = usable v r then 1 else 0))"

definition ring_law_enqueue :: "('r, 'm) rte_ring_api \<Rightarrow> ('r, 'm) ring_view \<Rightarrow> bool" where
  "ring_law_enqueue api v \<longleftrightarrow> (\<forall>r objs n. valid v r \<and> unat n \<le> length objs \<longrightarrow>
     enq_result v r objs (if length (conts v r) + unat n \<le> usable v r then unat n else 0)
       (rte_ring_sp_enqueue_bulk api r objs n)
     \<and> enq_result v r objs (min (unat n) (usable v r - length (conts v r)))
         (rte_ring_sp_enqueue_burst api r objs n))"

definition ring_law_enqueue_one :: "('r, 'm) rte_ring_api \<Rightarrow> ('r, 'm) ring_view \<Rightarrow> bool" where
  "ring_law_enqueue_one api v \<longleftrightarrow> (\<forall>r obj rc r'. valid v r \<and> rte_ring_sp_enqueue api r obj = (rc, r') \<longrightarrow>
     valid v r' \<and> usable v r' = usable v r
     \<and> (if length (conts v r) < usable v r then rc = 0 \<and> conts v r' = conts v r @ [obj]
        else rc < 0 \<and> conts v r' = conts v r))"

definition ring_law_dequeue :: "('r, 'm) rte_ring_api \<Rightarrow> ('r, 'm) ring_view \<Rightarrow> bool" where
  "ring_law_dequeue api v \<longleftrightarrow> (\<forall>r n. valid v r \<longrightarrow>
     deq_result v r (if unat n \<le> length (conts v r) then unat n else 0) (rte_ring_sc_dequeue_bulk api r n)
     \<and> deq_result v r (min (unat n) (length (conts v r))) (rte_ring_sc_dequeue_burst api r n))"

definition ring_law_dequeue_one :: "('r, 'm) rte_ring_api \<Rightarrow> ('r, 'm) ring_view \<Rightarrow> bool" where
  "ring_law_dequeue_one api v \<longleftrightarrow> (\<forall>r rc objs r'. valid v r \<and> rte_ring_sc_dequeue api r = (rc, objs, r') \<longrightarrow>
     valid v r' \<and> usable v r' = usable v r
     \<and> (case conts v r of [] \<Rightarrow> rc < 0 \<and> objs = [] \<and> conts v r' = []
        | x # xs \<Rightarrow> rc = 0 \<and> objs = [x] \<and> conts v r' = xs))"

definition ring_law_create :: "('r, 'm) rte_ring_api \<Rightarrow> ('r, 'm) ring_view \<Rightarrow> bool" where
  "ring_law_create api v \<longleftrightarrow> (\<forall>name k socket r.
     rte_ring_create api name (2 ^ k) socket = Some r \<and> k < 31 \<longrightarrow>
       valid v r \<and> conts v r = [] \<and> usable v r = 2 ^ k - 1)"

definition rte_ring_laws :: "('r, 'm) rte_ring_api \<Rightarrow> ('r, 'm) ring_view \<Rightarrow> bool" where
  "rte_ring_laws api v \<longleftrightarrow> ring_law_bounds api v \<and> ring_law_enqueue api v \<and> ring_law_enqueue_one api v
     \<and> ring_law_dequeue api v \<and> ring_law_dequeue_one api v \<and> ring_law_create api v"

named_theorems ring_facts \<open>Consequences of the ring laws in the form the component proofs use.\<close>

lemma ring_bounds [ring_facts]:
  assumes "rte_ring_laws api v" and "valid v r"
  shows "length (conts v r) \<le> usable v r" and "usable v r < 2147483648"
    and "unat (rte_ring_count api r) = length (conts v r)"
    and "unat (rte_ring_free_count api r) = usable v r - length (conts v r)"
    and "rte_ring_empty api r = (if conts v r = [] then 1 else 0)"
    and "rte_ring_full api r = (if length (conts v r) = usable v r then 1 else 0)"
  using assms by (simp_all add: rte_ring_laws_def ring_law_bounds_def)

lemma ring_enqueue_bulk:
  assumes "rte_ring_laws api v" and "valid v r" and "unat n \<le> length objs"
    and "rte_ring_sp_enqueue_bulk api r objs n = (k, r')"
  shows "valid v r'" and "unat k = (if length (conts v r) + unat n \<le> usable v r then unat n else 0)"
    and "conts v r' = conts v r @ take (unat k) objs" and "usable v r' = usable v r"
proof -
  have "enq_result v r objs (if length (conts v r) + unat n \<le> usable v r then unat n else 0) (k, r')"
    using assms unfolding rte_ring_laws_def ring_law_enqueue_def by metis
  then show "valid v r'" "unat k = (if length (conts v r) + unat n \<le> usable v r then unat n else 0)"
      "conts v r' = conts v r @ take (unat k) objs" "usable v r' = usable v r"
    by (simp_all add: enq_result_def)
qed

lemma ring_enqueue_burst:
  assumes "rte_ring_laws api v" and "valid v r" and "unat n \<le> length objs"
    and "rte_ring_sp_enqueue_burst api r objs n = (k, r')"
  shows "valid v r'" and "unat k = min (unat n) (usable v r - length (conts v r))"
    and "conts v r' = conts v r @ take (unat k) objs" and "usable v r' = usable v r"
proof -
  have "enq_result v r objs (min (unat n) (usable v r - length (conts v r))) (k, r')"
    using assms unfolding rte_ring_laws_def ring_law_enqueue_def by metis
  then show "valid v r'" "unat k = min (unat n) (usable v r - length (conts v r))"
      "conts v r' = conts v r @ take (unat k) objs" "usable v r' = usable v r"
    by (simp_all add: enq_result_def)
qed

lemma ring_enqueue_one:
  assumes "rte_ring_laws api v" and "valid v r" and "rte_ring_sp_enqueue api r obj = (rc, r')"
  shows "valid v r'" and "usable v r' = usable v r"
    and "if length (conts v r) < usable v r then rc = 0 \<and> conts v r' = conts v r @ [obj]
      else rc < 0 \<and> conts v r' = conts v r"
  using assms by (auto simp: rte_ring_laws_def ring_law_enqueue_one_def)

lemma ring_dequeue_bulk:
  assumes "rte_ring_laws api v" and "valid v r" and "rte_ring_sc_dequeue_bulk api r n = (k, objs, r')"
  shows "valid v r'" and "unat k = (if unat n \<le> length (conts v r) then unat n else 0)"
    and "objs = take (unat k) (conts v r)" and "conts v r' = drop (unat k) (conts v r)"
    and "usable v r' = usable v r"
proof -
  have "deq_result v r (if unat n \<le> length (conts v r) then unat n else 0) (k, objs, r')"
    using assms unfolding rte_ring_laws_def ring_law_dequeue_def by metis
  then show "valid v r'" "unat k = (if unat n \<le> length (conts v r) then unat n else 0)"
      "objs = take (unat k) (conts v r)" "conts v r' = drop (unat k) (conts v r)"
      "usable v r' = usable v r"
    by (simp_all add: deq_result_def)
qed

lemma ring_dequeue_burst:
  assumes "rte_ring_laws api v" and "valid v r" and "rte_ring_sc_dequeue_burst api r n = (k, objs, r')"
  shows "valid v r'" and "unat k = min (unat n) (length (conts v r))"
    and "objs = take (unat k) (conts v r)" and "conts v r' = drop (unat k) (conts v r)"
    and "usable v r' = usable v r"
proof -
  have "deq_result v r (min (unat n) (length (conts v r))) (k, objs, r')"
    using assms unfolding rte_ring_laws_def ring_law_dequeue_def by metis
  then show "valid v r'" "unat k = min (unat n) (length (conts v r))"
      "objs = take (unat k) (conts v r)" "conts v r' = drop (unat k) (conts v r)"
      "usable v r' = usable v r"
    by (simp_all add: deq_result_def)
qed

lemma ring_dequeue_one:
  assumes "rte_ring_laws api v" and "valid v r" and "rte_ring_sc_dequeue api r = (rc, objs, r')"
  shows "valid v r'" and "usable v r' = usable v r"
    and "case conts v r of [] \<Rightarrow> rc < 0 \<and> objs = [] \<and> conts v r' = []
      | x # xs \<Rightarrow> rc = 0 \<and> objs = [x] \<and> conts v r' = xs"
  using assms unfolding rte_ring_laws_def ring_law_dequeue_one_def by blast+

text \<open>The dequeue functions split the contents; the form the packet rings use.\<close>

lemma ring_deq_bulk:
  assumes "rte_ring_laws api v" and "valid v r" and "rte_ring_sc_dequeue_bulk api r n = (k, ys, r')"
  shows "valid v r' \<and> usable v r' = usable v r \<and> ys @ conts v r' = conts v r \<and> unat k = length ys
    \<and> length ys = (if unat n \<le> length (conts v r) then unat n else 0)"
  using ring_dequeue_bulk [OF assms] by simp

lemma ring_deq_burst:
  assumes "rte_ring_laws api v" and "valid v r" and "rte_ring_sc_dequeue_burst api r n = (k, ys, r')"
  shows "valid v r' \<and> usable v r' = usable v r \<and> ys @ conts v r' = conts v r \<and> unat k = length ys
    \<and> length ys = min (unat n) (length (conts v r))"
  using ring_dequeue_burst [OF assms] by simp

lemma ring_deq_one:
  assumes "rte_ring_laws api v" and "valid v r" and "rte_ring_sc_dequeue api r = (rc, ys, r')"
  shows "valid v r' \<and> usable v r' = usable v r \<and> ys @ conts v r' = conts v r
    \<and> length ys = min 1 (length (conts v r)) \<and> (rc = 0 \<longleftrightarrow> conts v r \<noteq> [])"
  using ring_dequeue_one [OF assms] by (cases "conts v r") auto

lemma ring_created:
  assumes "rte_ring_laws api v" and "rte_ring_create api name (2 ^ k) socket = Some r" and "k < 31"
  shows "valid v r" and "conts v r = []" and "usable v r = 2 ^ k - 1"
  using assms unfolding rte_ring_laws_def ring_law_create_def by blast+

text \<open>The laws are consistent: a bounded list is such a ring. It serves the witnesses.\<close>

definition list_ring :: "('m list \<times> nat, 'm) rte_ring_api" where
  "list_ring = \<lparr>
     rte_ring_create = (\<lambda>name count socket. Some ([], unat count - 1)),
     rte_ring_count = (\<lambda>(q, c). word_of_nat (length q)),
     rte_ring_free_count = (\<lambda>(q, c). word_of_nat (c - length q)),
     rte_ring_empty = (\<lambda>(q, c). if q = [] then 1 else 0),
     rte_ring_full = (\<lambda>(q, c). if length q = c then 1 else 0),
     rte_ring_sp_enqueue_bulk = (\<lambda>(q, c) objs n.
        if length q + unat n \<le> c then (n, (q @ take (unat n) objs, c)) else (0, (q, c))),
     rte_ring_sp_enqueue_burst = (\<lambda>(q, c) objs n.
        let k = min (unat n) (c - length q) in (word_of_nat k, (q @ take k objs, c))),
     rte_ring_sp_enqueue = (\<lambda>(q, c) obj. if length q < c then (0, (q @ [obj], c)) else (- 105, (q, c))),
     rte_ring_sc_dequeue_bulk = (\<lambda>(q, c) n.
        if unat n \<le> length q then (n, take (unat n) q, (drop (unat n) q, c)) else (0, [], (q, c))),
     rte_ring_sc_dequeue_burst = (\<lambda>(q, c) n.
        let k = min (unat n) (length q) in (word_of_nat k, take k q, (drop k q, c))),
     rte_ring_sc_dequeue = (\<lambda>(q, c). case q of [] \<Rightarrow> (- 2, [], (q, c)) | x # xs \<Rightarrow> (0, [x], (xs, c))) \<rparr>"

definition list_view :: "('m list \<times> nat, 'm) ring_view" where
  "list_view = \<lparr> conts = fst, usable = snd, valid = (\<lambda>(q, c). length q \<le> c \<and> c < 2147483648) \<rparr>"

lemma unat_pow2_u32: "k < 32 \<Longrightarrow> unat (2 ^ k :: u32) = 2 ^ k"
proof -
  assume "k < 32"
  then have "(2 :: nat) ^ k < 2 ^ 32" by (rule power_strict_increasing) simp
  moreover have "(2 :: u32) ^ k = word_of_nat (2 ^ k)" by simp
  ultimately show ?thesis by (simp only: unat_word_of_nat) simp
qed

lemma list_ring_laws: "rte_ring_laws list_ring list_view"
  unfolding rte_ring_laws_def
proof (intro conjI)
  show "ring_law_bounds list_ring list_view"
    by (auto simp: ring_law_bounds_def list_ring_def list_view_def unat_word_of_nat simp del: of_nat_diff)
  show "ring_law_enqueue list_ring list_view"
    by (auto simp: ring_law_enqueue_def enq_result_def list_ring_def list_view_def unat_word_of_nat Let_def
        min_def)
  show "ring_law_enqueue_one list_ring list_view"
    by (auto simp: ring_law_enqueue_one_def list_ring_def list_view_def split: if_splits)
  show "ring_law_dequeue list_ring list_view"
    by (auto simp: ring_law_dequeue_def deq_result_def list_ring_def list_view_def unat_word_of_nat Let_def
        min_def)
  show "ring_law_dequeue_one list_ring list_view"
    by (auto simp: ring_law_dequeue_one_def list_ring_def list_view_def split: list.splits)
  show "ring_law_create list_ring list_view"
    using unat_pow2_u32 power_strict_increasing [of _ 31 "2 :: nat"]
    by (fastforce simp: ring_law_create_def list_ring_def list_view_def)
qed


section \<open>ring.c\<close>

text \<open>Ring names: a fixed prefix and the \<^verbatim>\<open>%d\<close> rendering of a 32-bit counter, in a \<^verbatim>\<open>char[32]\<close>.\<close>

fun dec_nat :: "nat \<Rightarrow> string" where
  "dec_nat n = (if n < 10 then [char_of (48 + n)] else dec_nat (n div 10) @ [char_of (48 + n mod 10)])"

declare dec_nat.simps [simp del]

definition fmt_d :: "u32 \<Rightarrow> string" where
  "fmt_d x = (if sint x < 0 then CHR ''-'' # dec_nat (nat (- sint x)) else dec_nat (nat (sint x)))"

definition ring_name :: "string \<Rightarrow> u32 \<Rightarrow> string" where
  "ring_name prefix ring_cnt = prefix @ fmt_d ring_cnt"

text \<open>
  \<open>create_ring\<close> returns the ring (or NULL) and the value of the static counter after
  \<^verbatim>\<open>__sync_fetch_and_add\<close>.
\<close>

definition create_ring :: "('r, 'm) rte_ring_api \<Rightarrow> u32 \<Rightarrow> u32 \<Rightarrow> int \<Rightarrow> 'r option \<times> u32" where
  "create_ring api ring_cnt count socket =
     (rte_ring_create api (ring_name ''mbuf_ring'' ring_cnt) count socket, ring_cnt + 1)"

definition ring_enqueue :: "('r, 'm) rte_ring_api \<Rightarrow> 'r \<Rightarrow> 'm list \<Rightarrow> u32 \<Rightarrow> u32 \<times> 'r" where
  "ring_enqueue api r obj n = rte_ring_sp_enqueue_bulk api r obj n"

definition ring_dequeue :: "('r, 'm) rte_ring_api \<Rightarrow> 'r \<Rightarrow> u32 \<Rightarrow> u32 \<times> 'm list \<times> 'r" where
  "ring_dequeue api r n = rte_ring_sc_dequeue_bulk api r n"

definition ring_count :: "('r, 'm) rte_ring_api \<Rightarrow> 'r \<Rightarrow> u32" where
  "ring_count api r = rte_ring_count api r"

definition ring_free_count :: "('r, 'm) rte_ring_api \<Rightarrow> 'r \<Rightarrow> u32" where
  "ring_free_count api r = rte_ring_free_count api r"

definition ring_empty :: "('r, 'm) rte_ring_api \<Rightarrow> 'r \<Rightarrow> bool" where
  "ring_empty api r \<longleftrightarrow> rte_ring_empty api r = 1"

definition ring_full :: "('r, 'm) rte_ring_api \<Rightarrow> 'r \<Rightarrow> bool" where
  "ring_full api r \<longleftrightarrow> rte_ring_full api r = 1"

lemma dec_nat_length: "n < 10 ^ k \<Longrightarrow> 0 < k \<Longrightarrow> length (dec_nat n) \<le> k"
proof (induction n arbitrary: k rule: dec_nat.induct)
  case (1 n)
  show ?case
  proof (cases "n < 10")
    case True
    with "1.prems" show ?thesis by (simp add: dec_nat.simps [of n])
  next
    case False
    from "1.prems"(2) obtain j where k: "k = Suc j" by (cases k) auto
    have "0 < j" by (rule gr0I) (use False "1.prems"(1) k in simp)
    with k have j: "k = Suc j" "0 < j" .
    with "1.prems" have "n div 10 < 10 ^ j" by (simp add: div_less_iff_less_mult mult.commute)
    then have "length (dec_nat (n div 10)) \<le> j" using "1.IH" [OF False] j by blast
    with False j show ?thesis by (simp add: dec_nat.simps [of n])
  qed
qed

lemma fmt_d_length: "length (fmt_d x) \<le> 11"
proof -
  have "- (2 ^ 31) \<le> sint x" "sint x < 2 ^ 31" using sint_range_size [of x] by (simp_all add: word_size)
  then have "nat (- sint x) < 10 ^ 10" "nat (sint x) < 10 ^ 10" by simp_all
  then have "length (dec_nat (nat (- sint x))) \<le> 10" "length (dec_nat (nat (sint x))) \<le> 10"
    by (simp_all add: dec_nat_length)
  then show ?thesis by (simp add: fmt_d_def)
qed

section \<open>The FIFO contract\<close>

text \<open>
  A queue accepts a prefix of what the producer offers and hands out its contents from the front.
  \<open>qrun\<close> is any interleaving of producer and consumer calls, with what was accepted and delivered.
\<close>

datatype 'm qop = Offer "'m list" | Take nat

fun qrun :: "('s \<Rightarrow> 'm list \<Rightarrow> nat \<times> 's) \<Rightarrow> ('s \<Rightarrow> nat \<Rightarrow> 'm list \<times> 's) \<Rightarrow> 's \<Rightarrow> 'm qop list
    \<Rightarrow> 'm list \<times> 'm list \<times> 's" where
  "qrun offer takeq s [] = ([], [], s)"
| "qrun offer takeq s (Offer xs # ops) =
     (let (k, s') = offer s xs; (acc, out, t) = qrun offer takeq s' ops in (take k xs @ acc, out, t))"
| "qrun offer takeq s (Take n # ops) =
     (let (ys, s') = takeq s n; (acc, out, t) = qrun offer takeq s' ops in (acc, ys @ out, t))"

locale packet_fifo =
  fixes inv :: "'s \<Rightarrow> bool"
    and contents :: "'s \<Rightarrow> 'm list"
    and offer :: "'s \<Rightarrow> 'm list \<Rightarrow> nat \<times> 's"
    and takeq :: "'s \<Rightarrow> nat \<Rightarrow> 'm list \<times> 's"
  assumes offer_law: "inv s \<Longrightarrow> offer s xs = (k, s') \<Longrightarrow> inv s' \<and> contents s' = contents s @ take k xs"
    and takeq_law: "inv s \<Longrightarrow> takeq s n = (ys, s') \<Longrightarrow> inv s' \<and> contents s = ys @ contents s'"
begin

lemma run_fifo:
  "inv s \<Longrightarrow> qrun offer takeq s ops = (acc, out, t) \<Longrightarrow> inv t \<and> contents s @ acc = out @ contents t"
proof (induction ops arbitrary: s acc out t)
  case (Cons x ops)
  show ?case
  proof (cases x)
    case (Offer xs)
    obtain k s' where o: "offer s xs = (k, s')" by fastforce
    obtain a b t' where r: "qrun offer takeq s' ops = (a, b, t')" by (metis prod_cases3)
    have "inv s'" "contents s' = contents s @ take k xs" using offer_law [OF Cons.prems(1) o] by auto
    moreover from this have "inv t' \<and> contents s' @ a = b @ contents t'" using Cons.IH r by blast
    ultimately show ?thesis using Cons.prems(2) o r Offer by auto
  next
    case (Take n)
    obtain ys s' where o: "takeq s n = (ys, s')" by fastforce
    obtain a b t' where r: "qrun offer takeq s' ops = (a, b, t')" by (metis prod_cases3)
    have "inv s'" "contents s = ys @ contents s'" using takeq_law [OF Cons.prems(1) o] by auto
    moreover from this have "inv t' \<and> contents s' @ a = b @ contents t'" using Cons.IH r by blast
    ultimately show ?thesis using Cons.prems(2) o r Take by auto
  qed
qed simp

lemma run_from_empty:
  assumes "inv s" and "contents s = []" and "qrun offer takeq s ops = (acc, out, t)"
  shows "acc = out @ contents t"
  using run_fifo [OF assms(1,3)] assms(2) by simp

end

text \<open>\<open>ring.c\<close> offers the contract: the producer enqueues whole batches, the consumer dequeues whole batches.\<close>

definition ring_offer :: "('r, 'm) rte_ring_api \<Rightarrow> 'r \<Rightarrow> 'm list \<Rightarrow> nat \<times> 'r" where
  "ring_offer api r objs = (let (k, r') = ring_enqueue api r objs (word_of_nat (length objs)) in (unat k, r'))"

definition ring_take :: "('r, 'm) rte_ring_api \<Rightarrow> 'r \<Rightarrow> nat \<Rightarrow> 'm list \<times> 'r" where
  "ring_take api r n = (let (k, objs, r') = ring_dequeue api r (word_of_nat n) in (objs, r'))"

lemma unat_length_le: "unat (word_of_nat (length xs) :: u32) \<le> length xs"
  by (simp add: unat_word_of_nat)

interpretation plain_ring: packet_fifo "\<lambda>r. rte_ring_laws api v \<and> valid v r" "conts v" "ring_offer api" "ring_take api"
  for api :: "('r, 'm) rte_ring_api" and v
proof unfold_locales
  fix s s' xs k
  assume "rte_ring_laws api v \<and> valid v s" and "ring_offer api s xs = (k, s')"
  then show "(rte_ring_laws api v \<and> valid v s') \<and> conts v s' = conts v s @ take k xs"
    using ring_enqueue_bulk [OF _ _ unat_length_le, of api v s xs]
    by (auto simp: ring_offer_def ring_enqueue_def Let_def split: prod.splits)
next
  fix s s' n ys
  assume "rte_ring_laws api v \<and> valid v s" and "ring_take api s n = (ys, s')"
  then show "(rte_ring_laws api v \<and> valid v s') \<and> conts v s = ys @ conts v s'"
    using ring_dequeue_bulk [of api v s "word_of_nat n"]
    by (auto simp: ring_take_def ring_dequeue_def Let_def split: prod.splits)
qed

end
