(* ===== verification/PktSizedRing.thy ===== *)
theory PktSizedRing
  imports RteRing
begin

text \<open>
  \<^verbatim>\<open>src/src/pktsizedring.cpp\<close>: a ring whose capacity, not necessarily a power of two, bounds the number
  of packets. The record, the creation loop and the operations follow the source; the ring below is the
  parameter of theory \<open>RteRing\<close>.
\<close>

section \<open>Model\<close>

record 'r ps_ring =
  ps_ring_ring :: 'r
  ps_capacity :: u32

definition PS_RING_SIZE_LIMIT :: u32 where
  "PS_RING_SIZE_LIMIT = 268435455"

text \<open>\<^verbatim>\<open>while (count < capacity) count *= 2\<close>, with fuel: \<open>None\<close> is a loop that has not ended yet.\<close>

fun count_loop :: "nat \<Rightarrow> u32 \<Rightarrow> u32 \<Rightarrow> u32 option" where
  "count_loop 0 count capacity = None"
| "count_loop (Suc fuel) count capacity =
     (if count < capacity then count_loop fuel (count * 2) capacity else Some count)"

definition clamp_capacity :: "u32 \<Rightarrow> u32" where
  "clamp_capacity capacity = (if PS_RING_SIZE_LIMIT < capacity then PS_RING_SIZE_LIMIT else capacity)"

text \<open>
  The result is the new structure or NULL, and the static name counter. The outer \<open>option\<close> is the
  fuel of the loop; 32 steps are enough (lemma \<open>count_loop_pow2\<close>).
\<close>

definition create_psring :: "('r, 'm) rte_ring_api \<Rightarrow> u32 \<Rightarrow> u32 \<Rightarrow> int \<Rightarrow> ('r ps_ring option \<times> u32) option" where
  "create_psring api ring_cnt capacity socket =
     (let capacity = clamp_capacity capacity in
      case count_loop 32 1 capacity of None \<Rightarrow> None
      | Some count \<Rightarrow>
          Some (case rte_ring_create api (ring_name ''mbuf_ps_ring'' ring_cnt) count socket of
                  None \<Rightarrow> None
                | Some r \<Rightarrow> Some \<lparr> ps_ring_ring = r, ps_capacity = capacity \<rparr>,
                ring_cnt + 1))"

text \<open>
  \<open>create_psring\<close> is the function with a \<^verbatim>\<open>malloc\<close> that succeeds. The code does not test its result: with
  NULL the store to \<^verbatim>\<open>psr->capacity\<close> faults, before the counter is touched.
\<close>

definition create_psring_malloc ::
    "('r, 'm) rte_ring_api \<Rightarrow> bool \<Rightarrow> u32 \<Rightarrow> u32 \<Rightarrow> int \<Rightarrow> ('r ps_ring option \<times> u32) option" where
  "create_psring_malloc api malloc_ok ring_cnt capacity socket =
     (if malloc_ok then create_psring api ring_cnt capacity socket else None)"

definition psring_enqueue_bulk :: "('r, 'm) rte_ring_api \<Rightarrow> 'r ps_ring \<Rightarrow> 'm list \<Rightarrow> u32 \<Rightarrow> u32 \<times> 'r ps_ring" where
  "psring_enqueue_bulk api psr obj n =
     (if rte_ring_count api (ps_ring_ring psr) + n < ps_capacity psr
      then let (k, r') = rte_ring_sp_enqueue_bulk api (ps_ring_ring psr) obj n
           in (k, psr\<lparr>ps_ring_ring := r'\<rparr>)
      else (0, psr))"

definition psring_enqueue_burst :: "('r, 'm) rte_ring_api \<Rightarrow> 'r ps_ring \<Rightarrow> 'm list \<Rightarrow> u32 \<Rightarrow> u32 \<times> 'r ps_ring" where
  "psring_enqueue_burst api psr obj n =
     (let count = rte_ring_count api (ps_ring_ring psr) in
      if ps_capacity psr < count then (0, psr)
      else let num_to_add = (if ps_capacity psr < count + n then ps_capacity psr - count else n);
               (k, r') = rte_ring_sp_enqueue_burst api (ps_ring_ring psr) obj num_to_add
           in (k, psr\<lparr>ps_ring_ring := r'\<rparr>))"

definition psring_enqueue :: "('r, 'm) rte_ring_api \<Rightarrow> 'r ps_ring \<Rightarrow> 'm \<Rightarrow> u32 \<times> 'r ps_ring" where
  "psring_enqueue api psr obj =
     (if rte_ring_count api (ps_ring_ring psr) + 1 \<le> ps_capacity psr
      then let (rc, r') = rte_ring_sp_enqueue api (ps_ring_ring psr) obj
           in (if rc = 0 then 1 else 0, psr\<lparr>ps_ring_ring := r'\<rparr>)
      else (0, psr))"

definition psring_dequeue_bulk :: "('r, 'm) rte_ring_api \<Rightarrow> 'r ps_ring \<Rightarrow> u32 \<Rightarrow> u32 \<times> 'm list \<times> 'r ps_ring" where
  "psring_dequeue_bulk api psr n =
     (let (k, objs, r') = rte_ring_sc_dequeue_bulk api (ps_ring_ring psr) n
      in (k, objs, psr\<lparr>ps_ring_ring := r'\<rparr>))"

definition psring_dequeue_burst :: "('r, 'm) rte_ring_api \<Rightarrow> 'r ps_ring \<Rightarrow> u32 \<Rightarrow> u32 \<times> 'm list \<times> 'r ps_ring" where
  "psring_dequeue_burst api psr n =
     (let (k, objs, r') = rte_ring_sc_dequeue_burst api (ps_ring_ring psr) n
      in (k, objs, psr\<lparr>ps_ring_ring := r'\<rparr>))"

definition psring_dequeue :: "('r, 'm) rte_ring_api \<Rightarrow> 'r ps_ring \<Rightarrow> u32 \<times> 'm list \<times> 'r ps_ring" where
  "psring_dequeue api psr =
     (let (rc, objs, r') = rte_ring_sc_dequeue api (ps_ring_ring psr)
      in (if rc = 0 then 1 else 0, objs, psr\<lparr>ps_ring_ring := r'\<rparr>))"

definition psring_count :: "('r, 'm) rte_ring_api \<Rightarrow> 'r ps_ring \<Rightarrow> u32" where
  "psring_count api psr = rte_ring_count api (ps_ring_ring psr)"

definition psring_capacity :: "'r ps_ring \<Rightarrow> u32" where
  "psring_capacity psr = ps_capacity psr"

section \<open>Contents and invariant\<close>

definition ps_conts :: "('r, 'm) ring_view \<Rightarrow> 'r ps_ring \<Rightarrow> 'm list" where
  "ps_conts v psr = conts v (ps_ring_ring psr)"

definition psring_inv :: "('r, 'm) rte_ring_api \<Rightarrow> ('r, 'm) ring_view \<Rightarrow> 'r ps_ring \<Rightarrow> bool" where
  "psring_inv api v psr \<longleftrightarrow> rte_ring_laws api v \<and> valid v (ps_ring_ring psr)
     \<and> length (ps_conts v psr) \<le> unat (ps_capacity psr)
     \<and> ps_capacity psr \<le> PS_RING_SIZE_LIMIT"

text \<open>The creation loop computes the least power of two that is not below the capacity.\<close>

lemma count_loop_pow2:
  assumes "unat capacity \<le> 2 ^ (j + fuel - 1)" and "0 < fuel" and "j + fuel \<le> 32"
    and "\<forall>i < j. 2 ^ i < unat capacity"
  shows "\<exists>k < 32. count_loop fuel (2 ^ j) capacity = Some (2 ^ k) \<and> unat capacity \<le> 2 ^ k
    \<and> (\<forall>i < k. 2 ^ i < unat capacity)"
  using assms
proof (induction fuel arbitrary: j)
  case (Suc fuel)
  then have j: "unat (2 ^ j :: u32) = 2 ^ j" by (intro unat_pow2_u32) simp
  show ?case
  proof (cases "2 ^ j < capacity")
    case True
    then have lt: "2 ^ j < unat capacity" by (simp add: word_less_nat_alt j)
    then have "0 < fuel" using Suc.prems(1) by (cases fuel) simp_all
    moreover have "\<forall>i < Suc j. 2 ^ i < unat capacity" using lt Suc.prems(4) by (simp add: less_Suc_eq)
    ultimately have "\<exists>k < 32. count_loop fuel (2 ^ Suc j) capacity = Some (2 ^ k) \<and> unat capacity \<le> 2 ^ k
        \<and> (\<forall>i < k. 2 ^ i < unat capacity)"
      using Suc.prems by (intro Suc.IH) simp_all
    with True show ?thesis by (simp add: mult.commute)
  next
    case False
    then have "unat capacity \<le> 2 ^ j" by (simp add: word_less_nat_alt j not_less)
    with False Suc.prems(3,4) show ?thesis by (intro exI [of _ j]) simp
  qed
qed simp


lemma clamp_capacity_le: "unat (clamp_capacity c) \<le> 268435455"
  by (cases "PS_RING_SIZE_LIMIT < c")
     (simp_all add: clamp_capacity_def PS_RING_SIZE_LIMIT_def word_less_nat_alt)

lemma clamp_capacity_min: "clamp_capacity c = min c PS_RING_SIZE_LIMIT"
  by (auto simp: clamp_capacity_def min_def not_less)

lemma create_psring_spec:
  assumes "rte_ring_laws api v"
  shows "\<exists>k res. (\<forall>i < k. 2 ^ i < unat (clamp_capacity c)) \<and> unat (clamp_capacity c) \<le> 2 ^ k
    \<and> create_psring api cnt c socket = Some (res, cnt + 1)
    \<and> (\<forall>psr. res = Some psr \<longrightarrow> psring_inv api v psr \<and> ps_conts v psr = []
          \<and> ps_capacity psr = clamp_capacity c \<and> usable v (ps_ring_ring psr) = 2 ^ k - 1)"
proof -
  let ?c = "clamp_capacity c"
  note le = clamp_capacity_le [of c]
  obtain k where k: "count_loop 32 (2 ^ 0) ?c = Some (2 ^ k)" "unat ?c \<le> 2 ^ k" "\<forall>i < k. 2 ^ i < unat ?c"
    using count_loop_pow2 [of ?c 0 32] le by auto
  have "k < 31"
  proof (rule ccontr)
    assume "\<not> k < 31"
    then have "(2 :: nat) ^ 28 < unat ?c" using k(3) [rule_format, of 28] by simp
    with le show False by simp
  qed
  moreover have "?c \<le> PS_RING_SIZE_LIMIT" using le by (simp add: word_le_nat_alt PS_RING_SIZE_LIMIT_def)
  ultimately show ?thesis
    using k assms ring_created [OF assms]
    by (intro exI [of _ k])
       (auto simp: create_psring_def Let_def psring_inv_def ps_conts_def split: option.splits)
qed

section \<open>Operations\<close>

lemma psring_bulk_spec:
  assumes "rte_ring_laws api v" and "valid v (ps_ring_ring psr)" and "unat n \<le> length obj"
    and "psring_enqueue_bulk api psr obj n = (k, psr')"
  shows "valid v (ps_ring_ring psr') \<and> ps_conts v psr' = ps_conts v psr @ take (unat k) obj
    \<and> ps_capacity psr' = ps_capacity psr \<and> usable v (ps_ring_ring psr') = usable v (ps_ring_ring psr)
    \<and> unat k = (if unat (rte_ring_count api (ps_ring_ring psr) + n) < unat (ps_capacity psr)
          \<and> length (ps_conts v psr) + unat n \<le> usable v (ps_ring_ring psr) then unat n else 0)"
  using assms(4) ring_enqueue_bulk [OF assms(1-3)] assms(2)
  by (auto simp: psring_enqueue_bulk_def ps_conts_def word_less_nat_alt split: prod.splits if_splits)

lemma psring_burst_spec:
  assumes "rte_ring_laws api v" and "valid v (ps_ring_ring psr)" and "unat n \<le> length obj"
    and "psring_enqueue_burst api psr obj n = (k, psr')"
  shows "valid v (ps_ring_ring psr') \<and> ps_conts v psr' = ps_conts v psr @ take (unat k) obj
    \<and> ps_capacity psr' = ps_capacity psr \<and> usable v (ps_ring_ring psr') = usable v (ps_ring_ring psr)
    \<and> (unat n < 2147483648 \<longrightarrow> unat k = min (unat n)
          (min (unat (ps_capacity psr)) (usable v (ps_ring_ring psr)) - length (ps_conts v psr)))"
proof -
  let ?r = "ps_ring_ring psr" and ?cap = "ps_capacity psr"
  let ?m = "if ?cap < rte_ring_count api ?r + n then ?cap - rte_ring_count api ?r else n"
  note b = ring_bounds [OF assms(1,2)]
  show ?thesis
  proof (cases "?cap < rte_ring_count api ?r")
    case True
    with assms(2,4) b show ?thesis
      by (auto simp: psring_enqueue_burst_def ps_conts_def word_less_nat_alt)
  next
    case False
    then have cap: "length (conts v ?r) \<le> unat ?cap" by (simp add: word_less_nat_alt b)
    obtain r' where r: "rte_ring_sp_enqueue_burst api ?r obj ?m = (k, r')" "psr' = psr\<lparr>ps_ring_ring := r'\<rparr>"
      using assms(4) False by (auto simp: psring_enqueue_burst_def Let_def split: prod.splits)
    have sub: "unat (?cap - rte_ring_count api ?r) = unat ?cap - length (conts v ?r)"
      using False by (subst unat_sub) (simp_all add: b not_less)
    have add: "unat (rte_ring_count api ?r + n) = length (conts v ?r) + unat n" if "unat n < 2147483648"
      using that b(1,2) by (simp add: unat_add_u32 b(3))
    have m: "unat ?m \<le> unat n"
    proof (cases "?cap < rte_ring_count api ?r + n")
      case True
      then have "unat ?cap < (length (conts v ?r) + unat n) mod 4294967296"
        by (simp add: word_less_nat_alt unat_add_u32 b(3))
      also have "\<dots> \<le> length (conts v ?r) + unat n" by simp
      finally show ?thesis using True sub by simp
    qed simp
    then have "unat ?m \<le> length obj" using assms(3) by linarith
    note e = ring_enqueue_burst [OF assms(1,2) this r(1)]
    have "unat k = min (unat n) (min (unat ?cap) (usable v ?r) - length (conts v ?r))"
      if n: "unat n < 2147483648"
      using e(2) sub add [OF n] cap b(1) by (auto simp: word_less_nat_alt min_def split: if_splits)
    with e r show ?thesis by (simp add: ps_conts_def)
  qed
qed

lemma psring_one_spec:
  assumes "rte_ring_laws api v" and "valid v (ps_ring_ring psr)"
    and "psring_enqueue api psr obj = (k, psr')"
  shows "valid v (ps_ring_ring psr') \<and> ps_conts v psr' = ps_conts v psr @ take (unat k) [obj]
    \<and> ps_capacity psr' = ps_capacity psr \<and> usable v (ps_ring_ring psr') = usable v (ps_ring_ring psr)
    \<and> unat k = (if length (ps_conts v psr) < unat (ps_capacity psr)
        \<and> length (ps_conts v psr) < usable v (ps_ring_ring psr) then 1 else 0)"
proof -
  note b = ring_bounds [OF assms(1,2)]
  have "unat (rte_ring_count api (ps_ring_ring psr) + 1) = length (ps_conts v psr) + 1"
    using b by (simp add: unat_add_u32 ps_conts_def)
  then have g: "rte_ring_count api (ps_ring_ring psr) + 1 \<le> ps_capacity psr
      \<longleftrightarrow> length (ps_conts v psr) < unat (ps_capacity psr)" by (simp add: word_le_nat_alt Suc_le_eq)
  show ?thesis
    using assms(2,3) ring_enqueue_one [OF assms(1,2), of obj]
    by (auto simp: psring_enqueue_def ps_conts_def g [unfolded ps_conts_def] split: prod.splits if_splits)
qed

lemma psring_dequeue_bulk_spec:
  assumes "rte_ring_laws api v" and "valid v (ps_ring_ring psr)"
    and "psring_dequeue_bulk api psr n = (k, ys, psr')"
  shows "valid v (ps_ring_ring psr') \<and> ys @ ps_conts v psr' = ps_conts v psr \<and> ps_capacity psr' = ps_capacity psr
    \<and> usable v (ps_ring_ring psr') = usable v (ps_ring_ring psr)
    \<and> unat k = length ys \<and> length ys = (if unat n \<le> length (ps_conts v psr) then unat n else 0)"
proof -
  obtain r' where r: "rte_ring_sc_dequeue_bulk api (ps_ring_ring psr) n = (k, ys, r')"
      "psr' = psr\<lparr>ps_ring_ring := r'\<rparr>"
    using assms(3) by (auto simp: psring_dequeue_bulk_def split: prod.splits)
  show ?thesis using ring_deq_bulk [OF assms(1,2) r(1)] r(2) by (simp add: ps_conts_def)
qed

lemma psring_dequeue_burst_spec:
  assumes "rte_ring_laws api v" and "valid v (ps_ring_ring psr)"
    and "psring_dequeue_burst api psr n = (k, ys, psr')"
  shows "valid v (ps_ring_ring psr') \<and> ys @ ps_conts v psr' = ps_conts v psr \<and> ps_capacity psr' = ps_capacity psr
    \<and> usable v (ps_ring_ring psr') = usable v (ps_ring_ring psr)
    \<and> unat k = length ys \<and> length ys = min (unat n) (length (ps_conts v psr))"
proof -
  obtain r' where r: "rte_ring_sc_dequeue_burst api (ps_ring_ring psr) n = (k, ys, r')"
      "psr' = psr\<lparr>ps_ring_ring := r'\<rparr>"
    using assms(3) by (auto simp: psring_dequeue_burst_def split: prod.splits)
  show ?thesis using ring_deq_burst [OF assms(1,2) r(1)] r(2) by (simp add: ps_conts_def)
qed

lemma psring_dequeue_spec:
  assumes "rte_ring_laws api v" and "valid v (ps_ring_ring psr)"
    and "psring_dequeue api psr = (k, ys, psr')"
  shows "valid v (ps_ring_ring psr') \<and> ys @ ps_conts v psr' = ps_conts v psr \<and> ps_capacity psr' = ps_capacity psr
    \<and> usable v (ps_ring_ring psr') = usable v (ps_ring_ring psr)
    \<and> unat k = length ys \<and> length ys = min 1 (length (ps_conts v psr))"
proof -
  obtain rc r' where r: "rte_ring_sc_dequeue api (ps_ring_ring psr) = (rc, ys, r')"
      "psr' = psr\<lparr>ps_ring_ring := r'\<rparr>" "k = (if rc = 0 then 1 else 0)"
    using assms(3) by (auto simp: psring_dequeue_def split: prod.splits)
  show ?thesis using ring_deq_one [OF assms(1,2) r(1)] r(2,3)
    by (cases "conts v (ps_ring_ring psr)") (simp_all add: ps_conts_def)
qed

section \<open>FIFO contract\<close>

definition ps_offer_bulk :: "('r, 'm) rte_ring_api \<Rightarrow> 'r ps_ring \<Rightarrow> 'm list \<Rightarrow> nat \<times> 'r ps_ring" where
  "ps_offer_bulk api psr obj =
     (let (k, psr') = psring_enqueue_bulk api psr obj (word_of_nat (length obj)) in (unat k, psr'))"

definition ps_offer_burst :: "('r, 'm) rte_ring_api \<Rightarrow> 'r ps_ring \<Rightarrow> 'm list \<Rightarrow> nat \<times> 'r ps_ring" where
  "ps_offer_burst api psr obj =
     (let (k, psr') = psring_enqueue_burst api psr obj (word_of_nat (length obj)) in (unat k, psr'))"

definition ps_take_burst :: "('r, 'm) rte_ring_api \<Rightarrow> 'r ps_ring \<Rightarrow> nat \<Rightarrow> 'm list \<times> 'r ps_ring" where
  "ps_take_burst api psr n = (let (k, objs, psr') = psring_dequeue_burst api psr (word_of_nat n) in (objs, psr'))"

lemma ps_take_burst_law:
  assumes "rte_ring_laws api v \<and> valid v (ps_ring_ring s)" and "ps_take_burst api s n = (ys, s')"
  shows "(rte_ring_laws api v \<and> valid v (ps_ring_ring s')) \<and> ps_conts v s = ys @ ps_conts v s'"
proof -
  obtain k where "psring_dequeue_burst api s (word_of_nat n) = (k, ys, s')"
    using assms(2) by (auto simp: ps_take_burst_def split: prod.splits)
  with assms(1) show ?thesis using psring_dequeue_burst_spec by metis
qed

interpretation ps_burst: packet_fifo "\<lambda>s. rte_ring_laws api v \<and> valid v (ps_ring_ring s)" "ps_conts v"
  "ps_offer_burst api" "ps_take_burst api"
  for api :: "('r, 'm) rte_ring_api" and v
proof unfold_locales
  fix s s' xs k
  assume "rte_ring_laws api v \<and> valid v (ps_ring_ring s)" and "ps_offer_burst api s xs = (k, s')"
  then show "(rte_ring_laws api v \<and> valid v (ps_ring_ring s')) \<and> ps_conts v s' = ps_conts v s @ take k xs"
    using psring_burst_spec [OF _ _ unat_length_le, of api v s xs]
    by (auto simp: ps_offer_burst_def Let_def split: prod.splits)
qed (rule ps_take_burst_law)

interpretation ps_bulk: packet_fifo "\<lambda>s. rte_ring_laws api v \<and> valid v (ps_ring_ring s)" "ps_conts v"
  "ps_offer_bulk api" "ps_take_burst api"
  for api :: "('r, 'm) rte_ring_api" and v
proof unfold_locales
  fix s s' xs k
  assume "rte_ring_laws api v \<and> valid v (ps_ring_ring s)" and "ps_offer_bulk api s xs = (k, s')"
  then show "(rte_ring_laws api v \<and> valid v (ps_ring_ring s')) \<and> ps_conts v s' = ps_conts v s @ take k xs"
    using psring_bulk_spec [OF _ _ unat_length_le, of api v s xs]
    by (auto simp: ps_offer_bulk_def Let_def split: prod.splits)
qed (rule ps_take_burst_law)

section \<open>Properties\<close>

text \<open>The operations of a packet-sized ring, for runs that mix all of them.\<close>

datatype 'm ps_op = EnqBulk "'m list" | EnqBurst "'m list" | Enq 'm | DeqBulk u32 | DeqBurst u32 | Deq

fun ps_step :: "('r, 'm) rte_ring_api \<Rightarrow> 'r ps_ring \<Rightarrow> 'm ps_op \<Rightarrow> 'r ps_ring" where
  "ps_step api psr (EnqBulk xs) = snd (psring_enqueue_bulk api psr xs (word_of_nat (length xs)))"
| "ps_step api psr (EnqBurst xs) = snd (psring_enqueue_burst api psr xs (word_of_nat (length xs)))"
| "ps_step api psr (Enq x) = snd (psring_enqueue api psr x)"
| "ps_step api psr (DeqBulk n) = snd (snd (psring_dequeue_bulk api psr n))"
| "ps_step api psr (DeqBurst n) = snd (snd (psring_dequeue_burst api psr n))"
| "ps_step api psr Deq = snd (snd (psring_dequeue api psr))"

fun ps_op_ok :: "'m ps_op \<Rightarrow> bool" where
  "ps_op_ok (EnqBurst xs) \<longleftrightarrow> length xs < 2147483648"
| "ps_op_ok _ \<longleftrightarrow> True"

text \<open>An operation with what its caller sees: the returned count and the packets handed out.\<close>

definition enq_answer :: "u32 \<times> 'r ps_ring \<Rightarrow> (nat \<times> 'm list) \<times> 'r ps_ring" where
  "enq_answer res = (case res of (k, psr') \<Rightarrow> ((unat k, []), psr'))"

definition deq_answer :: "u32 \<times> 'm list \<times> 'r ps_ring \<Rightarrow> (nat \<times> 'm list) \<times> 'r ps_ring" where
  "deq_answer res = (case res of (k, ys, psr') \<Rightarrow> ((unat k, ys), psr'))"

fun ps_exec :: "('r, 'm) rte_ring_api \<Rightarrow> 'r ps_ring \<Rightarrow> 'm ps_op \<Rightarrow> (nat \<times> 'm list) \<times> 'r ps_ring" where
  "ps_exec api psr (EnqBulk xs) = enq_answer (psring_enqueue_bulk api psr xs (word_of_nat (length xs)))"
| "ps_exec api psr (EnqBurst xs) = enq_answer (psring_enqueue_burst api psr xs (word_of_nat (length xs)))"
| "ps_exec api psr (Enq x) = enq_answer (psring_enqueue api psr x)"
| "ps_exec api psr (DeqBulk n) = deq_answer (psring_dequeue_bulk api psr n)"
| "ps_exec api psr (DeqBurst n) = deq_answer (psring_dequeue_burst api psr n)"
| "ps_exec api psr Deq = deq_answer (psring_dequeue api psr)"

text \<open>The abstract ring: a list bounded by the capacity \<open>c\<close> and by the \<open>u\<close> slots of the ring below. A bulk
  has to leave one packet of the capacity free.\<close>

fun ps_spec :: "nat \<Rightarrow> nat \<Rightarrow> 'm list \<Rightarrow> 'm ps_op \<Rightarrow> (nat \<times> 'm list) \<times> 'm list" where
  "ps_spec c u q (EnqBulk xs) =
     (if length q + length xs < c \<and> length q + length xs \<le> u then ((length xs, []), q @ xs) else ((0, []), q))"
| "ps_spec c u q (EnqBurst xs) =
     (let k = min (length xs) (min c u - length q) in ((k, []), q @ take k xs))"
| "ps_spec c u q (Enq x) = (if length q < min c u then ((1, []), q @ [x]) else ((0, []), q))"
| "ps_spec c u q (DeqBulk n) =
     (if unat n \<le> length q then ((unat n, take (unat n) q), drop (unat n) q) else ((0, []), q))"
| "ps_spec c u q (DeqBurst n) =
     (let k = min (unat n) (length q) in ((k, take k q), drop k q))"
| "ps_spec c u q Deq = (case q of [] \<Rightarrow> ((0, []), []) | x # xs \<Rightarrow> ((1, [x]), xs))"

fun op_answers :: "('s \<Rightarrow> 'o \<Rightarrow> 'a \<times> 's) \<Rightarrow> 's \<Rightarrow> 'o list \<Rightarrow> 'a list" where
  "op_answers step s [] = []"
| "op_answers step s (x # xs) = (let (a, s') = step s x in a # op_answers step s' xs)"

fun ps_op_small :: "'m ps_op \<Rightarrow> bool" where
  "ps_op_small (EnqBurst xs) \<longleftrightarrow> length xs < 2147483648"
| "ps_op_small (EnqBulk xs) \<longleftrightarrow> length xs < 2147483648"
| "ps_op_small _ \<longleftrightarrow> True"

lemma split_of_lengths: "ys @ zs = q \<Longrightarrow> length ys = k \<Longrightarrow> ys = take k q \<and> zs = drop k q"
  by auto

lemma ps_exec_spec:
  assumes laws: "rte_ring_laws api v" and val: "valid v (ps_ring_ring psr)" and "ps_op_small x"
    and exec: "ps_exec api psr x = (a, psr')"
  shows "valid v (ps_ring_ring psr') \<and> ps_capacity psr' = ps_capacity psr
    \<and> usable v (ps_ring_ring psr') = usable v (ps_ring_ring psr)
    \<and> ps_spec (unat (ps_capacity psr)) (usable v (ps_ring_ring psr)) (ps_conts v psr) x = (a, ps_conts v psr')"
proof (cases x)
  case (EnqBulk xs)
  obtain k where e: "psring_enqueue_bulk api psr xs (word_of_nat (length xs)) = (k, psr')" "a = (unat k, [])"
    using exec by (auto simp: EnqBulk enq_answer_def split: prod.splits)
  have n: "unat (word_of_nat (length xs) :: u32) = length xs"
    using assms(3) by (simp add: EnqBulk unat_word_of_nat)
  have "unat (rte_ring_count api (ps_ring_ring psr) + word_of_nat (length xs)) = length (ps_conts v psr) + length xs"
    using assms(3) ring_bounds [OF laws val] by (simp add: EnqBulk unat_add_u32 n ps_conts_def)
  with psring_bulk_spec [OF laws val unat_length_le e(1)] e(2) n show ?thesis by (simp add: EnqBulk)
next
  case (EnqBurst xs)
  obtain k where e: "psring_enqueue_burst api psr xs (word_of_nat (length xs)) = (k, psr')" "a = (unat k, [])"
    using exec by (auto simp: EnqBurst enq_answer_def split: prod.splits)
  have "unat (word_of_nat (length xs) :: u32) = length xs"
    using assms(3) by (simp add: EnqBurst unat_word_of_nat)
  with psring_burst_spec [OF laws val unat_length_le e(1)] e(2) assms(3) show ?thesis by (simp add: EnqBurst Let_def)
next
  case (Enq y)
  obtain k where e: "psring_enqueue api psr y = (k, psr')" "a = (unat k, [])"
    using exec by (auto simp: Enq enq_answer_def split: prod.splits)
  from psring_one_spec [OF laws val e(1)] e(2) show ?thesis by (simp add: Enq)
next
  case (DeqBulk n)
  obtain k ys where e: "psring_dequeue_bulk api psr n = (k, ys, psr')" "a = (unat k, ys)"
    using exec by (auto simp: DeqBulk deq_answer_def split: prod.splits)
  note sp = psring_dequeue_bulk_spec [OF laws val e(1)]
  with split_of_lengths [of ys "ps_conts v psr'" "ps_conts v psr" "length ys"] e(2) show ?thesis
    by (auto simp: DeqBulk split: if_splits)
next
  case (DeqBurst n)
  obtain k ys where e: "psring_dequeue_burst api psr n = (k, ys, psr')" "a = (unat k, ys)"
    using exec by (auto simp: DeqBurst deq_answer_def split: prod.splits)
  note sp = psring_dequeue_burst_spec [OF laws val e(1)]
  with split_of_lengths [of ys "ps_conts v psr'" "ps_conts v psr" "length ys"] e(2) show ?thesis
    by (simp add: DeqBurst Let_def)
next
  case Deq
  obtain k ys where e: "psring_dequeue api psr = (k, ys, psr')" "a = (unat k, ys)"
    using exec by (auto simp: Deq deq_answer_def split: prod.splits)
  note sp = psring_dequeue_spec [OF laws val e(1)]
  with split_of_lengths [of ys "ps_conts v psr'" "ps_conts v psr" "length ys"] e(2) show ?thesis
    by (cases "ps_conts v psr") (auto simp: Deq)
qed

lemma ps_answers_spec:
  assumes "rte_ring_laws api v"
  shows "valid v (ps_ring_ring psr) \<Longrightarrow> list_all ps_op_small ops \<Longrightarrow>
    op_answers (ps_exec api) psr ops
      = op_answers (ps_spec (unat (ps_capacity psr)) (usable v (ps_ring_ring psr))) (ps_conts v psr) ops"
proof (induction ops arbitrary: psr)
  case (Cons x ops)
  obtain a psr' where e: "ps_exec api psr x = (a, psr')" by fastforce
  have "ps_op_small x" "list_all ps_op_small ops" using Cons.prems by simp_all
  note sp = ps_exec_spec [OF assms Cons.prems(1) this(1) e]
  then have "op_answers (ps_exec api) psr' ops
      = op_answers (ps_spec (unat (ps_capacity psr)) (usable v (ps_ring_ring psr))) (ps_conts v psr') ops"
    using Cons.IH [of psr'] Cons.prems by simp
  with sp e show ?case by simp
qed simp

definition ps_same_size :: "('r, 'm) ring_view \<Rightarrow> 'r ps_ring \<Rightarrow> 'r ps_ring \<Rightarrow> bool" where
  "ps_same_size v psr psr' \<longleftrightarrow> ps_capacity psr' = ps_capacity psr
     \<and> usable v (ps_ring_ring psr') = usable v (ps_ring_ring psr)"

lemma psring_inv_shrink:
  assumes "psring_inv api v psr" and "valid v (ps_ring_ring psr')"
    and "ys @ ps_conts v psr' = ps_conts v psr" and "ps_capacity psr' = ps_capacity psr"
  shows "psring_inv api v psr'"
proof -
  have "length (ps_conts v psr') \<le> length (ps_conts v psr)" unfolding assms(3) [symmetric] by simp
  with assms show ?thesis by (simp add: psring_inv_def)
qed

lemma ps_step_inv:
  assumes "psring_inv api v psr" and "ps_op_ok x"
  shows "psring_inv api v (ps_step api psr x) \<and> ps_same_size v psr (ps_step api psr x)"
proof -
  have i: "rte_ring_laws api v" "valid v (ps_ring_ring psr)" "length (ps_conts v psr) \<le> unat (ps_capacity psr)"
      "ps_capacity psr \<le> PS_RING_SIZE_LIMIT"
    using assms(1) by (simp_all add: psring_inv_def)
  show ?thesis
  proof (cases x)
    case (EnqBulk xs)
    obtain k psr' where e: "psring_enqueue_bulk api psr xs (word_of_nat (length xs)) = (k, psr')" by fastforce
    have "length (ps_conts v psr') \<le> unat (ps_capacity psr)"
      using psring_bulk_spec [OF i(1,2) unat_length_le e] i(3) ring_bounds [OF i(1,2)]
      by (auto simp: unat_add_u32 ps_conts_def split: if_splits)
    with psring_bulk_spec [OF i(1,2) unat_length_le e] i show ?thesis
      by (simp add: EnqBulk e psring_inv_def ps_same_size_def)
  next
    case (EnqBurst xs)
    obtain k psr' where e: "psring_enqueue_burst api psr xs (word_of_nat (length xs)) = (k, psr')" by fastforce
    have "unat (word_of_nat (length xs) :: u32) < 2147483648"
      using assms(2) EnqBurst by (simp add: unat_word_of_nat)
    with psring_burst_spec [OF i(1,2) unat_length_le e] i show ?thesis
      by (auto simp: EnqBurst e psring_inv_def ps_same_size_def)
  next
    case (Enq y)
    obtain k psr' where e: "psring_enqueue api psr y = (k, psr')" by fastforce
    with psring_one_spec [OF i(1,2) e] i show ?thesis
      by (auto simp: Enq psring_inv_def ps_same_size_def split: if_splits)
  next
    case (DeqBulk n)
    obtain k ys psr' where e: "psring_dequeue_bulk api psr n = (k, ys, psr')" by (metis prod_cases3)
    note sp = psring_dequeue_bulk_spec [OF i(1,2) e]
    then have "psring_inv api v psr'" by (intro psring_inv_shrink [OF assms(1), of psr' ys]) simp_all
    with sp show ?thesis by (simp add: DeqBulk e ps_same_size_def)
  next
    case (DeqBurst n)
    obtain k ys psr' where e: "psring_dequeue_burst api psr n = (k, ys, psr')" by (metis prod_cases3)
    note sp = psring_dequeue_burst_spec [OF i(1,2) e]
    then have "psring_inv api v psr'" by (intro psring_inv_shrink [OF assms(1), of psr' ys]) simp_all
    with sp show ?thesis by (simp add: DeqBurst e ps_same_size_def)
  next
    case Deq
    obtain k ys psr' where e: "psring_dequeue api psr = (k, ys, psr')" by (metis prod_cases3)
    note sp = psring_dequeue_spec [OF i(1,2) e]
    then have "psring_inv api v psr'" by (intro psring_inv_shrink [OF assms(1), of psr' ys]) simp_all
    with sp show ?thesis by (simp add: Deq e ps_same_size_def)
  qed
qed

lemma ps_run_inv:
  "psring_inv api v psr \<Longrightarrow> list_all ps_op_ok ops \<Longrightarrow>
    psring_inv api v (foldl (ps_step api) psr ops) \<and> ps_same_size v psr (foldl (ps_step api) psr ops)"
proof (induction ops arbitrary: psr)
  case (Cons x ops)
  then show ?case using ps_step_inv [OF Cons.prems(1), of x] Cons.IH [of "ps_step api psr x"]
    by (simp add: ps_same_size_def)
qed (simp add: ps_same_size_def)

text \<open>C4: Creating a packet-sized ring always terminates and gives an empty ring; every run of enqueue and
  dequeue operations of any kind (burst batches below 2^31 packets) leaves it with at most
  \<^verbatim>\<open>capacity\<close> packets, the requested capacity clamped to the limit.\<close>
theorem psring_capacity_respected:
  assumes "rte_ring_laws api v" and "list_all ps_op_ok ops"
  shows "\<exists>res. create_psring api cnt c socket = Some (res, cnt + 1)
    \<and> (\<forall>psr. res = Some psr \<longrightarrow> psring_count api psr = 0
        \<and> psring_capacity psr = min c PS_RING_SIZE_LIMIT
        \<and> psring_count api (foldl (ps_step api) psr ops) \<le> psring_capacity psr)"
proof -
  obtain k res where c: "create_psring api cnt c socket = Some (res, cnt + 1)"
      "\<And>psr. res = Some psr \<Longrightarrow> psring_inv api v psr \<and> ps_conts v psr = [] \<and> ps_capacity psr = clamp_capacity c"
    using create_psring_spec [OF assms(1), of c cnt socket] by blast
  have "psring_count api psr = 0 \<and> psring_capacity psr = min c PS_RING_SIZE_LIMIT
      \<and> psring_count api (foldl (ps_step api) psr ops) \<le> psring_capacity psr" if "res = Some psr" for psr
  proof -
    note p = c(2) [OF that]
    let ?t = "foldl (ps_step api) psr ops"
    have t: "psring_inv api v ?t" "ps_capacity ?t = ps_capacity psr"
      using ps_run_inv [of api v psr ops] p assms(2) by (simp_all add: ps_same_size_def)
    have "unat (psring_count api psr) = 0"
      using p ring_bounds(3) [of api v "ps_ring_ring psr"] by (simp add: psring_inv_def psring_count_def ps_conts_def)
    moreover have "psring_count api ?t \<le> ps_capacity psr"
      unfolding word_le_nat_alt using t ring_bounds(3) [of api v "ps_ring_ring ?t"] by (simp add: psring_inv_def psring_count_def ps_conts_def)
    ultimately show ?thesis
      using p by (simp add: psring_capacity_def unat_eq_zero clamp_capacity_min)
  qed
  with c(1) show ?thesis by blast
qed

theorem psring_capacity_respected_witness:
  "\<exists>res. create_psring (list_ring :: (nat list \<times> nat, nat) rte_ring_api) 0 5 0 = Some (res, 0 + 1)
    \<and> (\<forall>psr. res = Some psr \<longrightarrow> psring_count list_ring psr = 0
        \<and> psring_capacity psr = min 5 PS_RING_SIZE_LIMIT
        \<and> psring_count list_ring (foldl (ps_step list_ring) psr [EnqBurst [1, 2, 3, 4, 5, 6, 7], Enq 8])
            \<le> psring_capacity psr)"
  by (rule psring_capacity_respected [OF list_ring_laws]) simp

text \<open>A ring created with a power-of-two capacity can never be filled to that capacity: DPDK keeps one
  slot of the power-of-two ring free, so at most \<open>capacity - 1\<close> packets are ever queued.\<close>
theorem psring_pow2_capacity_unreachable:
  assumes "rte_ring_laws api v" and "list_all ps_op_ok ops" and "j < 28"
    and "create_psring api cnt (2 ^ j) socket = Some (Some psr, cnt')"
  shows "unat (psring_count api (foldl (ps_step api) psr ops)) < unat (psring_capacity psr)"
proof -
  have j: "unat (2 ^ j :: u32) = 2 ^ j" using assms(3) by (intro unat_pow2_u32) simp
  have j28: "(2 :: nat) ^ j < 2 ^ 28" using assms(3) by (rule power_strict_increasing) simp
  then have cl: "clamp_capacity (2 ^ j) = 2 ^ j"
    using j by (simp add: clamp_capacity_def PS_RING_SIZE_LIMIT_def word_less_nat_alt)
  obtain k where k: "\<forall>i < k. 2 ^ i < (2 :: nat) ^ j" "(2 :: nat) ^ j \<le> 2 ^ k" "psring_inv api v psr"
      "ps_capacity psr = 2 ^ j" "usable v (ps_ring_ring psr) = 2 ^ k - 1"
    using create_psring_spec [OF assms(1), of "2 ^ j" cnt socket] assms(4) by (auto simp: cl j)
  have "k \<le> j" using k(1) by (meson not_le order_less_irrefl)
  moreover have "j \<le> k" using k(2) by simp
  ultimately have u: "usable v (ps_ring_ring psr) = 2 ^ j - 1" using k(5) by simp
  let ?t = "foldl (ps_step api) psr ops"
  have "psring_inv api v ?t" "usable v (ps_ring_ring ?t) = 2 ^ j - 1"
    using ps_run_inv [OF k(3) assms(2)] u by (simp_all add: ps_same_size_def)
  then have "unat (psring_count api ?t) \<le> 2 ^ j - 1"
    using ring_bounds [of api v "ps_ring_ring ?t"] by (simp add: psring_inv_def psring_count_def)
  also have "\<dots> < 2 ^ j" by simp
  finally show ?thesis by (simp add: psring_capacity_def k(4) j)
qed


theorem psring_pow2_capacity_unreachable_witness:
  "unat (psring_count list_ring (foldl (ps_step list_ring)
     \<lparr> ps_ring_ring = ([] :: nat list, 7), ps_capacity = 8 \<rparr> [EnqBurst [1, 2, 3, 4, 5, 6, 7, 8, 9]]))
   < unat (psring_capacity \<lparr> ps_ring_ring = ([] :: nat list, 7 :: nat), ps_capacity = 8 \<rparr>)"
proof -
  have "create_psring list_ring 0 (2 ^ 3) 0
      = Some (Some \<lparr> ps_ring_ring = ([] :: nat list, 7), ps_capacity = 8 \<rparr>, 1)"
    by code_simp
  then show ?thesis
    by (intro psring_pow2_capacity_unreachable [OF list_ring_laws, of _ 3 0 0 _ 1]) simp_all
qed

text \<open>C5: A new packet-sized ring is a bounded FIFO of the requested capacity (clamped to the limit): every run
  of its six operations (batches below 2^31 packets) returns exactly the counts and hands out exactly the
  packets of the abstract bounded list. A burst accepts the longest prefix that fits the capacity and the
  \<open>2 ^ k - 1\<close> slots of the ring below (\<open>2 ^ k\<close> the least power of two not below the capacity), a bulk is
  accepted as a whole or not at all, and packets leave in the order they were accepted.\<close>
theorem psring_fifo:
  assumes "rte_ring_laws api v" and "create_psring api cnt c socket = Some (Some psr, cnt')"
    and "list_all ps_op_small ops"
  shows "\<exists>k. (\<forall>i < k. 2 ^ i < unat (min c PS_RING_SIZE_LIMIT)) \<and> unat (min c PS_RING_SIZE_LIMIT) \<le> 2 ^ k
    \<and> op_answers (ps_exec api) psr ops = op_answers (ps_spec (unat (min c PS_RING_SIZE_LIMIT)) (2 ^ k - 1)) [] ops"
proof -
  obtain k where k: "\<forall>i < k. 2 ^ i < unat (clamp_capacity c)" "unat (clamp_capacity c) \<le> 2 ^ k"
      "psring_inv api v psr" "ps_conts v psr = []" "ps_capacity psr = clamp_capacity c"
      "usable v (ps_ring_ring psr) = 2 ^ k - 1"
    using create_psring_spec [OF assms(1), of c cnt socket] assms(2) by auto
  then have "valid v (ps_ring_ring psr)" by (simp add: psring_inv_def)
  from ps_answers_spec [OF assms(1) this assms(3)] k show ?thesis
    unfolding clamp_capacity_min by (intro exI [of _ k]) simp
qed

text \<open>Seven packets offered to a ring of capacity 5: five are taken, a sixth refused; after two have left, a
  bulk that would fill the capacity is refused, a single packet accepted, and the order is kept.\<close>

theorem psring_fifo_witness:
  "op_answers (ps_exec list_ring) \<lparr> ps_ring_ring = ([] :: nat list, 7), ps_capacity = 5 \<rparr>
     [EnqBurst [1, 2, 3, 4, 5, 6, 7], Enq 8, DeqBurst 2, EnqBulk [9, 10], Enq 11, Deq, DeqBulk 4, DeqBurst 9]
   = [(5, []), (0, []), (2, [1, 2]), (0, []), (1, []), (1, [3]), (0, []), (3, [4, 5, 11])]"
proof -
  let ?ops = "[EnqBurst [1, 2, 3, 4, 5, 6, 7], Enq 8, DeqBurst 2, EnqBulk [9, 10], Enq 11, Deq, DeqBulk 4, DeqBurst 9]
    :: nat ps_op list"
  have "create_psring list_ring 0 5 0 = Some (Some \<lparr> ps_ring_ring = ([] :: nat list, 7), ps_capacity = 5 \<rparr>, 1)"
    by code_simp
  then obtain k where k: "\<forall>i < k. 2 ^ i < (5 :: nat)" "5 \<le> (2 :: nat) ^ k"
      "op_answers (ps_exec list_ring) \<lparr> ps_ring_ring = ([] :: nat list, 7), ps_capacity = 5 \<rparr> ?ops
        = op_answers (ps_spec 5 (2 ^ k - 1)) [] ?ops"
    using psring_fifo [OF list_ring_laws, of 0 5 0 _ 1 ?ops] by (auto simp: PS_RING_SIZE_LIMIT_def)
  have "k \<le> 3" using k(1) [rule_format, of 3] by (cases "3 < k") simp_all
  moreover have "2 < k" using k(2) power_increasing [of k 2 "2 :: nat"] by (cases "k \<le> 2") simp_all
  ultimately have "k = 3" by simp
  with k(3) show ?thesis by simp
qed

text \<open>Bulk enqueues stop one packet short: a bulk of \<open>n\<close> packets that would exactly fill the remaining
  capacity is refused, while single enqueues and bursts accept it when the ring has the slots. The guard
  of \<open>psring_enqueue_bulk\<close> is a strict comparison.\<close>
theorem psring_bulk_refuses_exact_fit:
  assumes "psring_inv api v psr" and "unat n \<le> length obj" and "0 < unat n"
    and "length (ps_conts v psr) + unat n = unat (ps_capacity psr)"
    and "unat (ps_capacity psr) \<le> usable v (ps_ring_ring psr)"
  shows "psring_enqueue_bulk api psr obj n = (0, psr)
    \<and> unat (fst (psring_enqueue_burst api psr obj n)) = unat n"
proof -
  have i: "rte_ring_laws api v" "valid v (ps_ring_ring psr)" using assms(1) by (simp_all add: psring_inv_def)
  have "unat (rte_ring_count api (ps_ring_ring psr) + n) = unat (ps_capacity psr)"
    using assms(4) ring_bounds(3) [OF i] unat_bound_u32 [of "ps_capacity psr"]
    by (simp add: unat_add_u32 ps_conts_def)
  then have "psring_enqueue_bulk api psr obj n = (0, psr)"
    by (simp add: psring_enqueue_bulk_def word_less_nat_alt)
  moreover obtain k psr' where e: "psring_enqueue_burst api psr obj n = (k, psr')" by fastforce
  have "unat n < 2147483648" using assms(4,5) ring_bounds(2) [OF i] by linarith
  with psring_burst_spec [OF i assms(2) e] assms(4,5)
  have "unat (fst (psring_enqueue_burst api psr obj n)) = unat n" by (simp add: e min_def)
  ultimately show ?thesis by simp
qed

theorem psring_bulk_refuses_exact_fit_witness:
  "psring_enqueue_bulk list_ring \<lparr> ps_ring_ring = ([1 :: nat], 7), ps_capacity = 3 \<rparr> [2, 3] 2
    = (0, \<lparr> ps_ring_ring = ([1], 7), ps_capacity = 3 \<rparr>)
   \<and> unat (fst (psring_enqueue_burst list_ring \<lparr> ps_ring_ring = ([1 :: nat], 7), ps_capacity = 3 \<rparr> [2, 3] 2)) = 2"
proof -
  let ?psr = "\<lparr> ps_ring_ring = ([1 :: nat], 7 :: nat), ps_capacity = 3 \<rparr>"
  have i: "psring_inv list_ring list_view ?psr"
    by (simp add: psring_inv_def list_ring_laws)
       (simp add: list_view_def ps_conts_def PS_RING_SIZE_LIMIT_def)
  have h: "length (ps_conts list_view ?psr) + unat (2 :: u32) = unat (ps_capacity ?psr)"
      "unat (ps_capacity ?psr) \<le> usable list_view (ps_ring_ring ?psr)"
    by (simp_all add: list_view_def ps_conts_def)
  have l: "unat (2 :: u32) \<le> length [2, 3 :: nat]" "0 < unat (2 :: u32)" by simp_all
  show ?thesis using psring_bulk_refuses_exact_fit [OF i l h] by simp
qed

end
