(* ===== verification/ByteSizedRing.thy ===== *)
theory ByteSizedRing
  imports RteRing
begin

text \<open>
  \<^verbatim>\<open>src/src/bytesizedring.cpp\<close>: a ring whose capacity bounds the number of queued bytes, tracked in the
  atomic counter \<open>bytes_used\<close>. The packet length is read through the mbuf pointer: \<open>pkt_len\<close> maps a
  queued object to its \<^verbatim>\<open>pkt_len\<close> field. All arithmetic is that of \<^verbatim>\<open>uint32_t\<close> and \<^verbatim>\<open>int\<close> at 32 bits; an
  \<^verbatim>\<open>int\<close> comparison is one of \<open>sint\<close>.
\<close>

section \<open>Model\<close>

record 'r bs_ring =
  bs_ring_ring :: 'r
  bs_capacity :: u32
  bytes_used :: u32

text \<open>\<^verbatim>\<open>while (count < count_min && count <= BS_RING_SIZE_LIMIT) count *= 2\<close>, with fuel.\<close>

fun bs_count_loop :: "nat \<Rightarrow> u32 \<Rightarrow> u32 \<Rightarrow> u32 option" where
  "bs_count_loop 0 count count_min = None"
| "bs_count_loop (Suc fuel) count count_min =
     (if sint count < sint count_min \<and> sint count \<le> 268435455
      then bs_count_loop fuel (count * 2) count_min else Some count)"

definition create_bsring :: "('r, 'm) rte_ring_api \<Rightarrow> u32 \<Rightarrow> u32 \<Rightarrow> int \<Rightarrow> ('r bs_ring option \<times> u32) option" where
  "create_bsring api ring_cnt capacity socket =
     (let count_min = capacity div 60 in
      case bs_count_loop 32 1 count_min of None \<Rightarrow> None
      | Some count \<Rightarrow>
          Some (case rte_ring_create api (ring_name ''mbuf_bs_ring'' ring_cnt) count socket of
                  None \<Rightarrow> None
                | Some r \<Rightarrow> Some \<lparr> bs_ring_ring = r, bs_capacity = capacity, bytes_used = 0 \<rparr>,
                ring_cnt + 1))"

text \<open>As in \<open>create_psring_malloc\<close>: the result of \<^verbatim>\<open>malloc\<close> is not tested, and NULL faults at the first store.\<close>

definition create_bsring_malloc ::
    "('r, 'm) rte_ring_api \<Rightarrow> bool \<Rightarrow> u32 \<Rightarrow> u32 \<Rightarrow> int \<Rightarrow> ('r bs_ring option \<times> u32) option" where
  "create_bsring_malloc api malloc_ok ring_cnt capacity socket =
     (if malloc_ok then create_bsring api ring_cnt capacity socket else None)"

text \<open>\<^verbatim>\<open>for (i = 0; i < n; i++) total_size += obj[i]->pkt_len\<close>\<close>

fun total_size :: "('m \<Rightarrow> u32) \<Rightarrow> 'm list \<Rightarrow> nat \<Rightarrow> u32" where
  "total_size pkt_len obj 0 = 0"
| "total_size pkt_len obj (Suc i) = total_size pkt_len obj i + pkt_len (obj ! i)"

definition bsring_enqueue_bulk ::
    "('r, 'm) rte_ring_api \<Rightarrow> ('m \<Rightarrow> u32) \<Rightarrow> 'r bs_ring \<Rightarrow> 'm list \<Rightarrow> u32 \<Rightarrow> u32 \<times> 'r bs_ring" where
  "bsring_enqueue_bulk api pkt_len bsr obj n =
     (if bs_capacity bsr < bytes_used bsr + total_size pkt_len obj (unat n) then (0, bsr)
      else let (num_added, r') = rte_ring_sp_enqueue_bulk api (bs_ring_ring bsr) obj n
           in (num_added, bsr\<lparr>bs_ring_ring := r',
                 bytes_used := bytes_used bsr + total_size pkt_len obj (unat num_added)\<rparr>))"

text \<open>First loop of the burst: how many packets fit from the start of the batch (lines 68 to 77).\<close>

fun burst_fit_loop :: "('m \<Rightarrow> u32) \<Rightarrow> 'm list \<Rightarrow> u32 \<Rightarrow> u32 \<Rightarrow> u32 \<times> u32" where
  "burst_fit_loop pkt_len [] bytes_remaining num_to_add = (bytes_remaining, num_to_add)"
| "burst_fit_loop pkt_len (p # ps) bytes_remaining num_to_add =
     (if 0 < sint bytes_remaining
      then burst_fit_loop pkt_len ps (bytes_remaining - pkt_len p) (num_to_add + 1)
      else (bytes_remaining, num_to_add))"

definition burst_num_to_add :: "('m \<Rightarrow> u32) \<Rightarrow> 'r bs_ring \<Rightarrow> 'm list \<Rightarrow> u32 \<Rightarrow> u32" where
  "burst_num_to_add pkt_len bsr obj n =
     (let (bytes_remaining, num_to_add) =
            burst_fit_loop pkt_len (take (unat n) obj) (bs_capacity bsr - bytes_used bsr) 0
      in if sint bytes_remaining < 0 then num_to_add - 1 else num_to_add)"

text \<open>
  Second loop (lines 89 to 98): try the remaining packets one by one. The test
  \<^verbatim>\<open>if (rte_ring_sp_enqueue(...))\<close> takes a non-zero return value for success.
\<close>

fun burst_rest_loop :: "('r, 'm) rte_ring_api \<Rightarrow> ('m \<Rightarrow> u32) \<Rightarrow> 'r \<Rightarrow> 'm list \<Rightarrow> u32 \<Rightarrow> u32 \<Rightarrow> u32
    \<Rightarrow> 'r \<times> u32 \<times> u32" where
  "burst_rest_loop api pkt_len r [] bytes_remaining num_added bytes_added = (r, num_added, bytes_added)"
| "burst_rest_loop api pkt_len r (p # ps) bytes_remaining num_added bytes_added =
     (if 60 \<le> sint bytes_remaining
      then if sint (pkt_len p) \<le> sint bytes_remaining
           then let (rc, r') = rte_ring_sp_enqueue api r p in
                if rc \<noteq> 0
                then burst_rest_loop api pkt_len r' ps (bytes_remaining - pkt_len p)
                       (num_added + 1) (bytes_added + pkt_len p)
                else burst_rest_loop api pkt_len r' ps bytes_remaining num_added bytes_added
           else burst_rest_loop api pkt_len r ps bytes_remaining num_added bytes_added
      else (r, num_added, bytes_added))"

definition bsring_enqueue_burst ::
    "('r, 'm) rte_ring_api \<Rightarrow> ('m \<Rightarrow> u32) \<Rightarrow> 'r bs_ring \<Rightarrow> 'm list \<Rightarrow> u32 \<Rightarrow> u32 \<times> 'r bs_ring" where
  "bsring_enqueue_burst api pkt_len bsr obj n =
     (let num_to_add = burst_num_to_add pkt_len bsr obj n;
          (num_added, r) = rte_ring_sp_enqueue_burst api (bs_ring_ring bsr) obj num_to_add;
          bytes_added = total_size pkt_len obj (unat num_added);
          (r, num_added, bytes_added) =
            (if num_added < n
             then burst_rest_loop api pkt_len r (drop (unat num_to_add) (take (unat n) obj))
                    (bs_capacity bsr - bytes_used bsr - bytes_added) num_added bytes_added
             else (r, num_added, bytes_added))
      in (num_added, bsr\<lparr>bs_ring_ring := r, bytes_used := bytes_used bsr + bytes_added\<rparr>))"

definition bsring_enqueue :: "('r, 'm) rte_ring_api \<Rightarrow> ('m \<Rightarrow> u32) \<Rightarrow> 'r bs_ring \<Rightarrow> 'm \<Rightarrow> u32 \<times> 'r bs_ring" where
  "bsring_enqueue api pkt_len bsr obj =
     (if bytes_used bsr + pkt_len obj < bs_capacity bsr
      then let (rc, r') = rte_ring_sp_enqueue api (bs_ring_ring bsr) obj in
           if rc = 0
           then (1, bsr\<lparr>bs_ring_ring := r', bytes_used := bytes_used bsr + pkt_len obj\<rparr>)
           else (0, bsr\<lparr>bs_ring_ring := r'\<rparr>)
      else (0, bsr))"

text \<open>\<^verbatim>\<open>for (i = 0; i < num_dequeued; i++) bsr->bytes_used -= obj[i]->pkt_len\<close>\<close>

definition bs_credit :: "('m \<Rightarrow> u32) \<Rightarrow> 'm list \<Rightarrow> nat \<Rightarrow> 'r \<Rightarrow> 'r bs_ring \<Rightarrow> 'r bs_ring" where
  "bs_credit pkt_len objs k r' bsr =
     bsr\<lparr>bs_ring_ring := r', bytes_used := foldl (\<lambda>b p. b - pkt_len p) (bytes_used bsr) (take k objs)\<rparr>"

definition bsring_dequeue_burst ::
    "('r, 'm) rte_ring_api \<Rightarrow> ('m \<Rightarrow> u32) \<Rightarrow> 'r bs_ring \<Rightarrow> u32 \<Rightarrow> u32 \<times> 'm list \<times> 'r bs_ring" where
  "bsring_dequeue_burst api pkt_len bsr n =
     (let (num_dequeued, objs, r') = rte_ring_sc_dequeue_burst api (bs_ring_ring bsr) n
      in (num_dequeued, objs, bs_credit pkt_len objs (unat num_dequeued) r' bsr))"

definition bsring_dequeue_bulk ::
    "('r, 'm) rte_ring_api \<Rightarrow> ('m \<Rightarrow> u32) \<Rightarrow> 'r bs_ring \<Rightarrow> u32 \<Rightarrow> u32 \<times> 'm list \<times> 'r bs_ring" where
  "bsring_dequeue_bulk api pkt_len bsr n =
     (let (num_dequeued, objs, r') = rte_ring_sc_dequeue_bulk api (bs_ring_ring bsr) n
      in (num_dequeued, objs, bs_credit pkt_len objs (unat num_dequeued) r' bsr))"

definition bsring_dequeue ::
    "('r, 'm) rte_ring_api \<Rightarrow> ('m \<Rightarrow> u32) \<Rightarrow> 'r bs_ring \<Rightarrow> u32 \<times> 'm list \<times> 'r bs_ring" where
  "bsring_dequeue api pkt_len bsr =
     (let (rc, objs, r') = rte_ring_sc_dequeue api (bs_ring_ring bsr)
      in if rc = 0 then (1, objs, bs_credit pkt_len objs 1 r' bsr)
         else (0, objs, bsr\<lparr>bs_ring_ring := r'\<rparr>))"

definition bsring_count :: "('r, 'm) rte_ring_api \<Rightarrow> 'r bs_ring \<Rightarrow> u32" where
  "bsring_count api bsr = rte_ring_count api (bs_ring_ring bsr)"

definition bsring_capacity :: "'r bs_ring \<Rightarrow> u32" where
  "bsring_capacity bsr = bs_capacity bsr"

definition bsring_bytesused :: "'r bs_ring \<Rightarrow> u32" where
  "bsring_bytesused bsr = bytes_used bsr"

section \<open>Byte accounting\<close>

definition bs_conts :: "('r, 'm) ring_view \<Rightarrow> 'r bs_ring \<Rightarrow> 'm list" where
  "bs_conts v bsr = conts v (bs_ring_ring bsr)"

definition bytes_of :: "('m \<Rightarrow> u32) \<Rightarrow> 'm list \<Rightarrow> nat" where
  "bytes_of pkt_len ms = sum_list (map (\<lambda>m. unat (pkt_len m)) ms)"

text \<open>The counter agrees with the queue and the queue respects the capacity.\<close>

definition bsring_inv :: "('r, 'm) rte_ring_api \<Rightarrow> ('r, 'm) ring_view \<Rightarrow> ('m \<Rightarrow> u32) \<Rightarrow> 'r bs_ring \<Rightarrow> bool" where
  "bsring_inv api v pkt_len bsr \<longleftrightarrow> rte_ring_laws api v \<and> valid v (bs_ring_ring bsr)
     \<and> unat (bytes_used bsr) = bytes_of pkt_len (bs_conts v bsr)
     \<and> bytes_used bsr \<le> bs_capacity bsr"

lemma bytes_of_append [simp]: "bytes_of l (xs @ ys) = bytes_of l xs + bytes_of l ys"
  by (simp add: bytes_of_def)

lemma bytes_of_simps [simp]: "bytes_of l [] = 0" "bytes_of l (x # xs) = unat (l x) + bytes_of l xs"
  by (simp_all add: bytes_of_def)

lemma total_size_bytes:
  "n \<le> length obj \<Longrightarrow> total_size l obj n = word_of_nat (bytes_of l (take n obj))"
  by (induction n) (simp_all add: take_Suc_conv_app_nth)

lemma credit_bytes:
  "foldl (\<lambda>b p. b - l p) b ys = b - word_of_nat (bytes_of l ys)"
  by (induction ys arbitrary: b) simp_all


lemma unat_used_add:
  assumes "unat (bytes_used bsr) = bytes_of l (bs_conts v bsr)"
    and "bytes_of l (bs_conts v bsr) + bytes_of l xs < 4294967296"
  shows "unat (bytes_used bsr + word_of_nat (bytes_of l xs)) = bytes_of l (bs_conts v bsr @ xs)"
  using assms by (simp add: unat_add_u32 unat_word_of_nat)

lemma bsring_bulk_spec:
  assumes i: "bsring_inv api v l bsr" and n: "unat n \<le> length obj"
    and small: "unat (bs_capacity bsr) + bytes_of l (take (unat n) obj) < 4294967296"
    and e: "bsring_enqueue_bulk api l bsr obj n = (k, bsr')"
  shows "bsring_inv api v l bsr' \<and> bs_conts v bsr' = bs_conts v bsr @ take (unat k) obj
    \<and> bs_capacity bsr' = bs_capacity bsr
    \<and> unat k = (if bytes_of l (bs_conts v bsr) + bytes_of l (take (unat n) obj) \<le> unat (bs_capacity bsr)
         \<and> length (bs_conts v bsr) + unat n \<le> usable v (bs_ring_ring bsr) then unat n else 0)"
proof -
  let ?t = "total_size l obj (unat n)"
  have r: "rte_ring_laws api v" "valid v (bs_ring_ring bsr)"
      and used: "unat (bytes_used bsr) = bytes_of l (bs_conts v bsr)"
      and cap: "bytes_of l (bs_conts v bsr) \<le> unat (bs_capacity bsr)"
    using i by (simp_all add: bsring_inv_def word_le_nat_alt)
  have sum: "unat (bytes_used bsr + ?t) = bytes_of l (bs_conts v bsr) + bytes_of l (take (unat n) obj)"
    unfolding total_size_bytes [OF n] using unat_used_add [OF used, of "take (unat n) obj"] small cap by simp
  show ?thesis
  proof (cases "bs_capacity bsr < bytes_used bsr + ?t")
    case True
    with e i sum show ?thesis by (auto simp: bsring_enqueue_bulk_def word_less_nat_alt)
  next
    case False
    then have fits: "bytes_of l (bs_conts v bsr) + bytes_of l (take (unat n) obj) \<le> unat (bs_capacity bsr)"
      using sum by (simp add: word_less_nat_alt)
    obtain r' where q: "rte_ring_sp_enqueue_bulk api (bs_ring_ring bsr) obj n = (k, r')"
        "bsr' = bsr\<lparr>bs_ring_ring := r', bytes_used := bytes_used bsr + total_size l obj (unat k)\<rparr>"
      using e False by (auto simp: bsring_enqueue_bulk_def Let_def split: prod.splits)
    note b = ring_enqueue_bulk [OF r n q(1)]
    have k: "unat k = unat n \<or> unat k = 0" using b(2) by (auto split: if_splits)
    then have "unat (bytes_used bsr') = bytes_of l (bs_conts v bsr @ take (unat k) obj)"
      using sum used by (auto simp: q(2))
    moreover from k fits cap have "bytes_of l (bs_conts v bsr @ take (unat k) obj) \<le> unat (bs_capacity bsr)"
      by auto
    ultimately show ?thesis
      using b r fits by (simp add: bsring_inv_def q(2) bs_conts_def word_le_nat_alt)
  qed
qed

lemma bsring_one_spec:
  assumes i: "bsring_inv api v l bsr"
    and small: "unat (bs_capacity bsr) + unat (l obj) < 4294967296"
    and e: "bsring_enqueue api l bsr obj = (k, bsr')"
  shows "bsring_inv api v l bsr' \<and> bs_conts v bsr' = bs_conts v bsr @ take (unat k) [obj]
    \<and> bs_capacity bsr' = bs_capacity bsr
    \<and> unat k = (if bytes_of l (bs_conts v bsr) + unat (l obj) < unat (bs_capacity bsr)
         \<and> length (bs_conts v bsr) < usable v (bs_ring_ring bsr) then 1 else 0)"
proof -
  have r: "rte_ring_laws api v" "valid v (bs_ring_ring bsr)"
      and used: "unat (bytes_used bsr) = bytes_of l (bs_conts v bsr)"
      and cap: "bytes_of l (bs_conts v bsr) \<le> unat (bs_capacity bsr)"
    using i by (simp_all add: bsring_inv_def word_le_nat_alt)
  have sum: "unat (bytes_used bsr + l obj) = bytes_of l (bs_conts v bsr) + unat (l obj)"
    using small cap used by (simp add: unat_add_u32)
  obtain rc r' where q: "rte_ring_sp_enqueue api (bs_ring_ring bsr) obj = (rc, r')" by fastforce
  note b = ring_enqueue_one [OF r q]
  show ?thesis
    using e i b r sum used cap
    by (auto simp: bsring_enqueue_def q bsring_inv_def bs_conts_def word_less_nat_alt word_le_nat_alt
        split: if_splits)
qed

lemma bs_credit_inv:
  assumes i: "bsring_inv api v l bsr" and r': "valid v r'" and split: "ys @ conts v r' = bs_conts v bsr"
    and k: "k = length ys"
  shows "bsring_inv api v l (bs_credit l ys k r' bsr) \<and> bs_conts v (bs_credit l ys k r' bsr) = conts v r'
    \<and> bs_capacity (bs_credit l ys k r' bsr) = bs_capacity bsr"
proof -
  have used: "unat (bytes_used bsr) = bytes_of l ys + bytes_of l (conts v r')"
    using i by (simp add: bsring_inv_def split [symmetric])
  moreover have "unat (word_of_nat (bytes_of l ys) :: u32) = bytes_of l ys"
    using used unat_bound_u32 [of "bytes_used bsr"] by (simp add: unat_word_of_nat)
  ultimately have "unat (bytes_used bsr - word_of_nat (bytes_of l ys)) = bytes_of l (conts v r')"
    by (subst unat_sub) (simp_all add: word_le_nat_alt)
  with i r' used k show ?thesis
    by (simp add: bsring_inv_def bs_credit_def credit_bytes bs_conts_def word_le_nat_alt)
qed

lemma bsring_dequeue_bulk_spec:
  assumes i: "bsring_inv api v l bsr" and e: "bsring_dequeue_bulk api l bsr n = (k, ys, bsr')"
  shows "bsring_inv api v l bsr' \<and> ys @ bs_conts v bsr' = bs_conts v bsr \<and> bs_capacity bsr' = bs_capacity bsr
    \<and> unat k = length ys"
proof -
  have r: "rte_ring_laws api v" "valid v (bs_ring_ring bsr)" using i by (simp_all add: bsring_inv_def)
  obtain r' where q: "rte_ring_sc_dequeue_bulk api (bs_ring_ring bsr) n = (k, ys, r')"
      "bsr' = bs_credit l ys (unat k) r' bsr"
    using e by (auto simp: bsring_dequeue_bulk_def split: prod.splits)
  note d = ring_deq_bulk [OF r q(1)]
  with bs_credit_inv [OF i, of r' ys "unat k"] show ?thesis by (simp add: q(2) bs_conts_def)
qed

lemma bsring_dequeue_burst_spec:
  assumes i: "bsring_inv api v l bsr" and e: "bsring_dequeue_burst api l bsr n = (k, ys, bsr')"
  shows "bsring_inv api v l bsr' \<and> ys @ bs_conts v bsr' = bs_conts v bsr \<and> bs_capacity bsr' = bs_capacity bsr
    \<and> unat k = length ys"
proof -
  have r: "rte_ring_laws api v" "valid v (bs_ring_ring bsr)" using i by (simp_all add: bsring_inv_def)
  obtain r' where q: "rte_ring_sc_dequeue_burst api (bs_ring_ring bsr) n = (k, ys, r')"
      "bsr' = bs_credit l ys (unat k) r' bsr"
    using e by (auto simp: bsring_dequeue_burst_def split: prod.splits)
  note d = ring_deq_burst [OF r q(1)]
  with bs_credit_inv [OF i, of r' ys "unat k"] show ?thesis by (simp add: q(2) bs_conts_def)
qed

lemma bsring_dequeue_spec:
  assumes i: "bsring_inv api v l bsr" and e: "bsring_dequeue api l bsr = (k, ys, bsr')"
  shows "bsring_inv api v l bsr' \<and> ys @ bs_conts v bsr' = bs_conts v bsr \<and> bs_capacity bsr' = bs_capacity bsr
    \<and> unat k = length ys"
proof -
  have r: "rte_ring_laws api v" "valid v (bs_ring_ring bsr)" using i by (simp_all add: bsring_inv_def)
  obtain rc ys' r' where q: "rte_ring_sc_dequeue api (bs_ring_ring bsr) = (rc, ys', r')" by (metis prod_cases3)
  note d = ring_deq_one [OF r q]
  show ?thesis
  proof (cases "rc = 0")
    case True
    then have "ys' = ys" "k = 1" "bsr' = bs_credit l ys 1 r' bsr" using e q by (auto simp: bsring_dequeue_def)
    moreover from True d have "length ys' = 1" by (cases "conts v (bs_ring_ring bsr)") simp_all
    ultimately show ?thesis using d bs_credit_inv [OF i, of r' ys 1] by (simp add: bs_conts_def)
  next
    case False
    with d have "ys' = []" "conts v r' = []" "conts v (bs_ring_ring bsr) = []" by auto
    with False e q d i show ?thesis by (auto simp: bsring_dequeue_def bsring_inv_def bs_conts_def)
  qed
qed


text \<open>Creation: the loop stops at the least power of two that is not below \<open>capacity / 60\<close>.\<close>

lemma bs_count_loop_pow2:
  assumes "unat c \<le> 71582788" and "j + fuel = 32" and "j < 28" and "\<forall>i < j. 2 ^ i < unat c"
  shows "\<exists>k < 28. bs_count_loop fuel (2 ^ j) c = Some (2 ^ k) \<and> unat c \<le> 2 ^ k \<and> (\<forall>i < k. 2 ^ i < unat c)"
  using assms
proof (induction fuel arbitrary: j)
  case (Suc fuel)
  have j: "unat (2 ^ j :: u32) = 2 ^ j" using Suc.prems(3) by (intro unat_pow2_u32) simp
  have j27: "(2 :: nat) ^ j \<le> 2 ^ 27" using Suc.prems(3) by (intro power_increasing) simp_all
  have s: "sint (2 ^ j :: u32) = 2 ^ j" "sint c = int (unat c)"
    using sint_u32_small [of "2 ^ j"] sint_u32_small [of c] j j27 Suc.prems(1)
    by (simp_all only: of_nat_power of_nat_numeral) simp_all
  have lim: "(2 :: int) ^ j \<le> 268435455"
    using power_increasing [of j 27 "2 :: int"] Suc.prems(3) by simp
  show ?case
  proof (cases "2 ^ j < unat c")
    case True
    then have "(2 :: nat) ^ j < 2 ^ 27" using Suc.prems(1) by (simp add: less_le_trans)
    then have "j < 27" by (rule power_less_imp_less_exp [of "2 :: nat", rotated]) simp
    moreover have "\<forall>i < Suc j. 2 ^ i < unat c" using True Suc.prems(4) by (simp add: less_Suc_eq)
    ultimately have "\<exists>k < 28. bs_count_loop fuel (2 ^ Suc j) c = Some (2 ^ k) \<and> unat c \<le> 2 ^ k
        \<and> (\<forall>i < k. 2 ^ i < unat c)"
      using Suc.prems by (intro Suc.IH) simp_all
    moreover have "sint (2 ^ j :: u32) < sint c" using True s by (metis of_nat_less_iff of_nat_numeral of_nat_power)
    ultimately show ?thesis using lim s by (simp add: mult.commute)
  next
    case False
    then have "\<not> sint (2 ^ j :: u32) < sint c" using s by (metis of_nat_less_iff of_nat_numeral of_nat_power)
    with False Suc.prems(3,4) show ?thesis by (intro exI [of _ j]) simp
  qed
qed simp


lemma create_bsring_spec:
  assumes "rte_ring_laws api v"
  shows "\<exists>k res. create_bsring api cnt c socket = Some (res, cnt + 1)
    \<and> unat c div 60 \<le> 2 ^ k \<and> (\<forall>i < k. 2 ^ i < unat c div 60)
    \<and> (\<forall>bsr. res = Some bsr \<longrightarrow> bsring_inv api v l bsr \<and> bs_conts v bsr = [] \<and> bs_capacity bsr = c
          \<and> usable v (bs_ring_ring bsr) = 2 ^ k - 1)"
proof -
  have d: "unat (c div 60) = unat c div 60" by (simp add: unat_div)
  then have "unat (c div 60) \<le> 71582788" using unat_bound_u32 [of c] by simp
  then obtain k where k: "k < 28" "bs_count_loop 32 (2 ^ 0) (c div 60) = Some (2 ^ k)"
      "unat c div 60 \<le> 2 ^ k" "\<forall>i < k. 2 ^ i < unat c div 60"
    using bs_count_loop_pow2 [of "c div 60" 0 32] by (auto simp: d)
  with assms ring_created [OF assms, of _ k] show ?thesis
    by (intro exI [of _ k])
       (auto simp: create_bsring_def Let_def bsring_inv_def bs_conts_def split: option.splits)
qed

section \<open>Runs\<close>

datatype 'm bs_op = BEnqBulk "'m list" | BEnq 'm | BDeqBulk u32 | BDeqBurst u32 | BDeq

fun bs_step :: "('r, 'm) rte_ring_api \<Rightarrow> ('m \<Rightarrow> u32) \<Rightarrow> 'r bs_ring \<Rightarrow> 'm bs_op \<Rightarrow> 'r bs_ring" where
  "bs_step api l bsr (BEnqBulk xs) = snd (bsring_enqueue_bulk api l bsr xs (word_of_nat (length xs)))"
| "bs_step api l bsr (BEnq x) = snd (bsring_enqueue api l bsr x)"
| "bs_step api l bsr (BDeqBulk n) = snd (snd (bsring_dequeue_bulk api l bsr n))"
| "bs_step api l bsr (BDeqBurst n) = snd (snd (bsring_dequeue_burst api l bsr n))"
| "bs_step api l bsr BDeq = snd (snd (bsring_dequeue api l bsr))"

text \<open>A batch whose total size, added to the capacity, fits into the 32-bit counter.\<close>

fun bs_op_ok :: "('m \<Rightarrow> u32) \<Rightarrow> u32 \<Rightarrow> 'm bs_op \<Rightarrow> bool" where
  "bs_op_ok l cap (BEnqBulk xs) \<longleftrightarrow> unat cap + bytes_of l xs < 4294967296"
| "bs_op_ok l cap (BEnq x) \<longleftrightarrow> unat cap + unat (l x) < 4294967296"
| "bs_op_ok l cap _ \<longleftrightarrow> True"

lemma bytes_of_take_le: "bytes_of l (take n xs) \<le> bytes_of l xs"
proof -
  have "bytes_of l (take n xs @ drop n xs) = bytes_of l (take n xs) + bytes_of l (drop n xs)" by (rule bytes_of_append)
  then show ?thesis by simp
qed

lemma bs_step_inv:
  assumes "bsring_inv api v l bsr" and "bs_op_ok l (bs_capacity bsr) op"
  shows "bsring_inv api v l (bs_step api l bsr op) \<and> bs_capacity (bs_step api l bsr op) = bs_capacity bsr"
proof (cases op)
  case (BEnqBulk xs)
  obtain k bsr' where e: "bsring_enqueue_bulk api l bsr xs (word_of_nat (length xs)) = (k, bsr')" by fastforce
  have "unat (bs_capacity bsr) + bytes_of l (take (unat (word_of_nat (length xs) :: u32)) xs) < 4294967296"
    using assms(2) bytes_of_take_le [of l _ xs] BEnqBulk by (simp add: le_less_trans [rotated])
  with bsring_bulk_spec [OF assms(1) unat_length_le _ e] show ?thesis by (simp add: BEnqBulk e)
next
  case (BEnq x)
  obtain k bsr' where e: "bsring_enqueue api l bsr x = (k, bsr')" by fastforce
  with bsring_one_spec [OF assms(1) _ e] assms(2) show ?thesis by (simp add: BEnq)
next
  case (BDeqBulk n)
  obtain k ys bsr' where e: "bsring_dequeue_bulk api l bsr n = (k, ys, bsr')" by (metis prod_cases3)
  with bsring_dequeue_bulk_spec [OF assms(1) e] show ?thesis by (simp add: BDeqBulk)
next
  case (BDeqBurst n)
  obtain k ys bsr' where e: "bsring_dequeue_burst api l bsr n = (k, ys, bsr')" by (metis prod_cases3)
  with bsring_dequeue_burst_spec [OF assms(1) e] show ?thesis by (simp add: BDeqBurst)
next
  case BDeq
  obtain k ys bsr' where e: "bsring_dequeue api l bsr = (k, ys, bsr')" by (metis prod_cases3)
  with bsring_dequeue_spec [OF assms(1) e] show ?thesis by (simp add: BDeq)
qed

lemma bs_run_inv:
  "bsring_inv api v l bsr \<Longrightarrow> list_all (bs_op_ok l (bs_capacity bsr)) ops \<Longrightarrow>
    bsring_inv api v l (foldl (bs_step api l) bsr ops)
    \<and> bs_capacity (foldl (bs_step api l) bsr ops) = bs_capacity bsr"
proof (induction ops arbitrary: bsr)
  case (Cons x ops)
  then show ?case using bs_step_inv [OF Cons.prems(1), of x] Cons.IH [of "bs_step api l bsr x"] by simp
qed simp

section \<open>Bursts\<close>

text \<open>The packets of a batch that fit, from its start, into \<open>b\<close> bytes.\<close>

fun fit_count :: "('m \<Rightarrow> u32) \<Rightarrow> 'm list \<Rightarrow> nat \<Rightarrow> nat" where
  "fit_count l [] b = 0"
| "fit_count l (p # ps) b = (if unat (l p) \<le> b then Suc (fit_count l ps (b - unat (l p))) else 0)"

definition int_lens :: "('m \<Rightarrow> u32) \<Rightarrow> 'm list \<Rightarrow> bool" where
  "int_lens l ps \<longleftrightarrow> list_all (\<lambda>p. 0 < unat (l p) \<and> unat (l p) < 2147483648) ps"

lemma fit_count_le: "fit_count l ps b \<le> length ps"
  by (induction ps arbitrary: b) simp_all

lemma fit_count_bytes: "bytes_of l (take (fit_count l ps b) ps) \<le> b"
proof (induction ps arbitrary: b)
  case (Cons p ps)
  show ?case using Cons.IH [of "b - unat (l p)"] by (cases "unat (l p) \<le> b") auto
qed simp

lemma fit_count_maximal:
  "fit_count l ps b < length ps \<Longrightarrow> b < bytes_of l (take (Suc (fit_count l ps b)) ps)"
proof (induction ps arbitrary: b)
  case (Cons p ps)
  show ?case
  proof (cases "unat (l p) \<le> b")
    case True
    with Cons.IH [of "b - unat (l p)"] Cons.prems show ?thesis by simp
  qed (use Cons.prems in simp)
qed simp

lemma burst_fit_neg: "sint b < 0 \<Longrightarrow> burst_fit_loop l ps b k = (b, k)"
  by (cases ps) simp_all

lemma burst_fit_spec:
  assumes "unat b < 2147483648" and "int_lens l ps"
    and "burst_fit_loop l ps b k = (b', k')"
  shows "(if sint b' < 0 then k' - 1 else k') = k + word_of_nat (fit_count l ps (unat b))"
  using assms
proof (induction ps arbitrary: b k)
  case Nil
  then show ?case by (simp add: sint_u32_small)
next
  case (Cons p ps)
  have p: "0 < unat (l p)" "unat (l p) < 2147483648" "int_lens l ps" using Cons.prems(2) by (simp_all add: int_lens_def)
  have b: "sint b = int (unat b)" by (rule sint_u32_small [OF Cons.prems(1)])
  show ?case
  proof (cases "unat (l p) \<le> unat b")
    case True
    then have d: "unat (b - l p) = unat b - unat (l p)" by (simp add: unat_sub word_le_nat_alt)
    have "0 < sint b" using b True p(1) by linarith
    then have "burst_fit_loop l ps (b - l p) (k + 1) = (b', k')" using Cons.prems(3) by simp
    from Cons.IH [OF _ p(3) this] d Cons.prems(1) True show ?thesis by simp
  next
    case False
    show ?thesis
    proof (cases "unat b = 0")
      case True
      then show ?thesis using Cons.prems(3) b False by simp
    next
      case nz: False
      then have pos: "0 < sint b" using b by linarith
      have "unat (b - l p) = 4294967296 + unat b - unat (l p)"
        using False unat_sub_if_size [of b "l p"] by (simp add: word_size)
      then have n: "sint (b - l p) < 0" using p(2) by (intro sint_u32_big) simp
      have "(b', k') = (b - l p, k + 1)" using Cons.prems(3) pos burst_fit_neg [OF n, of l ps "k + 1"] by simp
      with n False show ?thesis by simp
    qed
  qed
qed

lemma burst_num_spec:
  assumes "bsring_inv api v l bsr" and "unat (bs_capacity bsr) < 2147483648"
    and "int_lens l obj" and "unat n = length obj"
  shows "unat (burst_num_to_add l bsr obj n)
    = fit_count l obj (unat (bs_capacity bsr) - bytes_of l (bs_conts v bsr))"
proof -
  let ?b = "bs_capacity bsr - bytes_used bsr"
  have b: "unat ?b = unat (bs_capacity bsr) - bytes_of l (bs_conts v bsr)"
    using assms(1) by (simp add: bsring_inv_def unat_sub)
  obtain b' k' where e: "burst_fit_loop l obj ?b 0 = (b', k')" by fastforce
  have "burst_num_to_add l bsr obj n = word_of_nat (fit_count l obj (unat ?b))"
    using burst_fit_spec [OF _ assms(3) e] b assms(2,4) e by (simp add: burst_num_to_add_def split: if_splits)
  moreover have "fit_count l obj (unat ?b) < 4294967296"
    using fit_count_le [of l obj "unat ?b"] unat_bound_u32 [of n] assms(4) by linarith
  ultimately show ?thesis by (simp add: unat_word_of_nat b)
qed


lemma bsring_burst_spec:
  assumes i: "bsring_inv api v l bsr" and cap: "unat (bs_capacity bsr) < 2147483648"
    and lens: "int_lens l obj" and n: "unat n = length obj"
    and f: "f = fit_count l obj (unat (bs_capacity bsr) - bytes_of l (bs_conts v bsr))"
    and slots: "length (bs_conts v bsr) + f \<le> usable v (bs_ring_ring bsr)"
    and rest: "f = length obj \<or>
      unat (bs_capacity bsr) < bytes_of l (bs_conts v bsr) + bytes_of l (take f obj) + 60"
    and e: "bsring_enqueue_burst api l bsr obj n = (k, bsr')"
  shows "bsring_inv api v l bsr' \<and> unat k = f \<and> bs_conts v bsr' = bs_conts v bsr @ take f obj
    \<and> bs_capacity bsr' = bs_capacity bsr"
proof -
  have r: "rte_ring_laws api v" "valid v (bs_ring_ring bsr)"
      and used: "unat (bytes_used bsr) = bytes_of l (bs_conts v bsr)"
      and le: "bytes_of l (bs_conts v bsr) \<le> unat (bs_capacity bsr)"
    using i by (simp_all add: bsring_inv_def word_le_nat_alt)
  let ?m = "burst_num_to_add l bsr obj n"
  have m: "unat ?m = f" using burst_num_spec [OF i cap lens n] f by simp
  have fl: "f \<le> length obj" unfolding f by (rule fit_count_le)
  obtain k0 r' where q: "rte_ring_sp_enqueue_burst api (bs_ring_ring bsr) obj ?m = (k0, r')" by fastforce
  note b = ring_enqueue_burst [OF r _ q, unfolded m, OF fl]
  have k0: "unat k0 = f" using b(2) slots by (simp add: bs_conts_def)
  have bytes: "bytes_of l (bs_conts v bsr) + bytes_of l (take f obj) \<le> unat (bs_capacity bsr)"
    using fit_count_bytes [of l obj "unat (bs_capacity bsr) - bytes_of l (bs_conts v bsr)"] le f by simp
  let ?t = "total_size l obj f"
  have t: "unat ?t = bytes_of l (take f obj)"
    using total_size_bytes [OF fl] bytes cap by (simp add: unat_word_of_nat)
  have used': "unat (bytes_used bsr + ?t) = bytes_of l (bs_conts v bsr) + bytes_of l (take f obj)"
    using used t bytes cap by (simp add: unat_add_u32)
  have "burst_rest_loop api l r' (drop f (take (unat n) obj)) (bs_capacity bsr - bytes_used bsr - ?t) k0 ?t
      = (r', k0, ?t)"
  proof (cases "f = length obj")
    case False
    have "bs_capacity bsr - bytes_used bsr - ?t = bs_capacity bsr - (bytes_used bsr + ?t)" by simp
    then have "unat (bs_capacity bsr - bytes_used bsr - ?t)
        = unat (bs_capacity bsr) - (bytes_of l (bs_conts v bsr) + bytes_of l (take f obj))"
      using unat_sub [of "bytes_used bsr + ?t" "bs_capacity bsr"] used' bytes by (simp only: word_le_nat_alt)
    moreover from this have "sint (bs_capacity bsr - bytes_used bsr - ?t) < 60"
      using sint_u32_small [of "bs_capacity bsr - bytes_used bsr - ?t"] rest False cap bytes by linarith
    ultimately show ?thesis by (cases "drop f (take (unat n) obj)") simp_all
  qed (simp add: n)
  then have "(k, bsr') = (k0, bsr\<lparr>bs_ring_ring := r', bytes_used := bytes_used bsr + ?t\<rparr>)"
    using e by (simp add: bsring_enqueue_burst_def q m k0 Let_def cong: if_cong)
  with b k0 r used' bytes show ?thesis
    by (simp add: bsring_inv_def bs_conts_def word_le_nat_alt)
qed


text \<open>
  The inverted test of line 91. A batch starts with a packet that does not fit, followed by one that
  does: nothing is reported as enqueued and nothing is accounted for, but the second packet is queued.
\<close>

lemma bsring_burst_inverted:
  assumes i: "bsring_inv api v l bsr" and cap: "unat (bs_capacity bsr) < 2147483648"
    and lens: "int_lens l [p, q]"
    and big: "unat (bs_capacity bsr) < bytes_of l (bs_conts v bsr) + unat (l p)"
    and fits: "bytes_of l (bs_conts v bsr) + unat (l q) \<le> unat (bs_capacity bsr)"
    and room: "bytes_of l (bs_conts v bsr) + 60 \<le> unat (bs_capacity bsr)"
    and slot: "length (bs_conts v bsr) < usable v (bs_ring_ring bsr)"
  shows "\<exists>r'. bsring_enqueue_burst api l bsr [p, q] 2 = (0, bsr\<lparr>bs_ring_ring := r'\<rparr>)
    \<and> valid v r' \<and> conts v r' = bs_conts v bsr @ [q]"
proof -
  have r: "rte_ring_laws api v" "valid v (bs_ring_ring bsr)"
      and used: "unat (bytes_used bsr) = bytes_of l (bs_conts v bsr)"
    using i by (simp_all add: bsring_inv_def)
  let ?m = "burst_num_to_add l bsr [p, q] 2"
  have "\<not> unat (l p) \<le> unat (bs_capacity bsr) - bytes_of l (bs_conts v bsr)"
    using big room by linarith
  then have "unat ?m = 0" using burst_num_spec [OF i cap lens, of 2] by simp
  then have m: "?m = 0" by (simp add: unat_eq_zero)
  obtain k0 r0 where q0: "rte_ring_sp_enqueue_burst api (bs_ring_ring bsr) [p, q] 0 = (k0, r0)" by fastforce
  note b = ring_enqueue_burst [OF r _ q0]
  have r0: "k0 = 0" "valid v r0" "conts v r0 = bs_conts v bsr" "usable v r0 = usable v (bs_ring_ring bsr)"
    using b by (simp_all add: bs_conts_def unat_eq_zero)
  obtain rc r' where q1: "rte_ring_sp_enqueue api r0 q = (rc, r')" by fastforce
  note o = ring_enqueue_one [OF r(1) r0(2) q1]
  let ?b = "bs_capacity bsr - bytes_used bsr"
  have ub: "unat ?b = unat (bs_capacity bsr) - bytes_of l (bs_conts v bsr)"
    using i by (simp add: bsring_inv_def unat_sub)
  then have sb: "sint ?b = int (unat (bs_capacity bsr)) - int (bytes_of l (bs_conts v bsr))"
    using sint_u32_small [of ?b] cap room by linarith
  have sp: "sint (l p) = int (unat (l p))" "sint (l q) = int (unat (l q))"
    using lens by (simp_all add: int_lens_def sint_u32_small)
  have c: "60 \<le> sint ?b" "\<not> sint (l p) \<le> sint ?b" "sint (l q) \<le> sint ?b"
    using sb sp room big fits by linarith+
  have "burst_rest_loop api l r0 [p, q] ?b 0 0 = (r', 0, 0)"
    using c q1 o(3) slot r0 by simp
  then have "bsring_enqueue_burst api l bsr [p, q] 2 = (0, bsr\<lparr>bs_ring_ring := r'\<rparr>)"
    by (simp add: bsring_enqueue_burst_def m q0 r0 Let_def cong: if_cong)
  with o slot r0 show ?thesis by auto
qed

section \<open>FIFO contract\<close>

definition bs_offer_bulk :: "('r, 'm) rte_ring_api \<Rightarrow> ('m \<Rightarrow> u32) \<Rightarrow> 'r bs_ring \<Rightarrow> 'm list \<Rightarrow> nat \<times> 'r bs_ring" where
  "bs_offer_bulk api l bsr obj =
     (let (k, bsr') = bsring_enqueue_bulk api l bsr obj (word_of_nat (length obj)) in (unat k, bsr'))"

definition bs_take_burst :: "('r, 'm) rte_ring_api \<Rightarrow> ('m \<Rightarrow> u32) \<Rightarrow> 'r bs_ring \<Rightarrow> nat \<Rightarrow> 'm list \<times> 'r bs_ring" where
  "bs_take_burst api l bsr n =
     (let (k, objs, bsr') = bsring_dequeue_burst api l bsr (word_of_nat n) in (objs, bsr'))"

interpretation bs_bulk: packet_fifo "\<lambda>s. rte_ring_laws api v \<and> valid v (bs_ring_ring s)" "bs_conts v"
  "bs_offer_bulk api l" "bs_take_burst api l"
  for api :: "('r, 'm) rte_ring_api" and v l
proof unfold_locales
  fix s s' xs k
  assume "rte_ring_laws api v \<and> valid v (bs_ring_ring s)" and "bs_offer_bulk api l s xs = (k, s')"
  then show "(rte_ring_laws api v \<and> valid v (bs_ring_ring s')) \<and> bs_conts v s' = bs_conts v s @ take k xs"
    using ring_enqueue_bulk [OF _ _ unat_length_le, of api v "bs_ring_ring s" xs]
    by (auto simp: bs_offer_bulk_def bsring_enqueue_bulk_def bs_conts_def Let_def split: prod.splits if_splits)
next
  fix s s' n ys
  assume i: "rte_ring_laws api v \<and> valid v (bs_ring_ring s)" and "bs_take_burst api l s n = (ys, s')"
  then obtain k r' where "rte_ring_sc_dequeue_burst api (bs_ring_ring s) (word_of_nat n) = (k, ys, r')"
      "s' = bs_credit l ys (unat k) r' s"
    by (auto simp: bs_take_burst_def bsring_dequeue_burst_def Let_def split: prod.splits)
  then show "(rte_ring_laws api v \<and> valid v (bs_ring_ring s')) \<and> bs_conts v s = ys @ bs_conts v s'"
    using i ring_deq_burst [of api v "bs_ring_ring s"] by (simp add: bs_credit_def bs_conts_def)
qed


section \<open>Properties\<close>

text \<open>C6: Creating a byte-sized ring terminates, and from then on every run of bulk enqueues, single
  enqueues and dequeues of any kind keeps \<^verbatim>\<open>bytes_used\<close> equal to the sum of the lengths of the queued
  packets and within the capacity, as long as capacity plus batch size stays below 2^32.\<close>
theorem bsring_bytes_accounted:
  assumes "rte_ring_laws api v" and "list_all (bs_op_ok pkt_len c) ops"
  shows "\<exists>res. create_bsring api cnt c socket = Some (res, cnt + 1)
    \<and> (\<forall>bsr. res = Some bsr \<longrightarrow> bsring_bytesused bsr = 0 \<and> bsring_capacity bsr = c
        \<and> (let bsr' = foldl (bs_step api pkt_len) bsr ops in
           unat (bsring_bytesused bsr') = bytes_of pkt_len (bs_conts v bsr')
           \<and> bsring_bytesused bsr' \<le> c))"
proof -
  obtain k res where c: "create_bsring api cnt c socket = Some (res, cnt + 1)"
      "\<And>bsr. res = Some bsr \<Longrightarrow> bsring_inv api v pkt_len bsr \<and> bs_conts v bsr = [] \<and> bs_capacity bsr = c"
    using create_bsring_spec [OF assms(1), of cnt c socket pkt_len] by blast
  have "bsring_bytesused bsr = 0 \<and> bsring_capacity bsr = c
        \<and> (let bsr' = foldl (bs_step api pkt_len) bsr ops in
           unat (bsring_bytesused bsr') = bytes_of pkt_len (bs_conts v bsr') \<and> bsring_bytesused bsr' \<le> c)"
    if "res = Some bsr" for bsr
  proof -
    note p = c(2) [OF that]
    have "bsring_inv api v pkt_len (foldl (bs_step api pkt_len) bsr ops)
        \<and> bs_capacity (foldl (bs_step api pkt_len) bsr ops) = c"
      using bs_run_inv [of api v pkt_len bsr ops] p assms(2) by simp
    with p show ?thesis
      by (auto simp: bsring_inv_def bsring_bytesused_def bsring_capacity_def unat_eq_zero)
  qed
  with c(1) show ?thesis by blast
qed

theorem bsring_bytes_accounted_witness:
  "\<exists>res. create_bsring list_ring 0 1000 0 = Some (res, 0 + 1)
    \<and> (\<forall>bsr. res = Some bsr \<longrightarrow> bsring_bytesused bsr = 0 \<and> bsring_capacity bsr = 1000
        \<and> (let bsr' = foldl (bs_step list_ring id) bsr [BEnqBulk [100, 200], BEnq 64, BDeq] in
           unat (bsring_bytesused bsr') = bytes_of id (bs_conts list_view bsr')
           \<and> bsring_bytesused bsr' \<le> 1000))"
  by (rule bsring_bytes_accounted [OF list_ring_laws]) (simp add: bytes_of_def)

text \<open>C7: A burst enqueue on a ring of less than 2^31 bytes accepts exactly the longest prefix of the batch
  whose bytes fit, accounts for it and returns its length, provided the ring has the slots and less than
  60 bytes remain after that prefix (or the whole batch fits).\<close>
theorem bsring_burst_prefix:
  assumes "bsring_inv api v pkt_len bsr" and "unat (bsring_capacity bsr) < 2147483648"
    and "int_lens pkt_len obj" and "unat n = length obj"
    and "f = fit_count pkt_len obj (unat (bsring_capacity bsr) - bytes_of pkt_len (bs_conts v bsr))"
    and "length (bs_conts v bsr) + f \<le> usable v (bs_ring_ring bsr)"
    and "f = length obj \<or>
      unat (bsring_capacity bsr) < bytes_of pkt_len (bs_conts v bsr) + bytes_of pkt_len (take f obj) + 60"
  shows "\<exists>bsr'. bsring_enqueue_burst api pkt_len bsr obj n = (word_of_nat f, bsr')
    \<and> bsring_inv api v pkt_len bsr' \<and> bs_conts v bsr' = bs_conts v bsr @ take f obj
    \<and> (f < length obj \<longrightarrow>
        unat (bsring_capacity bsr) < bytes_of pkt_len (bs_conts v bsr @ take (Suc f) obj))"
proof -
  obtain k bsr' where e: "bsring_enqueue_burst api pkt_len bsr obj n = (k, bsr')" by fastforce
  note s = bsring_burst_spec [OF assms(1) assms(2) [unfolded bsring_capacity_def] assms(3,4)
      assms(5) [unfolded bsring_capacity_def] assms(6) assms(7) [unfolded bsring_capacity_def] e]
  then have "k = word_of_nat f" by (simp flip: s [THEN conjunct2, THEN conjunct1])
  moreover have "unat (bs_capacity bsr) < bytes_of pkt_len (bs_conts v bsr @ take (Suc f) obj)" if "f < length obj"
    using fit_count_maximal [of pkt_len obj "unat (bs_capacity bsr) - bytes_of pkt_len (bs_conts v bsr)"]
      assms(5) that by (simp add: bsring_capacity_def less_diff_conv2)
  ultimately show ?thesis using s e by (simp add: bsring_capacity_def)
qed

theorem bsring_burst_prefix_witness:
  "\<exists>bsr'. bsring_enqueue_burst list_ring id \<lparr> bs_ring_ring = ([], 15), bs_capacity = 1000, bytes_used = 0 \<rparr>
        [600, 390, 64] 3 = (word_of_nat 2, bsr')
    \<and> bsring_inv list_ring list_view id bsr'
    \<and> bs_conts list_view bsr' = bs_conts list_view
        \<lparr> bs_ring_ring = ([] :: u32 list, 15 :: nat), bs_capacity = 1000, bytes_used = 0 \<rparr> @ take 2 [600, 390, 64]
    \<and> (2 < length [600, 390, 64 :: u32] \<longrightarrow>
        unat (bsring_capacity \<lparr> bs_ring_ring = ([] :: u32 list, 15 :: nat), bs_capacity = 1000, bytes_used = 0 \<rparr>)
          < bytes_of id (bs_conts list_view
              \<lparr> bs_ring_ring = ([] :: u32 list, 15 :: nat), bs_capacity = 1000, bytes_used = 0 \<rparr>
              @ take (Suc 2) [600, 390, 64]))"
proof -
  let ?b = "\<lparr> bs_ring_ring = ([] :: u32 list, 15 :: nat), bs_capacity = 1000, bytes_used = 0 \<rparr>"
  have "bsring_inv list_ring list_view id ?b"
    by (simp add: bsring_inv_def list_ring_laws) (simp add: list_view_def bs_conts_def)
  then show ?thesis
    by (rule bsring_burst_prefix)
       (simp_all add: bsring_capacity_def int_lens_def list_view_def bs_conts_def)
qed

text \<open>C8: The burst enqueue loses track of packets. When the first packet of a batch does not fit but the
  second does, the call reports that nothing was enqueued and leaves \<^verbatim>\<open>bytes_used\<close> unchanged although the
  second packet is in the ring; once the consumer has drained the ring, the counter has wrapped below
  zero and the empty ring refuses every packet shorter than the unaccounted one.\<close>
theorem bsring_burst_unaccounted:
  assumes "bsring_inv api v pkt_len bsr" and "bs_conts v bsr = []"
    and "unat (bsring_capacity bsr) < 2147483648" and "int_lens pkt_len [p, q]"
    and "unat (bsring_capacity bsr) < unat (pkt_len p)"
    and "unat (pkt_len q) \<le> unat (bsring_capacity bsr)" and "60 \<le> unat (bsring_capacity bsr)"
    and "0 < usable v (bs_ring_ring bsr)"
  shows "\<exists>bsr1 bsr2. bsring_enqueue_burst api pkt_len bsr [p, q] 2 = (0, bsr1)
    \<and> bs_conts v bsr1 = [q] \<and> bsring_bytesused bsr1 = 0
    \<and> bsring_dequeue api pkt_len bsr1 = (1, [q], bsr2)
    \<and> bs_conts v bsr2 = [] \<and> bsring_bytesused bsr2 = - pkt_len q
    \<and> (\<forall>x. pkt_len x < pkt_len q \<longrightarrow> bsring_enqueue api pkt_len bsr2 x = (0, bsr2))"
proof -
  have b0: "bytes_used bsr = 0" using assms(1,2) by (simp add: bsring_inv_def unat_eq_zero)
  have laws: "rte_ring_laws api v" using assms(1) by (simp add: bsring_inv_def)
  obtain r1 where r1: "bsring_enqueue_burst api pkt_len bsr [p, q] 2 = (0, bsr\<lparr>bs_ring_ring := r1\<rparr>)"
      "valid v r1" "conts v r1 = [q]"
    using bsring_burst_inverted [OF assms(1) _ assms(4)] assms(2-8) by (auto simp: bsring_capacity_def)
  obtain rc ys r2 where d: "rte_ring_sc_dequeue api r1 = (rc, ys, r2)" by (metis prod_cases3)
  note o = ring_dequeue_one [OF laws r1(2) d]
  have o': "rc = 0" "ys = [q]" "conts v r2 = []" using o(3) r1(3) by simp_all
  let ?b2 = "bsr\<lparr>bs_ring_ring := r2, bytes_used := - pkt_len q\<rparr>"
  have ref: "bsring_enqueue api pkt_len ?b2 x = (0, ?b2)" if "pkt_len x < pkt_len q" for x
  proof -
    have q: "unat (pkt_len x) < unat (pkt_len q)" "unat (pkt_len q) < 2147483648"
      using that assms(4) by (simp_all add: word_less_nat_alt int_lens_def)
    have "unat (pkt_len x - pkt_len q) = 4294967296 + unat (pkt_len x) - unat (pkt_len q)"
      using q unat_sub_if_size [of "pkt_len x" "pkt_len q"] by (simp add: word_size)
    then have "\<not> - pkt_len q + pkt_len x < bs_capacity bsr"
      using q assms(3) by (simp add: word_less_nat_alt bsring_capacity_def)
    then show ?thesis by (simp add: bsring_enqueue_def)
  qed
  have "bsring_dequeue api pkt_len (bsr\<lparr>bs_ring_ring := r1\<rparr>) = (1, [q], ?b2)"
    using d o' b0 by (simp add: bsring_dequeue_def bs_credit_def)
  with r1 o' b0 ref show ?thesis by (auto simp: bs_conts_def bsring_bytesused_def)
qed

theorem bsring_burst_unaccounted_witness:
  "\<exists>bsr1 bsr2. bsring_enqueue_burst list_ring id
        \<lparr> bs_ring_ring = ([], 15), bs_capacity = 1000, bytes_used = 0 \<rparr> [1514, 300] 2 = (0, bsr1)
    \<and> bs_conts list_view bsr1 = [300] \<and> bsring_bytesused bsr1 = 0
    \<and> bsring_dequeue list_ring id bsr1 = (1, [300], bsr2)
    \<and> bs_conts list_view bsr2 = [] \<and> bsring_bytesused bsr2 = - id 300
    \<and> (\<forall>x. id x < id 300 \<longrightarrow> bsring_enqueue list_ring id bsr2 x = (0, bsr2))"
proof -
  let ?b = "\<lparr> bs_ring_ring = ([] :: u32 list, 15 :: nat), bs_capacity = 1000, bytes_used = 0 \<rparr>"
  have "bsring_inv list_ring list_view id ?b"
    by (simp add: bsring_inv_def list_ring_laws) (simp add: list_view_def bs_conts_def)
  then show ?thesis
    by (rule bsring_burst_unaccounted)
       (simp_all add: bsring_capacity_def int_lens_def list_view_def bs_conts_def)
qed

text \<open>For capacities from 2^31 on, the signed \<^verbatim>\<open>bytes_remaining\<close> of a burst on an empty ring is negative
  and the number of packets to add underflows to 2^32 - 1, whatever the batch.\<close>
theorem bsring_burst_num_underflow:
  assumes "2147483648 \<le> unat (bsring_capacity bsr)" and "bsring_bytesused bsr = 0"
  shows "unat (burst_num_to_add pkt_len bsr obj n) = 4294967295"
proof -
  have "sint (bs_capacity bsr) < 0" using assms(1) by (intro sint_u32_big) (simp add: bsring_capacity_def)
  then have "burst_num_to_add pkt_len bsr obj n = - 1"
    using assms(2) burst_fit_neg [of "bs_capacity bsr" pkt_len "take (unat n) obj" 0] by (simp add: burst_num_to_add_def bsring_bytesused_def)
  moreover have "(- 1 :: u32) = 4294967295" by simp
  ultimately show ?thesis by (simp only: unat_numeral) simp
qed

theorem bsring_burst_num_underflow_witness:
  "unat (burst_num_to_add id \<lparr> bs_ring_ring = (), bs_capacity = 3000000000, bytes_used = 0 \<rparr> [64] 1) = 4294967295"
  by (rule bsring_burst_num_underflow) (simp_all add: bsring_capacity_def bsring_bytesused_def)

text \<open>Packets leave a byte-sized ring in the order its bulk enqueues accepted them; none is lost or
  duplicated by any interleaving of bulk enqueues and burst dequeues.\<close>
theorem bsring_fifo:
  assumes "rte_ring_laws api v" and "valid v (bs_ring_ring bsr)" and "bs_conts v bsr = []"
    and "qrun (bs_offer_bulk api pkt_len) (bs_take_burst api pkt_len) bsr ops = (accepted, delivered, bsr')"
  shows "accepted = delivered @ bs_conts v bsr'"
  by (rule bs_bulk.run_from_empty [OF _ assms(3,4)]) (simp add: assms)

theorem bsring_fifo_witness:
  "[100, 200] = [100] @ bs_conts list_view \<lparr> bs_ring_ring = ([200], 15), bs_capacity = 1000, bytes_used = 200 \<rparr>"
proof -
  have t2: "total_size id [100, 200 :: u32] 2 = 300" by (simp add: numeral_2_eq_2)
  have "qrun (bs_offer_bulk list_ring id) (bs_take_burst list_ring id)
      \<lparr> bs_ring_ring = ([] :: u32 list, 15), bs_capacity = 1000, bytes_used = 0 \<rparr> [Offer [100, 200], Take 1]
    = ([100, 200], [100], \<lparr> bs_ring_ring = ([200], 15), bs_capacity = 1000, bytes_used = 200 \<rparr>)"
    by (simp add: bs_offer_bulk_def bsring_enqueue_bulk_def bs_take_burst_def bsring_dequeue_burst_def
        bs_credit_def list_ring_def t2)
  from bsring_fifo [OF list_ring_laws _ _ this] show ?thesis
    by (simp add: list_view_def bs_conts_def)
qed

end
