(* ===== verification/Memory.thy ===== *)
theory Memory
  imports RteRing
begin

text \<open>
  \<^verbatim>\<open>src/src/memory.c\<close>: packet buffer pools and the bulk allocation with its unrolled initialisation loop
  (a switch that jumps into the body of a while loop). DPDK's mempool and mbuf functions are the
  parameter \<open>mempool_api\<close>; libmoon's own stores to the mbuf fields are record updates on a store that
  maps buffer addresses to mbufs.
\<close>

section \<open>Outcomes of a loop over an array\<close>

text \<open>\<open>Fault\<close> is an access outside the array, \<open>Timeout\<close> a loop that has not ended within its fuel.\<close>

datatype 'a outcome = Ret 'a | Fault | Timeout

fun obind :: "'a outcome \<Rightarrow> ('a \<Rightarrow> 'b outcome) \<Rightarrow> 'b outcome" where
  "obind (Ret x) f = f x"
| "obind Fault f = Fault"
| "obind Timeout f = Timeout"

section \<open>Model\<close>

text \<open>
  The fields of \<^verbatim>\<open>struct rte_mbuf\<close> the library writes; \<open>mbuf_rest\<close> stands for all others.
\<close>

record 'x mbuf =
  mbuf_pkt_len :: u32
  mbuf_data_len :: u16
  mbuf_rest :: 'x

type_synonym 'x mbuf_store = "nat \<Rightarrow> 'x mbuf"

text \<open>
  \<open>rte_mempool_get_bulk\<close> returns the addresses it took from the pool, or \<open>None\<close> when the pool has too
  few buffers, in which case the caller's array is not written.
\<close>

record ('p, 'x) mempool_api =
  rte_pktmbuf_pool_create :: "string \<Rightarrow> u32 \<Rightarrow> u32 \<Rightarrow> u16 \<Rightarrow> u16 \<Rightarrow> u32 \<Rightarrow> 'p option"
  rte_mempool_get_bulk :: "'p \<Rightarrow> nat \<Rightarrow> nat list option \<times> 'p"
  rte_pktmbuf_alloc :: "'p \<Rightarrow> nat option \<times> 'p"
  rte_mbuf_refcnt_set :: "'x mbuf \<Rightarrow> u16 \<Rightarrow> 'x mbuf"
  rte_mbuf_refcnt_read :: "'x mbuf \<Rightarrow> u16"
  rte_mbuf_refcnt_update :: "'x mbuf \<Rightarrow> u16 \<Rightarrow> u16 \<times> 'x mbuf"
  rte_pktmbuf_reset :: "'x mbuf \<Rightarrow> 'x mbuf"
  rte_pktmbuf_adj :: "'x mbuf \<Rightarrow> u16 \<Rightarrow> nat option \<times> 'x mbuf"
  rte_pktmbuf_trim :: "'x mbuf \<Rightarrow> u16 \<Rightarrow> int \<times> 'x mbuf"

definition MEMPOOL_CACHE_SIZE :: u32 where
  "MEMPOOL_CACHE_SIZE = 256"

text \<open>
  \<open>headroom\<close> is DPDK's build-time constant \<^verbatim>\<open>RTE_PKTMBUF_HEADROOM\<close>. The data room is a 16-bit
  parameter of \<^verbatim>\<open>rte_pktmbuf_pool_create\<close>, so the 32-bit sum is truncated.
\<close>

definition init_mem :: "('p, 'x) mempool_api \<Rightarrow> u32 \<Rightarrow> u32 \<Rightarrow> u32 \<Rightarrow> u32 \<Rightarrow> u32 \<Rightarrow> 'p option \<times> u32" where
  "init_mem api headroom mbuf_cnt nb_mbuf socket mbuf_size =
     (rte_pktmbuf_pool_create api (ring_name ''mbuf_pool'' mbuf_cnt) nb_mbuf MEMPOOL_CACHE_SIZE 0
        (ucast (mbuf_size + headroom)) socket,
      mbuf_cnt + 1)"

definition rte_pktmbuf_alloc_export :: "('p, 'x) mempool_api \<Rightarrow> 'p \<Rightarrow> nat option \<times> 'p" where
  "rte_pktmbuf_alloc_export api mp = rte_pktmbuf_alloc api mp"

definition init_mbuf :: "('p, 'x) mempool_api \<Rightarrow> u16 \<Rightarrow> 'x mbuf \<Rightarrow> 'x mbuf" where
  "init_mbuf api len m =
     (rte_pktmbuf_reset api (rte_mbuf_refcnt_set api m 1))\<lparr>mbuf_pkt_len := ucast len, mbuf_data_len := len\<rparr>"

text \<open>One copy of the unrolled statements: initialise \<^verbatim>\<open>bufs[i]\<close> and increment \<open>i\<close>.\<close>

definition duff_stmt :: "('p, 'x) mempool_api \<Rightarrow> u16 \<Rightarrow> nat list \<Rightarrow> 'x mbuf_store \<times> u32
    \<Rightarrow> ('x mbuf_store \<times> u32) outcome" where
  "duff_stmt api len bufs st =
     (case st of (h, i) \<Rightarrow>
       if unat i < length bufs
       then let p = bufs ! unat i in Ret (h(p := init_mbuf api len (h p)), i + 1)
       else Fault)"

text \<open>Falling through from one label to the end of the body: \<open>k\<close> copies.\<close>

fun duff_body :: "('p, 'x) mempool_api \<Rightarrow> u16 \<Rightarrow> nat list \<Rightarrow> nat \<Rightarrow> 'x mbuf_store \<times> u32
    \<Rightarrow> ('x mbuf_store \<times> u32) outcome" where
  "duff_body api len bufs 0 st = Ret st"
| "duff_body api len bufs (Suc k) st = obind (duff_stmt api len bufs st) (duff_body api len bufs k)"

text \<open>The jump into the body at label \<open>k\<close>, then the loop \<^verbatim>\<open>while (i != len)\<close>, which re-enters at \<^verbatim>\<open>case 0\<close>.\<close>

fun duff_loop :: "nat \<Rightarrow> ('p, 'x) mempool_api \<Rightarrow> u16 \<Rightarrow> nat list \<Rightarrow> u32 \<Rightarrow> nat \<Rightarrow> 'x mbuf_store \<times> u32
    \<Rightarrow> ('x mbuf_store \<times> u32) outcome" where
  "duff_loop 0 api pl bufs len k st = Timeout"
| "duff_loop (Suc fuel) api pl bufs len k st =
     obind (duff_body api pl bufs k st)
       (\<lambda>(h, i). if i \<noteq> len then duff_loop fuel api pl bufs len 4 (h, i) else Ret (h, i))"

definition duff_label :: "u32 \<Rightarrow> nat" where
  "duff_label len = (if len mod 4 = 0 then 4 else unat (len mod 4))"

text \<open>
  The result of \<^verbatim>\<open>rte_mempool_get_bulk\<close> is not checked: on failure the loop runs over whatever the
  caller's array \<open>bufs\<close> held.
\<close>

definition alloc_mbufs :: "nat \<Rightarrow> ('p, 'x) mempool_api \<Rightarrow> 'p \<Rightarrow> 'x mbuf_store \<Rightarrow> nat list \<Rightarrow> u32 \<Rightarrow> u16
    \<Rightarrow> ('x mbuf_store \<times> nat list \<times> 'p) outcome" where
  "alloc_mbufs fuel api mp h bufs len pkt_len =
     (let (got, mp') = rte_mempool_get_bulk api mp (unat len);
          bufs' = (case got of Some ps \<Rightarrow> ps @ drop (unat len) bufs | None \<Rightarrow> bufs)
      in obind (duff_loop fuel api pkt_len bufs' len (duff_label len) (h, 0))
           (\<lambda>(h', i). Ret (h', bufs', mp')))"

definition rte_mbuf_refcnt_read_export :: "('p, 'x) mempool_api \<Rightarrow> 'x mbuf \<Rightarrow> u16" where
  "rte_mbuf_refcnt_read_export api m = rte_mbuf_refcnt_read api m"

definition rte_mbuf_refcnt_update_export :: "('p, 'x) mempool_api \<Rightarrow> 'x mbuf \<Rightarrow> u16 \<Rightarrow> u16 \<times> 'x mbuf" where
  "rte_mbuf_refcnt_update_export api m val = rte_mbuf_refcnt_update api m val"

definition rte_pktmbuf_adj_export :: "('p, 'x) mempool_api \<Rightarrow> 'x mbuf \<Rightarrow> u16 \<Rightarrow> nat option \<times> 'x mbuf" where
  "rte_pktmbuf_adj_export api m len = rte_pktmbuf_adj api m len"

definition rte_pktmbuf_trim_export :: "('p, 'x) mempool_api \<Rightarrow> 'x mbuf \<Rightarrow> u16 \<Rightarrow> int \<times> 'x mbuf" where
  "rte_pktmbuf_trim_export api m len = rte_pktmbuf_trim api m len"

section \<open>The unrolled loop is a loop\<close>

text \<open>The reference: initialise the first \<open>n\<close> buffers one after the other.\<close>

definition init_all :: "('p, 'x) mempool_api \<Rightarrow> u16 \<Rightarrow> nat list \<Rightarrow> 'x mbuf_store \<Rightarrow> 'x mbuf_store" where
  "init_all api pl ps h = foldl (\<lambda>h p. h(p := init_mbuf api pl (h p))) h ps"

lemma init_all_snoc: "init_all api pl (ps @ [p]) h
    = (init_all api pl ps h)(p := init_mbuf api pl (init_all api pl ps h p))"
  by (simp add: init_all_def)

lemma init_all_other: "p \<notin> set ps \<Longrightarrow> init_all api pl ps h p = h p"
  by (induction ps rule: rev_induct) (simp_all add: init_all_snoc, simp add: init_all_def)

lemma init_all_distinct: "distinct ps \<Longrightarrow> p \<in> set ps \<Longrightarrow> init_all api pl ps h p = init_mbuf api pl (h p)"
  by (induction ps rule: rev_induct) (auto simp: init_all_snoc init_all_other)

lemma duff_body_ok:
  assumes "unat i + k \<le> length bufs" and "unat i + k < 4294967296"
  shows "duff_body api pl bufs k (init_all api pl (take (unat i) bufs) h, i)
    = Ret (init_all api pl (take (unat i + k) bufs) h, i + word_of_nat k)"
  using assms
proof (induction k arbitrary: i)
  case (Suc k)
  have i1: "unat (i + 1) = Suc (unat i)" using Suc.prems by (simp add: unat_add_u32)
  have t: "take (Suc (unat i)) bufs = take (unat i) bufs @ [bufs ! unat i]"
    using Suc.prems by (simp add: take_Suc_conv_app_nth)
  from Suc.IH [of "i + 1"] Suc.prems i1
  have "duff_body api pl bufs k (init_all api pl (take (Suc (unat i)) bufs) h, i + 1)
    = Ret (init_all api pl (take (unat i + Suc k) bufs) h, i + 1 + word_of_nat k)" by simp
  with Suc.prems show ?case by (simp add: duff_stmt_def t init_all_snoc Let_def ac_simps)
qed simp

lemma duff_loop_ok:
  assumes "unat i + k + 4 * m = unat len" and "unat len \<le> length bufs" and "m < fuel"
  shows "duff_loop fuel api pl bufs len k (init_all api pl (take (unat i) bufs) h, i)
    = Ret (init_all api pl (take (unat len) bufs) h, len)"
  using assms
proof (induction m arbitrary: i k fuel)
  case 0
  then obtain f where f: "fuel = Suc f" by (cases fuel) auto
  have k: "i + word_of_nat k = len"
    using 0 unat_bound_u32 [of len] by (intro word_unat_eq_iff [THEN iffD2]) (simp add: unat_add_u32 unat_word_of_nat)
  have "duff_body api pl bufs k (init_all api pl (take (unat i) bufs) h, i)
      = Ret (init_all api pl (take (unat len) bufs) h, len)"
    using 0 unat_bound_u32 [of len] duff_body_ok [of i k bufs api pl h] k by simp
  then show ?case by (simp add: f)
next
  case (Suc m)
  then obtain f where f: "fuel = Suc f" "m < f" by (cases fuel) auto
  let ?i = "i + word_of_nat k"
  have i: "unat ?i = unat i + k"
    using Suc.prems(1) unat_bound_u32 [of len] by (simp add: unat_add_u32 unat_word_of_nat)
  have "duff_body api pl bufs k (init_all api pl (take (unat i) bufs) h, i)
      = Ret (init_all api pl (take (unat ?i) bufs) h, ?i)"
    using Suc.prems unat_bound_u32 [of len] duff_body_ok [of i k bufs api pl h] i by simp
  moreover have "?i \<noteq> len" using i Suc.prems(1) by auto
  moreover have "duff_loop f api pl bufs len 4 (init_all api pl (take (unat ?i) bufs) h, ?i)
      = Ret (init_all api pl (take (unat len) bufs) h, len)"
    using Suc.prems i f by (intro Suc.IH) simp_all
  ultimately show ?case by (simp add: f)
qed

text \<open>With \<open>len = 0\<close> the jump goes to \<^verbatim>\<open>case 0\<close> without testing the condition.\<close>

lemma duff_body_fault:
  assumes "length bufs < unat i + k" and "unat i \<le> length bufs" and "length bufs < 4294967296"
  shows "duff_body api pl bufs k (h, i) = Fault"
  using assms
proof (induction k arbitrary: i h)
  case (Suc k)
  show ?case
  proof (cases "unat i < length bufs")
    case True
    then have i1: "unat (i + 1) = Suc (unat i)" using Suc.prems by (simp add: unat_add_u32)
    have "duff_body api pl bufs k (h', i + 1) = Fault" for h'
      using Suc.prems True i1 by (intro Suc.IH) simp_all
    with True show ?thesis by (simp add: duff_stmt_def Let_def)
  next
    case False
    then show ?thesis by (simp add: duff_stmt_def)
  qed
qed simp

lemma duff_loop_zero_fault:
  assumes "unat i \<le> length bufs" and "length bufs < 4294967292" and "length bufs - unat i < fuel"
  shows "duff_loop fuel api pl bufs 0 4 (init_all api pl (take (unat i) bufs) h, i) = Fault"
  using assms
proof (induction fuel arbitrary: i)
  case (Suc fuel)
  show ?case
  proof (cases "length bufs < unat i + 4")
    case True
    have "duff_body api pl bufs 4 (init_all api pl (take (unat i) bufs) h, i) = Fault"
      using True Suc.prems by (intro duff_body_fault) simp_all
    then show ?thesis by simp
  next
    case False
    have i4: "unat (i + 4) = unat i + 4" using False Suc.prems by (simp add: unat_add_u32)
    have b: "duff_body api pl bufs 4 (init_all api pl (take (unat i) bufs) h, i)
        = Ret (init_all api pl (take (unat (i + 4)) bufs) h, i + 4)"
      using duff_body_ok [of i 4 bufs api pl h] False Suc.prems i4 by simp
    have "duff_loop fuel api pl bufs 0 4 (init_all api pl (take (unat (i + 4)) bufs) h, i + 4) = Fault"
      using Suc.prems i4 False by (intro Suc.IH) simp_all
    moreover have "i + 4 \<noteq> 0" using i4 by (metis add_is_0 unat_0 zero_neq_numeral)
    ultimately show ?thesis using b by simp
  qed
qed simp

section \<open>Properties\<close>

text \<open>\<open>4 * m\<close> further buffers follow the first, partial pass.\<close>

lemma duff_label_split: "0 < unat len \<Longrightarrow> \<exists>m. duff_label len + 4 * m = unat len \<and> m < unat len"
proof -
  assume "0 < unat len"
  have m: "unat (len mod 4) = unat len mod 4" by (simp add: unat_mod)
  then have z: "len mod 4 = 0 \<longleftrightarrow> unat len mod 4 = 0" by (simp flip: unat_eq_zero)
  show ?thesis
  proof (cases "unat len mod 4 = 0")
    case True
    with z \<open>0 < unat len\<close> show ?thesis
      by (intro exI [of _ "unat len div 4 - 1"]) (auto simp: duff_label_def)
  next
    case False
    with m z \<open>0 < unat len\<close> show ?thesis
      by (intro exI [of _ "unat len div 4"]) (simp add: duff_label_def)
  qed
qed

lemma alloc_mbufs_loop:
  assumes "0 < unat len" and "unat len \<le> length bufs" and "unat len \<le> fuel"
  shows "duff_loop fuel api pl bufs len (duff_label len) (h, 0) = Ret (init_all api pl (take (unat len) bufs) h, len)"
proof -
  obtain m where "duff_label len + 4 * m = unat len" "m < unat len" using duff_label_split [OF assms(1)] by blast
  with assms duff_loop_ok [of 0 "duff_label len" m len bufs fuel api pl h] show ?thesis by (simp add: init_all_def)
qed

lemma init_mbuf_lens [simp]:
  "mbuf_pkt_len (init_mbuf api pl m) = ucast pl" "mbuf_data_len (init_mbuf api pl m) = pl"
  by (simp_all add: init_mbuf_def)

text \<open>C9: For every positive \<^verbatim>\<open>len\<close>, whatever its remainder modulo 4, the unrolled allocation loop ends and
  initialises exactly the \<^verbatim>\<open>len\<close> buffers taken from the pool, each once, with the requested length in both
  length fields; all other buffers keep their contents.\<close>
theorem alloc_mbufs_initialises:
  assumes "0 < unat len" and "rte_mempool_get_bulk api mp (unat len) = (Some ps, mp')"
    and "length ps = unat len" and "distinct ps" and "unat len \<le> fuel"
  shows "\<exists>h'. alloc_mbufs fuel api mp h bufs len pkt_len = Ret (h', ps @ drop (unat len) bufs, mp')
    \<and> (\<forall>p. h' p = (if p \<in> set ps
          then (rte_pktmbuf_reset api (rte_mbuf_refcnt_set api (h p) 1))
                 \<lparr>mbuf_pkt_len := ucast pkt_len, mbuf_data_len := pkt_len\<rparr>
          else h p))"
proof -
  let ?b = "ps @ drop (unat len) bufs"
  have t: "take (unat len) ?b = ps" using assms(3) by simp
  have "duff_loop fuel api pkt_len ?b len (duff_label len) (h, 0) = Ret (init_all api pkt_len ps h, len)"
    using alloc_mbufs_loop [OF assms(1) _ assms(5), of ?b api pkt_len h] assms(3) t by simp
  moreover have "init_all api pkt_len ps h p = (if p \<in> set ps then init_mbuf api pkt_len (h p) else h p)" for p
    using init_all_distinct [OF assms(4)] init_all_other by metis
  ultimately show ?thesis using assms(2) by (simp add: alloc_mbufs_def init_mbuf_def)
qed

text \<open>A call with \<^verbatim>\<open>len\<close> 0 does not do nothing: the switch jumps past the loop test, so the loop writes
  through the array until it leaves its bounds.\<close>
theorem alloc_mbufs_zero_overruns:
  assumes "rte_mempool_get_bulk api mp 0 = (Some [], mp')" and "length bufs < 4294967292" and "length bufs < fuel"
  shows "alloc_mbufs fuel api mp h bufs 0 pkt_len = Fault"
  using duff_loop_zero_fault [of 0 bufs fuel api pkt_len h] assms
  by (simp add: alloc_mbufs_def duff_label_def init_all_def)

text \<open>The result of \<^verbatim>\<open>rte_mempool_get_bulk\<close> is not checked. When the pool is exhausted the call still
  returns normally, having reset and relabelled the buffers the caller's array happened to point to.\<close>
theorem alloc_mbufs_failure_unchecked:
  assumes "0 < unat len" and "rte_mempool_get_bulk api mp (unat len) = (None, mp')"
    and "unat len \<le> length bufs" and "unat len \<le> fuel"
  shows "\<exists>h'. alloc_mbufs fuel api mp h bufs len pkt_len = Ret (h', bufs, mp')
    \<and> list_all (\<lambda>p. mbuf_pkt_len (h' p) = ucast pkt_len \<and> mbuf_data_len (h' p) = pkt_len) (take (unat len) bufs)"
proof -
  have "duff_loop fuel api pkt_len bufs len (duff_label len) (h, 0)
      = Ret (init_all api pkt_len (take (unat len) bufs) h, len)"
    by (rule alloc_mbufs_loop [OF assms(1,3,4)])
  moreover have "list_all (\<lambda>p. mbuf_pkt_len (init_all api pkt_len ps h p) = ucast pkt_len
      \<and> mbuf_data_len (init_all api pkt_len ps h p) = pkt_len) ps" for ps
    by (induction ps rule: rev_induct) (auto simp: init_all_snoc list_all_iff)
  ultimately show ?thesis using assms(2) by (simp add: alloc_mbufs_def)
qed

text \<open>A pool is created under a name that fits the 32-byte buffer with its terminator, and its data room
  is the requested size plus the headroom as long as that fits 16 bits; for larger sizes the data room
  is smaller than the requested buffer size.\<close>
theorem init_mem_data_room:
  assumes "unat mbuf_size < 4294901760" and "unat headroom < 65536"
  shows "\<exists>name room. init_mem api headroom cnt nb socket mbuf_size
      = (rte_pktmbuf_pool_create api name nb 256 0 room socket, cnt + 1)
    \<and> length name < 32
    \<and> (unat mbuf_size + unat headroom < 65536 \<longrightarrow> unat room = unat mbuf_size + unat headroom)
    \<and> (65536 \<le> unat mbuf_size \<longrightarrow> unat room < unat mbuf_size)"
proof -
  have "length (ring_name ''mbuf_pool'' cnt) < 32" using fmt_d_length [of cnt] by (simp add: ring_name_def)
  moreover have "unat (ucast (mbuf_size + headroom) :: u16) = (unat mbuf_size + unat headroom) mod 65536"
    using assms by (simp add: unat_ucast_mod unat_add_u32)
  ultimately show ?thesis by (force simp: init_mem_def MEMPOOL_CACHE_SIZE_def)
qed

text \<open>The hypotheses hold for a pool that hands out consecutive addresses.\<close>

definition seq_pool :: "(nat \<times> nat, unit) mempool_api" where
  "seq_pool = \<lparr>
     rte_pktmbuf_pool_create = (\<lambda>name n cache priv room socket. Some (0, unat n)),
     rte_mempool_get_bulk = (\<lambda>(a, k) n. if n \<le> k then (Some [a ..< a + n], (a + n, k - n)) else (None, (a, k))),
     rte_pktmbuf_alloc = (\<lambda>(a, k). if 0 < k then (Some a, (a + 1, k - 1)) else (None, (a, k))),
     rte_mbuf_refcnt_set = (\<lambda>m n. m), rte_mbuf_refcnt_read = (\<lambda>m. 1),
     rte_mbuf_refcnt_update = (\<lambda>m v. (v, m)), rte_pktmbuf_reset = (\<lambda>m. m\<lparr>mbuf_pkt_len := 0, mbuf_data_len := 0\<rparr>),
     rte_pktmbuf_adj = (\<lambda>m n. (None, m)), rte_pktmbuf_trim = (\<lambda>m n. (- 1, m)) \<rparr>"

definition blank_store :: "unit mbuf_store" where
  "blank_store = (\<lambda>p. \<lparr> mbuf_pkt_len = 0, mbuf_data_len = 0, mbuf_rest = () \<rparr>)"

theorem alloc_mbufs_initialises_witness:
  "\<exists>h'. alloc_mbufs 5 seq_pool (100, 9) blank_store [0, 0, 0, 0, 0] 5 60
      = Ret (h', [100, 101, 102, 103, 104] @ drop (unat (5 :: u32)) [0, 0, 0, 0, 0], (105, 4))
    \<and> (\<forall>p. h' p = (if p \<in> set [100, 101, 102, 103, 104]
          then (rte_pktmbuf_reset seq_pool (rte_mbuf_refcnt_set seq_pool (blank_store p) 1))
                 \<lparr>mbuf_pkt_len := ucast (60 :: u16), mbuf_data_len := 60\<rparr>
          else blank_store p))"
  by (rule alloc_mbufs_initialises) (simp_all add: seq_pool_def upt_rec)

theorem alloc_mbufs_zero_overruns_witness:
  "alloc_mbufs 4 seq_pool (100, 9) blank_store [7, 8, 9] 0 60 = Fault"
  by (rule alloc_mbufs_zero_overruns [where mp' = "(100, 9)"]) (simp_all add: seq_pool_def)

theorem alloc_mbufs_failure_unchecked_witness:
  "\<exists>h'. alloc_mbufs 2 seq_pool (100, 1) blank_store [7, 8] 2 60 = Ret (h', [7, 8], (100, 1))
    \<and> list_all (\<lambda>p. mbuf_pkt_len (h' p) = ucast (60 :: u16) \<and> mbuf_data_len (h' p) = 60) (take (unat (2 :: u32)) [7, 8])"
  by (rule alloc_mbufs_failure_unchecked) (simp_all add: seq_pool_def)

theorem init_mem_data_room_witness:
  "\<exists>name room. init_mem seq_pool 128 0 2047 0 2048
      = (rte_pktmbuf_pool_create seq_pool name 2047 256 0 room 0, 0 + 1)
    \<and> length name < 32
    \<and> (unat (2048 :: u32) + unat (128 :: u32) < 65536 \<longrightarrow> unat room = unat (2048 :: u32) + unat (128 :: u32))
    \<and> (65536 \<le> unat (2048 :: u32) \<longrightarrow> unat room < unat (2048 :: u32))"
  by (rule init_mem_data_room) simp_all

end
