(* ===== verification/Lifecycle.thy ===== *)
theory Lifecycle
  imports LM_Prelude
begin

text \<open>
  \<^verbatim>\<open>src/src/lifecycle.cpp\<close>: the run-time limit and the signal handler that every task polls through
  \<^verbatim>\<open>is_running\<close>. The time-stamp counter and its frequency come from DPDK and the hardware: \<open>now\<close> is the
  value \<^verbatim>\<open>rte_rdtsc()\<close> returns during the call, \<open>hz\<close> that of \<^verbatim>\<open>rte_get_tsc_hz()\<close>.
\<close>

section \<open>Model\<close>

record lifecycle =
  stop_at :: u64
  signal_at :: u64

definition init_lifecycle :: lifecycle where
  "init_lifecycle = \<lparr> stop_at = - 1, signal_at = - 1 \<rparr>"

text \<open>\<open>None\<close> is \<^verbatim>\<open>std::abort()\<close>.\<close>

definition handler :: "u64 \<Rightarrow> lifecycle \<Rightarrow> lifecycle option" where
  "handler now s = (if signal_at s \<noteq> - 1 then None else Some (s\<lparr>signal_at := now\<rparr>))"

definition is_running :: "u64 \<Rightarrow> u64 \<Rightarrow> lifecycle \<Rightarrow> u32 \<Rightarrow> bool" where
  "is_running hz now s extra_time =
     (let extra_time_cycles = ucast extra_time * hz div 1000;
          time = now - extra_time_cycles
      in time < signal_at s \<and> time < stop_at s)"

definition set_runtime :: "u64 \<Rightarrow> u64 \<Rightarrow> lifecycle \<Rightarrow> u32 \<Rightarrow> lifecycle" where
  "set_runtime hz now s run_time = s\<lparr>stop_at := now + ucast run_time * hz div 1000\<rparr>"

section \<open>Deadlines\<close>

definition ms_cycles :: "u64 \<Rightarrow> u32 \<Rightarrow> nat" where
  "ms_cycles hz ms = unat ms * unat hz div 1000"

lemma unat_ms_cycles:
  assumes "unat ms * unat hz < 18446744073709551616"
  shows "unat (ucast ms * hz div 1000) = ms_cycles hz ms"
proof -
  have "unat (ucast ms :: u64) = unat ms" using unat_bound_u32 [of ms] by (simp add: unat_ucast_mod)
  then have "unat (ucast ms * hz) = unat ms * unat hz" using assms by (simp add: unat_word_ariths)
  then show ?thesis by (simp add: unat_div ms_cycles_def)
qed

lemma is_running_iff:
  assumes "unat extra * unat hz < 18446744073709551616" and "ms_cycles hz extra \<le> unat now"
  shows "is_running hz now s extra
    \<longleftrightarrow> unat now < min (unat (signal_at s)) (unat (stop_at s)) + ms_cycles hz extra"
proof -
  have "unat (now - ucast extra * hz div 1000) = unat now - ms_cycles hz extra"
    using unat_ms_cycles [OF assms(1)] assms(2) by (simp add: unat_sub word_le_nat_alt)
  with assms(2) show ?thesis
    by (auto simp: is_running_def word_less_nat_alt min_def)
qed

lemma ms_cycles_0 [simp]: "ms_cycles hz 0 = 0"
  by (simp add: ms_cycles_def)

text \<open>After \<^verbatim>\<open>set_runtime\<close> the task runs for exactly the requested number of cycles, extended by the
  extra time the caller asks for, unless a signal arrived earlier: then the deadline is the signal's
  arrival plus the extra time.\<close>
theorem is_running_deadline:
  assumes "unat run_time * unat hz < 18446744073709551616" and "unat extra * unat hz < 18446744073709551616"
    and "unat t0 + ms_cycles hz run_time < 18446744073709551616"
    and "ms_cycles hz extra \<le> unat now"
  shows "is_running hz now (set_runtime hz t0 s run_time) extra
    \<longleftrightarrow> unat now < min (unat (signal_at s)) (unat t0 + ms_cycles hz run_time) + ms_cycles hz extra"
proof -
  have "unat (stop_at (set_runtime hz t0 s run_time)) = unat t0 + ms_cycles hz run_time"
    using unat_ms_cycles [OF assms(1)] assms(3) by (simp add: set_runtime_def unat_add_u64)
  then show ?thesis using is_running_iff [OF assms(2,4)] by (simp add: set_runtime_def)
qed

theorem is_running_deadline_witness:
  "is_running 1000000 2500 (set_runtime 1000000 1000 init_lifecycle 2) 0
    \<longleftrightarrow> unat (2500 :: u64) < min (unat (signal_at init_lifecycle)) (unat (1000 :: u64) + ms_cycles 1000000 2)
          + ms_cycles 1000000 0"
  by (rule is_running_deadline) (simp_all add: ms_cycles_def)

text \<open>The first signal stops the program: from its arrival on \<^verbatim>\<open>is_running(0)\<close> is false at every later
  time, whatever run times are set afterwards; a second signal aborts the process.\<close>
theorem signal_stops:
  assumes "signal_at s = - 1" and "t \<noteq> - 1" and "t \<le> now"
  shows "\<exists>s'. handler t s = Some s' \<and> \<not> is_running hz now (fold (\<lambda>(t0, ms) s. set_runtime hz t0 s ms) calls s') 0
    \<and> handler t2 s' = None"
proof -
  have "signal_at (fold (\<lambda>(t0, ms) s. set_runtime hz t0 s ms) calls s') = signal_at s'" for s'
    by (induction calls arbitrary: s') (auto simp: set_runtime_def)
  with assms show ?thesis by (simp add: handler_def is_running_def not_less)
qed

theorem signal_stops_witness:
  "\<exists>s'. handler 5000 init_lifecycle = Some s'
    \<and> \<not> is_running 1000000 6000 (fold (\<lambda>(t0, ms) s. set_runtime 1000000 t0 s ms) [(100, 60000)] s') 0
    \<and> handler 5001 s' = None"
  by (rule signal_stops) (simp_all add: init_lifecycle_def)

text \<open>With a run time set, asking for more extra time than the counter has run wraps the subtraction:
  the program is reported as stopped although its deadline lies ahead.\<close>
theorem is_running_extra_wraps:
  assumes "unat extra * unat hz < 18446744073709551616" and "unat now < ms_cycles hz extra"
    and "unat (stop_at s) + ms_cycles hz extra \<le> 18446744073709551616"
  shows "\<not> is_running hz now s extra"
proof -
  let ?e = "ucast extra * hz div 1000 :: u64"
  have e: "unat ?e = ms_cycles hz extra" by (rule unat_ms_cycles [OF assms(1)])
  have "unat (now - ?e) = 18446744073709551616 + unat now - ms_cycles hz extra"
    using unat_sub_if_size [of now ?e] e assms(2) by (simp add: word_size)
  with assms(2,3) have "\<not> unat (now - ?e) < unat (stop_at s)" by linarith
  then show ?thesis by (simp add: is_running_def word_less_nat_alt)
qed

theorem is_running_extra_wraps_witness:
  "\<not> is_running 1000000000 500 \<lparr> stop_at = 1000000, signal_at = - 1 \<rparr> 1"
  by (rule is_running_extra_wraps) (simp_all add: ms_cycles_def)

end
