(* ===== verification/DeviceIO.thy ===== *)
theory DeviceIO
  imports Lifecycle
begin

text \<open>
  The send and receive loops of \<^verbatim>\<open>src/src/device.c\<close>. The driver's \<^verbatim>\<open>rte_eth_tx_burst\<close> and
  \<^verbatim>\<open>rte_eth_rx_burst\<close> are parameters over an abstract driver state; \<open>tx_laws\<close> states what DPDK documents of
  the former: it takes a prefix of the packets it is offered and returns its length. The measure in it
  expresses that a driver cannot refuse packets forever.
\<close>

section \<open>Sending\<close>

type_synonym ('s, 'm) tx_burst = "'s \<Rightarrow> u16 \<Rightarrow> u16 \<Rightarrow> 'm list \<Rightarrow> u16 \<Rightarrow> u16 \<times> 's"

definition rte_eth_tx_burst_export :: "('s, 'm) tx_burst \<Rightarrow> ('s, 'm) tx_burst" where
  "rte_eth_tx_burst_export tx s port_id queue_id tx_pkts nb_pkts = tx s port_id queue_id tx_pkts nb_pkts"

fun send_all_loop :: "nat \<Rightarrow> ('s, 'm) tx_burst \<Rightarrow> 's \<Rightarrow> u16 \<Rightarrow> u16 \<Rightarrow> 'm list \<Rightarrow> u16 \<Rightarrow> u32 \<Rightarrow> 's option" where
  "send_all_loop 0 tx s port_id queue_id pkts num_pkts sent = None"
| "send_all_loop (Suc fuel) tx s port_id queue_id pkts num_pkts sent =
     (let (k, s') = tx s port_id queue_id (drop (unat sent) pkts) (ucast (ucast num_pkts - sent));
          sent' = sent + ucast k
      in if ucast num_pkts \<le> sent' then Some s'
         else send_all_loop fuel tx s' port_id queue_id pkts num_pkts sent')"

definition dpdk_send_all_packets :: "nat \<Rightarrow> ('s, 'm) tx_burst \<Rightarrow> 's \<Rightarrow> u16 \<Rightarrow> u16 \<Rightarrow> 'm list \<Rightarrow> u16 \<Rightarrow> 's option" where
  "dpdk_send_all_packets fuel tx s port_id queue_id pkts num_pkts =
     send_all_loop fuel tx s port_id queue_id pkts num_pkts 0"

fun dpdk_send_single_packet :: "nat \<Rightarrow> ('s, 'm) tx_burst \<Rightarrow> 's \<Rightarrow> u16 \<Rightarrow> u16 \<Rightarrow> 'm \<Rightarrow> 's option" where
  "dpdk_send_single_packet 0 tx s port_id queue_id pkt = None"
| "dpdk_send_single_packet (Suc fuel) tx s port_id queue_id pkt =
     (let (sent, s') = tx s port_id queue_id [pkt] 1
      in if 0 < sent then Some s' else dpdk_send_single_packet fuel tx s' port_id queue_id pkt)"

definition dpdk_try_send_single_packet :: "('s, 'm) tx_burst \<Rightarrow> 's \<Rightarrow> u16 \<Rightarrow> u16 \<Rightarrow> 'm \<Rightarrow> u16 \<times> 's" where
  "dpdk_try_send_single_packet tx s port_id queue_id pkt = tx s port_id queue_id [pkt] 1"

text \<open>\<open>sent_log\<close> lists the packets the driver has taken; \<open>stall\<close> bounds how often it refuses in a row.\<close>

definition tx_laws :: "('s, 'm) tx_burst \<Rightarrow> ('s \<Rightarrow> 'm list) \<Rightarrow> ('s \<Rightarrow> nat) \<Rightarrow> bool" where
  "tx_laws tx sent_log stall \<longleftrightarrow>
     (\<forall>s p q pkts n k s'. unat n \<le> length pkts \<longrightarrow> tx s p q pkts n = (k, s') \<longrightarrow>
        unat k \<le> unat n \<and> sent_log s' = sent_log s @ take (unat k) pkts
        \<and> (k = 0 \<longrightarrow> 0 < n \<longrightarrow> stall s' < stall s))"

lemma tx_lawsD:
  assumes "tx_laws tx sent_log stall" and "unat n \<le> length pkts" and "tx s p q pkts n = (k, s')"
  shows "unat k \<le> unat n" and "sent_log s' = sent_log s @ take (unat k) pkts"
    and "k = 0 \<Longrightarrow> 0 < n \<Longrightarrow> stall s' < stall s"
  using assms unfolding tx_laws_def by blast+

lemma unat_u16_32: "unat (ucast (x :: u16) :: u32) = unat x"
  using unat_bound_u16 [of x] by (simp add: unat_ucast_mod)

lemma send_all_step:
  fixes num :: u16 and sent :: u32
  assumes laws: "tx_laws tx sent_log stall" and n: "unat num \<le> length pkts" and s: "unat sent < unat num \<or> unat num = 0 \<and> unat sent = 0"
    and e: "tx s p q (drop (unat sent) pkts) (ucast (ucast num - sent)) = (k, s')"
  shows "unat k \<le> unat num - unat sent" and "sent_log s' = sent_log s @ take (unat k) (drop (unat sent) pkts)"
    and "k = 0 \<Longrightarrow> unat sent < unat num \<Longrightarrow> stall s' < stall s"
    and "unat (sent + ucast k) = unat sent + unat k"
    and "ucast num \<le> sent + ucast k \<longleftrightarrow> unat num \<le> unat sent + unat k"
proof -
  let ?n = "ucast (ucast num - sent) :: u16"
  note b = unat_bound_u16 [of num] unat_u16_32 [of num]
  have "sent \<le> ucast num" unfolding word_le_nat_alt b(2) using s by linarith
  then have d: "unat (ucast num - sent) = unat num - unat sent" using unat_sub b(2) by metis
  have m: "unat ?n = unat num - unat sent"
    using d b by (simp add: unat_ucast_mod) 
  have "unat ?n \<le> length (drop (unat sent) pkts)" using m n by simp
  note t = tx_lawsD [OF laws this e]
  show k: "unat k \<le> unat num - unat sent" using t(1) m by simp
  have "unat sent + unat k < 4294967296" using k b s by linarith
  then show u: "unat (sent + ucast k) = unat sent + unat k" by (simp add: unat_add_u32 unat_u16_32)
  show "sent_log s' = sent_log s @ take (unat k) (drop (unat sent) pkts)" by (rule t(2))
  show "stall s' < stall s" if "k = 0" "unat sent < unat num"
    using t(3) that m by (simp add: word_less_nat_alt)
  show "ucast num \<le> sent + ucast k \<longleftrightarrow> unat num \<le> unat sent + unat k"
    using u b by (simp add: word_le_nat_alt)
qed

lemma send_all_correct:
  fixes num :: u16
  assumes laws: "tx_laws tx sent_log stall" and n: "unat num \<le> length pkts"
  shows "unat sent < unat num \<or> unat num = 0 \<and> unat sent = 0 \<Longrightarrow>
    \<exists>fuel s'. send_all_loop fuel tx s p q pkts num sent = Some s'
      \<and> sent_log s' = sent_log s @ take (unat num - unat sent) (drop (unat sent) pkts)"
proof (induction "(unat num - unat sent, stall s)" arbitrary: sent s
    rule: wf_induct_rule [OF wf_lex_prod [OF wf_less_than wf_less_than]])
  case 1
  obtain k s1 where e: "tx s p q (drop (unat sent) pkts) (ucast (ucast num - sent)) = (k, s1)" by fastforce
  note t = send_all_step [OF laws n "1.prems" e]
  show ?case
  proof (cases "unat num \<le> unat sent + unat k")
    case True
    with t(1) "1.prems" have "unat k = unat num - unat sent" by linarith
    moreover have "send_all_loop (Suc 0) tx s p q pkts num sent = Some s1" using e t(5) True by simp
    ultimately show ?thesis using t(2) by metis
  next
    case False
    let ?sent = "sent + ucast k"
    have lt: "unat ?sent < unat num" using False t(4) by simp
    have "((unat num - unat ?sent, stall s1), (unat num - unat sent, stall s)) \<in> less_than <*lex*> less_than"
    proof (cases "k = 0")
      case True
      then show ?thesis using t(3) lt by simp
    next
      case False
      then have "0 < unat k" by (simp add: unat_gt_0)
      then show ?thesis using t(4) lt by auto
    qed
    then obtain fuel s2 where f: "send_all_loop fuel tx s1 p q pkts num ?sent = Some s2"
        "sent_log s2 = sent_log s1 @ take (unat num - unat ?sent) (drop (unat ?sent) pkts)"
      using "1.hyps" [of ?sent s1] lt by blast
    have "send_all_loop (Suc fuel) tx s p q pkts num sent = Some s2" using e t(5) False f(1) by simp
    moreover have "take (unat k) (drop (unat sent) pkts) @ take (unat num - unat ?sent) (drop (unat ?sent) pkts)
        = take (unat num - unat sent) (drop (unat sent) pkts)"
    proof -
      have "unat num - unat sent = unat k + (unat num - unat ?sent)" using t(1,4) False by linarith
      then show ?thesis using t(4) by (simp add: take_add add.commute)
    qed
    ultimately show ?thesis using f(2) t(2) by (metis append.assoc)
  qed
qed

section \<open>Receiving with software timestamps\<close>

text \<open>
  Every iteration reads the run state, the time-stamp counter and a burst of packets; other threads and
  the clock may change the environment in between, so each is a function of the state \<open>'s\<close>.
  \<open>cycles_per_byte\<close> is the conversion \<^verbatim>\<open>rte_get_tsc_hz() / 10000000.0 / 0.8\<close> of line 254, a floating point
  expression that is evaluated once and is left as an argument.
\<close>

record ('s, 'm) rx_env =
  rx_tsc_hz :: u64
  rx_lifecycle :: "'s \<Rightarrow> lifecycle"
  rx_rdtsc :: "'s \<Rightarrow> u64 \<times> 's"
  rx_burst :: "'s \<Rightarrow> u16 \<Rightarrow> 'm list \<times> 's"

text \<open>The call \<^verbatim>\<open>is_running(0)\<close> of line 255.\<close>

definition rx_running :: "('s, 'm) rx_env \<Rightarrow> 's \<Rightarrow> bool \<times> 's" where
  "rx_running env s = (let (now, s1) = rx_rdtsc env s in (is_running (rx_tsc_hz env) now (rx_lifecycle env s1) 0, s1))"

fun stamp_loop :: "('m \<Rightarrow> u32) \<Rightarrow> u32 \<Rightarrow> u64 \<Rightarrow> u16 \<Rightarrow> 'm list \<Rightarrow> ('m \<times> u64) list" where
  "stamp_loop pkt_len cycles_per_byte tsc prev_pkt_size [] = []"
| "stamp_loop pkt_len cycles_per_byte tsc prev_pkt_size (p # ps) =
     (p, tsc + ucast (ucast prev_pkt_size * cycles_per_byte))
     # stamp_loop pkt_len cycles_per_byte tsc (ucast (pkt_len p + 24)) ps"

fun dpdk_receive_with_timestamps_software :: "nat \<Rightarrow> ('s, 'm) rx_env \<Rightarrow> ('m \<Rightarrow> u32) \<Rightarrow> u32 \<Rightarrow> u16 \<Rightarrow> 's
    \<Rightarrow> (('m \<times> u64) list \<times> 's) option" where
  "dpdk_receive_with_timestamps_software 0 env pkt_len cycles_per_byte nb_pkts s = None"
| "dpdk_receive_with_timestamps_software (Suc fuel) env pkt_len cycles_per_byte nb_pkts s =
     (let (running, s1) = rx_running env s in
      if running
      then let (tsc, s2) = rx_rdtsc env s1;
               (pkts, s3) = rx_burst env s2 nb_pkts
           in if pkts \<noteq> [] then Some (stamp_loop pkt_len cycles_per_byte tsc 0 pkts, s3)
              else dpdk_receive_with_timestamps_software fuel env pkt_len cycles_per_byte nb_pkts s3
      else Some ([], s1))"

lemma ucast_of_nat_unat: "(ucast (x :: u32) :: u64) = word_of_nat (unat x)"
  by (rule word_unat_eq_iff [THEN iffD2]) (simp add: unat_ucast_mod unat_word_of_nat)

lemma stamp_loop_map: "map fst (stamp_loop l c tsc prev ps) = ps"
  by (induction ps arbitrary: prev) simp_all

lemma stamp_loop_nth:
  "i < length ps \<Longrightarrow> snd (stamp_loop l c tsc prev ps ! i)
    = tsc + ucast (ucast (if i = 0 then prev else ucast (l (ps ! (i - 1)) + 24)) * c)"
proof (induction ps arbitrary: i prev)
  case (Cons p ps)
  show ?case
  proof (cases i)
    case (Suc j)
    with Cons.IH [of j "ucast (l p + 24)"] Cons.prems show ?thesis by (cases j) auto
  qed simp
qed simp

section \<open>Properties\<close>

text \<open>C13: \<^verbatim>\<open>dpdk_send_all_packets\<close> terminates with every driver that does not refuse packets forever, and when
  it returns the driver has taken exactly the first \<^verbatim>\<open>num_pkts\<close> packets, each once and in order, whatever
  partial bursts the driver accepted.\<close>
theorem send_all_packets_delivers:
  assumes "tx_laws tx sent_log stall" and "unat num_pkts \<le> length pkts"
  shows "\<exists>fuel s'. dpdk_send_all_packets fuel tx s port_id queue_id pkts num_pkts = Some s'
    \<and> sent_log s' = sent_log s @ take (unat num_pkts) pkts"
  using send_all_correct [OF assms, of 0 s port_id queue_id]
  by (cases "unat num_pkts = 0") (auto simp: dpdk_send_all_packets_def)

text \<open>A driver that takes at most two packets per call and refuses every so often.\<close>

definition two_tx :: "(nat list \<times> nat, nat) tx_burst" where
  "two_tx s p q pkts n = (case s of (out, w) \<Rightarrow>
     if 0 < w then (0, (out, w - 1)) else let k = min 2 (unat n) in (word_of_nat k, (out @ take k pkts, 3)))"

lemma two_tx_laws: "tx_laws two_tx fst snd"
proof -
  have "unat (word_of_nat (min 2 (unat n)) :: u16) = min 2 (unat n)" for n :: u16
    by (simp add: unat_word_of_nat min_def)
  then show ?thesis
    by (auto simp: tx_laws_def two_tx_def Let_def word_less_nat_alt split: prod.splits if_splits)
       (metis min_0R min_def nat_neq_iff unat_0 zero_neq_numeral not_less0)+
qed

theorem send_all_packets_delivers_witness:
  "\<exists>fuel s'. dpdk_send_all_packets fuel two_tx ([], 1 :: nat) 0 0 [7, 8, 9] 3 = Some s'
    \<and> fst s' = fst ([], 1 :: nat) @ take (unat (3 :: u16)) [7, 8, 9]"
  by (rule send_all_packets_delivers [OF two_tx_laws]) simp

text \<open>A software-timestamped receive returns the packets of one burst unchanged and in order. The first
  gets the counter value read before the burst, every other one that value plus the wire time of its
  predecessor alone (length plus 24 bytes), as long as the 16- and 32-bit intermediate values hold it.\<close>
theorem receive_timestamps:
  assumes "rx_running env s = (True, s1)" and "rx_rdtsc env s1 = (tsc, s2)"
    and "rx_burst env s2 nb_pkts = (pkts, s3)" and "pkts \<noteq> []"
    and "list_all (\<lambda>p. unat (pkt_len p) + 24 < 65536
           \<and> (unat (pkt_len p) + 24) * unat cycles_per_byte < 4294967296) pkts"
  shows "\<exists>out. dpdk_receive_with_timestamps_software (Suc fuel) env pkt_len cycles_per_byte nb_pkts s = Some (out, s3)
    \<and> map fst out = pkts \<and> snd (out ! 0) = tsc
    \<and> (\<forall>i. 0 < i \<and> i < length pkts \<longrightarrow>
          snd (out ! i) = tsc + word_of_nat ((unat (pkt_len (pkts ! (i - 1))) + 24) * unat cycles_per_byte))"
proof -
  let ?out = "stamp_loop pkt_len cycles_per_byte tsc 0 pkts"
  have wt: "(ucast (ucast (ucast (pkt_len p + 24) :: u16) * cycles_per_byte :: u32) :: u64)
      = word_of_nat ((unat (pkt_len p) + 24) * unat cycles_per_byte)" if "p \<in> set pkts" for p
  proof -
    have b: "unat (pkt_len p) + 24 < 65536" "(unat (pkt_len p) + 24) * unat cycles_per_byte < 4294967296"
      using assms(5) that by (auto simp: list_all_iff)
    have "unat (ucast (ucast (pkt_len p + 24) :: u16) :: u32) = unat (pkt_len p) + 24"
      using b(1) by (simp add: unat_u16_32 unat_ucast_mod unat_add_u32)
    then have "unat (ucast (ucast (pkt_len p + 24) :: u16) * cycles_per_byte :: u32)
        = (unat (pkt_len p) + 24) * unat cycles_per_byte"
      using b(2) by (simp add: unat_word_ariths)
    then show ?thesis by (simp only: ucast_of_nat_unat)
  qed
  have "snd (?out ! i) = tsc + word_of_nat ((unat (pkt_len (pkts ! (i - 1))) + 24) * unat cycles_per_byte)"
    if "0 < i" "i < length pkts" for i
    using that stamp_loop_nth [of i pkts pkt_len cycles_per_byte tsc 0] wt [of "pkts ! (i - 1)"] by simp
  moreover have "snd (?out ! 0) = tsc" using stamp_loop_nth [of 0 pkts pkt_len cycles_per_byte tsc 0] assms(4) by simp
  ultimately show ?thesis using assms(1-4) by (simp add: stamp_loop_map)
qed


definition test_rx_env :: "(u64, u32) rx_env" where
  "test_rx_env = \<lparr> rx_tsc_hz = 1000000, rx_lifecycle = (\<lambda>t. init_lifecycle), rx_rdtsc = (\<lambda>t. (t, t + 100)),
     rx_burst = (\<lambda>t n. ([60, 1500, 60], t)) \<rparr>"

theorem receive_timestamps_witness:
  "\<exists>out. dpdk_receive_with_timestamps_software (Suc 0) test_rx_env id 3 32 900 = Some (out, 1100)
    \<and> map fst out = [60, 1500, 60] \<and> snd (out ! 0) = 1000
    \<and> (\<forall>i. 0 < i \<and> i < length [60, 1500, 60 :: u32] \<longrightarrow>
          snd (out ! i) = 1000 + word_of_nat ((unat (id ([60, 1500, 60] ! (i - 1)) :: u32) + 24) * unat (3 :: u32)))"
  by (rule receive_timestamps) (simp_all add: test_rx_env_def rx_running_def is_running_def init_lifecycle_def)


text \<open>
  A clock for the receive loop: every reading advances it, and no step of the loop takes longer than \<open>d\<close>
  cycles.
\<close>

definition clock_laws :: "('s, 'm) rx_env \<Rightarrow> ('s \<Rightarrow> nat) \<Rightarrow> nat \<Rightarrow> bool" where
  "clock_laws env tick d \<longleftrightarrow>
     (\<forall>s t s'. rx_rdtsc env s = (t, s') \<longrightarrow> t = word_of_nat (tick s) \<and> tick s < tick s' \<and> tick s' \<le> tick s + d)
     \<and> (\<forall>s n ps s'. rx_burst env s n = (ps, s') \<longrightarrow> tick s \<le> tick s' \<and> tick s' \<le> tick s + d)"

text \<open>\<open>D\<close> is the deadline the run time sets; a signal may arrive at any moment and ends the loop earlier.\<close>

lemma receive_ends:
  assumes laws: "clock_laws env tick d" and stop: "\<forall>s. unat (stop_at (rx_lifecycle env s)) = D"
    and room: "D + 4 * d < 18446744073709551616"
  shows "tick s \<le> D + 3 * d \<Longrightarrow>
    \<exists>fuel out s'. dpdk_receive_with_timestamps_software fuel env l c n s = Some (out, s')
      \<and> tick s' \<le> D + 4 * d
      \<and> (out = [] \<longrightarrow> D \<le> tick s' \<or> unat (signal_at (rx_lifecycle env s')) \<le> tick s')"
proof (induction "D - tick s" arbitrary: s rule: less_induct)
  case less
  obtain t s1 where r1: "rx_rdtsc env s = (t, s1)" by fastforce
  obtain tsc s2 where r2: "rx_rdtsc env s1 = (tsc, s2)" by fastforce
  obtain ps s3 where r3: "rx_burst env s2 n = (ps, s3)" by fastforce
  have t: "t = word_of_nat (tick s)" and k: "tick s < tick s1" "tick s1 \<le> tick s + d" "tick s1 < tick s2"
      "tick s2 \<le> tick s1 + d" "tick s2 \<le> tick s3" "tick s3 \<le> tick s2 + d"
    using laws r1 r2 r3 unfolding clock_laws_def by blast+
  have u: "unat t = tick s" using t less.prems room by (simp add: unat_word_of_nat)
  let ?run = "is_running (rx_tsc_hz env) t (rx_lifecycle env s1) 0"
  have run: "?run \<longleftrightarrow> tick s < min (unat (signal_at (rx_lifecycle env s1))) D"
    using is_running_iff [of 0 "rx_tsc_hz env" t "rx_lifecycle env s1"] u stop by simp
  let ?f = "\<lambda>fuel. dpdk_receive_with_timestamps_software fuel env l c n s"
  show ?case
  proof (cases ?run)
    case False
    then have "?f (Suc 0) = Some ([], s1)" by (simp add: rx_running_def r1)
    moreover have "tick s1 \<le> D + 4 * d" using k(2) less.prems by linarith
    moreover have "D \<le> tick s1 \<or> unat (signal_at (rx_lifecycle env s1)) \<le> tick s1"
      using False run k(1) by (auto simp: min_def split: if_splits)
    ultimately show ?thesis by blast
  next
    case True
    then have start: "tick s < D" using run by simp
    show ?thesis
    proof (cases "ps = []")
      case False
      then have "?f (Suc 0) = Some (stamp_loop l c tsc 0 ps, s3)" using True by (simp add: rx_running_def r1 r2 r3)
      moreover have "stamp_loop l c tsc 0 ps \<noteq> []" using False stamp_loop_map [of l c tsc 0 ps] by force
      moreover have "tick s3 \<le> D + 4 * d" using k start by linarith
      ultimately show ?thesis by blast
    next
      case empty: True
      have "D - tick s3 < D - tick s" "tick s3 \<le> D + 3 * d" using k start by linarith+
      from less.hyps [OF this] obtain fuel out s' where
        f: "dpdk_receive_with_timestamps_software fuel env l c n s3 = Some (out, s')" "tick s' \<le> D + 4 * d"
          "out = [] \<longrightarrow> D \<le> tick s' \<or> unat (signal_at (rx_lifecycle env s')) \<le> tick s'" by blast
      then have "?f (Suc fuel) = Some (out, s')" using True empty by (simp add: rx_running_def r1 r2 r3)
      with f show ?thesis by blast
    qed
  qed
qed

text \<open>C14: After \<^verbatim>\<open>set_runtime\<close>, a receive call returns by the deadline: a queue that stays empty is polled only
  until the run time is over, and the call has returned at most four steps of the clock (of at most \<open>d\<close>
  cycles each) later, also when a signal arrives in between. It returns without a packet only when the
  deadline or the arrival of a signal has passed. The run time is not set again during the call, and the
  counter does not wrap around.\<close>
theorem receive_returns:
  assumes "clock_laws env tick d"
    and "\<forall>s. stop_at (rx_lifecycle env s) = stop_at (set_runtime (rx_tsc_hz env) t0 lc run_time)"
    and "unat run_time * unat (rx_tsc_hz env) < 18446744073709551616"
    and "unat t0 + ms_cycles (rx_tsc_hz env) run_time + 4 * d < 18446744073709551616"
    and "tick s \<le> unat t0 + ms_cycles (rx_tsc_hz env) run_time"
  shows "\<exists>fuel out s'. dpdk_receive_with_timestamps_software fuel env pkt_len cycles_per_byte nb_pkts s = Some (out, s')
    \<and> tick s' \<le> unat t0 + ms_cycles (rx_tsc_hz env) run_time + 4 * d
    \<and> (out = [] \<longrightarrow> unat t0 + ms_cycles (rx_tsc_hz env) run_time \<le> tick s'
         \<or> unat (signal_at (rx_lifecycle env s')) \<le> tick s')"
proof -
  have "unat (stop_at (set_runtime (rx_tsc_hz env) t0 lc run_time)) = unat t0 + ms_cycles (rx_tsc_hz env) run_time"
    using unat_ms_cycles [OF assms(3)] assms(4) by (simp add: set_runtime_def unat_add_u64)
  with assms(2) have "\<forall>s. unat (stop_at (rx_lifecycle env s)) = unat t0 + ms_cycles (rx_tsc_hz env) run_time" by simp
  from receive_ends [OF assms(1) this assms(4), of s] assms(5) show ?thesis by simp
qed

text \<open>A run time of 50 ms at 1 kHz, an idle queue and a clock that advances by 7 per reading.\<close>

definition idle_rx_env :: "(nat, u32) rx_env" where
  "idle_rx_env = \<lparr> rx_tsc_hz = 1000, rx_lifecycle = (\<lambda>t. set_runtime 1000 0 init_lifecycle 50),
     rx_rdtsc = (\<lambda>t. (word_of_nat t, t + 7)), rx_burst = (\<lambda>t n. ([], t)) \<rparr>"

theorem receive_returns_witness:
  "\<exists>fuel s'. dpdk_receive_with_timestamps_software fuel idle_rx_env id 3 32 10 = Some ([], s')
    \<and> 50 \<le> s' \<and> s' \<le> 78"
proof -
  have c: "clock_laws idle_rx_env id 7" by (simp add: clock_laws_def idle_rx_env_def)
  have l: "\<forall>s. stop_at (rx_lifecycle idle_rx_env s)
      = stop_at (set_runtime (rx_tsc_hz idle_rx_env) 0 init_lifecycle 50)"
    by (simp add: idle_rx_env_def)
  have hz: "rx_tsc_hz idle_rx_env = 1000" "ms_cycles 1000 50 = 50"
    by (simp_all add: idle_rx_env_def ms_cycles_def)
  have empty: "dpdk_receive_with_timestamps_software fuel idle_rx_env id 3 32 s = Some (out, s') \<Longrightarrow> out = []" for fuel s out s'
    by (induction fuel arbitrary: s)
       (auto simp: idle_rx_env_def rx_running_def Let_def split: if_splits)
  have "\<exists>fuel out s'. dpdk_receive_with_timestamps_software fuel idle_rx_env id 3 32 10 = Some (out, s')
    \<and> id s' \<le> 78 \<and> (out = [] \<longrightarrow> 50 \<le> id s' \<or> unat (signal_at (rx_lifecycle idle_rx_env s')) \<le> id s')"
    using receive_returns [OF c l, of 10 id 3 32] by (simp add: hz)
  then obtain fuel out s' where r: "dpdk_receive_with_timestamps_software fuel idle_rx_env id 3 32 10 = Some (out, s')"
      "s' \<le> 78" "out = [] \<longrightarrow> 50 \<le> s' \<or> unat (signal_at (rx_lifecycle idle_rx_env s')) \<le> s'" by auto
  moreover have "unat (signal_at (rx_lifecycle idle_rx_env s')) = 18446744073709551615"
    by (simp add: idle_rx_env_def set_runtime_def init_lifecycle_def unsigned_minus_1_eq_mask mask_eq_exp_minus_1)
  ultimately show ?thesis using empty [OF r(1)] by auto
qed

end
