(* ===== verification/Device.thy ===== *)
theory Device
  imports Lifecycle "HOL-Library.Multiset"
begin

text \<open>
  \<^verbatim>\<open>src/src/device.c\<close>: device configuration, register access, device information, and the send and receive
  loops. DPDK's ethdev layer and the hardware are parameters: the calls that configure a device are
  recorded as a trace, answered by an oracle that maps the calls made so far and the current call to
  the return code; flag constants of \<^verbatim>\<open>rte_ethdev.h\<close> are the record \<open>eth_consts\<close>.
\<close>

section \<open>Device information\<close>

record pci_dev =
  pci_bar0 :: u64
  pci_function :: u8
  pci_vendor_id :: u16
  pci_device_id :: u16
  pci_numa_node :: int

record 'x rte_txconf =
  txconf_offloads :: u64
  txconf_rest :: 'x

record 'x rte_rxconf =
  rx_drop_en :: u8
  rxconf_offloads :: u64
  rxconf_rest :: 'x

text \<open>\<open>di_pci\<close> is \<^verbatim>\<open>RTE_DEV_TO_PCI(dev_info.device)\<close>, \<open>None\<close> for a device that is not on the PCI bus.\<close>

record 'x rte_dev_info =
  di_driver_name :: string
  di_flow_type_rss_offloads :: u64
  di_rx_offload_capa :: u64
  di_tx_offload_capa :: u64
  di_max_mtu :: u16
  di_default_txconf :: "'x rte_txconf"
  di_default_rxconf :: "'x rte_rxconf"
  di_pci :: "pci_dev option"

definition dpdk_get_driver_name :: "(u16 \<Rightarrow> 'x rte_dev_info) \<Rightarrow> u16 \<Rightarrow> string" where
  "dpdk_get_driver_name info port = di_driver_name (info port)"

definition dpdk_get_pci_function :: "(u16 \<Rightarrow> 'x rte_dev_info) \<Rightarrow> u16 \<Rightarrow> u8" where
  "dpdk_get_pci_function info port = (case di_pci (info port) of Some d \<Rightarrow> pci_function d | None \<Rightarrow> 0)"

definition dpdk_get_pci_id :: "(u16 \<Rightarrow> 'x rte_dev_info) \<Rightarrow> u16 \<Rightarrow> u32" where
  "dpdk_get_pci_id info port =
     (case di_pci (info port) of None \<Rightarrow> 0
      | Some d \<Rightarrow> push_bit 16 (ucast (pci_vendor_id d)) OR ucast (pci_device_id d))"

definition dpdk_get_socket :: "(u16 \<Rightarrow> 'x rte_dev_info) \<Rightarrow> u16 \<Rightarrow> u8" where
  "dpdk_get_socket info port =
     (case di_pci (info port) of None \<Rightarrow> 0
      | Some d \<Rightarrow> let node = pci_numa_node d; node = (if node = - 1 then 0 else node) in word_of_int node)"

text \<open>
  \<open>dpdk_get_mac_addr\<close> returns the six address bytes as a number; with a buffer it also prints them with
  \<^verbatim>\<open>%02X\<close>, separated by colons.
\<close>

definition hex_digit :: "nat \<Rightarrow> char" where
  "hex_digit n = (if n < 10 then char_of (48 + n) else char_of (55 + n))"

definition fmt_02X :: "u8 \<Rightarrow> string" where
  "fmt_02X b = [hex_digit (unat b div 16), hex_digit (unat b mod 16)]"

definition mac_string :: "u8 list \<Rightarrow> string" where
  "mac_string a = fmt_02X (a ! 0) @ '':'' @ fmt_02X (a ! 1) @ '':'' @ fmt_02X (a ! 2) @ '':''
     @ fmt_02X (a ! 3) @ '':'' @ fmt_02X (a ! 4) @ '':'' @ fmt_02X (a ! 5)"

definition mac_number :: "u8 list \<Rightarrow> u64" where
  "mac_number a = ucast (a ! 0) OR push_bit 8 (ucast (a ! 1)) OR push_bit 16 (ucast (a ! 2))
     OR push_bit 24 (ucast (a ! 3)) OR push_bit 32 (ucast (a ! 4)) OR push_bit 40 (ucast (a ! 5))"

definition dpdk_get_mac_addr :: "(u16 \<Rightarrow> u8 list) \<Rightarrow> u16 \<Rightarrow> bool \<Rightarrow> u64 \<times> string option" where
  "dpdk_get_mac_addr macaddr port with_buf =
     (mac_number (macaddr port), if with_buf then Some (mac_string (macaddr port)) else None)"

section \<open>Registers\<close>

text \<open>
  \<open>registers\<close> maps a port to the address of its first PCI memory region, 0 for NULL. Accesses go to
  the device; \<open>None\<close> is an index outside the table or an access through NULL.
\<close>

record 'h mmio =
  mmio_read32 :: "'h \<Rightarrow> u64 \<Rightarrow> u32 \<times> 'h"
  mmio_write32 :: "'h \<Rightarrow> u64 \<Rightarrow> u32 \<Rightarrow> 'h"
  mmio_read64 :: "'h \<Rightarrow> u64 \<Rightarrow> u64 \<times> 'h"
  mmio_write64 :: "'h \<Rightarrow> u64 \<Rightarrow> u64 \<Rightarrow> 'h"

definition get_reg_addr :: "u64 list \<Rightarrow> nat \<Rightarrow> u32 \<Rightarrow> u64 option" where
  "get_reg_addr registers port reg =
     (if port < length registers then Some (registers ! port + ucast reg) else None)"

definition reg_target :: "u64 list \<Rightarrow> nat \<Rightarrow> u32 \<Rightarrow> u64 option" where
  "reg_target registers port reg =
     (if port < length registers \<and> registers ! port \<noteq> 0 then get_reg_addr registers port reg else None)"

definition read_reg32 :: "'h mmio \<Rightarrow> u64 list \<Rightarrow> 'h \<Rightarrow> nat \<Rightarrow> u32 \<Rightarrow> (u32 \<times> 'h) option" where
  "read_reg32 m registers h port reg =
     (case reg_target registers port reg of None \<Rightarrow> None | Some a \<Rightarrow> Some (mmio_read32 m h a))"

definition write_reg32 :: "'h mmio \<Rightarrow> u64 list \<Rightarrow> 'h \<Rightarrow> nat \<Rightarrow> u32 \<Rightarrow> u32 \<Rightarrow> 'h option" where
  "write_reg32 m registers h port reg val =
     (case reg_target registers port reg of None \<Rightarrow> None | Some a \<Rightarrow> Some (mmio_write32 m h a val))"

definition read_reg64 :: "'h mmio \<Rightarrow> u64 list \<Rightarrow> 'h \<Rightarrow> nat \<Rightarrow> u32 \<Rightarrow> (u64 \<times> 'h) option" where
  "read_reg64 m registers h port reg =
     (case reg_target registers port reg of None \<Rightarrow> None | Some a \<Rightarrow> Some (mmio_read64 m h a))"

definition write_reg64 :: "'h mmio \<Rightarrow> u64 list \<Rightarrow> 'h \<Rightarrow> nat \<Rightarrow> u32 \<Rightarrow> u64 \<Rightarrow> 'h option" where
  "write_reg64 m registers h port reg val =
     (case reg_target registers port reg of None \<Rightarrow> None | Some a \<Rightarrow> Some (mmio_write64 m h a val))"

section \<open>Configuration\<close>

record eth_consts =
  RX_OFFLOAD_SCATTER :: u64
  RX_OFFLOAD_CHECKSUM :: u64
  RX_OFFLOAD_VLAN_STRIP :: u64
  RX_OFFLOAD_VLAN_EXTEND :: u64
  RX_OFFLOAD_TIMESTAMP :: u64
  TX_OFFLOAD_VLAN_INSERT :: u64
  TX_OFFLOAD_IPV4_CKSUM :: u64
  TX_OFFLOAD_UDP_CKSUM :: u64
  TX_OFFLOAD_TCP_CKSUM :: u64
  TX_OFFLOAD_MBUF_FAST_FREE :: u64
  MQ_RX_RSS :: u32
  MQ_RX_NONE :: u32
  MQ_TX_NONE :: u32
  LINK_SPEED_AUTONEG :: u32

definition DEFAULT_RX_DESCS :: u16 where "DEFAULT_RX_DESCS = 512"
definition DEFAULT_TX_DESCS :: u16 where "DEFAULT_TX_DESCS = 256"
definition SYMM_RSS_HASHKEY_LENGTH :: nat where "SYMM_RSS_HASHKEY_LENGTH = 40"

definition symm_rss_hash_key :: "u8 list" where
  "symm_rss_hash_key = [0x6D, 0x5A, 0x6D, 0x5A, 0x6D, 0x5A, 0x6D, 0x5A, 0x6D, 0x5A, 0x6D, 0x5A, 0x6D, 0x5A,
     0x6D, 0x5A, 0x6D, 0x5A, 0x6D, 0x5A, 0x6D, 0x5A, 0x6D, 0x5A, 0x6D, 0x5A, 0x6D, 0x5A, 0x6D, 0x5A, 0x6D, 0x5A,
     0x6D, 0x5A, 0x6D, 0x5A, 0x6D, 0x5A, 0x6D, 0x5A]"

record 'p libmoon_device_config =
  cfg_port :: u32
  cfg_mempools :: "'p list"
  cfg_rx_queues :: u16
  cfg_tx_queues :: u16
  cfg_rx_descs :: u16
  cfg_tx_descs :: u16
  cfg_drop_enable :: u8
  cfg_enable_rss :: u8
  cfg_disable_offloads :: u8
  cfg_strip_vlan :: u8
  cfg_rss_mask :: u32
  cfg_enable_rss_symm :: u8

record rte_rss_conf =
  rss_key :: "u8 list option"
  rss_key_len :: u8
  rss_hf :: u64

record rte_port_conf =
  rxmode_mq_mode :: u32
  rxmode_offloads :: u64
  rxmode_mtu :: u32
  txmode_mq_mode :: u32
  txmode_offloads :: u64
  conf_link_speeds :: u32
  conf_rss :: rte_rss_conf

datatype ('p, 'x) eth_call =
    DevConfigure u16 u16 u16 rte_port_conf
  | TxQueueSetup u16 u16 u16 u8 "'x rte_txconf"
  | RxQueueSetup u16 u16 u16 u8 "'x rte_rxconf" 'p
  | DevStart u16

type_synonym ('p, 'x) eth_oracle = "('p, 'x) eth_call list \<Rightarrow> ('p, 'x) eth_call \<Rightarrow> int"

definition rss_conf_of :: "'p libmoon_device_config \<Rightarrow> 'x rte_dev_info \<Rightarrow> rte_rss_conf" where
  "rss_conf_of cfg di = \<lparr>
     rss_key = (if cfg_enable_rss_symm cfg \<noteq> 0 then Some symm_rss_hash_key else None),
     rss_key_len = (if cfg_enable_rss_symm cfg \<noteq> 0 then word_of_nat SYMM_RSS_HASHKEY_LENGTH else 0),
     rss_hf = ucast (cfg_rss_mask cfg) AND di_flow_type_rss_offloads di \<rparr>"

definition rx_offloads_of :: "eth_consts \<Rightarrow> 'p libmoon_device_config \<Rightarrow> 'x rte_dev_info \<Rightarrow> u64" where
  "rx_offloads_of K cfg di =
     (let driver = di_driver_name di;
          is_ixgbe_device = (driver = ''net_ixgbe'');
          is_i40e_device = (driver = ''net_i40e'');
          is_igb_device = (driver = ''net_e1000_igb'');
          is_mlx5_device = (driver = ''mlx5_pci'')
      in (if cfg_disable_offloads cfg \<noteq> 0
          then (if is_mlx5_device then RX_OFFLOAD_SCATTER K else 0)
          else RX_OFFLOAD_CHECKSUM K
               OR (if cfg_strip_vlan cfg \<noteq> 0 then RX_OFFLOAD_VLAN_STRIP K else 0)
               OR (if \<not> (is_ixgbe_device \<or> is_i40e_device \<or> is_igb_device) then RX_OFFLOAD_VLAN_EXTEND K else 0)
               OR RX_OFFLOAD_TIMESTAMP K
               OR (if is_mlx5_device then RX_OFFLOAD_SCATTER K else 0))
         AND di_rx_offload_capa di)"

definition tx_offloads_of :: "eth_consts \<Rightarrow> 'p libmoon_device_config \<Rightarrow> 'x rte_dev_info \<Rightarrow> u64" where
  "tx_offloads_of K cfg di =
     (if cfg_disable_offloads cfg \<noteq> 0 then TX_OFFLOAD_MBUF_FAST_FREE K
      else TX_OFFLOAD_VLAN_INSERT K OR TX_OFFLOAD_IPV4_CKSUM K OR TX_OFFLOAD_UDP_CKSUM K
           OR TX_OFFLOAD_TCP_CKSUM K OR TX_OFFLOAD_MBUF_FAST_FREE K)
     AND di_tx_offload_capa di"

definition port_conf_of :: "eth_consts \<Rightarrow> 'p libmoon_device_config \<Rightarrow> 'x rte_dev_info \<Rightarrow> rte_port_conf" where
  "port_conf_of K cfg di =
     (let driver = di_driver_name di;
          port_conf = \<lparr>
            rxmode_mq_mode = (if cfg_enable_rss cfg \<noteq> 0 then MQ_RX_RSS K else MQ_RX_NONE K),
            rxmode_offloads = rx_offloads_of K cfg di,
            rxmode_mtu = ucast (di_max_mtu di) - (if driver = ''net_iavf'' then 4 else 0),
            txmode_mq_mode = MQ_TX_NONE K,
            txmode_offloads = tx_offloads_of K cfg di,
            conf_link_speeds = LINK_SPEED_AUTONEG K,
            conf_rss = rss_conf_of cfg di \<rparr>;
          port_conf = (if driver = ''mlx5_pci'' then port_conf\<lparr>rxmode_mtu := 9000\<rparr> else port_conf)
      in if cfg_enable_rss cfg = 0
         then port_conf\<lparr>conf_rss := \<lparr> rss_key = None, rss_key_len = 0, rss_hf = 0 \<rparr>\<rparr>
         else port_conf)"

text \<open>
  A loop over queues: set up queue \<open>i\<close>, stop at the first non-zero return code. \<open>mk i\<close> is the call for
  queue \<open>i\<close>, \<open>None\<close> when its argument \<^verbatim>\<open>cfg->mempools[i]\<close> lies outside the array.
\<close>

fun queue_loop :: "('p, 'x) eth_oracle \<Rightarrow> (nat \<Rightarrow> ('p, 'x) eth_call option) \<Rightarrow> nat \<Rightarrow> nat
    \<Rightarrow> ('p, 'x) eth_call list \<Rightarrow> (int \<times> ('p, 'x) eth_call list) option" where
  "queue_loop env mk i 0 tr = Some (0, tr)"
| "queue_loop env mk i (Suc n) tr =
     (case mk i of None \<Rightarrow> None
      | Some c \<Rightarrow> let rc = env tr c in
          if rc \<noteq> 0 then Some (rc, tr @ [c]) else queue_loop env mk (Suc i) n (tr @ [c]))"

definition tx_setup_call :: "eth_consts \<Rightarrow> (u16 \<Rightarrow> 'x rte_dev_info) \<Rightarrow> 'p libmoon_device_config \<Rightarrow> nat
    \<Rightarrow> ('p, 'x) eth_call" where
  "tx_setup_call K info cfg i =
     (let port = ucast (cfg_port cfg); di = info port in
      TxQueueSetup port (word_of_nat i)
        (if cfg_tx_descs cfg \<noteq> 0 then cfg_tx_descs cfg else DEFAULT_TX_DESCS) (dpdk_get_socket info port)
        ((di_default_txconf di)\<lparr>txconf_offloads := tx_offloads_of K cfg di\<rparr>))"

definition rx_setup_call :: "eth_consts \<Rightarrow> (u16 \<Rightarrow> 'x rte_dev_info) \<Rightarrow> 'p libmoon_device_config \<Rightarrow> nat
    \<Rightarrow> ('p, 'x) eth_call option" where
  "rx_setup_call K info cfg i =
     (let port = ucast (cfg_port cfg); di = info port in
      if i < length (cfg_mempools cfg)
      then Some (RxQueueSetup port (word_of_nat i)
             (if cfg_rx_descs cfg \<noteq> 0 then cfg_rx_descs cfg else DEFAULT_RX_DESCS) (dpdk_get_socket info port)
             ((di_default_rxconf di)\<lparr>rx_drop_en := cfg_drop_enable cfg, rxconf_offloads := rx_offloads_of K cfg di\<rparr>)
             (cfg_mempools cfg ! i))
      else None)"

definition dpdk_configure_device :: "('p, 'x) eth_oracle \<Rightarrow> eth_consts \<Rightarrow> (u16 \<Rightarrow> 'x rte_dev_info) \<Rightarrow> u64 list
    \<Rightarrow> 'p libmoon_device_config \<Rightarrow> (int \<times> ('p, 'x) eth_call list \<times> u64 list) option" where
  "dpdk_configure_device env K info registers cfg =
     (let port = ucast (cfg_port cfg);
          di = info port;
          c0 = DevConfigure port (cfg_rx_queues cfg) (cfg_tx_queues cfg) (port_conf_of K cfg di);
          rc = env [] c0
      in if rc \<noteq> 0 then Some (rc, [c0], registers)
      else case queue_loop env (\<lambda>i. Some (tx_setup_call K info cfg i)) 0 (unat (cfg_tx_queues cfg)) [c0] of
        None \<Rightarrow> None
      | Some (rc, tr) \<Rightarrow>
      if rc \<noteq> 0 then Some (rc, tr, registers)
      else case queue_loop env (rx_setup_call K info cfg) 0 (unat (cfg_rx_queues cfg)) tr of
        None \<Rightarrow> None
      | Some (rc, tr) \<Rightarrow>
      if rc \<noteq> 0 then Some (rc, tr, registers)
      else let rc = env tr (DevStart port) in
           if unat (cfg_port cfg) < length registers
           then Some (rc, tr @ [DevStart port],
                  registers[unat (cfg_port cfg) := (case di_pci di of Some d \<Rightarrow> pci_bar0 d | None \<Rightarrow> 0)])
           else None)"

section \<open>What configuration does\<close>

text \<open>
  The specification: the calls a configuration consists of, made in order until one of them fails.
\<close>

fun run_plan :: "('p, 'x) eth_oracle \<Rightarrow> ('p, 'x) eth_call list \<Rightarrow> ('p, 'x) eth_call list
    \<Rightarrow> int \<times> ('p, 'x) eth_call list" where
  "run_plan env tr [] = (0, tr)"
| "run_plan env tr (c # cs) = (let rc = env tr c in if rc \<noteq> 0 then (rc, tr @ [c]) else run_plan env (tr @ [c]) cs)"

definition device_plan :: "eth_consts \<Rightarrow> (u16 \<Rightarrow> 'x rte_dev_info) \<Rightarrow> 'p libmoon_device_config
    \<Rightarrow> ('p, 'x) eth_call list" where
  "device_plan K info cfg =
     (let port = ucast (cfg_port cfg) in
      DevConfigure port (cfg_rx_queues cfg) (cfg_tx_queues cfg) (port_conf_of K cfg (info port))
      # map (tx_setup_call K info cfg) [0..<unat (cfg_tx_queues cfg)]
      @ map (\<lambda>i. the (rx_setup_call K info cfg i)) [0..<unat (cfg_rx_queues cfg)]
      @ [DevStart port])"

lemma run_plan_append:
  "run_plan env tr (cs @ ds) =
     (case run_plan env tr cs of (rc, tr') \<Rightarrow> if rc \<noteq> 0 then (rc, tr') else run_plan env tr' ds)"
  by (induction cs arbitrary: tr) (simp_all add: Let_def)

lemma run_plan_length: "run_plan env tr cs = (rc, tr') \<Longrightarrow> length tr' \<le> length tr + length cs"
proof (induction cs arbitrary: tr)
  case (Cons c cs)
  show ?case
  proof (cases "env tr c = 0")
    case True
    with Cons.prems Cons.IH [of "tr @ [c]"] show ?thesis by simp
  next
    case False
    with Cons.prems show ?thesis by auto
  qed
qed simp

lemma run_plan_prefix:
  assumes "run_plan env tr cs = (rc, tr')"
  shows "\<exists>k \<le> length cs. tr' = tr @ take k cs \<and> (rc = 0 \<longrightarrow> k = length cs)
    \<and> (rc \<noteq> 0 \<longrightarrow> 0 < k \<and> rc = env (tr @ take (k - 1) cs) (cs ! (k - 1)))
    \<and> (\<forall>j < k. (rc = 0 \<or> j < k - 1) \<longrightarrow> env (tr @ take j cs) (cs ! j) = 0)"
  using assms
proof (induction cs arbitrary: tr)
  case (Cons c cs)
  show ?case
  proof (cases "env tr c = 0")
    case True
    with Cons.prems have "run_plan env (tr @ [c]) cs = (rc, tr')" by simp
    from Cons.IH [OF this] obtain k where k: "k \<le> length cs" "tr' = tr @ c # take k cs"
      "rc = 0 \<longrightarrow> k = length cs" "rc \<noteq> 0 \<longrightarrow> 0 < k \<and> rc = env (tr @ c # take (k - 1) cs) (cs ! (k - 1))"
      "\<forall>j < k. (rc = 0 \<or> j < k - 1) \<longrightarrow> env (tr @ c # take j cs) (cs ! j) = 0" by auto
    have "env (tr @ take j (c # cs)) ((c # cs) ! j) = 0" if "j < Suc k" "rc = 0 \<or> j < Suc k - 1" for j
      using that True k(5) by (cases j) auto
    moreover have "rc \<noteq> 0 \<longrightarrow> rc = env (tr @ take k (c # cs)) ((c # cs) ! k)"
      using k(4) by (cases k) auto
    ultimately show ?thesis using k by (intro exI [of _ "Suc k"]) auto
  next
    case False
    with Cons.prems show ?thesis by (intro exI [of _ 1]) auto
  qed
qed simp

lemma queue_loop_plan:
  assumes "\<forall>j \<in> {i..<i + n}. mk j \<noteq> None"
  shows "queue_loop env mk i n tr = Some (run_plan env tr (map (\<lambda>j. the (mk j)) [i..<i + n]))"
  using assms
proof (induction n arbitrary: i tr)
  case (Suc n)
  from Suc.prems obtain c where c: "mk i = Some c" by fastforce
  have "queue_loop env mk (Suc i) n (tr @ [c])
      = Some (run_plan env (tr @ [c]) (map (\<lambda>j. the (mk j)) [Suc i..<Suc i + n]))"
    using Suc.prems by (intro Suc.IH) auto
  moreover have "[i..<i + Suc n] = i # [Suc i..<Suc i + n]" by (simp add: upt_conv_Cons)
  ultimately show ?case using c by (simp add: Let_def)
qed simp

lemma tx_queue_loop_plan:
  "queue_loop env (\<lambda>i. Some (tx_setup_call K info cfg i)) 0 n tr
    = Some (run_plan env tr (map (tx_setup_call K info cfg) [0..<n]))"
  using queue_loop_plan [of 0 n "\<lambda>i. Some (tx_setup_call K info cfg i)" env tr] by simp

lemma rx_queue_loop_plan:
  assumes "n \<le> length (cfg_mempools cfg)"
  shows "queue_loop env (rx_setup_call K info cfg) 0 n tr
    = Some (run_plan env tr (map (\<lambda>i. the (rx_setup_call K info cfg i)) [0..<n]))"
  using queue_loop_plan [of 0 n "rx_setup_call K info cfg" env tr] assms
  by (simp add: rx_setup_call_def Let_def)

lemma configure_is_plan:
  assumes "unat (cfg_rx_queues cfg) \<le> length (cfg_mempools cfg)" and "unat (cfg_port cfg) < length registers"
    and plan: "run_plan env [] (device_plan K info cfg) = (rc, tr)"
  shows "dpdk_configure_device env K info registers cfg = Some (rc, tr,
     if length tr = length (device_plan K info cfg)
     then registers[unat (cfg_port cfg) :=
       (case di_pci (info (ucast (cfg_port cfg))) of Some d \<Rightarrow> pci_bar0 d | None \<Rightarrow> 0)]
     else registers)"
proof -
  let ?p = "ucast (cfg_port cfg) :: u16"
  let ?c0 = "DevConfigure ?p (cfg_rx_queues cfg) (cfg_tx_queues cfg) (port_conf_of K cfg (info ?p))"
  let ?tx = "map (tx_setup_call K info cfg) [0..<unat (cfg_tx_queues cfg)]"
  let ?rx = "map (\<lambda>i. the (rx_setup_call K info cfg i)) [0..<unat (cfg_rx_queues cfg)]"
  have d: "device_plan K info cfg = ?c0 # ?tx @ ?rx @ [DevStart ?p]" by (simp add: device_plan_def Let_def)
  obtain rc1 tr1 where t: "run_plan env [?c0] ?tx = (rc1, tr1)" by fastforce
  obtain rc2 tr2 where r: "run_plan env tr1 ?rx = (rc2, tr2)" by fastforce
  note lens = run_plan_length [OF t] run_plan_length [OF r]
  have full: "rc1 = 0 \<Longrightarrow> rc2 = 0 \<Longrightarrow> length tr2 = 1 + length ?tx + length ?rx"
    using run_plan_prefix [OF t] run_plan_prefix [OF r] by auto
  note simps = dpdk_configure_device_def Let_def tx_queue_loop_plan rx_queue_loop_plan [OF assms(1)] t r
  consider "env [] ?c0 \<noteq> 0" | "env [] ?c0 = 0" "rc1 \<noteq> 0" | "env [] ?c0 = 0" "rc1 = 0" "rc2 \<noteq> 0"
    | "env [] ?c0 = 0" "rc1 = 0" "rc2 = 0" by blast
  then show ?thesis
  proof cases
    case 1
    with plan show ?thesis by (auto simp: d simps)
  next
    case 2
    with plan have "rc = rc1" "tr = tr1" by (auto simp: d run_plan_append t)
    with 2 lens show ?thesis by (auto simp: d simps)
  next
    case 3
    with plan have "rc = rc2" "tr = tr2" by (auto simp: d run_plan_append t r)
    with 3 lens show ?thesis by (auto simp: d simps)
  next
    case 4
    with plan have "rc = env tr2 (DevStart ?p)" "tr = tr2 @ [DevStart ?p]"
      by (auto simp: d run_plan_append t r Let_def split: if_splits)
    with 4 assms(2) full show ?thesis by (auto simp: d simps)
  qed
qed


section \<open>The symmetric RSS key\<close>

text \<open>
  The hash a network card computes over a packet's addresses and ports with its RSS key: for every set
  input bit the 32 key bits that start at that position are added modulo 2 (Toeplitz hash). Bits are
  numbered from the most significant bit of the first byte.
\<close>

definition byte_bits :: "u8 \<Rightarrow> bool list" where
  "byte_bits b = map (bit b) [7, 6, 5, 4, 3, 2, 1, 0]"

definition bits_of :: "u8 list \<Rightarrow> bool list" where
  "bits_of bs = concat (map byte_bits bs)"

definition window :: "bool list \<Rightarrow> u32" where
  "window ks = foldl (\<lambda>w b. 2 * w + (if b then 1 else 0)) 0 (take 32 ks)"

fun toeplitz :: "bool list \<Rightarrow> bool list \<Rightarrow> u32" where
  "toeplitz ks [] = 0"
| "toeplitz ks (b # bs) = (if b then window ks else 0) XOR toeplitz (tl ks) bs"

lemma toeplitz_append: "toeplitz ks (xs @ ys) = toeplitz ks xs XOR toeplitz (drop (length xs) ks) ys"
  by (induction xs arbitrary: ks) (simp_all add: drop_Suc ac_simps)

text \<open>A key of period 16 gives every 16-bit word of the input the same window sequence.\<close>

definition key_period :: "bool list" where
  "key_period = bits_of [0x6D, 0x5A]"

lemma key_period_length: "length key_period = 16"
  by (simp add: key_period_def bits_of_def byte_bits_def)

lemma symm_key_bits: "bits_of symm_rss_hash_key = concat (replicate 20 key_period)"
proof -
  have "symm_rss_hash_key = concat (replicate 20 [0x6D, 0x5A])"
    by (simp add: symm_rss_hash_key_def numeral_eq_Suc)
  moreover have "bits_of (concat (replicate n [0x6D, 0x5A])) = concat (replicate n key_period)" for n
    by (induction n) (simp_all add: bits_of_def key_period_def)
  ultimately show ?thesis by metis
qed

lemma window_take: "window ks = window (take 32 ks)"
  by (simp add: window_def)

lemma toeplitz_take:
  "length xs + 31 \<le> n \<Longrightarrow> toeplitz ks xs = toeplitz (take n ks) xs"
proof (induction xs arbitrary: ks n)
  case (Cons b xs)
  from Cons.prems obtain m where m: "n = Suc m" by (cases n) auto
  have "window ks = window (take n ks)"
    using Cons.prems window_take [of ks] window_take [of "take n ks"] by (simp add: min_def)
  moreover have "tl (take n ks) = take m (tl ks)" by (cases ks) (simp_all add: m)
  moreover have "toeplitz (tl ks) xs = toeplitz (take m (tl ks)) xs" using Cons.prems m by (intro Cons.IH) simp
  ultimately show ?case by simp
qed simp

lemma concat_replicate_take:
  "m \<le> n \<Longrightarrow> take (m * length p) (concat (replicate n p)) = concat (replicate m p)"
proof (induction m arbitrary: n)
  case (Suc m)
  then obtain n' where "n = Suc n'" "m \<le> n'" by (cases n) auto
  with Suc.IH show ?case by simp
qed simp

lemma toeplitz_period:
  assumes "length xs = 16" and "3 \<le> n"
  shows "toeplitz (concat (replicate n key_period)) xs = toeplitz (concat (replicate 3 key_period)) xs"
proof -
  have "toeplitz (concat (replicate n key_period)) xs
      = toeplitz (take (3 * length key_period) (concat (replicate n key_period))) xs"
    using assms(1) by (intro toeplitz_take) (simp add: key_period_length)
  then show ?thesis using concat_replicate_take [OF assms(2), of key_period] by simp
qed

lemma toeplitz_words:
  assumes "\<forall>x \<in> set ws. length x = 16" and "length ws + 2 \<le> n"
  shows "toeplitz (concat (replicate n key_period)) (concat ws)
    = foldr (\<lambda>x h. toeplitz (concat (replicate 3 key_period)) x XOR h) ws 0"
  using assms
proof (induction ws arbitrary: n)
  case (Cons w ws)
  then obtain m where m: "n = Suc m" "length ws + 2 \<le> m" by (cases n) auto
  have w: "length w = 16" "3 \<le> n" using Cons.prems by auto
  have "toeplitz (concat (replicate n key_period)) (concat (w # ws))
      = toeplitz (concat (replicate n key_period)) w XOR toeplitz (concat (replicate m key_period)) (concat ws)"
    using w(1) by (simp add: toeplitz_append m(1) key_period_length)
  with Cons.IH [of m] Cons.prems m toeplitz_period [OF w] show ?case by simp
qed simp

lemma xor_fold_mset:
  fixes f :: "'a \<Rightarrow> u32"
  assumes "mset xs = mset ys"
  shows "foldr (\<lambda>x h. f x XOR h) xs 0 = foldr (\<lambda>x h. f x XOR h) ys 0"
proof -
  have "foldr (\<lambda>x h. f x XOR h) xs a = fold (\<lambda>x h. f x XOR h) xs a" for xs :: "'a list" and a
    by (rule foldr_fold [THEN fun_cong]) (auto simp: ac_simps)
  moreover have "fold (\<lambda>x h. f x XOR h) xs 0 = fold (\<lambda>x h. f x XOR h) ys 0"
    using assms by (intro fold_permuted_eq [where P = "\<lambda>_. True"]) (auto simp: ac_simps)
  ultimately show ?thesis by simp
qed

lemma toeplitz_permute:
  assumes "\<forall>x \<in> set ws. length x = 16" and "length ws \<le> 18" and "mset ws = mset vs"
  shows "toeplitz (bits_of symm_rss_hash_key) (concat ws) = toeplitz (bits_of symm_rss_hash_key) (concat vs)"
proof -
  have "\<forall>x \<in> set vs. length x = 16" "length vs \<le> 18"
    using assms mset_eq_setD [OF assms(3)] mset_eq_length [OF assms(3)] by auto
  then show ?thesis
    using assms xor_fold_mset [OF assms(3), of "toeplitz (concat (replicate 3 key_period))"]
    by (simp add: symm_key_bits toeplitz_words)
qed


fun words16 :: "u8 list \<Rightarrow> bool list list" where
  "words16 (a # b # bs) = bits_of [a, b] # words16 bs"
| "words16 _ = []"

lemma words16_concat: "even (length bs) \<Longrightarrow> concat (words16 bs) = bits_of bs"
  by (induction bs rule: words16.induct) (simp_all add: bits_of_def)

lemma words16_append: "even (length xs) \<Longrightarrow> words16 (xs @ ys) = words16 xs @ words16 ys"
  by (induction xs rule: words16.induct) simp_all

lemma words16_length: "length (words16 bs) = length bs div 2"
  by (induction bs rule: words16.induct) simp_all

lemma words16_elem: "x \<in> set (words16 bs) \<Longrightarrow> length x = 16"
  by (induction bs rule: words16.induct) (auto simp: bits_of_def byte_bits_def)

section \<open>Properties\<close>

text \<open>C10: Configuring a device makes the calls of its plan in order - configure, every transmit queue, every
  receive queue, start - and stops at the first call that fails; the value returned is the code of the last
  call made (the failing one, or the start call, whether it fails or not), and the registers are mapped
  exactly when the start call was reached.\<close>
theorem configure_device_trace:
  assumes "unat (cfg_rx_queues cfg) \<le> length (cfg_mempools cfg)" and "unat (cfg_port cfg) < length registers"
  shows "\<exists>rc k registers'. dpdk_configure_device env K info registers cfg
      = Some (rc, take k (device_plan K info cfg), registers')
    \<and> 0 < k \<and> k \<le> length (device_plan K info cfg)
    \<and> rc = env (take (k - 1) (device_plan K info cfg)) (device_plan K info cfg ! (k - 1))
    \<and> (k < length (device_plan K info cfg) \<longrightarrow> rc \<noteq> 0)
    \<and> (\<forall>j. j + 1 < k \<longrightarrow> env (take j (device_plan K info cfg)) (device_plan K info cfg ! j) = 0)
    \<and> registers' = (if k = length (device_plan K info cfg)
         then registers[unat (cfg_port cfg) :=
           (case di_pci (info (ucast (cfg_port cfg))) of Some d \<Rightarrow> pci_bar0 d | None \<Rightarrow> 0)]
         else registers)"
proof -
  let ?p = "device_plan K info cfg"
  obtain rc tr where r: "run_plan env [] ?p = (rc, tr)" by fastforce
  from run_plan_prefix [OF r] obtain k where k: "k \<le> length ?p" "tr = take k ?p" "rc = 0 \<longrightarrow> k = length ?p"
      "rc \<noteq> 0 \<longrightarrow> 0 < k \<and> rc = env (take (k - 1) ?p) (?p ! (k - 1))"
      "\<forall>j < k. (rc = 0 \<or> j < k - 1) \<longrightarrow> env (take j ?p) (?p ! j) = 0" by auto
  have "length tr = length ?p \<longleftrightarrow> k = length ?p" using k(1,2) by auto
  note trace = configure_is_plan [OF assms r, unfolded this, unfolded k(2)]
  have last: "0 < k \<and> rc = env (take (k - 1) ?p) (?p ! (k - 1))"
  proof (cases "rc = 0")
    case True
    moreover have "0 < length ?p" by (simp add: device_plan_def Let_def)
    ultimately have "0 < k" "env (take (k - 1) ?p) (?p ! (k - 1)) = 0" using k(3,5) by simp_all
    with True show ?thesis by metis
  qed (use k(4) in blast)
  have before: "\<forall>j. j + 1 < k \<longrightarrow> env (take j ?p) (?p ! j) = 0" using k(5) by simp
  have stopped: "k < length ?p \<longrightarrow> rc \<noteq> 0" using k(3) by blast
  show ?thesis
    by (intro exI conjI) (rule trace last [THEN conjunct1] last [THEN conjunct2] k(1) stopped before refl)+
qed

definition test_consts :: eth_consts where
  "test_consts = \<lparr> RX_OFFLOAD_SCATTER = 0x2000, RX_OFFLOAD_CHECKSUM = 0xE, RX_OFFLOAD_VLAN_STRIP = 1,
     RX_OFFLOAD_VLAN_EXTEND = 0x400, RX_OFFLOAD_TIMESTAMP = 0x4000, TX_OFFLOAD_VLAN_INSERT = 1,
     TX_OFFLOAD_IPV4_CKSUM = 2, TX_OFFLOAD_UDP_CKSUM = 4, TX_OFFLOAD_TCP_CKSUM = 8,
     TX_OFFLOAD_MBUF_FAST_FREE = 0x10000, MQ_RX_RSS = 1, MQ_RX_NONE = 0, MQ_TX_NONE = 0, LINK_SPEED_AUTONEG = 0 \<rparr>"

definition test_info :: "string \<Rightarrow> unit rte_dev_info" where
  "test_info driver = \<lparr> di_driver_name = driver, di_flow_type_rss_offloads = 0xFF, di_rx_offload_capa = 0xFFFF,
     di_tx_offload_capa = 0xFFFFF, di_max_mtu = 1500,
     di_default_txconf = \<lparr> txconf_offloads = 0, txconf_rest = () \<rparr>,
     di_default_rxconf = \<lparr> rx_drop_en = 0, rxconf_offloads = 0, rxconf_rest = () \<rparr>,
     di_pci = Some \<lparr> pci_bar0 = 0x1000, pci_function = 1, pci_vendor_id = 0x8086, pci_device_id = 0x1572,
       pci_numa_node = - 1 \<rparr> \<rparr>"

definition test_cfg :: "nat libmoon_device_config" where
  "test_cfg = \<lparr> cfg_port = 1, cfg_mempools = [10, 11], cfg_rx_queues = 2, cfg_tx_queues = 1, cfg_rx_descs = 0,
     cfg_tx_descs = 1024, cfg_drop_enable = 1, cfg_enable_rss = 1, cfg_disable_offloads = 0, cfg_strip_vlan = 1,
     cfg_rss_mask = 0xF, cfg_enable_rss_symm = 1 \<rparr>"

text \<open>A start call that fails with -22: its code is returned, and the registers are mapped all the same.\<close>

theorem configure_device_trace_witness:
  "dpdk_configure_device (\<lambda>tr c. if length tr = 4 then - 22 else 0) test_consts
      (\<lambda>_. test_info ''net_i40e'') [0, 0] test_cfg
    = Some (- 22, device_plan test_consts (\<lambda>_. test_info ''net_i40e'') test_cfg,
        [0, case di_pci (test_info ''net_i40e'') of Some d \<Rightarrow> pci_bar0 d | None \<Rightarrow> 0])"
proof -
  define plan where "plan = device_plan test_consts (\<lambda>_. test_info ''net_i40e'') test_cfg"
  have len: "length plan = 5" by (simp add: plan_def device_plan_def test_cfg_def Let_def)
  have h: "unat (cfg_rx_queues test_cfg) \<le> length (cfg_mempools test_cfg)" "unat (cfg_port test_cfg) < length [0, 0 :: u64]"
      "unat (cfg_port test_cfg) = 1"
    by (simp_all add: test_cfg_def)
  obtain rc k registers' where r: "dpdk_configure_device (\<lambda>tr c. if length tr = 4 then - 22 else 0) test_consts
        (\<lambda>_. test_info ''net_i40e'') [0, 0] test_cfg = Some (rc, take k plan, registers')"
      "0 < k" "k \<le> 5" "rc = (if min 5 (k - 1) = 4 then - 22 else 0)" "k < 5 \<longrightarrow> rc \<noteq> 0"
      "registers' = (if k = 5 then [0, 0][1 := (case di_pci (test_info ''net_i40e'') of Some d \<Rightarrow> pci_bar0 d | None \<Rightarrow> 0)]
         else [0, 0])"
    using configure_device_trace [OF h(1,2), of "\<lambda>tr c. if length tr = 4 then - 22 else 0" test_consts
        "\<lambda>_. test_info ''net_i40e''"]
    unfolding plan_def [symmetric] length_take len h(3) by (elim exE conjE) (rule that)
  have "k - 1 = 4" if "k < 5" using r(4,5) that by (simp split: if_splits)
  then have "k = 5" using r(3) by fastforce
  with r len show ?thesis by (simp add: plan_def)
qed

text \<open>C11: A configuration never requests a receive offload, a transmit offload or an RSS hash function the
  device does not report; without RSS no key and no hash function is set; and on ixgbe, i40e and igb
  devices the extended VLAN offload is never requested.\<close>
theorem configure_within_capabilities:
  assumes "RX_OFFLOAD_VLAN_EXTEND K AND (RX_OFFLOAD_CHECKSUM K OR RX_OFFLOAD_VLAN_STRIP K
      OR RX_OFFLOAD_TIMESTAMP K OR RX_OFFLOAD_SCATTER K) = 0"
  shows "rxmode_offloads (port_conf_of K cfg di) AND NOT (di_rx_offload_capa di) = 0
    \<and> txmode_offloads (port_conf_of K cfg di) AND NOT (di_tx_offload_capa di) = 0
    \<and> rss_hf (conf_rss (port_conf_of K cfg di)) AND NOT (di_flow_type_rss_offloads di) = 0
    \<and> (cfg_enable_rss cfg = 0 \<longrightarrow> rss_key (conf_rss (port_conf_of K cfg di)) = None
          \<and> rss_hf (conf_rss (port_conf_of K cfg di)) = 0)
    \<and> (di_driver_name di \<in> {''net_ixgbe'', ''net_i40e'', ''net_e1000_igb''} \<longrightarrow>
          rxmode_offloads (port_conf_of K cfg di) AND RX_OFFLOAD_VLAN_EXTEND K = 0)"
proof -
  have disj: "(x AND y) AND NOT y = 0" for x y :: u64 by (simp add: and.assoc)
  have rx: "rxmode_offloads (port_conf_of K cfg di) = rx_offloads_of K cfg di"
    and tx: "txmode_offloads (port_conf_of K cfg di) = tx_offloads_of K cfg di"
    by (simp_all add: port_conf_of_def Let_def)
  have "rss_hf (conf_rss (port_conf_of K cfg di)) AND NOT (di_flow_type_rss_offloads di) = 0"
    by (simp add: port_conf_of_def Let_def rss_conf_of_def disj)
  moreover have "rx_offloads_of K cfg di AND NOT (di_rx_offload_capa di) = 0"
    "tx_offloads_of K cfg di AND NOT (di_tx_offload_capa di) = 0"
    unfolding rx_offloads_of_def tx_offloads_of_def Let_def by (rule disj)+
  moreover have "rx_offloads_of K cfg di AND RX_OFFLOAD_VLAN_EXTEND K = 0"
    if "di_driver_name di \<in> {''net_ixgbe'', ''net_i40e'', ''net_e1000_igb''}"
  proof -
    have e: "RX_OFFLOAD_VLAN_EXTEND K AND RX_OFFLOAD_CHECKSUM K = 0"
      "RX_OFFLOAD_VLAN_EXTEND K AND RX_OFFLOAD_VLAN_STRIP K = 0"
      "RX_OFFLOAD_VLAN_EXTEND K AND RX_OFFLOAD_TIMESTAMP K = 0"
      "RX_OFFLOAD_VLAN_EXTEND K AND RX_OFFLOAD_SCATTER K = 0"
      using assms by (simp_all add: bit.conj_disj_distrib or_eq_0_iff)
    have "rx_offloads_of K cfg di AND RX_OFFLOAD_VLAN_EXTEND K
        = (RX_OFFLOAD_VLAN_EXTEND K AND (if cfg_disable_offloads cfg \<noteq> 0 then 0
            else RX_OFFLOAD_CHECKSUM K OR (if cfg_strip_vlan cfg \<noteq> 0 then RX_OFFLOAD_VLAN_STRIP K else 0)
                 OR RX_OFFLOAD_TIMESTAMP K)) AND di_rx_offload_capa di"
      using that by (auto simp: rx_offloads_of_def Let_def ac_simps)
    then show ?thesis by (simp add: bit.conj_disj_distrib e)
  qed
  ultimately show ?thesis by (simp add: rx tx) (simp add: port_conf_of_def Let_def)
qed


theorem configure_within_capabilities_witness:
  "rxmode_offloads (port_conf_of test_consts test_cfg (test_info ''net_i40e''))
      AND NOT (di_rx_offload_capa (test_info ''net_i40e'')) = 0
    \<and> rxmode_offloads (port_conf_of test_consts test_cfg (test_info ''net_i40e''))
        AND RX_OFFLOAD_VLAN_EXTEND test_consts = 0"
  using configure_within_capabilities [of test_consts test_cfg "test_info ''net_i40e''"]
  by (simp add: test_consts_def test_info_def)

text \<open>C12: The symmetric RSS key does what it is there for: packets of the two directions of a connection, IPv4
  or IPv6, get the same Toeplitz hash and so the same receive queue.\<close>
theorem symm_rss_symmetric:
  assumes "length src = length dst" and "even (length src)" and "length src \<le> 16"
    and "length sport = 2" and "length dport = 2"
  shows "toeplitz (bits_of symm_rss_hash_key) (bits_of (src @ dst @ sport @ dport))
    = toeplitz (bits_of symm_rss_hash_key) (bits_of (dst @ src @ dport @ sport))"
proof -
  let ?w = "\<lambda>a b c d. words16 (a @ b @ c @ d)"
  have c: "concat (?w src dst sport dport) = bits_of (src @ dst @ sport @ dport)"
    "concat (?w dst src dport sport) = bits_of (dst @ src @ dport @ sport)"
    using assms by (simp_all add: words16_concat)
  have "mset (?w src dst sport dport) = mset (?w dst src dport sport)"
    using assms by (simp add: words16_append)
  moreover have "length (?w src dst sport dport) \<le> 18" using assms by (simp add: words16_length)
  ultimately show ?thesis
    using toeplitz_permute [of "?w src dst sport dport" "?w dst src dport sport"] words16_elem by (auto simp: c)
qed

theorem symm_rss_symmetric_witness:
  "toeplitz (bits_of symm_rss_hash_key) (bits_of ([10, 0, 0, 1] @ [192, 168, 1, 7] @ [0, 80] @ [0xC0, 0x01]))
    = toeplitz (bits_of symm_rss_hash_key) (bits_of ([192, 168, 1, 7] @ [10, 0, 0, 1] @ [0xC0, 0x01] @ [0, 80]))"
  by (rule symm_rss_symmetric) simp_all

lemma unat_byte_at: "k \<le> 56 \<Longrightarrow> unat (push_bit k (ucast (b :: u8)) :: u64) = unat b * 2 ^ k"
proof -
  assume k: "k \<le> 56"
  have "unat b * 2 ^ k < 256 * 2 ^ k" using unat_bound_u8 [of b] by simp
  also have "\<dots> \<le> 256 * 2 ^ 56" using k by (intro mult_left_mono power_increasing) simp_all
  finally have "unat b * 2 ^ k < 2 ^ 64" by simp
  moreover have "unat (ucast b :: u64) = unat b" using unat_bound_u8 [of b] by (simp add: unat_ucast_mod)
  ultimately show ?thesis by (simp add: unat_push_bit)
qed

text \<open>Adding a byte above the bits already set.\<close>

lemma unat_or_byte:
  assumes "unat (a :: u64) < 2 ^ k" and "k \<le> 56"
  shows "unat (a OR push_bit k (ucast (b :: u8))) = unat a + unat b * 2 ^ k"
    and "unat (a OR push_bit k (ucast (b :: u8))) < 2 ^ (k + 8)"
proof -
  have p: "unat (push_bit k (ucast b) :: u64) = unat b * 2 ^ k" by (rule unat_byte_at [OF assms(2)])
  show e: "unat (a OR push_bit k (ucast b)) = unat a + unat b * 2 ^ k"
    using unat_or_disjoint [of "push_bit k (ucast b)" k a] assms(1) p by (simp add: or.commute)
  have "unat a + unat b * 2 ^ k < (1 + unat b) * 2 ^ k" using assms(1) by simp
  also have "\<dots> \<le> 256 * 2 ^ k" using unat_bound_u8 [of b] by (intro mult_right_mono) simp_all
  finally show "unat (a OR push_bit k (ucast b)) < 2 ^ (k + 8)" using e by (simp add: power_add)
qed

lemma mac_number_value:
  "unat (mac_number a) = unat (a ! 0) + unat (a ! 1) * 2 ^ 8 + unat (a ! 2) * 2 ^ 16 + unat (a ! 3) * 2 ^ 24
     + unat (a ! 4) * 2 ^ 32 + unat (a ! 5) * 2 ^ 40"
proof -
  have a0: "unat (ucast (a ! 0) :: u64) = unat (a ! 0)" using unat_bound_u8 [of "a ! 0"] by (simp add: unat_ucast_mod)
  then have b0: "unat (ucast (a ! 0) :: u64) < 2 ^ 8" using unat_bound_u8 [of "a ! 0"] by simp
  note s1 = unat_or_byte [OF b0, of "a ! 1"]
  note s2 = unat_or_byte [OF s1(2), of "a ! 2"]
  note s3 = unat_or_byte [OF s2(2), of "a ! 3"]
  note s4 = unat_or_byte [OF s3(2), of "a ! 4"]
  note s5 = unat_or_byte [OF s4(2), of "a ! 5"]
  show ?thesis unfolding mac_number_def using s1 s2 s3 s4 s5 a0 by (simp add: or.assoc del: push_bit_numeral)
qed

text \<open>The number \<^verbatim>\<open>dpdk_get_mac_addr\<close> returns holds byte \<open>i\<close> of the address in its bits \<open>8 i\<close> to \<open>8 i + 7\<close> and
  nothing else, so different addresses give different numbers; the printed form has 17 characters.\<close>
theorem mac_addr_encodes:
  assumes "length (macaddr port) = 6" and "i < 6"
  shows "unat (fst (dpdk_get_mac_addr macaddr port with_buf)) div 2 ^ (8 * i) mod 256 = unat (macaddr port ! i)
    \<and> unat (fst (dpdk_get_mac_addr macaddr port with_buf)) < 2 ^ 48
    \<and> length (the (snd (dpdk_get_mac_addr macaddr port True))) = 17"
proof -
  let ?a = "macaddr port"
  note v = mac_number_value [of ?a]
  have l: "length (mac_string ?a) = 17" by (simp add: mac_string_def fmt_02X_def)
  have "?a = [?a ! 0, ?a ! 1, ?a ! 2, ?a ! 3, ?a ! 4, ?a ! 5]"
    using assms(1) by (intro nth_equalityI) (simp_all add: less_Suc_eq numeral_eq_Suc, auto)
  then have "le_nat ?a = le_nat [?a ! 0, ?a ! 1, ?a ! 2, ?a ! 3, ?a ! 4, ?a ! 5]" by (rule arg_cong)
  then have n: "unat (mac_number ?a) = le_nat ?a" unfolding v by simp
  have "unat (mac_number ?a) div 256 ^ i mod 256 = unat (?a ! i)"
    unfolding n using assms by (intro le_nat_digit) simp
  moreover have "(256 :: nat) ^ i = 2 ^ (8 * i)" by (simp add: power_mult)
  moreover have "unat (mac_number ?a) < 2 ^ 48" unfolding n using le_nat_bound [of ?a] assms(1) by simp
  ultimately show ?thesis using l by (simp add: dpdk_get_mac_addr_def)
qed

theorem mac_addr_encodes_witness:
  "unat (fst (dpdk_get_mac_addr (\<lambda>_. [0x02, 0x1B, 0x21, 0xAA, 0xBB, 0xCC]) 0 True)) div 2 ^ (8 * 2) mod 256
      = unat ([0x02, 0x1B, 0x21, 0xAA, 0xBB, 0xCC :: u8] ! 2)
    \<and> unat (fst (dpdk_get_mac_addr (\<lambda>_. [0x02, 0x1B, 0x21, 0xAA, 0xBB, 0xCC]) 0 True)) < 2 ^ 48
    \<and> length (the (snd (dpdk_get_mac_addr (\<lambda>_. [0x02, 0x1B, 0x21, 0xAA, 0xBB, 0xCC]) 0 True))) = 17"
  by (rule mac_addr_encodes) simp_all

end
