(* ===== verification/Timestamping.thy ===== *)
theory Timestamping
  imports Device "HOL-Library.Signed_Division"
begin

text \<open>
  \<^verbatim>\<open>src/src/timestamping.c\<close>, \<^verbatim>\<open>timestamping.h\<close> and \<^verbatim>\<open>timestamping_{i40e,igb,ixgbe}.c\<close>: synchronising the
  clocks of two ports, the timestamp field of packet buffers and the reset of the drivers' time counters.
  Register accesses go through theory \<open>Device\<close>; \<open>None\<close> is an access outside the mapped registers.
\<close>

section \<open>Clock synchronisation\<close>

text \<open>\<^verbatim>\<open>delta_t\<close> is an \<^verbatim>\<open>int32_t\<close>, the sum with the \<^verbatim>\<open>uint32_t\<close> readings is computed modulo 2^32.\<close>

definition clock_delta :: "u32 \<Rightarrow> u32 \<Rightarrow> u32 \<Rightarrow> u32 \<Rightarrow> u32" where
  "clock_delta x1 x2 y1 y2 = word_of_int \<bar>(uint x1 - uint x2 - (uint y2 - uint y1)) sdiv 2\<bar>"

definition clock_offset :: "u32 \<Rightarrow> u32 \<Rightarrow> u32 \<Rightarrow> u32 \<Rightarrow> u32" where
  "clock_offset x1 x2 y1 y2 = clock_delta x1 x2 y1 y2 + x1 - x2"

fun offsets_loop :: "'h mmio \<Rightarrow> u64 \<Rightarrow> u64 \<Rightarrow> nat \<Rightarrow> 'h \<Rightarrow> u32 list \<times> 'h" where
  "offsets_loop m port1time port2time 0 h = ([], h)"
| "offsets_loop m port1time port2time (Suc n) h =
     (let (x1, h) = mmio_read32 m h port1time;
          (x2, h) = mmio_read32 m h port2time;
          (y1, h) = mmio_read32 m h port2time;
          (y2, h) = mmio_read32 m h port1time;
          (offs, h) = offsets_loop m port1time port2time n h
      in (clock_offset x1 x2 y1 y2 # offs, h))"

definition num_runs :: nat where "num_runs = 7"

text \<open>\<^verbatim>\<open>qsort\<close> with \<^verbatim>\<open>cmp\<close>, a total order on \<^verbatim>\<open>int32_t\<close>, sorts by the signed value.\<close>

definition median_offset :: "u32 list \<Rightarrow> u32" where
  "median_offset offsets = sort_key sint offsets ! (num_runs div 2)"

fun write_regs :: "'h mmio \<Rightarrow> u64 list \<Rightarrow> (nat \<times> u32 \<times> u32) list \<Rightarrow> 'h \<Rightarrow> 'h option" where
  "write_regs m registers [] h = Some h"
| "write_regs m registers ((port, reg, val) # ws) h =
     (case write_reg32 m registers h port reg val of None \<Rightarrow> None | Some h' \<Rightarrow> write_regs m registers ws h')"

definition reset_clocks :: "'h mmio \<Rightarrow> u64 list \<Rightarrow> u8 \<Rightarrow> u8 \<Rightarrow> u32 \<Rightarrow> u32 \<Rightarrow> 'h \<Rightarrow> 'h option" where
  "reset_clocks m registers port1 port2 timl timh h =
     write_regs m registers
       [(unat port1, timl, 0), (unat port2, timl, 0), (unat port1, timh, 0), (unat port2, timh, 0)] h"

definition libmoon_sync_clocks :: "'h mmio \<Rightarrow> u64 list \<Rightarrow> 'h \<Rightarrow> u8 \<Rightarrow> u8 \<Rightarrow> u32 \<Rightarrow> u32 \<Rightarrow> u32 \<Rightarrow> u32 \<Rightarrow> 'h option" where
  "libmoon_sync_clocks m registers h port1 port2 timl timh adjl adjh =
     (case reset_clocks m registers port1 port2 timl timh h of None \<Rightarrow> None
      | Some h \<Rightarrow>
     if port1 = port2 then Some h
     else case (reg_target registers (unat port1) timl, reg_target registers (unat port2) timl) of
       (Some port1time, Some port2time) \<Rightarrow>
         (let h = mmio_write32 m h port1time 0;
              h = mmio_write32 m h port2time 0;
              (offsets, h) = offsets_loop m port1time port2time num_runs h;
              offs = median_offset offsets
          in if offs \<noteq> 0
             then write_regs m registers
                    [(unat port2, adjl, if sint offs < 0 then - offs else offs),
                     (unat port2, adjh, if sint offs < 0 then push_bit 31 1 else 0)] h
             else Some h)
     | _ \<Rightarrow> None)"

section \<open>Timestamps in packet buffers\<close>

text \<open>
  The dynamic field lies at \<^verbatim>\<open>timestamp_field_offset\<close> bytes from the start of the mbuf, here the byte list
  \<open>m\<close>. A negative offset, left behind when the registration fails, is outside the object.
\<close>

definition get_timestamp_dynfield :: "int \<Rightarrow> u8 list \<Rightarrow> u64 option" where
  "get_timestamp_dynfield timestamp_field_offset m =
     (if timestamp_field_offset < 0 then None
      else map_option word_of_nat (load_le 8 m (nat timestamp_field_offset)))"

definition set_timestamp_dynfield :: "int \<Rightarrow> u8 list \<Rightarrow> u64 \<Rightarrow> u8 list option" where
  "set_timestamp_dynfield timestamp_field_offset m timestamp =
     (if timestamp_field_offset < 0 then None
      else store_le 8 m (nat timestamp_field_offset) (unat timestamp))"

text \<open>
  The field is looked up by name; if it does not exist yet it is registered. The registration returns
  the new offset, or nothing when it fails; its return code is ignored.
\<close>

definition init_timestamp_dynfield_offset :: "int \<Rightarrow> int option \<Rightarrow> int" where
  "init_timestamp_dynfield_offset lookup register =
     (let timestamp_field_offset = lookup in
      if timestamp_field_offset < 0
      then (case register of Some off \<Rightarrow> off | None \<Rightarrow> timestamp_field_offset)
      else timestamp_field_offset)"

section \<open>Time counters\<close>

record 'x rte_timecounter =
  tc_cycle_last :: u64
  tc_nsec :: u64
  tc_nsec_frac :: u64
  tc_rest :: 'x

definition libmoon_reset_timecounter :: "'x rte_timecounter \<Rightarrow> 'x rte_timecounter" where
  "libmoon_reset_timecounter tc = tc\<lparr>tc_nsec := 0, tc_nsec_frac := 0, tc_cycle_last := 0\<rparr>"

text \<open>The three counters the i40e, igb and ixgbe adapters keep.\<close>

record 'x nic_adapter =
  systime_tc :: "'x rte_timecounter"
  rx_tstamp_tc :: "'x rte_timecounter"
  tx_tstamp_tc :: "'x rte_timecounter"

definition ENODEV :: int where "ENODEV = 19"

definition reset_adapter :: "'x nic_adapter \<Rightarrow> 'x nic_adapter" where
  "reset_adapter a = a\<lparr>systime_tc := libmoon_reset_timecounter (systime_tc a),
     rx_tstamp_tc := libmoon_reset_timecounter (rx_tstamp_tc a),
     tx_tstamp_tc := libmoon_reset_timecounter (tx_tstamp_tc a)\<rparr>"

definition libmoon_i40e_reset_timecounters :: "(u32 \<Rightarrow> bool) \<Rightarrow> (u32 \<Rightarrow> 'x nic_adapter) \<Rightarrow> u32
    \<Rightarrow> int \<times> (u32 \<Rightarrow> 'x nic_adapter)" where
  "libmoon_i40e_reset_timecounters valid_port adapters port_id =
     (if \<not> valid_port port_id then (- ENODEV, adapters)
      else (0, adapters(port_id := reset_adapter (adapters port_id))))"

definition libmoon_igb_reset_timecounters :: "(u32 \<Rightarrow> bool) \<Rightarrow> (u32 \<Rightarrow> 'x nic_adapter) \<Rightarrow> u32
    \<Rightarrow> int \<times> (u32 \<Rightarrow> 'x nic_adapter)" where
  "libmoon_igb_reset_timecounters valid_port adapters port_id =
     (if \<not> valid_port port_id then (- ENODEV, adapters)
      else (0, adapters(port_id := reset_adapter (adapters port_id))))"

definition libmoon_ixgbe_reset_timecounters :: "(u32 \<Rightarrow> bool) \<Rightarrow> (u32 \<Rightarrow> 'x nic_adapter) \<Rightarrow> u32
    \<Rightarrow> int \<times> (u32 \<Rightarrow> 'x nic_adapter)" where
  "libmoon_ixgbe_reset_timecounters valid_port adapters port_id =
     (if \<not> valid_port port_id then (- ENODEV, adapters)
      else (0, adapters(port_id := reset_adapter (adapters port_id))))"

section \<open>Measured offsets\<close>

text \<open>
  Two clocks that run at the same speed, read at equal intervals \<open>r\<close>: an access returns the clock of its
  port and advances both by \<open>r\<close>.
\<close>

definition regular_clocks :: "'h mmio \<Rightarrow> u64 \<Rightarrow> u64 \<Rightarrow> ('h \<Rightarrow> nat) \<Rightarrow> ('h \<Rightarrow> nat) \<Rightarrow> nat \<Rightarrow> bool" where
  "regular_clocks m a1 a2 c1 c2 r \<longleftrightarrow>
     (\<forall>h x h'. mmio_read32 m h a1 = (x, h') \<longrightarrow> x = word_of_nat (c1 h) \<and> c1 h' = c1 h + r \<and> c2 h' = c2 h + r)
     \<and> (\<forall>h x h'. mmio_read32 m h a2 = (x, h') \<longrightarrow> x = word_of_nat (c2 h) \<and> c1 h' = c1 h + r \<and> c2 h' = c2 h + r)"

lemma clock_offset_exact:
  assumes "a < 2147483648" and "b < 2147483648" and "a + 3 * r < 2147483648" and "b + 2 * r < 2147483648"
  shows "clock_offset (word_of_nat a) (word_of_nat (b + r)) (word_of_nat (b + 2 * r)) (word_of_nat (a + 3 * r))
    = word_of_int (int a - int b)"
proof -
  have u: "uint (word_of_nat n :: u32) = int n" if "n < 2147483648" for n
    using that by (simp add: unsigned_of_nat take_bit_nat_eq_self)
  have "int a - (int b + int r) - ((int a + 3 * int r) - (int b + 2 * int r)) = - (2 * int r)" by simp
  then have "clock_delta (word_of_nat a) (word_of_nat (b + r)) (word_of_nat (b + 2 * r)) (word_of_nat (a + 3 * r))
      = word_of_int \<bar>(- (2 * int r)) sdiv 2\<bar>"
    using assms unfolding clock_delta_def by (simp only: u) (simp add: u)
  also have "\<bar>(- (2 * int r)) sdiv 2\<bar> = int r" by (simp add: signed_divide_int_def sgn_if)
  finally show ?thesis by (simp add: clock_offset_def)
qed

lemma regular_read:
  assumes "regular_clocks m a1 a2 c1 c2 r"
  shows "mmio_read32 m h a1 = (x, h') \<Longrightarrow> x = word_of_nat (c1 h) \<and> c1 h' = c1 h + r \<and> c2 h' = c2 h + r"
    and "mmio_read32 m h a2 = (x, h') \<Longrightarrow> x = word_of_nat (c2 h) \<and> c1 h' = c1 h + r \<and> c2 h' = c2 h + r"
  using assms unfolding regular_clocks_def by blast+

lemma offsets_loop_regular:
  assumes laws: "regular_clocks m a1 a2 c1 c2 r"
  shows "c1 h + 4 * n * r < 2147483648 \<Longrightarrow> c2 h + 4 * n * r < 2147483648 \<Longrightarrow>
    fst (offsets_loop m a1 a2 n h) = replicate n (word_of_int (int (c1 h) - int (c2 h)))"
proof (induction n arbitrary: h)
  case (Suc n)
  obtain x1 h1 where r1: "mmio_read32 m h a1 = (x1, h1)" by fastforce
  obtain x2 h2 where r2: "mmio_read32 m h1 a2 = (x2, h2)" by fastforce
  obtain y1 h3 where r3: "mmio_read32 m h2 a2 = (y1, h3)" by fastforce
  obtain y2 h4 where r4: "mmio_read32 m h3 a1 = (y2, h4)" by fastforce
  note s = regular_read(1) [OF laws r1] regular_read(2) [OF laws r2] regular_read(2) [OF laws r3] regular_read(1) [OF laws r4]
  then have v: "x1 = word_of_nat (c1 h)" "x2 = word_of_nat (c2 h + r)" "y1 = word_of_nat (c2 h + 2 * r)"
      "y2 = word_of_nat (c1 h + 3 * r)" "c1 h4 = c1 h + 4 * r" "c2 h4 = c2 h + 4 * r"
    by (simp_all only: mult_2 numeral_Bit0 numeral_Bit1 mult_1 distrib_right add.assoc) (simp_all add: algebra_simps)
  have b: "c1 h + 4 * r + 4 * n * r < 2147483648" "c2 h + 4 * r + 4 * n * r < 2147483648"
    using Suc.prems by (simp_all add: algebra_simps)
  then have o: "clock_offset x1 x2 y1 y2 = word_of_int (int (c1 h) - int (c2 h))"
    unfolding v by (intro clock_offset_exact) simp_all
  have "fst (offsets_loop m a1 a2 n h4) = replicate n (word_of_int (int (c1 h4) - int (c2 h4)))"
    using b by (intro Suc.IH) (simp_all add: v)
  then show ?case by (cases "offsets_loop m a1 a2 n h4") (simp add: r1 r2 r3 r4 o v(5,6))
qed simp

text \<open>The median of seven measurements is the value that at least four of them agree on.\<close>

lemma sorted_majority:
  fixes ys :: "u32 list"
  assumes "sorted (map sint ys)" and "length ys = 7" and "4 \<le> length (filter (\<lambda>y. y = x) ys)"
  shows "ys ! 3 = x"
proof (rule ccontr)
  assume "ys ! 3 \<noteq> x"
  then have ne: "sint (ys ! 3) \<noteq> sint x" using signed_word_eqI [of "ys ! 3" x, where 'a = int] by metis
  have mono: "sint (ys ! i) \<le> sint (ys ! j)" if "i \<le> j" "j < 7" for i j
    using sorted_nth_mono [OF assms(1), of i j] that assms(2) by simp
  have c: "length (filter (\<lambda>y. y = x) ys) = card {i. i < 7 \<and> ys ! i = x}"
    using length_filter_conv_card [of "\<lambda>y. y = x" ys] assms(2) by simp
  show False
  proof (cases "sint (ys ! 3) < sint x")
    case True
    have "\<not> i \<le> 3" if "i < 7" "ys ! i = x" for i
    proof
      assume "i \<le> 3"
      with mono [of i 3] that True show False by simp
    qed
    then have "{i. i < 7 \<and> ys ! i = x} \<subseteq> {4..6}" by fastforce
    then have "card {i. i < 7 \<and> ys ! i = x} \<le> card {4..6 :: nat}" by (intro card_mono) simp_all
    with c assms(3) show False by simp
  next
    case False
    with ne have gt: "sint x < sint (ys ! 3)" by simp
    have "i < 3" if "i < 7" "ys ! i = x" for i
    proof (rule ccontr)
      assume "\<not> i < 3"
      with mono [of 3 i] that gt show False by simp
    qed
    then have "{i. i < 7 \<and> ys ! i = x} \<subseteq> {..<3}" by auto
    then have "card {i. i < 7 \<and> ys ! i = x} \<le> card {..<3 :: nat}" by (intro card_mono) simp_all
    with c assms(3) show False by simp
  qed
qed

lemma sign_bit_u32: "push_bit 31 (1 :: u32) = 2147483648"
  by code_simp

lemma median_majority:
  assumes "length offs = 7" and "4 \<le> length (filter (\<lambda>y. y = x) offs)"
  shows "median_offset offs = x"
proof -
  have "length (filter (\<lambda>y. y = x) (sort_key sint offs)) = length (filter (\<lambda>y. y = x) offs)"
    by (metis mset_filter mset_sort size_mset)
  then have "sort_key sint offs ! 3 = x"
    using assms by (intro sorted_majority) simp_all
  then show ?thesis by (simp add: median_offset_def num_runs_def)
qed


section \<open>Properties\<close>

text \<open>Synchronising two ports corrects the second clock by the median of seven measurements: whenever at
  least four measurements give the same offset, exactly its magnitude and sign are written to the adjust
  registers of port 2, and nothing is written for an offset of 0.\<close>
theorem sync_clocks_writes_majority:
  assumes "port1 \<noteq> port2" and "reset_clocks m registers port1 port2 timl timh h = Some h1"
    and "reg_target registers (unat port1) timl = Some a1" and "reg_target registers (unat port2) timl = Some a2"
    and "offsets_loop m a1 a2 7 (mmio_write32 m (mmio_write32 m h1 a1 0) a2 0) = (offs, h2)"
    and "length offs = 7" and "4 \<le> length (filter (\<lambda>y. y = x) offs)"
  shows "libmoon_sync_clocks m registers h port1 port2 timl timh adjl adjh =
    (if x = 0 then Some h2
     else write_regs m registers
       [(unat port2, adjl, word_of_int \<bar>sint x\<bar>), (unat port2, adjh, if sint x < 0 then 2147483648 else 0)] h2)"
proof -
  have med: "median_offset offs = x" by (rule median_majority [OF assms(6,7)])
  have abs: "(word_of_int \<bar>sint x\<bar> :: u32) = (if sint x < 0 then - x else x)" by simp
  show ?thesis
    unfolding abs libmoon_sync_clocks_def sign_bit_u32 using assms(1-5)
    by (simp add: num_runs_def med)
qed

text \<open>C35: With two clocks of equal speed, equally spaced register reads and clock values below \<open>2 ^ 31\<close> (the clocks are
  reset first) every measurement is exact: the
  read latency cancels out, and the second clock is corrected by precisely the difference of the clocks.\<close>
theorem sync_clocks_exact:
  assumes "regular_clocks m a1 a2 c1 c2 r" and "port1 \<noteq> port2"
    and "reset_clocks m registers port1 port2 timl timh h = Some h1"
    and "reg_target registers (unat port1) timl = Some a1" and "reg_target registers (unat port2) timl = Some a2"
    and "h0 = mmio_write32 m (mmio_write32 m h1 a1 0) a2 0"
    and "c1 h0 + 28 * r < 2147483648" and "c2 h0 + 28 * r < 2147483648"
    and "d = int (c1 h0) - int (c2 h0)"
  shows "libmoon_sync_clocks m registers h port1 port2 timl timh adjl adjh =
    (let h2 = snd (offsets_loop m a1 a2 7 h0) in
     if d = 0 then Some h2
     else write_regs m registers
       [(unat port2, adjl, word_of_int \<bar>d\<bar>), (unat port2, adjh, if d < 0 then 2147483648 else 0)] h2)"
proof -
  obtain offs h2 where o: "offsets_loop m a1 a2 7 h0 = (offs, h2)" by fastforce
  have offs: "offs = replicate 7 (word_of_int d)"
    using offsets_loop_regular [OF assms(1), of h0 7] assms(7-9) o by simp
  have "sint (word_of_int d :: u32) = signed_take_bit 31 d"
    using signed_of_int [where 'a = int and 'b = 32, of d] by simp
  also have "\<dots> = d" using assms(7-9) by (intro signed_take_bit_int_eq_self) simp_all
  finally have sd: "sint (word_of_int d :: u32) = d" .
  then have z: "(word_of_int d :: u32) = 0 \<longleftrightarrow> d = 0" by (metis of_int_0 signed_0)
  have med: "median_offset offs = word_of_int d" using offs by (intro median_majority) simp_all
  have "(if d < 0 then - word_of_int d else word_of_int d :: u32) = word_of_int \<bar>d\<bar>" by simp
  then show ?thesis
    unfolding libmoon_sync_clocks_def sign_bit_u32 using assms(2-6) o sd
    by (simp add: num_runs_def med z)
qed

text \<open>A timestamp stored in a packet buffer is the timestamp read back, and the store changes no other
  byte of the buffer; initialising the field offset gives the registered offset, or a negative value when
  the registration fails.\<close>
theorem timestamp_roundtrip:
  assumes "set_timestamp_dynfield off m t = Some m'"
  shows "get_timestamp_dynfield off m' = Some t \<and> length m' = length m
    \<and> (\<forall>j. j < nat off \<or> nat off + 8 \<le> j \<longrightarrow> load_le 1 m' j = load_le 1 m j)"
proof -
  have off: "\<not> off < 0" and s: "store_le 8 m (nat off) (unat t) = Some m'"
    using assms by (simp_all add: set_timestamp_dynfield_def split: if_splits)
  have "unat t mod 256 ^ 8 = unat t" using unat_bound_u64 [of t] by simp
  then have "load_le 8 m' (nat off) = Some (unat t)" using load_store_le [OF s] by simp
  moreover have "load_le 1 m' j = load_le 1 m j" if "j < nat off \<or> nat off + 8 \<le> j" for j
    using load_store_le_other [OF s, of j 1] that by auto
  ultimately show ?thesis
    using off store_le_length [OF s] by (simp add: get_timestamp_dynfield_def)
qed

theorem timestamp_roundtrip_witness:
  "get_timestamp_dynfield 2 (replicate 2 9 @ le_bytes 8 1234567890123 @ replicate 2 9) = Some 1234567890123
    \<and> load_le 1 (replicate 2 9 @ le_bytes 8 1234567890123 @ replicate 2 9) 1 = load_le 1 (replicate 12 9) 1"
proof -
  have "set_timestamp_dynfield 2 (replicate 12 9) 1234567890123
      = Some (replicate 2 9 @ le_bytes 8 1234567890123 @ replicate 2 9)"
    by (simp add: set_timestamp_dynfield_def store_le_def)
  from timestamp_roundtrip [OF this] show ?thesis by simp
qed

text \<open>Two simulated clocks at the addresses 0x1000 and 0x2000 that advance by 5 with every access, and a log
  of the other writes.\<close>

definition sim_mmio :: "(nat \<times> nat \<times> (u64 \<times> u32) list) mmio" where
  "sim_mmio = \<lparr>
     mmio_read32 = (\<lambda>(c1, c2, log) a. (if a = 0x1000 then word_of_nat c1 else if a = 0x2000 then word_of_nat c2 else 0,
        (c1 + 5, c2 + 5, log))),
     mmio_write32 = (\<lambda>(c1, c2, log) a v. if a = 0x1000 then (unat v, c2 + 5, log)
        else if a = 0x2000 then (c1 + 5, unat v, log) else (c1, c2, log @ [(a, v)])),
     mmio_read64 = (\<lambda>h a. (0, h)), mmio_write64 = (\<lambda>h a v. h) \<rparr>"

lemma sim_regular: "regular_clocks sim_mmio 0x1000 0x2000 fst (\<lambda>h. fst (snd h)) 5"
  by (auto simp: regular_clocks_def sim_mmio_def)

lemma sim_targets: "reg_target [0x1000, 0x2000] (unat (0 :: u8)) 0 = Some 0x1000"
  "reg_target [0x1000, 0x2000] (unat (1 :: u8)) 0 = Some 0x2000"
  by (simp_all add: reg_target_def get_reg_addr_def)

lemma sim_reset: "reset_clocks sim_mmio [0x1000, 0x2000] 0 1 0 4 (100, 200, [])
    = Some (5, 0, [(0x1004, 0), (0x2004, 0)])"
  by (simp add: reset_clocks_def write_reg32_def reg_target_def get_reg_addr_def sim_mmio_def)

lemma sim_start: "mmio_write32 sim_mmio (mmio_write32 sim_mmio (5, 0, l) 0x1000 0) 0x2000 0 = (5, 0, l)"
  by (simp add: sim_mmio_def)

theorem sync_clocks_exact_witness:
  "libmoon_sync_clocks sim_mmio [0x1000, 0x2000] (100, 200, []) 0 1 0 4 8 12 =
    (let h2 = snd (offsets_loop sim_mmio 0x1000 0x2000 7 (5, 0, [(0x1004, 0), (0x2004, 0)])) in
     if (5 :: int) = 0 then Some h2
     else write_regs sim_mmio [0x1000, 0x2000]
       [(unat (1 :: u8), 8, word_of_int \<bar>5\<bar>), (unat (1 :: u8), 12, if (5 :: int) < 0 then 2147483648 else 0)] h2)"
  by (rule sync_clocks_exact [OF sim_regular _ sim_reset sim_targets sim_start [symmetric]]) simp_all

theorem sync_clocks_writes_majority_witness:
  "libmoon_sync_clocks sim_mmio [0x1000, 0x2000] (100, 200, []) 0 1 0 4 8 12 =
    (if (5 :: u32) = 0 then Some (snd (offsets_loop sim_mmio 0x1000 0x2000 7 (5, 0, [(0x1004, 0), (0x2004, 0)])))
     else write_regs sim_mmio [0x1000, 0x2000]
       [(unat (1 :: u8), 8, word_of_int \<bar>sint (5 :: u32)\<bar>),
        (unat (1 :: u8), 12, if sint (5 :: u32) < 0 then 2147483648 else 0)]
       (snd (offsets_loop sim_mmio 0x1000 0x2000 7 (5, 0, [(0x1004, 0), (0x2004, 0)]))))"
proof -
  let ?o = "offsets_loop sim_mmio 0x1000 0x2000 7 (5, 0, [(0x1004, 0), (0x2004, 0)])"
  have f: "fst ?o = replicate 7 5" using offsets_loop_regular [OF sim_regular, of "(5, 0, [(0x1004, 0), (0x2004, 0)])" 7] by simp
  have o: "offsets_loop sim_mmio 0x1000 0x2000 7 (mmio_write32 sim_mmio (mmio_write32 sim_mmio
      (5, 0, [(0x1004, 0), (0x2004, 0)]) 0x1000 0) 0x2000 0) = (fst ?o, snd ?o)"
    by (simp only: sim_start prod.collapse)
  show ?thesis
    by (rule sync_clocks_writes_majority [OF _ sim_reset sim_targets o]) (simp_all only: f, simp_all)
qed

end
