(* ===== verification/Ice.thy ===== *)
theory Ice
  imports RteRing
begin

text \<open>
  \<^verbatim>\<open>src/src/ice.c\<close> and \<^verbatim>\<open>src/src/i40e.c\<close>: clock and rate control of Intel E810 ports and the link status of
  XL710 ports. The driver's own functions and the register reads are parameters over the hardware state.
\<close>

section \<open>ice.c\<close>

record ice_ts_func_info =
  src_tmr_owned :: bool
  tmr_index_owned :: u8

datatype ice_ts_reg = GLTSYN_TIME_L u8 | GLTSYN_TIME_H u8

text \<open>
  The driver's functions return a status, 0 being success; \<open>ice_rd32\<close> is a register read. Messages go to
  the terminal and are returned as a list.
\<close>

record 'h ice_api =
  ice_rd32 :: "'h \<Rightarrow> ice_ts_reg \<Rightarrow> u32 \<times> 'h"
  ice_ptp_init_time :: "'h \<Rightarrow> u64 \<Rightarrow> int \<times> 'h"
  ice_cfg_q_bw_lmt :: "'h \<Rightarrow> u16 \<Rightarrow> u8 \<Rightarrow> u16 \<Rightarrow> u32 \<Rightarrow> int \<times> 'h"
  ice_cfg_vsi_bw_lmt_per_tc :: "'h \<Rightarrow> u16 \<Rightarrow> u8 \<Rightarrow> u32 \<Rightarrow> int \<times> 'h"

definition ice_take_timer_ownership :: "ice_ts_func_info \<Rightarrow> ice_ts_func_info" where
  "ice_take_timer_ownership info = info\<lparr>src_tmr_owned := True, tmr_index_owned := 0\<rparr>"

definition ice_reset_timer :: "'h ice_api \<Rightarrow> 'h \<Rightarrow> string list \<times> 'h" where
  "ice_reset_timer api h =
     (let (status, h') = ice_ptp_init_time api h 0
      in (if status \<noteq> 0 then [''Error while resetting PHY and Controller time registers!''] else [], h'))"

definition ice_set_q_bw_limit :: "'h ice_api \<Rightarrow> u16 \<Rightarrow> 'h \<Rightarrow> u32 \<Rightarrow> u32 \<Rightarrow> string list \<times> 'h" where
  "ice_set_q_bw_limit api main_vsi_idx h queue bw =
     (let (status, h') = ice_cfg_q_bw_lmt api h main_vsi_idx 0 (ucast queue) bw
      in (if status \<noteq> 0
          then [''Could not set max bandwidth limit for queue '' @ fmt_d queue @ ''!''] else [], h'))"

definition ice_set_bw_limit :: "'h ice_api \<Rightarrow> u16 \<Rightarrow> 'h \<Rightarrow> u32 \<Rightarrow> u32 \<Rightarrow> string list \<times> 'h" where
  "ice_set_bw_limit api main_vsi_idx h port bw =
     (let (status, h') = ice_cfg_vsi_bw_lmt_per_tc api h main_vsi_idx 0 bw
      in (if status \<noteq> 0
          then [''Could not set max bandwidth limit for port '' @ fmt_d port @ ''!''] else [], h'))"

definition ice_read_current_timer :: "'h ice_api \<Rightarrow> ice_ts_func_info \<Rightarrow> 'h \<Rightarrow> u64 \<times> 'h" where
  "ice_read_current_timer api info h =
     (let i = tmr_index_owned info;
          (timeL, h) = ice_rd32 api h (GLTSYN_TIME_L i);
          (timeH, h) = ice_rd32 api h (GLTSYN_TIME_H i);
          (timeL2, h) = ice_rd32 api h (GLTSYN_TIME_L i);
          (timeL, timeH, h) =
            (if timeL2 < timeL
             then let (timeL, h) = ice_rd32 api h (GLTSYN_TIME_L i);
                      (timeH, h) = ice_rd32 api h (GLTSYN_TIME_H i) in (timeL, timeH, h)
             else (timeL, timeH, h))
      in (push_bit 32 (ucast timeH) OR ucast timeL, h))"

section \<open>i40e.c\<close>

record i40e_link_status =
  i40e_link_info :: u8
  i40e_link_speed :: u32

record link_consts =
  I40E_AQ_LINK_UP :: u8
  I40E_LINK_SPEED_100MB :: u32
  I40E_LINK_SPEED_1GB :: u32
  I40E_LINK_SPEED_10GB :: u32
  I40E_LINK_SPEED_20GB :: u32
  I40E_LINK_SPEED_25GB :: u32
  I40E_LINK_SPEED_40GB :: u32
  RTE_ETH_SPEED_NUM_NONE :: u32
  RTE_ETH_SPEED_NUM_100M :: u32
  RTE_ETH_SPEED_NUM_1G :: u32
  RTE_ETH_SPEED_NUM_10G :: u32
  RTE_ETH_SPEED_NUM_20G :: u32
  RTE_ETH_SPEED_NUM_25G :: u32
  RTE_ETH_SPEED_NUM_40G :: u32
  RTE_ETH_SPEED_NUM_UNKNOWN :: u32
  RTE_ETH_LINK_SPEED_FIXED :: u32

text \<open>\<open>link_status\<close> is a one-bit field of \<^verbatim>\<open>struct rte_eth_link\<close>: the store keeps the lowest bit.\<close>

record rte_eth_link =
  link_speed :: u32
  link_full_duplex :: bool
  link_autoneg :: bool
  link_up :: bool

definition i40e_get_link_status_workaround :: "link_consts \<Rightarrow> i40e_link_status \<Rightarrow> u32 \<Rightarrow> rte_eth_link" where
  "i40e_get_link_status_workaround K st dev_conf_link_speeds =
     (let up = bit (i40e_link_info st AND I40E_AQ_LINK_UP K) 0;
          s = i40e_link_speed st
      in \<lparr> link_speed =
             (if s = I40E_LINK_SPEED_100MB K then RTE_ETH_SPEED_NUM_100M K
              else if s = I40E_LINK_SPEED_1GB K then RTE_ETH_SPEED_NUM_1G K
              else if s = I40E_LINK_SPEED_10GB K then RTE_ETH_SPEED_NUM_10G K
              else if s = I40E_LINK_SPEED_20GB K then RTE_ETH_SPEED_NUM_20G K
              else if s = I40E_LINK_SPEED_25GB K then RTE_ETH_SPEED_NUM_25G K
              else if s = I40E_LINK_SPEED_40GB K then RTE_ETH_SPEED_NUM_40G K
              else if up then RTE_ETH_SPEED_NUM_UNKNOWN K else RTE_ETH_SPEED_NUM_NONE K),
           link_full_duplex = True,
           link_autoneg = (dev_conf_link_speeds AND RTE_ETH_LINK_SPEED_FIXED K = 0),
           link_up = up \<rparr>)"

section \<open>Reading a 64-bit clock through 32-bit registers\<close>

text \<open>
  The hardware clock \<open>clk\<close> is a 64-bit counter that only moves forward; the registers show its halves at the
  moment of the access.
\<close>

definition ptp_clock :: "'h ice_api \<Rightarrow> u8 \<Rightarrow> ('h \<Rightarrow> nat) \<Rightarrow> bool" where
  "ptp_clock api i clk \<longleftrightarrow>
     (\<forall>h x h'. ice_rd32 api h (GLTSYN_TIME_L i) = (x, h') \<longrightarrow> unat x = clk h mod 4294967296 \<and> clk h \<le> clk h')
     \<and> (\<forall>h x h'. ice_rd32 api h (GLTSYN_TIME_H i) = (x, h') \<longrightarrow>
          unat x = clk h div 4294967296 mod 4294967296 \<and> clk h \<le> clk h')"

lemma unat_join32: "unat (push_bit 32 (ucast (a :: u32)) OR ucast (b :: u32) :: u64) = unat a * 4294967296 + unat b"
proof -
  have "unat (push_bit 32 (ucast a) :: u64) = unat a * 4294967296"
    using unat_bound_u32 [of a] by (simp add: unat_push_bit unat_ucast_mod)
  moreover have "unat (ucast b :: u64) = unat b" using unat_bound_u32 [of b] by (simp add: unat_ucast_mod)
  ultimately show ?thesis
    using unat_or_disjoint [of "push_bit 32 (ucast a :: u64)" 32 "ucast b"] unat_bound_u32 [of b] by simp
qed

text \<open>Within less than \<open>M\<close> ticks the low half decreases exactly when the high half has advanced by one.\<close>

lemma high_step:
  fixes s u M :: nat
  assumes "s \<le> u" and "u < s + M"
  shows "u div M = (if u mod M < s mod M then s div M + 1 else s div M)"
proof -
  have M: "0 < M" using assms by simp
  define a b c d where "a = s div M" "b = s mod M" "c = u div M" "d = u mod M"
  then have s: "s = a * M + b" "b < M" and u: "u = c * M + d" "d < M" using M by (simp_all add: mult.commute)
  have le: "a \<le> c" unfolding a_b_c_d_def using assms(1) by (intro div_le_mono)
  then obtain k where k: "c = a + k" by (metis le_Suc_ex)
  then have u': "u = a * M + k * M + d" using u(1) by (simp add: algebra_simps)
  have "k < 2"
  proof (rule ccontr)
    assume "\<not> k < 2"
    then have "2 * M \<le> k * M" by (intro mult_right_mono) simp_all
    with assms(2) s u' show False by linarith
  qed
  then consider "k = 0" | "k = 1" by linarith
  then have "c = (if d < b then a + 1 else a)"
  proof cases
    case 1
    with assms(1) s u' k show ?thesis by simp
  next
    case 2
    with assms(2) s u' k show ?thesis by simp
  qed
  then show ?thesis by (simp add: a_b_c_d_def)
qed

lemma high_between:
  fixes s t u M :: nat
  assumes "s \<le> t" and "t \<le> u" and "s div M = u div M"
  shows "t div M = s div M"
  using div_le_mono [OF assms(1), of M] div_le_mono [OF assms(2), of M] assms(3) by simp

lemma high_after:
  fixes s u v w M :: nat
  assumes "s \<le> u" "u \<le> v" "v \<le> w" "w < s + M" "u mod M < s mod M"
  shows "w div M = v div M"
proof -
  have "s div M < u div M" using high_step [of s u M] assms by simp
  moreover have "w div M \<le> s div M + 1" using high_step [of s w M] assms by simp
  moreover have "u div M \<le> v div M" "v div M \<le> w div M" using assms by (intro div_le_mono; simp)+
  ultimately show ?thesis by simp
qed

section \<open>Properties\<close>

text \<open>The 64-bit timer value assembled from 32-bit register reads is a value the clock really had during
  the call, even when the low half overflows between the reads, as long as the call takes less than 2^32
  ticks.\<close>
theorem read_current_timer_consistent:
  assumes "ptp_clock api (tmr_index_owned info) clk" and "ice_read_current_timer api info h = (t, h')"
    and "clk h' < clk h + 4294967296" and "clk h' < 18446744073709551616"
  shows "clk h \<le> unat t \<and> unat t \<le> clk h'"
proof -
  let ?i = "tmr_index_owned info" and ?M = "4294967296 :: nat"
  note L = assms(1) [unfolded ptp_clock_def, THEN conjunct1, rule_format]
    and H = assms(1) [unfolded ptp_clock_def, THEN conjunct2, rule_format]
  obtain l1 h1 where r1: "ice_rd32 api h (GLTSYN_TIME_L ?i) = (l1, h1)" by fastforce
  obtain u1 h2 where r2: "ice_rd32 api h1 (GLTSYN_TIME_H ?i) = (u1, h2)" by fastforce
  obtain l2 h3 where r3: "ice_rd32 api h2 (GLTSYN_TIME_L ?i) = (l2, h3)" by fastforce
  note f = L [OF r1] H [OF r2] L [OF r3]
  have val: "n div ?M * ?M + n mod ?M = n" for n by (rule div_mult_mod_eq)
  have high: "n div ?M mod ?M = n div ?M" if "n < 18446744073709551616" for n
    using that by (simp add: div_less_iff_less_mult)
  show ?thesis
  proof (cases "l2 < l1")
    case False
    then have t: "t = push_bit 32 (ucast u1) OR ucast l1" "h' = h3"
      using assms(2) by (simp_all add: ice_read_current_timer_def r1 r2 r3)
    have "\<not> clk h2 mod ?M < clk h mod ?M" using False f by (simp add: word_less_nat_alt)
    then have "clk h2 div ?M = clk h div ?M" using high_step [of "clk h" "clk h2" ?M] f assms(3) t(2) by simp
    then have "clk h1 div ?M = clk h div ?M" using high_between [of "clk h" "clk h1" "clk h2" ?M] f by simp
    then have "unat t = clk h div ?M * ?M + clk h mod ?M"
      using f high [of "clk h"] assms(4) t by (simp only: unat_join32) simp
    then show ?thesis using val f t(2) by (simp only:) simp
  next
    case True
    obtain l4 h4 where r4: "ice_rd32 api h3 (GLTSYN_TIME_L ?i) = (l4, h4)" by fastforce
    obtain u5 h5 where r5: "ice_rd32 api h4 (GLTSYN_TIME_H ?i) = (u5, h5)" by fastforce
    note g = f L [OF r4] H [OF r5]
    have t: "t = push_bit 32 (ucast u5) OR ucast l4" "h' = h5"
      using assms(2) True by (simp_all add: ice_read_current_timer_def r1 r2 r3 r4 r5)
    have "clk h2 mod ?M < clk h mod ?M" using True f by (simp add: word_less_nat_alt)
    then have "clk h4 div ?M = clk h3 div ?M"
      using high_after [of "clk h" "clk h2" "clk h3" "clk h4" ?M] g assms(3) t(2) by simp
    then have "unat t = clk h3 div ?M * ?M + clk h3 mod ?M"
      using g high [of "clk h3"] assms(4) t by (simp only: unat_join32) simp
    then show ?thesis using val g t(2) by (simp only:) simp
  qed
qed

text \<open>A clock whose low half overflows during the reads.\<close>

definition sim_ice :: "nat ice_api" where
  "sim_ice = \<lparr>
     ice_rd32 = (\<lambda>c r. (case r of GLTSYN_TIME_L i \<Rightarrow> word_of_nat (c mod 4294967296)
        | GLTSYN_TIME_H i \<Rightarrow> word_of_nat (c div 4294967296), c + 3)),
     ice_ptp_init_time = (\<lambda>c t. (0, unat t)), ice_cfg_q_bw_lmt = (\<lambda>c v tc q bw. (0, c)),
     ice_cfg_vsi_bw_lmt_per_tc = (\<lambda>c v tc bw. (0, c)) \<rparr>"

lemma sim_ptp: "ptp_clock sim_ice i id"
  by (auto simp: ptp_clock_def sim_ice_def unat_word_of_nat)

theorem read_current_timer_consistent_witness:
  "id 8589934590 \<le> unat (8589934599 :: u64) \<and> unat (8589934599 :: u64) \<le> id (8589934605 :: nat)"
proof (rule read_current_timer_consistent [OF sim_ptp])
  show "ice_read_current_timer sim_ice \<lparr> src_tmr_owned = True, tmr_index_owned = 0 \<rparr> 8589934590
      = (8589934599, 8589934605)"
    by (simp add: ice_read_current_timer_def sim_ice_def word_less_nat_alt)
qed simp_all

end
