(* ===== verification/TxSchedIce.thy ===== *)
theory TxSchedIce
  imports RteRing
begin

text \<open>
  \<^verbatim>\<open>src/src/tx_scheduler_ice.c\<close>: switching nodes of the E810 transmit scheduler between rate limits in bits
  and in packets per second. Scheduler nodes live in a store indexed by their address, so that parents,
  siblings and the tables of the port refer to them the way the C structures do. The admin queue and the
  lookup functions of the driver are parameters.
\<close>

section \<open>Model\<close>

record 'x txsched_data =
  elem_type :: u8
  valid_sections :: u8
  generic :: u8
  elem_flags :: u8
  elem_rest :: 'x

record 'x txsched_elem =
  parent_teid :: u32
  node_teid :: u32
  elem_data :: "'x txsched_data"

record 'x ice_sched_node =
  node_info :: "'x txsched_elem"
  node_agg_id :: u32
  node_sibling :: "nat option"
  node_parent :: "nat option"
  node_tc_num :: u8

type_synonym 'x node_store = "nat \<Rightarrow> 'x ice_sched_node"

record ice_sched_hw =
  num_tx_sched_layers :: u8
  sw_entry_point_layer :: u8

text \<open>\<open>pi_hw\<close> is the back pointer to the hardware structure, \<open>None\<close> for NULL.\<close>

record ice_port_info =
  pi_hw :: "ice_sched_hw option"
  sib_head :: "nat \<Rightarrow> nat \<Rightarrow> nat option"
  pi_root :: nat

record aq_desc =
  aq_opcode :: u16
  aq_flags :: u16
  aq_num_elem_req :: u16

record ice_sched_consts =
  ICE_AQ_FLAG_RD :: u16
  ice_aqc_opc_cfg_sched_elems :: u16
  ICE_AQC_ELEM_TYPE_TC :: u8
  ICE_AQC_ELEM_TYPE_LEAF :: u8
  ICE_AQC_ELEM_VALID_CIR :: u8
  ICE_AQC_ELEM_GENERIC_MODE_M :: u8
  ICE_AGG_LAYER_OFFSET :: u8
  ICE_ERR_CFG :: int
  ICE_ERR_PARAM :: int

text \<open>
  \<open>aq_send\<close> sends a descriptor with its buffer and answers with a status and the number of elements in
  the response. \<open>vsi_node\<close> and the node lookups are the driver's; a VSI that is not valid or has no
  context is \<open>None\<close>.
\<close>

record ('h, 'x) sched_api =
  dflt_desc :: "u16 \<Rightarrow> aq_desc"
  aq_send :: "'h \<Rightarrow> aq_desc \<Rightarrow> 'x txsched_elem \<Rightarrow> int \<times> u16 \<times> 'h"
  vsi_valid :: "u16 \<Rightarrow> bool"
  vsi_nodes :: "u16 \<Rightarrow> (u8 \<Rightarrow> nat option) option"
  get_tc_node :: "u8 \<Rightarrow> nat option"
  get_node :: "u32 \<Rightarrow> nat option"
  lan_q_teid :: "u16 \<Rightarrow> u8 \<Rightarrow> u16 \<Rightarrow> u32 option"
  find_node_by_teid :: "nat \<Rightarrow> u32 \<Rightarrow> nat option"

definition ice_aqc_send_sched_elem_cmd :: "('h, 'x) sched_api \<Rightarrow> ice_sched_consts \<Rightarrow> 'h \<Rightarrow> u16 \<Rightarrow> u16
    \<Rightarrow> 'x txsched_elem \<Rightarrow> u16 \<Rightarrow> int \<times> u16 \<times> 'h" where
  "ice_aqc_send_sched_elem_cmd api K h cmd_opc elems_req buf elems_resp =
     (let desc = (dflt_desc api cmd_opc)\<lparr>aq_num_elem_req := elems_req\<rparr>;
          desc = desc\<lparr>aq_flags := aq_flags desc OR ICE_AQ_FLAG_RD K\<rparr>;
          (status, num_elem_resp, h') = aq_send api h desc buf
      in (status, if status = 0 then num_elem_resp else elems_resp, h'))"

definition ice_aq_cfg_sched_elems :: "('h, 'x) sched_api \<Rightarrow> ice_sched_consts \<Rightarrow> 'h \<Rightarrow> u16
    \<Rightarrow> 'x txsched_elem \<Rightarrow> u16 \<Rightarrow> int \<times> u16 \<times> 'h" where
  "ice_aq_cfg_sched_elems api K h elems_req buf elems_cfgd =
     ice_aqc_send_sched_elem_cmd api K h (ice_aqc_opc_cfg_sched_elems K) elems_req buf elems_cfgd"

definition ice_sched_update_elem :: "('h, 'x) sched_api \<Rightarrow> ice_sched_consts \<Rightarrow> 'h \<Rightarrow> 'x node_store \<Rightarrow> nat
    \<Rightarrow> 'x txsched_elem \<Rightarrow> int \<times> 'x node_store \<times> 'h" where
  "ice_sched_update_elem api K h nodes node info =
     (let buf = info;
          buf = (if elem_type (elem_data (node_info (nodes node))) = ICE_AQC_ELEM_TYPE_TC K
                 then buf\<lparr>elem_data := (elem_data buf)\<lparr>valid_sections :=
                        valid_sections (elem_data buf) AND NOT (ICE_AQC_ELEM_VALID_CIR K)\<rparr>\<rparr>
                 else buf);
          buf = buf\<lparr>parent_teid := 0\<rparr>;
          buf = buf\<lparr>elem_data := (elem_data buf)\<lparr>elem_type := 0\<rparr>\<rparr>;
          buf = buf\<lparr>elem_data := (elem_data buf)\<lparr>elem_flags := 0\<rparr>\<rparr>;
          (status, elem_cfgd, h') = ice_aq_cfg_sched_elems api K h 1 buf 0
      in if status \<noteq> 0 \<or> elem_cfgd \<noteq> 1 then (ICE_ERR_CFG K, nodes, h')
         else (status, nodes(node := (nodes node)\<lparr>node_info := (node_info (nodes node))\<lparr>elem_data := elem_data info\<rparr>\<rparr>), h'))"

definition ice_sched_get_first_node :: "ice_port_info \<Rightarrow> 'x node_store \<Rightarrow> nat \<Rightarrow> u8 \<Rightarrow> nat option" where
  "ice_sched_get_first_node pi nodes parent layer = sib_head pi (unat (node_tc_num (nodes parent))) (unat layer)"

definition ice_sched_get_agg_layer :: "ice_sched_consts \<Rightarrow> ice_sched_hw \<Rightarrow> u8" where
  "ice_sched_get_agg_layer K hw =
     (if unat (ICE_AGG_LAYER_OFFSET K) + 1 < unat (num_tx_sched_layers hw)
      then let layer = num_tx_sched_layers hw - ICE_AGG_LAYER_OFFSET K
           in if sw_entry_point_layer hw < layer then layer else sw_entry_point_layer hw
      else sw_entry_point_layer hw)"

text \<open>The walk along the sibling pointers, with fuel: \<open>None\<close> is a walk that has not ended.\<close>

fun agg_walk :: "nat \<Rightarrow> 'x node_store \<Rightarrow> u32 \<Rightarrow> nat option \<Rightarrow> nat option option" where
  "agg_walk 0 nodes agg_id node = None"
| "agg_walk (Suc fuel) nodes agg_id node =
     (case node of None \<Rightarrow> Some None
      | Some p \<Rightarrow> if node_agg_id (nodes p) = agg_id then Some (Some p)
                  else agg_walk fuel nodes agg_id (node_sibling (nodes p)))"

definition ice_sched_get_agg_node :: "nat \<Rightarrow> ice_sched_consts \<Rightarrow> ice_port_info \<Rightarrow> 'x node_store \<Rightarrow> nat \<Rightarrow> u32
    \<Rightarrow> nat option option" where
  "ice_sched_get_agg_node fuel K pi nodes tc_node agg_id =
     (case pi_hw pi of None \<Rightarrow> Some None
      | Some hw \<Rightarrow> agg_walk fuel nodes agg_id
          (ice_sched_get_first_node pi nodes tc_node (ice_sched_get_agg_layer K hw)))"

datatype ice_agg_type = ICE_AGG_TYPE_VSI | ICE_AGG_TYPE_AGG | ICE_AGG_TYPE_Q | ICE_AGG_TYPE_QG | ICE_AGG_TYPE_OTHER

fun ice_sched_get_node_by_id_type :: "nat \<Rightarrow> ('h, 'x) sched_api \<Rightarrow> ice_sched_consts \<Rightarrow> ice_port_info
    \<Rightarrow> 'x node_store \<Rightarrow> u32 \<Rightarrow> ice_agg_type \<Rightarrow> u8 \<Rightarrow> nat option option" where
  "ice_sched_get_node_by_id_type fuel api K pi nodes ident ICE_AGG_TYPE_VSI tc =
     (let vsi_handle = ucast ident in
      Some (if \<not> vsi_valid api vsi_handle then None
            else case vsi_nodes api vsi_handle of None \<Rightarrow> None | Some vsi_node \<Rightarrow> vsi_node tc))"
| "ice_sched_get_node_by_id_type fuel api K pi nodes ident ICE_AGG_TYPE_AGG tc =
     (case get_tc_node api tc of None \<Rightarrow> Some None
      | Some tc_node \<Rightarrow> ice_sched_get_agg_node fuel K pi nodes tc_node ident)"
| "ice_sched_get_node_by_id_type fuel api K pi nodes ident ICE_AGG_TYPE_Q tc = Some (get_node api ident)"
| "ice_sched_get_node_by_id_type fuel api K pi nodes ident ICE_AGG_TYPE_QG tc =
     Some (case get_node api ident of None \<Rightarrow> None | Some child \<Rightarrow> node_parent (nodes child))"
| "ice_sched_get_node_by_id_type fuel api K pi nodes ident ICE_AGG_TYPE_OTHER tc = Some None"

text \<open>The state the two entry points change: node store, hardware, scheduler lock, terminal.\<close>

record ('h, 'x) sched_state =
  ss_nodes :: "'x node_store"
  ss_hw :: 'h
  ss_locked :: bool
  ss_out :: "string list"

definition ice_acquire_lock :: "('h, 'x) sched_state \<Rightarrow> ('h, 'x) sched_state" where
  "ice_acquire_lock s = s\<lparr>ss_locked := True\<rparr>"

definition ice_release_lock :: "('h, 'x) sched_state \<Rightarrow> ('h, 'x) sched_state" where
  "ice_release_lock s = s\<lparr>ss_locked := False\<rparr>"

definition set_mode :: "ice_sched_consts \<Rightarrow> bool \<Rightarrow> 'x txsched_elem \<Rightarrow> 'x txsched_elem" where
  "set_mode K pps buf = buf\<lparr>elem_data := (elem_data buf)\<lparr>generic :=
     (if pps then generic (elem_data buf) OR ICE_AQC_ELEM_GENERIC_MODE_M K
      else generic (elem_data buf) AND NOT (ICE_AQC_ELEM_GENERIC_MODE_M K))\<rparr>\<rparr>"

definition update_node :: "('h, 'x) sched_api \<Rightarrow> ice_sched_consts \<Rightarrow> ('h, 'x) sched_state \<Rightarrow> nat
    \<Rightarrow> 'x txsched_elem \<Rightarrow> int \<times> ('h, 'x) sched_state" where
  "update_node api K s node buf =
     (let (status, nodes', h') = ice_sched_update_elem api K (ss_hw s) (ss_nodes s) node buf
      in (status, s\<lparr>ss_nodes := nodes', ss_hw := h'\<rparr>))"

definition say :: "string \<Rightarrow> ('h, 'x) sched_state \<Rightarrow> ('h, 'x) sched_state" where
  "say msg s = s\<lparr>ss_out := ss_out s @ [msg]\<rparr>"

definition port_msg :: "u32 \<Rightarrow> string" where
  "port_msg port = ''ice: could not set PPS scheduling on device '' @ fmt_d port @ ''!'' @ [CHR 0x0A]"

definition queue_msg :: "u32 \<Rightarrow> u32 \<Rightarrow> string" where
  "queue_msg port queue = ''ice: could not set PPS scheduling on device '' @ fmt_d port @ '' for queue '' @ fmt_d queue @ ''!''
     @ [CHR 0x0A]"

text \<open>
  The outer result is \<open>None\<close> when a NULL pointer is dereferenced. \<open>pi\<close> is \<^verbatim>\<open>hw->port_info\<close>; the hardware
  structure it points back to is dereferenced by the driver functions called.
\<close>

definition ice_tx_sched_set_pps_port :: "('h, 'x) sched_api \<Rightarrow> ice_sched_consts \<Rightarrow> ice_port_info option \<Rightarrow> u16
    \<Rightarrow> u32 \<Rightarrow> bool \<Rightarrow> ('h, 'x) sched_state \<Rightarrow> ('h, 'x) sched_state option" where
  "ice_tx_sched_set_pps_port api K pi main_vsi_idx port pps s =
     (case pi of None \<Rightarrow> Some (say (port_msg port) s)
      | Some pi \<Rightarrow>
     (let s = ice_acquire_lock s in
      case ice_sched_get_node_by_id_type 0 api K pi (ss_nodes s) (ucast main_vsi_idx) ICE_AGG_TYPE_VSI 0 of
        None \<Rightarrow> None
      | Some found \<Rightarrow>
          (let (status, s) = (case found of None \<Rightarrow> (ICE_ERR_PARAM K, s)
                 | Some node \<Rightarrow> update_node api K s node (set_mode K pps (node_info (ss_nodes s node))));
               s = ice_release_lock s
           in Some (if status \<noteq> 0 then say (port_msg port) s else s))))"

definition ice_tx_sched_set_pps_queue :: "('h, 'x) sched_api \<Rightarrow> ice_sched_consts \<Rightarrow> ice_port_info option \<Rightarrow> u16
    \<Rightarrow> u32 \<Rightarrow> u32 \<Rightarrow> bool \<Rightarrow> ('h, 'x) sched_state \<Rightarrow> ('h, 'x) sched_state option" where
  "ice_tx_sched_set_pps_queue api K pi main_vsi_idx port queue pps s =
     (case pi of None \<Rightarrow> None
      | Some pi \<Rightarrow>
     if \<not> vsi_valid api main_vsi_idx then Some (say (queue_msg port queue) s)
     else let s = ice_acquire_lock s;
              (status, s) = (case lan_q_teid api main_vsi_idx 0 (ucast queue) of None \<Rightarrow> (ICE_ERR_PARAM K, s)
                | Some q_teid \<Rightarrow>
                  (case find_node_by_teid api (pi_root pi) q_teid of None \<Rightarrow> (ICE_ERR_PARAM K, s)
                   | Some node \<Rightarrow>
                     if elem_type (elem_data (node_info (ss_nodes s node))) \<noteq> ICE_AQC_ELEM_TYPE_LEAF K
                     then (ICE_ERR_PARAM K, s)
                     else update_node api K s node (set_mode K pps (node_info (ss_nodes s node)))));
              s = ice_release_lock s
          in Some (if status \<noteq> 0 then say (queue_msg port queue) s else s))"

section \<open>Updates of a scheduler element\<close>

text \<open>
  What a switch has to do, stated without the model's operations: in the generic byte exactly the bits of
  the mode mask take the requested value; the admin queue gets one configuration command for the node, with
  the reserved fields cleared; and the software copy follows exactly when the hardware has accepted it.
\<close>

definition mode_bits :: "ice_sched_consts \<Rightarrow> bool \<Rightarrow> u8 \<Rightarrow> u8 \<Rightarrow> bool" where
  "mode_bits K pps g g' \<longleftrightarrow> (\<forall>i. bit g' i = (if bit (ICE_AQC_ELEM_GENERIC_MODE_M K) i then pps else bit g i))"

definition with_generic :: "u8 \<Rightarrow> 'x txsched_elem \<Rightarrow> 'x txsched_elem" where
  "with_generic g e = e\<lparr>elem_data := (elem_data e)\<lparr>generic := g\<rparr>\<rparr>"

definition cfg_request :: "('h, 'x) sched_api \<Rightarrow> ice_sched_consts \<Rightarrow> aq_desc" where
  "cfg_request api K =
     (let d = dflt_desc api (ice_aqc_opc_cfg_sched_elems K)
      in d\<lparr>aq_num_elem_req := 1, aq_flags := aq_flags d OR ICE_AQ_FLAG_RD K\<rparr>)"

definition cfg_buffer :: "ice_sched_consts \<Rightarrow> 'x txsched_elem \<Rightarrow> 'x txsched_elem" where
  "cfg_buffer K e = e\<lparr>parent_teid := 0, elem_data := (elem_data e)\<lparr>elem_type := 0, elem_flags := 0,
     valid_sections := (if elem_type (elem_data e) = ICE_AQC_ELEM_TYPE_TC K
       then valid_sections (elem_data e) AND NOT (ICE_AQC_ELEM_VALID_CIR K) else valid_sections (elem_data e))\<rparr>\<rparr>"

definition failed_with :: "string \<Rightarrow> ('h, 'x) sched_state \<Rightarrow> ('h, 'x) sched_state \<Rightarrow> bool" where
  "failed_with msg s s' \<longleftrightarrow> ss_nodes s' = ss_nodes s \<and> ss_out s' = ss_out s @ [msg]"

definition switched :: "('h, 'x) sched_api \<Rightarrow> ice_sched_consts \<Rightarrow> bool \<Rightarrow> nat \<Rightarrow> string
    \<Rightarrow> ('h, 'x) sched_state \<Rightarrow> ('h, 'x) sched_state \<Rightarrow> bool" where
  "switched api K pps n msg s s' \<longleftrightarrow>
     (\<exists>g. mode_bits K pps (generic (elem_data (node_info (ss_nodes s n)))) g
       \<and> (let e = with_generic g (node_info (ss_nodes s n));
              (status, resp, h') = aq_send api (ss_hw s) (cfg_request api K) (cfg_buffer K e)
          in ss_hw s' = h'
             \<and> (if status = 0 \<and> resp = 1
                then ss_nodes s' = (ss_nodes s)(n := (ss_nodes s n)\<lparr>node_info := e\<rparr>) \<and> ss_out s' = ss_out s
                else failed_with msg s s')))"

text \<open>The scheduler node of the port's main VSI, as far as the driver knows it.\<close>

definition port_node :: "('h, 'x) sched_api \<Rightarrow> ice_port_info option \<Rightarrow> u16 \<Rightarrow> nat option" where
  "port_node api pi idx =
     (if pi \<noteq> None \<and> vsi_valid api idx then Option.bind (vsi_nodes api idx) (\<lambda>nodes. nodes 0) else None)"

lemma set_mode_bits:
  "mode_bits K pps (generic (elem_data e)) (generic (elem_data (set_mode K pps e)))"
proof -
  have "\<not> bit w i" if "\<not> i < 8" for w :: u8 and i using that by (simp add: impossible_bit)
  then show ?thesis
    by (auto simp: mode_bits_def set_mode_def bit_simps)
qed

lemma set_mode_generic: "set_mode K pps e = with_generic (generic (elem_data (set_mode K pps e))) e"
  by (simp add: set_mode_def with_generic_def)

lemma update_node_effect:
  assumes "update_node api K s n (with_generic g (node_info (ss_nodes s n))) = (status, s')" and "ICE_ERR_CFG K \<noteq> 0"
  shows "ss_locked s' = ss_locked s \<and> ss_out s' = ss_out s
    \<and> (let e = with_generic g (node_info (ss_nodes s n));
           (st, resp, h') = aq_send api (ss_hw s) (cfg_request api K) (cfg_buffer K e)
       in ss_hw s' = h' \<and> (status = 0 \<longleftrightarrow> st = 0 \<and> resp = 1)
          \<and> ss_nodes s' = (if status = 0 then (ss_nodes s)(n := (ss_nodes s n)\<lparr>node_info := e\<rparr>) else ss_nodes s))"
proof -
  let ?e = "with_generic g (node_info (ss_nodes s n))"
  obtain st resp h' where aq: "aq_send api (ss_hw s) (cfg_request api K) (cfg_buffer K ?e) = (st, resp, h')"
    by (metis prod_cases3)
  have "ice_aq_cfg_sched_elems api K (ss_hw s) 1 (cfg_buffer K ?e) 0 = (st, if st = 0 then resp else 0, h')"
    using aq by (simp add: ice_aq_cfg_sched_elems_def ice_aqc_send_sched_elem_cmd_def cfg_request_def Let_def)
  moreover have "(let buf = ?e;
          buf = (if elem_type (elem_data (node_info (ss_nodes s n))) = ICE_AQC_ELEM_TYPE_TC K
                 then buf\<lparr>elem_data := (elem_data buf)\<lparr>valid_sections :=
                        valid_sections (elem_data buf) AND NOT (ICE_AQC_ELEM_VALID_CIR K)\<rparr>\<rparr>
                 else buf);
          buf = buf\<lparr>parent_teid := 0\<rparr>;
          buf = buf\<lparr>elem_data := (elem_data buf)\<lparr>elem_type := 0\<rparr>\<rparr>
      in buf\<lparr>elem_data := (elem_data buf)\<lparr>elem_flags := 0\<rparr>\<rparr>) = cfg_buffer K ?e"
    by (simp add: cfg_buffer_def with_generic_def Let_def)
  ultimately have "ice_sched_update_elem api K (ss_hw s) (ss_nodes s) n ?e
      = (if st \<noteq> 0 \<or> resp \<noteq> 1 then (ICE_ERR_CFG K, ss_nodes s, h')
         else (st, (ss_nodes s)(n := (ss_nodes s n)\<lparr>node_info := (node_info (ss_nodes s n))\<lparr>elem_data := elem_data ?e\<rparr>\<rparr>), h'))"
    unfolding ice_sched_update_elem_def Let_def by simp
  moreover have "(node_info (ss_nodes s n))\<lparr>elem_data := elem_data ?e\<rparr> = ?e" by (simp add: with_generic_def)
  ultimately show ?thesis using assms aq by (auto simp: update_node_def Let_def split: if_splits)
qed

text \<open>The common tail of both entry points: update the node, release the lock, report a failure.\<close>

lemma update_node_switched:
  assumes "update_node api K (ice_acquire_lock s) n (set_mode K pps (node_info (ss_nodes s n))) = (status, s1)"
    and "ICE_ERR_CFG K \<noteq> 0" and "s' = (if status \<noteq> 0 then say msg (ice_release_lock s1) else ice_release_lock s1)"
  shows "\<not> ss_locked s' \<and> switched api K pps n msg s s'"
proof -
  let ?g = "generic (elem_data (set_mode K pps (node_info (ss_nodes s n))))"
  have "update_node api K (ice_acquire_lock s) n (with_generic ?g (node_info (ss_nodes (ice_acquire_lock s) n))) = (status, s1)"
    using assms(1) by (simp add: ice_acquire_lock_def flip: set_mode_generic)
  from update_node_effect [OF this assms(2)]
  have "switched api K pps n msg s s'"
    unfolding switched_def assms(3)
    by (intro exI [of _ ?g] conjI set_mode_bits)
       (auto simp: Let_def failed_with_def say_def ice_acquire_lock_def ice_release_lock_def split: prod.splits)
  then show ?thesis by (simp add: assms(3) say_def ice_release_lock_def)
qed

text \<open>A sibling chain that ends: the addresses from a node on.\<close>

fun sib_chain :: "'x node_store \<Rightarrow> nat option \<Rightarrow> nat list \<Rightarrow> bool" where
  "sib_chain nodes node [] \<longleftrightarrow> node = None"
| "sib_chain nodes node (p # ps) \<longleftrightarrow> node = Some p \<and> sib_chain nodes (node_sibling (nodes p)) ps"

lemma agg_walk_find:
  "sib_chain nodes node ps \<Longrightarrow> length ps < fuel \<Longrightarrow>
    agg_walk fuel nodes agg_id node = Some (List.find (\<lambda>p. node_agg_id (nodes p) = agg_id) ps)"
proof (induction ps arbitrary: node fuel)
  case Nil
  then show ?case by (cases fuel) simp_all
next
  case (Cons p ps)
  then obtain f where "fuel = Suc f" "length ps < f" by (cases fuel) auto
  with Cons show ?case by simp
qed

section \<open>Properties\<close>

text \<open>C36: Switching a port between bit and packet rates releases the scheduler lock on every path. When the
  port has a scheduler node, one configuration command for that node is sent, in which exactly the bits of
  the mode mask have the requested value (set for packets, cleared for bits) and the reserved fields are 0;
  if the admin queue accepts it, the software copy of that node gets the same byte, no other node changes
  and nothing is reported. If it refuses, or if there is no port structure, no valid VSI or no node, the
  scheduler nodes are unchanged and the failure is reported once.\<close>
theorem set_pps_port_effect:
  assumes "ICE_ERR_CFG K \<noteq> 0" and "ICE_ERR_PARAM K \<noteq> 0" and "\<not> ss_locked s"
  shows "\<exists>s'. ice_tx_sched_set_pps_port api K pi idx port pps s = Some s' \<and> \<not> ss_locked s'
    \<and> (case port_node api pi idx of
         None \<Rightarrow> failed_with (port_msg port) s s' \<and> ss_hw s' = ss_hw s
       | Some n \<Rightarrow> switched api K pps n (port_msg port) s s')"
proof (cases pi)
  case None
  with assms(3) show ?thesis by (simp add: ice_tx_sched_set_pps_port_def say_def port_node_def failed_with_def)
next
  case (Some p)
  let ?s1 = "ice_acquire_lock s"
  have "(ucast (ucast idx :: u32) :: u16) = idx"
    using unat_bound_u16 [of idx] by (simp add: word_unat_eq_iff unat_ucast_mod)
  then have found: "ice_sched_get_node_by_id_type 0 api K p (ss_nodes ?s1) (ucast idx) ICE_AGG_TYPE_VSI 0
      = Some (port_node api pi idx)"
    by (simp add: port_node_def Some Let_def split: option.splits)
  show ?thesis
  proof (cases "port_node api pi idx")
    case None
    with Some found assms show ?thesis
      by (simp add: ice_tx_sched_set_pps_port_def Let_def say_def ice_release_lock_def ice_acquire_lock_def failed_with_def
          del: ice_sched_get_node_by_id_type.simps)
  next
    case (Some n)
    obtain status s1 where u: "update_node api K ?s1 n (set_mode K pps (node_info (ss_nodes s n))) = (status, s1)"
      by fastforce
    let ?s' = "if status \<noteq> 0 then say (port_msg port) (ice_release_lock s1) else ice_release_lock s1"
    have "ss_nodes ?s1 = ss_nodes s" by (simp add: ice_acquire_lock_def)
    then have "ice_tx_sched_set_pps_port api K pi idx port pps s = Some ?s'"
      using \<open>pi = Some p\<close> found Some u
      by (simp add: ice_tx_sched_set_pps_port_def Let_def del: ice_sched_get_node_by_id_type.simps)
    with update_node_switched [OF u assms(1) refl, of "port_msg port"] Some show ?thesis by simp
  qed
qed

text \<open>The queue variant has the same effect on a leaf node, but it dereferences the port structure before
  any check: without one it faults where the port variant reports an error.\<close>

definition queue_node :: "('h, 'x) sched_api \<Rightarrow> ice_sched_consts \<Rightarrow> 'x node_store \<Rightarrow> ice_port_info \<Rightarrow> u16 \<Rightarrow> u32 \<Rightarrow> nat option" where
  "queue_node api K nodes p idx queue =
     (if vsi_valid api idx
      then Option.bind (lan_q_teid api idx 0 (ucast queue)) (\<lambda>t. Option.bind (find_node_by_teid api (pi_root p) t)
        (\<lambda>n. if elem_type (elem_data (node_info (nodes n))) = ICE_AQC_ELEM_TYPE_LEAF K then Some n else None))
      else None)"

theorem set_pps_queue_effect:
  assumes "ICE_ERR_CFG K \<noteq> 0" and "ICE_ERR_PARAM K \<noteq> 0" and "\<not> ss_locked s"
  shows "ice_tx_sched_set_pps_queue api K None idx port queue pps s = None
    \<and> (\<exists>s'. ice_tx_sched_set_pps_queue api K (Some p) idx port queue pps s = Some s' \<and> \<not> ss_locked s'
        \<and> (case queue_node api K (ss_nodes s) p idx queue of
             None \<Rightarrow> failed_with (queue_msg port queue) s s' \<and> ss_hw s' = ss_hw s
           | Some n \<Rightarrow> switched api K pps n (queue_msg port queue) s s'))"
proof -
  let ?s1 = "ice_acquire_lock s"
  note defs = ice_tx_sched_set_pps_queue_def Let_def say_def ice_release_lock_def ice_acquire_lock_def failed_with_def
    queue_node_def
  have fault: "ice_tx_sched_set_pps_queue api K None idx port queue pps s = None"
    by (simp add: ice_tx_sched_set_pps_queue_def)
  show ?thesis
  proof (cases "queue_node api K (ss_nodes s) p idx queue")
    case None
    with assms fault show ?thesis by (auto simp: defs bind_eq_None_conv split: option.splits if_splits)
  next
    case (Some n)
    obtain status s1 where u: "update_node api K ?s1 n (set_mode K pps (node_info (ss_nodes s n))) = (status, s1)"
      by fastforce
    let ?s' = "if status \<noteq> 0 then say (queue_msg port queue) (ice_release_lock s1) else ice_release_lock s1"
    have "ss_nodes ?s1 = ss_nodes s" by (simp add: ice_acquire_lock_def)
    then have "ice_tx_sched_set_pps_queue api K (Some p) idx port queue pps s = Some ?s'"
      using Some u by (auto simp: ice_tx_sched_set_pps_queue_def queue_node_def Let_def bind_eq_Some_conv split: if_splits)
    with update_node_switched [OF u assms(1) refl, of "queue_msg port queue"] Some fault show ?thesis by simp
  qed
qed

text \<open>The search for an aggregator returns the first node of its layer's sibling chain with the requested
  identifier, or NULL when there is none, and it ends on every finite chain.\<close>
theorem get_agg_node_first:
  assumes "pi_hw pi = Some hw"
    and "sib_chain nodes (ice_sched_get_first_node pi nodes tc_node (ice_sched_get_agg_layer K hw)) ps"
    and "length ps < fuel"
  shows "ice_sched_get_agg_node fuel K pi nodes tc_node agg_id
    = Some (List.find (\<lambda>p. node_agg_id (nodes p) = agg_id) ps)"
  using agg_walk_find [OF assms(2,3)] assms(1) by (simp add: ice_sched_get_agg_node_def)

section \<open>Instances for the witnesses\<close>

definition sim_consts :: ice_sched_consts where
  "sim_consts = \<lparr> ICE_AQ_FLAG_RD = 0x400, ice_aqc_opc_cfg_sched_elems = 0x403, ICE_AQC_ELEM_TYPE_TC = 2,
     ICE_AQC_ELEM_TYPE_LEAF = 5, ICE_AQC_ELEM_VALID_CIR = 2, ICE_AQC_ELEM_GENERIC_MODE_M = 1,
     ICE_AGG_LAYER_OFFSET = 6, ICE_ERR_CFG = - 12, ICE_ERR_PARAM = - 1 \<rparr>"

definition sim_sched :: "(unit, unit) sched_api" where
  "sim_sched = \<lparr> dflt_desc = (\<lambda>opc. \<lparr> aq_opcode = opc, aq_flags = 0, aq_num_elem_req = 0 \<rparr>),
     aq_send = (\<lambda>h d b. (0, aq_num_elem_req d, h)), vsi_valid = (\<lambda>v. True), vsi_nodes = (\<lambda>v. Some (\<lambda>tc. Some 4)),
     get_tc_node = (\<lambda>tc. Some 1), get_node = (\<lambda>i. Some 4), lan_q_teid = (\<lambda>v tc q. Some (ucast q)),
     find_node_by_teid = (\<lambda>r t. Some 5) \<rparr>"

definition sim_node :: "u32 \<Rightarrow> nat option \<Rightarrow> unit ice_sched_node" where
  "sim_node agg sib = \<lparr> node_info = \<lparr> parent_teid = 1, node_teid = 2, elem_data = \<lparr> elem_type = 5, valid_sections = 7,
     generic = 0, elem_flags = 0, elem_rest = () \<rparr> \<rparr>, node_agg_id = agg, node_sibling = sib, node_parent = None,
     node_tc_num = 0 \<rparr>"

definition sim_pi :: ice_port_info where
  "sim_pi = \<lparr> pi_hw = Some \<lparr> num_tx_sched_layers = 9, sw_entry_point_layer = 2 \<rparr>, sib_head = (\<lambda>tc l. Some 3), pi_root = 0 \<rparr>"

definition sim_state :: "(unit, unit) sched_state" where
  "sim_state = \<lparr> ss_nodes = (\<lambda>p. sim_node (word_of_nat p) (if p = 3 then Some 4 else None)), ss_hw = (),
     ss_locked = False, ss_out = [] \<rparr>"

theorem set_pps_port_effect_witness:
  "\<exists>s'. ice_tx_sched_set_pps_port sim_sched sim_consts (Some sim_pi) 0 1 True sim_state = Some s' \<and> \<not> ss_locked s'
    \<and> bit (generic (elem_data (node_info (ss_nodes s' 4)))) 0 \<and> \<not> bit (generic (elem_data (node_info (ss_nodes s' 4)))) 1
    \<and> ss_nodes s' 3 = ss_nodes sim_state 3 \<and> ss_out s' = []"
proof -
  have n: "port_node sim_sched (Some sim_pi) 0 = Some 4" by (simp add: port_node_def sim_sched_def)
  have "\<exists>s'. ice_tx_sched_set_pps_port sim_sched sim_consts (Some sim_pi) 0 1 True sim_state = Some s' \<and> \<not> ss_locked s'
      \<and> (case port_node sim_sched (Some sim_pi) 0 of
           None \<Rightarrow> failed_with (port_msg 1) sim_state s' \<and> ss_hw s' = ss_hw sim_state
         | Some n \<Rightarrow> switched sim_sched sim_consts True n (port_msg 1) sim_state s')"
    by (rule set_pps_port_effect) (simp_all add: sim_consts_def sim_state_def)
  then obtain s' where s': "ice_tx_sched_set_pps_port sim_sched sim_consts (Some sim_pi) 0 1 True sim_state = Some s'"
      "\<not> ss_locked s'" "switched sim_sched sim_consts True 4 (port_msg 1) sim_state s'"
    unfolding n option.case by blast
  then obtain g where g: "mode_bits sim_consts True 0 g"
      "ss_nodes s' = (ss_nodes sim_state)(4 := (ss_nodes sim_state 4)\<lparr>node_info := with_generic g (node_info (ss_nodes sim_state 4))\<rparr>)"
      "ss_out s' = []"
    by (auto simp: switched_def sim_sched_def sim_state_def sim_node_def cfg_request_def Let_def split: prod.splits)
  have "bit g 0" "\<not> bit g 1" using g(1) by (simp_all add: mode_bits_def sim_consts_def bit_1_iff)
  with s'(1,2) g(2,3) show ?thesis by (simp add: with_generic_def)
qed

theorem set_pps_queue_effect_witness:
  "ice_tx_sched_set_pps_queue sim_sched sim_consts None 0 1 3 False sim_state = None
    \<and> (\<exists>s'. ice_tx_sched_set_pps_queue sim_sched sim_consts (Some sim_pi) 0 1 3 False sim_state = Some s' \<and> \<not> ss_locked s'
        \<and> (case queue_node sim_sched sim_consts (ss_nodes sim_state) sim_pi 0 3 of
             None \<Rightarrow> failed_with (queue_msg 1 3) sim_state s' \<and> ss_hw s' = ss_hw sim_state
           | Some n \<Rightarrow> switched sim_sched sim_consts False n (queue_msg 1 3) sim_state s'))"
  by (rule set_pps_queue_effect) (simp_all add: sim_consts_def sim_state_def)

theorem get_agg_node_first_witness:
  "ice_sched_get_agg_node 3 sim_consts sim_pi (ss_nodes sim_state) 1 4
    = Some (List.find (\<lambda>p. node_agg_id (ss_nodes sim_state p) = 4) [3, 4])"
  by (rule get_agg_node_first)
     (simp_all add: sim_pi_def sim_state_def sim_node_def ice_sched_get_first_node_def)

end
