(* ===== verification/FdirInfo.thy ===== *)
theory FdirInfo
  imports RteRing
begin

text \<open>
  \<^verbatim>\<open>src/src/filter.c\<close>: reading and printing the flow director state of a port. The output of the printing
  functions is the string they send to the terminal. The drivers' query functions are parameters, as are
  the flow type, payload type and mode numbers of \<^verbatim>\<open>rte_eth_ctrl.h\<close>.
\<close>

section \<open>printf\<close>

definition nl :: string where "nl = [CHR 0x0A]"
definition tab :: string where "tab = [CHR 0x09]"

fun hex_nat :: "nat \<Rightarrow> string" where
  "hex_nat n = (let d = (if n mod 16 < 10 then char_of (48 + n mod 16) else char_of (87 + n mod 16)) in
     if n < 16 then [d] else hex_nat (n div 16) @ [d])"

declare hex_nat.simps [simp del]

text \<open>\<^verbatim>\<open>%0kx\<close> pads with zeros on the left, \<^verbatim>\<open>%-ku\<close> and \<^verbatim>\<open>%-kd\<close> with blanks on the right.\<close>

definition fmt_0x :: "nat \<Rightarrow> nat \<Rightarrow> string" where
  "fmt_0x k n = (let s = hex_nat n in replicate (k - length s) (CHR ''0'') @ s)"

definition pad_right :: "nat \<Rightarrow> string \<Rightarrow> string" where
  "pad_right k s = s @ replicate (k - length s) (CHR '' '')"

definition fmt_u :: "nat \<Rightarrow> string" where
  "fmt_u n = dec_nat n"

definition fmt_mu :: "nat \<Rightarrow> nat \<Rightarrow> string" where
  "fmt_mu k n = pad_right k (dec_nat n)"

section \<open>Model\<close>

record filter_consts =
  ETH_RAW_PAYLOAD :: u32
  ETH_L2_PAYLOAD :: u32
  ETH_L3_PAYLOAD :: u32
  ETH_L4_PAYLOAD :: u32
  FLOW_RAW :: u16
  FLOW_IPV4 :: u16
  FLOW_FRAG_IPV4 :: u16
  FLOW_IPV4_TCP :: u16
  FLOW_IPV4_UDP :: u16
  FLOW_IPV4_SCTP :: u16
  FLOW_IPV4_OTHER :: u16
  FLOW_IPV6 :: u16
  FLOW_FRAG_IPV6 :: u16
  FLOW_IPV6_TCP :: u16
  FLOW_IPV6_UDP :: u16
  FLOW_IPV6_SCTP :: u16
  FLOW_IPV6_OTHER :: u16
  FLOW_L2_PAYLOAD :: u16
  FLOW_PORT :: u16
  FLOW_VXLAN :: u16
  FLOW_GENEVE :: u16
  FLOW_NVGRE :: u16
  FLOW_VXLAN_GPE :: u16
  FLOW_UNKNOWN :: nat
  FLOW_MAX :: nat
  MODE_PERFECT :: u32
  MODE_PERFECT_MAC_VLAN :: u32
  MODE_PERFECT_TUNNEL :: u32
  MODE_SIGNATURE :: u32
  FDIR_ENOTSUP :: int

record fdir_masks =
  vlan_tci_mask :: u16
  mask_src_ip :: u32
  mask_dst_ip :: u32
  mask_src_port :: u16
  mask_dst_port :: u16
  mask_src_ip6 :: "u32 list"
  mask_dst_ip6 :: "u32 list"

record flex_payload_cfg =
  flex_type :: u32
  src_offset :: "u16 list"

record flex_mask_cfg =
  flex_flow_type :: u16
  flex_mask_bytes :: "u8 list"

record fdir_flex_conf =
  flex_set :: "flex_payload_cfg list"
  flex_masks :: "flex_mask_cfg list"

record fdir_info =
  fdir_mode :: u32
  fdir_mask :: fdir_masks
  fdir_flex_conf :: fdir_flex_conf
  guarant_spc :: u32
  best_spc :: u32
  flow_types_mask0 :: u64
  max_flexpayload :: u32
  flex_payload_unit :: u32
  max_flex_payload_segment_num :: u32
  flex_payload_limit :: u32
  flex_bitmask_unit :: u32
  max_flex_bitmask_num :: u32

record fdir_stats =
  guarant_cnt :: u32
  best_cnt :: u32
  fs_collision :: u32
  fs_free :: u32
  fs_maxhash :: u32
  fs_maxlen :: u32
  fs_add :: u64
  fs_remove :: u64
  fs_f_add :: u64
  fs_f_remove :: u64

text \<open>
  The query functions of the two drivers: each returns a code and the structure it filled in. \<open>ports\<close>
  lists the ports \<^verbatim>\<open>RTE_ETH_FOREACH_DEV\<close> visits, \<open>err_str\<close> is \<^verbatim>\<open>strerror\<close>.
\<close>

record fdir_api =
  i40e_info :: "u16 \<Rightarrow> fdir_info \<Rightarrow> int \<times> fdir_info"
  i40e_stats :: "u16 \<Rightarrow> fdir_stats \<Rightarrow> int \<times> fdir_stats"
  ixgbe_info :: "u16 \<Rightarrow> fdir_info \<Rightarrow> int \<times> fdir_info"
  ixgbe_stats :: "u16 \<Rightarrow> fdir_stats \<Rightarrow> int \<times> fdir_stats"
  fdir_ports :: "u16 list"
  err_str :: "int \<Rightarrow> string"

definition get_fdir_info :: "fdir_api \<Rightarrow> filter_consts \<Rightarrow> u16 \<Rightarrow> fdir_info \<Rightarrow> fdir_stats
    \<Rightarrow> int \<times> fdir_info \<times> fdir_stats \<times> string" where
  "get_fdir_info api K port_id info stat =
     (let (ret, info) = i40e_info api port_id info;
          (ret, stat) = (if ret = 0 then i40e_stats api port_id stat else (ret, stat));
          (ret, info, stat) =
            (if ret = - FDIR_ENOTSUP K
             then let (ret, info) = ixgbe_info api port_id info;
                      (ret, stat) = (if ret = 0 then ixgbe_stats api port_id stat else (ret, stat))
                  in (ret, info, stat)
             else (ret, info, stat));
          out = (if ret = 0 then ''''
                 else if ret = - FDIR_ENOTSUP K
                 then nl @ '' FDIR is not supported on port '' @ fmt_mu 2 (unat port_id) @ nl
                 else ''programming error: ('' @ err_str api (- ret) @ '')'' @ nl)
      in (ret, info, stat, out))"

definition RTE_PORT_ALL :: u16 where
  "RTE_PORT_ALL = NOT 0"

definition port_id_is_invalid :: "fdir_api \<Rightarrow> u16 \<Rightarrow> bool \<Rightarrow> bool \<times> string" where
  "port_id_is_invalid api port_id enabled_warn =
     (if port_id = RTE_PORT_ALL then (False, '''')
      else if port_id \<in> set (fdir_ports api) then (False, '''')
      else (True, if enabled_warn then ''Invalid port '' @ fmt_u (unat port_id) @ nl else ''''))"

definition bswap32 :: "u32 \<Rightarrow> u32" where
  "bswap32 w = push_bit 24 (w AND 0xFF) OR push_bit 8 (w AND 0xFF00) OR drop_bit 8 (w AND 0xFF0000) OR drop_bit 24 w"

definition be16 :: "u16 \<Rightarrow> string" where "be16 w = fmt_0x 4 (unat (bswap16 w))"
definition be32 :: "u32 \<Rightarrow> string" where "be32 w = fmt_0x 8 (unat (bswap32 w))"

definition print_fdir_mask :: "fdir_masks \<Rightarrow> string" where
  "print_fdir_mask msk =
     nl @ ''    vlan_tci: 0x'' @ be16 (vlan_tci_mask msk)
     @ '', src_ipv4: 0x'' @ be32 (mask_src_ip msk) @ '', dst_ipv4: 0x'' @ be32 (mask_dst_ip msk)
     @ nl @ ''    src_port: 0x'' @ be16 (mask_src_port msk) @ '', dst_port: 0x'' @ be16 (mask_dst_port msk)
     @ nl @ ''    src_ipv6: 0x'' @ be32 (mask_src_ip6 msk ! 0) @ '',0x'' @ be32 (mask_src_ip6 msk ! 1)
     @ '',0x'' @ be32 (mask_src_ip6 msk ! 2) @ '',0x'' @ be32 (mask_src_ip6 msk ! 3)
     @ nl @ ''    dst_ipv6: 0x'' @ be32 (mask_dst_ip6 msk ! 0) @ '',0x'' @ be32 (mask_dst_ip6 msk ! 1)
     @ '',0x'' @ be32 (mask_dst_ip6 msk ! 2) @ '',0x'' @ be32 (mask_dst_ip6 msk ! 3)
     @ nl"

definition payload_name :: "filter_consts \<Rightarrow> u32 \<Rightarrow> string" where
  "payload_name K t =
     (if t = ETH_RAW_PAYLOAD K then nl @ ''    RAW:  ''
      else if t = ETH_L2_PAYLOAD K then nl @ ''    L2_PAYLOAD:  ''
      else if t = ETH_L3_PAYLOAD K then nl @ ''    L3_PAYLOAD:  ''
      else if t = ETH_L4_PAYLOAD K then nl @ ''    L4_PAYLOAD:  ''
      else nl @ ''    UNKNOWN PAYLOAD('' @ fmt_u (unat t) @ ''):  '')"

text \<open>\<open>nb_payloads\<close> and \<open>nb_flexmasks\<close> are the lengths of the two lists.\<close>

definition print_fdir_flex_payload :: "filter_consts \<Rightarrow> fdir_flex_conf \<Rightarrow> u32 \<Rightarrow> string" where
  "print_fdir_flex_payload K flex_conf num =
     concat (map (\<lambda>cfg. payload_name K (flex_type cfg)
               @ concat (map (\<lambda>j. ''  '' @ fmt_mu 5 (unat (src_offset cfg ! j))) [0..<unat num])) (flex_set flex_conf))
     @ nl"

definition flowtype_str_table :: "filter_consts \<Rightarrow> (string \<times> u16) list" where
  "flowtype_str_table K = [
     (''raw'', FLOW_RAW K), (''ipv4'', FLOW_IPV4 K), (''ipv4-frag'', FLOW_FRAG_IPV4 K),
     (''ipv4-tcp'', FLOW_IPV4_TCP K), (''ipv4-udp'', FLOW_IPV4_UDP K), (''ipv4-sctp'', FLOW_IPV4_SCTP K),
     (''ipv4-other'', FLOW_IPV4_OTHER K), (''ipv6'', FLOW_IPV6 K), (''ipv6-frag'', FLOW_FRAG_IPV6 K),
     (''ipv6-tcp'', FLOW_IPV6_TCP K), (''ipv6-udp'', FLOW_IPV6_UDP K), (''ipv6-sctp'', FLOW_IPV6_SCTP K),
     (''ipv6-other'', FLOW_IPV6_OTHER K), (''l2_payload'', FLOW_L2_PAYLOAD K), (''port'', FLOW_PORT K),
     (''vxlan'', FLOW_VXLAN K), (''geneve'', FLOW_GENEVE K), (''nvgre'', FLOW_NVGRE K),
     (''vxlan-gpe'', FLOW_VXLAN_GPE K)]"

fun find_flow :: "(string \<times> u16) list \<Rightarrow> u16 \<Rightarrow> string option" where
  "find_flow [] flow_type = None"
| "find_flow ((str, ftype) # table) flow_type = (if ftype = flow_type then Some str else find_flow table flow_type)"

definition flowtype_to_str :: "filter_consts \<Rightarrow> u16 \<Rightarrow> string option" where
  "flowtype_to_str K flow_type = find_flow (flowtype_str_table K) flow_type"

definition print_fdir_flex_mask :: "filter_consts \<Rightarrow> fdir_flex_conf \<Rightarrow> u32 \<Rightarrow> string" where
  "print_fdir_flex_mask K flex_conf num =
     concat (map (\<lambda>m. nl @ ''    ''
               @ (case flowtype_to_str K (flex_flow_type m) of Some p \<Rightarrow> p | None \<Rightarrow> ''unknown'') @ '':'' @ tab
               @ concat (map (\<lambda>j. '' '' @ fmt_0x 2 (unat (flex_mask_bytes m ! j))) [0..<unat num])) (flex_masks flex_conf))
     @ nl"

fun flow_type_loop :: "filter_consts \<Rightarrow> u32 \<Rightarrow> nat \<Rightarrow> nat \<Rightarrow> string" where
  "flow_type_loop K msk i 0 = ''''"
| "flow_type_loop K msk i (Suc n) =
     (if msk AND push_bit i 1 = 0 then flow_type_loop K msk (Suc i) n
      else (case flowtype_to_str K (word_of_nat i) of Some p \<Rightarrow> '' '' @ p | None \<Rightarrow> '' unknown'')
           @ flow_type_loop K msk (Suc i) n)"

definition print_fdir_flow_type :: "filter_consts \<Rightarrow> u32 \<Rightarrow> string" where
  "print_fdir_flow_type K flow_types_mask =
     flow_type_loop K flow_types_mask (FLOW_UNKNOWN K) (FLOW_MAX K - FLOW_UNKNOWN K) @ nl"

definition fdir_stats_border :: string where
  "fdir_stats_border = ''########################''"

definition mode_name :: "filter_consts \<Rightarrow> u32 \<Rightarrow> string" where
  "mode_name K m =
     (if m = MODE_PERFECT K then ''  PERFECT''
      else if m = MODE_PERFECT_MAC_VLAN K then ''  PERFECT-MAC-VLAN''
      else if m = MODE_PERFECT_TUNNEL K then ''  PERFECT-TUNNEL''
      else if m = MODE_SIGNATURE K then ''  SIGNATURE''
      else ''  DISABLE'') @ nl"

definition stats_block :: "fdir_info \<Rightarrow> fdir_stats \<Rightarrow> string" where
  "stats_block info stat =
     ''  guarant_count: '' @ fmt_mu 10 (unat (guarant_cnt stat)) @ ''  best_count:    '' @ fmt_u (unat (best_cnt stat)) @ nl
     @ ''  guarant_space: '' @ fmt_mu 10 (unat (guarant_spc info)) @ ''  best_space:    '' @ fmt_u (unat (best_spc info)) @ nl
     @ ''  collision:     '' @ fmt_mu 10 (unat (fs_collision stat)) @ ''  free:          '' @ fmt_u (unat (fs_free stat)) @ nl
     @ ''  maxhash:       '' @ fmt_mu 10 (unat (fs_maxhash stat)) @ ''  maxlen:        '' @ fmt_u (unat (fs_maxlen stat)) @ nl
     @ ''  add:'' @ tab @ ''         '' @ fmt_mu 10 (unat (fs_add stat)) @ ''  remove:        '' @ fmt_u (unat (fs_remove stat)) @ nl
     @ ''  f_add:         '' @ fmt_mu 10 (unat (fs_f_add stat)) @ ''  f_remove:      '' @ fmt_u (unat (fs_f_remove stat)) @ nl"

definition info_block :: "filter_consts \<Rightarrow> u32 \<Rightarrow> fdir_info \<Rightarrow> fdir_stats \<Rightarrow> string" where
  "info_block K port_id info stat =
     nl @ ''  '' @ fdir_stats_border @ '' FDIR infos for port '' @ pad_right 2 (fmt_d port_id) @ ''     '' @ fdir_stats_border @ nl
     @ ''  MODE: '' @ mode_name K (fdir_mode info)
     @ (if fdir_mode info \<noteq> MODE_PERFECT_MAC_VLAN K \<and> fdir_mode info \<noteq> MODE_PERFECT_TUNNEL K
        then ''  SUPPORTED FLOW TYPE: '' @ print_fdir_flow_type K (ucast (flow_types_mask0 info)) else '''')
     @ ''  FLEX PAYLOAD INFO:'' @ nl
     @ ''  max_len:       '' @ fmt_mu 10 (unat (max_flexpayload info)) @ ''  payload_limit: '' @ fmt_mu 10 (unat (flex_payload_limit info)) @ nl
     @ ''  payload_unit:  '' @ fmt_mu 10 (unat (flex_payload_unit info)) @ ''  payload_seg:   '' @ fmt_mu 10 (unat (max_flex_payload_segment_num info)) @ nl
     @ ''  bitmask_unit:  '' @ fmt_mu 10 (unat (flex_bitmask_unit info)) @ ''  bitmask_num:   '' @ fmt_mu 10 (unat (max_flex_bitmask_num info)) @ nl
     @ ''  MASK: '' @ print_fdir_mask (fdir_mask info)
     @ (if flex_set (fdir_flex_conf info) \<noteq> []
        then ''  FLEX PAYLOAD SRC OFFSET:'' @ print_fdir_flex_payload K (fdir_flex_conf info) (max_flexpayload info) else '''')
     @ (if flex_masks (fdir_flex_conf info) \<noteq> []
        then ''  FLEX MASK CFG:'' @ print_fdir_flex_mask K (fdir_flex_conf info) (max_flexpayload info) else '''')
     @ stats_block info stat
     @ ''  '' @ fdir_stats_border @ ''############################'' @ fdir_stats_border @ nl"

definition zero_info :: fdir_info where
  "zero_info = \<lparr> fdir_mode = 0,
     fdir_mask = \<lparr> vlan_tci_mask = 0, mask_src_ip = 0, mask_dst_ip = 0, mask_src_port = 0, mask_dst_port = 0,
       mask_src_ip6 = [0, 0, 0, 0], mask_dst_ip6 = [0, 0, 0, 0] \<rparr>,
     fdir_flex_conf = \<lparr> flex_set = [], flex_masks = [] \<rparr>, guarant_spc = 0, best_spc = 0, flow_types_mask0 = 0,
     max_flexpayload = 0, flex_payload_unit = 0, max_flex_payload_segment_num = 0, flex_payload_limit = 0,
     flex_bitmask_unit = 0, max_flex_bitmask_num = 0 \<rparr>"

definition zero_stats :: fdir_stats where
  "zero_stats = \<lparr> guarant_cnt = 0, best_cnt = 0, fs_collision = 0, fs_free = 0, fs_maxhash = 0, fs_maxlen = 0,
     fs_add = 0, fs_remove = 0, fs_f_add = 0, fs_f_remove = 0 \<rparr>"

definition fdir_get_infos :: "fdir_api \<Rightarrow> filter_consts \<Rightarrow> u32 \<Rightarrow> string" where
  "fdir_get_infos api K port_id =
     (let (invalid, warn) = port_id_is_invalid api (ucast port_id) True in
      if invalid then warn
      else let (ret, info, stat, msg) = get_fdir_info api K (ucast port_id) zero_info zero_stats in
           if ret \<noteq> 0 then msg else msg @ info_block K port_id info stat)"

section \<open>Properties\<close>

lemma find_flow_distinct:
  "distinct (map snd table) \<Longrightarrow> find_flow table t = Some s \<longleftrightarrow> (s, t) \<in> set table"
proof (induction table)
  case (Cons e table)
  obtain s' t' where e: "e = (s', t')" by fastforce
  show ?case
  proof (cases "t' = t")
    case True
    with Cons.prems e have "t \<notin> snd ` set table" by auto
    with True e show ?thesis by force
  next
    case False
    with Cons e show ?thesis by auto
  qed
qed simp

lemma mask_bit: "i < 32 \<Longrightarrow> (msk AND push_bit i 1 = 0) \<longleftrightarrow> \<not> bit (msk :: u32) i"
  by (metis and_exp_eq_0_iff_not_bit push_bit_of_1)

text \<open>The names a mask stands for.\<close>

lemma flow_type_loop_names:
  "i + n \<le> 32 \<Longrightarrow> flow_type_loop K m i n
    = concat (map (\<lambda>j. '' '' @ (case flowtype_to_str K (word_of_nat j) of Some p \<Rightarrow> p | None \<Rightarrow> ''unknown''))
        (filter (bit m) [i..<i + n]))"
proof (induction n arbitrary: i)
  case (Suc n)
  have "[i..<i + Suc n] = i # [Suc i..<Suc i + n]" by (simp add: upt_conv_Cons)
  with Suc mask_bit [of i m] show ?case by (auto split: option.splits)
qed simp


text \<open>The flow director report names exactly the flow types whose bits are set, each by the name the table
  gives its number, and \<^verbatim>\<open>unknown\<close> for the others.\<close>
theorem flow_types_listed:
  assumes "distinct (map snd (flowtype_str_table K))" and "FLOW_UNKNOWN K \<le> FLOW_MAX K" and "FLOW_MAX K \<le> 32"
  shows "print_fdir_flow_type K m
      = concat (map (\<lambda>j. '' '' @ (case flowtype_to_str K (word_of_nat j) of Some p \<Rightarrow> p | None \<Rightarrow> ''unknown''))
          (filter (bit m) [FLOW_UNKNOWN K..<FLOW_MAX K])) @ nl
    \<and> (\<forall>s t. flowtype_to_str K t = Some s \<longleftrightarrow> (s, t) \<in> set (flowtype_str_table K))"
  using flow_type_loop_names [of "FLOW_UNKNOWN K" "FLOW_MAX K - FLOW_UNKNOWN K" K m] assms
    find_flow_distinct [OF assms(1)]
  by (simp add: print_fdir_flow_type_def flowtype_to_str_def)

text \<open>The report for a port is printed when one of the drivers answers with code 0 for the information and
  the statistics; the ixgbe driver is asked only if the i40e driver does not support the port, any other
  code of the i40e driver is reported as an error. The port number is reduced modulo 2^16 before it is
  checked, and 65535 passes the check.\<close>
theorem fdir_report_branches:
  assumes "FDIR_ENOTSUP K \<noteq> 0" and "i40e_info api (ucast p) zero_info = (r1, info1)"
    and "i40e_stats api (ucast p) zero_stats = (r2, stat1)" and "ucast p \<in> insert 65535 (set (fdir_ports api))"
  shows "(r1 = 0 \<and> r2 = 0 \<longrightarrow> fdir_get_infos api K p = info_block K p info1 stat1)
    \<and> (r1 \<noteq> 0 \<and> r1 \<noteq> - FDIR_ENOTSUP K \<longrightarrow>
         fdir_get_infos api K p = ''programming error: ('' @ err_str api (- r1) @ '')'' @ nl)
    \<and> (r1 = - FDIR_ENOTSUP K \<longrightarrow>
         (case ixgbe_info api (ucast p) info1 of (r3, info3) \<Rightarrow>
          case ixgbe_stats api (ucast p) zero_stats of (r4, stat4) \<Rightarrow>
            r3 = 0 \<longrightarrow> r4 = 0 \<longrightarrow> fdir_get_infos api K p = info_block K p info3 stat4))"
proof -
  have "port_id_is_invalid api (ucast p) True = (False, [])"
    using assms(4) by (auto simp: port_id_is_invalid_def RTE_PORT_ALL_def)
  with assms(1-3) show ?thesis
    by (auto simp: fdir_get_infos_def get_fdir_info_def Let_def split: prod.splits)
qed

text \<open>The numbers of DPDK 22.11 and two ports without flow director.\<close>

definition fdir_consts :: filter_consts where
  "fdir_consts = \<lparr> ETH_RAW_PAYLOAD = 1, ETH_L2_PAYLOAD = 2, ETH_L3_PAYLOAD = 3, ETH_L4_PAYLOAD = 4, FLOW_RAW = 1,
     FLOW_IPV4 = 2, FLOW_FRAG_IPV4 = 3, FLOW_IPV4_TCP = 4, FLOW_IPV4_UDP = 5, FLOW_IPV4_SCTP = 6, FLOW_IPV4_OTHER = 7,
     FLOW_IPV6 = 8, FLOW_FRAG_IPV6 = 9, FLOW_IPV6_TCP = 10, FLOW_IPV6_UDP = 11, FLOW_IPV6_SCTP = 12,
     FLOW_IPV6_OTHER = 13, FLOW_L2_PAYLOAD = 14, FLOW_PORT = 18, FLOW_VXLAN = 19, FLOW_GENEVE = 20, FLOW_NVGRE = 21,
     FLOW_VXLAN_GPE = 22, FLOW_UNKNOWN = 0, FLOW_MAX = 24, MODE_PERFECT = 2, MODE_PERFECT_MAC_VLAN = 3,
     MODE_PERFECT_TUNNEL = 4, MODE_SIGNATURE = 1, FDIR_ENOTSUP = 95 \<rparr>"

definition fdir_sim :: fdir_api where
  "fdir_sim = \<lparr> i40e_info = (\<lambda>p i. (- 95, i)), i40e_stats = (\<lambda>p s. (- 95, s)),
     ixgbe_info = (\<lambda>p i. (0, i\<lparr>fdir_mode := 2\<rparr>)), ixgbe_stats = (\<lambda>p s. (0, s)), fdir_ports = [0, 1],
     err_str = (\<lambda>e. ''error'') \<rparr>"

theorem flow_types_listed_witness:
  "print_fdir_flow_type fdir_consts 0x34
      = concat (map (\<lambda>j. '' '' @ (case flowtype_to_str fdir_consts (word_of_nat j) of Some p \<Rightarrow> p | None \<Rightarrow> ''unknown''))
          (filter (bit (0x34 :: u32)) [FLOW_UNKNOWN fdir_consts..<FLOW_MAX fdir_consts])) @ nl"
proof -
  have "distinct (map snd (flowtype_str_table fdir_consts))"
    by (simp add: flowtype_str_table_def fdir_consts_def)
  from flow_types_listed [OF this, of "0x34"] show ?thesis by (simp add: fdir_consts_def)
qed

theorem fdir_report_branches_witness:
  "fdir_get_infos fdir_sim fdir_consts 1 = info_block fdir_consts 1 (zero_info\<lparr>fdir_mode := 2\<rparr>) zero_stats"
  using fdir_report_branches [of fdir_consts fdir_sim 1 "- 95" zero_info "- 95" zero_stats]
  by (simp add: fdir_consts_def fdir_sim_def)

end
