(* ===== verification/Pcap.thy ===== *)
theory Pcap
  imports Memory
begin

text \<open>
  \<^verbatim>\<open>src/src/pcap.cpp\<close>: writing and reading pcap records in a memory-mapped file. The file is a list of bytes;
  reading or writing outside it, or outside a packet buffer, is the outcome \<open>Fault\<close>. Packet buffers come
  from \<^verbatim>\<open>rte_pktmbuf_alloc\<close>, the parameter \<open>alloc\<close>, which yields the data area of a fresh buffer or fails.
\<close>

section \<open>Model\<close>

record pcapRecHeader =
  ts_sec :: u32
  ts_usec :: u32
  incl_len :: u32
  orig_len :: u32

definition header_bytes :: "pcapRecHeader \<Rightarrow> u8 list" where
  "header_bytes r = le_bytes 4 (unat (ts_sec r)) @ le_bytes 4 (unat (ts_usec r))
     @ le_bytes 4 (unat (incl_len r)) @ le_bytes 4 (unat (orig_len r))"

text \<open>\<open>blit\<close> is \<^verbatim>\<open>memcpy\<close> into an object, \<open>slice\<close> the bytes it reads.\<close>

definition blit :: "u8 list \<Rightarrow> nat \<Rightarrow> u8 list \<Rightarrow> u8 list outcome" where
  "blit m i bs = (if i + length bs \<le> length m then Ret (take i m @ bs @ drop (i + length bs) m) else Fault)"

definition slice :: "u8 list \<Rightarrow> nat \<Rightarrow> nat \<Rightarrow> u8 list outcome" where
  "slice m i n = (if i + n \<le> length m then Ret (take n (drop i m)) else Fault)"


record pcap_mbuf =
  pm_pkt_len :: u32
  pm_data_len :: u16
  pm_timestamp :: u64
  pm_data :: "u8 list"

definition word32_at :: "u8 list \<Rightarrow> nat \<Rightarrow> u32 outcome" where
  "word32_at img i = (case load_le 4 img i of Some x \<Rightarrow> Ret (word_of_nat x) | None \<Rightarrow> Fault)"

definition copy_len_of :: "u32 \<Rightarrow> u32 \<Rightarrow> u32" where
  "copy_len_of incl mempool_buf_size = (if mempool_buf_size - 128 < incl then mempool_buf_size - 128 else incl)"

definition libmoon_read_pcap :: "('s \<Rightarrow> u8 list option \<times> 's) \<Rightarrow> 's \<Rightarrow> u8 list \<Rightarrow> nat \<Rightarrow> u64 \<Rightarrow> u32 \<Rightarrow> bool
    \<Rightarrow> (pcap_mbuf option \<times> 's) outcome" where
  "libmoon_read_pcap alloc mp img src remaining mempool_buf_size nanosecond_timestamps =
     obind (word32_at img (src + 8)) (\<lambda>incl.
     if remaining \<le> ucast incl then Ret (None, mp)
     else obind (word32_at img (src + 12)) (\<lambda>orig.
       let copy_len = copy_len_of incl mempool_buf_size;
           zero_fill_len = min (mempool_buf_size - copy_len - 128) (orig - incl);
           (res, mp') = alloc mp
       in case res of None \<Rightarrow> Ret (None, mp')
          | Some data \<Rightarrow>
            obind (word32_at img src) (\<lambda>sec. obind (word32_at img (src + 4)) (\<lambda>usec.
            obind (slice img (src + 16) (unat copy_len)) (\<lambda>bs.
            obind (blit data 0 bs) (\<lambda>data.
            obind (blit data (unat copy_len) (replicate (unat zero_fill_len) 0)) (\<lambda>data.
              Ret (Some \<lparr> pm_pkt_len = incl, pm_data_len = ucast (copy_len + zero_fill_len),
                     pm_timestamp = ucast sec * 1000000000
                       + (if nanosecond_timestamps then ucast usec else ucast usec * 1000),
                     pm_data = data \<rparr>, mp'))))))))"

fun read_batch_loop :: "nat \<Rightarrow> ('s \<Rightarrow> u8 list option \<times> 's) \<Rightarrow> 's \<Rightarrow> u8 list \<Rightarrow> nat \<Rightarrow> u64 \<Rightarrow> u64 \<Rightarrow> u32 \<Rightarrow> bool
    \<Rightarrow> (pcap_mbuf list \<times> 's) outcome" where
  "read_batch_loop 0 alloc mp img pcap offset remaining bs nano = Ret ([], mp)"
| "read_batch_loop (Suc n) alloc mp img pcap offset remaining bs nano =
     obind (libmoon_read_pcap alloc mp img (pcap + unat offset) remaining bs nano) (\<lambda>(buf, mp).
       case buf of None \<Rightarrow> Ret ([], mp)
       | Some b \<Rightarrow>
         obind (word32_at img (pcap + unat offset + 8)) (\<lambda>incl.
         obind (read_batch_loop n alloc mp img pcap (offset + (ucast incl + 16)) (remaining - (ucast incl + 16)) bs nano)
           (\<lambda>(bufs, mp). Ret (b # bufs, mp))))"

definition libmoon_read_pcap_batch :: "('s \<Rightarrow> u8 list option \<times> 's) \<Rightarrow> 's \<Rightarrow> u32 \<Rightarrow> u8 list \<Rightarrow> nat \<Rightarrow> u64 \<Rightarrow> u32 \<Rightarrow> bool
    \<Rightarrow> (pcap_mbuf list \<times> 's) outcome" where
  "libmoon_read_pcap_batch alloc mp num_bufs img pcap remaining mempool_buf_size nano =
     read_batch_loop (unat num_bufs) alloc mp img pcap 0 remaining mempool_buf_size nano"

section \<open>Records in a img\<close>

text \<open>A record with its packet bytes.\<close>

type_synonym pcap_rec = "pcapRecHeader \<times> u8 list"

definition rec_ok :: "u32 \<Rightarrow> pcap_rec \<Rightarrow> bool" where
  "rec_ok bs r \<longleftrightarrow> length (snd r) = unat (incl_len (fst r)) \<and> incl_len (fst r) \<le> orig_len (fst r)
     \<and> 128 \<le> unat bs \<and> unat bs < 65536 + 128"

definition rec_bytes :: "pcap_rec \<Rightarrow> u8 list" where
  "rec_bytes r = header_bytes (fst r) @ snd r"

text \<open>What a buffer holds after a record was read into it: the packet cut to the room of the buffer, zero-filled
  up to its original length as far as the buffer reaches.\<close>

definition fill_len :: "u32 \<Rightarrow> pcap_rec \<Rightarrow> nat" where
  "fill_len bs r = min (unat bs - 128 - unat (incl_len (fst r))) (unat (orig_len (fst r)) - unat (incl_len (fst r)))"

definition rec_stamp :: "bool \<Rightarrow> pcap_rec \<Rightarrow> u64" where
  "rec_stamp nano r = ucast (ts_sec (fst r)) * 1000000000
     + (if nano then ucast (ts_usec (fst r)) else ucast (ts_usec (fst r)) * 1000)"

definition mbuf_holds :: "u32 \<Rightarrow> bool \<Rightarrow> pcap_rec \<Rightarrow> pcap_mbuf \<Rightarrow> bool" where
  "mbuf_holds bs nano r b \<longleftrightarrow> pm_pkt_len b = incl_len (fst r)
     \<and> unat (pm_data_len b) = min (length (snd r)) (unat bs - 128) + fill_len bs r
     \<and> take (unat (pm_data_len b)) (pm_data b) = take (unat bs - 128) (snd r) @ replicate (fill_len bs r) 0
     \<and> pm_timestamp b = rec_stamp nano r"

lemma header_bytes_length [simp]: "length (header_bytes r) = 16"
  by (simp add: header_bytes_def)

lemma load_le_at: "load_le n (pre @ le_bytes n x @ post) (length pre) = Some (x mod 256 ^ n)"
  by (simp add: load_le_def le_nat_bytes)

lemma word32_at_field: "word32_at (pre @ le_bytes 4 (unat (w :: u32)) @ post) (length pre) = Ret w"
proof -
  have "unat w mod 256 ^ 4 = unat w" using unat_bound_u32 [of w] by simp
  then show ?thesis using load_le_at [of 4 pre "unat w" post] by (simp add: word32_at_def)
qed

lemma header_fields:
  assumes "img = pre @ header_bytes r @ post"
  shows "word32_at img (length pre) = Ret (ts_sec r)" and "word32_at img (length pre + 4) = Ret (ts_usec r)"
    and "word32_at img (length pre + 8) = Ret (incl_len r)" and "word32_at img (length pre + 12) = Ret (orig_len r)"
proof -
  let ?a = "le_bytes 4 (unat (ts_sec r))" and ?b = "le_bytes 4 (unat (ts_usec r))" and ?c = "le_bytes 4 (unat (incl_len r))"
  show "word32_at img (length pre) = Ret (ts_sec r)"
    using word32_at_field [of pre "ts_sec r"] by (simp add: assms header_bytes_def)
  show "word32_at img (length pre + 4) = Ret (ts_usec r)"
    using word32_at_field [of "pre @ ?a" "ts_usec r"] by (simp add: assms header_bytes_def)
  show "word32_at img (length pre + 8) = Ret (incl_len r)"
    using word32_at_field [of "pre @ ?a @ ?b" "incl_len r"] by (simp add: assms header_bytes_def)
  show "word32_at img (length pre + 12) = Ret (orig_len r)"
    using word32_at_field [of "pre @ ?a @ ?b @ ?c" "orig_len r"] by (simp add: assms header_bytes_def)
qed


lemma take_min_length: "take (min (length xs) n) xs = take n xs"
  by (simp add: min_def)

lemma take_two: "length p = c \<Longrightarrow> length z = k \<Longrightarrow> take (c + k) (p @ z @ rest) = p @ z"
  by simp

text \<open>A buffer the allocator hands out has the room the caller names; it may fail at any call.\<close>

definition alloc_room :: "('s \<Rightarrow> u8 list option \<times> 's) \<Rightarrow> u32 \<Rightarrow> bool" where
  "alloc_room alloc bs \<longleftrightarrow> (\<forall>s d s'. alloc s = (Some d, s') \<longrightarrow> unat bs - 128 \<le> length d)"

lemma read_pcap_lengths:
  assumes ok: "rec_ok bs r"
  shows "unat (copy_len_of (incl_len (fst r)) bs) = min (length (snd r)) (unat bs - 128)"
    and "unat (min (bs - copy_len_of (incl_len (fst r)) bs - 128) (orig_len (fst r) - incl_len (fst r))) = fill_len bs r"
    and "unat (ucast (copy_len_of (incl_len (fst r)) bs
           + min (bs - copy_len_of (incl_len (fst r)) bs - 128) (orig_len (fst r) - incl_len (fst r))) :: u16)
         = min (length (snd r)) (unat bs - 128) + fill_len bs r"
proof -
  let ?incl = "incl_len (fst r)" and ?orig = "orig_len (fst r)"
  let ?copy = "copy_len_of ?incl bs"
  have o: "length (snd r) = unat ?incl" "?incl \<le> ?orig" "128 \<le> unat bs" "unat bs < 65664"
    using ok by (simp_all add: rec_ok_def)
  have b128: "unat (bs - 128) = unat bs - 128" using o(3) by (simp add: unat_sub word_le_nat_alt)
  show copy: "unat ?copy = min (length (snd r)) (unat bs - 128)"
    using b128 o(1) by (auto simp: copy_len_of_def word_less_nat_alt)
  have "?copy \<le> bs - 128" unfolding word_le_nat_alt copy b128 by simp
  then have "unat (bs - 128 - ?copy) = unat bs - 128 - unat ?copy" by (simp only: unat_sub b128)
  then have "unat (bs - ?copy - 128) = unat bs - 128 - unat ?copy" by (simp only: diff_right_commute [of bs ?copy])
  also have "\<dots> = unat bs - 128 - unat ?incl" using copy o(1) by simp
  finally have "unat (bs - ?copy - 128) = unat bs - 128 - unat ?incl" .
  moreover have "unat (?orig - ?incl) = unat ?orig - unat ?incl" using o(2) by (simp add: unat_sub)
  ultimately show zf: "unat (min (bs - ?copy - 128) (?orig - ?incl)) = fill_len bs r"
    by (auto simp: fill_len_def min_def word_le_nat_alt)
  have "min (length (snd r)) (unat bs - 128) + fill_len bs r \<le> unat bs - 128"
    using o(1) unfolding fill_len_def by linarith
  then show "unat (ucast (?copy + min (bs - ?copy - 128) (?orig - ?incl)) :: u16)
      = min (length (snd r)) (unat bs - 128) + fill_len bs r"
    using copy zf o(4) by (simp add: unat_ucast_mod unat_add_u32)
qed

lemma read_pcap_record:
  assumes mem: "img = pre @ rec_bytes r @ post" and ok: "rec_ok bs r"
    and a: "alloc mp = (Some d, mp')" "unat bs - 128 \<le> length d"
    and rem: "unat (incl_len (fst r)) < unat remaining"
  shows "\<exists>b. libmoon_read_pcap alloc mp img (length pre) remaining bs nano = Ret (Some b, mp') \<and> mbuf_holds bs nano r b"
proof -
  let ?h = "fst r" and ?p = "take (unat bs - 128) (snd r)" and ?z = "replicate (fill_len bs r) 0"
  let ?incl = "incl_len ?h" and ?orig = "orig_len ?h"
  let ?copy = "copy_len_of ?incl bs" and ?c = "min (length (snd r)) (unat bs - 128)"
  have o: "length (snd r) = unat ?incl" using ok by (simp add: rec_ok_def)
  have f: "img = pre @ header_bytes ?h @ snd r @ post" using mem by (simp add: rec_bytes_def)
  note len = read_pcap_lengths [OF ok] and h = header_fields [OF f]
  have lp: "length ?p = ?c" by simp
  have fl: "?c + fill_len bs r \<le> length d" using a(2) o unfolding fill_len_def by linarith
  have rr: "\<not> remaining \<le> ucast ?incl"
    using rem unat_bound_u32 [of ?incl] by (simp add: word_le_nat_alt unat_ucast_mod)
  have "take ?c (snd r @ post) = ?p" by (simp add: take_min_length)
  then have sl: "slice img (length pre + 16) ?c = Ret ?p" using f by (simp add: slice_def)
  have bl: "blit d 0 ?p = Ret (?p @ drop ?c d)" using fl lp by (simp add: blit_def)
  have bl2: "blit (?p @ drop ?c d) ?c ?z = Ret (?p @ ?z @ drop (?c + fill_len bs r) d)"
    using fl lp by (simp add: blit_def add.commute take_min_length)
  let ?b = "\<lparr> pm_pkt_len = ?incl, pm_data_len = ucast (?copy + min (bs - ?copy - 128) (?orig - ?incl)),
      pm_timestamp = rec_stamp nano r, pm_data = ?p @ ?z @ drop (?c + fill_len bs r) d \<rparr>"
  have "libmoon_read_pcap alloc mp img (length pre) remaining bs nano = Ret (Some ?b, mp')"
    using h rr a(1) sl bl bl2
    by (simp only: libmoon_read_pcap_def Let_def obind.simps if_False prod.case option.case len(1,2) rec_stamp_def)
  moreover have "mbuf_holds bs nano r ?b"
    unfolding mbuf_holds_def pcap_mbuf.simps len(3) take_two [OF lp length_replicate] by (intro conjI refl)
  ultimately show ?thesis by blast
qed



lemma rec_bytes_length: "rec_ok bs r \<Longrightarrow> length (rec_bytes r) = 16 + unat (incl_len (fst r))"
  by (simp add: rec_bytes_def rec_ok_def)

text \<open>Reading consecutive records, starting anywhere in the file: one step of the loop over a record.\<close>

lemma read_batch_step:
  assumes f: "img = pre @ rec_bytes r @ rest" and "length pre = pcap + unat offset" and ok: "rec_ok bs r"
    and rem: "unat remaining = length (rec_bytes r @ rest)"
    and "unat offset + unat remaining < 18446744073709551616"
    and a: "alloc mp = (Some d, mp1)" "unat bs - 128 \<le> length d"
  obtains b offset1 remaining1 where "mbuf_holds bs nano r b"
    and "length (pre @ rec_bytes r) = pcap + unat offset1" and "unat remaining1 = length rest"
    and "unat offset1 + unat remaining1 < 18446744073709551616"
    and "\<And>n. read_batch_loop (Suc n) alloc mp img pcap offset remaining bs nano
      = obind (read_batch_loop n alloc mp1 img pcap offset1 remaining1 bs nano) (\<lambda>(bufs, mp). Ret (b # bufs, mp))"
proof -
  let ?i = "incl_len (fst r)"
  let ?offset = "offset + (ucast ?i + 16)" and ?remaining = "remaining - (ucast ?i + 16)"
  note len = rec_bytes_length [OF ok]
  have rem': "unat remaining = 16 + unat ?i + length rest" using rem len by simp
  obtain b where b: "libmoon_read_pcap alloc mp img (pcap + unat offset) remaining bs nano = Ret (Some b, mp1)"
      "mbuf_holds bs nano r b"
    using read_pcap_record [OF f ok, of alloc mp d mp1 remaining nano] a rem' assms(2) by auto
  have w: "word32_at img (pcap + unat offset + 8) = Ret ?i"
    using header_fields(3) [of img pre "fst r" "snd r @ rest"] f assms(2) by (simp add: rec_bytes_def)
  have i16: "unat (ucast ?i + 16 :: u64) = unat ?i + 16"
    using unat_bound_u32 [of ?i] by (simp add: unat_add_u64 unat_ucast_mod)
  have off: "unat ?offset = unat offset + unat ?i + 16"
    unfolding unat_add_u64 [of offset] i16 using rem' assms(5) by simp
  have rm: "unat ?remaining = length rest" using rem' i16 by (simp add: unat_sub word_le_nat_alt)
  show ?thesis
  proof (rule that [of b ?offset ?remaining])
    show "length (pre @ rec_bytes r) = pcap + unat ?offset" using len off assms(2) by simp
    show "unat ?offset + unat ?remaining < 18446744073709551616" using off rm rem' assms(5) by simp
  qed (use b w rm in simp_all)
qed


text \<open>A batch that asks for more reads behind the last record.\<close>

lemma read_batch_past:
  assumes room: "alloc_room alloc bs" and "\<And>mp. fst (alloc mp) \<noteq> None"
  shows "img = pre @ concat (map rec_bytes rs) \<Longrightarrow> length pre = pcap + unat offset \<Longrightarrow>
    list_all (rec_ok bs) rs \<Longrightarrow> unat remaining = length (concat (map rec_bytes rs)) \<Longrightarrow>
    unat offset + unat remaining < 18446744073709551616 \<Longrightarrow> length rs < n \<Longrightarrow>
    read_batch_loop n alloc mp img pcap offset remaining bs nano = Fault"
proof (induction rs arbitrary: n pre offset remaining mp)
  case Nil
  then have "word32_at img (pcap + unat offset + 8) = Fault" by (simp add: word32_at_def load_le_def)
  with Nil.prems(6) show ?case by (cases n) (simp_all add: libmoon_read_pcap_def)
next
  case (Cons r rs)
  obtain n' where n: "n = Suc n'" using Cons.prems(6) by (cases n) simp_all
  obtain d mp1 where a: "alloc mp = (Some d, mp1)" using assms(2) [of mp] by (cases "alloc mp") auto
  have l: "unat bs - 128 \<le> length d" using room a unfolding alloc_room_def by blast
  have f: "img = pre @ rec_bytes r @ concat (map rec_bytes rs)" and ok: "rec_ok bs r"
    and rem: "unat remaining = length (rec_bytes r @ concat (map rec_bytes rs))" using Cons.prems by simp_all
  obtain b offset1 remaining1 where st: "length (pre @ rec_bytes r) = pcap + unat offset1"
      "unat remaining1 = length (concat (map rec_bytes rs))" "unat offset1 + unat remaining1 < 18446744073709551616"
      "read_batch_loop (Suc n') alloc mp img pcap offset remaining bs nano
        = obind (read_batch_loop n' alloc mp1 img pcap offset1 remaining1 bs nano) (\<lambda>(bufs, mp). Ret (b # bufs, mp))"
    using read_batch_step [where alloc = alloc and mp = mp, OF f Cons.prems(2) ok rem Cons.prems(5) a l, of nano] by metis
  have "read_batch_loop n' alloc mp1 img pcap offset1 remaining1 bs nano = Fault"
    by (rule Cons.IH [of "pre @ rec_bytes r"]) (use st(1-3) f Cons.prems(3,6) n in simp_all)
  with st(4) n show ?case by simp
qed



section \<open>Properties\<close>


text \<open>A batch that asks for more buffers than the file has records does not stop at the end of the file: the
  length field of a record that is not there is read outside the mapping.\<close>
theorem pcap_batch_reads_past_end:
  assumes "list_all (rec_ok mempool_buf_size) rs" and "alloc_room alloc mempool_buf_size" and "\<And>mp. fst (alloc mp) \<noteq> None"
    and "img = pre @ concat (map rec_bytes rs)" and "length img < 4294967296" and "length rs < unat num_bufs"
  shows "libmoon_read_pcap_batch alloc mp num_bufs img (length pre)
    (word_of_nat (length (concat (map rec_bytes rs)))) mempool_buf_size nano = Fault"
proof -
  have "unat (word_of_nat (length (concat (map rec_bytes rs))) :: u64) = length (concat (map rec_bytes rs))"
    using assms(4,5) by (simp add: unat_word_of_nat)
  then show ?thesis
    using read_batch_past [OF assms(2,3,4) _ assms(1), of "length pre" 0] assms(4-6)
    by (simp add: libmoon_read_pcap_batch_def)
qed

section \<open>Instances for the witnesses\<close>



definition fixed_alloc :: "nat \<Rightarrow> u8 list option \<times> nat" where
  "fixed_alloc n = (Some (replicate 1920 0xFF), n + 1)"

lemma fixed_alloc_room: "alloc_room fixed_alloc 2048"
  by (simp add: alloc_room_def fixed_alloc_def)

definition test_recs :: "pcap_rec list" where
  "test_recs = [(\<lparr> ts_sec = 1, ts_usec = 2, incl_len = 3, orig_len = 5 \<rparr>, [7, 8, 9]),
     (\<lparr> ts_sec = 1, ts_usec = 3, incl_len = 5, orig_len = 5 \<rparr>, [1, 2, 3, 4, 5])]"

lemma test_recs_ok: "list_all (rec_ok 2048) test_recs" "list_all (rec_ok 132) test_recs"
  by (simp_all add: test_recs_def rec_ok_def)

lemma test_recs_length: "length (concat (map rec_bytes test_recs)) = 40"
  by (simp add: test_recs_def rec_bytes_def)


theorem pcap_batch_reads_past_end_witness:
  "libmoon_read_pcap_batch fixed_alloc 0 3 (replicate 24 0 @ concat (map rec_bytes test_recs)) (length (replicate 24 (0 :: u8)))
    (word_of_nat (length (concat (map rec_bytes test_recs)))) 2048 False = Fault"
proof -
  have l: "length test_recs < unat (3 :: u32)" by (simp add: test_recs_def)
  have n: "length (replicate 24 0 @ concat (map rec_bytes test_recs)) < 4294967296"
    by (simp add: test_recs_length)
  show ?thesis
    by (rule pcap_batch_reads_past_end [OF test_recs_ok(1) fixed_alloc_room _ refl n l]) (simp add: fixed_alloc_def)
qed

end
