(* ===== verification/Barrier.thy ===== *)
theory Barrier
  imports LM_Prelude
begin

text \<open>
  \<^verbatim>\<open>src/src/barrier.cpp\<close>: a counting barrier over a mutex and a condition variable. Each critical section is
  one atomic step; \<^verbatim>\<open>cond.wait(lock, pred)\<close> is the standard loop that evaluates the predicate under the
  lock, sleeps, and evaluates it again after a notification or a spurious wake-up. The step relation
  interleaves the threads \<open>T\<close> arbitrarily.
\<close>

section \<open>Model\<close>

text \<open>\<open>Woken\<close> is a thread that left its sleep but has not evaluated the predicate again.\<close>

datatype bpc = Before | Waiting | Woken | After

record barrier =
  bar_n :: u64
  bar_pc :: "nat \<Rightarrow> bpc"

definition make_barrier :: "u64 \<Rightarrow> barrier" where
  "make_barrier n = \<lparr> bar_n = n, bar_pc = (\<lambda>t. Before) \<rparr>"

definition notify_all :: "(nat \<Rightarrow> bpc) \<Rightarrow> nat \<Rightarrow> bpc" where
  "notify_all pc = (\<lambda>t. if pc t = Waiting then Woken else pc t)"

text \<open>Entering \<^verbatim>\<open>barrier_wait\<close>: count down, then pass or go to sleep.\<close>

definition barrier_arrive :: "nat \<Rightarrow> barrier \<Rightarrow> barrier" where
  "barrier_arrive t b =
     (let n = bar_n b - 1 in
      if n = 0 then \<lparr> bar_n = n, bar_pc = (notify_all (bar_pc b))(t := After) \<rparr>
      else \<lparr> bar_n = n, bar_pc = (bar_pc b)(t := Waiting) \<rparr>)"

definition barrier_recheck :: "nat \<Rightarrow> barrier \<Rightarrow> barrier" where
  "barrier_recheck t b = b\<lparr>bar_pc := (bar_pc b)(t := if bar_n b = 0 then After else Waiting)\<rparr>"

definition barrier_reinit :: "u64 \<Rightarrow> barrier \<Rightarrow> barrier" where
  "barrier_reinit n b = b\<lparr>bar_n := n\<rparr>"

inductive bstep :: "nat set \<Rightarrow> barrier \<Rightarrow> barrier \<Rightarrow> bool" for T where
  arrive: "t \<in> T \<Longrightarrow> bar_pc b t = Before \<Longrightarrow> bstep T b (barrier_arrive t b)"
| spurious: "t \<in> T \<Longrightarrow> bar_pc b t = Waiting \<Longrightarrow> bstep T b (b\<lparr>bar_pc := (bar_pc b)(t := Woken)\<rparr>)"
| recheck: "t \<in> T \<Longrightarrow> bar_pc b t = Woken \<Longrightarrow> bstep T b (barrier_recheck t b)"

inductive_cases bstepE: "bstep T b b'"

section \<open>Invariant\<close>

definition waiting_for :: "nat set \<Rightarrow> barrier \<Rightarrow> nat set" where
  "waiting_for T b = {t \<in> T. bar_pc b t = Before}"

definition barrier_inv :: "nat set \<Rightarrow> barrier \<Rightarrow> bool" where
  "barrier_inv T b \<longleftrightarrow> unat (bar_n b) = card (waiting_for T b)
     \<and> (\<forall>t \<in> T. bar_pc b t = After \<longrightarrow> bar_n b = 0)
     \<and> (bar_n b = 0 \<longrightarrow> (\<forall>t \<in> T. bar_pc b t \<noteq> Waiting))"

lemma arrive_waiting_for:
  "t \<in> T \<Longrightarrow> bar_pc b t = Before \<Longrightarrow> waiting_for T (barrier_arrive t b) = waiting_for T b - {t}"
  by (auto simp: waiting_for_def barrier_arrive_def notify_all_def Let_def split: if_splits)

lemma barrier_inv_step:
  assumes fin: "finite T" and "barrier_inv T b" and "bstep T b b'"
  shows "barrier_inv T b'"
  using assms(3)
proof (cases rule: bstep.cases)
  case (arrive t)
  let ?W = "waiting_for T b"
  have t: "t \<in> ?W" and W: "finite ?W" using arrive fin by (simp_all add: waiting_for_def)
  have n: "unat (bar_n b) = card ?W" using assms(2) by (simp add: barrier_inv_def)
  have pos: "0 < card ?W" using t W by (auto simp: card_gt_0_iff)
  then have nz: "bar_n b \<noteq> 0" using n by auto
  then have n1: "unat (bar_n b - 1) = card (?W - {t})" using n t W by (simp add: unat_minus_one)
  have noafter: "\<forall>u \<in> T. bar_pc b u \<noteq> After" using assms(2) nz by (auto simp: barrier_inv_def)
  have "bar_n (barrier_arrive t b) = bar_n b - 1" by (simp add: barrier_arrive_def Let_def)
  then have "unat (bar_n b') = card (waiting_for T b')"
    using n1 arrive_waiting_for [OF arrive(2,3)] by (simp add: arrive(1))
  then show ?thesis
    using noafter by (auto simp: barrier_inv_def arrive(1) barrier_arrive_def notify_all_def Let_def split: if_splits)
next
  case (spurious t)
  have "waiting_for T b' = waiting_for T b" using spurious by (auto simp: waiting_for_def)
  with assms(2) spurious show ?thesis by (auto simp: barrier_inv_def)
next
  case (recheck t)
  have "waiting_for T b' = waiting_for T b" using recheck by (auto simp: waiting_for_def barrier_recheck_def)
  with assms(2) recheck show ?thesis by (auto simp: barrier_inv_def barrier_recheck_def)
qed

lemma barrier_inv_init:
  assumes "finite T" and "unat n = card T"
  shows "barrier_inv T (make_barrier n)"
proof -
  have "waiting_for T (make_barrier n) = T" by (auto simp: waiting_for_def make_barrier_def)
  with assms show ?thesis by (simp add: barrier_inv_def make_barrier_def)
qed

lemma barrier_inv_reach:
  assumes "(bstep T)\<^sup>*\<^sup>* b b'" and "finite T" and "barrier_inv T b"
  shows "barrier_inv T b'"
  using assms by (induction rule: rtranclp_induct) (auto intro: barrier_inv_step)

section \<open>Progress without spurious wake-ups\<close>

text \<open>
  The steps a thread takes by itself: entering the barrier, and evaluating the predicate after a
  notification. A sleeping thread has none: only \<^verbatim>\<open>notify_all\<close> gets it on.
\<close>

inductive bown :: "nat set \<Rightarrow> barrier \<Rightarrow> barrier \<Rightarrow> bool" for T where
  own_arrive: "t \<in> T \<Longrightarrow> bar_pc b t = Before \<Longrightarrow> bown T b (barrier_arrive t b)"
| own_recheck: "t \<in> T \<Longrightarrow> bar_pc b t = Woken \<Longrightarrow> bown T b (barrier_recheck t b)"

lemma bown_bstep: "bown T b b' \<Longrightarrow> bstep T b b'"
  by (cases rule: bown.cases) (auto intro: bstep.intros)

text \<open>What a thread can still cost: two steps before it arrives, or when a spurious wake-up has got it up
  early, one while it sleeps and one when it is up and the count is 0.\<close>

fun pc_cost :: "bool \<Rightarrow> bpc \<Rightarrow> nat" where
  "pc_cost zero Before = 2"
| "pc_cost zero Waiting = 1"
| "pc_cost zero Woken = (if zero then 1 else 2)"
| "pc_cost zero After = 0"

definition steps_left :: "nat set \<Rightarrow> barrier \<Rightarrow> nat" where
  "steps_left T b = (\<Sum>t \<in> T. pc_cost (bar_n b = 0) (bar_pc b t))"

lemma steps_left_bound: "steps_left T b \<le> 2 * card T"
proof -
  have "pc_cost z p \<le> 2" for z p by (cases p) simp_all
  then have "steps_left T b \<le> (\<Sum>t \<in> T. 2)" unfolding steps_left_def by (intro sum_mono)
  then show ?thesis by simp
qed

lemma pc_cost_notified:
  "pc_cost True (if p = Waiting then Woken else p) \<le> pc_cost z p"
  by (cases p) simp_all

lemma bown_steps_left:
  assumes fin: "finite T" and i: "barrier_inv T b" and s: "bown T b b'"
  shows "steps_left T b' < steps_left T b"
  using s
proof (cases rule: bown.cases)
  case (own_arrive t)
  have nz: "bar_n b \<noteq> 0"
  proof
    assume "bar_n b = 0"
    then have "waiting_for T b = {}" using i fin by (simp add: barrier_inv_def waiting_for_def)
    with own_arrive show False by (auto simp: waiting_for_def)
  qed
  have "pc_cost (bar_n b' = 0) (bar_pc b' u) \<le> pc_cost (bar_n b = 0) (bar_pc b u)" for u
    using own_arrive(3) nz pc_cost_notified [of "bar_pc b u" False]
    by (auto simp: own_arrive(1) barrier_arrive_def notify_all_def Let_def)
  moreover have "pc_cost (bar_n b' = 0) (bar_pc b' t) < pc_cost (bar_n b = 0) (bar_pc b t)"
    using own_arrive(3) by (simp add: own_arrive(1) barrier_arrive_def Let_def)
  ultimately show ?thesis
    unfolding steps_left_def using own_arrive(2) fin by (intro sum_strict_mono_ex1) auto
next
  case (own_recheck t)
  have "pc_cost (bar_n b' = 0) (bar_pc b' u) \<le> pc_cost (bar_n b = 0) (bar_pc b u)" for u
    using own_recheck(3) by (simp add: own_recheck(1) barrier_recheck_def)
  moreover have "pc_cost (bar_n b' = 0) (bar_pc b' t) < pc_cost (bar_n b = 0) (bar_pc b t)"
    using own_recheck(3) by (simp add: own_recheck(1) barrier_recheck_def)
  ultimately show ?thesis
    unfolding steps_left_def using own_recheck(2) fin by (intro sum_strict_mono_ex1) auto
qed

lemma bown_run:
  assumes "(bown T ^^ k) b b'" and "finite T" and "barrier_inv T b"
  shows "k + steps_left T b' \<le> steps_left T b \<and> barrier_inv T b'"
  using assms(1)
proof (induction k arbitrary: b')
  case 0
  with assms(3) show ?case by simp
next
  case (Suc k)
  then obtain c where c: "(bown T ^^ k) b c" "bown T c b'" by auto
  note IH = Suc.IH [OF c(1)]
  have "steps_left T b' < steps_left T c" using bown_steps_left [OF assms(2) _ c(2)] IH by blast
  moreover have "barrier_inv T b'" using barrier_inv_step [OF assms(2) _ bown_bstep [OF c(2)]] IH by blast
  ultimately show ?case using IH by simp
qed

text \<open>A state with no step of their own left is one that every thread has passed: no thread sleeps.\<close>

lemma bown_stuck:
  assumes "barrier_inv T b" and "finite T" and "\<nexists>b'. bown T b b'" and "t \<in> T"
  shows "bar_pc b t = After"
proof -
  have "\<not> bar_pc b u = Before" if "u \<in> T" for u using assms(3) that by (auto intro: own_arrive)
  then have "waiting_for T b = {}" by (auto simp: waiting_for_def)
  then have "bar_n b = 0" using assms(1) by (simp add: barrier_inv_def unat_eq_zero)
  then have "bar_pc b t \<noteq> Waiting" using assms(1,4) by (simp add: barrier_inv_def)
  moreover have "bar_pc b t \<noteq> Woken" "bar_pc b t \<noteq> Before" using assms(3,4) by (auto intro: own_arrive own_recheck)
  ultimately show ?thesis by (cases "bar_pc b t") simp_all
qed

section \<open>Properties\<close>

text \<open>C38: A barrier made for as many threads as use it lets no thread pass before all of them have arrived,
  whatever the interleaving and whichever spurious wake-ups occur, and no wake-up is lost: as soon as the
  last thread has arrived no thread sleeps.\<close>
theorem barrier_safe:
  assumes "finite T" and "unat n = card T" and "(bstep T)\<^sup>*\<^sup>* (make_barrier n) b" and "t \<in> T" and "bar_pc b t = After"
  shows "waiting_for T b = {} \<and> (\<forall>u \<in> T. bar_pc b u = Woken \<or> bar_pc b u = After)"
proof -
  have i: "barrier_inv T b" using barrier_inv_reach [OF assms(3,1) barrier_inv_init [OF assms(1,2)]] .
  then have n: "bar_n b = 0" using assms(4,5) by (auto simp: barrier_inv_def)
  then have "card (waiting_for T b) = 0" using i by (simp add: barrier_inv_def)
  then have "waiting_for T b = {}" using assms(1) by (simp add: waiting_for_def)
  moreover have "bar_pc b u = Woken \<or> bar_pc b u = After" if "u \<in> T" for u
    using that i n \<open>waiting_for T b = {}\<close> by (cases "bar_pc b u") (auto simp: barrier_inv_def waiting_for_def)
  ultimately show ?thesis by blast
qed

text \<open>C39: The barrier does not deadlock, and needs no spurious wake-up to get on: from every state the
  threads can get into (spurious wake-ups included), however their own steps are scheduled from there, at
  most two steps per thread are possible, and when none is left every thread has passed.\<close>
theorem barrier_completes:
  assumes "finite T" and "unat n = card T" and "(bstep T)\<^sup>*\<^sup>* (make_barrier n) b" and "(bown T ^^ k) b b'"
  shows "k \<le> 2 * card T \<and> ((\<nexists>b''. bown T b' b'') \<longrightarrow> (\<forall>t \<in> T. bar_pc b' t = After))"
proof -
  have "barrier_inv T b" using barrier_inv_reach [OF assms(3,1) barrier_inv_init [OF assms(1,2)]] .
  note r = bown_run [OF assms(4,1) this]
  moreover have "k \<le> 2 * card T" using r steps_left_bound [of T b] by simp
  ultimately show ?thesis using bown_stuck [OF _ assms(1)] by blast
qed

text \<open>Re-initialising a barrier while released threads have not left it strands them: a thread that has
  been notified but not run finds the new count and sleeps again, although its round is complete.\<close>
theorem barrier_reinit_strands:
  "\<exists>b. (bstep {0, 1})\<^sup>*\<^sup>* (make_barrier 2) b \<and> bar_pc b 0 = Woken \<and> bar_pc b 1 = After
    \<and> bar_pc (barrier_recheck 0 (barrier_reinit 2 b)) 0 = Waiting"
proof -
  let ?b1 = "barrier_arrive 0 (make_barrier 2)" and ?b2 = "barrier_arrive 1 (barrier_arrive 0 (make_barrier 2))"
  have "bstep {0, 1} (make_barrier 2) ?b1" by (rule bstep.arrive) (simp_all add: make_barrier_def)
  moreover have "bstep {0, 1} ?b1 ?b2" by (rule bstep.arrive) (simp_all add: make_barrier_def barrier_arrive_def)
  ultimately have "(bstep {0, 1})\<^sup>*\<^sup>* (make_barrier 2) ?b2" by simp
  moreover have "bar_pc ?b2 0 = Woken \<and> bar_pc ?b2 1 = After
      \<and> bar_pc (barrier_recheck 0 (barrier_reinit 2 ?b2)) 0 = Waiting"
    by (simp add: make_barrier_def barrier_arrive_def notify_all_def barrier_recheck_def barrier_reinit_def)
  ultimately show ?thesis by blast
qed

text \<open>One arrival more than the count wraps the counter to its maximum.\<close>

lemma barrier_late_arrival:
  assumes "bar_n b = 0"
  shows "bar_n (barrier_arrive t b) = - 1 \<and> bar_pc (barrier_arrive t b) t = Waiting"
  using assms by (simp add: barrier_arrive_def)

theorem barrier_safe_witness:
  "waiting_for {0, 1} (barrier_arrive 1 (barrier_arrive 0 (make_barrier 2))) = {}"
proof -
  let ?b1 = "barrier_arrive 0 (make_barrier 2)" and ?b2 = "barrier_arrive 1 (barrier_arrive 0 (make_barrier 2))"
  have "bstep {0, 1} (make_barrier 2) ?b1" by (rule bstep.arrive) (simp_all add: make_barrier_def)
  moreover have "bstep {0, 1} ?b1 ?b2" by (rule bstep.arrive) (simp_all add: make_barrier_def barrier_arrive_def)
  ultimately have r: "(bstep {0, 1})\<^sup>*\<^sup>* (make_barrier 2) ?b2" by simp
  have "bar_pc ?b2 1 = After" by (simp add: make_barrier_def barrier_arrive_def)
  then show ?thesis using barrier_safe [OF _ _ r, of 1] by simp
qed

theorem barrier_completes_witness:
  "bar_pc (barrier_recheck 0 (barrier_arrive 1 (barrier_arrive 0 (make_barrier 2)))) 0 = After \<and>
   bar_pc (barrier_recheck 0 (barrier_arrive 1 (barrier_arrive 0 (make_barrier 2)))) 1 = After"
proof -
  let ?b1 = "barrier_arrive 0 (make_barrier 2)"
  let ?b2 = "barrier_arrive 1 ?b1"
  let ?b3 = "barrier_recheck 0 ?b2"
  have "bown {0, 1} (make_barrier 2) ?b1" by (rule own_arrive) (simp_all add: make_barrier_def)
  moreover have "bown {0, 1} ?b1 ?b2" by (rule own_arrive) (simp_all add: make_barrier_def barrier_arrive_def)
  moreover have "bown {0, 1} ?b2 ?b3"
    by (rule own_recheck) (simp_all add: make_barrier_def barrier_arrive_def notify_all_def)
  ultimately have r: "(bown {0, 1} ^^ 3) (make_barrier 2) ?b3" by (auto simp: numeral_3_eq_3)
  have pc: "bar_pc ?b3 0 = After" "bar_pc ?b3 1 = After"
    by (simp_all add: make_barrier_def barrier_arrive_def barrier_recheck_def)
  then have "\<nexists>b''. bown {0, 1} ?b3 b''" by (auto elim!: bown.cases)
  then show ?thesis using barrier_completes [OF _ _ rtranclp.rtrancl_refl r] by simp
qed

end
