(* ===== verification/Stores.thy ===== *)
theory Stores
  imports LM_Prelude
begin

text \<open>
  The shared state between tasks: \<^verbatim>\<open>src/src/lock.cpp\<close> (recursive locks), \<^verbatim>\<open>src/src/task-results.cpp\<close> (results of
  finished tasks) and \<^verbatim>\<open>src/src/namespaces.cpp\<close> (named string maps). Every function of the two stores holds
  its mutex for its whole body, so each is one atomic operation. Pointers to namespaces are indices into
  the list of the namespaces allocated so far.
\<close>

section \<open>Locks\<close>

text \<open>A \<^verbatim>\<open>std::recursive_timed_mutex\<close>: its owner and how often it holds the lock.\<close>

type_synonym rmutex = "(nat \<times> nat) option"

definition make_lock :: rmutex where
  "make_lock = None"

text \<open>\<open>None\<close> is a caller that has to wait.\<close>

definition lock_lock :: "nat \<Rightarrow> rmutex \<Rightarrow> rmutex option" where
  "lock_lock t m = (case m of None \<Rightarrow> Some (Some (t, 1))
     | Some (o', k) \<Rightarrow> if o' = t then Some (Some (t, k + 1)) else None)"

text \<open>Unlocking a mutex of another thread is undefined; \<open>None\<close> here.\<close>

definition lock_unlock :: "nat \<Rightarrow> rmutex \<Rightarrow> rmutex option" where
  "lock_unlock t m = (case m of Some (o', k) \<Rightarrow>
     if o' = t then Some (if k = 1 then None else Some (t, k - 1)) else None | None \<Rightarrow> None)"

definition lock_try_lock :: "nat \<Rightarrow> rmutex \<Rightarrow> u32 \<times> rmutex" where
  "lock_try_lock t m = (case lock_lock t m of Some m' \<Rightarrow> (1, m') | None \<Rightarrow> (0, m))"

text \<open>With a timeout: \<open>ms\<close> are the states the mutex goes through while the caller waits, the current one first.\<close>

fun lock_try_lock_for :: "nat \<Rightarrow> rmutex list \<Rightarrow> (u32 \<times> rmutex) option" where
  "lock_try_lock_for t [] = None"
| "lock_try_lock_for t [m] = Some (lock_try_lock t m)"
| "lock_try_lock_for t (m # ms) =
     (case lock_lock t m of Some m' \<Rightarrow> Some (1, m') | None \<Rightarrow> lock_try_lock_for t ms)"

section \<open>Task results\<close>

record task_store =
  task_results :: "u64 \<rightharpoonup> string"
  task_id_ctr :: u64

definition init_task_store :: task_store where
  "init_task_store = \<lparr> task_results = Map.empty, task_id_ctr = 1 \<rparr>"

definition task_generate_id :: "task_store \<Rightarrow> u64 \<times> task_store" where
  "task_generate_id s = (task_id_ctr s, s\<lparr>task_id_ctr := task_id_ctr s + 1\<rparr>)"

text \<open>\<^verbatim>\<open>emplace\<close> keeps an existing entry.\<close>

definition task_store_result :: "u64 \<Rightarrow> string \<Rightarrow> task_store \<Rightarrow> task_store" where
  "task_store_result task_id result s =
     (case task_results s task_id of Some _ \<Rightarrow> s
      | None \<Rightarrow> s\<lparr>task_results := (task_results s)(task_id \<mapsto> result)\<rparr>)"

definition task_get_result :: "u64 \<Rightarrow> task_store \<Rightarrow> string option \<times> task_store" where
  "task_get_result task_id s =
     (case task_results s task_id of
        Some str \<Rightarrow> (Some str, s\<lparr>task_results := (task_results s)(task_id := None)\<rparr>)
      | None \<Rightarrow> (None, s))"

section \<open>Namespaces\<close>

type_synonym ns = "string \<rightharpoonup> string"

record ns_state =
  namespaces :: "string \<rightharpoonup> nat"
  ns_heap :: "ns list"

definition init_ns_state :: ns_state where
  "init_ns_state = \<lparr> namespaces = Map.empty, ns_heap = [] \<rparr>"

definition create_or_get_namespace :: "string \<Rightarrow> ns_state \<Rightarrow> nat \<times> ns_state" where
  "create_or_get_namespace name s =
     (case namespaces s name of Some p \<Rightarrow> (p, s)
      | None \<Rightarrow> let p = length (ns_heap s) in
          (p, s\<lparr>ns_heap := ns_heap s @ [Map.empty], namespaces := (namespaces s)(name \<mapsto> p)\<rparr>))"

definition namespace_store :: "nat \<Rightarrow> string \<Rightarrow> string \<Rightarrow> ns_state \<Rightarrow> ns_state" where
  "namespace_store p key val s = s\<lparr>ns_heap := (ns_heap s)[p := (ns_heap s ! p)(key \<mapsto> val)]\<rparr>"

definition namespace_delete :: "nat \<Rightarrow> string \<Rightarrow> ns_state \<Rightarrow> ns_state" where
  "namespace_delete p key s = s\<lparr>ns_heap := (ns_heap s)[p := (ns_heap s ! p)(key := None)]\<rparr>"

definition namespace_retrieve :: "nat \<Rightarrow> string \<Rightarrow> ns_state \<Rightarrow> string option" where
  "namespace_retrieve p key s = (ns_heap s ! p) key"

text \<open>The iteration calls back once per entry, in the order \<open>order\<close> of the hash table.\<close>

definition namespace_iterate :: "(ns \<Rightarrow> string list) \<Rightarrow> nat \<Rightarrow> ns_state \<Rightarrow> (string \<times> string) list" where
  "namespace_iterate order p s = map (\<lambda>k. (k, the ((ns_heap s ! p) k))) (order (ns_heap s ! p))"

section \<open>The contract of a key-value store\<close>

datatype ('k, 'v) kv_op = Put 'k 'v | Del 'k

locale kv_store =
  fixes inv :: "'s \<Rightarrow> bool"
    and lookup :: "'s \<Rightarrow> 'k \<Rightarrow> 'v option"
    and put :: "'k \<Rightarrow> 'v \<Rightarrow> 's \<Rightarrow> 's"
    and del :: "'k \<Rightarrow> 's \<Rightarrow> 's"
  assumes put_law: "inv s \<Longrightarrow> inv (put k v s) \<and> lookup (put k v s) = (lookup s)(k \<mapsto> v)"
    and del_law: "inv s \<Longrightarrow> inv (del k s) \<and> lookup (del k s) = (lookup s)(k := None)"
begin

definition apply_op :: "'s \<Rightarrow> ('k, 'v) kv_op \<Rightarrow> 's" where
  "apply_op s op = (case op of Put k v \<Rightarrow> put k v s | Del k \<Rightarrow> del k s)"

lemma run_ops:
  "inv s \<Longrightarrow> inv (foldl apply_op s ops) \<and> lookup (foldl apply_op s ops)
    = foldl (\<lambda>m op. case op of Put k v \<Rightarrow> m(k \<mapsto> v) | Del k \<Rightarrow> m(k := None)) (lookup s) ops"
proof (induction ops arbitrary: s)
  case (Cons op ops)
  show ?case
  proof (cases op)
    case (Put k v)
    with Cons.IH [of "put k v s"] put_law [OF Cons.prems, of k v] show ?thesis by (simp add: apply_op_def del: fun_upd_apply)
  next
    case (Del k)
    with Cons.IH [of "del k s"] del_law [OF Cons.prems, of k] show ?thesis by (simp add: apply_op_def del: fun_upd_apply)
  qed
qed simp

end

text \<open>
  A program that works with namespaces by name: look the namespace up (creating it), then operate on it.
\<close>

definition ns_put :: "string \<times> string \<Rightarrow> string \<Rightarrow> ns_state \<Rightarrow> ns_state" where
  "ns_put nk val s = (let (p, s') = create_or_get_namespace (fst nk) s in namespace_store p (snd nk) val s')"

definition ns_del :: "string \<times> string \<Rightarrow> ns_state \<Rightarrow> ns_state" where
  "ns_del nk s = (let (p, s') = create_or_get_namespace (fst nk) s in namespace_delete p (snd nk) s')"

definition ns_get :: "ns_state \<Rightarrow> string \<times> string \<Rightarrow> string option" where
  "ns_get s nk = (let (p, s') = create_or_get_namespace (fst nk) s in namespace_retrieve p (snd nk) s')"

definition ns_inv :: "ns_state \<Rightarrow> bool" where
  "ns_inv s \<longleftrightarrow> (\<forall>a b p. namespaces s a = Some p \<longrightarrow> namespaces s b = Some p \<longrightarrow> a = b)
     \<and> (\<forall>a p. namespaces s a = Some p \<longrightarrow> p < length (ns_heap s))"

lemma create_or_get_spec:
  assumes "ns_inv s" and "create_or_get_namespace name s = (p, s')"
  shows "ns_inv s'" and "namespaces s' name = Some p" and "p < length (ns_heap s')"
    and "ns_get s' = ns_get s"
    and "create_or_get_namespace name s' = (p, s')"
proof -
  show i: "ns_inv s'"
  proof (cases "namespaces s name")
    case None
    with assms(2) have s': "s' = s\<lparr>ns_heap := ns_heap s @ [Map.empty], namespaces := (namespaces s)(name \<mapsto> length (ns_heap s))\<rparr>"
      by (auto simp: create_or_get_namespace_def Let_def)
    have "namespaces s n \<noteq> Some (length (ns_heap s))" for n
      using assms(1) unfolding ns_inv_def by (metis less_irrefl)
    with assms(1) show ?thesis unfolding ns_inv_def s' by (auto simp: less_Suc_eq)
  qed (use assms in \<open>simp add: create_or_get_namespace_def\<close>)
  show n: "namespaces s' name = Some p" using assms(2)
    by (auto simp: create_or_get_namespace_def Let_def split: option.splits)
  then show "p < length (ns_heap s')" using i unfolding ns_inv_def by blast
  show "create_or_get_namespace name s' = (p, s')" using n by (simp add: create_or_get_namespace_def)
  show "ns_get s' = ns_get s"
  proof (rule ext)
    fix nk
    show "ns_get s' nk = ns_get s nk"
    proof (cases "namespaces s (fst nk)")
      case None
      with assms show ?thesis
        by (auto simp: ns_get_def create_or_get_namespace_def namespace_retrieve_def Let_def nth_append
            split: option.splits if_splits)
    next
      case (Some q)
      then have "q < length (ns_heap s)" using assms(1) unfolding ns_inv_def by blast
      with Some assms(2) show ?thesis
        by (auto simp: ns_get_def create_or_get_namespace_def namespace_retrieve_def Let_def nth_append
            split: option.splits if_splits)
    qed
  qed
qed

lemma ns_get_existing:
  "namespaces s name = Some p \<Longrightarrow> ns_get s (name, k) = (ns_heap s ! p) k"
  by (simp add: ns_get_def create_or_get_namespace_def namespace_retrieve_def)

text \<open>Changing one entry of the namespace at \<open>p\<close> changes what one name and key show.\<close>

lemma ns_update_entry:
  assumes "ns_inv s" and "namespaces s name = Some p" and "p < length (ns_heap s)"
    and "s' = s\<lparr>ns_heap := (ns_heap s)[p := (ns_heap s ! p)(key := v)]\<rparr>"
  shows "ns_inv s' \<and> ns_get s' = (ns_get s)((name, key) := v)"
proof
  show "ns_inv s'" using assms by (simp add: ns_inv_def)
  show "ns_get s' = (ns_get s)((name, key) := v)"
  proof (rule ext)
    fix nk :: "string \<times> string"
    obtain n k where nk: "nk = (n, k)" by fastforce
    show "ns_get s' nk = ((ns_get s)((name, key) := v)) nk"
    proof (cases "namespaces s n")
      case None
      with assms nk show ?thesis
        by (auto simp: ns_get_def create_or_get_namespace_def namespace_retrieve_def Let_def nth_append)
    next
      case (Some q)
      have "q = p \<longleftrightarrow> n = name"
        using assms(1,2) Some unfolding ns_inv_def by (metis option.inject)
      with Some assms(2-4) nk show ?thesis
        by (auto simp: ns_get_existing nth_list_update)
    qed
  qed
qed

interpretation nsp: kv_store ns_inv ns_get ns_put ns_del
proof unfold_locales
  fix s and k :: "string \<times> string" and v
  assume i: "ns_inv s"
  obtain p s1 where c: "create_or_get_namespace (fst k) s = (p, s1)" by fastforce
  note sp = create_or_get_spec [OF i c]
  show "ns_inv (ns_put k v s) \<and> ns_get (ns_put k v s) = (ns_get s)(k \<mapsto> v)"
    using ns_update_entry [OF sp(1-3), of _ "snd k" "Some v"] sp(4) c by (simp add: ns_put_def namespace_store_def)
next
  fix s and k :: "string \<times> string"
  assume i: "ns_inv s"
  obtain p s1 where c: "create_or_get_namespace (fst k) s = (p, s1)" by fastforce
  note sp = create_or_get_spec [OF i c]
  show "ns_inv (ns_del k s) \<and> ns_get (ns_del k s) = (ns_get s)(k := None)"
    using ns_update_entry [OF sp(1-3), of _ "snd k" None] sp(4) c by (simp add: ns_del_def namespace_delete_def)
qed

section \<open>Properties\<close>

definition ns_apply :: "ns_state \<Rightarrow> (string \<times> string, string) kv_op \<Rightarrow> ns_state" where
  "ns_apply s op = (case op of Put nk v \<Rightarrow> ns_put nk v s | Del nk \<Rightarrow> ns_del nk s)"

text \<open>C40: Namespaces implement a map from namespace and key to value: after any sequence of stores and deletes
  through any namespaces, a retrieve returns exactly the value last stored under that name and key and not
  deleted since; namespaces of different names do not interfere, and the same name always finds the same
  namespace.\<close>
theorem namespaces_refine_map:
  "ns_get (foldl ns_apply init_ns_state ops)
    = foldl (\<lambda>m op. case op of Put nk v \<Rightarrow> m(nk \<mapsto> v) | Del nk \<Rightarrow> m(nk := None)) Map.empty ops"
proof -
  have "ns_inv init_ns_state" by (simp add: ns_inv_def init_ns_state_def)
  moreover have "ns_get init_ns_state = Map.empty"
    by (rule ext) (simp add: ns_get_def create_or_get_namespace_def namespace_retrieve_def init_ns_state_def)
  moreover have "ns_apply = nsp.apply_op" by (intro ext) (simp add: ns_apply_def nsp.apply_op_def)
  ultimately show ?thesis using nsp.run_ops [of init_ns_state ops] by simp
qed

text \<open>A task result is delivered exactly once: the first stored result of a task is what the first get
  returns, later stores under the same identifier are ignored, and after the get the entry is gone;
  identifiers generated one after the other differ until the counter wraps.\<close>
theorem task_result_once:
  assumes "task_results s i = None"
  shows "let s1 = foldl (\<lambda>s r. task_store_result i r s) (task_store_result i r s) rs;
             (g1, s2) = task_get_result i s1; (g2, s3) = task_get_result i s2
         in g1 = Some r \<and> g2 = None \<and> task_results s3 = task_results s"
proof -
  have "foldl (\<lambda>s r. task_store_result i r s) s1 rs = s1" if "task_results s1 i = Some r'" for s1 r'
    using that by (induction rs) (simp_all add: task_store_result_def)
  then show ?thesis using assms by (auto simp: task_store_result_def task_get_result_def Let_def)
qed

lemma task_ids_distinct:
  "n < 18446744073709551616 \<Longrightarrow> 0 < n \<Longrightarrow>
    fst (task_generate_id (((\<lambda>s. snd (task_generate_id s)) ^^ n) s)) \<noteq> fst (task_generate_id s)"
proof -
  assume n: "n < 18446744073709551616" "0 < n"
  have c: "task_id_ctr (((\<lambda>s. snd (task_generate_id s)) ^^ n) s) = task_id_ctr s + word_of_nat n" for n
    by (induction n) (simp_all add: task_generate_id_def)
  have "unat (word_of_nat n :: u64) = n" using n(1) by (simp add: unat_word_of_nat)
  then have "(word_of_nat n :: u64) \<noteq> 0" using n(2) by (metis less_numeral_extra(3) unat_0)
  then show ?thesis using c [of n] by (simp add: task_generate_id_def)
qed

theorem task_result_once_witness:
  "let s1 = foldl (\<lambda>s r. task_store_result 1 r s) (task_store_result 1 ''a'' init_task_store) [''b''];
       (g1, s2) = task_get_result 1 s1; (g2, s3) = task_get_result 1 s2
   in g1 = Some ''a'' \<and> g2 = None \<and> task_results s3 = task_results init_task_store"
  by (rule task_result_once) (simp add: init_task_store_def)

end
