(* ===== verification/Startup.thy ===== *)
theory Startup
  imports RteRing
begin

text \<open>
  \<^verbatim>\<open>src/src/main.cpp\<close> and \<^verbatim>\<open>src/src/task.cpp\<close>: finding the installation directory, the Lua search path, and
  the start of the master and of the slave tasks. File system queries and the Lua interpreter are
  parameters; what is passed to Lua is recorded. A process that calls \<^verbatim>\<open>std::abort\<close> is \<open>None\<close>.
\<close>

section \<open>Base directory\<close>

definition is_base_dir :: "(string \<Rightarrow> bool) \<Rightarrow> string \<Rightarrow> bool" where
  "is_base_dir stat_ok path \<longleftrightarrow> stat_ok (path @ ''/lua/libmoon.lua'') \<and> stat_ok (path @ ''/lua/main.lua'')"

text \<open>\<^verbatim>\<open>exec_path.substr(0, exec_path.find_last_of("/") + 1)\<close>; \<open>None\<close> when there is no slash.\<close>

definition strip_binary :: "string \<Rightarrow> string option" where
  "strip_binary path =
     (if CHR ''/'' \<in> set path then Some (rev (dropWhile (\<lambda>c. c \<noteq> CHR ''/'') (rev path))) else None)"

fun check_dirs_loop :: "(string \<Rightarrow> bool) \<Rightarrow> string \<Rightarrow> string list \<Rightarrow> string option" where
  "check_dirs_loop stat_ok exec_path [] = None"
| "check_dirs_loop stat_ok exec_path (dir # dirs) =
     (let path = (case dir of c # cs \<Rightarrow> if c = CHR ''/'' then dir else exec_path @ dir | [] \<Rightarrow> exec_path @ dir) in
      if is_base_dir stat_ok path then Some path else check_dirs_loop stat_ok exec_path dirs)"

text \<open>\<open>exe\<close> is the target of \<^verbatim>\<open>/proc/self/exe\<close>, \<open>None\<close> when \<^verbatim>\<open>readlink\<close> fails.\<close>

definition find_base_dir :: "(string \<Rightarrow> bool) \<Rightarrow> string option \<Rightarrow> string list \<Rightarrow> string option" where
  "find_base_dir stat_ok exe check_dirs =
     (case exe of None \<Rightarrow> None
      | Some buf \<Rightarrow> (case strip_binary buf of None \<Rightarrow> None
          | Some exec_path \<Rightarrow> check_dirs_loop stat_ok exec_path check_dirs))"

definition setup_base_dir :: "(string \<Rightarrow> bool) \<Rightarrow> string option \<Rightarrow> string option \<Rightarrow> string list \<Rightarrow> bool \<Rightarrow> string option" where
  "setup_base_dir stat_ok exe cwd check_dirs check_cwd =
     (if check_cwd
      then (case cwd of None \<Rightarrow> None | Some buf \<Rightarrow> find_base_dir stat_ok exe (buf # check_dirs))
      else find_base_dir stat_ok exe check_dirs)"

text \<open>\<open>None\<close> is the exception thrown when no base directory is set.\<close>

definition setup_extra_lua_path :: "string option \<Rightarrow> string list \<Rightarrow> string option" where
  "setup_extra_lua_path base_dir paths =
     (case base_dir of None \<Rightarrow> None | Some base \<Rightarrow> Some (concat (map (\<lambda>path. base @ ''/'' @ path @ '';'') paths)))"

section \<open>Lua\<close>

definition quote :: string where "quote = [CHR 0x27]"

definition build_lua_path :: "string \<Rightarrow> string option \<Rightarrow> string" where
  "build_lua_path base extra_lua_path =
     quote @ (case extra_lua_path of Some e \<Rightarrow> e | None \<Rightarrow> [])
     @ base @ ''/lua/?.lua;'' @ base @ ''/lua/?/init.lua;'' @ base @ ''/lua/lib/?.lua;''
     @ base @ ''/lua/lib/turbo/?.lua;'' @ base @ ''/lua/lib/?/init.lua;'' @ quote"

text \<open>
  The interpreter runs a chunk or calls the global \<^verbatim>\<open>main\<close>; each answers whether it raised an error. The
  first component of a result is the list of requests made.
\<close>

datatype lua_req = DoString string | CallMain "string list" | LuaClose

type_synonym lua_oracle = "lua_req list \<Rightarrow> lua_req \<Rightarrow> bool"

text \<open>\<open>main_module\<close> is the build-time constant \<^verbatim>\<open>LIBMOON_LUA_MAIN_MODULE\<close>. \<open>None\<close>: the main script failed, abort.\<close>

definition launch_lua :: "lua_oracle \<Rightarrow> string \<Rightarrow> string \<Rightarrow> string option \<Rightarrow> lua_req list option" where
  "launch_lua fails main_module base extra_lua_path =
     (let r1 = DoString (''package.path = '' @ build_lua_path base extra_lua_path @ '' .. package.path'');
          r2 = DoString (''require '' @ quote @ main_module @ quote)
      in if fails [r1] r2 then None else Some [r1, r2])"

definition lua_core_main :: "lua_oracle \<Rightarrow> string \<Rightarrow> string \<Rightarrow> string option \<Rightarrow> string \<Rightarrow> (int \<times> lua_req list) option" where
  "lua_core_main fails main_module base extra_lua_path arg =
     (case launch_lua fails main_module base extra_lua_path of None \<Rightarrow> None
      | Some reqs \<Rightarrow>
         let call = CallMain [''slave'', arg] in
         if fails reqs call then Some (- 1, reqs @ [call]) else Some (0, reqs @ [call, LuaClose]))"

text \<open>The argument string is copied, terminator included, for the task that starts on the other core.\<close>

definition launch_lua_core :: "(nat \<Rightarrow> string \<Rightarrow> 'r) \<Rightarrow> nat \<Rightarrow> string \<Rightarrow> 'r" where
  "launch_lua_core remote_launch core arg = remote_launch core (takeWhile (\<lambda>c. c \<noteq> CHR 0x00) arg)"

definition print_usage :: "string \<Rightarrow> string" where
  "print_usage app_name = ''Usage: '' @ app_name @ '' <script> [--dpdk-config=<config>] [script args...]'' @ [CHR 0x0A, CHR 0x0A]"

text \<open>\<^verbatim>\<open>libmoon::main\<close>: exit code, output and the requests to Lua.\<close>

definition lm_main :: "lua_oracle \<Rightarrow> string \<Rightarrow> string \<Rightarrow> string option \<Rightarrow> string list
    \<Rightarrow> (int \<times> string \<times> lua_req list) option" where
  "lm_main fails main_module base extra_lua_path argv =
     (if length argv < 2 then Some (1, print_usage (hd argv), [])
      else case launch_lua fails main_module base extra_lua_path of None \<Rightarrow> None
      | Some reqs \<Rightarrow>
         let call = CallMain (''master'' # argv) in
         Some (if fails reqs call then - 1 else 0, [], reqs @ [call]))"

definition program_main :: "(string \<Rightarrow> bool) \<Rightarrow> string option \<Rightarrow> string option \<Rightarrow> lua_oracle \<Rightarrow> string \<Rightarrow> string list
    \<Rightarrow> (int \<times> string \<times> lua_req list) option" where
  "program_main stat_ok exe cwd fails main_module argv =
     (case setup_base_dir stat_ok exe cwd [''.'', ''..'', ''/usr/local/lib/libmoon''] True of
        None \<Rightarrow> None
      | Some base \<Rightarrow> lm_main fails main_module base None argv)"

section \<open>Properties\<close>

lemma strip_binary_prefix:
  assumes "strip_binary p = Some d"
  shows "\<exists>rest. p = d @ rest \<and> CHR ''/'' \<notin> set rest \<and> last d = CHR ''/'' \<and> d \<noteq> []"
proof -
  let ?P = "\<lambda>c. c \<noteq> CHR ''/''"
  have d: "d = rev (dropWhile ?P (rev p))" "CHR ''/'' \<in> set p"
    using assms by (simp_all add: strip_binary_def split: if_splits)
  have split: "p = d @ rev (takeWhile ?P (rev p))"
    using d(1) by (metis rev_append rev_rev_ident takeWhile_dropWhile_id)
  have ne: "dropWhile ?P (rev p) \<noteq> []" using d(2) by (auto simp: dropWhile_eq_Nil_conv)
  then have "hd (dropWhile ?P (rev p)) = CHR ''/''" using hd_dropWhile by blast
  then have "last d = CHR ''/''" using ne d(1) by (simp add: last_rev)
  moreover have "CHR ''/'' \<notin> set (rev (takeWhile ?P (rev p)))" by (auto dest: set_takeWhileD)
  ultimately show ?thesis using split ne d(1) by blast
qed

definition candidate :: "string \<Rightarrow> string \<Rightarrow> string" where
  "candidate exec_path dir = (if dir \<noteq> [] \<and> hd dir = CHR ''/'' then dir else exec_path @ dir)"

lemma check_dirs_first:
  "check_dirs_loop stat_ok e dirs = List.find (is_base_dir stat_ok) (map (candidate e) dirs)"
proof (induction dirs)
  case (Cons d dirs)
  then show ?case by (cases d) (simp_all add: candidate_def)
qed simp

text \<open>The program starts Lua with the first of the working directory, the executable's directory, its parent
  and the installed location that contains both scripts, and aborts when none does; relative candidates
  are taken from the directory of the executable. The script's \<^verbatim>\<open>main\<close> receives the role and all
  command-line arguments.\<close>
theorem program_start:
  assumes "exe = Some (d @ ''/'' @ binary)" and "CHR ''/'' \<notin> set binary" and "cwd = Some wd" and "2 \<le> length argv"
  shows "program_main stat_ok exe cwd fails main_module argv =
    (case List.find (is_base_dir stat_ok)
        (map (candidate (d @ ''/'')) [wd, ''.'', ''..'', ''/usr/local/lib/libmoon'']) of
       None \<Rightarrow> None
     | Some base \<Rightarrow>
        (case launch_lua fails main_module base None of None \<Rightarrow> None
         | Some reqs \<Rightarrow> Some (if fails reqs (CallMain (''master'' # argv)) then - 1 else 0, [],
             reqs @ [CallMain (''master'' # argv)])))"
proof -
  let ?P = "\<lambda>c. c \<noteq> CHR ''/''"
  have "dropWhile ?P (rev (d @ ''/'' @ binary)) = dropWhile ?P (rev binary @ CHR ''/'' # rev d)" by simp
  also have "\<dots> = CHR ''/'' # rev d" using assms(2) by (subst dropWhile_append2) auto
  finally have "strip_binary (d @ ''/'' @ binary) = Some (d @ ''/'')" by (simp add: strip_binary_def)
  with assms show ?thesis
    by (simp add: program_main_def setup_base_dir_def find_base_dir_def check_dirs_first lm_main_def Let_def
        split: option.splits)
qed

theorem program_start_witness:
  "program_main (\<lambda>p. p = ''/opt/lm/./lua/libmoon.lua'' \<or> p = ''/opt/lm/./lua/main.lua'') (Some (''/opt/lm'' @ ''/'' @ ''libmoon''))
      (Some ''/root'') (\<lambda>tr r. False) ''main'' [''libmoon'', ''x.lua''] =
    (case List.find (is_base_dir (\<lambda>p. p = ''/opt/lm/./lua/libmoon.lua'' \<or> p = ''/opt/lm/./lua/main.lua''))
        (map (candidate (''/opt/lm'' @ ''/'')) [''/root'', ''.'', ''..'', ''/usr/local/lib/libmoon'']) of
       None \<Rightarrow> None
     | Some base \<Rightarrow>
        (case launch_lua (\<lambda>tr r. False) ''main'' base None of None \<Rightarrow> None
         | Some reqs \<Rightarrow> Some (if False then - 1 else 0, [], reqs @ [CallMain (''master'' # [''libmoon'', ''x.lua''])])))"
  by (rule program_start) (code_simp | simp)+

end
