(* ===== verification/SpscBlock.thy ===== *)
theory SpscBlock
  imports LM_Prelude
begin

text \<open>
  The lower level of \<^verbatim>\<open>src/lib/spsc-queue/readerwriterqueue.h\<close>: the rounding to a power of two and the circular
  block with its front and tail indices. A slot of a block is \<open>None\<close> while no object is constructed in it;
  \<^verbatim>\<open>size_t\<close> is a 64-bit word. The lemmas show that the bit trick of \<^verbatim>\<open>ceilToPow2\<close> is the power of two above its
  argument, and that a block is a bounded queue with one slot unused.
\<close>

section \<open>Rounding up to a power of two\<close>

fun ceil_loop :: "nat \<Rightarrow> u64 \<Rightarrow> nat \<Rightarrow> u64" where
  "ceil_loop 0 x i = x"
| "ceil_loop (Suc fuel) x i = (if i < 8 then ceil_loop fuel (x OR drop_bit (i * 8) x) (i * 2) else x)"

text \<open>\<open>sizeof(size_t)\<close> is 8: the loop runs for \<open>i\<close> = 1, 2, 4.\<close>

definition ceilToPow2 :: "u64 \<Rightarrow> u64" where
  "ceilToPow2 x0 =
     (let x = x0 - 1;
          x = x OR drop_bit 1 x;
          x = x OR drop_bit 2 x;
          x = x OR drop_bit 4 x
      in ceil_loop 4 x 1 + 1)"

text \<open>\<open>r\<close> has a bit set exactly when \<open>y\<close> has one at that place or up to \<open>s - 1\<close> places above.\<close>

definition smeared :: "u64 \<Rightarrow> nat \<Rightarrow> u64 \<Rightarrow> bool" where
  "smeared y s r \<longleftrightarrow> (\<forall>k. bit r k \<longleftrightarrow> (\<exists>d < s. bit y (k + d)))"

lemma smeared_start: "smeared y 1 y"
  by (auto simp: smeared_def)

lemma smeared_step:
  assumes "smeared y s r"
  shows "smeared y (2 * s) (r OR drop_bit s r)"
  unfolding smeared_def
proof
  fix k
  have "bit (r OR drop_bit s r) k \<longleftrightarrow> (\<exists>d < s. bit y (k + d)) \<or> (\<exists>d < s. bit y (k + s + d))"
    using assms by (simp add: smeared_def bit_or_iff bit_drop_bit_eq add.commute)
  also have "\<dots> \<longleftrightarrow> (\<exists>d < 2 * s. bit y (k + d))"
  proof
    assume "(\<exists>d < s. bit y (k + d)) \<or> (\<exists>d < s. bit y (k + s + d))"
    then show "\<exists>d < 2 * s. bit y (k + d)"
      by (elim disjE exE conjE) (force intro: exI, metis add.assoc add_less_cancel_left mult_2)
  next
    assume "\<exists>d < 2 * s. bit y (k + d)"
    then obtain d where d: "d < 2 * s" "bit y (k + d)" by blast
    show "(\<exists>d < s. bit y (k + d)) \<or> (\<exists>d < s. bit y (k + s + d))"
    proof (cases "d < s")
      case False
      then have "d - s < s" "bit y (k + s + (d - s))" using d by auto
      then show ?thesis by blast
    qed (use d in blast)
  qed
  finally show "bit (r OR drop_bit s r) k \<longleftrightarrow> (\<exists>d < 2 * s. bit y (k + d))" .
qed

lemma ceil_smeared: "\<exists>r. smeared (x - 1) 64 r \<and> ceilToPow2 x = r + 1"
proof -
  let ?y = "x - 1"
  define a where "a = ?y OR drop_bit 1 ?y"
  define b where "b = a OR drop_bit 2 a"
  define c where "c = b OR drop_bit 4 b"
  define d where "d = c OR drop_bit 8 c"
  define e where "e = d OR drop_bit 16 d"
  define f where "f = e OR drop_bit 32 e"
  have "smeared ?y 2 a" using smeared_step [OF smeared_start] by (simp add: a_def)
  from smeared_step [OF this] have "smeared ?y 4 b" by (simp add: b_def)
  from smeared_step [OF this] have "smeared ?y 8 c" by (simp add: c_def)
  from smeared_step [OF this] have "smeared ?y 16 d" by (simp add: d_def)
  from smeared_step [OF this] have "smeared ?y 32 e" by (simp add: e_def)
  from smeared_step [OF this] have "smeared ?y 64 f" by (simp add: f_def)
  moreover have "ceilToPow2 x = f + 1"
    unfolding ceilToPow2_def Let_def a_def [symmetric] b_def [symmetric] c_def [symmetric]
    by (simp add: numeral_eq_Suc(1) [of "Num.Bit0 (Num.Bit0 Num.One)"] eval_nat_numeral d_def e_def f_def)
  ultimately show ?thesis by blast
qed

lemma top_bit:
  assumes "y \<noteq> (0 :: u64)"
  obtains m where "bit y m" and "\<And>j. bit y j \<Longrightarrow> j \<le> m" and "m < 64"
proof -
  let ?S = "{j. bit y j}"
  have fin: "finite ?S" by (rule finite_subset [of _ "{..<64}"]) (auto dest: bit_imp_le_length)
  have "?S \<noteq> {}" using assms by (auto simp: bit_eq_iff)
  then have "Max ?S \<in> ?S" using fin by (rule_tac Max_in)
  moreover have "j \<le> Max ?S" if "bit y j" for j using fin that by (simp add: Max_ge)
  ultimately show ?thesis using bit_imp_le_length [of y "Max ?S"] by (auto intro: that)
qed

lemma unat_between:
  assumes "bit (y :: u64) m" and "\<And>j. bit y j \<Longrightarrow> j \<le> m"
  shows "2 ^ m \<le> unat y" and "unat y < 2 ^ Suc m"
proof -
  have "bit (unat y) m" using assms(1) bit_imp_le_length [of y m] by (simp add: bit_unsigned_iff)
  then have "odd (unat y div 2 ^ m)" by (simp add: bit_iff_odd)
  then have "unat y div 2 ^ m \<noteq> 0" by (metis dvd_0_right)
  then show "2 ^ m \<le> unat y" by (simp add: div_eq_0_iff)
  have "take_bit (Suc m) y = y" using assms(2) by (intro bit_word_eqI) (auto simp: bit_take_bit_iff less_Suc_eq_le)
  then have "unat y = take_bit (Suc m) (unat y)" by (metis unsigned_take_bit_eq)
  then show "unat y < 2 ^ Suc m" by (metis take_bit_nat_less_exp)
qed

lemma smeared_mask:
  assumes "smeared y 64 r" and "bit y m" and "\<And>j. bit y j \<Longrightarrow> j \<le> m" and "m < 64"
  shows "r = mask (Suc m)"
proof (rule bit_word_eqI)
  fix k :: nat assume "k < LENGTH(64)"
  have "(\<exists>d < 64. bit y (k + d)) \<longleftrightarrow> k \<le> m"
  proof
    assume "k \<le> m"
    then have "m - k < 64" "bit y (k + (m - k))" using assms(2,4) by auto
    then show "\<exists>d < 64. bit y (k + d)" by blast
  qed (use assms(3) in fastforce)
  then show "bit r k \<longleftrightarrow> bit (mask (Suc m) :: u64) k"
    using assms(1) \<open>k < LENGTH(64)\<close> by (auto simp: smeared_def bit_mask_iff)
qed

lemma unat_pow2:
  assumes "n < 64"
  shows "unat (2 ^ n :: u64) = 2 ^ n"
proof -
  have "unat (push_bit n 1 :: u64) = 2 ^ n mod 2 ^ 64" by (subst unat_push_bit) simp
  moreover have "(2 :: nat) ^ n < 2 ^ 64" using assms by (intro power_strict_increasing) simp_all
  ultimately show ?thesis by (simp add: push_bit_eq_mult)
qed

lemma ceilToPow2_correct:
  assumes "1 < unat x" and "unat x \<le> 2 ^ 63"
  shows "\<exists>n. unat (ceilToPow2 x) = 2 ^ n \<and> 0 < n \<and> n < 64 \<and> unat x \<le> 2 ^ n \<and> 2 ^ n < 2 * unat x"
proof -
  have y: "unat (x - 1) = unat x - 1" using assms(1) by (simp add: unat_sub word_le_nat_alt)
  then have "x - 1 \<noteq> 0" using assms(1) by (metis unat_0 zero_less_diff less_numeral_extra(3))
  then obtain m where m: "bit (x - 1) m" "\<And>j. bit (x - 1) j \<Longrightarrow> j \<le> m" "m < 64" using top_bit by blast
  note b = unat_between [OF m(1,2)]
  have "2 ^ m < (2 :: nat) ^ 63" using b(1) y assms by linarith
  then have m63: "m < 63" by (rule power_less_imp_less_exp [rotated]) simp
  obtain r where r: "smeared (x - 1) 64 r" "ceilToPow2 x = r + 1" using ceil_smeared by blast
  have "r = mask (Suc m)" by (rule smeared_mask [OF r(1) m])
  then have "ceilToPow2 x = 2 ^ Suc m" using r(2) by (simp add: mask_eq_exp_minus_1)
  then have "unat (ceilToPow2 x) = 2 ^ Suc m" using unat_pow2 [of "Suc m"] m63 by simp
  moreover have "unat x \<le> 2 ^ Suc m" "2 ^ Suc m < 2 * unat x" using b y assms(1) by simp_all
  moreover have "0 < Suc m" "Suc m < 64" using m63 by simp_all
  ultimately show ?thesis by (intro exI [of _ "Suc m"]) (simp only: simp_thms)
qed

section \<open>Blocks\<close>

record 'a spsc_block =
  blk_front :: u64
  blk_localTail :: u64
  blk_tail :: u64
  blk_localFront :: u64
  blk_next :: nat
  blk_data :: "'a option list"
  blk_sizeMask :: u64

text \<open>The constructor of \<^verbatim>\<open>Block\<close> on memory for \<open>cap\<close> objects; \<open>next\<close> is set by the caller.\<close>

definition new_block :: "u64 \<Rightarrow> 'a spsc_block" where
  "new_block cap = \<lparr>blk_front = 0, blk_localTail = 0, blk_tail = 0, blk_localFront = 0, blk_next = 0,
     blk_data = replicate (unat cap) None, blk_sizeMask = cap - 1\<rparr>"

text \<open>\<open>ok\<close> is the result of \<^verbatim>\<open>malloc\<close>.\<close>

definition make_block :: "bool \<Rightarrow> u64 \<Rightarrow> 'a spsc_block option" where
  "make_block ok capacity = (if ok then Some (new_block capacity) else None)"

text \<open>
  The layout of the memory that \<^verbatim>\<open>make_block\<close> asks \<^verbatim>\<open>malloc\<close> for: the requested size, the address of the block
  and that of its slots, for a raw address \<open>raw\<close>. \<open>bs\<close> and \<open>ba\<close> are the size and alignment of \<^verbatim>\<open>Block\<close>,
  \<open>ts\<close> and \<open>ta\<close> those of the element type.
\<close>

definition align_for :: "u64 \<Rightarrow> u64 \<Rightarrow> u64" where
  "align_for alignment ptr = ptr + (alignment - ptr mod alignment) mod alignment"

definition block_request :: "u64 \<Rightarrow> u64 \<Rightarrow> u64 \<Rightarrow> u64 \<Rightarrow> u64 \<Rightarrow> u64" where
  "block_request bs ba ts ta capacity = (bs + ba - 1) + (ts * capacity + ta - 1)"

definition block_layout :: "u64 \<Rightarrow> u64 \<Rightarrow> u64 \<Rightarrow> u64 \<Rightarrow> u64 \<times> u64" where
  "block_layout bs ba ta raw =
     (let newBlockAligned = align_for ba raw; newBlockData = align_for ta (newBlockAligned + bs)
      in (newBlockAligned, newBlockData))"

lemma unat_align_for:
  assumes "0 < unat a" and "unat p + unat a \<le> 2 ^ 64"
  shows "unat p \<le> unat (align_for a p)" and "unat (align_for a p) < unat p + unat a" and "unat a dvd unat (align_for a p)"
proof -
  let ?d = "(unat a - unat p mod unat a) mod unat a"
  have "p mod a \<le> a" using assms(1) by (simp add: word_le_nat_alt unat_mod less_imp_le)
  then have d: "unat ((a - p mod a) mod a) = ?d" by (simp add: unat_mod unat_sub)
  have lt: "?d < unat a" using assms(1) by simp
  then have u: "unat (align_for a p) = unat p + ?d" using assms(2) d by (simp add: align_for_def unat_add_u64)
  show "unat p \<le> unat (align_for a p)" "unat (align_for a p) < unat p + unat a" using u lt by simp_all
  have "(unat p + ?d) mod unat a = (unat p mod unat a + (unat a - unat p mod unat a)) mod unat a"
    by (simp only: mod_add_left_eq mod_add_right_eq)
  also have "unat p mod unat a + (unat a - unat p mod unat a) = unat a"
    using mod_less_divisor [OF assms(1), of "unat p"] by linarith
  finally have "(unat p + ?d) mod unat a = 0" by simp
  then show "unat a dvd unat (align_for a p)" unfolding u by (rule mod_0_imp_dvd)
qed

text \<open>
  A block and its slots are aligned, do not overlap and lie inside the memory requested, when that memory
  does not wrap around the address space.
\<close>

lemma block_layout_fits:
  assumes "0 < unat ba" and "0 < unat ta" and "block_layout bs ba ta raw = (b, d)"
    and n: "unat raw + unat bs + unat ba + unat ts * unat capacity + unat ta < 18446744073709551616"
  shows "unat raw \<le> unat b" and "unat ba dvd unat b" and "unat b + unat bs \<le> unat d" and "unat ta dvd unat d"
    and "unat d + unat ts * unat capacity \<le> unat raw + unat (block_request bs ba ts ta capacity)"
proof -
  have e: "b = align_for ba raw" "d = align_for ta (b + bs)" using assms(3) by (auto simp: block_layout_def Let_def)
  have "unat raw + unat ba \<le> 2 ^ 64" using n assms(2) by simp
  note A = unat_align_for [OF assms(1) this, folded e(1)]
  have s: "unat (b + bs) = unat b + unat bs" proof -
    have "unat b + unat bs < 18446744073709551616" using A(2) n assms(2) by linarith
    then show ?thesis by (simp add: unat_add_u64)
  qed
  have "unat (b + bs) + unat ta \<le> 2 ^ 64" unfolding s using A(2) n by simp
  note B = unat_align_for [OF assms(2) this, folded e(2)]
  have "unat ts * unat capacity < 18446744073709551616" using n assms(1,2) by linarith
  then have "unat (ts * capacity) = unat ts * unat capacity" by (simp add: unat_word_ariths)
  then have m: "unat (ts * capacity + ta - 1) = unat ts * unat capacity + unat ta - 1"
    using n assms(2) by (simp add: unat_sub word_le_nat_alt unat_add_u64)
  have l: "unat (bs + ba - 1) = unat bs + unat ba - 1"
    using n assms(1) by (simp add: unat_sub word_le_nat_alt unat_add_u64)
  have "unat bs + unat ba - 1 + (unat ts * unat capacity + unat ta - 1) < 18446744073709551616" using n by linarith
  then have r: "unat (block_request bs ba ts ta capacity) = unat bs + unat ba - 1 + (unat ts * unat capacity + unat ta - 1)"
    unfolding block_request_def unat_add_u64 l m by (rule mod_less)
  show "unat raw \<le> unat b" "unat ba dvd unat b" "unat b + unat bs \<le> unat d" "unat ta dvd unat d"
    using A B s by simp_all
  show "unat d + unat ts * unat capacity \<le> unat raw + unat (block_request bs ba ts ta capacity)"
    using A(2) B(2) s assms(1,2) unfolding r by linarith
qed

abbreviation blk_cap :: "'a spsc_block \<Rightarrow> nat" where
  "blk_cap b \<equiv> length (blk_data b)"

definition blk_inc :: "'a spsc_block \<Rightarrow> u64 \<Rightarrow> u64" where
  "blk_inc b i = (i + 1) AND blk_sizeMask b"

text \<open>
  A ring of \<open>c\<close> slots with the indices \<open>f\<close> and \<open>t\<close>: the number of elements and their slots in order.
\<close>

definition slot_count :: "nat \<Rightarrow> nat \<Rightarrow> nat \<Rightarrow> nat" where
  "slot_count c f t = (t + c - f) mod c"

definition slot_elems :: "'b list \<Rightarrow> nat \<Rightarrow> nat \<Rightarrow> 'b list" where
  "slot_elems d f t = map (\<lambda>j. d ! ((f + j) mod length d)) [0..<slot_count (length d) f t]"

definition blk_count :: "'a spsc_block \<Rightarrow> nat" where
  "blk_count b = slot_count (blk_cap b) (unat (blk_front b)) (unat (blk_tail b))"

definition blk_elems :: "'a spsc_block \<Rightarrow> 'a option list" where
  "blk_elems b = slot_elems (blk_data b) (unat (blk_front b)) (unat (blk_tail b))"

text \<open>The size is a power of two, at least two; the indices are below it.\<close>

definition blk_ok :: "'a spsc_block \<Rightarrow> bool" where
  "blk_ok b \<longleftrightarrow> (\<exists>n. 0 < n \<and> n < 64 \<and> blk_cap b = 2 ^ n \<and> blk_sizeMask b = mask n) \<and>
     unat (blk_front b) < blk_cap b \<and> unat (blk_tail b) < blk_cap b"

lemma unat_inc_mask:
  assumes "n < 64"
  shows "unat ((i + 1 :: u64) AND mask n) = (unat i + 1) mod 2 ^ n"
proof -
  have "(2 :: nat) ^ n dvd 2 ^ 64" using assms by (intro le_imp_power_dvd) simp
  then show ?thesis by (simp only: unat_mask_and unat_add_u64) (simp add: mod_mod_cancel)
qed

lemma unat_blk_inc: "blk_ok b \<Longrightarrow> unat (blk_inc b i) = (unat i + 1) mod blk_cap b"
  by (auto simp: blk_ok_def blk_inc_def unat_inc_mask)

lemma blk_ok_cap: "blk_ok b \<Longrightarrow> 2 \<le> blk_cap b"
  by (auto simp: blk_ok_def) (metis One_nat_def Suc_leI one_le_numeral power_increasing power_one_right)

section \<open>A ring is a bounded queue\<close>

lemma ring_mod:
  fixes f k c :: nat
  assumes "f < c" and "k < c"
  shows "(f + k) mod c = (if f + k < c then f + k else f + k - c)"
  using assms by (auto simp: le_mod_geq)

lemma slot_count_if: "f < c \<Longrightarrow> t < c \<Longrightarrow> slot_count c f t = (if f \<le> t then t - f else t + c - f)"
  by (auto simp: slot_count_def le_mod_geq)

lemma slot_count_less: "f < c \<Longrightarrow> t < c \<Longrightarrow> slot_count c f t < c"
  by (auto simp: slot_count_if)

lemma slot_count_0: "f < c \<Longrightarrow> t < c \<Longrightarrow> slot_count c f t = 0 \<longleftrightarrow> f = t"
  by (auto simp: slot_count_if)

lemma ring_slot_tail: "f < c \<Longrightarrow> t < c \<Longrightarrow> (f + slot_count c f t) mod c = t"
  by (auto simp: slot_count_if le_mod_geq)

lemma ring_slot_other: "f < c \<Longrightarrow> t < c \<Longrightarrow> j < slot_count c f t \<Longrightarrow> (f + j) mod c \<noteq> t"
  by (auto simp: slot_count_if ring_mod split: if_splits)

lemma ring_inc: "i < c \<Longrightarrow> (i + 1) mod c = (if i + 1 = c then 0 else i + (1 :: nat))"
  by auto

lemma ring_push_count:
  "f < c \<Longrightarrow> t < c \<Longrightarrow> (t + 1) mod c \<noteq> f \<Longrightarrow> slot_count c f ((t + 1) mod c) = slot_count c f t + 1"
  unfolding ring_inc by (auto simp: slot_count_if split: if_splits)

lemma ring_pop_count:
  "f < c \<Longrightarrow> t < c \<Longrightarrow> f \<noteq> t \<Longrightarrow> slot_count c f t = Suc (slot_count c ((f + 1) mod c) t)"
  unfolding ring_inc by (auto simp: slot_count_if split: if_splits)

lemma ring_full_count:
  "f < c \<Longrightarrow> t < c \<Longrightarrow> (t + 1) mod c = f \<longleftrightarrow> slot_count c f t = c - 1"
  unfolding ring_inc by (auto simp: slot_count_if split: if_splits)

lemma ring_push:
  assumes "f < length d" and "t < length d" and "(t + 1) mod length d \<noteq> f"
  shows "slot_elems (d[t := x]) f ((t + 1) mod length d) = slot_elems d f t @ [x]"
proof -
  have "d[t := x] ! ((f + j) mod length d) = d ! ((f + j) mod length d)" if "j < slot_count (length d) f t" for j
    using ring_slot_other [OF assms(1,2) that] by simp
  then show ?thesis
    using assms ring_push_count [OF assms] ring_slot_tail [OF assms(1,2)] by (simp add: slot_elems_def)
qed

lemma ring_pop:
  assumes "f < length d" and "t < length d" and "f \<noteq> t"
  shows "slot_elems d f t = d ! f # slot_elems (d[f := y]) ((f + 1) mod length d) t"
proof -
  let ?c = "length d" and ?n = "slot_count (length d) ((f + 1) mod length d) t"
  have ne: "(f + Suc j) mod ?c \<noteq> f" if "j < ?n" for j
  proof -
    have "Suc j < ?c" using that ring_pop_count [OF assms] slot_count_less [OF assms(1,2)] by linarith
    then show ?thesis using ring_mod [OF assms(1), of "Suc j"] by auto
  qed
  have eq: "((f + 1) mod ?c + j) mod ?c = (f + Suc j) mod ?c" for j by (simp add: mod_add_left_eq)
  have "slot_elems d f t = d ! f # map (\<lambda>j. d ! ((f + Suc j) mod ?c)) [0..<?n]"
    unfolding slot_elems_def ring_pop_count [OF assms] using assms(1)
    by (simp add: upt_conv_Cons map_Suc_upt [symmetric] del: upt_Suc)
  also have "map (\<lambda>j. d ! ((f + Suc j) mod ?c)) [0..<?n] = slot_elems (d[f := y]) ((f + 1) mod ?c) t"
  proof -
    have "d[f := y] ! ((f + Suc j) mod ?c) = d ! ((f + Suc j) mod ?c)" if "j < ?n" for j
      by (rule nth_list_update_neq) (rule ne [OF that, symmetric])
    then show ?thesis unfolding slot_elems_def by (simp only: eq length_list_update map_eq_conv set_upt) simp
  qed
  finally show ?thesis .
qed

section \<open>Operations on a block\<close>

text \<open>Constructing an object in the tail slot and publishing it; destroying the object in the front slot.\<close>

definition blk_put :: "'a \<Rightarrow> 'a spsc_block \<Rightarrow> 'a spsc_block" where
  "blk_put x b = b\<lparr>blk_data := (blk_data b)[unat (blk_tail b) := Some x], blk_tail := blk_inc b (blk_tail b)\<rparr>"

definition blk_drop :: "'a spsc_block \<Rightarrow> 'a spsc_block" where
  "blk_drop b = b\<lparr>blk_data := (blk_data b)[unat (blk_front b) := None], blk_front := blk_inc b (blk_front b)\<rparr>"

lemma blk_okD: "blk_ok b \<Longrightarrow> unat (blk_front b) < blk_cap b \<and> unat (blk_tail b) < blk_cap b"
  by (simp add: blk_ok_def)

lemma blk_elems_empty: "blk_ok b \<Longrightarrow> blk_elems b = [] \<longleftrightarrow> blk_front b = blk_tail b"
  using blk_okD [of b] slot_count_0 [of "unat (blk_front b)" "blk_cap b" "unat (blk_tail b)"]
  by (auto simp: blk_elems_def slot_elems_def word_unat_eq_iff)

lemma length_blk_elems: "length (blk_elems b) = blk_count b"
  by (simp add: blk_elems_def slot_elems_def blk_count_def)

lemma blk_count_less: "blk_ok b \<Longrightarrow> blk_count b < blk_cap b"
  using blk_okD [of b] by (simp add: blk_count_def slot_count_less)

lemma blk_full: "blk_ok b \<Longrightarrow> blk_inc b (blk_tail b) = blk_front b \<longleftrightarrow> blk_count b = blk_cap b - 1"
  using blk_okD [of b] ring_full_count [of "unat (blk_front b)" "blk_cap b" "unat (blk_tail b)"]
  by (simp add: word_unat_eq_iff unat_blk_inc blk_count_def)

lemma blk_put_ok:
  assumes "blk_ok b" and "blk_inc b (blk_tail b) \<noteq> blk_front b"
  shows "blk_ok (blk_put x b)" and "blk_elems (blk_put x b) = blk_elems b @ [Some x]"
proof -
  have u: "unat (blk_inc b (blk_tail b)) = (unat (blk_tail b) + 1) mod blk_cap b" by (rule unat_blk_inc [OF assms(1)])
  have lt: "unat (blk_inc b (blk_tail b)) < blk_cap b"
    unfolding u using blk_ok_cap [OF assms(1)] by (intro mod_less_divisor) linarith
  then show "blk_ok (blk_put x b)" using assms(1) by (auto simp: blk_ok_def blk_put_def)
  have "(unat (blk_tail b) + 1) mod blk_cap b \<noteq> unat (blk_front b)"
    unfolding u [symmetric] using assms(2) by (simp add: word_unat_eq_iff)
  then show "blk_elems (blk_put x b) = blk_elems b @ [Some x]"
    using ring_push [of "unat (blk_front b)" "blk_data b" "unat (blk_tail b)" "Some x"] blk_okD [OF assms(1)] u
    by (simp add: blk_elems_def blk_put_def)
qed

lemma blk_drop_ok:
  assumes "blk_ok b" and "blk_front b \<noteq> blk_tail b"
  shows "blk_ok (blk_drop b)" and "blk_elems b = blk_data b ! unat (blk_front b) # blk_elems (blk_drop b)"
proof -
  have u: "unat (blk_inc b (blk_front b)) = (unat (blk_front b) + 1) mod blk_cap b" by (rule unat_blk_inc [OF assms(1)])
  have lt: "unat (blk_inc b (blk_front b)) < blk_cap b"
    unfolding u using blk_ok_cap [OF assms(1)] by (intro mod_less_divisor) linarith
  then show "blk_ok (blk_drop b)" using assms(1) by (auto simp: blk_ok_def blk_drop_def)
  show "blk_elems b = blk_data b ! unat (blk_front b) # blk_elems (blk_drop b)"
    using ring_pop [of "unat (blk_front b)" "blk_data b" "unat (blk_tail b)" None] blk_okD [OF assms(1)] assms(2) u
    by (simp add: blk_elems_def blk_drop_def word_unat_eq_iff)
qed

lemma new_block_ok:
  assumes "unat cap = 2 ^ n" and "0 < n" and "n < 64"
  shows "blk_ok (new_block cap :: 'a spsc_block)" and "blk_elems (new_block cap :: 'a spsc_block) = []"
proof -
  have "cap = 2 ^ n" using assms(1,3) by (simp add: word_unat_eq_iff unat_pow2)
  then show "blk_ok (new_block cap :: 'a spsc_block)"
    using assms by (auto simp: blk_ok_def new_block_def mask_eq_exp_minus_1)
  show "blk_elems (new_block cap :: 'a spsc_block) = []" by (simp add: blk_elems_def new_block_def slot_elems_def slot_count_def assms(1))
qed

text \<open>
  The shadow copies: the consumer's \<open>localTail\<close> shows at most the elements that are there, the producer's
  \<open>localFront\<close> at least those.
\<close>

definition local_tail_ok :: "'a spsc_block \<Rightarrow> bool" where
  "local_tail_ok b \<longleftrightarrow> unat (blk_localTail b) < blk_cap b \<and>
     slot_count (blk_cap b) (unat (blk_front b)) (unat (blk_localTail b)) \<le> blk_count b"

definition local_front_ok :: "'a spsc_block \<Rightarrow> bool" where
  "local_front_ok b \<longleftrightarrow> unat (blk_localFront b) < blk_cap b \<and>
     blk_count b \<le> slot_count (blk_cap b) (unat (blk_localFront b)) (unat (blk_tail b))"

lemma local_tail_nonempty:
  assumes "blk_ok b" and "local_tail_ok b" and "blk_front b \<noteq> blk_localTail b"
  shows "blk_front b \<noteq> blk_tail b"
proof
  let ?f = "unat (blk_front b)"
  assume "blk_front b = blk_tail b"
  then have "slot_count (blk_cap b) ?f (unat (blk_localTail b)) = 0"
    using assms(2) slot_count_0 [of ?f "blk_cap b" ?f] blk_okD [OF assms(1)]
    by (simp add: local_tail_ok_def blk_count_def)
  then show False
    using assms(2,3) slot_count_0 [of ?f "blk_cap b" "unat (blk_localTail b)"] blk_okD [OF assms(1)]
    by (simp add: local_tail_ok_def word_unat_eq_iff)
qed

lemma local_front_room:
  assumes "blk_ok b" and "local_front_ok b" and "blk_inc b (blk_tail b) \<noteq> blk_localFront b"
  shows "blk_inc b (blk_tail b) \<noteq> blk_front b"
proof
  assume "blk_inc b (blk_tail b) = blk_front b"
  then have "blk_count b = blk_cap b - 1" using blk_full [OF assms(1)] by blast
  then have "slot_count (blk_cap b) (unat (blk_localFront b)) (unat (blk_tail b)) = blk_cap b - 1"
    using assms(2) slot_count_less [of "unat (blk_localFront b)" "blk_cap b" "unat (blk_tail b)"] blk_okD [OF assms(1)]
    unfolding local_front_ok_def by linarith
  then have "(unat (blk_tail b) + 1) mod blk_cap b = unat (blk_localFront b)"
    using ring_full_count [of "unat (blk_localFront b)" "blk_cap b" "unat (blk_tail b)"] assms(2) blk_okD [OF assms(1)]
    by (simp add: local_front_ok_def)
  then show False using assms(3) unat_blk_inc [OF assms(1), of "blk_tail b"] by (simp add: word_unat_eq_iff)
qed

lemma local_exact:
  "blk_ok b \<Longrightarrow> local_tail_ok (b\<lparr>blk_localTail := blk_tail b\<rparr>)"
  "blk_ok b \<Longrightarrow> local_front_ok (b\<lparr>blk_localFront := blk_front b\<rparr>)"
  by (auto simp: local_tail_ok_def local_front_ok_def blk_count_def blk_ok_def)

lemma blk_put_count:
  "blk_ok b \<Longrightarrow> blk_inc b (blk_tail b) \<noteq> blk_front b \<Longrightarrow> blk_count (blk_put x b) = blk_count b + 1"
  using blk_put_ok(2) [of b x] by (simp flip: length_blk_elems)

lemma blk_drop_count:
  "blk_ok b \<Longrightarrow> blk_front b \<noteq> blk_tail b \<Longrightarrow> blk_count b = Suc (blk_count (blk_drop b))"
  using blk_drop_ok(2) [of b] by (metis length_Cons length_blk_elems)

lemma put_local_tail:
  "blk_ok b \<Longrightarrow> blk_inc b (blk_tail b) \<noteq> blk_front b \<Longrightarrow> local_tail_ok b \<Longrightarrow> local_tail_ok (blk_put x b)"
  using blk_put_count [of b x] by (auto simp: local_tail_ok_def blk_put_def)

lemma drop_local_front:
  "blk_ok b \<Longrightarrow> blk_front b \<noteq> blk_tail b \<Longrightarrow> local_front_ok b \<Longrightarrow> local_front_ok (blk_drop b)"
  using blk_drop_count [of b] by (auto simp: local_front_ok_def blk_drop_def)

lemma put_local_front:
  assumes "blk_ok b" and "blk_inc b (blk_tail b) \<noteq> blk_localFront b" and "local_front_ok b"
  shows "local_front_ok (blk_put x b)"
proof -
  let ?t = "unat (blk_tail b)" and ?l = "unat (blk_localFront b)" and ?c = "blk_cap b"
  have u: "unat (blk_inc b (blk_tail b)) = (?t + 1) mod ?c" by (rule unat_blk_inc [OF assms(1)])
  then have "(?t + 1) mod ?c \<noteq> ?l" using assms(2) by (metis word_unat_eq_iff)
  then have "slot_count ?c ?l ((?t + 1) mod ?c) = slot_count ?c ?l ?t + 1"
    using ring_push_count [of ?l ?c ?t] assms(3) blk_okD [OF assms(1)] by (simp add: local_front_ok_def)
  then show ?thesis
    using blk_put_count [OF assms(1) local_front_room [OF assms(1,3,2)], of x] assms(3) u
    by (simp add: local_front_ok_def blk_put_def)
qed

lemma drop_local_tail:
  assumes "blk_ok b" and "blk_front b \<noteq> blk_localTail b" and "local_tail_ok b"
  shows "local_tail_ok (blk_drop b)"
proof -
  let ?f = "unat (blk_front b)" and ?l = "unat (blk_localTail b)" and ?c = "blk_cap b"
  have "?f \<noteq> ?l" using assms(2) by (simp add: word_unat_eq_iff)
  then have "slot_count ?c ?f ?l = Suc (slot_count ?c ((?f + 1) mod ?c) ?l)"
    using ring_pop_count [of ?f ?c ?l] assms(3) blk_okD [OF assms(1)] by (simp add: local_tail_ok_def)
  then show ?thesis
    using blk_drop_count [OF assms(1) local_tail_nonempty [OF assms(1,3,2)]] assms(3)
      unat_blk_inc [OF assms(1), of "blk_front b"]
    by (simp add: local_tail_ok_def blk_drop_def)
qed

end
