(* ===== verification/SpscQueue.thy ===== *)
theory SpscQueue
  imports SpscBlock RteRing
begin

text \<open>
  The upper level of \<^verbatim>\<open>src/lib/spsc-queue/readerwriterqueue.h\<close>, the class \<^verbatim>\<open>ReaderWriterQueue\<close>, and the single-producer
  half of \<^verbatim>\<open>src/src/pipe.cpp\<close>. The queue is a circular linked list of blocks; a block pointer is an index into
  the list of all blocks ever allocated. Each operation is one step: the memory fences order the accesses of
  the two threads and have no effect of their own. A violated assertion and a read of a slot without an
  object are the outer value \<open>None\<close>.
\<close>

section \<open>Model\<close>

record 'a rwqueue =
  rwq_blocks :: "'a spsc_block list"
  frontBlock :: nat
  tailBlock :: nat
  largestBlockSize :: u64

definition upd_block :: "nat \<Rightarrow> ('a spsc_block \<Rightarrow> 'a spsc_block) \<Rightarrow> 'a rwqueue \<Rightarrow> 'a rwqueue" where
  "upd_block i f q = q\<lparr>rwq_blocks := (rwq_blocks q)[i := f (rwq_blocks q ! i)]\<rparr>"

text \<open>
  The constructor. \<open>mbs\<close> is the template parameter \<^verbatim>\<open>MAX_BLOCK_SIZE\<close> and \<open>alloc i\<close> the result of the \<open>i\<close>-th
  allocation; \<open>None\<close> is the exception \<^verbatim>\<open>std::bad_alloc\<close> or a failed assertion. In the loop the new block is appended to the list
  with \<open>next\<close> pointing to the first block, and the previous one is linked to it.
\<close>

fun rwq_init_loop :: "(nat \<Rightarrow> bool) \<Rightarrow> u64 \<Rightarrow> nat \<Rightarrow> 'a spsc_block list \<Rightarrow> 'a spsc_block list option" where
  "rwq_init_loop alloc sz 0 bs = Some bs"
| "rwq_init_loop alloc sz (Suc n) bs =
     (case make_block (alloc (length bs)) sz of
        None \<Rightarrow> None
      | Some b \<Rightarrow>
          let bs1 = (if bs = [] then [] else bs[length bs - 1 := (bs ! (length bs - 1))\<lparr>blk_next := length bs\<rparr>])
          in rwq_init_loop alloc sz n (bs1 @ [b\<lparr>blk_next := 0\<rparr>]))"

definition ReaderWriterQueue :: "u64 \<Rightarrow> (nat \<Rightarrow> bool) \<Rightarrow> u64 \<Rightarrow> 'a rwqueue option" where
  "ReaderWriterQueue mbs alloc maxSize =
     (if maxSize = 0 \<or> mbs \<noteq> ceilToPow2 mbs \<or> mbs < 2 then None
      else let largest = ceilToPow2 (maxSize + 1) in
      if mbs * 2 < largest
      then (let initialBlockCount = (maxSize + mbs * 2 - 3) div (mbs - 1) in
            case rwq_init_loop alloc mbs (unat initialBlockCount) [] of
              None \<Rightarrow> None
            | Some bs \<Rightarrow> Some \<lparr>rwq_blocks = bs, frontBlock = 0, tailBlock = 0, largestBlockSize = mbs\<rparr>)
      else (case make_block (alloc 0) largest of
              None \<Rightarrow> None
            | Some b \<Rightarrow> Some \<lparr>rwq_blocks = [b\<lparr>blk_next := 0\<rparr>], frontBlock = 0, tailBlock = 0,
                             largestBlockSize = largest\<rparr>))"

text \<open>Taking the object out of the front slot of block \<open>i\<close>.\<close>

definition dequeue_from :: "nat \<Rightarrow> 'a rwqueue \<Rightarrow> ('a option \<times> 'a rwqueue) option" where
  "dequeue_from i q =
     (let b = rwq_blocks q ! i in
      case blk_data b ! unat (blk_front b) of
        None \<Rightarrow> None
      | Some x \<Rightarrow> Some (Some x, upd_block i blk_drop q))"

text \<open>
  The decision of \<^verbatim>\<open>try_dequeue\<close>, \<^verbatim>\<open>peek\<close> and \<^verbatim>\<open>pop\<close> on the front block: the shadow copy first, then the tail
  itself, which refreshes the shadow copy.
\<close>

definition front_has_element :: "'a rwqueue \<Rightarrow> bool \<times> 'a rwqueue" where
  "front_has_element q =
     (let f = frontBlock q; b = rwq_blocks q ! f in
      if blk_front b \<noteq> blk_localTail b then (True, q)
      else (blk_front b \<noteq> blk_tail b, upd_block f (\<lambda>b. b\<lparr>blk_localTail := blk_tail b\<rparr>) q))"

definition try_dequeue :: "'a rwqueue \<Rightarrow> ('a option \<times> 'a rwqueue) option" where
  "try_dequeue q =
     (case front_has_element q of (nonempty, q1) \<Rightarrow>
      let f = frontBlock q1 in
      if nonempty then dequeue_from f q1
      else if f \<noteq> tailBlock q1
      then (let q2 = upd_block f (\<lambda>b. b\<lparr>blk_localTail := blk_tail b\<rparr>) q1; b = rwq_blocks q2 ! f in
            if blk_front b \<noteq> blk_tail b then dequeue_from f q2
            else let nx = blk_next b;
                     q3 = upd_block nx (\<lambda>b. b\<lparr>blk_localTail := blk_tail b\<rparr>) q2;
                     nb = rwq_blocks q3 ! nx
                 in if blk_front nb = blk_tail nb then None
                    else dequeue_from nx (q3\<lparr>frontBlock := nx\<rparr>))
      else Some (None, q1))"

definition pop :: "'a rwqueue \<Rightarrow> (bool \<times> 'a rwqueue) option" where
  "pop q =
     (case front_has_element q of (nonempty, q1) \<Rightarrow>
      let f = frontBlock q1 in
      if nonempty then Some (True, upd_block f blk_drop q1)
      else if f \<noteq> tailBlock q1
      then (let q2 = upd_block f (\<lambda>b. b\<lparr>blk_localTail := blk_tail b\<rparr>) q1; b = rwq_blocks q2 ! f in
            if blk_front b \<noteq> blk_tail b then Some (True, upd_block f blk_drop q2)
            else let nx = blk_next b;
                     q3 = upd_block nx (\<lambda>b. b\<lparr>blk_localTail := blk_tail b\<rparr>) q2;
                     nb = rwq_blocks q3 ! nx
                 in if blk_front nb = blk_tail nb then None
                    else Some (True, upd_block nx blk_drop (q3\<lparr>frontBlock := nx\<rparr>)))
      else Some (False, q1))"

text \<open>The block and slot of the front element, \<open>None\<close> for \<^verbatim>\<open>nullptr\<close>.\<close>

definition peek :: "'a rwqueue \<Rightarrow> ((nat \<times> u64) option \<times> 'a rwqueue) option" where
  "peek q =
     (case front_has_element q of (nonempty, q1) \<Rightarrow>
      let f = frontBlock q1 in
      if nonempty then Some (Some (f, blk_front (rwq_blocks q1 ! f)), q1)
      else if f \<noteq> tailBlock q1
      then (let q2 = upd_block f (\<lambda>b. b\<lparr>blk_localTail := blk_tail b\<rparr>) q1; b = rwq_blocks q2 ! f in
            if blk_front b \<noteq> blk_tail b then Some (Some (f, blk_front b), q2)
            else let nx = blk_next b; nb = rwq_blocks q2 ! nx
                 in if blk_front nb = blk_tail nb then None
                    else Some (Some (nx, blk_front nb), q2))
      else Some (None, q1))"

text \<open>The loop around the circle of blocks, with fuel; the queue has at most as many blocks as the list.\<close>

fun size_loop :: "nat \<Rightarrow> 'a rwqueue \<Rightarrow> nat \<Rightarrow> u64 \<Rightarrow> u64 option" where
  "size_loop 0 q i result = None"
| "size_loop (Suc fuel) q i result =
     (let b = rwq_blocks q ! i;
          result' = result + ((blk_tail b - blk_front b) AND blk_sizeMask b)
      in if blk_next b \<noteq> frontBlock q then size_loop fuel q (blk_next b) result' else Some result')"

definition size_approx :: "'a rwqueue \<Rightarrow> u64 option" where
  "size_approx q = size_loop (length (rwq_blocks q)) q (frontBlock q) 0"

datatype AllocationMode = CanAlloc | CannotAlloc

definition inner_enqueue :: "AllocationMode \<Rightarrow> u64 \<Rightarrow> bool \<Rightarrow> 'a \<Rightarrow> 'a rwqueue \<Rightarrow> (bool \<times> 'a rwqueue) option" where
  "inner_enqueue canAlloc mbs alloc_ok x q =
     (let t = tailBlock q; b = rwq_blocks q ! t; nextTail = blk_inc b (blk_tail b) in
      if nextTail \<noteq> blk_localFront b then Some (True, upd_block t (blk_put x) q)
      else let q1 = upd_block t (\<lambda>b. b\<lparr>blk_localFront := blk_front b\<rparr>) q in
        if nextTail \<noteq> blk_front b then Some (True, upd_block t (blk_put x) q1)
        else if blk_next b \<noteq> frontBlock q1
        then (let nx = blk_next b;
                  q2 = upd_block nx (\<lambda>b. b\<lparr>blk_localFront := blk_front b\<rparr>) q1;
                  nb = rwq_blocks q2 ! nx
              in if blk_front nb \<noteq> blk_tail nb then None
                 else Some (True, (upd_block nx (blk_put x) q2)\<lparr>tailBlock := nx\<rparr>))
        else case canAlloc of
          CannotAlloc \<Rightarrow> Some (False, q1)
        | CanAlloc \<Rightarrow>
            let newBlockSize = (if mbs \<le> largestBlockSize q1 then largestBlockSize q1 else largestBlockSize q1 * 2) in
            (case make_block alloc_ok newBlockSize of
               None \<Rightarrow> Some (False, q1)
             | Some nb \<Rightarrow>
                 let new = length (rwq_blocks q1);
                     nb1 = nb\<lparr>blk_data := (blk_data nb)[0 := Some x], blk_localTail := 1, blk_tail := 1,
                              blk_next := blk_next (rwq_blocks q1 ! t)\<rparr>;
                     q2 = q1\<lparr>rwq_blocks := rwq_blocks q1 @ [nb1], largestBlockSize := newBlockSize\<rparr>;
                     q3 = upd_block t (\<lambda>b. b\<lparr>blk_next := new\<rparr>) q2
                 in Some (True, q3\<lparr>tailBlock := new\<rparr>)))"

definition try_enqueue :: "u64 \<Rightarrow> 'a \<Rightarrow> 'a rwqueue \<Rightarrow> (bool \<times> 'a rwqueue) option" where
  "try_enqueue mbs x q = inner_enqueue CannotAlloc mbs True x q"

definition enqueue :: "u64 \<Rightarrow> bool \<Rightarrow> 'a \<Rightarrow> 'a rwqueue \<Rightarrow> (bool \<times> 'a rwqueue) option" where
  "enqueue mbs alloc_ok x q = inner_enqueue CanAlloc mbs alloc_ok x q"

text \<open>The destructor: the blocks freed, in order, and the slots whose objects are destroyed.\<close>

fun destroy_elems :: "nat \<Rightarrow> 'a spsc_block \<Rightarrow> u64 \<Rightarrow> 'a option list option" where
  "destroy_elems 0 b i = None"
| "destroy_elems (Suc fuel) b i =
     (if i \<noteq> blk_tail b
      then (case destroy_elems fuel b (blk_inc b i) of
              None \<Rightarrow> None | Some es \<Rightarrow> Some (blk_data b ! unat i # es))
      else Some [])"

fun destroy_loop :: "nat \<Rightarrow> 'a rwqueue \<Rightarrow> nat \<Rightarrow> nat list \<Rightarrow> 'a option list \<Rightarrow> (nat list \<times> 'a option list) option" where
  "destroy_loop 0 q i freed objs = None"
| "destroy_loop (Suc fuel) q i freed objs =
     (let b = rwq_blocks q ! i in
      case destroy_elems (blk_cap b) b (blk_front b) of
        None \<Rightarrow> None
      | Some es \<Rightarrow>
          if blk_next b \<noteq> frontBlock q then destroy_loop fuel q (blk_next b) (freed @ [i]) (objs @ es)
          else Some (freed @ [i], objs @ es))"

definition ReaderWriterQueue_destroy :: "'a rwqueue \<Rightarrow> (nat list \<times> 'a option list) option" where
  "ReaderWriterQueue_destroy q = destroy_loop (length (rwq_blocks q)) q (frontBlock q) [] []"


section \<open>The circle of blocks\<close>

definition head_or :: "nat list \<Rightarrow> nat \<Rightarrow> nat" where
  "head_or ids z = (case ids of [] \<Rightarrow> z | i # _ \<Rightarrow> i)"

lemma head_or_simps [simp]: "head_or [] z = z" "head_or (i # r) z = i"
  by (simp_all add: head_or_def)

lemma head_or_append: "head_or (xs @ ys) z = head_or xs (head_or ys z)"
  by (cases xs) simp_all

text \<open>Following \<open>next\<close> from block to block, and from the last one to \<open>z\<close>.\<close>

primrec linked :: "'a spsc_block list \<Rightarrow> nat list \<Rightarrow> nat \<Rightarrow> bool" where
  "linked bs [] z = True"
| "linked bs (i # r) z = (blk_next (bs ! i) = head_or r z \<and> linked bs r z)"

lemma linked_append: "linked bs (xs @ ys) z \<longleftrightarrow> linked bs xs (head_or ys z) \<and> linked bs ys z"
  by (induction xs) (auto simp: head_or_append)

lemma linked_cong:
  "(\<And>i. i \<in> set ids \<Longrightarrow> blk_next (bs' ! i) = blk_next (bs ! i)) \<Longrightarrow> linked bs' ids z = linked bs ids z"
  by (induction ids) auto

text \<open>
  The relation between a queue and its contents \<open>xs\<close>: the circle of blocks from the front block on is
  \<open>pre @ t # post\<close> with \<open>t\<close> the tail block. Behind the tail block all blocks are empty; between the front block
  and the tail block they are full.
\<close>

definition elems_of :: "'a spsc_block list \<Rightarrow> nat list \<Rightarrow> 'a option list" where
  "elems_of bs ids = concat (map (\<lambda>i. blk_elems (bs ! i)) ids)"

definition rwq_rel :: "'a rwqueue \<Rightarrow> nat list \<Rightarrow> nat \<Rightarrow> nat list \<Rightarrow> 'a list \<Rightarrow> bool" where
  "rwq_rel q pre t post xs \<longleftrightarrow>
     tailBlock q = t \<and> frontBlock q = head_or pre t \<and>
     distinct (pre @ t # post) \<and> set (pre @ t # post) = {..<length (rwq_blocks q)} \<and>
     linked (rwq_blocks q) (pre @ t # post) (head_or pre t) \<and>
     list_all blk_ok (rwq_blocks q) \<and>
     (\<forall>i \<in> set post. blk_elems (rwq_blocks q ! i) = []) \<and>
     (\<forall>i \<in> set (tl (pre @ [t])). blk_elems (rwq_blocks q ! i) \<noteq> []) \<and>
     (\<forall>i \<in> set (tl pre). blk_count (rwq_blocks q ! i) = blk_cap (rwq_blocks q ! i) - 1) \<and>
     local_tail_ok (rwq_blocks q ! head_or pre t) \<and> local_front_ok (rwq_blocks q ! t) \<and>
     map Some xs = elems_of (rwq_blocks q) (pre @ [t])"

lemma elems_of_simps [simp]:
  "elems_of bs [] = []" "elems_of bs (i # r) = blk_elems (bs ! i) @ elems_of bs r"
  "elems_of bs (r @ s) = elems_of bs r @ elems_of bs s"
  by (simp_all add: elems_of_def)

lemma elems_of_cong: "(\<And>i. i \<in> set ids \<Longrightarrow> blk_elems (bs' ! i) = blk_elems (bs ! i)) \<Longrightarrow> elems_of bs' ids = elems_of bs ids"
  by (induction ids) auto

lemma upd_block_simps [simp]:
  "length (rwq_blocks (upd_block i f q)) = length (rwq_blocks q)"
  "frontBlock (upd_block i f q) = frontBlock q" "tailBlock (upd_block i f q) = tailBlock q"
  "largestBlockSize (upd_block i f q) = largestBlockSize q"
  by (simp_all add: upd_block_def)

lemma upd_block_nth:
  "i < length (rwq_blocks q) \<Longrightarrow> rwq_blocks (upd_block i f q) ! j = (if j = i then f (rwq_blocks q ! i) else rwq_blocks q ! j)"
  by (simp add: upd_block_def nth_list_update)

lemma list_all_upd: "list_all P xs \<Longrightarrow> P y \<Longrightarrow> list_all P (xs[i := y])"
  by (auto simp: list_all_iff dest!: subsetD [OF set_update_subset_insert])

lemma upd_block_ok:
  "list_all blk_ok (rwq_blocks q) \<Longrightarrow> blk_ok (f (rwq_blocks q ! i)) \<Longrightarrow> list_all blk_ok (rwq_blocks (upd_block i f q))"
  by (simp add: upd_block_def list_all_upd)

lemma shadow_simps [simp]:
  "blk_elems (b\<lparr>blk_localTail := v\<rparr>) = blk_elems b" "blk_elems (b\<lparr>blk_localFront := v\<rparr>) = blk_elems b"
  "blk_ok (b\<lparr>blk_localTail := v\<rparr>) = blk_ok b" "blk_ok (b\<lparr>blk_localFront := v\<rparr>) = blk_ok b"
  "blk_count (b\<lparr>blk_localTail := v\<rparr>) = blk_count b" "blk_count (b\<lparr>blk_localFront := v\<rparr>) = blk_count b"
  "local_front_ok (b\<lparr>blk_localTail := v\<rparr>) = local_front_ok b" "local_tail_ok (b\<lparr>blk_localFront := v\<rparr>) = local_tail_ok b"
  by (simp_all add: blk_elems_def blk_ok_def blk_count_def local_front_ok_def local_tail_ok_def)

lemma rel_in_range:
  assumes "rwq_rel q pre t post xs" and "i \<in> set (pre @ t # post)"
  shows "i < length (rwq_blocks q)" and "blk_ok (rwq_blocks q ! i)"
proof -
  show "i < length (rwq_blocks q)" using assms unfolding rwq_rel_def by blast
  then show "blk_ok (rwq_blocks q ! i)" using assms by (simp add: rwq_rel_def list_all_length)
qed

lemma head_or_in: "head_or pre t \<in> set (pre @ t # post)"
  by (cases pre) simp_all

text \<open>Changing a block without changing its elements, its place in the circle or its shadow copies for the worse.\<close>

lemma rel_upd:
  assumes rel: "rwq_rel q pre t post xs" and i: "i \<in> set (pre @ t # post)"
    and g: "blk_elems (g (rwq_blocks q ! i)) = blk_elems (rwq_blocks q ! i)" "blk_next (g (rwq_blocks q ! i)) = blk_next (rwq_blocks q ! i)"
      "blk_cap (g (rwq_blocks q ! i)) = blk_cap (rwq_blocks q ! i)" "blk_ok (g (rwq_blocks q ! i))"
    and l: "local_tail_ok (rwq_blocks q ! i) \<Longrightarrow> local_tail_ok (g (rwq_blocks q ! i))"
      "local_front_ok (rwq_blocks q ! i) \<Longrightarrow> local_front_ok (g (rwq_blocks q ! i))"
  shows "rwq_rel (upd_block i g q) pre t post xs"
proof -
  let ?q = "upd_block i g q"
  note r = rel_in_range [OF rel i]
  have "blk_count (g (rwq_blocks q ! i)) = blk_count (rwq_blocks q ! i)" using g(1) by (metis length_blk_elems)
  then have same: "blk_elems (rwq_blocks ?q ! j) = blk_elems (rwq_blocks q ! j)"
    "blk_next (rwq_blocks ?q ! j) = blk_next (rwq_blocks q ! j)"
    "blk_count (rwq_blocks ?q ! j) = blk_count (rwq_blocks q ! j)"
    "blk_cap (rwq_blocks ?q ! j) = blk_cap (rwq_blocks q ! j)" for j
    using r(1) g by (simp_all add: upd_block_nth)
  have "local_tail_ok (rwq_blocks q ! head_or pre t)" "local_front_ok (rwq_blocks q ! t)"
    using rel unfolding rwq_rel_def by blast+
  then have lt: "local_tail_ok (rwq_blocks ?q ! head_or pre t)" "local_front_ok (rwq_blocks ?q ! t)"
    using r(1) l by (auto simp: upd_block_nth)
  show ?thesis
    using rel lt upd_block_ok [of q g i] g(4)
      linked_cong [of _ "rwq_blocks ?q" "rwq_blocks q"] elems_of_cong [of _ "rwq_blocks ?q" "rwq_blocks q"]
    unfolding rwq_rel_def by (simp add: same)
qed

text \<open>Refreshing the shadow copies changes nothing else.\<close>

lemma rel_refresh_tail:
  assumes "rwq_rel q pre t post xs" and "i \<in> set (pre @ t # post)"
  shows "rwq_rel (upd_block i (\<lambda>b. b\<lparr>blk_localTail := blk_tail b\<rparr>) q) pre t post xs"
  using rel_in_range(2) [OF assms] local_exact(1) [OF rel_in_range(2) [OF assms]] by (intro rel_upd [OF assms]) simp_all

lemma rel_refresh_front:
  assumes "rwq_rel q pre t post xs" and "i \<in> set (pre @ t # post)"
  shows "rwq_rel (upd_block i (\<lambda>b. b\<lparr>blk_localFront := blk_front b\<rparr>) q) pre t post xs"
  using rel_in_range(2) [OF assms] local_exact(2) [OF rel_in_range(2) [OF assms]] by (intro rel_upd [OF assms]) simp_all

lemma elems_of_front: "elems_of bs (pre @ [t]) = blk_elems (bs ! head_or pre t) @ elems_of bs (tl (pre @ [t]))"
  by (cases pre) simp_all

lemma front_not_later:
  "distinct (pre @ t # post) \<Longrightarrow> head_or pre t \<notin> set (tl (pre @ [t])) \<and> head_or pre t \<notin> set post \<and> head_or pre t \<notin> set (tl pre)
    \<and> (pre \<noteq> [] \<longrightarrow> head_or pre t \<noteq> t)"
  by (cases pre) auto

lemma blk_drop_next [simp]: "blk_next (blk_drop b) = blk_next b" "blk_next (blk_put x b) = blk_next b"
  "blk_cap (blk_drop b) = blk_cap b" "blk_cap (blk_put x b) = blk_cap b"
  by (simp_all add: blk_drop_def blk_put_def)

text \<open>Taking the front element, when the shadow copy shows one.\<close>

lemma rel_drop:
  assumes rel: "rwq_rel q pre t post xs"
    and ne: "blk_front (rwq_blocks q ! head_or pre t) \<noteq> blk_localTail (rwq_blocks q ! head_or pre t)"
  shows "\<exists>x ys. xs = x # ys \<and> blk_data (rwq_blocks q ! head_or pre t) ! unat (blk_front (rwq_blocks q ! head_or pre t)) = Some x
    \<and> rwq_rel (upd_block (head_or pre t) blk_drop q) pre t post ys"
proof -
  let ?f = "head_or pre t" and ?q = "upd_block (head_or pre t) blk_drop q"
  let ?b = "rwq_blocks q ! ?f"
  note r = rel_in_range [OF rel head_or_in [of pre t post]]
  have lt: "local_tail_ok ?b" using rel by (simp add: rwq_rel_def)
  have nt: "blk_front ?b \<noteq> blk_tail ?b" by (rule local_tail_nonempty [OF r(2) lt ne])
  note d = blk_drop_ok [OF r(2) nt]
  have dist: "distinct (pre @ t # post)" using rel unfolding rwq_rel_def by blast
  note fn = front_not_later [OF dist]
  have at: "rwq_blocks ?q ! ?f = blk_drop ?b" "j \<noteq> ?f \<Longrightarrow> rwq_blocks ?q ! j = rwq_blocks q ! j" for j
    using r(1) by (simp_all add: upd_block_nth)
  have el: "map Some xs = blk_elems ?b @ elems_of (rwq_blocks q) (tl (pre @ [t]))"
    using rel elems_of_front [of "rwq_blocks q"] by (simp add: rwq_rel_def)
  then obtain x ys where xs: "xs = x # ys" "blk_data ?b ! unat (blk_front ?b) = Some x"
    "map Some ys = blk_elems (blk_drop ?b) @ elems_of (rwq_blocks q) (tl (pre @ [t]))"
    using d(2) by (cases xs) auto
  have later: "elems_of (rwq_blocks ?q) (tl (pre @ [t])) = elems_of (rwq_blocks q) (tl (pre @ [t]))"
    by (rule elems_of_cong) (use fn at in metis)
  have ys: "map Some ys = elems_of (rwq_blocks ?q) (pre @ [t])"
    unfolding elems_of_front at(1) later using xs(3) .
  have lk: "linked (rwq_blocks ?q) (pre @ t # post) ?f"
    using rel linked_cong [of "pre @ t # post" "rwq_blocks ?q" "rwq_blocks q"] r(1)
    by (simp add: rwq_rel_def upd_block_nth)
  have lf: "local_front_ok (rwq_blocks ?q ! t)"
    using rel drop_local_front [OF r(2) nt] at(2) [of t] at(1) by (cases "t = ?f") (auto simp: rwq_rel_def)
  have oth: "\<forall>i \<in> set post. blk_elems (rwq_blocks ?q ! i) = []" "\<forall>i \<in> set (tl (pre @ [t])). blk_elems (rwq_blocks ?q ! i) \<noteq> []"
    "\<forall>i \<in> set (tl pre). blk_count (rwq_blocks ?q ! i) = blk_cap (rwq_blocks ?q ! i) - 1"
    using rel fn at(2) unfolding rwq_rel_def by metis+
  have "rwq_rel ?q pre t post ys"
    using rel lk lf oth ys drop_local_tail [OF r(2) ne lt] upd_block_ok [of q blk_drop ?f] d(1)
    unfolding rwq_rel_def at(1) by (simp only: upd_block_simps simp_thms)
  with xs show ?thesis by blast
qed

text \<open>Moving the front pointer past an empty front block.\<close>

lemma rel_advance:
  assumes rel: "rwq_rel q pre t post xs" and e: "blk_elems (rwq_blocks q ! head_or pre t) = []" and "pre \<noteq> []"
  shows "blk_next (rwq_blocks q ! head_or pre t) = head_or (tl pre) t"
    and "blk_front (rwq_blocks q ! head_or (tl pre) t) \<noteq> blk_tail (rwq_blocks q ! head_or (tl pre) t)"
    and "local_tail_ok (rwq_blocks q ! head_or (tl pre) t) \<Longrightarrow>
      rwq_rel (q\<lparr>frontBlock := head_or (tl pre) t\<rparr>) (tl pre) t (post @ [head_or pre t]) xs"
proof -
  obtain f pre' where pre: "pre = f # pre'" using assms(3) by (cases pre) auto
  have m: "head_or pre' t \<in> set (pre' @ t # post)" by (rule head_or_in)
  then have r: "blk_ok (rwq_blocks q ! head_or pre' t)" using rel_in_range [OF rel] by (simp add: pre)
  show "blk_next (rwq_blocks q ! head_or pre t) = head_or (tl pre) t"
    using rel by (simp add: rwq_rel_def pre head_or_append)
  have "blk_elems (rwq_blocks q ! head_or pre' t) \<noteq> []" using rel by (cases pre') (simp_all add: rwq_rel_def pre)
  then show "blk_front (rwq_blocks q ! head_or (tl pre) t) \<noteq> blk_tail (rwq_blocks q ! head_or (tl pre) t)"
    using blk_elems_empty [OF r] by (simp add: pre)
  assume "local_tail_ok (rwq_blocks q ! head_or (tl pre) t)"
  moreover have "linked (rwq_blocks q) (pre' @ t # post @ [f]) (head_or pre' t)"
    using rel by (auto simp: rwq_rel_def pre linked_append head_or_append)
  moreover have "\<forall>i \<in> set (tl (pre' @ [t])). blk_elems (rwq_blocks q ! i) \<noteq> []"
    using rel by (cases pre') (auto simp: rwq_rel_def pre)
  moreover have "\<forall>i \<in> set (tl pre'). blk_count (rwq_blocks q ! i) = blk_cap (rwq_blocks q ! i) - 1"
    using rel by (cases pre') (auto simp: rwq_rel_def pre)
  ultimately show "rwq_rel (q\<lparr>frontBlock := head_or (tl pre) t\<rparr>) (tl pre) t (post @ [head_or pre t]) xs"
    using rel e by (auto simp: rwq_rel_def pre)
qed

section \<open>Dequeue\<close>

definition same_shape :: "'a rwqueue \<Rightarrow> 'a rwqueue \<Rightarrow> bool" where
  "same_shape q q' \<longleftrightarrow> map blk_cap (rwq_blocks q') = map blk_cap (rwq_blocks q) \<and> largestBlockSize q' = largestBlockSize q"

lemma same_shape_refl [simp]: "same_shape q q"
  by (simp add: same_shape_def)

lemma same_shape_upd [simp]:
  assumes "\<And>b. blk_cap (f b) = blk_cap b"
  shows "same_shape q (upd_block i f q')= same_shape q q'"
proof -
  have "map blk_cap ((rwq_blocks q')[i := f (rwq_blocks q' ! i)]) = map blk_cap (rwq_blocks q')"
    by (cases "i < length (rwq_blocks q')") (simp_all add: map_update assms list_update_same_conv list_update_beyond)
  then show ?thesis by (simp add: same_shape_def upd_block_def)
qed

lemma same_shape_front [simp]: "same_shape q (q'\<lparr>frontBlock := i\<rparr>) = same_shape q q'" "same_shape q (q'\<lparr>tailBlock := i\<rparr>) = same_shape q q'"
  by (simp_all add: same_shape_def)

lemma front_has_element_rel:
  assumes "rwq_rel q pre t post xs" and "front_has_element q = (ne, q1)"
  shows "rwq_rel q1 pre t post xs" and "same_shape q q1"
    and "ne \<longleftrightarrow> blk_elems (rwq_blocks q1 ! head_or pre t) \<noteq> []"
    and "ne \<Longrightarrow> blk_front (rwq_blocks q1 ! head_or pre t) \<noteq> blk_localTail (rwq_blocks q1 ! head_or pre t)"
proof -
  let ?f = "head_or pre t"
  let ?b = "rwq_blocks q ! ?f" and ?u = "\<lambda>b. b\<lparr>blk_localTail := blk_tail b\<rparr>"
  note r = rel_in_range [OF assms(1) head_or_in [of pre t post]]
  have fb: "frontBlock q = ?f" and lt: "local_tail_ok ?b" using assms(1) by (simp_all add: rwq_rel_def)
  have nonempty: "blk_elems ?b \<noteq> [] \<longleftrightarrow> blk_front ?b \<noteq> blk_tail ?b" using blk_elems_empty [OF r(2)] by blast
  consider "blk_front ?b \<noteq> blk_localTail ?b" "ne" "q1 = q"
    | "blk_front ?b = blk_localTail ?b" "ne \<longleftrightarrow> blk_front ?b \<noteq> blk_tail ?b" "q1 = upd_block ?f ?u q"
    using assms(2) fb by (auto simp: front_has_element_def Let_def split: if_splits)
  note cs = this
  show "rwq_rel q1 pre t post xs"
    using cs assms(1) rel_refresh_tail [OF assms(1) head_or_in] by cases auto
  show "same_shape q q1" using cs by cases simp_all
  show "ne \<longleftrightarrow> blk_elems (rwq_blocks q1 ! ?f) \<noteq> []"
    using cs nonempty local_tail_nonempty [OF r(2) lt] r(1) by cases (simp_all add: upd_block_nth)
  show "ne \<Longrightarrow> blk_front (rwq_blocks q1 ! ?f) \<noteq> blk_localTail (rwq_blocks q1 ! ?f)"
    using cs r(1) by cases (simp_all add: upd_block_nth)
qed

lemma dequeue_from_rel:
  assumes "rwq_rel q pre t post xs"
    and "blk_front (rwq_blocks q ! head_or pre t) \<noteq> blk_localTail (rwq_blocks q ! head_or pre t)"
  shows "\<exists>x ys q'. xs = x # ys \<and> dequeue_from (head_or pre t) q = Some (Some x, q') \<and> q' = upd_block (head_or pre t) blk_drop q
    \<and> rwq_rel q' pre t post ys"
  using rel_drop [OF assms] by (auto simp: dequeue_from_def)

text \<open>
  The front block is empty and is not the tail block: the next block's shadow copy is refreshed and the
  front pointer moves there.
\<close>

lemma advance_rel:
  assumes rel: "rwq_rel q pre t post xs" and e: "blk_elems (rwq_blocks q ! head_or pre t) = []" and pre: "pre \<noteq> []"
  defines "nx \<equiv> head_or (tl pre) t"
  defines "q3 \<equiv> (upd_block nx (\<lambda>b. b\<lparr>blk_localTail := blk_tail b\<rparr>) q)\<lparr>frontBlock := nx\<rparr>"
  shows "rwq_rel q3 (tl pre) t (post @ [head_or pre t]) xs"
    and "blk_front (rwq_blocks q3 ! nx) \<noteq> blk_localTail (rwq_blocks q3 ! nx)"
    and "blk_front (rwq_blocks q3 ! nx) \<noteq> blk_tail (rwq_blocks q3 ! nx)"
proof -
  have m: "nx \<in> set (pre @ t # post)" unfolding nx_def using pre by (cases pre; cases "tl pre") auto
  note r = rel_in_range [OF rel m]
  let ?q = "upd_block nx (\<lambda>b. b\<lparr>blk_localTail := blk_tail b\<rparr>) q"
  have rel': "rwq_rel ?q pre t post xs" by (rule rel_refresh_tail [OF rel m])
  have e': "blk_elems (rwq_blocks ?q ! head_or pre t) = []" using e r(1) by (auto simp: upd_block_nth)
  have "local_tail_ok (rwq_blocks ?q ! head_or (tl pre) t)"
    using local_exact(1) [OF r(2)] r(1) by (simp add: upd_block_nth nx_def [symmetric])
  then show "rwq_rel q3 (tl pre) t (post @ [head_or pre t]) xs"
    unfolding q3_def nx_def using rel_advance(3) [OF rel' e' pre] by (simp add: nx_def)
  have "blk_front (rwq_blocks q ! nx) \<noteq> blk_tail (rwq_blocks q ! nx)"
    unfolding nx_def by (rule rel_advance(2) [OF rel e pre])
  then show "blk_front (rwq_blocks q3 ! nx) \<noteq> blk_localTail (rwq_blocks q3 ! nx)"
    and "blk_front (rwq_blocks q3 ! nx) \<noteq> blk_tail (rwq_blocks q3 ! nx)"
    using r(1) by (simp_all add: q3_def upd_block_nth)
qed

text \<open>
  What the slow path of the three consumer operations sees: the front block is empty, so that it is either
  the tail block and the queue is empty, or the next block has an element.
\<close>

lemma slow_path:
  assumes rel: "rwq_rel q pre t post xs" and e: "blk_elems (rwq_blocks q ! head_or pre t) = []"
  shows "frontBlock q = tailBlock q \<Longrightarrow> xs = []"
    and "frontBlock q \<noteq> tailBlock q \<Longrightarrow> pre \<noteq> [] \<and> blk_front (rwq_blocks q ! head_or pre t) = blk_tail (rwq_blocks q ! head_or pre t)
      \<and> blk_next (rwq_blocks q ! head_or pre t) = head_or (tl pre) t"
proof -
  have dist: "distinct (pre @ t # post)" and fb: "frontBlock q = head_or pre t" "tailBlock q = t"
    using rel unfolding rwq_rel_def by blast+
  show "xs = []" if "frontBlock q = tailBlock q"
  proof -
    have "pre = []" using that fb dist by (cases pre) auto
    then show ?thesis using rel e by (simp add: rwq_rel_def)
  qed
  assume "frontBlock q \<noteq> tailBlock q"
  then have p: "pre \<noteq> []" using fb by auto
  then show "pre \<noteq> [] \<and> blk_front (rwq_blocks q ! head_or pre t) = blk_tail (rwq_blocks q ! head_or pre t)
      \<and> blk_next (rwq_blocks q ! head_or pre t) = head_or (tl pre) t"
    using rel_advance(1) [OF rel e p] e blk_elems_empty [OF rel_in_range(2) [OF rel head_or_in]] by blast
qed

lemma try_dequeue_rel:
  assumes rel: "rwq_rel q pre t post xs"
  shows "\<exists>q' pre' post'. try_dequeue q = Some (case xs of [] \<Rightarrow> None | x # _ \<Rightarrow> Some x, q')
    \<and> rwq_rel q' pre' t post' (tl xs) \<and> same_shape q q'"
proof -
  let ?u = "\<lambda>b. b\<lparr>blk_localTail := blk_tail b\<rparr>" and ?f = "head_or pre t"
  obtain ne q1 where h: "front_has_element q = (ne, q1)" by force
  note F = front_has_element_rel [OF rel h]
  have fb: "frontBlock q1 = ?f" "tailBlock q1 = t" using F(1) by (simp_all add: rwq_rel_def)
  show ?thesis
  proof (cases ne)
    case True
    then obtain x ys q' where "xs = x # ys" "dequeue_from ?f q1 = Some (Some x, q')" "q' = upd_block ?f blk_drop q1"
      "rwq_rel q' pre t post ys"
      using dequeue_from_rel [OF F(1) F(4)] by blast
    moreover from this have "same_shape q q'" using F(2) by simp
    ultimately show ?thesis using True h fb
      by (intro exI [of _ q'] exI [of _ pre] exI [of _ post]) (simp add: try_dequeue_def Let_def)
  next
    case False
    then have e: "blk_elems (rwq_blocks q1 ! ?f) = []" using F(3) by blast
    show ?thesis
    proof (cases "frontBlock q1 = tailBlock q1")
      case True
      then show ?thesis using slow_path(1) [OF F(1) e] False h F(1,2) by (auto simp: try_dequeue_def Let_def)
    next
      case adv: False
      let ?q2 = "upd_block ?f ?u q1"
      have rel2: "rwq_rel ?q2 pre t post xs" by (rule rel_refresh_tail [OF F(1) head_or_in])
      have e2: "blk_elems (rwq_blocks ?q2 ! ?f) = []"
        using e rel_in_range(1) [OF F(1) head_or_in] by (simp add: upd_block_nth)
      have s: "pre \<noteq> []" "blk_front (rwq_blocks ?q2 ! ?f) = blk_tail (rwq_blocks ?q2 ! ?f)"
        "blk_next (rwq_blocks ?q2 ! ?f) = head_or (tl pre) t"
        using slow_path(2) [OF rel2 e2] adv by simp_all
      note A = advance_rel [OF rel2 e2 s(1)]
      obtain x ys q' where d: "xs = x # ys"
        "dequeue_from (head_or (tl pre) t) ((upd_block (head_or (tl pre) t) ?u ?q2)\<lparr>frontBlock := head_or (tl pre) t\<rparr>) = Some (Some x, q')"
        "q' = upd_block (head_or (tl pre) t) blk_drop ((upd_block (head_or (tl pre) t) ?u ?q2)\<lparr>frontBlock := head_or (tl pre) t\<rparr>)"
        "rwq_rel q' (tl pre) t (post @ [?f]) ys"
        using dequeue_from_rel [OF A(1,2)] by blast
      then have "same_shape q q'" using F(2) by simp
      moreover have "try_dequeue q = Some (Some x, q')"
        using False h fb adv s A(3) d(2) by (simp add: try_dequeue_def Let_def)
      ultimately show ?thesis using d by auto
    qed
  qed
qed

text \<open>\<^verbatim>\<open>pop\<close> is \<^verbatim>\<open>try_dequeue\<close> without the element, \<^verbatim>\<open>peek\<close> is a pointer to it.\<close>

lemma dequeue_from_drops: "dequeue_from i q = Some (r, q') \<Longrightarrow> r \<noteq> None \<and> q' = upd_block i blk_drop q"
  by (cases "blk_data (rwq_blocks q ! i) ! unat (blk_front (rwq_blocks q ! i))") (auto simp: dequeue_from_def Let_def, metis)

lemma pop_try_dequeue:
  assumes "try_dequeue q = Some (r, q')"
  shows "pop q = Some (r \<noteq> None, q')"
  using assms
  by (auto simp: try_dequeue_def pop_def Let_def dest: dequeue_from_drops split: prod.splits if_splits)

lemma peek_rel:
  assumes rel: "rwq_rel q pre t post xs"
  shows "\<exists>p q'. peek q = Some (p, q') \<and> rwq_rel q' pre t post xs \<and>
    (case xs of [] \<Rightarrow> p = None
     | x # _ \<Rightarrow> \<exists>i s. p = Some (i, s) \<and> blk_data (rwq_blocks q' ! i) ! unat s = Some x)"
proof -
  let ?u = "\<lambda>b. b\<lparr>blk_localTail := blk_tail b\<rparr>" and ?f = "head_or pre t" and ?nx = "head_or (tl pre) t"
  obtain ne q1 where h: "front_has_element q = (ne, q1)" by force
  note F = front_has_element_rel [OF rel h]
  have fb: "frontBlock q1 = ?f" "tailBlock q1 = t" using F(1) by (simp_all add: rwq_rel_def)
  show ?thesis
  proof (cases ne)
    case True
    then show ?thesis using rel_drop [OF F(1) F(4)] F(1) h fb by (auto simp: peek_def Let_def)
  next
    case False
    then have e: "blk_elems (rwq_blocks q1 ! ?f) = []" using F(3) by blast
    show ?thesis
    proof (cases "frontBlock q1 = tailBlock q1")
      case True
      then show ?thesis using slow_path(1) [OF F(1) e] False h F(1) by (auto simp: peek_def Let_def)
    next
      case adv: False
      let ?q2 = "upd_block ?f ?u q1"
      have rel2: "rwq_rel ?q2 pre t post xs" by (rule rel_refresh_tail [OF F(1) head_or_in])
      have e2: "blk_elems (rwq_blocks ?q2 ! ?f) = []"
        using e rel_in_range(1) [OF F(1) head_or_in] by (simp add: upd_block_nth)
      have s: "pre \<noteq> []" "blk_front (rwq_blocks ?q2 ! ?f) = blk_tail (rwq_blocks ?q2 ! ?f)"
        "blk_next (rwq_blocks ?q2 ! ?f) = ?nx"
        using slow_path(2) [OF rel2 e2] adv by simp_all
      note A = advance_rel [OF rel2 e2 s(1)]
      have m: "?nx < length (rwq_blocks ?q2)"
        using rel_in_range(1) [OF A(1) head_or_in] by simp
      obtain x ys where "xs = x # ys"
        "blk_data (rwq_blocks ?q2 ! ?nx) ! unat (blk_front (rwq_blocks ?q2 ! ?nx)) = Some x"
        using rel_drop [OF A(1,2)] m by (auto simp: upd_block_nth)
      then show ?thesis
        using False h fb adv s rel2 rel_advance(2) [OF rel2 e2 s(1)] by (auto simp: peek_def Let_def)
    qed
  qed
qed

lemma peek_size: "peek q = Some (p, q') \<Longrightarrow> largestBlockSize q' = largestBlockSize q"
  by (auto simp: peek_def front_has_element_def Let_def split: prod.splits if_splits)

section \<open>Enqueue\<close>

lemma rel_put:
  assumes rel: "rwq_rel q pre t post xs"
    and room: "blk_inc (rwq_blocks q ! t) (blk_tail (rwq_blocks q ! t)) \<noteq> blk_localFront (rwq_blocks q ! t)"
  shows "rwq_rel (upd_block t (blk_put x) q) pre t post (xs @ [x])"
proof -
  let ?q = "upd_block t (blk_put x) q" and ?b = "rwq_blocks q ! t"
  note r = rel_in_range [OF rel, of t, simplified]
  have lf: "local_front_ok ?b" and dist: "distinct (pre @ t # post)" using rel unfolding rwq_rel_def by blast+
  have nf: "blk_inc ?b (blk_tail ?b) \<noteq> blk_front ?b" by (rule local_front_room [OF r(2) lf room])
  note p = blk_put_ok [OF r(2) nf, of x]
  have at: "rwq_blocks ?q ! t = blk_put x ?b" "j \<noteq> t \<Longrightarrow> rwq_blocks ?q ! j = rwq_blocks q ! j" for j
    using r(1) by (simp_all add: upd_block_nth)
  have same: "rwq_blocks ?q ! j = rwq_blocks q ! j" if "j \<in> set pre \<or> j \<in> set post" for j
  proof -
    have "j \<noteq> t" using that dist by auto
    then show ?thesis by (rule at(2))
  qed
  have el: "map Some (xs @ [x]) = elems_of (rwq_blocks ?q) (pre @ [t])"
    using rel p(2) elems_of_cong [of pre "rwq_blocks ?q" "rwq_blocks q"] same at(1) by (simp add: rwq_rel_def)
  have lk: "linked (rwq_blocks ?q) (pre @ t # post) (head_or pre t)"
    using rel linked_cong [of "pre @ t # post" "rwq_blocks ?q" "rwq_blocks q"] r(1)
    by (simp add: rwq_rel_def upd_block_nth)
  have lt: "local_tail_ok (rwq_blocks ?q ! head_or pre t)"
    using rel put_local_tail [OF r(2) nf] at same [of "head_or pre t"] by (cases pre) (auto simp: rwq_rel_def)
  have oth: "\<forall>i \<in> set post. blk_elems (rwq_blocks ?q ! i) = []"
    "\<forall>i \<in> set (tl (pre @ [t])). blk_elems (rwq_blocks ?q ! i) \<noteq> []"
    "\<forall>i \<in> set (tl pre). blk_count (rwq_blocks ?q ! i) = blk_cap (rwq_blocks ?q ! i) - 1"
    using rel same at(1) p(2) by (auto simp: rwq_rel_def list.set_sel(2)) (cases pre; auto)+
  show ?thesis
    using rel lk lt oth el put_local_front [OF r(2) room lf] upd_block_ok [of q "blk_put x" t] p(1)
    unfolding rwq_rel_def at(1) by (simp only: upd_block_simps simp_thms)
qed

text \<open>The tail block is full and the next block is free: the tail pointer moves there.\<close>

lemma rel_next_block:
  assumes rel: "rwq_rel q pre t (p # post) xs" and lf: "blk_localFront (rwq_blocks q ! p) = blk_front (rwq_blocks q ! p)"
    and full: "pre \<noteq> [] \<Longrightarrow> blk_count (rwq_blocks q ! t) = blk_cap (rwq_blocks q ! t) - 1"
  shows "rwq_rel ((upd_block p (blk_put x) q)\<lparr>tailBlock := p\<rparr>) (pre @ [t]) p post (xs @ [x])"
proof -
  let ?q = "upd_block p (blk_put x) q" and ?b = "rwq_blocks q ! p"
  note r = rel_in_range [OF rel, of p, simplified]
  have dist: "distinct (pre @ t # p # post)" and e: "blk_elems ?b = []" using rel unfolding rwq_rel_def by auto
  have "blk_count ?b = 0" using e by (metis length_blk_elems list.size(3))
  then have "blk_count ?b \<noteq> blk_cap ?b - 1" using blk_ok_cap [OF r(2)] by simp
  then have nf: "blk_inc ?b (blk_tail ?b) \<noteq> blk_front ?b" using blk_full [OF r(2)] by blast
  note pt = blk_put_ok [OF r(2) nf, of x]
  have at: "rwq_blocks ?q ! p = blk_put x ?b" "j \<noteq> p \<Longrightarrow> rwq_blocks ?q ! j = rwq_blocks q ! j" for j
    using r(1) by (simp_all add: upd_block_nth)
  have same: "rwq_blocks ?q ! j = rwq_blocks q ! j" if "j \<in> set (pre @ [t]) \<or> j \<in> set post" for j
  proof -
    have "j \<noteq> p" using that dist by auto
    then show ?thesis by (rule at(2))
  qed
  have el: "map Some (xs @ [x]) = elems_of (rwq_blocks ?q) ((pre @ [t]) @ [p])"
    using rel pt(2) e elems_of_cong [of "pre @ [t]" "rwq_blocks ?q" "rwq_blocks q"] same at(1) by (simp add: rwq_rel_def)
  have lk: "linked (rwq_blocks ?q) ((pre @ [t]) @ p # post) (head_or pre t)"
    using rel linked_cong [of "pre @ t # p # post" "rwq_blocks ?q" "rwq_blocks q"] r(1)
    by (simp add: rwq_rel_def upd_block_nth)
  have hd: "head_or (pre @ [t]) p = head_or pre t" by (simp add: head_or_append)
  have lt: "local_tail_ok (rwq_blocks ?q ! head_or pre t)"
    using rel same [of "head_or pre t"] by (cases pre) (auto simp: rwq_rel_def)
  have "local_front_ok ?b" using lf blk_okD [OF r(2)] by (simp add: local_front_ok_def blk_count_def)
  then have lf': "local_front_ok (rwq_blocks ?q ! p)" using put_local_front [OF r(2)] nf lf at(1) by simp
  have oth: "\<forall>i \<in> set post. blk_elems (rwq_blocks ?q ! i) = []"
    "\<forall>i \<in> set (tl ((pre @ [t]) @ [p])). blk_elems (rwq_blocks ?q ! i) \<noteq> []"
    "\<forall>i \<in> set (tl (pre @ [t])). blk_count (rwq_blocks ?q ! i) = blk_cap (rwq_blocks ?q ! i) - 1"
    using rel same at(1) pt(2) full by (cases pre; auto simp: rwq_rel_def)+
  show ?thesis
    using rel lk lt lf' oth el upd_block_ok [of q "blk_put x" p] pt(1)
    unfolding rwq_rel_def hd by simp
qed

text \<open>An empty block is linked in behind the tail block.\<close>

definition insert_block :: "'a spsc_block \<Rightarrow> 'a rwqueue \<Rightarrow> 'a rwqueue" where
  "insert_block nb q =
     (let t = tailBlock q; new = length (rwq_blocks q)
      in upd_block t (\<lambda>b. b\<lparr>blk_next := new\<rparr>)
           (q\<lparr>rwq_blocks := rwq_blocks q @ [nb\<lparr>blk_next := blk_next (rwq_blocks q ! t)\<rparr>]\<rparr>))"

lemma rel_insert_block:
  assumes rel: "rwq_rel q pre t post xs" and nb: "blk_ok nb" "blk_elems nb = []"
  shows "rwq_rel (insert_block nb q) pre t (length (rwq_blocks q) # post) xs"
proof -
  let ?bs = "rwq_blocks q" and ?n = "length (rwq_blocks q)" and ?q = "insert_block nb q" and ?f = "head_or pre t"
  let ?nb = "nb\<lparr>blk_next := blk_next (?bs ! t)\<rparr>"
  have t: "tailBlock q = t" "t < ?n" using rel_in_range(1) [OF rel, of t] rel unfolding rwq_rel_def by simp_all
  have bs: "rwq_blocks ?q = ?bs[t := (?bs ! t)\<lparr>blk_next := ?n\<rparr>] @ [?nb]"
    using t by (simp add: insert_block_def upd_block_def nth_append list_update_append Let_def)
  have at: "rwq_blocks ?q ! ?n = ?nb" "rwq_blocks ?q ! t = (?bs ! t)\<lparr>blk_next := ?n\<rparr>"
    "j < ?n \<Longrightarrow> j \<noteq> t \<Longrightarrow> rwq_blocks ?q ! j = ?bs ! j" for j
    using t by (simp_all add: bs nth_append)
  have ids: "distinct (pre @ t # post)" "set (pre @ t # post) = {..<?n}" "linked ?bs (pre @ t # post) ?f"
    using rel unfolding rwq_rel_def by blast+
  have rng: "j < ?n" if "j \<in> set (pre @ t # post)" for j using rel_in_range(1) [OF rel that] .
  have sm: "blk_elems (rwq_blocks ?q ! j) = blk_elems (?bs ! j) \<and> blk_count (rwq_blocks ?q ! j) = blk_count (?bs ! j)
      \<and> blk_cap (rwq_blocks ?q ! j) = blk_cap (?bs ! j) \<and> local_tail_ok (rwq_blocks ?q ! j) = local_tail_ok (?bs ! j)
      \<and> local_front_ok (rwq_blocks ?q ! j) = local_front_ok (?bs ! j)" if "j < ?n" for j
    using at(3) [OF that] at(2)
    by (cases "j = t") (simp_all add: blk_elems_def blk_count_def local_tail_ok_def local_front_ok_def)
  have other: "rwq_blocks ?q ! j = ?bs ! j" if "j \<in> set pre \<or> j \<in> set post" for j
    by (rule at(3)) (use that ids(1) rng in auto)
  have "linked (rwq_blocks ?q) pre t" "linked (rwq_blocks ?q) post ?f"
    using ids(3) other linked_cong [of pre "rwq_blocks ?q" ?bs t] linked_cong [of post "rwq_blocks ?q" ?bs ?f]
    by (simp_all add: linked_append)
  then have lk: "linked (rwq_blocks ?q) (pre @ t # ?n # post) ?f"
    using ids(3) by (simp add: linked_append at)
  have el: "map Some xs = elems_of (rwq_blocks ?q) (pre @ [t])"
  proof -
    have "elems_of (rwq_blocks ?q) (pre @ [t]) = elems_of ?bs (pre @ [t])"
      by (rule elems_of_cong) (use sm rng in auto)
    then show ?thesis using rel unfolding rwq_rel_def by simp
  qed
  have ok: "list_all blk_ok (rwq_blocks ?q)"
    using rel nb(1) t unfolding bs by (auto simp: rwq_rel_def list_all_iff blk_ok_def dest!: subsetD [OF set_update_subset_insert])
  have nbe: "blk_elems ?nb = []" using nb(2) by (simp add: blk_elems_def)
  have cs: "\<forall>i \<in> set post. blk_elems (?bs ! i) = []" "\<forall>i \<in> set (tl (pre @ [t])). blk_elems (?bs ! i) \<noteq> []"
    "\<forall>i \<in> set (tl pre). blk_count (?bs ! i) = blk_cap (?bs ! i) - 1"
    using rel unfolding rwq_rel_def by blast+
  have tl_rng: "j < ?n" if "j \<in> set (tl (pre @ [t])) \<or> j \<in> set (tl pre)" for j
    by (rule rng) (use that in \<open>cases pre; auto\<close>)
  have oth: "\<forall>i \<in> set (?n # post). blk_elems (rwq_blocks ?q ! i) = []" using cs(1) sm rng nbe at(1) by simp
  have oth2: "\<forall>i \<in> set (tl (pre @ [t])). blk_elems (rwq_blocks ?q ! i) \<noteq> []" using cs(2) sm tl_rng by metis
  have oth3: "\<forall>i \<in> set (tl pre). blk_count (rwq_blocks ?q ! i) = blk_cap (rwq_blocks ?q ! i) - 1" using cs(3) sm tl_rng by metis
  have "set (pre @ t # ?n # post) = insert ?n (set (pre @ t # post))" by auto
  also have "\<dots> = {..<length (rwq_blocks ?q)}" unfolding ids(2) by (simp add: bs lessThan_Suc)
  finally have "set (pre @ t # ?n # post) = {..<length (rwq_blocks ?q)}" .
  moreover have "distinct (pre @ t # ?n # post)" using ids(1) rng by auto
  moreover have "tailBlock ?q = t" "frontBlock ?q = ?f" using rel by (simp_all add: insert_block_def rwq_rel_def Let_def)
  moreover have "local_tail_ok (rwq_blocks ?q ! ?f)" "local_front_ok (rwq_blocks ?q ! t)"
    using rel sm rng head_or_in [of pre t post] t(2) by (simp_all add: rwq_rel_def)
  ultimately show ?thesis
    using lk el ok oth oth2 oth3 unfolding rwq_rel_def by (simp only: simp_thms)
qed

text \<open>The tail block is full and there is no free block: a new one with the element is linked in behind it.\<close>

definition link_block :: "'a \<Rightarrow> u64 \<Rightarrow> 'a rwqueue \<Rightarrow> 'a rwqueue" where
  "link_block x cap q =
     (let t = tailBlock q; new = length (rwq_blocks q);
          nb = (new_block cap)\<lparr>blk_data := (blk_data (new_block cap))[0 := Some x], blk_localTail := 1, blk_tail := 1,
                 blk_next := blk_next (rwq_blocks q ! t)\<rparr>
      in (upd_block t (\<lambda>b. b\<lparr>blk_next := new\<rparr>) (q\<lparr>rwq_blocks := rwq_blocks q @ [nb], largestBlockSize := cap\<rparr>))
           \<lparr>tailBlock := new\<rparr>)"

lemma first_put:
  fixes x :: 'a
  assumes "unat cap = 2 ^ n" and "0 < n" and "n < 64"
  shows "blk_inc (new_block cap :: 'a spsc_block) 0 = 1"
    and "blk_put x ((new_block cap)\<lparr>blk_localTail := 1, blk_next := nx\<rparr>)
      = (new_block cap)\<lparr>blk_data := (blk_data (new_block cap))[0 := Some x], blk_localTail := 1, blk_tail := 1, blk_next := nx\<rparr>"
proof -
  let ?b = "new_block cap :: 'a spsc_block"
  note ok = new_block_ok [OF assms, where 'a = 'a]
  have "1 < blk_cap ?b" using blk_ok_cap [OF ok(1)] by simp
  then have "unat (blk_inc ?b 0) = 1" using unat_blk_inc [OF ok(1), of 0] by simp
  then show i: "blk_inc ?b 0 = 1" by (metis unat_1 word_unat_eq_iff)
  then show "blk_put x ((new_block cap)\<lparr>blk_localTail := 1, blk_next := nx\<rparr>)
      = (new_block cap)\<lparr>blk_data := (blk_data (new_block cap))[0 := Some x], blk_localTail := 1, blk_tail := 1, blk_next := nx\<rparr>"
    by (simp add: blk_put_def blk_inc_def new_block_def)
qed

lemma fresh_block:
  assumes "unat cap = 2 ^ n" and "0 < n" and "n < 64"
  shows "blk_ok ((new_block cap :: 'a spsc_block)\<lparr>blk_localTail := 1\<rparr>)"
    and "blk_elems ((new_block cap :: 'a spsc_block)\<lparr>blk_localTail := 1\<rparr>) = []"
  using new_block_ok [OF assms, where 'a = 'a] by simp_all

lemma rel_size: "rwq_rel (q\<lparr>largestBlockSize := v\<rparr>) pre t post xs = rwq_rel q pre t post xs"
  by (simp add: rwq_rel_def)

lemma link_block_insert:
  assumes cap: "unat cap = 2 ^ n" "0 < n" "n < 64" and t: "tailBlock q < length (rwq_blocks q)"
  shows "link_block x cap q = (upd_block (length (rwq_blocks q)) (blk_put x)
    (insert_block ((new_block cap)\<lparr>blk_localTail := 1\<rparr>) (q\<lparr>largestBlockSize := cap\<rparr>)))\<lparr>tailBlock := length (rwq_blocks q)\<rparr>"
  using t first_put(2) [OF cap, of x "blk_next (rwq_blocks q ! tailBlock q)"]
  by (simp add: link_block_def insert_block_def upd_block_def Let_def nth_append list_update_append)

lemma rel_link_block:
  assumes rel: "rwq_rel q pre t post xs" and cap: "unat cap = 2 ^ n" "0 < n" "n < 64"
    and full: "pre \<noteq> [] \<Longrightarrow> blk_count (rwq_blocks q ! t) = blk_cap (rwq_blocks q ! t) - 1"
  shows "rwq_rel (link_block x cap q) (pre @ [t]) (length (rwq_blocks q)) post (xs @ [x])"
proof -
  let ?q = "q\<lparr>largestBlockSize := cap\<rparr>" and ?nb = "(new_block cap)\<lparr>blk_localTail := 1\<rparr>"
  have t: "tailBlock q = t" "t < length (rwq_blocks q)"
    using rel_in_range(1) [OF rel, of t] rel unfolding rwq_rel_def by simp_all
  have "rwq_rel ?q pre t post xs" using rel by (simp add: rel_size)
  from rel_insert_block [OF this fresh_block [OF cap]]
  have ins: "rwq_rel (insert_block ?nb ?q) pre t (length (rwq_blocks q) # post) xs" by simp
  have bs: "rwq_blocks (insert_block ?nb ?q) ! length (rwq_blocks q) = ?nb\<lparr>blk_next := blk_next (rwq_blocks q ! t)\<rparr>"
    "rwq_blocks (insert_block ?nb ?q) ! t = (rwq_blocks q ! t)\<lparr>blk_next := length (rwq_blocks q)\<rparr>"
    using t by (simp_all add: insert_block_def upd_block_def nth_append list_update_append Let_def)
  show ?thesis
    unfolding link_block_insert [OF cap t(2) [folded t(1)]]
  proof (rule rel_next_block [OF ins], unfold bs)
    show "blk_localFront (?nb\<lparr>blk_next := blk_next (rwq_blocks q ! t)\<rparr>) = blk_front (?nb\<lparr>blk_next := blk_next (rwq_blocks q ! t)\<rparr>)"
      by (simp add: new_block_def)
  qed (use full in \<open>simp add: blk_count_def\<close>)
qed

text \<open>The template parameter and the size of the largest block are powers of two.\<close>

definition mbs_ok :: "u64 \<Rightarrow> bool" where
  "mbs_ok mbs \<longleftrightarrow> (\<exists>k. unat mbs = 2 ^ k \<and> 0 < k \<and> k < 63)"

definition size_ok :: "'a rwqueue \<Rightarrow> bool" where
  "size_ok q \<longleftrightarrow> (\<exists>n. unat (largestBlockSize q) = 2 ^ n \<and> 0 < n \<and> n < 64)"

lemma new_size_ok:
  assumes "mbs_ok mbs" and "size_ok q"
  shows "\<exists>n. unat (if mbs \<le> largestBlockSize q then largestBlockSize q else largestBlockSize q * 2) = 2 ^ n \<and> 0 < n \<and> n < 64"
proof (cases "mbs \<le> largestBlockSize q")
  case True
  then show ?thesis using assms(2) by (simp add: size_ok_def)
next
  case False
  obtain n k where n: "unat (largestBlockSize q) = 2 ^ n" "unat mbs = 2 ^ k" "k < 63"
    using assms by (auto simp: mbs_ok_def size_ok_def)
  then have "2 ^ n < (2 :: nat) ^ k" using False by (simp add: word_le_nat_alt)
  then have nk: "n < k" by (rule power_less_imp_less_exp [rotated]) simp
  have "2 ^ Suc n < (2 :: nat) ^ 64" using nk n(3) by (intro power_strict_increasing) simp_all
  then have "unat (largestBlockSize q * 2) = 2 ^ Suc n" using n(1) by (simp add: unat_word_ariths)
  then show ?thesis using False nk n(3) by (intro exI [of _ "Suc n"]) simp
qed

lemma full_next:
  assumes "rwq_rel q pre t post xs"
  shows "blk_next (rwq_blocks q ! t) \<noteq> frontBlock q \<longleftrightarrow> post \<noteq> []" and "post = p # ps \<Longrightarrow> blk_next (rwq_blocks q ! t) = p"
proof -
  have l: "blk_next (rwq_blocks q ! t) = head_or post (head_or pre t)" and d: "distinct (pre @ t # post)"
    and f: "frontBlock q = head_or pre t"
    using assms by (auto simp: rwq_rel_def linked_append)
  show "blk_next (rwq_blocks q ! t) \<noteq> frontBlock q \<longleftrightarrow> post \<noteq> []"
    unfolding l f using d by (cases post; cases pre) auto
  show "post = p # ps \<Longrightarrow> blk_next (rwq_blocks q ! t) = p" by (simp add: l)
qed

text \<open>The tail block is full: the next block of the circle is taken, or one is allocated.\<close>

abbreviation refresh_front :: "'a spsc_block \<Rightarrow> 'a spsc_block" where
  "refresh_front b \<equiv> b\<lparr>blk_localFront := blk_front b\<rparr>"

lemma inner_enqueue_next:
  assumes rel: "rwq_rel q pre t (p # ps) xs"
    and full: "blk_inc (rwq_blocks q ! t) (blk_tail (rwq_blocks q ! t)) = blk_localFront (rwq_blocks q ! t)"
      "blk_inc (rwq_blocks q ! t) (blk_tail (rwq_blocks q ! t)) = blk_front (rwq_blocks q ! t)"
    and q'_def: "q' = (upd_block p (blk_put x) (upd_block p refresh_front (upd_block t refresh_front q)))\<lparr>tailBlock := p\<rparr>"
  shows "inner_enqueue mode mbs a x q = Some (True, q')" and "rwq_rel q' (pre @ [t]) p ps (xs @ [x])" and "same_shape q q'"
proof -
  let ?b = "rwq_blocks q ! t" and ?q1 = "upd_block t refresh_front q"
  let ?q2 = "upd_block p refresh_front ?q1"
  note r = rel_in_range [OF rel, of t, simplified]
  have tb: "tailBlock q = t" and pt: "p \<noteq> t" using rel by (auto simp: rwq_rel_def)
  have rel1: "rwq_rel ?q1 pre t (p # ps) xs" by (rule rel_refresh_front [OF rel]) simp
  have rel2: "rwq_rel ?q2 pre t (p # ps) xs" by (rule rel_refresh_front [OF rel1]) simp
  have pr: "p < length (rwq_blocks ?q1)" using rel_in_range(1) [OF rel1, of p] by simp
  have lf: "blk_localFront (rwq_blocks ?q2 ! p) = blk_front (rwq_blocks ?q2 ! p)" using pr by (simp add: upd_block_nth)
  have "blk_count ?b = blk_cap ?b - 1" using blk_full [OF r(2)] full(2) by blast
  then have full2: "blk_count (rwq_blocks ?q2 ! t) = blk_cap (rwq_blocks ?q2 ! t) - 1"
    using pt pr r(1) by (simp add: upd_block_nth)
  show "rwq_rel q' (pre @ [t]) p ps (xs @ [x])" unfolding q'_def by (rule rel_next_block [OF rel2 lf full2])
  have "blk_front (rwq_blocks ?q2 ! p) = blk_tail (rwq_blocks ?q2 ! p)"
    using rel2 blk_elems_empty [OF rel_in_range(2) [OF rel2, of p]] by (simp add: rwq_rel_def)
  then show "inner_enqueue mode mbs a x q = Some (True, q')"
    using full tb full_next [OF rel] unfolding q'_def by (simp add: inner_enqueue_def Let_def)
  show "same_shape q q'" by (simp add: q'_def)
qed

lemma inner_enqueue_alloc:
  assumes rel: "rwq_rel q pre t [] xs"
    and full: "blk_inc (rwq_blocks q ! t) (blk_tail (rwq_blocks q ! t)) = blk_localFront (rwq_blocks q ! t)"
      "blk_inc (rwq_blocks q ! t) (blk_tail (rwq_blocks q ! t)) = blk_front (rwq_blocks q ! t)"
  shows "inner_enqueue mode mbs a x q =
    (if mode = CanAlloc \<and> a
     then Some (True, link_block x (if mbs \<le> largestBlockSize q then largestBlockSize q else largestBlockSize q * 2)
       (upd_block t refresh_front q))
     else Some (False, upd_block t refresh_front q))"
proof -
  have tb: "tailBlock q = t" using rel by (simp add: rwq_rel_def)
  have "blk_next (rwq_blocks q ! t) = frontBlock q" using full_next(1) [OF rel] by simp
  then show ?thesis
    using full tb by (cases mode) (simp_all add: inner_enqueue_def Let_def make_block_def link_block_def)
qed

text \<open>The tail block has room, seen in the shadow copy or after refreshing it.\<close>

lemma inner_enqueue_room:
  assumes rel: "rwq_rel q pre t post xs"
    and room: "blk_inc (rwq_blocks q ! t) (blk_tail (rwq_blocks q ! t)) \<noteq> blk_localFront (rwq_blocks q ! t)
      \<or> blk_inc (rwq_blocks q ! t) (blk_tail (rwq_blocks q ! t)) \<noteq> blk_front (rwq_blocks q ! t)"
  shows "\<exists>q'. inner_enqueue mode mbs a x q = Some (True, q') \<and> rwq_rel q' pre t post (xs @ [x]) \<and> same_shape q q'"
proof -
  let ?b = "rwq_blocks q ! t" and ?q1 = "upd_block t refresh_front q"
  have tb: "tailBlock q = t" using rel by (simp add: rwq_rel_def)
  have rel1: "rwq_rel ?q1 pre t post xs" by (rule rel_refresh_front [OF rel]) simp
  have b1: "rwq_blocks ?q1 ! t = refresh_front ?b" using rel_in_range(1) [OF rel, of t] by (simp add: upd_block_nth)
  show ?thesis
  proof (cases "blk_inc ?b (blk_tail ?b) \<noteq> blk_localFront ?b")
    case True
    then show ?thesis using rel_put [OF rel True, of x] tb
      by (intro exI [of _ "upd_block t (blk_put x) q"]) (simp add: inner_enqueue_def Let_def)
  next
    case False
    have "blk_inc (rwq_blocks ?q1 ! t) (blk_tail (rwq_blocks ?q1 ! t)) \<noteq> blk_localFront (rwq_blocks ?q1 ! t)"
      using False room by (simp add: b1 blk_inc_def)
    from rel_put [OF rel1 this, of x] show ?thesis using False room tb
      by (intro exI [of _ "upd_block t (blk_put x) ?q1"]) (simp add: inner_enqueue_def Let_def)
  qed
qed

lemma inner_enqueue_rel:
  assumes rel: "rwq_rel q pre t post xs" and mbs: "mbs_ok mbs" "size_ok q"
  shows "\<exists>ok q' pre' t' post'. inner_enqueue mode mbs a x q = Some (ok, q')
    \<and> rwq_rel q' pre' t' post' (if ok then xs @ [x] else xs) \<and> size_ok q' \<and> (mode = CannotAlloc \<longrightarrow> same_shape q q')
    \<and> (\<not> ok \<longrightarrow> (mode = CannotAlloc \<or> \<not> a) \<and> post = [] \<and> blk_count (rwq_blocks q ! t) = blk_cap (rwq_blocks q ! t) - 1)"
proof -
  let ?b = "rwq_blocks q ! t" and ?q1 = "upd_block t refresh_front q"
  have size: "size_ok q'" if "same_shape q q'" for q' using that mbs(2) by (simp add: size_ok_def same_shape_def)
  show ?thesis
  proof (cases "blk_inc ?b (blk_tail ?b) = blk_localFront ?b \<and> blk_inc ?b (blk_tail ?b) = blk_front ?b")
    case False
    then show ?thesis using inner_enqueue_room [OF rel, of mode mbs a x] size by fastforce
  next
    case True
    show ?thesis
    proof (cases post)
      case (Cons p ps)
      then show ?thesis
        using inner_enqueue_next(1) [OF rel [unfolded Cons] _ _ refl, of mode mbs a x]
          inner_enqueue_next(2,3) [OF rel [unfolded Cons] _ _ refl, of x] True size by fastforce
    next
      case Nil
      let ?s = "if mbs \<le> largestBlockSize q then largestBlockSize q else largestBlockSize q * 2"
      obtain n where n: "unat ?s = 2 ^ n" "0 < n" "n < 64" using new_size_ok [OF mbs] by blast
      have rel1: "rwq_rel ?q1 pre t [] xs" by (rule rel_refresh_front [OF rel [unfolded Nil]]) simp
      have full: "blk_count ?b = blk_cap ?b - 1" using blk_full [OF rel_in_range(2) [OF rel, of t, simplified]] True by blast
      then have "blk_count (rwq_blocks ?q1 ! t) = blk_cap (rwq_blocks ?q1 ! t) - 1"
        using rel_in_range(1) [OF rel, of t] by (simp add: upd_block_nth)
      note L = rel_link_block [OF rel1 n this, of x]
      note run = inner_enqueue_alloc [OF rel [unfolded Nil] conjunct1 [OF True] conjunct2 [OF True], of mode mbs a x]
      have ls: "size_ok (link_block x ?s ?q1)" using n by (auto simp: size_ok_def link_block_def Let_def)
      show ?thesis
      proof (cases "mode = CanAlloc \<and> a")
        case True
        then show ?thesis using run L ls by (intro exI conjI) (simp, simp_all)
      next
        case False
        then have "mode = CannotAlloc \<or> \<not> a" by (cases mode) auto
        then show ?thesis using run False rel1 Nil full size [of ?q1]
          by (intro exI [of _ False] exI [of _ ?q1] exI [of _ pre] exI [of _ t] exI [of _ post]) auto
      qed
    qed
  qed
qed

section \<open>Construction\<close>

definition init_blocks :: "u64 \<Rightarrow> nat \<Rightarrow> 'a spsc_block list" where
  "init_blocks sz k = map (\<lambda>i. (new_block sz)\<lparr>blk_next := (if Suc i < k then Suc i else 0)\<rparr>) [0..<k]"

lemma init_blocks_step:
  fixes bs :: "'a spsc_block list"
  assumes "bs = init_blocks sz k"
  shows "(if bs = [] then [] else bs[k - 1 := (bs ! (k - 1))\<lparr>blk_next := k\<rparr>]) @ [(new_block sz)\<lparr>blk_next := 0\<rparr>]
    = init_blocks sz (Suc k)"
proof (cases k)
  case (Suc n)
  show ?thesis unfolding assms
    by (rule nth_equalityI) (auto simp: init_blocks_def Suc nth_append nth_list_update less_Suc_eq simp del: upt_Suc)
qed (simp add: init_blocks_def assms)

lemma length_init_blocks [simp]: "length (init_blocks sz k) = k"
  by (simp add: init_blocks_def)

lemma rwq_init_loop_blocks:
  "rwq_init_loop alloc sz n (init_blocks sz k :: 'a spsc_block list)
    = (if \<forall>i. k \<le> i \<and> i < k + n \<longrightarrow> alloc i then Some (init_blocks sz (k + n)) else None)"
proof (induction n arbitrary: k)
  case (Suc n)
  show ?case
  proof (cases "alloc k")
    case True
    have "(\<forall>i. Suc k \<le> i \<and> i < Suc k + n \<longrightarrow> alloc i) \<longleftrightarrow> (\<forall>i. k \<le> i \<and> i < k + Suc n \<longrightarrow> alloc i)"
      using True by (metis Suc_leI Suc_le_eq add_Suc add_Suc_right le_neq_implies_less order.strict_implies_order)
    moreover have "rwq_init_loop alloc sz (Suc n) (init_blocks sz k :: 'a spsc_block list) = rwq_init_loop alloc sz n (init_blocks sz (Suc k))"
      using True
      by (simp only: rwq_init_loop.simps make_block_def length_init_blocks if_True option.case Let_def
          init_blocks_step [OF refl])
    ultimately show ?thesis using Suc.IH [of "Suc k"] by simp
  next
    case False
    then show ?thesis by (auto simp: make_block_def intro!: exI [of _ k])
  qed
qed simp

lemma linked_init:
  "0 < k \<Longrightarrow> i \<le> k \<Longrightarrow> linked (init_blocks sz k :: 'a spsc_block list) [i..<k] 0"
proof (induction "k - i" arbitrary: i)
  case (Suc n)
  then have "linked (init_blocks sz k :: 'a spsc_block list) [Suc i..<k] 0" by simp
  moreover have "head_or [Suc i..<k] 0 = (if Suc i < k then Suc i else 0)"
    by (cases "Suc i < k") (simp_all add: upt_conv_Cons)
  moreover have "[i..<k] = i # [Suc i..<k]" using Suc.hyps(2) by (simp add: upt_conv_Cons)
  ultimately show ?case using Suc.hyps(2) by (simp add: init_blocks_def)
qed simp

lemma init_rel:
  assumes sz: "unat sz = 2 ^ n" "0 < n" "n < 64" and k: "0 < k"
  defines "bs \<equiv> init_blocks sz k :: 'a spsc_block list"
  shows "rwq_rel \<lparr>rwq_blocks = bs, frontBlock = 0, tailBlock = 0, largestBlockSize = l\<rparr> [] 0 [1..<k] []"
proof -
  have el: "blk_elems (bs ! i) = []" "blk_ok (bs ! i)" "local_tail_ok (bs ! i)" "local_front_ok (bs ! i)" if "i < k" for i
    using that new_block_ok [OF sz, where 'a = 'a] sz
    by (simp_all add: bs_def init_blocks_def blk_elems_def blk_ok_def local_tail_ok_def local_front_ok_def blk_count_def new_block_def)
  have len: "length bs = k" by (simp add: bs_def)
  have "[0..<k] = 0 # [1..<k]" using k by (simp add: upt_conv_Cons)
  then have "linked bs (0 # [1..<k]) 0" using linked_init [OF k, of 0 sz] by (simp add: bs_def)
  moreover have "insert 0 {Suc 0..<k} = {..<k}" using k by auto
  moreover have "list_all blk_ok bs" using el(2) by (simp add: list_all_length len)
  ultimately show ?thesis using el k by (simp add: rwq_rel_def len)
qed

end
