(* ===== verification/Pipe.thy ===== *)
theory Pipe
  imports SpscQueue
begin

text \<open>
  \<^verbatim>\<open>src/src/pipe.cpp\<close>, the functions on the single-producer queue, and the promises of the queue to its clients:
  first in, first out; the capacity asked for is available without allocation; the size is exact when nothing
  runs concurrently; destruction releases everything. The queue is an instance of the interface
  \<open>packet_fifo\<close>, whose lemmas on sequences of operations apply to it.
\<close>

section \<open>Model\<close>

text \<open>
  The queue holds pointers, 64-bit addresses. \<open>None\<close> stands for \<^verbatim>\<open>std::bad_alloc\<close> in \<open>pipe_spsc_new\<close> and for
  undefined behaviour elsewhere.
\<close>

definition SPSC_MAX_BLOCK_SIZE :: u64 where "SPSC_MAX_BLOCK_SIZE = 512"

definition pipe_spsc_new :: "(nat \<Rightarrow> bool) \<Rightarrow> u32 \<Rightarrow> u64 rwqueue option" where
  "pipe_spsc_new alloc capacity = ReaderWriterQueue SPSC_MAX_BLOCK_SIZE alloc (scast capacity)"

definition pipe_spsc_delete :: "u64 rwqueue \<Rightarrow> (nat list \<times> u64 option list) option" where
  "pipe_spsc_delete q = ReaderWriterQueue_destroy q"

definition pipe_spsc_enqueue :: "bool \<Rightarrow> u64 rwqueue \<Rightarrow> u64 \<Rightarrow> u64 rwqueue option" where
  "pipe_spsc_enqueue alloc_ok q data = map_option snd (enqueue SPSC_MAX_BLOCK_SIZE alloc_ok data q)"

definition pipe_spsc_try_enqueue :: "u64 rwqueue \<Rightarrow> u64 \<Rightarrow> (bool \<times> u64 rwqueue) option" where
  "pipe_spsc_try_enqueue q data = try_enqueue SPSC_MAX_BLOCK_SIZE data q"

definition pipe_spsc_try_dequeue :: "u64 rwqueue \<Rightarrow> (u64 \<times> u64 rwqueue) option" where
  "pipe_spsc_try_dequeue q =
     (case try_dequeue q of
        None \<Rightarrow> None
      | Some (Some data, q') \<Rightarrow> Some (data, q')
      | Some (None, q') \<Rightarrow> Some (0, q'))"

definition pipe_spsc_count :: "u64 rwqueue \<Rightarrow> u64 option" where
  "pipe_spsc_count q = size_approx q"

section \<open>Contents\<close>

fun chain :: "'a spsc_block list \<Rightarrow> nat \<Rightarrow> nat \<Rightarrow> nat list" where
  "chain bs i 0 = []"
| "chain bs i (Suc n) = i # chain bs (blk_next (bs ! i)) n"

definition rwq_contents :: "'a rwqueue \<Rightarrow> 'a list" where
  "rwq_contents q =
     map the (elems_of (rwq_blocks q)
       (takeWhile (\<lambda>i. i \<noteq> tailBlock q) (chain (rwq_blocks q) (frontBlock q) (length (rwq_blocks q))) @ [tailBlock q]))"

definition rwq_inv :: "'a rwqueue \<Rightarrow> bool" where
  "rwq_inv q \<longleftrightarrow> size_ok q \<and> (\<exists>pre t post xs. rwq_rel q pre t post xs)"

lemma chain_linked: "linked bs ids z \<Longrightarrow> ids \<noteq> [] \<Longrightarrow> chain bs (hd ids) (length ids) = ids"
proof (induction ids)
  case (Cons i r)
  then show ?case by (cases r) simp_all
qed simp

lemma rel_ids:
  assumes "rwq_rel q pre t post xs"
  shows "length (pre @ t # post) = length (rwq_blocks q)"
    and "chain (rwq_blocks q) (frontBlock q) (length (rwq_blocks q)) = pre @ t # post"
proof -
  have d: "distinct (pre @ t # post)" "set (pre @ t # post) = {..<length (rwq_blocks q)}"
    and l: "linked (rwq_blocks q) (pre @ t # post) (head_or pre t)" and f: "frontBlock q = head_or pre t"
    using assms unfolding rwq_rel_def by blast+
  show len: "length (pre @ t # post) = length (rwq_blocks q)"
    using distinct_card [OF d(1)] unfolding d(2) by simp
  have "hd (pre @ t # post) = frontBlock q" using f by (cases pre) simp_all
  then show "chain (rwq_blocks q) (frontBlock q) (length (rwq_blocks q)) = pre @ t # post"
    using chain_linked [OF l, unfolded len] by (metis append_is_Nil_conv list.distinct(1))
qed

lemma rel_contents:
  assumes "rwq_rel q pre t post xs"
  shows "rwq_contents q = xs"
proof -
  have "tailBlock q = t" and "t \<notin> set pre" and el: "map Some xs = elems_of (rwq_blocks q) (pre @ [t])"
    using assms by (simp_all add: rwq_rel_def)
  then have "takeWhile (\<lambda>i. i \<noteq> tailBlock q) (pre @ t # post) = pre"
    by (subst takeWhile_append2) auto
  then have "rwq_contents q = map the (map Some xs)"
    unfolding rwq_contents_def rel_ids(2) [OF assms] el by (simp add: \<open>tailBlock q = t\<close>)
  then show ?thesis by (simp add: comp_def)
qed

lemma rwq_invE:
  assumes "rwq_inv q"
  obtains pre t post where "rwq_rel q pre t post (rwq_contents q)" and "size_ok q"
  using assms rel_contents unfolding rwq_inv_def by metis

lemma try_dequeue_inv:
  assumes "rwq_inv q"
  shows "\<exists>q'. try_dequeue q = Some (case rwq_contents q of [] \<Rightarrow> None | x # _ \<Rightarrow> Some x, q') \<and> rwq_inv q'
    \<and> rwq_contents q' = tl (rwq_contents q) \<and> same_shape q q'"
proof -
  obtain pre t post where rel: "rwq_rel q pre t post (rwq_contents q)" "size_ok q" using assms by (rule rwq_invE)
  obtain q' pre' post' where "try_dequeue q = Some (case rwq_contents q of [] \<Rightarrow> None | x # _ \<Rightarrow> Some x, q')"
    "rwq_rel q' pre' t post' (tl (rwq_contents q))" "same_shape q q'"
    using try_dequeue_rel [OF rel(1)] by blast
  moreover from this have "size_ok q'" using rel(2) by (simp add: same_shape_def size_ok_def)
  ultimately show ?thesis using rel_contents unfolding rwq_inv_def by blast
qed

lemma inner_enqueue_inv:
  assumes "rwq_inv q" and "mbs_ok mbs"
  shows "\<exists>ok q'. inner_enqueue mode mbs a x q = Some (ok, q') \<and> rwq_inv q'
    \<and> rwq_contents q' = (if ok then rwq_contents q @ [x] else rwq_contents q)
    \<and> (mode = CannotAlloc \<longrightarrow> same_shape q q') \<and> (\<not> ok \<longrightarrow> mode = CannotAlloc \<or> \<not> a)"
proof -
  obtain pre t post where rel: "rwq_rel q pre t post (rwq_contents q)" "size_ok q" using assms(1) by (rule rwq_invE)
  obtain ok q' pre' t' post' where "inner_enqueue mode mbs a x q = Some (ok, q')"
    and r': "rwq_rel q' pre' t' post' (if ok then rwq_contents q @ [x] else rwq_contents q)" "size_ok q'"
    and "mode = CannotAlloc \<longrightarrow> same_shape q q'" "\<not> ok \<longrightarrow> mode = CannotAlloc \<or> \<not> a"
    using inner_enqueue_rel [OF rel(1) assms(2) rel(2), of mode a x] by blast
  moreover have "rwq_inv q'" using r' unfolding rwq_inv_def by blast
  ultimately show ?thesis using rel_contents [OF r'(1)] by (intro exI [of _ ok] exI [of _ q']) simp
qed

section \<open>Capacity\<close>

text \<open>
  \<open>N\<close> blocks of \<open>c\<close> slots: one slot of each block stays free, and all but one of several blocks can be filled
  whatever the position of the front.
\<close>

definition guaranteed :: "nat \<Rightarrow> nat \<Rightarrow> nat" where
  "guaranteed N c = (if N = 1 then c - 1 else (N - 1) * (c - 1))"

lemma length_elems_of: "length (elems_of bs ids) = sum_list (map (\<lambda>i. blk_count (bs ! i)) ids)"
  by (induction ids) (simp_all add: length_blk_elems)

lemma sum_list_const: "(\<And>i. i \<in> set ids \<Longrightarrow> f i = (k :: nat)) \<Longrightarrow> sum_list (map f ids) = length ids * k"
  by (induction ids) simp_all

lemma full_contents:
  assumes rel: "rwq_rel q pre t [] xs" and full: "blk_count (rwq_blocks q ! t) = blk_cap (rwq_blocks q ! t) - 1"
    and shape: "map blk_cap (rwq_blocks q) = replicate N c"
  shows "guaranteed N c \<le> length xs"
proof -
  have cap: "blk_cap (rwq_blocks q ! i) = c" if "i < length (rwq_blocks q)" for i
    using that shape by (metis length_map length_replicate nth_map nth_replicate)
  have N: "N = length (pre @ [t])" using rel_ids(1) [OF rel] arg_cong [OF shape, of length] by simp
  have len: "length xs = sum_list (map (\<lambda>i. blk_count (rwq_blocks q ! i)) (pre @ [t]))"
    using rel length_elems_of [of "rwq_blocks q" "pre @ [t]"] unfolding rwq_rel_def by (metis length_map)
  have t: "blk_count (rwq_blocks q ! t) = c - 1" using full cap rel_in_range(1) [OF rel, of t] by simp
  show ?thesis
  proof (cases pre)
    case Nil
    then show ?thesis using len t N by (simp add: guaranteed_def)
  next
    case (Cons f mid)
    have "blk_count (rwq_blocks q ! i) = c - 1" if "i \<in> set mid" for i
    proof -
      have "blk_count (rwq_blocks q ! i) = blk_cap (rwq_blocks q ! i) - 1" using rel that Cons by (simp add: rwq_rel_def)
      then show ?thesis using cap rel_in_range(1) [OF rel, of i] that Cons by simp
    qed
    then have "sum_list (map (\<lambda>i. blk_count (rwq_blocks q ! i)) mid) = length mid * (c - 1)" by (rule sum_list_const)
    then show ?thesis using len t N Cons by (simp add: guaranteed_def algebra_simps)
  qed
qed

lemma try_enqueue_fails_full:
  assumes "rwq_inv q" and "mbs_ok mbs" and "try_enqueue mbs x q = Some (False, q')"
    and "map blk_cap (rwq_blocks q) = replicate N c"
  shows "guaranteed N c \<le> length (rwq_contents q)"
proof -
  obtain pre t post where rel: "rwq_rel q pre t post (rwq_contents q)" "size_ok q" using assms(1) by (rule rwq_invE)
  have "post = []" "blk_count (rwq_blocks q ! t) = blk_cap (rwq_blocks q ! t) - 1"
    using inner_enqueue_rel [OF rel(1) assms(2) rel(2), of CannotAlloc True x] assms(3)
    by (auto simp: try_enqueue_def)
  then show ?thesis using full_contents rel(1) assms(4) by blast
qed

lemma blocks_suffice:
  fixes m M :: nat
  assumes "1 < M" and "0 < m"
  shows "1 < (m + M * 2 - 3) div (M - 1)" and "m \<le> guaranteed ((m + M * 2 - 3) div (M - 1)) M"
proof -
  define D where "D = M - 1"
  define e where "e = m + D - 1"
  define r where "r = e div D"
  have D: "0 < D" using assms(1) by (simp add: D_def)
  have "m + M * 2 - 3 = e + D" using assms by (simp add: e_def D_def)
  then have n: "(m + M * 2 - 3) div (M - 1) = r + 1" using D div_add_self2 [of D e] unfolding D_def [symmetric] r_def by simp
  have "r * D + e mod D = e" unfolding r_def by (rule div_mult_mod_eq)
  moreover have "e mod D < D" using D by simp
  ultimately have le: "m \<le> r * D" using D assms(2) unfolding e_def by linarith
  then have "0 < r" using assms(2) by (cases r) auto
  then show "1 < (m + M * 2 - 3) div (M - 1)" "m \<le> guaranteed ((m + M * 2 - 3) div (M - 1)) M"
    unfolding n using le by (simp_all add: guaranteed_def D_def)
qed

lemma init_blocks_none: "init_blocks sz 0 = []"
  by (simp add: init_blocks_def)

lemma unat_block_count:
  fixes mbs m :: u64
  assumes "unat mbs = 2 ^ k" and "0 < k" and "k < 63" and "unat m < 2 ^ 63" and "0 < unat m"
  shows "unat ((m + mbs * 2 - 3) div (mbs - 1)) = (unat m + unat mbs * 2 - 3) div (unat mbs - 1)"
    and "unat (mbs * 2) = unat mbs * 2"
proof -
  have "(2 :: nat) ^ k \<le> 2 ^ 62" using assms(3) by (intro power_increasing) simp_all
  then have M: "unat mbs \<le> 4611686018427387904" using assms(1) by simp
  then show 2: "unat (mbs * 2) = unat mbs * 2" by (simp add: unat_word_ariths)
  have M2: "2 \<le> unat mbs" using assms(1,2) by (metis Suc_leI one_le_numeral power_increasing power_one_right One_nat_def)
  have s: "unat (m + mbs * 2) = unat m + unat mbs * 2" using M assms(4) 2 by (simp add: unat_add_u64)
  have "unat (m + mbs * 2 - 3) = unat m + unat mbs * 2 - 3"
    using s M2 assms(5) by (simp add: unat_sub word_le_nat_alt)
  moreover have "unat (mbs - 1) = unat mbs - 1" using M2 by (simp add: unat_sub word_le_nat_alt)
  ultimately show "unat ((m + mbs * 2 - 3) div (mbs - 1)) = (unat m + unat mbs * 2 - 3) div (unat mbs - 1)"
    by (simp only: unat_div)
qed

text \<open>
  A fresh queue is empty and, whatever happens later without allocation, has room for the number of elements
  asked for.
\<close>

lemma constructed:
  assumes mbs: "mbs_ok mbs" and m: "0 < unat m" "unat m < 2 ^ 63" and q: "ReaderWriterQueue mbs alloc m = Some (q :: 'a rwqueue)"
  shows "rwq_inv q \<and> rwq_contents q = [] \<and> (\<exists>N c. map blk_cap (rwq_blocks q) = replicate N c \<and> unat m \<le> guaranteed N c)"
proof -
  obtain k where k: "unat mbs = 2 ^ k" "0 < k" "k < 63" using mbs by (auto simp: mbs_ok_def)
  have m1: "unat (m + 1) = unat m + 1" using m(2) by (simp add: unat_add_u64)
  obtain n where n: "unat (ceilToPow2 (m + 1)) = 2 ^ n" "0 < n" "n < 64" "unat (m + 1) \<le> 2 ^ n"
    using ceilToPow2_correct [of "m + 1"] m m1 by auto
  have caps: "map blk_cap (init_blocks sz N :: 'a spsc_block list) = replicate N (unat sz)" for sz N
    by (auto intro: nth_equalityI simp: init_blocks_def new_block_def)
  have fin: "rwq_inv q' \<and> rwq_contents q' = [] \<and> (\<exists>N c. map blk_cap (rwq_blocks q') = replicate N c \<and> unat m \<le> guaranteed N c)"
    if "q' = \<lparr>rwq_blocks = init_blocks sz N :: 'a spsc_block list, frontBlock = 0, tailBlock = 0, largestBlockSize = sz\<rparr>"
      "unat sz = 2 ^ j" "0 < j" "j < 64" "0 < N" "unat m \<le> guaranteed N (unat sz)" for q' sz N j
  proof -
    have "rwq_rel q' [] 0 [1..<N] []" unfolding that(1) by (rule init_rel [OF that(2-5)])
    moreover have "size_ok q'" using that by (auto simp: size_ok_def)
    ultimately have "rwq_inv q' \<and> rwq_contents q' = []" using rel_contents unfolding rwq_inv_def by blast
    then show ?thesis using caps [of sz N] that(1,6) by auto
  qed
  show ?thesis
  proof (cases "mbs * 2 < ceilToPow2 (m + 1)")
    case True
    let ?N = "unat ((m + mbs * 2 - 3) div (mbs - 1))"
    have M: "1 < unat mbs" using k by (metis one_less_numeral_iff one_less_power semiring_norm(76))
    note N = blocks_suffice [OF M m(1), folded unat_block_count(1) [OF k m(2,1)]]
    have "rwq_init_loop alloc mbs ?N ([] :: 'a spsc_block list) = (if \<forall>i < ?N. alloc i then Some (init_blocks mbs ?N) else None)"
      using rwq_init_loop_blocks [of alloc mbs ?N 0, where 'a = 'a] by (simp add: init_blocks_none)
    then have "q = \<lparr>rwq_blocks = init_blocks mbs ?N, frontBlock = 0, tailBlock = 0, largestBlockSize = mbs\<rparr>"
      using q True by (auto simp: ReaderWriterQueue_def Let_def split: option.splits if_splits)
    then show ?thesis by (rule fin) (use k N in auto)
  next
    case False
    then have "q = \<lparr>rwq_blocks = init_blocks (ceilToPow2 (m + 1)) 1, frontBlock = 0, tailBlock = 0,
        largestBlockSize = ceilToPow2 (m + 1)\<rparr>"
      using q by (auto simp: ReaderWriterQueue_def Let_def make_block_def init_blocks_def split: if_splits)
    then show ?thesis by (rule fin) (use n m1 in \<open>auto simp: guaranteed_def\<close>)
  qed
qed

section \<open>The queue as a FIFO\<close>

text \<open>One element at a time, in the shape of the interface.\<close>

definition spsc_offer :: "u64 rwqueue \<Rightarrow> u64 list \<Rightarrow> nat \<times> u64 rwqueue" where
  "spsc_offer q xs =
     (case xs of
        [] \<Rightarrow> (0, q)
      | x # _ \<Rightarrow> (case pipe_spsc_try_enqueue q x of
                   Some (True, q') \<Rightarrow> (1, q') | Some (False, q') \<Rightarrow> (0, q') | None \<Rightarrow> (0, q)))"

definition spsc_take :: "u64 rwqueue \<Rightarrow> nat \<Rightarrow> u64 list \<times> u64 rwqueue" where
  "spsc_take q n =
     (if n = 0 then ([], q)
      else case try_dequeue q of
        Some (Some x, q') \<Rightarrow> ([x], q') | Some (None, q') \<Rightarrow> ([], q') | None \<Rightarrow> ([], q))"

lemma spsc_mbs_ok: "mbs_ok SPSC_MAX_BLOCK_SIZE"
  by (auto simp: mbs_ok_def SPSC_MAX_BLOCK_SIZE_def intro!: exI [of _ 9])

lemma same_shape_trans: "same_shape a b \<Longrightarrow> same_shape b c \<Longrightarrow> same_shape a c"
  by (simp add: same_shape_def)

interpretation spsc: packet_fifo "\<lambda>q. rwq_inv q \<and> same_shape q0 q" rwq_contents spsc_offer spsc_take
proof unfold_locales
  fix s :: "u64 rwqueue" and xs k s'
  assume i: "rwq_inv s \<and> same_shape q0 s" and o: "spsc_offer s xs = (k, s')"
  show "(rwq_inv s' \<and> same_shape q0 s') \<and> rwq_contents s' = rwq_contents s @ take k xs"
  proof (cases xs)
    case (Cons x r)
    obtain ok t where "inner_enqueue CannotAlloc SPSC_MAX_BLOCK_SIZE True x s = Some (ok, t)" "rwq_inv t"
      "rwq_contents t = (if ok then rwq_contents s @ [x] else rwq_contents s)" "same_shape s t"
      using inner_enqueue_inv [OF _ spsc_mbs_ok, of s CannotAlloc True x] i by blast
    then show ?thesis using o i Cons same_shape_trans [of q0 s t]
      by (cases ok) (auto simp: spsc_offer_def pipe_spsc_try_enqueue_def try_enqueue_def)
  qed (use i o in \<open>simp add: spsc_offer_def\<close>)
next
  fix s :: "u64 rwqueue" and n ys s'
  assume i: "rwq_inv s \<and> same_shape q0 s" and o: "spsc_take s n = (ys, s')"
  obtain t where "try_dequeue s = Some (case rwq_contents s of [] \<Rightarrow> None | x # _ \<Rightarrow> Some x, t)" "rwq_inv t"
    "rwq_contents t = tl (rwq_contents s)" "same_shape s t"
    using try_dequeue_inv i by blast
  then show "(rwq_inv s' \<and> same_shape q0 s') \<and> rwq_contents s = ys @ rwq_contents s'"
    using o i same_shape_trans [of q0 s t]
    by (cases "n = 0"; cases "rwq_contents s") (auto simp: spsc_take_def)
qed

lemma new_pipe:
  assumes "0 < sint capacity" and "pipe_spsc_new alloc capacity = Some q"
  shows "rwq_inv q \<and> rwq_contents q = [] \<and> (\<exists>N c. map blk_cap (rwq_blocks q) = replicate N c \<and> unat capacity \<le> guaranteed N c)"
proof -
  have s: "unat capacity < 2147483648" using assms(1) sint_u32_big [of capacity] by (cases "unat capacity < 2147483648") auto
  then have u: "unat (scast capacity :: u64) = unat capacity" by (rule unat_scast_nonneg)
  have "0 < unat capacity" using assms(1) sint_u32_small [OF s] by (simp only: of_nat_0_less_iff)
  then show ?thesis
    using constructed [OF spsc_mbs_ok _ _ assms(2) [unfolded pipe_spsc_new_def]] s unfolding u by simp
qed

text \<open>A pipe for three pointers, used in the witnesses.\<close>

definition demo_pipe :: "u64 rwqueue" where
  "demo_pipe = the (pipe_spsc_new (\<lambda>_. True) 3)"

definition demo_pipe_run :: "u64 qop list \<Rightarrow> u64 list \<times> u64 list \<times> u64 rwqueue" where
  "demo_pipe_run ops = qrun spsc_offer spsc_take demo_pipe ops"

lemma demo_pipe_new: "pipe_spsc_new (\<lambda>_. True) 3 = Some demo_pipe"
proof -
  have "pipe_spsc_new (\<lambda>_. True) 3 \<noteq> None" by code_simp
  then show ?thesis by (auto simp: demo_pipe_def)
qed

lemma demo_pipe_runs:
  "qrun spsc_offer spsc_take demo_pipe ops = (fst (demo_pipe_run ops), fst (snd (demo_pipe_run ops)), snd (snd (demo_pipe_run ops)))"
  by (simp add: demo_pipe_run_def)

text \<open>C15: 
  A pipe delivers the pointers in the order in which they were accepted, each exactly once: after any
  sequence of insertions and removals on a fresh pipe the accepted pointers are those removed followed by
  those still in the pipe.
\<close>
theorem spsc_pipe_fifo:
  assumes "0 < sint capacity" and "pipe_spsc_new alloc capacity = Some q"
    and "qrun spsc_offer spsc_take q ops = (accepted, removed, q')"
  shows "accepted = removed @ rwq_contents q'"
  using spsc.run_from_empty [of q q, OF _ _ assms(3)] new_pipe [OF assms(1,2)] by simp

theorem spsc_pipe_fifo_witness:
  "fst (demo_pipe_run [Offer [5], Offer [6], Take 1]) =
     fst (snd (demo_pipe_run [Offer [5], Offer [6], Take 1])) @ rwq_contents (snd (snd (demo_pipe_run [Offer [5], Offer [6], Take 1])))
   \<and> fst (demo_pipe_run [Offer [5], Offer [6], Take 1]) = [5, 6]"
proof -
  have "fst (demo_pipe_run [Offer [5], Offer [6], Take 1]) = [5, 6]" by code_simp
  moreover have "0 < sint (3 :: u32)" by simp
  ultimately show ?thesis using spsc_pipe_fifo [OF _ demo_pipe_new demo_pipe_runs] by blast
qed

text \<open>C16: 
  The promise of the constructor: a queue made for \<open>capacity\<close> elements refuses an element without
  allocating only when at least \<open>capacity\<close> elements are in it, after any sequence of operations.
\<close>
theorem spsc_capacity:
  assumes "0 < sint capacity" and "pipe_spsc_new alloc capacity = Some q"
    and "qrun spsc_offer spsc_take q ops = (accepted, removed, q')"
    and "pipe_spsc_try_enqueue q' x = Some (False, q'')"
  shows "unat capacity \<le> length (rwq_contents q')"
proof -
  obtain N c where q: "rwq_inv q" and s: "map blk_cap (rwq_blocks q) = replicate N c" "unat capacity \<le> guaranteed N c"
    using new_pipe [OF assms(1,2)] by blast
  have "rwq_inv q' \<and> same_shape q q'" using spsc.run_fifo [of q q, OF _ assms(3)] q by simp
  then have "guaranteed N c \<le> length (rwq_contents q')"
    using try_enqueue_fails_full [OF _ spsc_mbs_ok, of q' x q'' N c] assms(4) s(1)
    by (simp add: pipe_spsc_try_enqueue_def same_shape_def)
  then show ?thesis using s(2) by linarith
qed

theorem spsc_capacity_witness:
  "pipe_spsc_try_enqueue (snd (snd (demo_pipe_run [Offer [5], Offer [6], Offer [7]]))) 8
     = Some (False, snd (snd (demo_pipe_run [Offer [5], Offer [6], Offer [7]])))
   \<and> unat (3 :: u32) \<le> length (rwq_contents (snd (snd (demo_pipe_run [Offer [5], Offer [6], Offer [7]]))))"
proof -
  have "0 < sint (3 :: u32)" by simp
  moreover have f: "pipe_spsc_try_enqueue (snd (snd (demo_pipe_run [Offer [5], Offer [6], Offer [7]]))) 8
     = Some (False, snd (snd (demo_pipe_run [Offer [5], Offer [6], Offer [7]])))" by code_simp
  ultimately show ?thesis using spsc_capacity [OF _ demo_pipe_new demo_pipe_runs f] by blast
qed

section \<open>Size and destruction\<close>

lemma masked_distance:
  assumes "blk_ok b"
  shows "(blk_tail b - blk_front b) AND blk_sizeMask b = word_of_nat (blk_count b)"
proof -
  obtain n where n: "n < 64" "blk_cap b = 2 ^ n" "blk_sizeMask b = mask n" using assms by (auto simp: blk_ok_def)
  let ?f = "unat (blk_front b)" and ?t = "unat (blk_tail b)"
  have lt: "?f < 2 ^ n" "?t < 2 ^ n" using blk_okD [OF assms] n(2) by simp_all
  have u: "unat ((blk_tail b - blk_front b) AND mask n) = unat (blk_tail b - blk_front b) mod 2 ^ n"
    by (rule unat_mask_and)
  have "unat (blk_tail b - blk_front b) mod 2 ^ n = (if ?f \<le> ?t then ?t - ?f else ?t + 2 ^ n - ?f)"
  proof (cases "?f \<le> ?t")
    case True
    then show ?thesis using lt by (simp add: unat_sub word_le_nat_alt)
  next
    case False
    have "(2 :: nat) ^ n dvd 18446744073709551616" using n(1) le_imp_power_dvd [of n 64 "2 :: nat"] by simp
    then obtain k where k: "18446744073709551616 = (2 :: nat) ^ n * k" by (rule dvdE)
    then have "k \<noteq> 0" by (cases k) auto
    then obtain j where j: "k = Suc j" by (cases k) auto
    have "unat (blk_tail b - blk_front b) = ?t + 18446744073709551616 - ?f"
      using False by (simp add: unat_sub_if_size word_size)
    also have "\<dots> = (?t + 2 ^ n - ?f) + 2 ^ n * j" using lt False unfolding k j by simp
    finally have "unat (blk_tail b - blk_front b) mod 2 ^ n = (?t + 2 ^ n - ?f) mod 2 ^ n" by simp
    then show ?thesis using False lt by simp
  qed
  then have c: "unat ((blk_tail b - blk_front b) AND mask n) = blk_count b"
    unfolding u using slot_count_if [OF lt] by (simp add: blk_count_def n(2))
  show ?thesis unfolding n(3) c [symmetric] by simp
qed

lemma destroy_elems_ring:
  assumes "blk_ok b" and "unat i < blk_cap b" and "slot_count (blk_cap b) (unat i) (unat (blk_tail b)) < fuel"
  shows "destroy_elems fuel b i = Some (slot_elems (blk_data b) (unat i) (unat (blk_tail b)))"
  using assms(2,3)
proof (induction fuel arbitrary: i)
  case (Suc fuel)
  have t: "unat (blk_tail b) < blk_cap b" using blk_okD [OF assms(1)] by simp
  show ?case
  proof (cases "i = blk_tail b")
    case True
    then show ?thesis using slot_count_0 [OF t t] by (simp add: slot_elems_def)
  next
    case False
    then have ne: "unat i \<noteq> unat (blk_tail b)" by (simp add: word_unat_eq_iff)
    have u: "unat (blk_inc b i) = (unat i + 1) mod blk_cap b" by (rule unat_blk_inc [OF assms(1)])
    moreover have "0 < blk_cap b" using t by linarith
    ultimately have "destroy_elems fuel b (blk_inc b i) = Some (slot_elems (blk_data b) ((unat i + 1) mod blk_cap b) (unat (blk_tail b)))"
      using Suc.IH [of "blk_inc b i"] Suc.prems(2) ring_pop_count [OF Suc.prems(1) t ne] by simp
    then show ?thesis
      using False ring_pop [OF Suc.prems(1) t ne, of "blk_data b ! unat i"] by simp
  qed
qed simp

lemma destroy_block: "blk_ok b \<Longrightarrow> destroy_elems (blk_cap b) b (blk_front b) = Some (blk_elems b)"
  using destroy_elems_ring [of b "blk_front b" "blk_cap b"] blk_okD [of b] blk_count_less [of b]
  by (simp add: blk_elems_def blk_count_def)

text \<open>Both loops follow the circle of blocks once, from the front block to the block before it.\<close>

lemma size_loop_circle:
  assumes "linked (rwq_blocks q) ids (frontBlock q)" and "ids \<noteq> []" and "frontBlock q \<notin> set (tl ids)"
    and "\<And>i. i \<in> set ids \<Longrightarrow> blk_ok (rwq_blocks q ! i)" and "length ids \<le> fuel"
  shows "size_loop fuel q (hd ids) r = Some (r + word_of_nat (length (elems_of (rwq_blocks q) ids)))"
  using assms
proof (induction ids arbitrary: fuel r)
  case (Cons i ids)
  obtain f where f: "fuel = Suc f" using Cons.prems(5) by (cases fuel) auto
  have m: "(blk_tail (rwq_blocks q ! i) - blk_front (rwq_blocks q ! i)) AND blk_sizeMask (rwq_blocks q ! i)
    = word_of_nat (length (blk_elems (rwq_blocks q ! i)))"
    using masked_distance [of "rwq_blocks q ! i"] Cons.prems(4) by (simp add: length_blk_elems)
  show ?case
  proof (cases ids)
    case Nil
    then show ?thesis using Cons.prems(1) by (simp add: f m Let_def)
  next
    case (Cons j r')
    have "j \<noteq> frontBlock q" "frontBlock q \<notin> set (tl ids)" using Cons.prems(3) Cons by auto
    then show ?thesis
      using Cons.IH [of f "r + word_of_nat (length (blk_elems (rwq_blocks q ! i)))"] Cons.prems Cons
      by (simp add: f m Let_def add.assoc)
  qed
qed simp

lemma destroy_loop_circle:
  assumes "linked (rwq_blocks q) ids (frontBlock q)" and "ids \<noteq> []" and "frontBlock q \<notin> set (tl ids)"
    and "\<And>i. i \<in> set ids \<Longrightarrow> blk_ok (rwq_blocks q ! i)" and "length ids \<le> fuel"
  shows "destroy_loop fuel q (hd ids) freed objs = Some (freed @ ids, objs @ elems_of (rwq_blocks q) ids)"
  using assms
proof (induction ids arbitrary: fuel freed objs)
  case (Cons i ids)
  obtain f where f: "fuel = Suc f" using Cons.prems(5) by (cases fuel) auto
  have d: "destroy_elems (blk_cap (rwq_blocks q ! i)) (rwq_blocks q ! i) (blk_front (rwq_blocks q ! i)) = Some (blk_elems (rwq_blocks q ! i))"
    by (rule destroy_block) (rule Cons.prems(4), simp)
  show ?case
  proof (cases ids)
    case Nil
    then show ?thesis using Cons.prems(1) by (simp add: f d Let_def)
  next
    case (Cons j r')
    have "j \<noteq> frontBlock q" "frontBlock q \<notin> set (tl ids)" using Cons.prems(3) Cons by auto
    then show ?thesis
      using Cons.IH [of f "freed @ [i]" "objs @ blk_elems (rwq_blocks q ! i)"] Cons.prems Cons
      by (simp add: f d Let_def)
  qed
qed simp

lemma elems_of_empty: "(\<And>i. i \<in> set ids \<Longrightarrow> blk_elems (bs ! i) = []) \<Longrightarrow> elems_of bs ids = []"
  by (induction ids) simp_all

lemma rel_circle:
  assumes rel: "rwq_rel q pre t post xs"
  shows "linked (rwq_blocks q) (pre @ t # post) (frontBlock q)" and "hd (pre @ t # post) = frontBlock q"
    and "frontBlock q \<notin> set (tl (pre @ t # post))" and "elems_of (rwq_blocks q) (pre @ t # post) = map Some xs"
proof -
  have f: "frontBlock q = head_or pre t" and d: "distinct (pre @ t # post)"
    and e: "\<And>i. i \<in> set post \<Longrightarrow> blk_elems (rwq_blocks q ! i) = []" "map Some xs = elems_of (rwq_blocks q) (pre @ [t])"
    using rel unfolding rwq_rel_def by blast+
  show "linked (rwq_blocks q) (pre @ t # post) (frontBlock q)" using rel by (simp add: rwq_rel_def)
  show "hd (pre @ t # post) = frontBlock q" "frontBlock q \<notin> set (tl (pre @ t # post))"
    using f d by (cases pre; simp)+
  show "elems_of (rwq_blocks q) (pre @ t # post) = map Some xs" using e elems_of_empty [OF e(1)] by simp
qed

lemma destroy_rel:
  assumes rel: "rwq_rel q pre t post xs"
  shows "ReaderWriterQueue_destroy q = Some (pre @ t # post, map Some xs)"
  using destroy_loop_circle [OF rel_circle(1) [OF rel] _ rel_circle(3) [OF rel] rel_in_range(2) [OF rel],
      of "length (rwq_blocks q)" "[]" "[]"] rel_circle(2,4) [OF rel] rel_ids(1) [OF rel]
  by (simp add: ReaderWriterQueue_destroy_def)

lemma size_rel:
  assumes rel: "rwq_rel q pre t post xs"
  shows "size_approx q = Some (word_of_nat (length xs))"
proof -
  have "size_loop (length (rwq_blocks q)) q (hd (pre @ t # post)) 0
      = Some (0 + word_of_nat (length (elems_of (rwq_blocks q) (pre @ t # post))))"
    by (rule size_loop_circle [OF rel_circle(1) [OF rel] _ rel_circle(3) [OF rel] rel_in_range(2) [OF rel]])
      (use rel_ids(1) [OF rel] in simp_all)
  then show ?thesis unfolding rel_circle(2,4) [OF rel] size_approx_def by simp
qed

text \<open>The blocking variant appends unless the allocation fails; then the element is lost without notice.\<close>

lemma pipe_enqueue_appends:
  assumes "rwq_inv q"
  shows "\<exists>q'. pipe_spsc_enqueue True q x = Some q' \<and> rwq_inv q' \<and> rwq_contents q' = rwq_contents q @ [x]"
  using inner_enqueue_inv [OF assms spsc_mbs_ok, of CanAlloc True x] by (auto simp: pipe_spsc_enqueue_def enqueue_def)

lemma pipe_enqueue_drops:
  "Option.bind (pipe_spsc_new (\<lambda>_. True) 1) (\<lambda>q. Option.bind (pipe_spsc_enqueue True q 5) (\<lambda>q1.
     map_option (\<lambda>q2. (rwq_contents q1, rwq_contents q2)) (pipe_spsc_enqueue False q1 7))) = Some ([5], [5])"
  by code_simp

text \<open>
  After any sequence of operations on a fresh pipe its count is the number of pointers in it, and deleting it
  frees every block exactly once and destroys exactly the pointers still in it.
\<close>
theorem spsc_count_delete:
  assumes "0 < sint capacity" and "pipe_spsc_new alloc capacity = Some q"
    and "qrun spsc_offer spsc_take q ops = (accepted, removed, q')"
  shows "pipe_spsc_count q' = Some (word_of_nat (length accepted - length removed))
    \<and> (\<exists>freed. pipe_spsc_delete q' = Some (freed, map Some (rwq_contents q'))
         \<and> distinct freed \<and> set freed = {..<length (rwq_blocks q')})"
proof -
  have q: "rwq_inv q" "rwq_contents q = []" using new_pipe [OF assms(1,2)] by blast+
  then have "rwq_inv q'" "accepted = removed @ rwq_contents q'"
    using spsc.run_fifo [of q q, OF _ assms(3)] spsc.run_from_empty [of q q, OF _ _ assms(3)] by simp_all
  then obtain pre t post where rel: "rwq_rel q' pre t post (rwq_contents q')" and len: "length accepted - length removed = length (rwq_contents q')"
    by (auto elim: rwq_invE)
  have "distinct (pre @ t # post)" "set (pre @ t # post) = {..<length (rwq_blocks q')}"
    using rel unfolding rwq_rel_def by blast+
  then show ?thesis
    using size_rel [OF rel] destroy_rel [OF rel] unfolding len pipe_spsc_count_def pipe_spsc_delete_def by blast
qed

theorem spsc_count_delete_witness:
  "pipe_spsc_count (snd (snd (demo_pipe_run [Offer [5], Offer [6], Take 1]))) = Some 1
   \<and> (\<exists>freed. pipe_spsc_delete (snd (snd (demo_pipe_run [Offer [5], Offer [6], Take 1]))) = Some (freed, [Some 6])
        \<and> distinct freed \<and> set freed = {..<1})"
proof -
  let ?r = "demo_pipe_run [Offer [5], Offer [6], Take 1]"
  have "0 < sint (3 :: u32)" by simp
  moreover have "fst ?r = [5, 6]" "fst (snd ?r) = [5]" "rwq_contents (snd (snd ?r)) = [6]" "length (rwq_blocks (snd (snd ?r))) = 1"
    by code_simp+
  ultimately show ?thesis using spsc_count_delete [OF _ demo_pipe_new demo_pipe_runs, of "[Offer [5], Offer [6], Take 1]"] by simp
qed

section \<open>Well-formed queues stay well-formed\<close>

text \<open>C17: 
  On a well-formed queue no operation violates an assertion or reads a slot that holds no object, whatever the
  allocator answers, and every operation leaves a well-formed queue; the size and the destructor end.
\<close>
theorem rwq_operations_safe:
  assumes "rwq_inv q"
  shows "(\<exists>r q'. try_dequeue q = Some (r, q') \<and> rwq_inv q' \<and> pop q = Some (r \<noteq> None, q'))
    \<and> (\<exists>p q'. peek q = Some (p, q') \<and> rwq_inv q' \<and> rwq_contents q' = rwq_contents q)
    \<and> (\<exists>ok q'. inner_enqueue mode SPSC_MAX_BLOCK_SIZE alloc_ok x q = Some (ok, q') \<and> rwq_inv q')
    \<and> size_approx q \<noteq> None \<and> ReaderWriterQueue_destroy q \<noteq> None"
proof -
  obtain pre t post where rel: "rwq_rel q pre t post (rwq_contents q)" "size_ok q" using assms by (rule rwq_invE)
  obtain q1 where d: "try_dequeue q = Some (case rwq_contents q of [] \<Rightarrow> None | x # _ \<Rightarrow> Some x, q1)" "rwq_inv q1"
    using try_dequeue_inv [OF assms] by blast
  obtain p q2 where p: "peek q = Some (p, q2)" "rwq_rel q2 pre t post (rwq_contents q)"
    using peek_rel [OF rel(1)] by blast
  have "size_ok q2" using rel(2) peek_size [OF p(1)] by (simp add: size_ok_def)
  then have "rwq_inv q2" "rwq_contents q2 = rwq_contents q" using p(2) rel_contents unfolding rwq_inv_def by blast+
  then show ?thesis
    using d pop_try_dequeue [OF d(1)] p(1) inner_enqueue_inv [OF assms spsc_mbs_ok, of mode alloc_ok x]
      size_rel [OF rel(1)] destroy_rel [OF rel(1)] by blast
qed

theorem rwq_operations_safe_witness:
  "(\<exists>r q'. try_dequeue demo_pipe = Some (r, q') \<and> rwq_inv q' \<and> pop demo_pipe = Some (r \<noteq> None, q'))
    \<and> (\<exists>p q'. peek demo_pipe = Some (p, q') \<and> rwq_inv q' \<and> rwq_contents q' = rwq_contents demo_pipe)
    \<and> (\<exists>ok q'. inner_enqueue CanAlloc SPSC_MAX_BLOCK_SIZE True 5 demo_pipe = Some (ok, q') \<and> rwq_inv q')
    \<and> size_approx demo_pipe \<noteq> None \<and> ReaderWriterQueue_destroy demo_pipe \<noteq> None"
proof -
  have "rwq_inv demo_pipe" using new_pipe [OF _ demo_pipe_new] by simp
  from rwq_operations_safe [OF this] show ?thesis .
qed

end
