(* ===== verification/SpscConcurrent.thy ===== *)
theory SpscConcurrent
  imports Pipe
begin

text \<open>
  The single-producer single-consumer queue under concurrency. The producer's \<^verbatim>\<open>inner_enqueue\<close> and the consumer's
  \<^verbatim>\<open>try_dequeue\<close> of \<^verbatim>\<open>src/lib/spsc-queue/readerwriterqueue.h\<close> are split at every access to memory the other thread
  writes or reads; the two threads interleave arbitrarily. The fences of the source make the accesses of each
  thread visible in program order, which is what the interleaving assumes. A failed assertion and the read
  of a slot that holds no object are the states \<open>PFault\<close> and \<open>CFault\<close>.
\<close>

section \<open>Model\<close>

text \<open>
  Where the producer stands: about to load \<open>front\<close> of the tail block (\<open>PCheck\<close>), to construct the object
  (\<open>PPut\<close>), to publish it by storing \<open>tail\<close> (\<open>PPublish\<close>), to compare \<open>next\<close> with \<open>frontBlock\<close> (\<open>PAdvance\<close>), to load
  the indices of the next block (\<open>PNext\<close>), to construct and publish in it, to allocate a block (\<open>PAlloc\<close>) and to store
  \<open>tailBlock\<close> (\<open>PSetTail\<close>).
\<close>

datatype 'a producer_pc =
    PIdle
  | PCheck 'a
  | PPut 'a
  | PPublish 'a
  | PAdvance 'a
  | PNext 'a
  | PNextPut 'a nat
  | PNextPublish 'a nat
  | PAlloc 'a
  | PSetTail 'a nat
  | PFault

text \<open>
  Where the consumer stands: about to load \<open>tail\<close> of the front block (\<open>CLoadTail\<close>), to load \<open>tailBlock\<close>
  (\<open>CTailBlock\<close>, with the auxiliary information whether the queue was empty when \<open>tail\<close> was loaded), to load \<open>tail\<close>
  again (\<open>CRecheck\<close>), to load the indices of the next block (\<open>CNext\<close>), to store \<open>frontBlock\<close> (\<open>CSetFront\<close>), to read
  the object (\<open>CTake\<close>) and to release its slot by storing \<open>front\<close> (\<open>CPublish\<close>).
\<close>

datatype 'a consumer_pc =
    CIdle
  | CLoadTail nat
  | CTailBlock nat bool
  | CRecheck nat
  | CNext nat
  | CSetFront nat
  | CTake nat
  | CPublish nat 'a
  | CFault

text \<open>The shared queue, both threads, and the sequences of objects accepted and removed so far.\<close>

record 'a conf =
  cf_q :: "'a rwqueue"
  cf_prod :: "'a producer_pc"
  cf_cons :: "'a consumer_pc"
  cf_in :: "'a list"
  cf_out :: "'a list"

definition blk_write :: "'a \<Rightarrow> 'a spsc_block \<Rightarrow> 'a spsc_block" where
  "blk_write x b = b\<lparr>blk_data := (blk_data b)[unat (blk_tail b) := Some x]\<rparr>"

definition blk_publish :: "'a spsc_block \<Rightarrow> 'a spsc_block" where
  "blk_publish b = b\<lparr>blk_tail := blk_inc b (blk_tail b)\<rparr>"

abbreviation refresh_tail :: "'a spsc_block \<Rightarrow> 'a spsc_block" where
  "refresh_tail b \<equiv> b\<lparr>blk_localTail := blk_tail b\<rparr>"

text \<open>
  One step of the producer. \<open>x\<close> is the object of a call that starts now; \<open>grant\<close> tells whether the call may
  allocate and the allocation succeeds. The call returns \<^verbatim>\<open>false\<close> when \<open>PAlloc\<close> is left without a block.
\<close>

definition producer_step :: "u64 \<Rightarrow> 'a \<Rightarrow> bool \<Rightarrow> 'a conf \<Rightarrow> 'a conf" where
  "producer_step mbs x grant c =
     (let q = cf_q c; t = tailBlock q; b = rwq_blocks q ! t; nextTail = blk_inc b (blk_tail b) in
      case cf_prod c of
        PIdle \<Rightarrow> c\<lparr>cf_prod := (if nextTail \<noteq> blk_localFront b then PPut x else PCheck x)\<rparr>
      | PCheck y \<Rightarrow> c\<lparr>cf_q := upd_block t refresh_front q,
                      cf_prod := (if nextTail \<noteq> blk_front b then PPut y else PAdvance y)\<rparr>
      | PPut y \<Rightarrow> c\<lparr>cf_q := upd_block t (blk_write y) q, cf_prod := PPublish y\<rparr>
      | PPublish y \<Rightarrow> c\<lparr>cf_q := upd_block t blk_publish q, cf_prod := PIdle, cf_in := cf_in c @ [y]\<rparr>
      | PAdvance y \<Rightarrow> c\<lparr>cf_prod := (if blk_next b \<noteq> frontBlock q then PNext y else PAlloc y)\<rparr>
      | PNext y \<Rightarrow> (let nx = blk_next b; nb = rwq_blocks q ! nx in
                    c\<lparr>cf_q := upd_block nx refresh_front q,
                      cf_prod := (if blk_front nb = blk_tail nb then PNextPut y nx else PFault)\<rparr>)
      | PNextPut y nx \<Rightarrow> c\<lparr>cf_q := upd_block nx (blk_write y) q, cf_prod := PNextPublish y nx\<rparr>
      | PNextPublish y nx \<Rightarrow> c\<lparr>cf_q := upd_block nx blk_publish q, cf_prod := PSetTail y nx\<rparr>
      | PAlloc y \<Rightarrow>
          if grant
          then (let newBlockSize = (if mbs \<le> largestBlockSize q then largestBlockSize q else largestBlockSize q * 2);
                    nb = (new_block newBlockSize)\<lparr>blk_data := (blk_data (new_block newBlockSize))[0 := Some y],
                            blk_localTail := 1, blk_tail := 1\<rparr>
                in c\<lparr>cf_q := insert_block nb (q\<lparr>largestBlockSize := newBlockSize\<rparr>),
                     cf_prod := PSetTail y (length (rwq_blocks q))\<rparr>)
          else c\<lparr>cf_prod := PIdle\<rparr>
      | PSetTail y nx \<Rightarrow> c\<lparr>cf_q := q\<lparr>tailBlock := nx\<rparr>, cf_prod := PIdle, cf_in := cf_in c @ [y]\<rparr>
      | PFault \<Rightarrow> c)"

text \<open>One step of the consumer. The call returns \<^verbatim>\<open>false\<close> when \<open>CTailBlock\<close> finds no further block.\<close>

definition consumer_step :: "'a conf \<Rightarrow> 'a conf" where
  "consumer_step c =
     (let q = cf_q c in
      case cf_cons c of
        CIdle \<Rightarrow> (let f = frontBlock q; b = rwq_blocks q ! f in
                  c\<lparr>cf_cons := (if blk_front b \<noteq> blk_localTail b then CTake f else CLoadTail f)\<rparr>)
      | CLoadTail f \<Rightarrow> (let b = rwq_blocks q ! f in
                       c\<lparr>cf_q := upd_block f refresh_tail q,
                         cf_cons := (if blk_front b \<noteq> blk_tail b then CTake f else CTailBlock f (cf_in c = cf_out c))\<rparr>)
      | CTailBlock f seen_empty \<Rightarrow> c\<lparr>cf_cons := (if f \<noteq> tailBlock q then CRecheck f else CIdle)\<rparr>
      | CRecheck f \<Rightarrow> (let b = rwq_blocks q ! f in
                      c\<lparr>cf_q := upd_block f refresh_tail q,
                        cf_cons := (if blk_front b \<noteq> blk_tail b then CTake f else CNext f)\<rparr>)
      | CNext f \<Rightarrow> (let nx = blk_next (rwq_blocks q ! f); nb = rwq_blocks q ! nx in
                   c\<lparr>cf_q := upd_block nx refresh_tail q,
                     cf_cons := (if blk_front nb = blk_tail nb then CFault else CSetFront nx)\<rparr>)
      | CSetFront nx \<Rightarrow> c\<lparr>cf_q := q\<lparr>frontBlock := nx\<rparr>, cf_cons := CTake nx\<rparr>
      | CTake i \<Rightarrow> (let b = rwq_blocks q ! i in
                   c\<lparr>cf_cons := (case blk_data b ! unat (blk_front b) of None \<Rightarrow> CFault | Some x \<Rightarrow> CPublish i x)\<rparr>)
      | CPublish i x \<Rightarrow> c\<lparr>cf_q := upd_block i blk_drop q, cf_cons := CIdle, cf_out := cf_out c @ [x]\<rparr>
      | CFault \<Rightarrow> c)"

inductive conc_step :: "u64 \<Rightarrow> 'a conf \<Rightarrow> 'a conf \<Rightarrow> bool" for mbs where
  producer: "conc_step mbs c (producer_step mbs x grant c)"
| consumer: "conc_step mbs c (consumer_step c)"

definition conc_start :: "'a rwqueue \<Rightarrow> 'a conf" where
  "conc_start q = \<lparr>cf_q = q, cf_prod = PIdle, cf_cons = CIdle, cf_in = [], cf_out = []\<rparr>"

section \<open>Steps on a block\<close>

lemma slot_write: "f < length d \<Longrightarrow> t < length d \<Longrightarrow> slot_elems (d[t := v]) f t = slot_elems d f t"
  using ring_slot_other [THEN not_sym, of f "length d" t] by (auto simp: slot_elems_def)

lemma blk_write_simps [simp]:
  "blk_front (blk_write x b) = blk_front b" "blk_tail (blk_write x b) = blk_tail b" "blk_localTail (blk_write x b) = blk_localTail b"
  "blk_localFront (blk_write x b) = blk_localFront b" "blk_next (blk_write x b) = blk_next b" "blk_cap (blk_write x b) = blk_cap b"
  "blk_inc (blk_write x b) i = blk_inc b i" "blk_count (blk_write x b) = blk_count b" "blk_ok (blk_write x b) = blk_ok b"
  "local_tail_ok (blk_write x b) = local_tail_ok b" "local_front_ok (blk_write x b) = local_front_ok b"
  by (simp_all add: blk_write_def blk_inc_def blk_count_def blk_ok_def local_tail_ok_def local_front_ok_def)

lemma blk_write_elems: "blk_ok b \<Longrightarrow> blk_elems (blk_write x b) = blk_elems b"
  using blk_okD [of b] by (simp add: blk_elems_def blk_write_def slot_write)

lemma blk_write_slot: "blk_ok b \<Longrightarrow> blk_data (blk_write x b) ! unat (blk_tail b) = Some x"
  using blk_okD [of b] by (simp add: blk_write_def)

lemma blk_write_other: "i \<noteq> unat (blk_tail b) \<Longrightarrow> blk_data (blk_write x b) ! i = blk_data b ! i"
  by (simp add: blk_write_def)

text \<open>Publishing a written object is \<open>blk_put\<close>.\<close>

lemma blk_publish_put:
  assumes "blk_data b ! unat (blk_tail b) = Some x"
  shows "blk_publish b = blk_put x b"
proof -
  have "(blk_data b)[unat (blk_tail b) := Some x] = blk_data b" using assms by (metis list_update_id)
  then show ?thesis by (simp add: blk_publish_def blk_put_def)
qed

lemma rel_write:
  assumes "rwq_rel q pre t post xs" and "i \<in> set (pre @ t # post)"
  shows "rwq_rel (upd_block i (blk_write x) q) pre t post xs"
  using rel_in_range(2) [OF assms] blk_write_elems by (intro rel_upd [OF assms]) simp_all

lemma upd_block_cong: "g (rwq_blocks q ! i) = h (rwq_blocks q ! i) \<Longrightarrow> upd_block i g q = upd_block i h q"
  by (simp add: upd_block_def)

lemma upd_block_comm: "i \<noteq> j \<Longrightarrow> upd_block i g (upd_block j h q) = upd_block j h (upd_block i g q)"
  by (simp add: upd_block_def list_update_swap)

section \<open>Invariant\<close>

text \<open>
  \<open>A\<close> is the queue as the consumer may see it: while the producer is about to store \<open>tailBlock\<close>, the object it
  has published in the next block does not count yet.
\<close>

definition full_behind :: "'a rwqueue \<Rightarrow> nat list \<Rightarrow> nat \<Rightarrow> bool" where
  "full_behind A pre t \<longleftrightarrow> (pre \<noteq> [] \<longrightarrow> blk_count (rwq_blocks A ! t) = blk_cap (rwq_blocks A ! t) - 1)"

definition next_ready :: "'a rwqueue \<Rightarrow> nat list \<Rightarrow> nat \<Rightarrow> nat list \<Rightarrow> nat \<Rightarrow> bool" where
  "next_ready A pre t post nx \<longleftrightarrow> full_behind A pre t \<and> post \<noteq> [] \<and> hd post = nx \<and>
     blk_localFront (rwq_blocks A ! nx) = blk_front (rwq_blocks A ! nx)"

definition tail_room :: "'a spsc_block \<Rightarrow> bool" where
  "tail_room b \<longleftrightarrow> blk_inc b (blk_tail b) \<noteq> blk_localFront b"

definition tail_holds :: "'a \<Rightarrow> 'a spsc_block \<Rightarrow> bool" where
  "tail_holds x b \<longleftrightarrow> blk_data b ! unat (blk_tail b) = Some x"

fun prod_ok :: "'a producer_pc \<Rightarrow> 'a rwqueue \<Rightarrow> 'a rwqueue \<Rightarrow> nat list \<Rightarrow> nat \<Rightarrow> nat list \<Rightarrow> bool" where
  "prod_ok PIdle A q pre t post \<longleftrightarrow> q = A"
| "prod_ok (PCheck x) A q pre t post \<longleftrightarrow> q = A"
| "prod_ok (PPut x) A q pre t post \<longleftrightarrow> q = A \<and> tail_room (rwq_blocks A ! t)"
| "prod_ok (PPublish x) A q pre t post \<longleftrightarrow> q = A \<and> tail_room (rwq_blocks A ! t) \<and> tail_holds x (rwq_blocks A ! t)"
| "prod_ok (PAdvance x) A q pre t post \<longleftrightarrow> q = A \<and> full_behind A pre t"
| "prod_ok (PAlloc x) A q pre t post \<longleftrightarrow> q = A \<and> full_behind A pre t"
| "prod_ok (PNext x) A q pre t post \<longleftrightarrow> q = A \<and> full_behind A pre t \<and> post \<noteq> []"
| "prod_ok (PNextPut x nx) A q pre t post \<longleftrightarrow> q = A \<and> next_ready A pre t post nx"
| "prod_ok (PNextPublish x nx) A q pre t post \<longleftrightarrow> q = A \<and> next_ready A pre t post nx \<and> tail_holds x (rwq_blocks A ! nx)"
| "prod_ok (PSetTail x nx) A q pre t post \<longleftrightarrow> q = upd_block nx blk_publish A \<and> next_ready A pre t post nx
     \<and> tail_holds x (rwq_blocks A ! nx)"
| "prod_ok PFault A q pre t post \<longleftrightarrow> False"

definition has_front :: "'a rwqueue \<Rightarrow> nat \<Rightarrow> bool" where
  "has_front A i \<longleftrightarrow> blk_front (rwq_blocks A ! i) \<noteq> blk_localTail (rwq_blocks A ! i)"

fun cons_ok :: "'a consumer_pc \<Rightarrow> 'a rwqueue \<Rightarrow> nat list \<Rightarrow> nat \<Rightarrow> bool" where
  "cons_ok CIdle A pre t \<longleftrightarrow> True"
| "cons_ok (CLoadTail f) A pre t \<longleftrightarrow> f = head_or pre t"
| "cons_ok (CTailBlock f e) A pre t \<longleftrightarrow> f = head_or pre t \<and> (pre = [] \<longrightarrow> e)"
| "cons_ok (CRecheck f) A pre t \<longleftrightarrow> f = head_or pre t \<and> pre \<noteq> []"
| "cons_ok (CNext f) A pre t \<longleftrightarrow> f = head_or pre t \<and> pre \<noteq> [] \<and> blk_elems (rwq_blocks A ! f) = []"
| "cons_ok (CSetFront nx) A pre t \<longleftrightarrow> pre \<noteq> [] \<and> blk_elems (rwq_blocks A ! head_or pre t) = [] \<and>
     nx = head_or (tl pre) t \<and> local_tail_ok (rwq_blocks A ! nx) \<and> has_front A nx"
| "cons_ok (CTake i) A pre t \<longleftrightarrow> i = head_or pre t \<and> has_front A i"
| "cons_ok (CPublish i x) A pre t \<longleftrightarrow> i = head_or pre t \<and> has_front A i \<and>
     blk_data (rwq_blocks A ! i) ! unat (blk_front (rwq_blocks A ! i)) = Some x"
| "cons_ok CFault A pre t \<longleftrightarrow> False"

definition conc_inv :: "'a conf \<Rightarrow> bool" where
  "conc_inv c \<longleftrightarrow> (\<exists>A pre t post xs. rwq_rel A pre t post xs \<and> size_ok A \<and> cf_in c = cf_out c @ xs \<and>
     prod_ok (cf_prod c) A (cf_q c) pre t post \<and> cons_ok (cf_cons c) A pre t)"

section \<open>The threads do not disturb each other\<close>

text \<open>A step of the consumer on a block the producer does not own alone keeps what the producer relies on.\<close>

lemma post_not_pre: "rwq_rel A pre t post xs \<Longrightarrow> post \<noteq> [] \<Longrightarrow> i \<in> set (pre @ [t]) \<Longrightarrow> hd post \<noteq> i"
  by (cases post) (auto simp: rwq_rel_def)

lemma prod_ok_upd:
  assumes rel: "rwq_rel A pre t post xs" and ok: "prod_ok pc A q pre t post" and i: "i \<in> set (pre @ [t])"
    and g: "blk_tail (g (rwq_blocks A ! i)) = blk_tail (rwq_blocks A ! i)"
      "blk_localFront (g (rwq_blocks A ! i)) = blk_localFront (rwq_blocks A ! i)"
      "blk_sizeMask (g (rwq_blocks A ! i)) = blk_sizeMask (rwq_blocks A ! i)"
      "blk_data (g (rwq_blocks A ! i)) ! unat (blk_tail (rwq_blocks A ! i)) = blk_data (rwq_blocks A ! i) ! unat (blk_tail (rwq_blocks A ! i))"
      "pre \<noteq> [] \<Longrightarrow> i = t \<Longrightarrow> blk_count (g (rwq_blocks A ! i)) = blk_count (rwq_blocks A ! i)"
      "blk_cap (g (rwq_blocks A ! i)) = blk_cap (rwq_blocks A ! i)"
  shows "prod_ok pc (upd_block i g A) (upd_block i g q) pre t post"
proof -
  have r: "i < length (rwq_blocks A)" using rel_in_range(1) [OF rel] i by auto
  have at: "rwq_blocks (upd_block i g A) ! j = (if j = i then g (rwq_blocks A ! i) else rwq_blocks A ! j)" for j
    using r by (rule upd_block_nth)
  have nx: "rwq_blocks (upd_block i g A) ! hd post = rwq_blocks A ! hd post" "hd post \<noteq> i" if "post \<noteq> []"
    using post_not_pre [OF rel that i] at by simp_all
  have tail: "tail_room (rwq_blocks (upd_block i g A) ! t) = tail_room (rwq_blocks A ! t)"
    "tail_holds x (rwq_blocks (upd_block i g A) ! t) = tail_holds x (rwq_blocks A ! t)" for x
    using g by (auto simp: at tail_room_def tail_holds_def blk_inc_def)
  have full: "full_behind A pre t \<Longrightarrow> full_behind (upd_block i g A) pre t"
    using g(5,6) by (auto simp: full_behind_def at)
  have nr: "next_ready A pre t post nx \<Longrightarrow> next_ready (upd_block i g A) pre t post nx" for nx
    using full nx by (auto simp: next_ready_def)
  show ?thesis
  proof (cases pc)
    case (PSetTail x nx')
    then have "nx' = hd post" "post \<noteq> []" using ok by (auto simp: next_ready_def)
    then show ?thesis using ok nx nr PSetTail upd_block_comm [of i nx' g blk_publish A] by simp
  next
    case (PNextPublish x nx')
    then have "nx' = hd post" "post \<noteq> []" using ok by (auto simp: next_ready_def)
    then show ?thesis using ok nx nr PNextPublish by simp
  qed (use ok tail full nr in auto)
qed

lemma prod_ok_front:
  assumes "prod_ok pc A q pre t post"
  shows "prod_ok pc (A\<lparr>frontBlock := nx\<rparr>) (q\<lparr>frontBlock := nx\<rparr>) (tl pre) t (post @ [f])"
proof -
  have u: "upd_block i g (A\<lparr>frontBlock := nx\<rparr>) = (upd_block i g A)\<lparr>frontBlock := nx\<rparr>" for i g by (simp add: upd_block_def)
  show ?thesis using assms by (cases pc) (auto simp: full_behind_def next_ready_def u)
qed

text \<open>What the consumer reads is the same in the shared queue and in \<open>A\<close>.\<close>

lemma prod_ok_reads:
  assumes rel: "rwq_rel A pre t post xs" and ok: "prod_ok pc A q pre t post"
  shows "i \<in> set (pre @ [t]) \<Longrightarrow> rwq_blocks q ! i = rwq_blocks A ! i" and "frontBlock q = frontBlock A" and "tailBlock q = tailBlock A"
proof -
  have "q = A \<or> (\<exists>nx. q = upd_block nx blk_publish A \<and> post \<noteq> [] \<and> nx = hd post)"
    using ok by (cases pc) (auto simp: next_ready_def)
  then show "rwq_blocks q ! i = rwq_blocks A ! i" if "i \<in> set (pre @ [t])"
    using post_not_pre [OF rel _ that] by (auto simp: upd_block_def)
  show "frontBlock q = frontBlock A" "tailBlock q = tailBlock A"
    using \<open>q = A \<or> _\<close> by auto
qed

text \<open>A step of the producer keeps what the consumer relies on.\<close>

lemma cons_ok_stable:
  assumes ok: "cons_ok pc A pre t"
    and v: "\<And>i. i \<in> set (pre @ [t]) \<Longrightarrow> blk_front (rwq_blocks A' ! i) = blk_front (rwq_blocks A ! i)
      \<and> blk_localTail (rwq_blocks A' ! i) = blk_localTail (rwq_blocks A ! i)
      \<and> (local_tail_ok (rwq_blocks A ! i) \<longrightarrow> local_tail_ok (rwq_blocks A' ! i))"
    and e: "\<And>i. i \<in> set pre \<Longrightarrow> blk_elems (rwq_blocks A' ! i) = blk_elems (rwq_blocks A ! i)"
    and d: "has_front A (head_or pre t) \<Longrightarrow> blk_data (rwq_blocks A' ! head_or pre t) ! unat (blk_front (rwq_blocks A ! head_or pre t))
      = blk_data (rwq_blocks A ! head_or pre t) ! unat (blk_front (rwq_blocks A ! head_or pre t))"
  shows "cons_ok pc A' pre t"
proof -
  have h1: "head_or pre t \<in> set (pre @ [t])" using head_or_in [of pre t "[]"] by simp
  have h2: "head_or (tl pre) t \<in> set (pre @ [t])" using head_or_in [of "tl pre" t "[]"] by (cases pre) auto
  have h3: "pre \<noteq> [] \<Longrightarrow> head_or pre t \<in> set pre" by (cases pre) simp_all
  have hf: "has_front A' i = has_front A i" if "i \<in> set (pre @ [t])" for i using v [OF that] by (simp add: has_front_def)
  show ?thesis
  proof (cases pc)
    case (CNext f)
    then show ?thesis using ok h3 e by auto
  next
    case (CSetFront nx)
    then show ?thesis using ok h3 e v [OF h2] hf [OF h2] by auto
  next
    case (CTake i)
    then show ?thesis using ok hf [OF h1] by auto
  next
    case (CPublish i x)
    then show ?thesis using ok hf [OF h1] v [OF h1] d by auto
  qed (use ok in auto)
qed

lemma cons_ok_set_tail:
  assumes "cons_ok pc A pre t" and "\<And>i. i \<in> set (pre @ [t]) \<Longrightarrow> rwq_blocks A' ! i = rwq_blocks A ! i"
  shows "cons_ok pc A' (pre @ [t]) nx"
proof -
  have "cons_ok pc A' pre t" by (rule cons_ok_stable [OF assms(1)]) (use assms(2) head_or_in [of pre t "[]"] in auto)
  then show ?thesis by (cases pc) (auto simp: head_or_append)
qed

section \<open>Every step keeps the invariant\<close>

lemma conc_invI:
  "rwq_rel A pre t post xs \<Longrightarrow> size_ok A \<Longrightarrow> cf_in c = cf_out c @ xs \<Longrightarrow> prod_ok (cf_prod c) A (cf_q c) pre t post
    \<Longrightarrow> cons_ok (cf_cons c) A pre t \<Longrightarrow> conc_inv c"
  by (auto simp: conc_inv_def)

lemma size_ok_simps [simp]:
  "size_ok (upd_block i g q) = size_ok q" "size_ok (q\<lparr>frontBlock := i\<rparr>) = size_ok q" "size_ok (q\<lparr>tailBlock := i\<rparr>) = size_ok q"
  by (simp_all add: size_ok_def)

lemma prod_ok_refresh:
  assumes "rwq_rel A pre t post xs" and "prod_ok pc A q pre t post" and "i \<in> set (pre @ [t])"
  shows "prod_ok pc (upd_block i refresh_tail A) (upd_block i refresh_tail q) pre t post"
  by (rule prod_ok_upd [OF assms]) simp_all

lemma prod_ok_drop:
  assumes rel: "rwq_rel A pre t post xs" and ok: "prod_ok pc A q pre t post" and h: "has_front A (head_or pre t)"
  shows "prod_ok pc (upd_block (head_or pre t) blk_drop A) (upd_block (head_or pre t) blk_drop q) pre t post"
proof -
  let ?f = "head_or pre t"
  let ?b = "rwq_blocks A ! head_or pre t"
  have m: "?f \<in> set (pre @ [t])" using head_or_in [of pre t "[]"] by simp
  have lt: "local_tail_ok ?b" using rel by (simp add: rwq_rel_def)
  have "blk_front ?b \<noteq> blk_tail ?b"
    using local_tail_nonempty [OF rel_in_range(2) [OF rel head_or_in] lt] h by (simp add: has_front_def)
  then have ne: "unat (blk_front ?b) \<noteq> unat (blk_tail ?b)" by (simp add: word_unat_eq_iff)
  have "?f \<noteq> t" if "pre \<noteq> []" using rel that by (cases pre) (auto simp: rwq_rel_def)
  then show ?thesis by (intro prod_ok_upd [OF rel ok m]) (use ne in \<open>auto simp: blk_drop_def\<close>)
qed

lemma consumer_load:
  assumes rel: "rwq_rel A pre t post xs" "size_ok A" and io: "cf_in c = cf_out c @ xs"
    and ok: "prod_ok (cf_prod c) A (cf_q c) pre t post" and i: "i \<in> set (pre @ [t])"
    and cs: "cons_ok pc (upd_block i refresh_tail A) pre t"
  shows "conc_inv (c\<lparr>cf_q := upd_block i refresh_tail (cf_q c), cf_cons := pc\<rparr>)"
proof (rule conc_invI)
  show "rwq_rel (upd_block i refresh_tail A) pre t post xs" by (rule rel_refresh_tail [OF rel(1)]) (use i in auto)
qed (use rel(2) io cs prod_ok_refresh [OF rel(1) ok i] in simp_all)

lemma consumer_next:
  assumes rel: "rwq_rel A pre t post xs" "size_ok A" and io: "cf_in c = cf_out c @ xs"
    and ok: "prod_ok (cf_prod c) A (cf_q c) pre t post" and cs: "cf_cons c = CNext f" "cons_ok (CNext f) A pre t"
  shows "conc_inv (consumer_step c)"
proof -
  let ?f = "head_or pre t" and ?nx = "head_or (tl pre) t"
  have p: "pre \<noteq> []" "f = ?f" "blk_elems (rwq_blocks A ! ?f) = []" using cs by auto
  note D = rel_advance [OF rel(1) p(3,1)]
  have n: "?nx \<in> set (pre @ [t])" "?f \<in> set (pre @ [t])"
    using head_or_in [of "tl pre" t "[]"] head_or_in [of pre t "[]"] by (cases pre; auto)+
  then have nin: "?nx \<in> set (pre @ t # post)" by auto
  note rn = rel_in_range [OF rel(1) nin]
  have an: "rwq_blocks (upd_block ?nx refresh_tail A) ! j = (if j = ?nx then refresh_tail (rwq_blocks A ! ?nx) else rwq_blocks A ! j)" for j
    using rn(1) by (rule upd_block_nth)
  have "cons_ok (CSetFront ?nx) (upd_block ?nx refresh_tail A) pre t"
    using p D(2) local_exact(1) [OF rn(2)] by (auto simp: an has_front_def)
  from consumer_load [OF rel io ok n(1) this] show ?thesis
    using cs(1) p D(1,2) prod_ok_reads(1) [OF rel(1) ok n(2)] prod_ok_reads(1) [OF rel(1) ok n(1)]
    by (simp add: consumer_step_def Let_def)
qed

lemma consumer_set_front:
  assumes rel: "rwq_rel A pre t post xs" "size_ok A" and io: "cf_in c = cf_out c @ xs"
    and ok: "prod_ok (cf_prod c) A (cf_q c) pre t post" and cs: "cf_cons c = CSetFront nx" "cons_ok (CSetFront nx) A pre t"
  shows "conc_inv (consumer_step c)"
proof -
  have p: "pre \<noteq> []" "blk_elems (rwq_blocks A ! head_or pre t) = []" "nx = head_or (tl pre) t"
    "local_tail_ok (rwq_blocks A ! nx)" "has_front A nx" using cs by auto
  have "rwq_rel (A\<lparr>frontBlock := nx\<rparr>) (tl pre) t (post @ [head_or pre t]) xs"
    using rel_advance(3) [OF rel(1) p(2,1)] p(3,4) by simp
  then show ?thesis
    by (rule conc_invI) (use cs(1) p(3,5) rel(2) io prod_ok_front [OF ok] in \<open>simp_all add: consumer_step_def has_front_def\<close>)
qed

lemma consumer_take:
  assumes rel: "rwq_rel A pre t post xs" "size_ok A" and io: "cf_in c = cf_out c @ xs"
    and ok: "prod_ok (cf_prod c) A (cf_q c) pre t post" and cs: "cf_cons c = CPublish i x" "cons_ok (CPublish i x) A pre t"
  shows "conc_inv (consumer_step c)"
proof -
  have p: "i = head_or pre t" "has_front A (head_or pre t)" using cs by auto
  obtain ys where d: "xs = x # ys" "rwq_rel (upd_block (head_or pre t) blk_drop A) pre t post ys"
    using rel_drop [OF rel(1)] p(2) cs by (auto simp: has_front_def)
  show ?thesis
    by (rule conc_invI [OF d(2)]) (use cs(1) p d(1) rel(2) io prod_ok_drop [OF rel(1) ok p(2)] in \<open>simp_all add: consumer_step_def\<close>)
qed

lemma consumer_inv:
  assumes "conc_inv c"
  shows "conc_inv (consumer_step c)"
proof -
  obtain A pre t post xs where rel: "rwq_rel A pre t post xs" "size_ok A" and io: "cf_in c = cf_out c @ xs"
    and ok: "prod_ok (cf_prod c) A (cf_q c) pre t post" and cs: "cons_ok (cf_cons c) A pre t"
    using assms by (auto simp: conc_inv_def)
  let ?f = "head_or pre t" and ?q = "cf_q c"
  have m: "?f \<in> set (pre @ [t])" using head_or_in [of pre t "[]"] by simp
  note R = prod_ok_reads [OF rel(1) ok]
  have fb: "frontBlock ?q = ?f" "tailBlock ?q = t" using R(2,3) rel(1) by (simp_all add: rwq_rel_def)
  note b = R(1) [OF m]
  note r = rel_in_range [OF rel(1) head_or_in]
  have empty: "blk_elems (rwq_blocks A ! ?f) = [] \<longleftrightarrow> blk_front (rwq_blocks A ! ?f) = blk_tail (rwq_blocks A ! ?f)"
    by (rule blk_elems_empty [OF r(2)])
  have at: "rwq_blocks (upd_block ?f refresh_tail A) ! ?f = refresh_tail (rwq_blocks A ! ?f)"
    using r(1) by (simp add: upd_block_nth)
  show ?thesis
  proof (cases "cf_cons c")
    case CIdle
    then show ?thesis
      using rel io ok fb b by (intro conc_invI [OF rel]) (simp_all add: consumer_step_def Let_def has_front_def)
  next
    case (CLoadTail f)
    have "xs = []" if "pre = []" "blk_front (rwq_blocks A ! ?f) = blk_tail (rwq_blocks A ! ?f)"
      using slow_path(1) [OF rel(1)] that empty rel(1) by (simp add: rwq_rel_def)
    then have "cons_ok (if blk_front (rwq_blocks A ! ?f) \<noteq> blk_tail (rwq_blocks A ! ?f) then CTake ?f
        else CTailBlock ?f (cf_in c = cf_out c)) (upd_block ?f refresh_tail A) pre t"
      using at io by (auto simp: has_front_def)
    from consumer_load [OF rel io ok m this] show ?thesis
      using CLoadTail cs b by (simp add: consumer_step_def Let_def)
  next
    case (CTailBlock f e)
    have "pre \<noteq> []" if "?f \<noteq> t" using that by auto
    then show ?thesis
      using CTailBlock rel io ok fb cs by (intro conc_invI [OF rel]) (auto simp: consumer_step_def)
  next
    case (CRecheck f)
    then show ?thesis
      using cs b consumer_load [OF rel io ok m] at empty by (simp add: consumer_step_def Let_def has_front_def)
  next
    case (CNext f)
    show ?thesis by (rule consumer_next [OF rel io ok CNext cs [unfolded CNext]])
  next
    case (CSetFront nx)
    show ?thesis by (rule consumer_set_front [OF rel io ok CSetFront cs [unfolded CSetFront]])
  next
    case (CTake i)
    then obtain x where "blk_data (rwq_blocks A ! ?f) ! unat (blk_front (rwq_blocks A ! ?f)) = Some x" "i = ?f" "has_front A ?f"
      using cs rel_drop [OF rel(1)] by (auto simp: has_front_def)
    then show ?thesis
      using CTake io ok b by (intro conc_invI [OF rel]) (simp_all add: consumer_step_def Let_def)
  next
    case (CPublish i x)
    show ?thesis by (rule consumer_take [OF rel io ok CPublish cs [unfolded CPublish]])
  next
    case CFault
    then show ?thesis using cs by simp
  qed
qed

lemma cons_ok_upd:
  assumes rel: "rwq_rel A pre t post xs" and cs: "cons_ok pc A pre t" and i: "i \<in> set (pre @ t # post)"
    and g: "blk_front (g (rwq_blocks A ! i)) = blk_front (rwq_blocks A ! i)"
      "blk_localTail (g (rwq_blocks A ! i)) = blk_localTail (rwq_blocks A ! i)"
      "local_tail_ok (rwq_blocks A ! i) \<Longrightarrow> local_tail_ok (g (rwq_blocks A ! i))"
      "i \<in> set pre \<Longrightarrow> blk_elems (g (rwq_blocks A ! i)) = blk_elems (rwq_blocks A ! i)"
      "blk_front (rwq_blocks A ! i) \<noteq> blk_tail (rwq_blocks A ! i) \<Longrightarrow>
        blk_data (g (rwq_blocks A ! i)) ! unat (blk_front (rwq_blocks A ! i)) = blk_data (rwq_blocks A ! i) ! unat (blk_front (rwq_blocks A ! i))"
  shows "cons_ok pc (upd_block i g A) pre t"
proof -
  note r = rel_in_range [OF rel i]
  have at: "rwq_blocks (upd_block i g A) ! j = (if j = i then g (rwq_blocks A ! i) else rwq_blocks A ! j)" for j
    using r(1) by (rule upd_block_nth)
  have lt: "local_tail_ok (rwq_blocks A ! head_or pre t)" using rel by (simp add: rwq_rel_def)
  have ne: "blk_front (rwq_blocks A ! head_or pre t) \<noteq> blk_tail (rwq_blocks A ! head_or pre t)" if "has_front A (head_or pre t)"
    using local_tail_nonempty [OF rel_in_range(2) [OF rel head_or_in] lt] that by (simp add: has_front_def)
  show ?thesis by (rule cons_ok_stable [OF cs]) (use g ne in \<open>auto simp: at\<close>)
qed

lemma cons_ok_refresh:
  assumes "rwq_rel A pre t post xs" and "cons_ok pc A pre t" and "i \<in> set (pre @ t # post)"
  shows "cons_ok pc (upd_block i refresh_front A) pre t"
  by (rule cons_ok_upd [OF assms]) simp_all

lemma cons_ok_write:
  assumes "rwq_rel A pre t post xs" and "cons_ok pc A pre t" and "i \<in> set (pre @ t # post)"
  shows "cons_ok pc (upd_block i (blk_write x) A) pre t"
  by (rule cons_ok_upd [OF assms])
    (use blk_write_elems [OF rel_in_range(2) [OF assms(1,3)]] in \<open>simp_all add: blk_write_other word_unat_eq_iff\<close>)

lemma cons_ok_put:
  assumes rel: "rwq_rel A pre t post xs" and cs: "cons_ok pc A pre t" and room: "tail_room (rwq_blocks A ! t)"
  shows "cons_ok pc (upd_block t (blk_put x) A) pre t"
proof -
  have t: "t \<in> set (pre @ t # post)" "t \<notin> set pre" using rel by (auto simp: rwq_rel_def)
  note r = rel_in_range [OF rel t(1)]
  have lf: "local_front_ok (rwq_blocks A ! t)" using rel by (simp add: rwq_rel_def)
  have "blk_inc (rwq_blocks A ! t) (blk_tail (rwq_blocks A ! t)) \<noteq> blk_front (rwq_blocks A ! t)"
    using local_front_room [OF r(2) lf] room by (simp add: tail_room_def)
  then show ?thesis
    by (intro cons_ok_upd [OF rel cs t(1)])
      (use t(2) put_local_tail [OF r(2)] in \<open>auto simp: blk_put_def word_unat_eq_iff\<close>)
qed

text \<open>The two ways to reach the state before \<open>tailBlock\<close> is stored, and the store itself.\<close>

lemma set_tail_inv:
  assumes rel: "rwq_rel A pre t post xs" "size_ok A" and io: "cf_in c = cf_out c @ xs"
    and ok: "next_ready A pre t post nx" "tail_holds x (rwq_blocks A ! nx)" and q: "cf_q c = upd_block nx blk_publish A"
    and cs: "cons_ok (cf_cons c) A pre t"
  shows "conc_inv (c\<lparr>cf_q := (cf_q c)\<lparr>tailBlock := nx\<rparr>, cf_prod := PIdle, cf_in := cf_in c @ [x]\<rparr>)"
proof -
  obtain ps where post: "post = nx # ps" and lf: "blk_localFront (rwq_blocks A ! nx) = blk_front (rwq_blocks A ! nx)"
    and full: "pre \<noteq> [] \<Longrightarrow> blk_count (rwq_blocks A ! t) = blk_cap (rwq_blocks A ! t) - 1"
    using ok(1) by (cases post) (auto simp: next_ready_def full_behind_def)
  have pub: "upd_block nx blk_publish A = upd_block nx (blk_put x) A"
    by (rule upd_block_cong) (use ok(2) in \<open>simp add: blk_publish_put tail_holds_def\<close>)
  let ?A = "(upd_block nx (blk_put x) A)\<lparr>tailBlock := nx\<rparr>"
  have R: "rwq_rel ?A (pre @ [t]) nx ps (xs @ [x])" by (rule rel_next_block [OF rel(1) [unfolded post] lf full])
  have "rwq_blocks ?A ! i = rwq_blocks A ! i" if "i \<in> set (pre @ [t])" for i
    using post_not_pre [OF rel(1) _ that] post by (simp add: upd_block_def)
  then have "cons_ok (cf_cons c) ?A (pre @ [t]) nx" by (rule cons_ok_set_tail [OF cs])
  then show ?thesis by (intro conc_invI [OF R]) (use rel(2) io q pub in simp_all)
qed

lemma alloc_inv:
  fixes c :: "'a conf"
  assumes rel: "rwq_rel A pre t post xs" "size_ok A" and io: "cf_in c = cf_out c @ xs"
    and full: "full_behind A pre t" and q: "cf_q c = A" and cs: "cons_ok (cf_cons c) A pre t"
    and cap: "unat cap = 2 ^ n" "0 < n" "n < 64"
    and nb_def: "nb = (new_block cap)\<lparr>blk_data := (blk_data (new_block cap))[0 := Some x], blk_localTail := 1, blk_tail := 1\<rparr>"
  shows "conc_inv (c\<lparr>cf_q := insert_block nb (A\<lparr>largestBlockSize := cap\<rparr>), cf_prod := PSetTail x (length (rwq_blocks A))\<rparr>)"
proof -
  let ?nb = "blk_write x ((new_block cap)\<lparr>blk_localTail := 1\<rparr>)" and ?n = "length (rwq_blocks A)"
  let ?A = "insert_block ?nb (A\<lparr>largestBlockSize := cap\<rparr>)"
  have t: "tailBlock A = t" "t < ?n" using rel_in_range(1) [OF rel(1), of t] rel(1) unfolding rwq_rel_def by simp_all
  note F = fresh_block [OF cap, where 'a = 'a]
  have R: "rwq_rel ?A pre t (?n # post) xs"
    using rel_insert_block [of "A\<lparr>largestBlockSize := cap\<rparr>" pre t post xs ?nb] rel(1) F blk_write_elems [OF F(1), of x]
    by (simp add: rel_size)
  have bs: "rwq_blocks ?A = (rwq_blocks A)[t := (rwq_blocks A ! t)\<lparr>blk_next := ?n\<rparr>] @ [?nb\<lparr>blk_next := blk_next (rwq_blocks A ! t)\<rparr>]"
    using t by (simp add: insert_block_def upd_block_def nth_append list_update_append Let_def)
  have at: "rwq_blocks ?A ! ?n = ?nb\<lparr>blk_next := blk_next (rwq_blocks A ! t)\<rparr>"
    "i < ?n \<Longrightarrow> rwq_blocks ?A ! i = (if i = t then (rwq_blocks A ! t)\<lparr>blk_next := ?n\<rparr> else rwq_blocks A ! i)" for i
    using t by (simp_all add: bs nth_append nth_list_update)
  have "full_behind ?A pre t" using full t(2) by (simp add: full_behind_def at blk_count_def)
  then have nr: "next_ready ?A pre t (?n # post) ?n" by (simp add: next_ready_def at) (simp add: new_block_def)
  have th: "tail_holds x (rwq_blocks ?A ! ?n)"
    using blk_write_slot [OF F(1), of x] by (simp add: tail_holds_def at)
  have pub: "blk_publish (?nb\<lparr>blk_next := v\<rparr>) = nb\<lparr>blk_next := v\<rparr>" for v
    using first_put(1) [OF cap, where 'a = 'a] by (simp add: blk_publish_def nb_def blk_write_def new_block_def blk_inc_def)
  have "insert_block nb (A\<lparr>largestBlockSize := cap\<rparr>) = upd_block ?n blk_publish ?A"
    unfolding upd_block_def at(1) pub
    using t by (simp add: insert_block_def upd_block_def Let_def nth_append list_update_append)
  moreover have "cons_ok (cf_cons c) ?A pre t"
  proof (rule cons_ok_stable [OF cs])
    fix i assume "i \<in> set (pre @ [t])"
    then have "i < ?n" using rel_in_range(1) [OF rel(1), of i] by auto
    then show "blk_front (rwq_blocks ?A ! i) = blk_front (rwq_blocks A ! i) \<and> blk_localTail (rwq_blocks ?A ! i) = blk_localTail (rwq_blocks A ! i)
        \<and> (local_tail_ok (rwq_blocks A ! i) \<longrightarrow> local_tail_ok (rwq_blocks ?A ! i))"
      by (simp add: at local_tail_ok_def blk_count_def)
  next
    fix i assume "i \<in> set pre"
    then have "i < ?n" using rel_in_range(1) [OF rel(1), of i] by auto
    then show "blk_elems (rwq_blocks ?A ! i) = blk_elems (rwq_blocks A ! i)" by (simp add: at blk_elems_def)
  qed (use rel_in_range(1) [OF rel(1) head_or_in] in \<open>simp add: at\<close>)
  ultimately show ?thesis
    using nr th cap by (intro conc_invI [OF R]) (auto simp: size_ok_def insert_block_def Let_def io q)
qed

lemma producer_next:
  assumes rel: "rwq_rel A pre t post xs" "size_ok A" and io: "cf_in c = cf_out c @ xs"
    and ok: "cf_prod c = PNext y" "prod_ok (PNext y) A (cf_q c) pre t post" and cs: "cons_ok (cf_cons c) A pre t"
  shows "conc_inv (producer_step mbs x grant c)"
proof -
  let ?nx = "hd post"
  have p: "cf_q c = A" "full_behind A pre t" "post \<noteq> []" using ok by auto
  have m: "?nx \<in> set (pre @ t # post)" using p(3) by (cases post) auto
  have nx: "blk_next (rwq_blocks A ! t) = ?nx" using full_next(2) [OF rel(1), of ?nx "tl post"] p(3) by simp
  note rn = rel_in_range [OF rel(1) m]
  have an: "rwq_blocks (upd_block ?nx refresh_front A) ! j = (if j = ?nx then refresh_front (rwq_blocks A ! ?nx) else rwq_blocks A ! j)" for j
    using rn(1) by (rule upd_block_nth)
  have "blk_elems (rwq_blocks A ! ?nx) = []" using rel(1) p(3) by (cases post) (simp_all add: rwq_rel_def)
  then have e: "blk_front (rwq_blocks A ! ?nx) = blk_tail (rwq_blocks A ! ?nx)" using blk_elems_empty [OF rn(2)] by blast
  have tb: "tailBlock A = t" using rel(1) by (simp add: rwq_rel_def)
  have "next_ready (upd_block ?nx refresh_front A) pre t post ?nx"
    using p(2,3) by (auto simp: next_ready_def full_behind_def an)
  then show ?thesis using ok(1) p(1) nx e io rel(2) tb cons_ok_refresh [OF rel(1) cs m]
    by (intro conc_invI [OF rel_refresh_front [OF rel(1) m]]) (simp_all add: producer_step_def Let_def)
qed

lemma producer_next_put:
  assumes rel: "rwq_rel A pre t post xs" "size_ok A" and io: "cf_in c = cf_out c @ xs"
    and ok: "cf_prod c = PNextPut y nx" "prod_ok (PNextPut y nx) A (cf_q c) pre t post" and cs: "cons_ok (cf_cons c) A pre t"
  shows "conc_inv (producer_step mbs x grant c)"
proof -
  have p: "cf_q c = A" "next_ready A pre t post nx" using ok by auto
  then have m: "nx \<in> set (pre @ t # post)" by (cases post) (auto simp: next_ready_def)
  note rn = rel_in_range [OF rel(1) m]
  have an: "rwq_blocks (upd_block nx (blk_write y) A) ! j = (if j = nx then blk_write y (rwq_blocks A ! nx) else rwq_blocks A ! j)" for j
    using rn(1) by (rule upd_block_nth)
  have "next_ready (upd_block nx (blk_write y) A) pre t post nx" using p(2) by (auto simp: next_ready_def full_behind_def an)
  moreover have "tail_holds y (rwq_blocks (upd_block nx (blk_write y) A) ! nx)" using blk_write_slot [OF rn(2)] by (simp add: an tail_holds_def)
  ultimately show ?thesis using ok(1) p(1) io rel(2) cons_ok_write [OF rel(1) cs m]
    by (intro conc_invI [OF rel_write [OF rel(1) m, of y]]) (simp_all add: producer_step_def Let_def)
qed

lemma producer_alloc:
  assumes rel: "rwq_rel A pre t post xs" "size_ok A" and io: "cf_in c = cf_out c @ xs" and mbs: "mbs_ok mbs"
    and ok: "cf_prod c = PAlloc y" "prod_ok (PAlloc y) A (cf_q c) pre t post" and cs: "cons_ok (cf_cons c) A pre t"
  shows "conc_inv (producer_step mbs x grant c)"
proof -
  let ?s = "if mbs \<le> largestBlockSize A then largestBlockSize A else largestBlockSize A * 2"
  have p: "cf_q c = A" "full_behind A pre t" using ok by auto
  obtain n where n: "unat ?s = 2 ^ n" "0 < n" "n < 64" using new_size_ok [OF mbs rel(2)] by blast
  show ?thesis
  proof (cases grant)
    case True
    then show ?thesis using alloc_inv [OF rel io p(2,1) cs n refl, of y] ok(1) p(1) by (simp add: producer_step_def Let_def)
  next
    case False
    then show ?thesis using ok(1) p io cs by (intro conc_invI [OF rel]) (simp_all add: producer_step_def Let_def)
  qed
qed

lemma producer_inv:
  assumes "conc_inv c" and mbs: "mbs_ok mbs"
  shows "conc_inv (producer_step mbs x grant c)"
proof -
  obtain A pre t post xs where rel: "rwq_rel A pre t post xs" "size_ok A" and io: "cf_in c = cf_out c @ xs"
    and ok: "prod_ok (cf_prod c) A (cf_q c) pre t post" and cs: "cons_ok (cf_cons c) A pre t"
    using assms(1) by (auto simp: conc_inv_def)
  have tm: "t \<in> set (pre @ t # post)" by simp
  note r = rel_in_range [OF rel(1) tm]
  have tb: "tailBlock A = t" "frontBlock A = head_or pre t" using rel(1) by (simp_all add: rwq_rel_def)
  have at: "rwq_blocks (upd_block t g A) ! t = g (rwq_blocks A ! t)" for g using r(1) by (simp add: upd_block_nth)
  show ?thesis
  proof (cases "cf_prod c")
    case PIdle
    then show ?thesis using ok io cs tb by (intro conc_invI [OF rel]) (simp_all add: producer_step_def Let_def tail_room_def)
  next
    case (PCheck y)
    have "full_behind (upd_block t refresh_front A) pre t"
      if "blk_inc (rwq_blocks A ! t) (blk_tail (rwq_blocks A ! t)) = blk_front (rwq_blocks A ! t)"
      using blk_full [OF r(2)] that by (simp add: full_behind_def at)
    then show ?thesis using PCheck ok io rel(2) tb cons_ok_refresh [OF rel(1) cs tm]
      by (intro conc_invI [OF rel_refresh_front [OF rel(1) tm]]) (auto simp: producer_step_def Let_def tail_room_def at blk_inc_def)
  next
    case (PPut y)
    then show ?thesis using ok io rel(2) tb cons_ok_write [OF rel(1) cs tm] blk_write_slot [OF r(2)]
      by (intro conc_invI [OF rel_write [OF rel(1) tm, of y]])
        (auto simp: producer_step_def Let_def tail_room_def tail_holds_def at)
  next
    case (PPublish y)
    then have p: "cf_q c = A" "tail_room (rwq_blocks A ! t)" "tail_holds y (rwq_blocks A ! t)" using ok by auto
    have "upd_block t blk_publish A = upd_block t (blk_put y) A"
      by (rule upd_block_cong) (use p(3) in \<open>simp add: blk_publish_put tail_holds_def\<close>)
    then show ?thesis using PPublish p(1) io rel(2) tb cons_ok_put [OF rel(1) cs p(2)]
      by (intro conc_invI [OF rel_put [OF rel(1) p(2) [unfolded tail_room_def], of y]]) (simp_all add: producer_step_def Let_def)
  next
    case (PAdvance y)
    then show ?thesis using ok io cs tb full_next(1) [OF rel(1)]
      by (intro conc_invI [OF rel]) (simp_all add: producer_step_def Let_def)
  next
    case (PNext y)
    show ?thesis by (rule producer_next [OF rel io PNext ok [unfolded PNext] cs])
  next
    case (PNextPut y nx)
    show ?thesis by (rule producer_next_put [OF rel io PNextPut ok [unfolded PNextPut] cs])
  next
    case (PNextPublish y nx)
    then show ?thesis using ok io cs by (intro conc_invI [OF rel]) (simp_all add: producer_step_def Let_def)
  next
    case (PAlloc y)
    show ?thesis by (rule producer_alloc [OF rel io mbs PAlloc ok [unfolded PAlloc] cs])
  next
    case (PSetTail y nx)
    then show ?thesis using set_tail_inv [OF rel io _ _ _ cs, of nx y] ok by (simp add: producer_step_def Let_def)
  next
    case PFault
    then show ?thesis using ok by simp
  qed
qed

lemma conc_steps_inv:
  assumes "(conc_step mbs)\<^sup>*\<^sup>* c c'" and "mbs_ok mbs" and "conc_inv c"
  shows "conc_inv c'"
  using assms(1)
proof induction
  case base
  show ?case by (rule assms(3))
next
  case (step c1 c2)
  then show ?case by (auto elim!: conc_step.cases intro: producer_inv [OF _ assms(2)] consumer_inv)
qed

section \<open>A thread running alone\<close>

text \<open>
  Without interference the steps of a call have the effect of the sequential functions of theory \<open>SpscQueue\<close>.
\<close>

lemma blk_put_split: "blk_publish (blk_write x b) = blk_put x b"
  by (simp add: blk_publish_def blk_write_def blk_put_def blk_inc_def)

lemma upd_block_upd: "i < length (rwq_blocks q) \<Longrightarrow> upd_block i g (upd_block i h q) = upd_block i (\<lambda>b. g (h b)) q"
  by (simp add: upd_block_def)

lemma rwq_swap: "q\<lparr>largestBlockSize := v, rwq_blocks := bs\<rparr> = q\<lparr>rwq_blocks := bs, largestBlockSize := v\<rparr>"
  by (cases q) simp

lemma producer_alone_full:
  assumes rel: "rwq_rel q pre t post xs" and c': "c = \<lparr>cf_q = q, cf_prod = PIdle, cf_cons = k, cf_in = i, cf_out = out\<rparr>"
    and run: "inner_enqueue mode mbs a x q = Some (ok, q')"
    and full: "blk_inc (rwq_blocks q ! t) (blk_tail (rwq_blocks q ! t)) = blk_localFront (rwq_blocks q ! t)"
      "blk_inc (rwq_blocks q ! t) (blk_tail (rwq_blocks q ! t)) = blk_front (rwq_blocks q ! t)"
  shows "\<exists>n. (producer_step mbs x (mode = CanAlloc \<and> a) ^^ n) c = c\<lparr>cf_q := q', cf_in := cf_in c @ (if ok then [x] else [])\<rparr>"
proof -
  let ?b = "rwq_blocks q ! t" and ?p = "producer_step mbs x (mode = CanAlloc \<and> a)"
    and ?done = "c\<lparr>cf_q := q', cf_in := cf_in c @ (if ok then [x] else [])\<rparr>"
  have "t \<in> set (pre @ t # post)" by simp
  then have tb: "tailBlock q = t" "t < length (rwq_blocks q)"
    using rel rel_in_range(1) [OF rel] by (simp add: rwq_rel_def, blast)
  note st = producer_step_def Let_def upd_block_nth upd_block_upd blk_put_split inner_enqueue_def tb
  have nxt: "blk_next ?b \<noteq> frontBlock q \<longleftrightarrow> post \<noteq> []" by (rule full_next(1) [OF rel])
  show ?thesis
  proof (cases post)
    case (Cons p ps)
    have p: "blk_next ?b = p" "p < length (rwq_blocks q)" "p \<noteq> t" "blk_ok (rwq_blocks q ! p)" "blk_elems (rwq_blocks q ! p) = []"
      using full_next(2) [OF rel Cons] rel_in_range [OF rel, of p] rel Cons unfolding rwq_rel_def by auto
    then have e: "blk_front (rwq_blocks q ! p) = blk_tail (rwq_blocks q ! p)" using blk_elems_empty by blast
    have "(?p ^^ Suc (Suc (Suc (Suc (Suc (Suc (Suc 0))))))) c = ?done"
      using run tb full p e nxt Cons unfolding c' by (auto simp: st)
    then show ?thesis by blast
  next
    case Nil
    show ?thesis
    proof (cases "mode = CanAlloc \<and> a")
      case True
      have "(?p ^^ Suc (Suc (Suc (Suc (Suc 0))))) c = ?done"
        using run tb full nxt Nil True unfolding c' by (auto simp: st insert_block_def make_block_def rwq_swap)
      then show ?thesis by blast
    next
      case False
      then have "(?p ^^ Suc (Suc (Suc (Suc 0)))) c = ?done"
        using run tb full nxt Nil unfolding c' by (auto simp: st make_block_def split: AllocationMode.splits)
      then show ?thesis by blast
    qed
  qed
qed

lemma producer_alone:
  assumes rel: "rwq_rel q pre t post xs" and c: "cf_q c = q" "cf_prod c = PIdle"
    and run: "inner_enqueue mode mbs a x q = Some (ok, q')"
  shows "\<exists>n. (producer_step mbs x (mode = CanAlloc \<and> a) ^^ n) c
    = c\<lparr>cf_q := q', cf_in := cf_in c @ (if ok then [x] else [])\<rparr>"
proof -
  let ?b = "rwq_blocks q ! t" and ?p = "producer_step mbs x (mode = CanAlloc \<and> a)"
  have "t \<in> set (pre @ t # post)" by simp
  then have tb: "tailBlock q = t" "t < length (rwq_blocks q)"
    using rel rel_in_range(1) [OF rel] by (simp add: rwq_rel_def, blast)
  obtain k i out where c': "c = \<lparr>cf_q = q, cf_prod = PIdle, cf_cons = k, cf_in = i, cf_out = out\<rparr>"
    using c by (cases c) auto
  note st = producer_step_def Let_def upd_block_nth upd_block_upd blk_put_split inner_enqueue_def tb
  consider (room) "blk_inc ?b (blk_tail ?b) \<noteq> blk_localFront ?b"
    | (fresh) "blk_inc ?b (blk_tail ?b) = blk_localFront ?b" "blk_inc ?b (blk_tail ?b) \<noteq> blk_front ?b"
    | (full) "blk_inc ?b (blk_tail ?b) = blk_localFront ?b" "blk_inc ?b (blk_tail ?b) = blk_front ?b" by blast
  then show ?thesis
  proof cases
    case room
    then have "(?p ^^ Suc (Suc (Suc 0))) c = c\<lparr>cf_q := q', cf_in := cf_in c @ (if ok then [x] else [])\<rparr>"
      using run tb unfolding c' by (auto simp: st)
    then show ?thesis by blast
  next
    case fresh
    then have "(?p ^^ Suc (Suc (Suc (Suc 0)))) c = c\<lparr>cf_q := q', cf_in := cf_in c @ (if ok then [x] else [])\<rparr>"
      using run tb unfolding c' by (auto simp: st)
    then show ?thesis by blast
  next
    case full
    show ?thesis by (rule producer_alone_full [OF rel c' run full])
  qed
qed

lemma consumer_alone:
  assumes rel: "rwq_rel q pre t post xs" and c: "cf_q c = q" "cf_cons c = CIdle" and run: "try_dequeue q = Some (r, q')"
  shows "\<exists>n. (consumer_step ^^ n) c = c\<lparr>cf_q := q', cf_out := cf_out c @ (case r of None \<Rightarrow> [] | Some x \<Rightarrow> [x])\<rparr>"
proof -
  let ?f = "head_or pre t" and ?nx = "head_or (tl pre) t"
  let ?b = "rwq_blocks q ! ?f" and ?done = "c\<lparr>cf_q := q', cf_out := cf_out c @ (case r of None \<Rightarrow> [] | Some x \<Rightarrow> [x])\<rparr>"
  have fb: "frontBlock q = ?f" "tailBlock q = t" using rel by (simp_all add: rwq_rel_def)
  note rf = rel_in_range [OF rel head_or_in]
  obtain k i out where c': "c = \<lparr>cf_q = q, cf_prod = k, cf_cons = CIdle, cf_in = i, cf_out = out\<rparr>"
    using c by (cases c) auto
  note st = consumer_step_def Let_def upd_block_nth upd_block_upd try_dequeue_def front_has_element_def dequeue_from_def fb
  consider (shadow) "blk_front ?b \<noteq> blk_localTail ?b"
    | (load) "blk_front ?b = blk_localTail ?b" "blk_front ?b \<noteq> blk_tail ?b"
    | (none) "blk_front ?b = blk_localTail ?b" "blk_front ?b = blk_tail ?b" "?f = t"
    | (next_block) "blk_front ?b = blk_localTail ?b" "blk_front ?b = blk_tail ?b" "?f \<noteq> t" by blast
  then show ?thesis
  proof cases
    case shadow
    then have "(consumer_step ^^ Suc (Suc (Suc 0))) c = ?done"
      using run rf(1) unfolding c' by (auto simp: st split: option.splits, metis)
    then show ?thesis by blast
  next
    case load
    then have "(consumer_step ^^ Suc (Suc (Suc (Suc 0)))) c = ?done"
      using run rf(1) unfolding c' by (auto simp: st split: option.splits, metis)
    then show ?thesis by blast
  next
    case none
    then have "(consumer_step ^^ Suc (Suc (Suc 0))) c = ?done"
      using run rf(1) unfolding c' by (auto simp: st)
    then show ?thesis by blast
  next
    case next_block
    have p: "pre \<noteq> []" using next_block(3) by auto
    have e: "blk_elems ?b = []" using blk_elems_empty [OF rf(2)] next_block(2) by blast
    have nin: "?nx \<in> set (pre @ t # post)" using head_or_in [of "tl pre" t post] by (cases pre) auto
    have d: "?nx \<noteq> ?f" using rel p by (cases pre; cases "tl pre") (auto simp: rwq_rel_def)
    have "(consumer_step ^^ Suc (Suc (Suc (Suc (Suc (Suc (Suc (Suc 0)))))))) c = ?done"
      using run rf(1) next_block d rel_advance(1,2) [OF rel e p] rel_in_range(1) [OF rel nin]
        unfolding c' by (auto simp: st split: option.splits, metis)
    then show ?thesis by blast
  qed
qed

section \<open>Progress\<close>

text \<open>Both operations are wait-free: every own step brings the call closer to its end, whatever the other thread does.\<close>

fun prod_rank :: "'a producer_pc \<Rightarrow> nat" where
  "prod_rank PIdle = 0" | "prod_rank PFault = 0" | "prod_rank (PPublish x) = 1" | "prod_rank (PSetTail x nx) = 1"
| "prod_rank (PPut x) = 2" | "prod_rank (PNextPublish x nx) = 2" | "prod_rank (PNextPut x nx) = 3" | "prod_rank (PNext x) = 4"
| "prod_rank (PAlloc x) = 2" | "prod_rank (PAdvance x) = 5" | "prod_rank (PCheck x) = 6"

fun cons_rank :: "'a consumer_pc \<Rightarrow> nat" where
  "cons_rank CIdle = 0" | "cons_rank CFault = 0" | "cons_rank (CPublish i x) = 1" | "cons_rank (CTake i) = 2"
| "cons_rank (CSetFront nx) = 3" | "cons_rank (CNext f) = 4" | "cons_rank (CRecheck f) = 5" | "cons_rank (CTailBlock f e) = 6"
| "cons_rank (CLoadTail f) = 7"

lemma wait_free:
  shows "cf_prod (consumer_step c) = cf_prod c" and "cf_cons (producer_step mbs x grant c) = cf_cons c"
    and "prod_rank (cf_prod c) \<noteq> 0 \<Longrightarrow> prod_rank (cf_prod (producer_step mbs x grant c)) < prod_rank (cf_prod c)"
    and "cons_rank (cf_cons c) \<noteq> 0 \<Longrightarrow> cons_rank (cf_cons (consumer_step c)) < cons_rank (cf_cons c)"
  by (auto simp: consumer_step_def producer_step_def Let_def split: consumer_pc.splits producer_pc.splits option.splits)

section \<open>The pipe under concurrency\<close>

lemma conc_inv_start: "rwq_inv q \<Longrightarrow> rwq_contents q = [] \<Longrightarrow> conc_inv (conc_start q)"
  by (rule rwq_invE) (auto intro!: conc_invI simp: conc_start_def)

lemma conc_inv_safe:
  assumes "conc_inv c"
  shows "cf_prod c \<noteq> PFault" and "cf_cons c \<noteq> CFault" and "\<exists>xs. cf_in c = cf_out c @ xs"
    and "cf_prod c = PIdle \<Longrightarrow> rwq_inv (cf_q c) \<and> cf_in c = cf_out c @ rwq_contents (cf_q c)"
    and "cf_cons c = CTailBlock (tailBlock (cf_q c)) e \<Longrightarrow> e"
proof -
  obtain A pre t post xs where rel: "rwq_rel A pre t post xs" "size_ok A" and io: "cf_in c = cf_out c @ xs"
    and ok: "prod_ok (cf_prod c) A (cf_q c) pre t post" and cs: "cons_ok (cf_cons c) A pre t"
    using assms by (auto simp: conc_inv_def)
  show "cf_prod c \<noteq> PFault" "cf_cons c \<noteq> CFault" "\<exists>xs. cf_in c = cf_out c @ xs" using ok cs io by auto
  show "rwq_inv (cf_q c) \<and> cf_in c = cf_out c @ rwq_contents (cf_q c)" if "cf_prod c = PIdle"
    using that ok io rel rel_contents [OF rel(1)] by (auto simp: rwq_inv_def)
  assume "cf_cons c = CTailBlock (tailBlock (cf_q c)) e"
  then have "head_or pre t = t" "pre = [] \<longrightarrow> e"
    using cs prod_ok_reads(3) [OF rel(1) ok] rel(1) by (auto simp: rwq_rel_def)
  moreover have "head_or pre t \<noteq> t" if "pre \<noteq> []" using rel(1) that by (cases pre) (auto simp: rwq_rel_def)
  ultimately show e by blast
qed

text \<open>C18: 
  The pipe under any interleaving of a producer thread and a consumer thread: no assertion fails and no slot
  without an object is read; the objects removed are the first ones accepted, in the same order; between two calls of the
  producer the queue is well-formed and holds exactly the objects accepted and not removed; and a call that is about to
  report an empty queue has seen one: the queue was empty when the call loaded the tail index.
\<close>
theorem spsc_concurrent_fifo:
  assumes "0 < sint capacity" and "pipe_spsc_new alloc capacity = Some q"
    and "(conc_step SPSC_MAX_BLOCK_SIZE)\<^sup>*\<^sup>* (conc_start q) c"
  shows "cf_prod c \<noteq> PFault \<and> cf_cons c \<noteq> CFault \<and> (\<exists>xs. cf_in c = cf_out c @ xs)
    \<and> (cf_prod c = PIdle \<longrightarrow> rwq_inv (cf_q c) \<and> cf_in c = cf_out c @ rwq_contents (cf_q c))
    \<and> (\<forall>e. cf_cons c = CTailBlock (tailBlock (cf_q c)) e \<longrightarrow> e)"
proof -
  have "conc_inv (conc_start q)" using new_pipe [OF assms(1,2)] by (intro conc_inv_start) blast+
  then have "conc_inv c" using conc_steps_inv [OF assms(3) spsc_mbs_ok] by blast
  from conc_inv_safe [OF this] show ?thesis by blast
qed

text \<open>A schedule as a list: \<open>Some x\<close> a step of the producer, \<open>None\<close> a step of the consumer.\<close>

fun conc_run :: "u64 \<Rightarrow> 'a option list \<Rightarrow> 'a conf \<Rightarrow> 'a conf" where
  "conc_run mbs [] c = c"
| "conc_run mbs (Some x # sched) c = conc_run mbs sched (producer_step mbs x True c)"
| "conc_run mbs (None # sched) c = conc_run mbs sched (consumer_step c)"

lemma conc_run_steps: "(conc_step mbs)\<^sup>*\<^sup>* c (conc_run mbs sched c)"
  by (induction mbs sched c rule: conc_run.induct) (auto intro: converse_rtranclp_into_rtranclp conc_step.intros)

definition demo_conf :: "u64 conf" where
  "demo_conf = conc_run SPSC_MAX_BLOCK_SIZE
     [Some 5, Some 5, None, None, Some 5, None, Some 6, Some 6, None, None, None, None, Some 6] (conc_start demo_pipe)"

theorem spsc_concurrent_fifo_witness:
  "cf_cons demo_conf \<noteq> CFault \<and> rwq_inv (cf_q demo_conf) \<and> cf_in demo_conf = cf_out demo_conf @ rwq_contents (cf_q demo_conf)
    \<and> cf_in demo_conf = [5, 6] \<and> cf_out demo_conf = [5]"
proof -
  have "0 < sint (3 :: u32)" by simp
  moreover have "cf_in demo_conf = [5, 6] \<and> cf_out demo_conf = [5] \<and> cf_prod demo_conf = PIdle" by code_simp
  moreover have "(conc_step SPSC_MAX_BLOCK_SIZE)\<^sup>*\<^sup>* (conc_start demo_pipe) demo_conf"
    unfolding demo_conf_def by (rule conc_run_steps)
  ultimately show ?thesis using spsc_concurrent_fifo [OF _ demo_pipe_new] by blast
qed

end
