(* ===== verification/MpmcDetails.thy ===== *)
theory MpmcDetails
  imports LM_Prelude
begin

text \<open>
  The arithmetic helpers of \<^verbatim>\<open>src/lib/concurrentqueue/concurrentqueue.h\<close>: the constants of the default traits, the
  comparison of indices that wrap around, and the hash of a thread identifier. \<^verbatim>\<open>size_t\<close> and \<^verbatim>\<open>index_t\<close> are
  64-bit words.
\<close>

section \<open>Constants\<close>

definition BLOCK_SIZE :: u64 where "BLOCK_SIZE = 32"
definition IMPLICIT_INITIAL_INDEX_SIZE :: u64 where "IMPLICIT_INITIAL_INDEX_SIZE = 32"
definition INITIAL_IMPLICIT_PRODUCER_HASH_SIZE :: u64 where "INITIAL_IMPLICIT_PRODUCER_HASH_SIZE = 32"
definition const_numeric_max :: u64 where "const_numeric_max = - 1"
definition traits_MAX_SUBQUEUE_SIZE :: u64 where "traits_MAX_SUBQUEUE_SIZE = const_numeric_max"

definition MAX_SUBQUEUE_SIZE :: u64 where
  "MAX_SUBQUEUE_SIZE =
     (if const_numeric_max - traits_MAX_SUBQUEUE_SIZE < BLOCK_SIZE then const_numeric_max
      else (traits_MAX_SUBQUEUE_SIZE + (BLOCK_SIZE - 1)) div BLOCK_SIZE * BLOCK_SIZE)"

lemma max_subqueue_unlimited [simp]: "MAX_SUBQUEUE_SIZE = const_numeric_max"
  by (simp add: MAX_SUBQUEUE_SIZE_def traits_MAX_SUBQUEUE_SIZE_def BLOCK_SIZE_def)

section \<open>Indices that wrap around\<close>

definition circular_less_than :: "u64 \<Rightarrow> u64 \<Rightarrow> bool" where
  "circular_less_than a b \<longleftrightarrow> a - b > push_bit 63 1"

text \<open>
  The comparison is about the distance from \<open>a\<close> to \<open>b\<close>, whatever the indices themselves are: it holds for a distance
  from 1 to \<open>2\<^sup>6\<^sup>3 - 1\<close>.
\<close>

lemma unat_uminus: "unat (- d :: u64) = (if d = 0 then 0 else 2 ^ 64 - unat d)"
proof (cases "d = 0")
  case False
  have "- d = word_of_nat (2 ^ 64 - unat d)"
    using unat_bound_u64 [of d] by (simp add: of_nat_diff less_imp_le)
  moreover have "0 < unat d" using False by (simp add: unat_gt_0)
  ultimately show ?thesis using False by (simp add: unat_word_of_nat)
qed simp

lemma circular_less_than_unat: "circular_less_than a b \<longleftrightarrow> 0 < unat (b - a) \<and> unat (b - a) < 2 ^ 63"
proof -
  let ?d = "b - a"
  have n: "a - b = - ?d" by simp
  have "unat (- ?d) = (if ?d = 0 then 0 else 2 ^ 64 - unat ?d)" by (rule unat_uminus)
  moreover have "unat (push_bit 63 1 :: u64) = 2 ^ 63" by (subst unat_push_bit) simp
  moreover have "?d = 0 \<longleftrightarrow> unat ?d = 0" by (simp add: unat_eq_zero)
  ultimately show ?thesis
    unfolding circular_less_than_def n word_less_nat_alt using unat_bound_u64 [of ?d] by auto
qed

lemma circular_less_than_add:
  assumes "d < 2 ^ 64"
  shows "circular_less_than a (a + word_of_nat d) \<longleftrightarrow> 0 < d \<and> d < 2 ^ 63"
proof -
  have "unat (a + word_of_nat d - a) = d" using assms by (simp add: unat_word_of_nat)
  then show ?thesis unfolding circular_less_than_unat by (simp only:)
qed

text \<open>A distance of \<open>2\<^sup>6\<^sup>3\<close> or more is not reported as behind, and never both ways.\<close>

lemma circular_less_than_asym: "circular_less_than a b \<Longrightarrow> \<not> circular_less_than b a"
proof -
  assume "circular_less_than a b"
  then have "0 < unat (b - a)" "unat (b - a) < 2 ^ 63" by (simp_all add: circular_less_than_unat)
  moreover have "unat (a - b) = (if b - a = 0 then 0 else 2 ^ 64 - unat (b - a))"
    using unat_uminus [of "b - a"] by simp
  ultimately show ?thesis by (auto simp: circular_less_than_unat)
qed

section \<open>Thread identifiers\<close>

definition invalid_thread_id :: u64 where "invalid_thread_id = 0"

definition hash_32 :: "u32 \<Rightarrow> u32" where
  "hash_32 h = (let h = h XOR drop_bit 16 h; h = h * 0x85ebca6b; h = h XOR drop_bit 13 h; h = h * 0xc2b2ae35
                in h XOR drop_bit 16 h)"

definition hash_64 :: "u64 \<Rightarrow> u64" where
  "hash_64 h = (let h = h XOR drop_bit 33 h; h = h * 0xff51afd7ed558ccd; h = h XOR drop_bit 33 h; h = h * 0xc4ceb9fe1a85ec53
                in h XOR drop_bit 33 h)"

text \<open>The thread identifier is the address of a thread-local variable; its \<^verbatim>\<open>prehash\<close> is the identity.\<close>

definition hash_thread_id :: "u64 \<Rightarrow> u64" where
  "hash_thread_id ident = hash_64 ident"

lemma xorshift_inj:
  fixes x y :: "'a::len word"
  assumes eq: "x XOR drop_bit n x = y XOR drop_bit n y" and n: "0 < n"
  shows "x = y"
proof (rule bit_word_eqI)
  have b: "(bit x k \<noteq> bit x (n + k)) = (bit y k \<noteq> bit y (n + k))" for k
  proof -
    have "bit (x XOR drop_bit n x) k = bit (y XOR drop_bit n y) k" using eq by simp
    then show ?thesis by (simp only: bit_xor_iff bit_drop_bit_eq comp_apply)
  qed
  have "LENGTH('a) - k = d \<Longrightarrow> bit x k = bit y k" for k d
  proof (induction d arbitrary: k rule: less_induct)
    case (less d)
    show ?case
    proof (cases "k < LENGTH('a)")
      case False
      then show ?thesis by (auto dest: bit_imp_le_length)
    next
      case True
      then have "LENGTH('a) - (n + k) < d" using less.prems n by linarith
      then have "bit x (n + k) = bit y (n + k)" using less.IH by blast
      then show ?thesis using b [of k] by blast
    qed
  qed
  then show "bit x k = bit y k" for k by blast
qed

lemma mult_unit_inj:
  fixes x y k :: "'a::len word"
  assumes "x * k = y * k" and "k * k' = 1"
  shows "x = y"
  by (metis assms mult.assoc mult_1_right)

lemma hash_64_inj: "hash_64 x = hash_64 y \<longleftrightarrow> x = y"
proof
  define p :: "u64 \<Rightarrow> u64" where "p h = (h XOR drop_bit 33 h) * 0xff51afd7ed558ccd" for h
  define q :: "u64 \<Rightarrow> u64" where "q h = (p h XOR drop_bit 33 (p h)) * 0xc4ceb9fe1a85ec53" for h
  have h: "hash_64 h = q h XOR drop_bit 33 (q h)" for h by (simp only: hash_64_def Let_def p_def q_def)
  assume "hash_64 x = hash_64 y"
  then have "q x = q y" unfolding h by (rule xorshift_inj) simp
  then have "p x XOR drop_bit 33 (p x) = p y XOR drop_bit 33 (p y)"
    unfolding q_def by (rule mult_unit_inj [where k' = "0x9cb4b2f8129337db"]) simp
  then have "p x = p y" by (rule xorshift_inj) simp
  then have "x XOR drop_bit 33 x = y XOR drop_bit 33 y"
    unfolding p_def by (rule mult_unit_inj [where k' = "0x4f74430c22a54005"]) simp
  then show "x = y" by (rule xorshift_inj) simp
qed simp

lemma hash_32_inj: "hash_32 x = hash_32 y \<longleftrightarrow> x = y"
proof
  define p :: "u32 \<Rightarrow> u32" where "p h = (h XOR drop_bit 16 h) * 0x85ebca6b" for h
  define q :: "u32 \<Rightarrow> u32" where "q h = (p h XOR drop_bit 13 (p h)) * 0xc2b2ae35" for h
  have h: "hash_32 h = q h XOR drop_bit 16 (q h)" for h by (simp only: hash_32_def Let_def p_def q_def)
  assume "hash_32 x = hash_32 y"
  then have "q x = q y" unfolding h by (rule xorshift_inj) simp
  then have "p x XOR drop_bit 13 (p x) = p y XOR drop_bit 13 (p y)"
    unfolding q_def by (rule mult_unit_inj [where k' = "0x7ed1b41d"]) simp
  then have "p x = p y" by (rule xorshift_inj) simp
  then have "x XOR drop_bit 16 x = y XOR drop_bit 16 y"
    unfolding p_def by (rule mult_unit_inj [where k' = "0xa5cb9243"]) simp
  then show "x = y" by (rule xorshift_inj) simp
qed simp

text \<open>
  The hash propagates the uniqueness of thread identifiers, as the comment in the source intends: different
  threads have different hashes. (The table uses the low bits only, so slots still collide.)
\<close>
theorem hash_thread_id_unique: "inj hash_thread_id \<and> inj hash_32"
  by (simp add: inj_on_def hash_thread_id_def hash_64_inj hash_32_inj)

section \<open>Masking with a power of two\<close>

lemma and_pow2_minus_1:
  assumes "unat (c :: u64) = 2 ^ n" and "n < 64"
  shows "unat (x AND (c - 1)) = unat x mod 2 ^ n"
proof -
  have "word_of_nat (unat c) = c" by simp
  then have "c = 2 ^ n" by (simp add: assms(1))
  then have "c - 1 = mask n" by (simp add: mask_eq_exp_minus_1)
  then show ?thesis by (simp add: unat_mask_and)
qed

end
