(* ===== verification/MpmcFreeList.thy ===== *)
theory MpmcFreeList
  imports MpmcDetails
begin

text \<open>
  The lock-free free list of \<^verbatim>\<open>src/lib/concurrentqueue/concurrentqueue.h\<close> (\<^verbatim>\<open>FreeList\<close>). A thread inside \<^verbatim>\<open>add\<close>,
  \<^verbatim>\<open>add_knowing_refcount_is_zero\<close> or \<^verbatim>\<open>try_get\<close> advances by one access to shared memory at a time; any number of
  threads interleave. The sequential operations run one thread to its end.

  The lemmas show that a node is never handed out twice and never lost: reference counts keep a node's
  \<open>next\<close> pointer stable while another thread may still use it.
\<close>

section \<open>Model\<close>

text \<open>The list head, and the fields \<open>freeListRefs\<close> and \<open>freeListNext\<close> of the nodes by address.\<close>

record free_list =
  freeListHead :: "nat option"
  freeListRefs :: "nat \<Rightarrow> u32"
  freeListNext :: "nat \<Rightarrow> nat option"

definition REFS_MASK :: u32 where "REFS_MASK = 0x7FFFFFFF"
definition SHOULD_BE_ON_FREELIST :: u32 where "SHOULD_BE_ON_FREELIST = 0x80000000"

definition new_free_list :: free_list where
  "new_free_list = \<lparr>freeListHead = None, freeListRefs = (\<lambda>_. 0), freeListNext = (\<lambda>_. None)\<rparr>"

text \<open>
  \<open>add_knowing_refcount_is_zero\<close> returns to \<open>add\<close>, or to the loop of \<open>try_get\<close> with the head that the failed
  compare-and-swap has loaded.
\<close>

datatype fl_return = ToAdd | ToLoop "nat option"

text \<open>
  Program points, each named after the access that comes next: \<open>AddMark\<close> the \<^verbatim>\<open>fetch_add\<close> of \<^verbatim>\<open>add\<close>; \<open>PushLoad\<close>, \<open>PushNext\<close>, \<open>PushRef\<close>,
  \<open>PushCas\<close>, \<open>PushBack\<close> the load, the two stores, the compare-and-swap and the \<^verbatim>\<open>fetch_add\<close> of
  \<^verbatim>\<open>add_knowing_refcount_is_zero\<close>; \<open>GetHead\<close>, \<open>GetRefs\<close>, \<open>GetInc\<close>, \<open>GetNext\<close>, \<open>GetCas\<close>, \<open>GetAssert\<close>, \<open>GetTake\<close>, \<open>GetDrop\<close>
  those of \<^verbatim>\<open>try_get\<close>. \<open>Done\<close> carries the result, \<open>Fault\<close> is a failed assertion.
\<close>

datatype fl_pc =
    Done "nat option"
  | AddMark nat
  | PushLoad nat fl_return
  | PushNext nat "nat option" fl_return
  | PushRef nat "nat option" fl_return
  | PushCas nat "nat option" fl_return
  | PushBack nat "nat option" fl_return
  | GetHead
  | GetRefs nat
  | GetInc nat u32
  | GetNext nat
  | GetCas nat "nat option"
  | GetAssert nat
  | GetTake nat
  | GetDrop nat "nat option"
  | Fault

text \<open>The test of the loop in \<^verbatim>\<open>try_get\<close>.\<close>

fun get_loop :: "nat option \<Rightarrow> fl_pc" where
  "get_loop None = Done None"
| "get_loop (Some n) = GetRefs n"

fun fl_resume :: "fl_return \<Rightarrow> fl_pc" where
  "fl_resume ToAdd = Done None"
| "fl_resume (ToLoop h) = get_loop h"

definition set_refs :: "nat \<Rightarrow> u32 \<Rightarrow> free_list \<Rightarrow> free_list" where
  "set_refs n r fl = fl\<lparr>freeListRefs := (freeListRefs fl)(n := r)\<rparr>"

fun add_step :: "fl_pc \<Rightarrow> free_list \<Rightarrow> fl_pc \<times> free_list" where
  "add_step (AddMark n) fl =
     (let r = freeListRefs fl n
      in (if r = 0 then PushLoad n ToAdd else Done None, set_refs n (r + SHOULD_BE_ON_FREELIST) fl))"
| "add_step pc fl = (pc, fl)"

fun push_step :: "fl_pc \<Rightarrow> free_list \<Rightarrow> fl_pc \<times> free_list" where
  "push_step (PushLoad n k) fl = (PushNext n (freeListHead fl) k, fl)"
| "push_step (PushNext n h k) fl = (PushRef n h k, fl\<lparr>freeListNext := (freeListNext fl)(n := h)\<rparr>)"
| "push_step (PushRef n h k) fl = (PushCas n h k, set_refs n 1 fl)"
| "push_step (PushCas n h k) fl =
     (if freeListHead fl = h then (fl_resume k, fl\<lparr>freeListHead := Some n\<rparr>)
      else (PushBack n (freeListHead fl) k, fl))"
| "push_step (PushBack n h k) fl =
     (let r = freeListRefs fl n
      in (if r = 1 then PushNext n h k else fl_resume k, set_refs n (r + (SHOULD_BE_ON_FREELIST - 1)) fl))"
| "push_step pc fl = (pc, fl)"

fun get_step :: "fl_pc \<Rightarrow> free_list \<Rightarrow> fl_pc \<times> free_list" where
  "get_step GetHead fl = (get_loop (freeListHead fl), fl)"
| "get_step (GetRefs n) fl =
     (let r = freeListRefs fl n in (if r AND REFS_MASK = 0 then GetHead else GetInc n r, fl))"
| "get_step (GetInc n r) fl = (if freeListRefs fl n = r then (GetNext n, set_refs n (r + 1) fl) else (GetHead, fl))"
| "get_step (GetNext n) fl = (GetCas n (freeListNext fl n), fl)"
| "get_step (GetCas n nx) fl =
     (if freeListHead fl = Some n then (GetAssert n, fl\<lparr>freeListHead := nx\<rparr>) else (GetDrop n (freeListHead fl), fl))"
| "get_step (GetAssert n) fl = (if freeListRefs fl n AND SHOULD_BE_ON_FREELIST = 0 then GetTake n else Fault, fl)"
| "get_step (GetTake n) fl = (Done (Some n), set_refs n (freeListRefs fl n - 2) fl)"
| "get_step (GetDrop n h) fl =
     (let r = freeListRefs fl n
      in (if r = SHOULD_BE_ON_FREELIST + 1 then PushLoad n (ToLoop h) else get_loop h, set_refs n (r - 1) fl))"
| "get_step pc fl = (pc, fl)"

fun is_push :: "fl_pc \<Rightarrow> bool" where
  "is_push (PushLoad n k) = True"
| "is_push (PushNext n h k) = True"
| "is_push (PushRef n h k) = True"
| "is_push (PushCas n h k) = True"
| "is_push (PushBack n h k) = True"
| "is_push pc = False"

definition fl_step :: "fl_pc \<Rightarrow> free_list \<Rightarrow> fl_pc \<times> free_list" where
  "fl_step pc fl = (case pc of AddMark n \<Rightarrow> add_step pc fl | _ \<Rightarrow> if is_push pc then push_step pc fl else get_step pc fl)"

text \<open>A call that no other thread disturbs; \<open>None\<close> when it fails an assertion or does not return.\<close>

partial_function (option) fl_run :: "fl_pc \<Rightarrow> free_list \<Rightarrow> (nat option \<times> free_list) option" where
  "fl_run pc fl = (case pc of Done r \<Rightarrow> Some (r, fl) | Fault \<Rightarrow> None | _ \<Rightarrow> fl_run (fst (fl_step pc fl)) (snd (fl_step pc fl)))"

definition freelist_add :: "nat \<Rightarrow> free_list \<Rightarrow> free_list option" where
  "freelist_add n fl = map_option snd (fl_run (AddMark n) fl)"

definition freelist_try_get :: "free_list \<Rightarrow> (nat option \<times> free_list) option" where
  "freelist_try_get fl = fl_run GetHead fl"

section \<open>Threads\<close>

text \<open>
  The threads, and which thread holds a node outside the list. A thread that holds a node may hand it to another
  thread or add it to the list; a call of \<^verbatim>\<open>try_get\<close> that returns a node makes its caller the holder.
\<close>

record fl_sys =
  fs_list :: free_list
  fs_pc :: "nat \<Rightarrow> fl_pc"
  fs_owner :: "nat \<Rightarrow> nat option"

fun deliver :: "nat \<Rightarrow> fl_pc \<Rightarrow> (nat \<Rightarrow> nat option) \<Rightarrow> nat \<Rightarrow> nat option" where
  "deliver t (Done (Some n)) own = own(n \<mapsto> t)"
| "deliver t pc own = own"

inductive fl_conc :: "nat \<Rightarrow> fl_sys \<Rightarrow> fl_sys \<Rightarrow> bool" for N where
  call_add: "t < N \<Longrightarrow> fs_pc s t = Done r \<Longrightarrow> fs_owner s n = Some t \<Longrightarrow>
    fl_conc N s (s\<lparr>fs_pc := (fs_pc s)(t := AddMark n), fs_owner := (fs_owner s)(n := None)\<rparr>)"
| call_get: "t < N \<Longrightarrow> fs_pc s t = Done r \<Longrightarrow> fl_conc N s (s\<lparr>fs_pc := (fs_pc s)(t := GetHead)\<rparr>)"
| hand_over: "t < N \<Longrightarrow> t' < N \<Longrightarrow> fs_owner s n = Some t \<Longrightarrow> fl_conc N s (s\<lparr>fs_owner := (fs_owner s)(n \<mapsto> t')\<rparr>)"
| run: "t < N \<Longrightarrow> \<forall>r. fs_pc s t \<noteq> Done r \<Longrightarrow> fl_step (fs_pc s t) (fs_list s) = (pc', fl') \<Longrightarrow>
    fl_conc N s \<lparr>fs_list = fl', fs_pc = (fs_pc s)(t := pc'), fs_owner = deliver t pc' (fs_owner s)\<rparr>"

text \<open>At the start the list is empty and every node, allocated or not yet, is with the thread that creates it.\<close>

definition fl_start :: "nat \<Rightarrow> fl_sys \<Rightarrow> bool" where
  "fl_start N s \<longleftrightarrow> fs_list s = new_free_list \<and> (\<forall>t. fs_pc s t = Done None) \<and> (\<forall>n. \<exists>t < N. fs_owner s n = Some t)"

section \<open>Invariant\<close>

text \<open>The nodes reached from a pointer.\<close>

fun fl_chain :: "(nat \<Rightarrow> nat option) \<Rightarrow> nat option \<Rightarrow> nat list \<Rightarrow> bool" where
  "fl_chain nxt p [] \<longleftrightarrow> p = None"
| "fl_chain nxt p (n # ns) \<longleftrightarrow> p = Some n \<and> fl_chain nxt (nxt n) ns"

lemma fl_chain_upd [simp]: "n \<notin> set ns \<Longrightarrow> fl_chain (nxt(n := h)) p ns \<longleftrightarrow> fl_chain nxt p ns"
  by (induction ns arbitrary: p) auto

lemma fl_chain_Some: "fl_chain nxt (Some n) ns \<longleftrightarrow> (\<exists>ms. ns = n # ms \<and> fl_chain nxt (nxt n) ms)"
  by (cases ns) auto

text \<open>
  Where a node stands: with its holder, with a thread about to mark it, marked and left to the last thread
  that refers to it, with a thread that prepares it, with a thread that tries to push it, on the list,
  or just taken off the list.
\<close>

datatype custody = Held nat | Giving nat | Pending | Fresh nat | Tentative nat | Listed | Taken nat

fun refs_base :: "custody \<Rightarrow> nat" where
  "refs_base (Tentative t) = 1"
| "refs_base Listed = 1"
| "refs_base (Taken t) = 1"
| "refs_base c = 0"

fun marked :: "custody \<Rightarrow> bool" where
  "marked Pending = True"
| "marked (Fresh t) = True"
| "marked c = False"

fun active :: "custody \<Rightarrow> nat option" where
  "active (Giving t) = Some t"
| "active (Fresh t) = Some t"
| "active (Tentative t) = Some t"
| "active (Taken t) = Some t"
| "active c = None"

fun claim :: "nat \<Rightarrow> fl_pc \<Rightarrow> (nat \<times> custody) option" where
  "claim t (AddMark n) = Some (n, Giving t)"
| "claim t (PushLoad n k) = Some (n, Fresh t)"
| "claim t (PushNext n h k) = Some (n, Fresh t)"
| "claim t (PushRef n h k) = Some (n, Fresh t)"
| "claim t (PushCas n h k) = Some (n, Tentative t)"
| "claim t (PushBack n h k) = Some (n, Tentative t)"
| "claim t (GetAssert n) = Some (n, Taken t)"
| "claim t (GetTake n) = Some (n, Taken t)"
| "claim t pc = None"

text \<open>The node a thread of \<^verbatim>\<open>try_get\<close> has a reference to, and what it knows of a node's \<open>next\<close>.\<close>

fun refers :: "fl_pc \<Rightarrow> nat option" where
  "refers (GetNext n) = Some n"
| "refers (GetCas n nx) = Some n"
| "refers (GetAssert n) = Some n"
| "refers (GetTake n) = Some n"
| "refers (GetDrop n h) = Some n"
| "refers pc = None"

fun knows_next :: "fl_pc \<Rightarrow> (nat \<times> nat option) option" where
  "knows_next (PushRef n h k) = Some (n, h)"
| "knows_next (PushCas n h k) = Some (n, h)"
| "knows_next (GetCas n nx) = Some (n, nx)"
| "knows_next pc = None"

fun pc_sane :: "fl_pc \<Rightarrow> bool" where
  "pc_sane Fault = False"
| "pc_sane (GetInc n r) \<longleftrightarrow> r AND REFS_MASK \<noteq> 0"
| "pc_sane pc = True"

definition holders :: "nat \<Rightarrow> (nat \<Rightarrow> fl_pc) \<Rightarrow> nat \<Rightarrow> nat" where
  "holders N pcs n = card {t. t < N \<and> refers (pcs t) = Some n}"

definition refs_word :: "custody \<Rightarrow> nat \<Rightarrow> u32" where
  "refs_word c h = word_of_nat (refs_base c + h) + (if marked c then SHOULD_BE_ON_FREELIST else 0)"

definition fl_inv :: "nat \<Rightarrow> fl_sys \<Rightarrow> (nat \<Rightarrow> custody) \<Rightarrow> nat list \<Rightarrow> bool" where
  "fl_inv N s st ns \<longleftrightarrow>
     fl_chain (freeListNext (fs_list s)) (freeListHead (fs_list s)) ns \<and> distinct ns \<and> (\<forall>n. n \<in> set ns \<longleftrightarrow> st n = Listed) \<and>
     (\<forall>n. freeListRefs (fs_list s) n = refs_word (st n) (holders N (fs_pc s) n)) \<and>
     (\<forall>n t. st n = Fresh t \<longrightarrow> holders N (fs_pc s) n = 0) \<and>
     (\<forall>n. st n = Pending \<longrightarrow> 0 < holders N (fs_pc s) n) \<and>
     (\<forall>n t. fs_owner s n = Some t \<longleftrightarrow> st n = Held t) \<and>
     (\<forall>t n c. claim t (fs_pc s t) = Some (n, c) \<longrightarrow> st n = c) \<and>
     (\<forall>n t. active (st n) = Some t \<longrightarrow> claim t (fs_pc s t) = Some (n, st n)) \<and>
     (\<forall>t n h. knows_next (fs_pc s t) = Some (n, h) \<longrightarrow> freeListNext (fs_list s) n = h) \<and>
     (\<forall>t. pc_sane (fs_pc s t)) \<and> (\<forall>t \<ge> N. \<exists>r. fs_pc s t = Done r)"


section \<open>Reference counts\<close>

lemma holders_upd:
  assumes "t < N"
  shows "holders N (pcs(t := p)) n + (if refers (pcs t) = Some n then 1 else 0)
    = holders N pcs n + (if refers p = Some n then 1 else 0)"
proof -
  let ?A = "{u. u < N \<and> u \<noteq> t \<and> refers (pcs u) = Some n}"
  have fin: "finite ?A" "t \<notin> ?A" by simp_all
  have "{u. u < N \<and> refers (pcs u) = Some n} = (if refers (pcs t) = Some n then insert t ?A else ?A)"
    using assms by auto
  moreover have "{u. u < N \<and> refers ((pcs(t := p)) u) = Some n} = (if refers p = Some n then insert t ?A else ?A)"
    using assms by auto
  ultimately show ?thesis using fin by (simp add: holders_def)
qed

lemma holders_upd_same: "t < N \<Longrightarrow> (refers (pcs t) = Some n \<longleftrightarrow> refers p = Some n) \<Longrightarrow> holders N (pcs(t := p)) n = holders N pcs n"
  using holders_upd [of t N pcs p n] by (simp split: if_splits)

lemma holders_upd_inc: "t < N \<Longrightarrow> refers (pcs t) = None \<Longrightarrow> refers p = Some n \<Longrightarrow> holders N (pcs(t := p)) n = holders N pcs n + 1"
  using holders_upd [of t N pcs p n] by simp

lemma holders_upd_dec: "t < N \<Longrightarrow> refers (pcs t) = Some n \<Longrightarrow> refers p = None \<Longrightarrow> holders N pcs n = holders N (pcs(t := p)) n + 1"
  using holders_upd [of t N pcs p n] by simp

lemma holders_le: "holders N pcs n \<le> N"
proof -
  have "holders N pcs n \<le> card {t. t < N}" unfolding holders_def by (rule card_mono) auto
  then show ?thesis by simp
qed

lemma holders_pos: "t < N \<Longrightarrow> refers (pcs t) = Some n \<Longrightarrow> 0 < holders N pcs n"
  unfolding holders_def by (subst card_gt_0_iff) auto

text \<open>Fewer than \<open>2\<^sup>3\<^sup>1 - 1\<close> threads keep the count apart from the mark.\<close>

lemma unat_refs_word:
  assumes "h < 2147483647"
  shows "unat (refs_word c h) = refs_base c + h + (if marked c then 2147483648 else 0)"
proof -
  have "refs_base c \<le> 1" by (cases c) simp_all
  moreover have "refs_base c = 0" if "marked c" using that by (cases c) simp_all
  ultimately show ?thesis using assms
    by (auto simp: refs_word_def SHOULD_BE_ON_FREELIST_def unat_add_u32 unat_word_of_nat)
qed

lemma refs_word_zero: "h < 2147483647 \<Longrightarrow> refs_word c h = 0 \<longleftrightarrow> \<not> marked c \<and> refs_base c + h = 0"
  using unat_refs_word [of h c] by (auto simp: unat_eq_zero [symmetric])

lemma refs_word_eq: "h < 2147483647 \<Longrightarrow> refs_word c h = w \<longleftrightarrow> refs_base c + h + (if marked c then 2147483648 else 0) = unat w"
  using unat_refs_word [of h c] by (auto simp: word_unat_eq_iff)

lemma refs_word_mask: "h < 2147483647 \<Longrightarrow> refs_word c h AND REFS_MASK = 0 \<longleftrightarrow> refs_base c + h = 0"
proof -
  assume h: "h < 2147483647"
  have "refs_base c \<le> 1" by (cases c) simp_all
  moreover have "refs_base c = 0" if "marked c" using that by (cases c) simp_all
  moreover have "unat (refs_word c h AND REFS_MASK) = unat (refs_word c h) mod 2 ^ 31"
    using unat_mask_and [of "refs_word c h" 31] by (simp add: REFS_MASK_def mask_eq_exp_minus_1)
  ultimately have "unat (refs_word c h AND REFS_MASK) = refs_base c + h" 
    using unat_refs_word [OF h, of c] h by (auto split: if_splits)
  then show ?thesis by (auto simp: unat_eq_zero [symmetric])
qed

lemma refs_word_mark: "h < 2147483647 \<Longrightarrow> refs_word c h AND SHOULD_BE_ON_FREELIST = 0 \<longleftrightarrow> \<not> marked c"
proof -
  assume h: "h < 2147483647"
  have "refs_base c \<le> 1" by (cases c) simp_all
  moreover have "(h + 2147483648) div 2147483648 = 1" using h by (simp add: div_add_self2)
  ultimately have "bit (unat (refs_word c h)) 31 \<longleftrightarrow> marked c"
    using unat_refs_word [OF h, of c] h by (cases c) (simp_all add: bit_iff_odd)
  then have "bit (refs_word c h) 31 \<longleftrightarrow> marked c" by (simp add: bit_unsigned_iff)
  moreover have "refs_word c h AND SHOULD_BE_ON_FREELIST = 0 \<longleftrightarrow> \<not> bit (refs_word c h) 31"
  proof -
    have "SHOULD_BE_ON_FREELIST = push_bit 31 1" by (simp add: SHOULD_BE_ON_FREELIST_def)
    then show ?thesis using and_exp_eq_0_iff_not_bit [of "refs_word c h" 31] by (simp add: push_bit_eq_mult)
  qed
  ultimately show ?thesis by simp
qed

section \<open>Preservation\<close>

lemma claim_active: "claim t pc = Some (n, c) \<Longrightarrow> active c = Some t"
  by (cases pc) auto

lemma knows_claims: "knows_next pc = Some (n, h) \<Longrightarrow> refers pc = Some n \<or> (\<exists>c. claim t pc = Some (n, c))"
  by (cases pc) auto

lemma fl_invD:
  assumes "fl_inv N s st ns"
  shows "fl_chain (freeListNext (fs_list s)) (freeListHead (fs_list s)) ns" and "distinct ns" and "n \<in> set ns \<longleftrightarrow> st n = Listed"
    and "freeListRefs (fs_list s) n = refs_word (st n) (holders N (fs_pc s) n)"
    and "st n = Fresh t \<Longrightarrow> holders N (fs_pc s) n = 0" and "st n = Pending \<Longrightarrow> 0 < holders N (fs_pc s) n"
    and "fs_owner s n = Some t \<longleftrightarrow> st n = Held t"
    and "claim t (fs_pc s t) = Some (n, c) \<Longrightarrow> st n = c"
    and "active (st n) = Some t \<Longrightarrow> claim t (fs_pc s t) = Some (n, st n)"
    and "knows_next (fs_pc s t) = Some (n, h) \<Longrightarrow> freeListNext (fs_list s) n = h"
    and "pc_sane (fs_pc s t)" and "N \<le> t \<Longrightarrow> \<exists>r. fs_pc s t = Done r"
  using assms unfolding fl_inv_def by blast+

text \<open>
  One thread moves from one program point to the next and changes the standing of one node \<open>n\<close>; the other
  threads and nodes are untouched.
\<close>

lemma fl_inv_step:
  assumes inv: "fl_inv N s st ns" and t: "t < N"
    and chain: "fl_chain (freeListNext fl') (freeListHead fl') ns'" "distinct ns'" "\<forall>m. m \<in> set ns' \<longleftrightarrow> (st(n := c)) m = Listed"
    and refs: "\<forall>m. m \<noteq> n \<longrightarrow> freeListRefs fl' m = freeListRefs (fs_list s) m"
      "freeListRefs fl' n = refs_word c (holders N ((fs_pc s)(t := p)) n)"
    and refers: "\<forall>m. m \<noteq> n \<longrightarrow> (refers (fs_pc s t) = Some m \<longleftrightarrow> refers p = Some m)"
    and fresh: "\<forall>u. c = Fresh u \<longrightarrow> holders N ((fs_pc s)(t := p)) n = 0" "c = Pending \<longrightarrow> 0 < holders N ((fs_pc s)(t := p)) n"
    and own: "\<forall>m. m \<noteq> n \<longrightarrow> own' m = fs_owner s m" "\<forall>u. own' n = Some u \<longleftrightarrow> c = Held u"
    and standing: "(\<forall>m d. claim t (fs_pc s t) = Some (m, d) \<longrightarrow> m = n) \<and> active (st n) \<in> {None, Some t} \<and>
        claim t p = (if active c = None then None else Some (n, c)) \<and> active c \<in> {None, Some t} \<or>
      c = st n \<and> claim t (fs_pc s t) = None \<and> claim t p = None"
    and new: "pc_sane p"
    and nxt: "freeListNext fl' = freeListNext (fs_list s) \<or>
      holders N (fs_pc s) n = 0 \<and> active (st n) = Some t \<and> freeListNext fl' = (freeListNext (fs_list s))(n := h)"
    and knows: "\<forall>m g. knows_next p = Some (m, g) \<longrightarrow> freeListNext fl' m = g"
  shows "fl_inv N \<lparr>fs_list = fl', fs_pc = (fs_pc s)(t := p), fs_owner = own'\<rparr> (st(n := c)) ns'"
proof -
  note D = fl_invD [OF inv]
  let ?pcs = "(fs_pc s)(t := p)"
  have same: "holders N ?pcs m = holders N (fs_pc s) m" if "m \<noteq> n" for m
    using holders_upd_same [OF t, of "fs_pc s" m p] refers that by blast
  have refs': "freeListRefs fl' m = refs_word ((st(n := c)) m) (holders N ?pcs m)" for m
    using refs D(4) [of m] same [of m] by (cases "m = n") simp_all
  have fresh': "(st(n := c)) m = Fresh u \<Longrightarrow> holders N ?pcs m = 0" for m u
    using fresh(1) D(5) [of m u] same [of m] by (cases "m = n") simp_all
  have pending': "(st(n := c)) m = Pending \<Longrightarrow> 0 < holders N ?pcs m" for m
    using fresh(2) D(6) [of m] same [of m] by (cases "m = n") simp_all
  have own': "own' m = Some u \<longleftrightarrow> (st(n := c)) m = Held u" for m u
    using own D(7) [of m u] by (cases "m = n") simp_all
  have others: "claim u (fs_pc s u) \<noteq> Some (n, d)" if "u \<noteq> t" "active (st n) \<in> {None, Some t}" for u d
    using D(8) [of u n d] claim_active [of u "fs_pc s u" n d] that by auto
  have claim': "claim u (?pcs u) = Some (m, d) \<Longrightarrow> (st(n := c)) m = d" for u m d
  proof (cases "u = t")
    case True
    assume "claim u (?pcs u) = Some (m, d)"
    then show ?thesis using standing True by (auto split: if_splits)
  next
    case False
    assume "claim u (?pcs u) = Some (m, d)"
    then have "claim u (fs_pc s u) = Some (m, d)" using False by simp
    then show ?thesis using standing others [OF False, of d] D(8) [of u m d] by auto
  qed
  have active': "active ((st(n := c)) m) = Some u \<Longrightarrow> claim u (?pcs u) = Some (m, (st(n := c)) m)" for m u
  proof (cases "m = n")
    case True
    assume "active ((st(n := c)) m) = Some u"
    then show ?thesis using standing True D(9) [of n u] by (cases "u = t") auto
  next
    case False
    assume "active ((st(n := c)) m) = Some u"
    then have "claim u (fs_pc s u) = Some (m, st m)" using False D(9) [of m u] by simp
    then show ?thesis using False standing by (cases "u = t") auto
  qed
  have knows': "knows_next (?pcs u) = Some (m, g) \<Longrightarrow> freeListNext fl' m = g" for u m g
  proof (cases "u = t")
    case False
    assume k: "knows_next (?pcs u) = Some (m, g)"
    then have g: "freeListNext (fs_list s) m = g" using False D(10) [of u m g] by simp
    have "m \<noteq> n" if "holders N (fs_pc s) n = 0" "active (st n) = Some t"
    proof
      assume "m = n"
      then have "refers (fs_pc s u) = Some n" using knows_claims [of "fs_pc s u" m g u] k False others [of u] that(2) by auto
      moreover have "u < N" using D(12) [of u] k False by (cases "u < N") (auto simp: not_less)
      ultimately show False using holders_pos [of u N "fs_pc s" n] that(1) by simp
    qed
    then show ?thesis using nxt g by auto
  qed (use knows in simp)
  have "pc_sane (?pcs u)" for u using new D(11) [of u] by simp
  moreover have "N \<le> u \<Longrightarrow> \<exists>r. ?pcs u = Done r" for u using D(12) [of u] t by auto
  ultimately show ?thesis
    unfolding fl_inv_def
    using chain refs' fresh' pending' own' claim' active' knows' by (simp del: fun_upd_apply)
qed


text \<open>A thread moves and no node changes its standing.\<close>

lemma fl_inv_quiet:
  assumes inv: "fl_inv N s st ns" and t: "t < N" and p: "claim t p = claim t (fs_pc s t)" "refers p = refers (fs_pc s t)" "pc_sane p"
    and knows: "\<forall>m g. knows_next p = Some (m, g) \<longrightarrow> freeListNext (fs_list s) m = g"
  shows "fl_inv N \<lparr>fs_list = fs_list s, fs_pc = (fs_pc s)(t := p), fs_owner = fs_owner s\<rparr> st ns"
proof -
  note D = fl_invD [OF inv]
  let ?pcs = "(fs_pc s)(t := p)"
  have same: "holders N ?pcs m = holders N (fs_pc s) m" for m using holders_upd_same [OF t, of "fs_pc s" m p] p(2) by simp
  have cl: "claim u (?pcs u) = claim u (fs_pc s u)" for u using p(1) by simp
  have kn: "knows_next (?pcs u) = Some (m, g) \<Longrightarrow> freeListNext (fs_list s) m = g" for u m g
    using knows D(10) [of u m g] by (cases "u = t") simp_all
  have "pc_sane (?pcs u)" for u using p(3) D(11) [of u] by simp
  moreover have "N \<le> u \<Longrightarrow> \<exists>r. ?pcs u = Done r" for u using D(12) [of u] t by auto
  ultimately show ?thesis unfolding fl_inv_def using D(1-9) kn
    by (simp add: same cl del: fun_upd_apply)
qed

lemma fl_inv_hand_over:
  assumes inv: "fl_inv N s st ns" and own: "fs_owner s n = Some t"
  shows "fl_inv N (s\<lparr>fs_owner := (fs_owner s)(n \<mapsto> u)\<rparr>) (st(n := Held u)) ns"
proof -
  note D = fl_invD [OF inv]
  have n: "st n = Held t" using own D(7) by simp
  then have w: "refs_word (st n) h = refs_word (Held u) h" for h by (simp add: refs_word_def)
  have "claim v (fs_pc s v) \<noteq> Some (n, c)" for v c using D(8) [of v n c] claim_active [of v "fs_pc s v" n c] n by auto
  then show ?thesis unfolding fl_inv_def
    using D(1,2,10,11,12) D(3)[of n] D(4)[of n] D(3-9) n by (auto simp: w [symmetric])
qed

lemma resume_simps [simp]:
  "claim t (get_loop h) = None" "refers (get_loop h) = None" "knows_next (get_loop h) = None" "pc_sane (get_loop h)" "deliver t (get_loop h) own = own"
  "claim t (fl_resume k) = None" "refers (fl_resume k) = None" "knows_next (fl_resume k) = None" "pc_sane (fl_resume k)" "deliver t (fl_resume k) own = own"
proof -
  show g: "claim t (get_loop h) = None" "refers (get_loop h) = None" "knows_next (get_loop h) = None" "pc_sane (get_loop h)" "deliver t (get_loop h) own = own" for h
    by (cases h; simp)+
  show "claim t (fl_resume k) = None" "refers (fl_resume k) = None" "knows_next (fl_resume k) = None" "pc_sane (fl_resume k)" "deliver t (fl_resume k) own = own"
    by (cases k; simp add: g)+
qed

lemma resume_none [simp]: "get_loop h \<noteq> Done (Some n)" "fl_resume k \<noteq> Done (Some n)"
proof -
  show g: "get_loop h \<noteq> Done (Some n)" for h by (cases h) simp_all
  show "fl_resume k \<noteq> Done (Some n)" by (cases k) (simp_all add: g)
qed

lemma set_refs_simps [simp]:
  "freeListHead (set_refs n r fl) = freeListHead fl" "freeListNext (set_refs n r fl) = freeListNext fl"
  "freeListRefs (set_refs n r fl) = (freeListRefs fl)(n := r)"
  by (simp_all add: set_refs_def)

definition after :: "fl_sys \<Rightarrow> nat \<Rightarrow> fl_pc \<times> free_list \<Rightarrow> fl_sys" where
  "after s t r = \<lparr>fs_list = snd r, fs_pc = (fs_pc s)(t := fst r), fs_owner = deliver t (fst r) (fs_owner s)\<rparr>"


lemma holders_bound: "N < 2147483647 \<Longrightarrow> holders N pcs n < 2147483647"
  using holders_le [of N pcs n] by simp

lemma add_step_inv:
  assumes inv: "fl_inv N s st ns" and t: "t < N" and N: "N < 2147483647" and pc: "fs_pc s t = AddMark n"
  shows "\<exists>st' ns'. fl_inv N (after s t (add_step (fs_pc s t) (fs_list s))) st' ns'"
proof -
  note D = fl_invD [OF inv]
  let ?h = "holders N (fs_pc s) n" and ?r = "freeListRefs (fs_list s) n"
  have st: "st n = Giving t" using D(8) [of t n] pc by simp
  have r: "?r = refs_word (Giving t) ?h" using D(4) [of n] st by simp
  have z: "?r = 0 \<longleftrightarrow> ?h = 0" using refs_word_zero [OF holders_bound [OF N]] r by simp
  let ?c = "if ?r = 0 then Fresh t else Pending"
  let ?p = "if ?r = 0 then PushLoad n ToAdd else Done None"
  have h: "holders N ((fs_pc s)(t := q)) n = ?h" if "refers q = None" for q by (rule holders_upd_same [OF t]) (simp add: pc that)
  have "fl_inv N \<lparr>fs_list = set_refs n (?r + SHOULD_BE_ON_FREELIST) (fs_list s), fs_pc = (fs_pc s)(t := ?p), fs_owner = fs_owner s\<rparr>
      (st(n := ?c)) ns"
    using D(1,2) D(3) D(7) [of n] z
    by (intro fl_inv_step [OF inv t]) (auto simp: st pc h r refs_word_def)
  moreover have "deliver t ?p (fs_owner s) = fs_owner s" by simp
  ultimately show ?thesis unfolding after_def by (intro exI [of _ "st(n := ?c)"] exI [of _ ns]) (simp add: pc Let_def)
qed

lemma push_step_inv:
  assumes inv: "fl_inv N s st ns" and t: "t < N" and N: "N < 2147483647" and pc: "is_push (fs_pc s t)"
  shows "\<exists>st' ns'. fl_inv N (after s t (push_step (fs_pc s t) (fs_list s))) st' ns'"
  using pc
proof (cases "fs_pc s t")
  note D = fl_invD [OF inv]
  {
    case (PushLoad n k)
    then show ?thesis using fl_inv_quiet [OF inv t, of "PushNext n (freeListHead (fs_list s)) k"]
      unfolding after_def by auto
  next
    case (PushNext n h k)
    then have st: "st n = Fresh t" using D(8) [of t n] by simp
    have "n \<notin> set ns" using D(3) [of n] st by simp
    moreover have "holders N ((fs_pc s)(t := PushRef n h k)) n = holders N (fs_pc s) n"
      by (rule holders_upd_same [OF t]) (simp add: PushNext)
    ultimately have "fl_inv N \<lparr>fs_list = (fs_list s)\<lparr>freeListNext := (freeListNext (fs_list s))(n := h)\<rparr>,
        fs_pc = (fs_pc s)(t := PushRef n h k), fs_owner = fs_owner s\<rparr> (st(n := Fresh t)) ns"
      using D(1,2) D(3) D(4) [of n] D(5) [of n t] D(7) [of n] st
      by (intro fl_inv_step [OF inv t, where h = h]) (auto simp: PushNext)
    then show ?thesis unfolding after_def by (auto simp: PushNext)
  next
    case (PushRef n h k)
    then have st: "st n = Fresh t" using D(8) [of t n] by simp
    have "holders N ((fs_pc s)(t := PushCas n h k)) n = 0"
      using holders_upd_same [OF t, of "fs_pc s" n "PushCas n h k"] PushRef D(5) [OF st] by simp
    then have "fl_inv N \<lparr>fs_list = set_refs n 1 (fs_list s), fs_pc = (fs_pc s)(t := PushCas n h k), fs_owner = fs_owner s\<rparr>
        (st(n := Tentative t)) ns"
      using D(1,2) D(3) D(7) [of n] D(10) [of t] st
      by (intro fl_inv_step [OF inv t]) (auto simp: PushRef refs_word_def)
    then show ?thesis unfolding after_def by (auto simp: PushRef)
  next
    case (PushCas n h k)
    then have st: "st n = Tentative t" using D(8) [of t n] by simp
    have n: "n \<notin> set ns" using D(3) [of n] st by simp
    show ?thesis
    proof (cases "freeListHead (fs_list s) = h")
      case False
      then show ?thesis using fl_inv_quiet [OF inv t, of "PushBack n (freeListHead (fs_list s)) k"] PushCas
        unfolding after_def by auto
    next
      case True
      have "holders N ((fs_pc s)(t := fl_resume k)) n = holders N (fs_pc s) n"
        by (rule holders_upd_same [OF t]) (simp add: PushCas)
      moreover have "freeListNext (fs_list s) n = h" using D(10) [of t n h] PushCas by simp
      ultimately have "fl_inv N \<lparr>fs_list = (fs_list s)\<lparr>freeListHead := Some n\<rparr>, fs_pc = (fs_pc s)(t := fl_resume k), fs_owner = fs_owner s\<rparr>
          (st(n := Listed)) (n # ns)"
        using D(1,2) D(3) D(4) [of n] D(7) [of n] st n True
        by (intro fl_inv_step [OF inv t]) (auto simp: PushCas refs_word_def)
      then show ?thesis unfolding after_def using True by (auto simp: PushCas)
    qed
  next
    case (PushBack n h k)
    let ?h = "holders N (fs_pc s) n" and ?r = "freeListRefs (fs_list s) n"
    have st: "st n = Tentative t" using D(8) [of t n] PushBack by simp
    have r: "?r = refs_word (Tentative t) ?h" using D(4) [of n] st by simp
    have z: "?r = 1 \<longleftrightarrow> ?h = 0" using refs_word_eq [OF holders_bound [OF N]] r by simp
    let ?c = "if ?r = 1 then Fresh t else Pending"
    let ?p = "if ?r = 1 then PushNext n h k else fl_resume k"
    have h: "holders N ((fs_pc s)(t := q)) n = ?h" if "refers q = None" for q by (rule holders_upd_same [OF t]) (simp add: PushBack that)
    have "fl_inv N \<lparr>fs_list = set_refs n (?r + (SHOULD_BE_ON_FREELIST - 1)) (fs_list s), fs_pc = (fs_pc s)(t := ?p), fs_owner = fs_owner s\<rparr>
        (st(n := ?c)) ns"
      using D(1,2) D(3) D(7) [of n] z
      by (intro fl_inv_step [OF inv t]) (auto simp: st PushBack h r refs_word_def)
    moreover have "deliver t ?p (fs_owner s) = fs_owner s" by simp
    ultimately show ?thesis unfolding after_def by (intro exI [of _ "st(n := ?c)"] exI [of _ ns]) (simp add: PushBack Let_def)
  }
qed simp_all

lemma get_step_inv:
  assumes inv: "fl_inv N s st ns" and t: "t < N" and N: "N < 2147483647"
    and pc: "\<not> is_push (fs_pc s t)" "\<forall>r. fs_pc s t \<noteq> Done r" "\<forall>n. fs_pc s t \<noteq> AddMark n"
  shows "\<exists>st' ns'. fl_inv N (after s t (get_step (fs_pc s t) (fs_list s))) st' ns'"
  using pc
proof (cases "fs_pc s t")
  note D = fl_invD [OF inv]
  {
    case GetHead
    then show ?thesis using fl_inv_quiet [OF inv t, of "get_loop (freeListHead (fs_list s))"] unfolding after_def by auto
  next
    case (GetRefs n)
    have "fl_inv N \<lparr>fs_list = fs_list s, fs_pc = (fs_pc s)(t := p), fs_owner = fs_owner s\<rparr> st ns"
      if "p = GetHead \<or> (\<exists>r. p = GetInc n r \<and> r AND REFS_MASK \<noteq> 0)" for p
      by (rule fl_inv_quiet [OF inv t]) (use that in \<open>auto simp: GetRefs\<close>)
    then show ?thesis unfolding after_def by (intro exI [of _ st] exI [of _ ns]) (simp add: GetRefs Let_def)
  next
    case (GetInc n r)
    show ?thesis
    proof (cases "freeListRefs (fs_list s) n = r")
      case False
      then show ?thesis using fl_inv_quiet [OF inv t, of GetHead] GetInc unfolding after_def by auto
    next
      case True
      have fresh: "st n \<noteq> Fresh u" for u
        using D(11) [of t] D(4) [of n] D(5) [of n u] refs_word_mask [OF holders_bound [OF N], of "Fresh u" "fs_pc s" n] True
        by (auto simp: GetInc)
      have "holders N ((fs_pc s)(t := GetNext n)) n = holders N (fs_pc s) n + 1"
        by (rule holders_upd_inc [OF t]) (simp_all add: GetInc)
      moreover have "r + 1 = refs_word (st n) (holders N (fs_pc s) n + 1)"
        using D(4) [of n] True by (simp add: refs_word_def add_ac)
      ultimately have "fl_inv N \<lparr>fs_list = set_refs n (r + 1) (fs_list s), fs_pc = (fs_pc s)(t := GetNext n), fs_owner = fs_owner s\<rparr>
          (st(n := st n)) ns"
        using D(1,2) by (intro fl_inv_step [OF inv t]) (simp_all add: GetInc fresh D(3) D(7))
      then show ?thesis unfolding after_def using True by (auto simp: GetInc)
    qed
  next
    case (GetNext n)
    have "fl_inv N \<lparr>fs_list = fs_list s, fs_pc = (fs_pc s)(t := GetCas n (freeListNext (fs_list s) n)), fs_owner = fs_owner s\<rparr> st ns"
      by (rule fl_inv_quiet [OF inv t]) (simp_all add: GetNext)
    then show ?thesis unfolding after_def by (intro exI [of _ st] exI [of _ ns]) (simp add: GetNext)
  next
    case (GetCas n nx)
    show ?thesis
    proof (cases "freeListHead (fs_list s) = Some n")
      case False
      then show ?thesis using fl_inv_quiet [OF inv t, of "GetDrop n (freeListHead (fs_list s))"] GetCas unfolding after_def by auto
    next
      case True
      then obtain ms where ms: "ns = n # ms" "fl_chain (freeListNext (fs_list s)) (freeListNext (fs_list s) n) ms"
        using D(1) by (auto simp: fl_chain_Some)
      have st: "st n = Listed" using D(3) [of n] ms(1) by simp
      have "holders N ((fs_pc s)(t := GetAssert n)) n = holders N (fs_pc s) n"
        by (rule holders_upd_same [OF t]) (simp add: GetCas)
      moreover have "freeListNext (fs_list s) n = nx" using D(10) [of t n nx] GetCas by simp
      ultimately have "fl_inv N \<lparr>fs_list = (fs_list s)\<lparr>freeListHead := nx\<rparr>, fs_pc = (fs_pc s)(t := GetAssert n), fs_owner = fs_owner s\<rparr>
          (st(n := Taken t)) ms"
        using D(2) D(3) D(4) [of n] D(7) [of n] st ms
        by (intro fl_inv_step [OF inv t]) (auto simp: GetCas refs_word_def)
      then show ?thesis unfolding after_def using True by (auto simp: GetCas)
    qed
  next
    case (GetAssert n)
    have "st n = Taken t" using D(8) [of t n] GetAssert by simp
    then have "freeListRefs (fs_list s) n AND SHOULD_BE_ON_FREELIST = 0"
      using D(4) [of n] refs_word_mark [OF holders_bound [OF N]] by simp
    then show ?thesis using fl_inv_quiet [OF inv t, of "GetTake n"] GetAssert unfolding after_def by auto
  next
    case (GetTake n)
    have st: "st n = Taken t" using D(8) [of t n] GetTake by simp
    have "holders N (fs_pc s) n = holders N ((fs_pc s)(t := Done (Some n))) n + 1"
      by (rule holders_upd_dec [OF t]) (simp_all add: GetTake)
    then have "fl_inv N \<lparr>fs_list = set_refs n (freeListRefs (fs_list s) n - 2) (fs_list s), fs_pc = (fs_pc s)(t := Done (Some n)),
        fs_owner = (fs_owner s)(n \<mapsto> t)\<rparr> (st(n := Held t)) ns"
      using D(1,2) D(3) D(4) [of n] D(7) st
      by (intro fl_inv_step [OF inv t]) (auto simp: GetTake refs_word_def)
    then show ?thesis unfolding after_def by (auto simp: GetTake)
  next
    case (GetDrop n h)
    let ?h = "holders N (fs_pc s) n" and ?r = "freeListRefs (fs_list s) n"
    have r: "?r = refs_word (st n) ?h" using D(4) [of n] .
    let ?last = "?r = SHOULD_BE_ON_FREELIST + 1"
    have z: "?last \<longleftrightarrow> marked (st n) \<and> refs_base (st n) + ?h = 1"
      using refs_word_eq [OF holders_bound [OF N]] holders_bound [OF N, of "fs_pc s" n] r
      by (cases "st n") (simp_all add: SHOULD_BE_ON_FREELIST_def)
    let ?p = "if ?last then PushLoad n (ToLoop h) else get_loop h"
    let ?c = "if ?last then Fresh t else st n"
    have dec: "?h = holders N ((fs_pc s)(t := q)) n + 1" if "refers q = None" for q
      by (rule holders_upd_dec [OF t]) (simp_all add: GetDrop that)
    have pos: "0 < ?h" by (rule holders_pos [OF t]) (simp add: GetDrop)
    have pend: "?last \<Longrightarrow> st n = Pending" using z pos D(5) [of n] by (cases "st n") simp_all
    have "fl_inv N \<lparr>fs_list = set_refs n (?r - 1) (fs_list s), fs_pc = (fs_pc s)(t := ?p), fs_owner = fs_owner s\<rparr>
        (st(n := ?c)) ns"
    proof (cases ?last)
      case True
      have p: "st n = Pending" "?h = 1" using pend z True by simp_all
      have h': "holders N ((fs_pc s)(t := PushLoad n (ToLoop h))) n = 0" using dec [of "PushLoad n (ToLoop h)"] p(2) by simp
      then have "?r - 1 = refs_word (Fresh t) 0" using True by (simp add: refs_word_def)
      then show ?thesis using D(1,2) True h'
        by (intro fl_inv_step [OF inv t]) (simp_all add: GetDrop p D(3) D(7))
    next
      case False
      let ?h' = "holders N ((fs_pc s)(t := get_loop h)) n"
      have dec': "?h = ?h' + 1" using dec by simp
      have r': "?r - 1 = refs_word (st n) ?h'" unfolding r dec' by (simp add: refs_word_def)
      have "st n \<noteq> Fresh u" for u using D(5) [of n u] pos by auto
      moreover have "st n = Pending \<Longrightarrow> 0 < ?h'" using z False dec' by auto
      ultimately show ?thesis using D(1,2) False r'
        by (intro fl_inv_step [OF inv t]) (simp_all add: GetDrop D(3) D(7))
    qed
    moreover have "deliver t ?p (fs_owner s) = fs_owner s" by simp
    ultimately show ?thesis unfolding after_def by (intro exI [of _ "st(n := ?c)"] exI [of _ ns]) (simp add: GetDrop Let_def)
  next
    case Fault
    then show ?thesis using D(11) [of t] by simp
  }
qed simp_all

lemma fl_sys_eq:
  "s\<lparr>fs_pc := p, fs_owner := own\<rparr> = \<lparr>fs_list = fs_list s, fs_pc = p, fs_owner = own\<rparr>"
  "s\<lparr>fs_pc := p\<rparr> = \<lparr>fs_list = fs_list s, fs_pc = p, fs_owner = fs_owner s\<rparr>"
  by (cases s; simp)+

lemma fl_conc_inv:
  assumes step: "fl_conc N s s'" and inv: "fl_inv N s st ns" and N: "N < 2147483647"
  shows "\<exists>st' ns'. fl_inv N s' st' ns'"
  using step
proof cases
  case (call_add t r n)
  note D = fl_invD [OF inv]
  have st: "st n = Held t" using call_add D(7) by simp
  have h: "holders N ((fs_pc s)(t := AddMark n)) n = holders N (fs_pc s) n"
    by (rule holders_upd_same) (simp_all add: call_add)
  have "fl_inv N \<lparr>fs_list = fs_list s, fs_pc = (fs_pc s)(t := AddMark n), fs_owner = (fs_owner s)(n := None)\<rparr> (st(n := Giving t)) ns"
    using D(1,2) D(4) [of n] call_add(3)
    by (intro fl_inv_step [OF inv call_add(2)]) (simp_all add: call_add(3) st h D(3) D(7) refs_word_def)
  then show ?thesis using call_add(1) by (metis fl_sys_eq)
next
  case (call_get t r)
  then show ?thesis using fl_inv_quiet [OF inv call_get(2), of GetHead] by (auto simp: fl_sys_eq)
next
  case (hand_over t t' n)
  then show ?thesis using fl_inv_hand_over [OF inv hand_over(4), of t'] by auto
next
  case (run t pc' fl')
  then have s': "s' = after s t (fl_step (fs_pc s t) (fs_list s))" by (simp add: after_def)
  show ?thesis
  proof (cases "\<exists>n. fs_pc s t = AddMark n")
    case True
    then obtain n where n: "fs_pc s t = AddMark n" by blast
    show ?thesis unfolding s' using add_step_inv [OF inv run(2) N n] by (simp add: fl_step_def n)
  next
    case False
    then have "fl_step (fs_pc s t) (fs_list s) = (if is_push (fs_pc s t) then push_step (fs_pc s t) (fs_list s) else get_step (fs_pc s t) (fs_list s))"
      by (cases "fs_pc s t") (simp_all add: fl_step_def)
    then show ?thesis unfolding s'
      using push_step_inv [OF inv run(2) N] get_step_inv [OF inv run(2) N] run(3) False by auto
  qed
qed

lemma fl_start_inv:
  assumes "fl_start N s"
  shows "fl_inv N s (\<lambda>n. Held (the (fs_owner s n))) []"
proof -
  have own: "\<exists>t. fs_owner s n = Some t" for n using assms by (auto simp: fl_start_def)
  have "holders N (fs_pc s) n = 0" for n using assms by (simp add: fl_start_def holders_def)
  then show ?thesis using assms own by (auto simp: fl_inv_def fl_start_def new_free_list_def refs_word_def)
qed

lemma fl_reachable_inv:
  assumes "(fl_conc N)\<^sup>*\<^sup>* s0 s" and "fl_start N s0" and "N < 2147483647"
  shows "\<exists>st ns. fl_inv N s st ns"
  using assms(1)
proof (induction rule: rtranclp_induct)
  case base
  then show ?case using fl_start_inv [OF assms(2)] by blast
next
  case (step s s')
  then show ?case using fl_conc_inv assms(3) by blast
qed

section \<open>Executions\<close>

text \<open>A schedule as a function, to evaluate examples.\<close>

datatype fl_action = ActAdd nat nat | ActGet nat | ActRun nat

definition idle :: "fl_pc \<Rightarrow> bool" where
  "idle pc \<longleftrightarrow> (case pc of Done r \<Rightarrow> True | _ \<Rightarrow> False)"

fun fl_act :: "nat \<Rightarrow> fl_action \<Rightarrow> fl_sys \<Rightarrow> fl_sys" where
  "fl_act N (ActAdd t n) s =
     (if t < N \<and> idle (fs_pc s t) \<and> fs_owner s n = Some t
      then s\<lparr>fs_pc := (fs_pc s)(t := AddMark n), fs_owner := (fs_owner s)(n := None)\<rparr> else s)"
| "fl_act N (ActGet t) s = (if t < N \<and> idle (fs_pc s t) then s\<lparr>fs_pc := (fs_pc s)(t := GetHead)\<rparr> else s)"
| "fl_act N (ActRun t) s = (if t < N \<and> \<not> idle (fs_pc s t) then after s t (fl_step (fs_pc s t) (fs_list s)) else s)"

lemma fl_act_reach: "(fl_conc N)\<^sup>*\<^sup>* s (fl_act N a s)"
proof (cases a)
  case (ActAdd t n)
  then show ?thesis by (auto simp: idle_def split: fl_pc.splits intro: fl_conc.call_add)
next
  case (ActGet t)
  then show ?thesis by (auto simp: idle_def split: fl_pc.splits intro: fl_conc.call_get)
next
  case (ActRun t)
  have "fl_conc N s (after s t (fl_step (fs_pc s t) (fs_list s)))" if "t < N" "\<not> idle (fs_pc s t)"
    unfolding after_def using that by (intro fl_conc.run) (auto simp: idle_def split: fl_pc.splits)
  then show ?thesis using ActRun by auto
qed

definition fl_exec :: "nat \<Rightarrow> fl_action list \<Rightarrow> fl_sys \<Rightarrow> fl_sys" where
  "fl_exec N as s = fold (fl_act N) as s"

lemma fl_exec_reach: "(fl_conc N)\<^sup>*\<^sup>* s (fl_exec N as s)"
  unfolding fl_exec_def
proof (induction as arbitrary: s)
  case (Cons a as)
  have "(fl_conc N)\<^sup>*\<^sup>* s (fl_act N a s)" by (rule fl_act_reach)
  also have "(fl_conc N)\<^sup>*\<^sup>* (fl_act N a s) (fold (fl_act N) as (fl_act N a s))" by (rule Cons.IH)
  finally show ?case by simp
qed simp

definition fl_example :: fl_sys where
  "fl_example = \<lparr>fs_list = new_free_list, fs_pc = (\<lambda>_. Done None), fs_owner = (\<lambda>n. Some (if n = 7 then 1 else 0))\<rparr>"

lemma fl_example_start: "fl_start 2 fl_example"
  by (simp add: fl_start_def fl_example_def)

text \<open>
  Threads 0 and 1 add the nodes 5 and 7 while they interleave; then thread 1 takes a node while thread 0
  is about to remove the same one.
\<close>

definition fl_schedule :: "fl_action list" where
  "fl_schedule = [ActAdd 0 5, ActAdd 1 7] @ replicate 5 (ActRun 0) @ replicate 9 (ActRun 1) @ [ActGet 0, ActGet 1] @
     replicate 4 (ActRun 0) @ replicate 7 (ActRun 1)"

section \<open>Results\<close>

text \<open>C21: 
  The free list under concurrent \<^verbatim>\<open>add\<close> and \<^verbatim>\<open>try_get\<close> calls of fewer than \<open>2\<^sup>3\<^sup>1 - 1\<close> threads, in every reachable
  state: the assertion in \<^verbatim>\<open>try_get\<close> has not failed; the list is a finite chain without repetition whose
  nodes no thread holds; a node about to be handed out is with no other thread and is off the list, and
  no two threads are about to hand out the same node.
\<close>
theorem freelist_exclusive:
  assumes "N < 2147483647" and "fl_start N s0" and "(fl_conc N)\<^sup>*\<^sup>* s0 s"
  shows "(\<forall>t. fs_pc s t \<noteq> Fault) \<and>
    (\<exists>ns. fl_chain (freeListNext (fs_list s)) (freeListHead (fs_list s)) ns \<and> distinct ns \<and>
      (\<forall>n. n \<in> set ns \<longrightarrow> fs_owner s n = None) \<and>
      (\<forall>t n fl'. fl_step (fs_pc s t) (fs_list s) = (Done (Some n), fl') \<and> \<not> idle (fs_pc s t) \<longrightarrow>
        fs_owner s n = None \<and> n \<notin> set ns \<and> (\<forall>u. fs_pc s u = fs_pc s t \<longrightarrow> u = t)))"
proof -
  obtain st ns where inv: "fl_inv N s st ns" using fl_reachable_inv [OF assms(3,2,1)] by blast
  note D = fl_invD [OF inv]
  have fault: "fs_pc s t \<noteq> Fault" for t using D(11) [of t] by auto
  have held: "fs_owner s n = None" if "\<forall>t. st n \<noteq> Held t" for n using D(7) [of n] that by (cases "fs_owner s n") auto
  have take: "fs_pc s t = GetTake n" if "fl_step (fs_pc s t) (fs_list s) = (Done (Some n), fl')" "\<not> idle (fs_pc s t)" for t n fl'
    using that by (cases "fs_pc s t") (auto simp: fl_step_def idle_def Let_def split: if_splits)
  have "fs_owner s n = None \<and> n \<notin> set ns \<and> (\<forall>u. fs_pc s u = fs_pc s t \<longrightarrow> u = t)"
    if "fl_step (fs_pc s t) (fs_list s) = (Done (Some n), fl')" "\<not> idle (fs_pc s t)" for t n fl'
  proof -
    have pc: "fs_pc s t = GetTake n" by (rule take [OF that])
    then have "st n = Taken t" using D(8) [of t n] by simp
    moreover have "st n = Taken u" if "fs_pc s u = fs_pc s t" for u using D(8) [of u n] that pc by simp
    ultimately show ?thesis using held [of n] D(3) [of n] by (metis custody.distinct custody.inject(5))
  qed
  moreover have "n \<in> set ns \<longrightarrow> fs_owner s n = None" for n using held [of n] D(3) [of n] by auto
  ultimately show ?thesis using D(1,2) fault by (intro conjI exI [of _ ns] allI) blast+
qed

text \<open>C22: 
  Nothing is lost: when no call is under way, every node is either with a thread or on the list, and not both.
\<close>
theorem freelist_nothing_lost:
  assumes "N < 2147483647" and "fl_start N s0" and "(fl_conc N)\<^sup>*\<^sup>* s0 s" and "\<forall>t. idle (fs_pc s t)"
  shows "\<exists>ns. fl_chain (freeListNext (fs_list s)) (freeListHead (fs_list s)) ns \<and> distinct ns \<and>
    (\<forall>n. (n \<in> set ns) = (fs_owner s n = None)) \<and> (\<forall>n. freeListRefs (fs_list s) n = (if n \<in> set ns then 1 else 0))"
proof -
  obtain st ns where inv: "fl_inv N s st ns" using fl_reachable_inv [OF assms(3,2,1)] by blast
  note D = fl_invD [OF inv]
  have pc: "claim t (fs_pc s t) = None \<and> refers (fs_pc s t) = None" for t
    using assms(4) [rule_format, of t] by (cases "fs_pc s t") (simp_all add: idle_def)
  then have h: "holders N (fs_pc s) n = 0" for n by (simp add: holders_def)
  have st: "st n = Listed \<or> (\<exists>t. st n = Held t)" for n
    using D(6) [of n] D(9) [of n] h [of n] pc by (cases "st n") auto
  have own: "(n \<in> set ns) = (fs_owner s n = None)" for n using st [of n] D(3) [of n] D(7) [of n]
    by (metis custody.distinct(9) not_None_eq)
  moreover have "freeListRefs (fs_list s) n = (if n \<in> set ns then 1 else 0)" for n
    using D(4) [of n] st [of n] D(3) [of n] by (auto simp: h refs_word_def)
  ultimately show ?thesis using D(1,2) by blast
qed


text \<open>Witness of \<open>freelist_exclusive\<close>: thread 1 has been given node 7 while thread 0 has lost the race for it.\<close>
theorem freelist_exclusive_witness:
  "(let s = fl_exec 2 fl_schedule fl_example
    in fs_pc s 1 = Done (Some 7) \<and> fs_owner s 7 = Some 1 \<and> fs_pc s 0 \<noteq> Fault)"
proof -
  have "fs_pc (fl_exec 2 fl_schedule fl_example) 0 \<noteq> Fault"
    using freelist_exclusive [of 2, OF _ fl_example_start fl_exec_reach [of 2 fl_example fl_schedule]] by simp
  moreover have "fs_pc (fl_exec 2 fl_schedule fl_example) 1 = Done (Some 7)" by code_simp
  moreover have "fs_owner (fl_exec 2 fl_schedule fl_example) 7 = Some 1" by code_simp
  ultimately show ?thesis by (simp add: Let_def)
qed

lemma fl_outside_idle:
  assumes "(fl_conc N)\<^sup>*\<^sup>* s0 s" and "fl_start N s0" and "N < 2147483647" and "N \<le> t"
  shows "idle (fs_pc s t)"
proof -
  obtain st ns where "fl_inv N s st ns" using fl_reachable_inv [OF assms(1-3)] by blast
  then show ?thesis using fl_invD(12) [of N s st ns t] assms(4) by (auto simp: idle_def)
qed

definition fl_quiet_schedule :: "fl_action list" where
  "fl_quiet_schedule = fl_schedule @ replicate 12 (ActRun 0)"

text \<open>Witness of \<open>freelist_nothing_lost\<close>: once both calls have returned, the threads hold a node each and the list is empty.\<close>
theorem freelist_nothing_lost_witness:
  "let s = fl_exec 2 fl_quiet_schedule fl_example
   in fs_owner s 5 = Some 0 \<and> fs_owner s 7 = Some 1 \<and>
     (\<exists>ns. fl_chain (freeListNext (fs_list s)) (freeListHead (fs_list s)) ns \<and> distinct ns \<and>
       (\<forall>n. (n \<in> set ns) = (fs_owner s n = None)) \<and> (\<forall>n. freeListRefs (fs_list s) n = (if n \<in> set ns then 1 else 0)))"
proof -
  let ?s = "fl_exec 2 fl_quiet_schedule fl_example"
  have "idle (fs_pc ?s t)" for t
  proof -
    consider "t = 0" | "t = 1" | "2 \<le> t" by linarith
    then show ?thesis
    proof cases
      case 1
      have "idle (fs_pc ?s 0)" by code_simp
      then show ?thesis using 1 by simp
    next
      case 2
      have "idle (fs_pc ?s 1)" by code_simp
      then show ?thesis using 2 by simp
    next
      case 3
      then show ?thesis by (intro fl_outside_idle [OF fl_exec_reach fl_example_start]) simp_all
    qed
  qed
  moreover have "fs_owner ?s 5 = Some 0" "fs_owner ?s 7 = Some 1" by code_simp+
  ultimately show ?thesis
    using freelist_nothing_lost [of 2, OF _ fl_example_start fl_exec_reach [of 2 fl_example fl_quiet_schedule]]
    by (simp only: Let_def) simp
qed

section \<open>Undisturbed calls\<close>

lemma fl_run_simps [simp]:
  "fl_run (Done r) fl = Some (r, fl)"
  "fl_run Fault fl = None"
  "fl_run (AddMark n) fl = fl_run (fst (add_step (AddMark n) fl)) (snd (add_step (AddMark n) fl))"
  "fl_run (PushLoad n k) fl = fl_run (PushNext n (freeListHead fl) k) fl"
  "fl_run (PushNext n h k) fl = fl_run (PushRef n h k) (fl\<lparr>freeListNext := (freeListNext fl)(n := h)\<rparr>)"
  "fl_run (PushRef n h k) fl = fl_run (PushCas n h k) (set_refs n 1 fl)"
  "freeListHead fl = h \<Longrightarrow> fl_run (PushCas n h k) fl = fl_run (fl_resume k) (fl\<lparr>freeListHead := Some n\<rparr>)"
  "fl_run GetHead fl = fl_run (get_loop (freeListHead fl)) fl"
  "fl_run (GetRefs n) fl = fl_run (fst (get_step (GetRefs n) fl)) fl"
  "freeListRefs fl n = w \<Longrightarrow> fl_run (GetInc n w) fl = fl_run (GetNext n) (set_refs n (w + 1) fl)"
  "fl_run (GetNext n) fl = fl_run (GetCas n (freeListNext fl n)) fl"
  "freeListHead fl = Some n \<Longrightarrow> fl_run (GetCas n nx) fl = fl_run (GetAssert n) (fl\<lparr>freeListHead := nx\<rparr>)"
  "freeListRefs fl n AND SHOULD_BE_ON_FREELIST = 0 \<Longrightarrow> fl_run (GetAssert n) fl = fl_run (GetTake n) fl"
  "fl_run (GetTake n) fl = Some (Some n, set_refs n (freeListRefs fl n - 2) fl)"
  by (subst fl_run.simps, simp add: fl_step_def Let_def)+

text \<open>A list between calls: its nodes have the list's reference only.\<close>

definition fl_listed :: "free_list \<Rightarrow> nat list \<Rightarrow> bool" where
  "fl_listed fl ns \<longleftrightarrow> fl_chain (freeListNext fl) (freeListHead fl) ns \<and> distinct ns \<and>
     (\<forall>n. freeListRefs fl n = (if n \<in> set ns then 1 else 0))"

lemma fl_listed_new: "fl_listed new_free_list []"
  by (simp add: fl_listed_def new_free_list_def)

lemma freelist_add_listed:
  assumes "fl_listed fl ns" and "n \<notin> set ns"
  shows "\<exists>fl'. freelist_add n fl = Some fl' \<and> fl_listed fl' (n # ns)"
  using assms by (auto simp: freelist_add_def fl_listed_def Let_def)

lemma freelist_try_get_empty: "fl_listed fl [] \<Longrightarrow> freelist_try_get fl = Some (None, fl)"
  by (simp add: freelist_try_get_def fl_listed_def)

lemma freelist_try_get_listed:
  assumes "fl_listed fl (n # ns)"
  shows "\<exists>fl'. freelist_try_get fl = Some (Some n, fl') \<and> fl_listed fl' ns"
  using assms by (auto simp: freelist_try_get_def fl_listed_def Let_def REFS_MASK_def SHOULD_BE_ON_FREELIST_def)

end
