(* ===== verification/MpmcBlock.thy ===== *)
theory MpmcBlock
  imports MpmcFreeList "HOL-Library.Monad_Syntax"
begin

text \<open>
  Blocks and the pool they come from (\<^verbatim>\<open>src/lib/concurrentqueue/concurrentqueue.h\<close>: \<^verbatim>\<open>Block\<close>, \<^verbatim>\<open>requisition_block\<close> and the
  functions it calls). A slot is \<open>None\<close> while no object is constructed in it, an empty flag \<open>None\<close> while it
  is uninitialised; a function returns \<open>None\<close> where the code fails an assertion or has undefined behaviour.
\<close>

definition nth_opt :: "'a list \<Rightarrow> nat \<Rightarrow> 'a option" where
  "nth_opt xs i = (if i < length xs then Some (xs ! i) else None)"

definition assert_that :: "bool \<Rightarrow> unit option" where
  "assert_that b = (if b then Some () else None)"

lemma nth_opt_Some [simp]: "i < length xs \<Longrightarrow> nth_opt xs i = Some (xs ! i)"
  by (simp add: nth_opt_def)

lemma assert_that_True [simp]: "assert_that True = Some ()"
  by (simp add: assert_that_def)

section \<open>Blocks\<close>

datatype InnerQueueContext = implicit_context | explicit_context

record 'a cq_block =
  elements :: "'a option list"
  elementsCompletelyDequeued :: u64
  emptyFlags :: "bool option list"
  dynamicallyAllocated :: bool

definition EXPLICIT_BLOCK_EMPTY_COUNTER_THRESHOLD :: u64 where "EXPLICIT_BLOCK_EMPTY_COUNTER_THRESHOLD = 32"

definition new_cq_block :: "'a cq_block" where
  "new_cq_block = \<lparr>elements = replicate (unat BLOCK_SIZE) None, elementsCompletelyDequeued = 0,
     emptyFlags = replicate (if BLOCK_SIZE \<le> EXPLICIT_BLOCK_EMPTY_COUNTER_THRESHOLD then unat BLOCK_SIZE else 1) None,
     dynamicallyAllocated = True\<rparr>"

definition by_flags :: "InnerQueueContext \<Rightarrow> bool" where
  "by_flags context = (context = explicit_context \<and> BLOCK_SIZE \<le> EXPLICIT_BLOCK_EMPTY_COUNTER_THRESHOLD)"

text \<open>The loop over the flags stops at the first one that is not set.\<close>

fun all_flags :: "bool option list \<Rightarrow> bool option" where
  "all_flags [] = Some True"
| "all_flags (f # fs) = do { b \<leftarrow> f; if b then all_flags fs else Some False }"

definition is_empty :: "InnerQueueContext \<Rightarrow> 'a cq_block \<Rightarrow> bool option" where
  "is_empty context b =
     (if by_flags context then all_flags (emptyFlags b)
      else if elementsCompletelyDequeued b = BLOCK_SIZE then Some True
      else do { assert_that (elementsCompletelyDequeued b \<le> BLOCK_SIZE); Some False })"

definition slot_of :: "u64 \<Rightarrow> nat" where
  "slot_of i = unat (i AND (BLOCK_SIZE - 1))"

definition set_empty :: "InnerQueueContext \<Rightarrow> u64 \<Rightarrow> 'a cq_block \<Rightarrow> (bool \<times> 'a cq_block) option" where
  "set_empty context i b =
     (if by_flags context
      then do {
        let k = unat BLOCK_SIZE - 1 - slot_of i;
        f \<leftarrow> nth_opt (emptyFlags b) k;
        v \<leftarrow> f;
        assert_that (\<not> v);
        Some (False, b\<lparr>emptyFlags := (emptyFlags b)[k := Some True]\<rparr>)
      }
      else do {
        let prevVal = elementsCompletelyDequeued b;
        assert_that (prevVal < BLOCK_SIZE);
        Some (prevVal = BLOCK_SIZE - 1, b\<lparr>elementsCompletelyDequeued := prevVal + 1\<rparr>)
      })"

text \<open>The loop of \<^verbatim>\<open>set_many_empty\<close> over the flags from index \<open>i\<close>.\<close>

fun set_flags :: "nat \<Rightarrow> nat \<Rightarrow> bool option list \<Rightarrow> bool option list option" where
  "set_flags i 0 fs = Some fs"
| "set_flags i (Suc count) fs =
     do { f \<leftarrow> nth_opt fs i; v \<leftarrow> f; assert_that (\<not> v); set_flags (Suc i) count (fs[i := Some True]) }"

definition set_many_empty :: "InnerQueueContext \<Rightarrow> u64 \<Rightarrow> u64 \<Rightarrow> 'a cq_block \<Rightarrow> (bool \<times> 'a cq_block) option" where
  "set_many_empty context i count b =
     (if by_flags context
      then do {
        fs \<leftarrow> set_flags (unat (BLOCK_SIZE - 1 - (i AND (BLOCK_SIZE - 1)) - count + 1)) (unat count) (emptyFlags b);
        Some (False, b\<lparr>emptyFlags := fs\<rparr>)
      }
      else do {
        let prevVal = elementsCompletelyDequeued b;
        assert_that (prevVal + count \<le> BLOCK_SIZE);
        Some (prevVal + count = BLOCK_SIZE, b\<lparr>elementsCompletelyDequeued := prevVal + count\<rparr>)
      })"

definition set_all_empty :: "InnerQueueContext \<Rightarrow> 'a cq_block \<Rightarrow> 'a cq_block" where
  "set_all_empty context b =
     (if by_flags context then b\<lparr>emptyFlags := replicate (unat BLOCK_SIZE) (Some True)\<rparr>
      else b\<lparr>elementsCompletelyDequeued := BLOCK_SIZE\<rparr>)"

definition reset_empty :: "InnerQueueContext \<Rightarrow> 'a cq_block \<Rightarrow> 'a cq_block" where
  "reset_empty context b =
     (if by_flags context then b\<lparr>emptyFlags := replicate (unat BLOCK_SIZE) (Some False)\<rparr>
      else b\<lparr>elementsCompletelyDequeued := 0\<rparr>)"

text \<open>Constructing an object in the slot of an index, and reading one.\<close>

definition put_elem :: "u64 \<Rightarrow> 'a \<Rightarrow> 'a cq_block \<Rightarrow> 'a cq_block" where
  "put_elem i x b = b\<lparr>elements := (elements b)[slot_of i := Some x]\<rparr>"

definition destroy_elem :: "u64 \<Rightarrow> 'a cq_block \<Rightarrow> 'a cq_block" where
  "destroy_elem i b = b\<lparr>elements := (elements b)[slot_of i := None]\<rparr>"

definition get_elem :: "u64 \<Rightarrow> 'a cq_block \<Rightarrow> 'a option" where
  "get_elem i b = do { e \<leftarrow> nth_opt (elements b) (slot_of i); e }"

lemma slot_of_nat: "slot_of (word_of_nat i) = i mod 32"
proof -
  have "(31 :: u64) = mask 5" by (simp add: mask_eq_exp_minus_1)
  then have "slot_of (word_of_nat i) = i mod 2 ^ 64 mod 2 ^ 5"
    unfolding slot_of_def BLOCK_SIZE_def using unat_mask_and [of "word_of_nat i :: u64" 5] by (simp add: unat_word_of_nat)
  also have "\<dots> = i mod 2 ^ 5" by (rule mod_mod_cancel) (simp add: le_imp_power_dvd)
  finally show ?thesis by simp
qed

lemma slot_of_less [simp]: "slot_of i < 32"
  using slot_of_nat [of "unat i"] by simp

section \<open>Flags and counters count the same\<close>

lemma by_flags_simps [simp]: "by_flags explicit_context" "\<not> by_flags implicit_context"
  by (simp_all add: by_flags_def BLOCK_SIZE_def EXPLICIT_BLOCK_EMPTY_COUNTER_THRESHOLD_def)

lemma all_flags_iff: "\<forall>f \<in> set fs. f \<noteq> None \<Longrightarrow> all_flags fs = Some (\<forall>f \<in> set fs. f = Some True)"
  by (induction fs) auto

lemma bs32 [simp]: "unat BLOCK_SIZE = 32" "unat (BLOCK_SIZE - 1) = 31"
  by (simp_all add: BLOCK_SIZE_def)

text \<open>Several calls of \<^verbatim>\<open>set_empty\<close> in a row; the results are collected.\<close>

fun set_empties :: "InnerQueueContext \<Rightarrow> u64 list \<Rightarrow> 'a cq_block \<Rightarrow> (bool list \<times> 'a cq_block) option" where
  "set_empties c [] b = Some ([], b)"
| "set_empties c (i # idxs) b =
     do { (e, b') \<leftarrow> set_empty c i b; (es, b'') \<leftarrow> set_empties c idxs b'; Some (e # es, b'') }"

lemma flags_run:
  assumes "emptyFlags b = map (\<lambda>k. Some (31 - k \<in> S)) [0..<32]" and "distinct (map slot_of idxs)" and "S \<inter> slot_of ` set idxs = {}"
  shows "\<exists>b'. set_empties explicit_context idxs b = Some (replicate (length idxs) False, b') \<and>
    emptyFlags b' = map (\<lambda>k. Some (31 - k \<in> S \<union> slot_of ` set idxs)) [0..<32]"
  using assms
proof (induction idxs arbitrary: b S)
  case (Cons i idxs)
  let ?k = "31 - slot_of i"
  have lt: "?k < 32" "31 - ?k = slot_of i" using slot_of_less [of i] by linarith+
  have f: "emptyFlags b ! ?k = Some False" using Cons.prems(1,3) lt by auto
  let ?b = "b\<lparr>emptyFlags := (emptyFlags b)[?k := Some True]\<rparr>"
  have s: "set_empty explicit_context i b = Some (False, ?b)"
    using Cons.prems(1) f lt by (simp add: set_empty_def Let_def)
  have b': "emptyFlags ?b = map (\<lambda>k. Some (31 - k \<in> insert (slot_of i) S)) [0..<32]"
    using Cons.prems(1) lt by (intro nth_equalityI) (auto simp: nth_list_update)
  have "\<exists>b''. set_empties explicit_context idxs ?b = Some (replicate (length idxs) False, b'') \<and>
      emptyFlags b'' = map (\<lambda>k. Some (31 - k \<in> insert (slot_of i) S \<union> slot_of ` set idxs)) [0..<32]"
    using Cons.prems(2,3) by (intro Cons.IH [OF b']) auto
  then show ?case using s by auto
qed simp

lemma counter_run:
  assumes "elementsCompletelyDequeued b = word_of_nat n" and "n + length idxs \<le> 32"
  shows "\<exists>b'. set_empties implicit_context idxs b = Some (map (\<lambda>k. n + k = 31) [0..<length idxs], b') \<and>
    elementsCompletelyDequeued b' = word_of_nat (n + length idxs)"
  using assms
proof (induction idxs arbitrary: b n)
  case (Cons i idxs)
  have n: "unat (word_of_nat n :: u64) = n" using Cons.prems(2) by (simp add: unat_word_of_nat)
  have lt: "(word_of_nat n :: u64) < BLOCK_SIZE" using Cons.prems(2) n by (simp add: word_less_nat_alt)
  have last: "(word_of_nat n :: u64) = BLOCK_SIZE - 1 \<longleftrightarrow> n = 31" using n by (simp add: word_unat_eq_iff)
  let ?b = "b\<lparr>elementsCompletelyDequeued := word_of_nat n + 1\<rparr>"
  have s: "set_empty implicit_context i b = Some (n = 31, ?b)"
    using Cons.prems(1) lt last by (simp add: set_empty_def Let_def)
  have "\<exists>b''. set_empties implicit_context idxs ?b = Some (map (\<lambda>k. Suc n + k = 31) [0..<length idxs], b'') \<and>
      elementsCompletelyDequeued b'' = word_of_nat (Suc n + length idxs)"
    using Cons.prems(2) by (intro Cons.IH) simp_all
  moreover have "map (\<lambda>k. n + k = 31) [0..<length (i # idxs)] = (n = 31) # map (\<lambda>k. Suc n + k = 31) [0..<length idxs]"
    by (simp add: map_upt_Suc del: upt_Suc)
  ultimately show ?case using s by auto
qed simp

lemma all_slots:
  assumes "distinct (map slot_of idxs)"
  shows "(\<forall>k < 32. 31 - k \<in> slot_of ` set idxs) \<longleftrightarrow> length idxs = 32" and "length idxs \<le> 32"
proof -
  have sub: "slot_of ` set idxs \<subseteq> {..<32}" by auto
  have card: "card (slot_of ` set idxs) = length idxs" using assms by (metis distinct_card length_map set_map)
  then show "length idxs \<le> 32" using card_mono [OF _ sub] by simp
  have "(\<forall>k < 32. 31 - k \<in> slot_of ` set idxs) \<longleftrightarrow> {..<32} \<subseteq> slot_of ` set idxs"
  proof
    assume h: "\<forall>k < 32. 31 - k \<in> slot_of ` set idxs"
    have "k \<in> slot_of ` set idxs" if "k < 32" for k using h [rule_format, of "31 - k"] that by simp
    then show "{..<32} \<subseteq> slot_of ` set idxs" by blast
  qed auto
  also have "\<dots> \<longleftrightarrow> length idxs = 32"
    using sub card card_subset_eq [OF _ sub] by (metis card_lessThan finite_lessThan order.refl subset_antisym)
  finally show "(\<forall>k < 32. 31 - k \<in> slot_of ` set idxs) \<longleftrightarrow> length idxs = 32" .
qed

text \<open>
  Flags and counter agree: whatever the order in which different slots of a block are marked as empty, no
  assertion fails, and in both contexts the block counts as empty exactly when all 32 slots have been marked. In the
  implicit context the last call, and no other, reports that the block is now empty.
\<close>
theorem block_empty_contexts_agree:
  assumes "distinct (map slot_of idxs)"
  shows "\<exists>b1 b2. set_empties implicit_context idxs (reset_empty implicit_context b) = Some (map (\<lambda>k. k = 31) [0..<length idxs], b1) \<and>
    set_empties explicit_context idxs (reset_empty explicit_context b) = Some (replicate (length idxs) False, b2) \<and>
    is_empty implicit_context b1 = Some (length idxs = 32) \<and> is_empty explicit_context b2 = Some (length idxs = 32)"
proof -
  note le = all_slots(2) [OF assms]
  obtain b1 where b1: "set_empties implicit_context idxs (reset_empty implicit_context b) = Some (map (\<lambda>k. k = 31) [0..<length idxs], b1)"
    "elementsCompletelyDequeued b1 = word_of_nat (length idxs)"
    using counter_run [of "reset_empty implicit_context b" 0 idxs] le by (auto simp: reset_empty_def)
  have "unat (word_of_nat (length idxs) :: u64) = length idxs" using le by (simp add: unat_word_of_nat)
  then have e1: "is_empty implicit_context b1 = Some (length idxs = 32)"
    using le by (simp add: is_empty_def b1(2) word_unat_eq_iff word_le_nat_alt)
  have "emptyFlags (reset_empty explicit_context b) = map (\<lambda>k. Some (31 - k \<in> {})) [0..<32]"
    by (simp add: reset_empty_def map_replicate_trivial map_replicate_const)
  then obtain b2 where b2: "set_empties explicit_context idxs (reset_empty explicit_context b) = Some (replicate (length idxs) False, b2)"
    "emptyFlags b2 = map (\<lambda>k. Some (31 - k \<in> slot_of ` set idxs)) [0..<32]"
    using flags_run [of "reset_empty explicit_context b" "{}" idxs] assms by auto
  have "is_empty explicit_context b2 = Some (\<forall>f \<in> set (emptyFlags b2). f = Some True)"
    unfolding is_empty_def using all_flags_iff [of "emptyFlags b2"] b2(2) by auto
  also have "(\<forall>f \<in> set (emptyFlags b2). f = Some True) \<longleftrightarrow> length idxs = 32"
    unfolding all_slots(1) [OF assms, symmetric] b2(2) by auto
  finally show ?thesis using b1(1) e1 b2(1) by blast
qed

text \<open>Witness of \<open>block_empty_contexts_agree\<close>: the slots of the indices 70 and 35.\<close>
theorem block_empty_contexts_agree_witness:
  "\<exists>b1 b2. set_empties implicit_context [70, 35] (reset_empty implicit_context (new_cq_block :: nat cq_block)) = Some ([False, False], b1) \<and>
    set_empties explicit_context [70, 35] (reset_empty explicit_context (new_cq_block :: nat cq_block)) = Some ([False, False], b2) \<and>
    is_empty implicit_context b1 = Some False \<and> is_empty explicit_context b2 = Some False"
proof -
  have "distinct (map slot_of [70, 35])" by (simp add: slot_of_def BLOCK_SIZE_def)
  from block_empty_contexts_agree [OF this, of "new_cq_block :: nat cq_block"] show ?thesis
    by (simp add: upt_rec numeral_2_eq_2)
qed

section \<open>The block pool\<close>

text \<open>
  Blocks have addresses in \<open>cq_blocks\<close>; the first \<open>initialBlockPoolSize\<close> of them are the array allocated by the
  constructor. \<open>answers\<close> are the results of the coming calls of \<^verbatim>\<open>malloc\<close>; once they are used up, it succeeds.
\<close>

record 'a block_pool =
  initialBlockPoolIndex :: u64
  initialBlockPoolSize :: u64
  cq_blocks :: "'a cq_block list"
  freeList :: free_list
  answers :: "bool list"

definition pool_malloc :: "'a block_pool \<Rightarrow> bool \<times> 'a block_pool" where
  "pool_malloc pool = (case answers pool of [] \<Rightarrow> (True, pool) | a # rest \<Rightarrow> (a, pool\<lparr>answers := rest\<rparr>))"

text \<open>\<^verbatim>\<open>populate_initial_block_list\<close>: on a failed allocation the pool is empty.\<close>

definition populate_initial_block_list :: "u64 \<Rightarrow> bool list \<Rightarrow> 'a block_pool" where
  "populate_initial_block_list blockCount as =
     (let pool = \<lparr>initialBlockPoolIndex = 0, initialBlockPoolSize = blockCount, cq_blocks = [],
                  freeList = new_free_list, answers = as\<rparr>
      in if blockCount = 0 then pool
         else (let (ok, pool) = pool_malloc pool
               in if \<not> ok then pool\<lparr>initialBlockPoolSize := 0\<rparr>
                  else pool\<lparr>cq_blocks := replicate (unat blockCount) (new_cq_block\<lparr>dynamicallyAllocated := False\<rparr>)\<rparr>))"

definition try_get_block_from_initial_pool :: "'a block_pool \<Rightarrow> nat option \<times> 'a block_pool" where
  "try_get_block_from_initial_pool pool =
     (if initialBlockPoolIndex pool \<ge> initialBlockPoolSize pool then (None, pool)
      else (let index = initialBlockPoolIndex pool;
                pool' = pool\<lparr>initialBlockPoolIndex := index + 1\<rparr>
            in (if index < initialBlockPoolSize pool then Some (unat index) else None, pool')))"

definition add_block_to_free_list :: "nat \<Rightarrow> 'a block_pool \<Rightarrow> 'a block_pool option" where
  "add_block_to_free_list b pool = do { fl \<leftarrow> freelist_add b (freeList pool); Some (pool\<lparr>freeList := fl\<rparr>) }"

definition try_get_block_from_free_list :: "'a block_pool \<Rightarrow> (nat option \<times> 'a block_pool) option" where
  "try_get_block_from_free_list pool = do { (b, fl) \<leftarrow> freelist_try_get (freeList pool); Some (b, pool\<lparr>freeList := fl\<rparr>) }"

definition requisition_block :: "bool \<Rightarrow> 'a block_pool \<Rightarrow> (nat option \<times> 'a block_pool) option" where
  "requisition_block canAlloc pool =
     (case try_get_block_from_initial_pool pool of
        (Some b, pool) \<Rightarrow> Some (Some b, pool)
      | (None, pool) \<Rightarrow> do {
          (block, pool) \<leftarrow> try_get_block_from_free_list pool;
          case block of
            Some b \<Rightarrow> Some (Some b, pool)
          | None \<Rightarrow>
              if canAlloc
              then (let (ok, pool) = pool_malloc pool
                    in if ok then Some (Some (length (cq_blocks pool)), pool\<lparr>cq_blocks := cq_blocks pool @ [new_cq_block]\<rparr>)
                       else Some (None, pool))
              else Some (None, pool)
        })"

text \<open>
  \<open>used\<close> are the blocks in use. Every other block is on the free list or still in the initial pool, and is
  empty of objects.
\<close>

definition unissued :: "'a block_pool \<Rightarrow> nat set" where
  "unissued pool = {unat (initialBlockPoolIndex pool)..<unat (initialBlockPoolSize pool)}"

definition pool_parts :: "'a block_pool \<Rightarrow> nat set \<Rightarrow> nat list \<Rightarrow> bool" where
  "pool_parts pool used ns \<longleftrightarrow>
     fl_listed (freeList pool) ns \<and> initialBlockPoolIndex pool \<le> initialBlockPoolSize pool \<and>
     used \<union> set ns \<union> unissued pool = {..<length (cq_blocks pool)} \<and>
     used \<inter> set ns = {} \<and> used \<inter> unissued pool = {} \<and> set ns \<inter> unissued pool = {} \<and>
     (\<forall>b \<in> set ns \<union> unissued pool. elements (cq_blocks pool ! b) = replicate 32 None) \<and>
     (\<forall>b < length (cq_blocks pool). length (elements (cq_blocks pool ! b)) = 32 \<and>
        (dynamicallyAllocated (cq_blocks pool ! b) \<longleftrightarrow> unat (initialBlockPoolSize pool) \<le> b)) \<and>
     unat (initialBlockPoolSize pool) \<le> length (cq_blocks pool)"

definition pool_inv :: "'a block_pool \<Rightarrow> nat set \<Rightarrow> bool" where
  "pool_inv pool used \<longleftrightarrow> (\<exists>ns. pool_parts pool used ns)"

lemma pool_inv_used: "pool_inv pool used \<Longrightarrow> used \<subseteq> {..<length (cq_blocks pool)}"
  by (auto simp: pool_inv_def pool_parts_def)

lemma pool_inv_elements: "pool_inv pool used \<Longrightarrow> b \<in> used \<Longrightarrow> b < length (cq_blocks pool) \<and> length (elements (cq_blocks pool ! b)) = 32"
  by (auto simp: pool_inv_def pool_parts_def)

lemma pool_malloc_parts [simp]:
  "pool_parts (snd (pool_malloc pool)) used ns \<longleftrightarrow> pool_parts pool used ns"
  "cq_blocks (snd (pool_malloc pool)) = cq_blocks pool"
  "initialBlockPoolIndex (snd (pool_malloc pool)) = initialBlockPoolIndex pool"
  "initialBlockPoolSize (snd (pool_malloc pool)) = initialBlockPoolSize pool"
  "freeList (snd (pool_malloc pool)) = freeList pool"
  by (auto simp: pool_malloc_def pool_parts_def unissued_def split: list.splits)

lemma pool_malloc_inv [simp]: "pool_inv (snd (pool_malloc pool)) used \<longleftrightarrow> pool_inv pool used"
  by (simp add: pool_inv_def)

lemma populate_inv:
  assumes "pool = populate_initial_block_list n as"
  shows "pool_inv pool {}"
proof -
  have "pool_parts pool {} []"
    using assms unfolding populate_initial_block_list_def Let_def pool_parts_def unissued_def
    by (auto simp: fl_listed_new pool_malloc_def new_cq_block_def split: if_splits list.splits)
  then show ?thesis by (auto simp: pool_inv_def)
qed

lemma pool_update:
  assumes "pool_inv pool used" and "b \<in> used" and "length (elements blk) = 32"
    and "dynamicallyAllocated blk = dynamicallyAllocated (cq_blocks pool ! b)"
  shows "pool_inv (pool\<lparr>cq_blocks := (cq_blocks pool)[b := blk]\<rparr>) used"
proof -
  obtain ns where ns: "pool_parts pool used ns" using assms(1) by (auto simp: pool_inv_def)
  have "c \<noteq> b" if "c \<in> set ns \<union> unissued pool" for c using ns assms(2) that by (auto simp: pool_parts_def)
  moreover have "b < length (cq_blocks pool)" using pool_inv_used [OF assms(1)] assms(2) by auto
  moreover have "unissued (pool\<lparr>cq_blocks := (cq_blocks pool)[b := blk]\<rparr>) = unissued pool" by (simp add: unissued_def)
  ultimately have "pool_parts (pool\<lparr>cq_blocks := (cq_blocks pool)[b := blk]\<rparr>) used ns"
    using ns assms(3,4) by (auto simp: pool_parts_def nth_list_update)
  then show ?thesis by (auto simp: pool_inv_def)
qed

lemma add_block_ok:
  assumes "pool_inv pool used" and "b \<in> used" and "elements (cq_blocks pool ! b) = replicate 32 None"
  shows "\<exists>pool'. add_block_to_free_list b pool = Some pool' \<and> pool_inv pool' (used - {b}) \<and> cq_blocks pool' = cq_blocks pool \<and> answers pool' = answers pool"
proof -
  obtain ns where ns: "pool_parts pool used ns" using assms(1) by (auto simp: pool_inv_def)
  then have "b \<notin> set ns" "fl_listed (freeList pool) ns" using assms(2) by (auto simp: pool_parts_def)
  then obtain fl where fl: "freelist_add b (freeList pool) = Some fl" "fl_listed fl (b # ns)"
    using freelist_add_listed by blast
  have u: "unissued (pool\<lparr>freeList := fl\<rparr>) = unissued pool" by (simp add: unissued_def)
  have "pool_parts (pool\<lparr>freeList := fl\<rparr>) (used - {b}) (b # ns)"
    using ns fl(2) assms(2,3) unfolding pool_parts_def u by auto
  then show ?thesis using fl(1) by (auto simp: add_block_to_free_list_def pool_inv_def)
qed

lemma initial_pool_ok:
  assumes "pool_parts pool used ns" and "initialBlockPoolIndex pool < initialBlockPoolSize pool"
  shows "try_get_block_from_initial_pool pool = (Some (unat (initialBlockPoolIndex pool)), pool\<lparr>initialBlockPoolIndex := initialBlockPoolIndex pool + 1\<rparr>)"
    and "unat (initialBlockPoolIndex pool) \<in> unissued pool"
    and "pool_parts (pool\<lparr>initialBlockPoolIndex := initialBlockPoolIndex pool + 1\<rparr>) (insert (unat (initialBlockPoolIndex pool)) used) ns"
proof -
  let ?i = "initialBlockPoolIndex pool" and ?p = "pool\<lparr>initialBlockPoolIndex := initialBlockPoolIndex pool + 1\<rparr>"
  show "try_get_block_from_initial_pool pool = (Some (unat ?i), ?p)"
    using assms(2) by (simp add: try_get_block_from_initial_pool_def Let_def not_le)
  have lt: "unat ?i < unat (initialBlockPoolSize pool)" using assms(2) by (simp add: word_less_nat_alt)
  then show mem: "unat ?i \<in> unissued pool" by (simp add: unissued_def)
  have "unat (?i + 1) = unat ?i + 1" using lt unat_bound_u64 [of "initialBlockPoolSize pool"] by (simp add: unat_add_u64)
  then have u: "unissued ?p = unissued pool - {unat ?i}" and le: "?i + 1 \<le> initialBlockPoolSize pool"
    using lt by (auto simp: unissued_def word_le_nat_alt)
  note P = assms(1) [unfolded pool_parts_def]
  have "insert (unat ?i) used \<union> set ns \<union> (unissued pool - {unat ?i}) = {..<length (cq_blocks pool)}"
    using P mem by (metis Un_insert_left Un_insert_right insert_Diff)
  moreover have "unat ?i \<notin> set ns" using P mem by blast
  ultimately show "pool_parts ?p (insert (unat ?i) used) ns"
    unfolding pool_parts_def u using P le by (intro conjI) (simp_all, blast+)
qed

lemma requisition_ok:
  assumes inv: "pool_inv pool used"
  shows "\<exists>r pool'. requisition_block canAlloc pool = Some (r, pool') \<and>
    (case r of
       None \<Rightarrow> pool_inv pool' used \<and> cq_blocks pool' = cq_blocks pool \<and> used = {..<length (cq_blocks pool)} \<and>
         \<not> (canAlloc \<and> answers pool = []) \<and> (answers pool = [] \<longrightarrow> answers pool' = [])
     | Some b \<Rightarrow> b \<notin> used \<and> pool_inv pool' (insert b used) \<and> elements (cq_blocks pool' ! b) = replicate 32 None \<and>
         (\<forall>i < length (cq_blocks pool). cq_blocks pool' ! i = cq_blocks pool ! i) \<and>
         length (cq_blocks pool) \<le> length (cq_blocks pool') \<and> (answers pool = [] \<longrightarrow> answers pool' = []) \<and>
         (used \<noteq> {..<length (cq_blocks pool)} \<longrightarrow> length (cq_blocks pool') = length (cq_blocks pool) \<and> answers pool' = answers pool))"
proof -
  obtain ns where ns: "pool_parts pool used ns" using inv by (auto simp: pool_inv_def)
  show ?thesis
  proof (cases "initialBlockPoolIndex pool < initialBlockPoolSize pool")
    case True
    note ok = initial_pool_ok [OF ns True]
    have e: "elements (cq_blocks pool ! unat (initialBlockPoolIndex pool)) = replicate 32 None" "unat (initialBlockPoolIndex pool) \<notin> used"
      using ns ok(2) by (auto simp: pool_parts_def)
    have "pool_inv (pool\<lparr>initialBlockPoolIndex := initialBlockPoolIndex pool + 1\<rparr>) (insert (unat (initialBlockPoolIndex pool)) used)"
      unfolding pool_inv_def using ok(3) by blast
    then show ?thesis using e by (simp add: requisition_block_def ok(1))
  next
    case False
    then have none: "try_get_block_from_initial_pool pool = (None, pool)" by (simp add: try_get_block_from_initial_pool_def not_less)
    have empty: "unissued pool = {}" using False by (simp add: unissued_def word_less_nat_alt)
    have fl: "fl_listed (freeList pool) ns" using ns by (simp add: pool_parts_def)
    show ?thesis
    proof (cases ns)
      case (Cons b ms)
      obtain fl' where fl': "freelist_try_get (freeList pool) = Some (Some b, fl')" "fl_listed fl' ms"
        using freelist_try_get_listed fl Cons by blast
      have u: "unissued (pool\<lparr>freeList := fl'\<rparr>) = unissued pool" by (simp add: unissued_def)
      have "b \<notin> set ms" using fl Cons by (simp add: fl_listed_def)
      then have "pool_parts (pool\<lparr>freeList := fl'\<rparr>) (insert b used) ms"
        using ns fl'(2) unfolding pool_parts_def u Cons by auto
      then have "pool_inv (pool\<lparr>freeList := fl'\<rparr>) (insert b used)" by (auto simp: pool_inv_def)
      moreover have "b \<notin> used" "elements (cq_blocks pool ! b) = replicate 32 None" using ns Cons by (auto simp: pool_parts_def)
      ultimately show ?thesis by (simp add: requisition_block_def none try_get_block_from_free_list_def fl'(1))
    next
      case Nil
      have all: "used = {..<length (cq_blocks pool)}" using ns Nil empty by (simp add: pool_parts_def)
      have tg: "try_get_block_from_free_list pool = Some (None, pool)"
        using freelist_try_get_empty fl Nil by (simp add: try_get_block_from_free_list_def)
      show ?thesis
      proof (cases "canAlloc \<and> fst (pool_malloc pool)")
        case False
        then have "requisition_block canAlloc pool = Some (None, if canAlloc then snd (pool_malloc pool) else pool)"
          by (simp add: requisition_block_def none tg split_beta Let_def)
        moreover have "\<not> (canAlloc \<and> answers pool = [])" using False by (auto simp: pool_malloc_def)
        ultimately show ?thesis using inv all by (auto split: if_splits)
      next
        case True
        define q where "q = snd (pool_malloc pool)"
        let ?p = "q\<lparr>cq_blocks := cq_blocks q @ [new_cq_block]\<rparr>"
        have r: "requisition_block canAlloc pool = Some (Some (length (cq_blocks pool)), ?p)"
          using True by (simp add: requisition_block_def none tg split_beta Let_def q_def)
        have q: "pool_parts q used ns" "cq_blocks q = cq_blocks pool" using ns by (simp_all add: q_def)
        have u: "unissued ?p = {}" using empty by (simp add: unissued_def q_def)
        have le: "unat (initialBlockPoolSize q) \<le> length (cq_blocks pool)" using q by (auto simp: pool_parts_def)
        have nb: "length (elements new_cq_block) = 32" "dynamicallyAllocated new_cq_block" by (simp_all add: new_cq_block_def)
        have "pool_parts ?p (insert (length (cq_blocks pool)) used) ns"
          using q le nb all unfolding pool_parts_def u by (auto simp: nth_append Nil less_Suc_eq)
        then have "pool_inv ?p (insert (length (cq_blocks pool)) used)" by (auto simp: pool_inv_def)
        moreover have "answers pool = [] \<Longrightarrow> answers q = []" by (simp add: q_def pool_malloc_def)
        ultimately show ?thesis using r q(2) all by (auto simp: nth_append new_cq_block_def)
      qed
    qed
  qed
qed

end
