(* ===== verification/MpmcIndex.thy ===== *)
theory MpmcIndex
  imports MpmcBlock
begin

text \<open>
  The block index of an implicit producer (\<^verbatim>\<open>src/lib/concurrentqueue/concurrentqueue.h\<close>, \<^verbatim>\<open>ImplicitProducer\<close>): a ring of
  pointers to entries that map the first index of a block to the block. Entries have addresses in
  \<open>bi_entries\<close>; the \<open>value\<close> of an entry is uninitialised until it is stored, which is \<open>None\<close>. The chain of headers
  through \<open>prev\<close> is a list with the current header first; the empty list is a null \<open>blockIndex\<close>.

  The ring is read from the entry after \<open>tail\<close> round to \<open>tail\<close>. In this view inserting an entry takes the first one
  and appends it, and growing the index prepends unused entries.
\<close>

section \<open>Model\<close>

record block_index_entry =
  bie_key :: u64
  bie_value :: "nat option option"

record block_index_header =
  bih_capacity :: u64
  bih_tail :: u64
  bih_index :: "nat list"

record imp_producer =
  inactive :: bool
  tailIndex :: u64
  headIndex :: u64
  dequeueOptimisticCount :: u64
  dequeueOvercommit :: u64
  ip_tailBlock :: "nat option"
  nextBlockIndexCapacity :: u64
  blockIndex :: "block_index_header list"
  bi_entries :: "block_index_entry list"

definition INVALID_BLOCK_BASE :: u64 where "INVALID_BLOCK_BASE = 1"

definition current_index :: "imp_producer \<Rightarrow> block_index_header option" where
  "current_index p = (case blockIndex p of [] \<Rightarrow> None | h # _ \<Rightarrow> Some h)"

definition next_pos :: "block_index_header \<Rightarrow> u64 \<Rightarrow> u64" where
  "next_pos h pos = (pos + 1) AND (bih_capacity h - 1)"

text \<open>The \<^verbatim>\<open>do\<close> loop of \<^verbatim>\<open>new_block_index\<close> that copies the old ring, oldest entry first.\<close>

fun copy_index :: "nat \<Rightarrow> block_index_header \<Rightarrow> u64 \<Rightarrow> nat list option" where
  "copy_index 0 h prevPos = None"
| "copy_index (Suc fuel) h prevPos =
     do {
       let pos = next_pos h prevPos;
       e \<leftarrow> nth_opt (bih_index h) (unat pos);
       if pos \<noteq> bih_tail h then do { es \<leftarrow> copy_index fuel h pos; Some (e # es) } else Some [e]
     }"

text \<open>\<open>ok\<close> is the result of \<^verbatim>\<open>malloc\<close>.\<close>

definition new_block_index :: "bool \<Rightarrow> imp_producer \<Rightarrow> (bool \<times> imp_producer) option" where
  "new_block_index ok p =
     (let prev = current_index p;
          prevCapacity = (case prev of None \<Rightarrow> 0 | Some h \<Rightarrow> bih_capacity h);
          entryCount = (case prev of None \<Rightarrow> nextBlockIndexCapacity p | Some h \<Rightarrow> prevCapacity);
          n = length (bi_entries p)
      in if \<not> ok then Some (False, p)
         else do {
           old \<leftarrow> (case prev of None \<Rightarrow> Some [] | Some h \<Rightarrow> copy_index (unat prevCapacity) h (bih_tail h));
           assert_that (length old = unat prevCapacity);
           let header = \<lparr>bih_capacity = nextBlockIndexCapacity p,
                         bih_tail = (prevCapacity - 1) AND (nextBlockIndexCapacity p - 1),
                         bih_index = old @ [n..<n + unat entryCount]\<rparr>;
           Some (True, p\<lparr>blockIndex := header # blockIndex p,
                         bi_entries := bi_entries p @ replicate (unat entryCount) \<lparr>bie_key = INVALID_BLOCK_BASE, bie_value = None\<rparr>,
                         nextBlockIndexCapacity := push_bit 1 (nextBlockIndexCapacity p)\<rparr>)
         })"

definition set_key :: "nat \<Rightarrow> u64 \<Rightarrow> imp_producer \<Rightarrow> imp_producer" where
  "set_key e k p = p\<lparr>bi_entries := (bi_entries p)[e := (bi_entries p ! e)\<lparr>bie_key := k\<rparr>]\<rparr>"

definition set_value :: "nat \<Rightarrow> nat option \<Rightarrow> imp_producer \<Rightarrow> imp_producer" where
  "set_value e v p = p\<lparr>bi_entries := (bi_entries p)[e := (bi_entries p ! e)\<lparr>bie_value := Some v\<rparr>]\<rparr>"

definition set_index_tail :: "u64 \<Rightarrow> imp_producer \<Rightarrow> imp_producer" where
  "set_index_tail t p = p\<lparr>blockIndex := (case blockIndex p of [] \<Rightarrow> [] | h # hs \<Rightarrow> h\<lparr>bih_tail := t\<rparr> # hs)\<rparr>"

text \<open>
  \<^verbatim>\<open>insert_block_index_entry\<close>: the address of the entry, or \<open>None\<close> where the function returns \<^verbatim>\<open>false\<close>.
\<close>

definition insert_block_index_entry ::
    "bool \<Rightarrow> u64 \<Rightarrow> imp_producer \<times> 'a block_pool \<Rightarrow> (nat option \<times> imp_producer \<times> 'a block_pool) option" where
  "insert_block_index_entry canAlloc blockStartIndex s =
     (let (p, pool) = s in do {
       h \<leftarrow> current_index p;
       let newTail = next_pos h (bih_tail h);
       e \<leftarrow> nth_opt (bih_index h) (unat newTail);
       entry \<leftarrow> nth_opt (bi_entries p) e;
       free \<leftarrow> (if bie_key entry = INVALID_BLOCK_BASE then Some True else map_option (\<lambda>v. v = None) (bie_value entry));
       if free then Some (Some e, set_index_tail newTail (set_key e blockStartIndex p), pool)
       else if \<not> canAlloc then Some (None, p, pool)
       else do {
         let (ok, pool) = pool_malloc pool;
         (made, p) \<leftarrow> new_block_index ok p;
         if \<not> made then Some (None, p, pool)
         else do {
           h \<leftarrow> current_index p;
           let newTail = next_pos h (bih_tail h);
           e \<leftarrow> nth_opt (bih_index h) (unat newTail);
           entry \<leftarrow> nth_opt (bi_entries p) e;
           assert_that (bie_key entry = INVALID_BLOCK_BASE);
           Some (Some e, set_index_tail newTail (set_key e blockStartIndex p), pool)
         }
       }
     })"

definition rewind_block_index_tail :: "imp_producer \<Rightarrow> imp_producer option" where
  "rewind_block_index_tail p =
     do { h \<leftarrow> current_index p; Some (set_index_tail ((bih_tail h - 1) AND (bih_capacity h - 1)) p) }"

text \<open>
  The offset of the wanted block from the last one. The quotient of the signed difference and the unsigned
  \<^verbatim>\<open>BLOCK_SIZE\<close> is computed in the unsigned type.
\<close>

definition get_block_index_index_for_index :: "u64 \<Rightarrow> imp_producer \<Rightarrow> u64 option" where
  "get_block_index_index_for_index index0 p =
     do {
       let index = index0 AND NOT (BLOCK_SIZE - 1);
       h \<leftarrow> current_index p;
       let tail = bih_tail h;
       te \<leftarrow> nth_opt (bih_index h) (unat tail);
       tentry \<leftarrow> nth_opt (bi_entries p) te;
       let tailBase = bie_key tentry;
       assert_that (tailBase \<noteq> INVALID_BLOCK_BASE);
       let offset = (index - tailBase) div BLOCK_SIZE;
       let idx = (tail + offset) AND (bih_capacity h - 1);
       e \<leftarrow> nth_opt (bih_index h) (unat idx);
       entry \<leftarrow> nth_opt (bi_entries p) e;
       v \<leftarrow> bie_value entry;
       assert_that (bie_key entry = index \<and> v \<noteq> None);
       Some idx
     }"

definition get_block_index_entry_for_index :: "u64 \<Rightarrow> imp_producer \<Rightarrow> nat option" where
  "get_block_index_entry_for_index index p =
     do { idx \<leftarrow> get_block_index_index_for_index index p; h \<leftarrow> current_index p; nth_opt (bih_index h) (unat idx) }"

section \<open>The ring as a list\<close>

text \<open>
  \<open>view\<close> is the ring from the oldest entry to the one at \<open>tail\<close>, \<open>adr\<close> the addresses of its entries; the capacity is \<open>2\<^sup>c\<close>.
\<close>

definition ring_hdr :: "imp_producer \<Rightarrow> block_index_header \<Rightarrow> nat \<Rightarrow> nat list \<Rightarrow> bool" where
  "ring_hdr p h c adr \<longleftrightarrow> current_index p = Some h \<and> unat (bih_capacity h) = 2 ^ c \<and> 0 < c \<and> c \<le> 59 \<and>
     length (bih_index h) = 2 ^ c \<and> unat (bih_tail h) < 2 ^ c \<and> unat (nextBlockIndexCapacity p) = 2 ^ Suc c \<and>
     adr = rotate (Suc (unat (bih_tail h))) (bih_index h) \<and> distinct adr \<and> (\<forall>e \<in> set adr. e < length (bi_entries p)) \<and>
     length (bi_entries p) = 2 ^ c"

definition ring_at :: "imp_producer \<Rightarrow> nat \<Rightarrow> nat list \<Rightarrow> bool" where
  "ring_at p c adr \<longleftrightarrow> (\<exists>h. ring_hdr p h c adr)"

definition ring_view :: "imp_producer \<Rightarrow> nat list \<Rightarrow> block_index_entry list" where
  "ring_view p adr = map (\<lambda>e. bi_entries p ! e) adr"

lemma ring_hdrD:
  assumes "ring_hdr p h c adr"
  shows "current_index p = Some h" and "unat (bih_capacity h) = 2 ^ c" and "0 < c" and "c \<le> 59" and "length (bih_index h) = 2 ^ c"
    and "unat (bih_tail h) < 2 ^ c" and "unat (nextBlockIndexCapacity p) = 2 ^ Suc c"
    and "adr = rotate (Suc (unat (bih_tail h))) (bih_index h)" and "distinct adr" and "\<forall>e \<in> set adr. e < length (bi_entries p)"
    and "length (bi_entries p) = 2 ^ c"
  using assms unfolding ring_hdr_def by blast+

lemma current_index_tail [simp]:
  "current_index (set_index_tail t p) = map_option (\<lambda>h. h\<lparr>bih_tail := t\<rparr>) (current_index p)"
  by (simp add: current_index_def set_index_tail_def split: list.split)

lemma set_index_tail_simps [simp]:
  "bi_entries (set_index_tail t p) = bi_entries p" "nextBlockIndexCapacity (set_index_tail t p) = nextBlockIndexCapacity p"
  by (simp_all add: set_index_tail_def)

lemma set_entry_simps [simp]:
  "current_index (set_key e k p) = current_index p" "nextBlockIndexCapacity (set_key e k p) = nextBlockIndexCapacity p"
  "current_index (set_value e v p) = current_index p" "nextBlockIndexCapacity (set_value e v p) = nextBlockIndexCapacity p"
  "length (bi_entries (set_key e k p)) = length (bi_entries p)" "length (bi_entries (set_value e v p)) = length (bi_entries p)"
  by (simp_all add: set_key_def set_value_def current_index_def)

lemma ring_length: "ring_at p c adr \<Longrightarrow> length adr = 2 ^ c"
  by (auto simp: ring_at_def ring_hdr_def)

lemma ring_distinct: "ring_at p c adr \<Longrightarrow> distinct adr"
  by (auto simp: ring_at_def dest: ring_hdrD(9))

lemma ring_range: "ring_at p c adr \<Longrightarrow> i < length adr \<Longrightarrow> adr ! i < length (bi_entries p)"
  unfolding ring_at_def using ring_hdrD(10) by (meson nth_mem)

lemma mod64_mod: "c \<le> 64 \<Longrightarrow> x mod 18446744073709551616 mod 2 ^ c = x mod (2 :: nat) ^ c"
  using le_imp_power_dvd [of c 64 "2 :: nat"] by (intro mod_mod_cancel) simp

lemma unat_next_pos:
  assumes "unat (bih_capacity h) = 2 ^ c" and "c < 64"
  shows "unat (next_pos h pos) = (unat pos + 1) mod 2 ^ c"
proof -
  have "unat (pos + 1) mod 2 ^ c = (unat pos + 1) mod 2 ^ c" using assms(2) by (simp add: unat_add_u64 mod64_mod)
  then show ?thesis unfolding next_pos_def and_pow2_minus_1 [OF assms] .
qed

text \<open>Position \<open>i\<close> of the view is position \<open>tail + 1 + i\<close> of the array.\<close>

lemma ring_nth:
  assumes "length idx = 2 ^ c" and "i < 2 ^ c"
  shows "rotate (Suc t) idx ! i = idx ! ((Suc t + i) mod 2 ^ c)"
  using nth_rotate [of i idx "Suc t"] assms by simp

lemma ring_tail:
  assumes "length idx = 2 ^ c" and "t < 2 ^ c"
  shows "rotate (Suc t) idx ! (2 ^ c - 1) = idx ! t"
proof -
  have "(Suc t + (2 ^ c - 1)) mod 2 ^ c = t" using assms(2) by simp
  then show ?thesis using ring_nth [OF assms(1), of "2 ^ c - 1" t] by simp
qed

lemma ring_hdr_set [simp]:
  "ring_hdr (set_value e v p) h c adr \<longleftrightarrow> ring_hdr p h c adr" "ring_hdr (set_key e k p) h c adr \<longleftrightarrow> ring_hdr p h c adr"
  by (simp_all only: ring_hdr_def set_entry_simps)

lemma ring_set_value [simp]: "ring_at (set_value e v p) c adr \<longleftrightarrow> ring_at p c adr"
  by (simp add: ring_at_def ring_hdr_def)

lemma ring_set_key [simp]: "ring_at (set_key e k p) c adr \<longleftrightarrow> ring_at p c adr"
  by (simp add: ring_at_def ring_hdr_def)

lemma view_set_value:
  assumes "ring_at p c adr" and "i < length adr"
  shows "ring_view (set_value (adr ! i) v p) adr = (ring_view p adr)[i := (ring_view p adr ! i)\<lparr>bie_value := Some v\<rparr>]"
  using assms by (intro nth_equalityI) (auto simp: ring_view_def set_value_def nth_list_update nth_eq_iff_index_eq ring_distinct ring_range)

lemma view_set_key:
  assumes "ring_at p c adr" and "i < length adr"
  shows "ring_view (set_key (adr ! i) k p) adr = (ring_view p adr)[i := (ring_view p adr ! i)\<lparr>bie_key := k\<rparr>]"
  using assms by (intro nth_equalityI) (auto simp: ring_view_def set_key_def nth_list_update nth_eq_iff_index_eq ring_distinct ring_range)

text \<open>Advancing the tail turns the ring by one.\<close>

lemma ring_advance:
  assumes "ring_hdr p h c (e # adr)"
  shows "ring_hdr (set_index_tail (next_pos h (bih_tail h)) p) (h\<lparr>bih_tail := next_pos h (bih_tail h)\<rparr>) c (adr @ [e])"
    and "nth_opt (bih_index h) (unat (next_pos h (bih_tail h))) = Some e"
proof -
  note R = ring_hdrD [OF assms]
  let ?t = "unat (bih_tail h)"
  have np: "unat (next_pos h (bih_tail h)) = Suc ?t mod 2 ^ c" using unat_next_pos [OF R(2)] R(4) by simp
  have "rotate (Suc (Suc ?t mod 2 ^ c)) (bih_index h) = rotate1 (rotate (Suc ?t mod 2 ^ c) (bih_index h))" by simp
  also have "rotate (Suc ?t mod 2 ^ c) (bih_index h) = rotate (Suc ?t) (bih_index h)" using R(5) by (metis rotate_conv_mod)
  also have "rotate1 \<dots> = adr @ [e]" by (simp only: R(8) [symmetric] rotate1.simps)
  finally have rot: "rotate (Suc (unat (next_pos h (bih_tail h)))) (bih_index h) = adr @ [e]" by (simp only: np)
  show "ring_hdr (set_index_tail (next_pos h (bih_tail h)) p) (h\<lparr>bih_tail := next_pos h (bih_tail h)\<rparr>) c (adr @ [e])"
    unfolding ring_hdr_def using R(1-7,9-11) rot np by auto
  have "e = rotate (Suc ?t) (bih_index h) ! 0" by (simp only: R(8) [symmetric] nth_Cons_0)
  also have "\<dots> = bih_index h ! (Suc ?t mod 2 ^ c)" using ring_nth [OF R(5), of 0 ?t] by simp
  finally show "nth_opt (bih_index h) (unat (next_pos h (bih_tail h))) = Some e" using R(5) by (simp add: np)
qed

lemma ring_rewind:
  assumes "ring_hdr p h c (adr @ [e])"
  shows "\<exists>p'. rewind_block_index_tail p = Some p' \<and> ring_at p' c (e # adr) \<and> (\<exists>t. p' = set_index_tail t p)"
proof -
  note R = ring_hdrD [OF assms]
  let ?t = "unat (bih_tail h)" and ?w = "(bih_tail h - 1) AND (bih_capacity h - 1)"
  have "unat (bih_tail h - 1) = unat (bih_tail h + 0xFFFFFFFFFFFFFFFF)" by (rule arg_cong [where f = unat]) simp
  then have "unat (bih_tail h - 1) = (?t + (2 ^ 64 - 1)) mod 2 ^ 64" unfolding unat_add_u64 by simp
  then have w: "unat ?w = (?t + (2 ^ 64 - 1)) mod 2 ^ c"
    using and_pow2_minus_1 [OF R(2), of "bih_tail h - 1"] R(4) by (simp add: mod64_mod)
  have "(?t + 2 ^ 64) mod 2 ^ c = ?t mod 2 ^ c" using mod64_mod [of c "?t + 2 ^ 64"] mod64_mod [of c ?t] R(4) by simp
  then have "(Suc (?t + (2 ^ 64 - 1))) mod 2 ^ c = ?t mod 2 ^ c" by (simp add: add.commute)
  then have sw: "Suc (unat ?w) mod 2 ^ c = ?t" using R(6) w by (metis mod_Suc_eq mod_less)
  have "rotate1 (rotate (Suc (unat ?w)) (bih_index h)) = rotate1 (rotate (Suc (unat ?w) mod 2 ^ c) (bih_index h))"
    using R(5) by (metis rotate_conv_mod)
  also have "\<dots> = rotate1 (e # adr)" using R(8) by (simp add: sw)
  finally have rot: "rotate (Suc (unat ?w)) (bih_index h) = e # adr" using inj_rotate1 by (rule injD [rotated])
  have "unat ?w < 2 ^ c" using w by simp
  then have "ring_hdr (set_index_tail ?w p) (h\<lparr>bih_tail := ?w\<rparr>) c (e # adr)"
    unfolding ring_hdr_def using R(1-7,9-11) rot by auto
  then show ?thesis using R(1) by (auto simp: rewind_block_index_tail_def ring_at_def)
qed


lemma round_trip: "t < m \<Longrightarrow> 0 < k \<Longrightarrow> k \<le> m \<Longrightarrow> (t + k) mod m = t \<longleftrightarrow> k = (m :: nat)"
  by (cases "t + k < m") (auto simp: mod_if)

text \<open>The copy starts behind the tail and comes round to it.\<close>

lemma copy_index_eq:
  assumes "unat (bih_capacity h) = 2 ^ c" and "c < 64" and "length (bih_index h) = 2 ^ c" and "unat (bih_tail h) < 2 ^ c"
    and "k < 2 ^ c" and "unat pos = (unat (bih_tail h) + k) mod 2 ^ c"
  shows "copy_index (2 ^ c - k) h pos = Some (drop k (rotate (Suc (unat (bih_tail h))) (bih_index h)))"
  using assms(5,6)
proof (induction "2 ^ c - k" arbitrary: k pos)
  case (Suc n)
  let ?t = "unat (bih_tail h)" and ?r = "rotate (Suc (unat (bih_tail h))) (bih_index h)"
  have np: "unat (next_pos h pos) = (?t + Suc k) mod 2 ^ c"
    using unat_next_pos [OF assms(1,2), of pos] Suc.prems(2) by (simp add: mod_Suc_eq)
  have nth: "nth_opt (bih_index h) (unat (next_pos h pos)) = Some (?r ! k)"
    using ring_nth [OF assms(3) Suc.prems(1)] np assms(3) by simp
  have len: "length ?r = 2 ^ c" using assms(3) by simp
  have step: "copy_index (2 ^ c - k) h pos = (if next_pos h pos \<noteq> bih_tail h
      then do { es \<leftarrow> copy_index n h (next_pos h pos); Some (?r ! k # es) } else Some [?r ! k])"
    unfolding Suc.hyps(2) [symmetric] by (simp only: copy_index.simps Let_def nth bind.bind_lunit)
  have tail: "next_pos h pos = bih_tail h \<longleftrightarrow> Suc k = 2 ^ c"
  proof -
    have "next_pos h pos = bih_tail h \<longleftrightarrow> (?t + Suc k) mod 2 ^ c = ?t" using np by (simp add: word_unat_eq_iff)
    also have "\<dots> \<longleftrightarrow> Suc k = 2 ^ c" using assms(4) Suc.prems(1) by (intro round_trip) simp_all
    finally show ?thesis .
  qed
  show ?case
  proof (cases "Suc k = 2 ^ c")
    case True
    then have "drop k ?r = [?r ! k]" using len by (metis Cons_nth_drop_Suc drop_all le_refl lessI)
    then show ?thesis using step tail True by simp
  next
    case False
    then have k: "Suc k < 2 ^ c" using Suc.prems(1) by simp
    have "copy_index n h (next_pos h pos) = Some (drop (Suc k) ?r)"
    proof -
      have n: "n = 2 ^ c - Suc k" using Suc.hyps(2) by linarith
      from Suc.hyps(1) [OF this k np] show ?thesis by (simp only: n)
    qed
    then show ?thesis using step tail False Cons_nth_drop_Suc [of k ?r] len Suc.prems(1) by simp
  qed
qed simp


lemma unat_double: "unat (w :: u64) = 2 ^ c \<Longrightarrow> c < 63 \<Longrightarrow> unat (push_bit 1 w) = 2 ^ Suc c"
  using power_strict_increasing [of "Suc c" 64 "2 :: nat"] by (simp only: unat_push_bit) simp

text \<open>Only the block index differs.\<close>

definition index_only :: "imp_producer \<Rightarrow> imp_producer \<Rightarrow> bool" where
  "index_only p p' \<longleftrightarrow> p' = p\<lparr>blockIndex := blockIndex p', bi_entries := bi_entries p', nextBlockIndexCapacity := nextBlockIndexCapacity p'\<rparr>"

lemma index_only_sel:
  assumes "index_only p p'"
  shows "inactive p' = inactive p" "tailIndex p' = tailIndex p" "headIndex p' = headIndex p" "dequeueOptimisticCount p' = dequeueOptimisticCount p"
    "dequeueOvercommit p' = dequeueOvercommit p" "ip_tailBlock p' = ip_tailBlock p"
proof -
  have "p' = p\<lparr>blockIndex := blockIndex p', bi_entries := bi_entries p', nextBlockIndexCapacity := nextBlockIndexCapacity p'\<rparr>"
    using assms by (simp add: index_only_def)
  then show "inactive p' = inactive p" "tailIndex p' = tailIndex p" "headIndex p' = headIndex p" "dequeueOptimisticCount p' = dequeueOptimisticCount p"
    "dequeueOvercommit p' = dequeueOvercommit p" "ip_tailBlock p' = ip_tailBlock p"
    by (metis imp_producer.simps imp_producer.surjective imp_producer.update_convs)+
qed

lemma index_only_refl [simp]: "index_only p p" by (simp add: index_only_def)

lemma index_only_trans: "index_only p q \<Longrightarrow> index_only q r \<Longrightarrow> index_only p r"
  by (cases p; cases q; cases r) (simp add: index_only_def)

lemma index_only_set [simp]: "index_only p (set_key e k p)" "index_only p (set_value e v p)" "index_only p (set_index_tail t p)"
  by (simp_all add: index_only_def set_key_def set_value_def set_index_tail_def)

definition unused_entry :: block_index_entry where
  "unused_entry = \<lparr>bie_key = INVALID_BLOCK_BASE, bie_value = None\<rparr>"

text \<open>Growing the index doubles the ring: unused entries come before the old ones.\<close>

lemma new_block_index_grow:
  assumes "ring_hdr p h c adr" and "c < 59"
  shows "\<exists>p' h'. new_block_index True p = Some (True, p') \<and>
    ring_hdr p' h' (Suc c) ([length (bi_entries p)..<length (bi_entries p) + 2 ^ c] @ adr) \<and>
    ring_view p' ([length (bi_entries p)..<length (bi_entries p) + 2 ^ c] @ adr) = replicate (2 ^ c) unused_entry @ ring_view p adr \<and>
    index_only p p'"
proof -
  note R = ring_hdrD [OF assms(1)]
  let ?n = "length (bi_entries p)" and ?t = "unat (bih_tail h)"
  let ?new = "[?n..<?n + 2 ^ c]"
  have copy: "copy_index (2 ^ c) h (bih_tail h) = Some adr"
    using copy_index_eq [OF R(2) _ R(5,6), of 0 "bih_tail h"] R(4,6,8) by simp
  have len: "length adr = 2 ^ c" using R(5,8) by simp
  let ?tail = "(bih_capacity h - 1) AND (nextBlockIndexCapacity p - 1)"
  have "unat (bih_capacity h - 1) = 2 ^ c - 1" using R(2) by (simp add: unat_sub word_le_nat_alt)
  then have tail: "unat ?tail = 2 ^ c - 1"
    using and_pow2_minus_1 [OF R(7), of "bih_capacity h - 1"] R(4) by (simp add: mod_less le_less_trans [OF diff_le_self])
  define h' where "h' = \<lparr>bih_capacity = nextBlockIndexCapacity p, bih_tail = ?tail, bih_index = adr @ ?new\<rparr>"
  define p' where "p' = p\<lparr>blockIndex := h' # blockIndex p, bi_entries := bi_entries p @ replicate (2 ^ c) unused_entry,
      nextBlockIndexCapacity := push_bit 1 (nextBlockIndexCapacity p)\<rparr>"
  have res: "new_block_index True p = Some (True, p')"
    using R(1,2) copy len by (simp add: new_block_index_def Let_def p'_def h'_def unused_entry_def)
  have cap: "unat (push_bit 1 (nextBlockIndexCapacity p)) = 2 ^ Suc (Suc c)"
    using assms(2) by (intro unat_double R(7)) simp
  have rot: "rotate (Suc (unat (bih_tail h'))) (bih_index h') = ?new @ adr"
    using tail rotate_append [of adr ?new] len by (simp add: h'_def del: rotate_Suc)
  have dist: "distinct (?new @ adr)" using R(9,10) by fastforce
  have range: "\<forall>e \<in> set (?new @ adr). e < length (bi_entries p')" using R(10) by (auto simp: p'_def)
  have "(2 :: nat) ^ c - Suc 0 < 2 * 2 ^ c" by (simp add: le_less_trans [OF diff_le_self])
  then have "ring_hdr p' h' (Suc c) (?new @ adr)"
    unfolding ring_hdr_def using R(7,11) assms(2) tail rot dist range len cap
    by (simp add: p'_def h'_def current_index_def del: rotate_Suc)
  moreover have "ring_view p' (?new @ adr) = replicate (2 ^ c) unused_entry @ ring_view p adr"
  proof -
    have "map (\<lambda>e. bi_entries p' ! e) ?new = replicate (2 ^ c) unused_entry"
      by (rule nth_equalityI) (simp_all add: p'_def nth_append)
    moreover have "map (\<lambda>e. bi_entries p' ! e) adr = map (\<lambda>e. bi_entries p ! e) adr"
      using R(10) by (auto simp: p'_def nth_append)
    ultimately show ?thesis by (simp add: ring_view_def)
  qed
  ultimately show ?thesis using res by (intro exI [of _ p'] exI [of _ h']) (simp add: p'_def index_only_def)
qed

text \<open>The constructor's index.\<close>

lemma new_block_index_first:
  assumes "blockIndex p = []" and "bi_entries p = []" and "unat (nextBlockIndexCapacity p) = 2 ^ c" and "0 < c" and "c < 59"
  shows "\<exists>p'. new_block_index True p = Some (True, p') \<and> ring_at p' c [0..<2 ^ c] \<and> ring_view p' [0..<2 ^ c] = replicate (2 ^ c) unused_entry \<and>
    index_only p p'"
proof -
  let ?tail = "(0 - 1) AND (nextBlockIndexCapacity p - 1)"
  define h' where "h' = \<lparr>bih_capacity = nextBlockIndexCapacity p, bih_tail = ?tail, bih_index = [0..<2 ^ c]\<rparr>"
  define p' where "p' = p\<lparr>blockIndex := [h'], bi_entries := replicate (2 ^ c) unused_entry,
      nextBlockIndexCapacity := push_bit 1 (nextBlockIndexCapacity p)\<rparr>"
  have res: "new_block_index True p = Some (True, p')"
    using assms by (simp add: new_block_index_def current_index_def Let_def p'_def h'_def unused_entry_def)
  have "?tail = nextBlockIndexCapacity p - 1" by simp
  then have tail: "unat ?tail = 2 ^ c - 1" using assms(3) by (simp add: unat_sub word_le_nat_alt)
  have cap: "unat (push_bit 1 (nextBlockIndexCapacity p)) = 2 ^ Suc c"
    using assms(5) by (intro unat_double assms(3)) simp
  have rot: "rotate (Suc (unat (bih_tail h'))) (bih_index h') = [0..<2 ^ c]"
    using tail by (simp add: h'_def rotate_conv_mod [of "2 ^ c"] del: rotate_Suc)
  have "ring_hdr p' h' c [0..<2 ^ c]"
    unfolding ring_hdr_def using assms(3-5) tail rot cap by (simp add: p'_def h'_def current_index_def del: rotate_Suc)
  moreover have "ring_view p' [0..<2 ^ c] = replicate (2 ^ c) unused_entry"
    unfolding ring_view_def by (rule nth_equalityI) (simp_all add: p'_def)
  ultimately show ?thesis using res by (intro exI [of _ p']) (auto simp: p'_def ring_at_def index_only_def)
qed

section \<open>Inserting and looking up\<close>

definition entry_free :: "block_index_entry \<Rightarrow> bool" where
  "entry_free x \<longleftrightarrow> bie_key x = INVALID_BLOCK_BASE \<or> bie_value x = Some None"

lemma entry_free_unused [simp]: "entry_free unused_entry"
  by (simp add: entry_free_def unused_entry_def)

lemma ring_append_key:
  assumes "ring_hdr p h c (e # adr)"
  shows "ring_at (set_index_tail (next_pos h (bih_tail h)) (set_key e k p)) c (adr @ [e])"
    and "ring_view (set_index_tail (next_pos h (bih_tail h)) (set_key e k p)) (adr @ [e]) = ring_view p adr @ [(bi_entries p ! e)\<lparr>bie_key := k\<rparr>]"
proof -
  have r: "ring_hdr (set_key e k p) h c (e # adr)" using assms by simp
  then show "ring_at (set_index_tail (next_pos h (bih_tail h)) (set_key e k p)) c (adr @ [e])"
    unfolding ring_at_def using ring_advance(1) [OF r] by blast
  have "ring_view (set_key e k p) (e # adr) = (bi_entries p ! e)\<lparr>bie_key := k\<rparr> # ring_view p adr"
    using view_set_key [of p c "e # adr" 0 k] assms by (auto simp: ring_at_def ring_view_def)
  then show "ring_view (set_index_tail (next_pos h (bih_tail h)) (set_key e k p)) (adr @ [e]) = ring_view p adr @ [(bi_entries p ! e)\<lparr>bie_key := k\<rparr>]"
    by (simp add: ring_view_def)
qed

lemma insert_free:
  assumes "ring_at p c (e # adr)" and "entry_free (bi_entries p ! e)"
  shows "\<exists>p'. insert_block_index_entry canAlloc start (p, pool) = Some (Some e, p', pool) \<and> index_only p p' \<and> ring_at p' c (adr @ [e]) \<and>
    ring_view p' (adr @ [e]) = ring_view p adr @ [(bi_entries p ! e)\<lparr>bie_key := start\<rparr>]"
proof -
  obtain h where h: "ring_hdr p h c (e # adr)" using assms(1) by (auto simp: ring_at_def)
  note R = ring_hdrD [OF h] and A = ring_advance [OF h]
  let ?p = "set_index_tail (next_pos h (bih_tail h)) (set_key e start p)"
  have "insert_block_index_entry canAlloc start (p, pool) = Some (Some e, ?p, pool)"
    using R(1,10) A(2) assms(2) by (auto simp: insert_block_index_entry_def Let_def entry_free_def)
  then show ?thesis using ring_append_key [OF h, of start] index_only_trans [OF index_only_set(1,3)] by blast
qed

lemma insert_full:
  assumes "ring_at p c (e # adr)" and "bie_key (bi_entries p ! e) \<noteq> INVALID_BLOCK_BASE" and "bie_value (bi_entries p ! e) = Some (Some b)" and "c < 59"
  shows "\<not> (canAlloc \<and> fst (pool_malloc pool)) \<Longrightarrow>
      insert_block_index_entry canAlloc start (p, pool) = Some (None, p, if canAlloc then snd (pool_malloc pool) else pool)"
    and "canAlloc \<and> fst (pool_malloc pool) \<Longrightarrow>
      \<exists>p' e' adr'. insert_block_index_entry canAlloc start (p, pool) = Some (Some e', p', snd (pool_malloc pool)) \<and> index_only p p' \<and>
        ring_at p' (Suc c) (adr' @ [e']) \<and>
        ring_view p' (adr' @ [e']) = replicate (2 ^ c - 1) unused_entry @ ring_view p (e # adr) @ [unused_entry\<lparr>bie_key := start\<rparr>]"
proof -
  obtain h where h: "ring_hdr p h c (e # adr)" using assms(1) by (auto simp: ring_at_def)
  note R = ring_hdrD [OF h] and A = ring_advance [OF h]
  have e: "e < length (bi_entries p)" using R(10) by simp
  have *: "insert_block_index_entry canAlloc start (p, pool) =
      (if \<not> canAlloc then Some (None, p, pool)
       else do {
         let (ok, pool) = pool_malloc pool;
         (made, p) \<leftarrow> new_block_index ok p;
         if \<not> made then Some (None, p, pool)
         else do {
           h \<leftarrow> current_index p;
           let newTail = next_pos h (bih_tail h);
           e \<leftarrow> nth_opt (bih_index h) (unat newTail);
           entry \<leftarrow> nth_opt (bi_entries p) e;
           assert_that (bie_key entry = INVALID_BLOCK_BASE);
           Some (Some e, set_index_tail newTail (set_key e start p), pool)
         }
       })"
    unfolding insert_block_index_entry_def using R(1) A(2) assms(2,3) e by (simp add: Let_def)
  show "insert_block_index_entry canAlloc start (p, pool) = Some (None, p, if canAlloc then snd (pool_malloc pool) else pool)"
    if "\<not> (canAlloc \<and> fst (pool_malloc pool))"
    unfolding * using that by (simp add: new_block_index_def Let_def split_beta)
  let ?new = "[length (bi_entries p)..<length (bi_entries p) + 2 ^ c]"
  obtain p1 h1 where p1: "new_block_index True p = Some (True, p1)" "ring_hdr p1 h1 (Suc c) (?new @ e # adr)"
    "ring_view p1 (?new @ e # adr) = replicate (2 ^ c) unused_entry @ ring_view p (e # adr)" "index_only p p1"
    using new_block_index_grow [OF h assms(4)] by blast
  let ?e = "length (bi_entries p)" and ?adr = "[Suc (length (bi_entries p))..<length (bi_entries p) + 2 ^ c] @ e # adr"
  have new: "?new @ e # adr = ?e # ?adr" by (simp add: upt_conv_Cons)
  have h1: "ring_hdr p1 h1 (Suc c) (?e # ?adr)" using p1(2) unfolding new .
  note R1 = ring_hdrD [OF h1] and A1 = ring_advance [OF h1]
  have v: "ring_view p1 (?e # ?adr) = unused_entry # replicate (2 ^ c - 1) unused_entry @ ring_view p (e # adr)"
    using p1(3) unfolding new by (cases "(2 :: nat) ^ c") simp_all
  then have e1: "bi_entries p1 ! ?e = unused_entry" and v1: "ring_view p1 ?adr = replicate (2 ^ c - 1) unused_entry @ ring_view p (e # adr)"
    by (simp_all add: ring_view_def)
  assume ok: "canAlloc \<and> fst (pool_malloc pool)"
  have "insert_block_index_entry canAlloc start (p, pool) =
      Some (Some ?e, set_index_tail (next_pos h1 (bih_tail h1)) (set_key ?e start p1), snd (pool_malloc pool))"
    unfolding * using ok p1(1) R1(1,10) A1(2) e1 by (simp add: Let_def split_beta unused_entry_def)
  then show "\<exists>p' e' adr'. insert_block_index_entry canAlloc start (p, pool) = Some (Some e', p', snd (pool_malloc pool)) \<and> index_only p p' \<and>
        ring_at p' (Suc c) (adr' @ [e']) \<and>
        ring_view p' (adr' @ [e']) = replicate (2 ^ c - 1) unused_entry @ ring_view p (e # adr) @ [unused_entry\<lparr>bie_key := start\<rparr>]"
    using ring_append_key [OF h1, of start] e1 v1 index_only_trans [OF p1(4) index_only_trans [OF index_only_set(1,3)]]
    by (intro exI [of _ "set_index_tail (next_pos h1 (bih_tail h1)) (set_key ?e start p1)"] exI [of _ ?e] exI [of _ ?adr]) auto
qed


lemma block_base: "word_of_nat i AND NOT (BLOCK_SIZE - 1) = word_of_nat (32 * (i div 32))"
proof -
  let ?w = "word_of_nat i :: u64"
  have m: "BLOCK_SIZE - 1 = mask 5" by (simp add: BLOCK_SIZE_def mask_eq_exp_minus_1)
  have "(?w AND NOT (mask 5)) + take_bit 5 ?w = (?w AND NOT (mask 5)) OR take_bit 5 ?w"
    by (rule disjunctive_add_eq_or) (rule bit_word_eqI, auto simp: bit_simps)
  also have "\<dots> = ?w" by (rule bit_word_eqI) (auto simp: bit_simps)
  finally have "?w AND NOT (BLOCK_SIZE - 1) = ?w - take_bit 5 ?w" unfolding m by (metis add_diff_cancel_right')
  moreover have "take_bit 5 ?w = word_of_nat (i mod 32)"
    by (rule word_unat_eq_iff [THEN iffD2])
      (use mod64_mod [of 5 i] in \<open>simp add: unsigned_take_bit_eq take_bit_eq_mod unat_word_of_nat unat_mod\<close>)
  moreover have "?w - word_of_nat (i mod 32) = word_of_nat (i - i mod 32)" by (simp add: of_nat_diff)
  ultimately show ?thesis by (simp add: minus_mod_eq_mult_div)
qed

text \<open>
  Looking backwards from the last block: the unsigned quotient is \<open>2\<^sup>5\<^sup>9 - d\<close> instead of \<open>- d\<close>, which is the same
  modulo every capacity up to \<open>2\<^sup>5\<^sup>9\<close>.
\<close>

lemma lookup_offset:
  assumes "unat cap = 2 ^ c" and "c \<le> 59" and "unat tail < 2 ^ c" and "d < 2 ^ c"
  shows "unat ((tail + (word_of_nat (32 * k) - word_of_nat (32 * (k + d))) div BLOCK_SIZE) AND (cap - 1)) = (unat tail + (2 ^ c - d)) mod 2 ^ c"
proof -
  let ?diff = "word_of_nat (32 * k) - word_of_nat (32 * (k + d)) :: u64"
  have le: "(2 :: nat) ^ c \<le> 2 ^ 59" using assms(2) by (intro power_increasing) simp_all
  then have d: "d < 2 ^ 59" using assms(4) by linarith
  have diff: "?diff = - word_of_nat (32 * d)" by (simp add: algebra_simps)
  have "unat (word_of_nat (32 * d) :: u64) = 32 * d" using d by (simp add: unat_word_of_nat del: of_nat_mult)
  then have "unat ?diff = (if d = 0 then 0 else 2 ^ 64 - 32 * d)"
    unfolding diff unat_uminus by (auto simp: unat_eq_zero [symmetric])
  then have "unat (?diff div BLOCK_SIZE) = (if d = 0 then 0 else (2 ^ 64 - 32 * d) div 32)" by (simp add: unat_div)
  also have "(2 ^ 64 - 32 * d) div 32 = 2 ^ 59 - d"
    using div_mult_self1_is_m [of 32 "2 ^ 59 - d"] by (simp add: diff_mult_distrib2)
  finally have q: "unat (?diff div BLOCK_SIZE) = (if d = 0 then 0 else 2 ^ 59 - d)" .
  have cap: "unat ((tail + ?diff div BLOCK_SIZE) AND (cap - 1)) = (unat tail + unat (?diff div BLOCK_SIZE)) mod 2 ^ c"
    using and_pow2_minus_1 [OF assms(1), of "tail + ?diff div BLOCK_SIZE"] assms(2) by (simp add: unat_add_u64 mod64_mod)
  obtain m where m: "(2 :: nat) ^ 59 = m * 2 ^ c" using le_imp_power_dvd [OF assms(2), of "2 :: nat"] by (auto simp: dvd_def mult.commute)
  show ?thesis
  proof (cases "d = 0")
    case True
    then show ?thesis using cap q by simp
  next
    case False
    have "0 < m" using m by (cases m) simp_all
    then have "2 ^ 59 - d = (m - 1) * 2 ^ c + (2 ^ c - d)" using m assms(4) le by (simp add: diff_mult_distrib)
    then have "unat tail + (2 ^ 59 - d) = (unat tail + (2 ^ c - d)) + (m - 1) * 2 ^ c" by simp
    then have "(unat tail + (2 ^ 59 - d)) mod 2 ^ c = (unat tail + (2 ^ c - d)) mod 2 ^ c" by (metis mod_mult_self1)
    then show ?thesis using cap q False by simp
  qed
qed

definition live_entry :: "nat \<Rightarrow> nat \<Rightarrow> block_index_entry" where
  "live_entry k b = \<lparr>bie_key = word_of_nat (32 * k), bie_value = Some (Some b)\<rparr>"

lemma block_base_valid: "(word_of_nat (32 * k) :: u64) \<noteq> INVALID_BLOCK_BASE"
proof
  assume "(word_of_nat (32 * k) :: u64) = INVALID_BLOCK_BASE"
  then have "slot_of (word_of_nat (32 * k)) = slot_of INVALID_BLOCK_BASE" by simp
  then show False using slot_of_nat [of 1] by (simp add: slot_of_nat INVALID_BLOCK_BASE_def del: of_nat_mult)
qed

lemma lookup_live:
  assumes ring: "ring_at p c adr" and view: "ring_view p adr = spare @ map2 live_entry [k..<k + length bs] bs" and j: "j < length bs"
    and i: "i div 32 = k + j"
  shows "get_block_index_entry_for_index (word_of_nat i) p = Some (adr ! (length spare + j))"
proof -
  obtain h where h: "ring_hdr p h c adr" using ring by (auto simp: ring_at_def)
  note R = ring_hdrD [OF h]
  let ?n = "length bs" and ?t = "unat (bih_tail h)" and ?I = "length spare"
  have lens: "length adr = 2 ^ c" "?I + ?n = 2 ^ c"
    using ring_length [OF ring] arg_cong [OF view, of length] by (simp_all add: ring_view_def)
  have ent: "bi_entries p ! (adr ! (?I + m)) = live_entry (k + m) (bs ! m)" if "m < ?n" for m
  proof -
    have "ring_view p adr ! (?I + m) = live_entry (k + m) (bs ! m)" using view that by (simp add: nth_append)
    then show ?thesis using that lens by (simp add: ring_view_def)
  qed
  have last: "?I + (?n - 1) = 2 ^ c - 1" using lens j by linarith
  have te: "nth_opt (bih_index h) ?t = Some (adr ! (?I + (?n - 1)))"
    using ring_tail [OF R(5,6)] R(5,6,8) last by simp
  have tent: "nth_opt (bi_entries p) (adr ! (?I + (?n - 1))) = Some (live_entry (k + (?n - 1)) (bs ! (?n - 1)))"
    using ent [of "?n - 1"] ring_range [OF ring, of "?I + (?n - 1)"] lens last j by simp
  let ?d = "?n - 1 - j"
  have "?d < 2 ^ c" "k + (?n - 1) = (k + j) + ?d" using lens j by linarith+
  then have idx: "unat ((bih_tail h + (word_of_nat (32 * (k + j)) - word_of_nat (32 * (k + (?n - 1)))) div BLOCK_SIZE) AND (bih_capacity h - 1)) = (?t + (2 ^ c - ?d)) mod 2 ^ c"
    using lookup_offset [OF R(2,4,6)] by simp
  let ?x = "(bih_tail h + (word_of_nat (32 * (k + j)) - word_of_nat (32 * (k + (?n - 1)))) div BLOCK_SIZE) AND (bih_capacity h - 1)"
  have "?t + (2 ^ c - ?d) = Suc ?t + (?I + j)" using lens j by linarith
  then have ix: "nth_opt (bih_index h) (unat ?x) = Some (adr ! (?I + j))"
    using ring_nth [OF R(5), of "?I + j" ?t] lens j R(5,8) idx by simp
  have ient: "nth_opt (bi_entries p) (adr ! (?I + j)) = Some (live_entry (k + j) (bs ! j))"
    using ent [OF j] ring_range [OF ring, of "?I + j"] lens j by simp
  have "get_block_index_index_for_index (word_of_nat i) p = Some ?x"
    unfolding get_block_index_index_for_index_def Let_def block_base i
    using R(1) te tent ix ient block_base_valid by (simp add: live_entry_def del: of_nat_mult of_nat_add distrib_left_numeral)
  then show ?thesis using R(1) ix by (simp add: get_block_index_entry_for_index_def)
qed

end
