(* ===== verification/MpmcProducer.thy ===== *)
theory MpmcProducer
  imports MpmcIndex
begin

text \<open>
  Enqueueing and dequeueing at one implicit producer (\<^verbatim>\<open>ImplicitProducer\<close> of
  \<^verbatim>\<open>src/lib/concurrentqueue/concurrentqueue.h\<close>), one call after the other. The elements are pointers, so constructing and
  assigning them cannot throw and the handlers for exceptions are not compiled. The lemmas show that a producer is a
  queue of its elements, for indices that wrap around, index growth and failed allocations included.
\<close>

section \<open>Model\<close>

definition upd_cq_block :: "nat \<Rightarrow> ('a cq_block \<Rightarrow> 'a cq_block) \<Rightarrow> 'a block_pool \<Rightarrow> 'a block_pool option" where
  "upd_cq_block b f pool = do { blk \<leftarrow> nth_opt (cq_blocks pool) b; Some (pool\<lparr>cq_blocks := (cq_blocks pool)[b := f blk]\<rparr>) }"

text \<open>The end of \<^verbatim>\<open>enqueue\<close>: construct the object, then publish the new tail index.\<close>

definition imp_store :: "u64 \<Rightarrow> 'a \<Rightarrow> imp_producer \<times> 'a block_pool \<Rightarrow> (bool \<times> imp_producer \<times> 'a block_pool) option" where
  "imp_store currentTailIndex x s =
     (let (p, pool) = s in do {
       b \<leftarrow> ip_tailBlock p;
       pool \<leftarrow> upd_cq_block b (put_elem currentTailIndex x) pool;
       Some (True, p\<lparr>tailIndex := 1 + currentTailIndex\<rparr>, pool)
     })"

text \<open>Getting a block for the entry at address \<open>e\<close> of the index; the entry is taken back when there is none.\<close>

definition imp_attach_block :: "bool \<Rightarrow> nat \<Rightarrow> imp_producer \<times> 'a block_pool \<Rightarrow> (bool \<times> imp_producer \<times> 'a block_pool) option" where
  "imp_attach_block canAlloc e s =
     (let (p, pool) = s in do {
       (newBlock, pool) \<leftarrow> requisition_block canAlloc pool;
       case newBlock of
         None \<Rightarrow> do { p \<leftarrow> rewind_block_index_tail p; Some (False, set_value e None p, pool) }
       | Some b \<Rightarrow> do {
           pool \<leftarrow> upd_cq_block b (reset_empty implicit_context) pool;
           Some (True, (set_value e (Some b) p)\<lparr>ip_tailBlock := Some b\<rparr>, pool)
         }
     })"

definition imp_new_tail_block :: "bool \<Rightarrow> imp_producer \<times> 'a block_pool \<Rightarrow> (bool \<times> imp_producer \<times> 'a block_pool) option" where
  "imp_new_tail_block canAlloc s =
     (let (p, pool) = s; currentTailIndex = tailIndex p; head = headIndex p in do {
       assert_that (\<not> circular_less_than currentTailIndex head);
       if \<not> circular_less_than head (currentTailIndex + BLOCK_SIZE) \<or>
          MAX_SUBQUEUE_SIZE \<noteq> const_numeric_max \<and> (MAX_SUBQUEUE_SIZE = 0 \<or> MAX_SUBQUEUE_SIZE - BLOCK_SIZE < currentTailIndex - head)
       then Some (False, p, pool)
       else do {
         (idxEntry, p, pool) \<leftarrow> insert_block_index_entry canAlloc currentTailIndex (p, pool);
         case idxEntry of None \<Rightarrow> Some (False, p, pool) | Some e \<Rightarrow> imp_attach_block canAlloc e (p, pool)
       }
     })"

definition imp_enqueue :: "bool \<Rightarrow> 'a \<Rightarrow> imp_producer \<times> 'a block_pool \<Rightarrow> (bool \<times> imp_producer \<times> 'a block_pool) option" where
  "imp_enqueue canAlloc x s =
     (let currentTailIndex = tailIndex (fst s) in
      if currentTailIndex AND (BLOCK_SIZE - 1) = 0
      then do {
        (ok, p, pool) \<leftarrow> imp_new_tail_block canAlloc s;
        if \<not> ok then Some (False, p, pool) else imp_store currentTailIndex x (p, pool)
      }
      else imp_store currentTailIndex x s)"

text \<open>Taking the element at \<open>index\<close> out of its block, and releasing the block with its last element.\<close>

definition imp_take :: "u64 \<Rightarrow> imp_producer \<times> 'a block_pool \<Rightarrow> ('a option \<times> imp_producer \<times> 'a block_pool) option" where
  "imp_take index s =
     (let (p, pool) = s in do {
       e \<leftarrow> get_block_index_entry_for_index index p;
       entry \<leftarrow> nth_opt (bi_entries p) e;
       v \<leftarrow> bie_value entry;
       b \<leftarrow> v;
       blk \<leftarrow> nth_opt (cq_blocks pool) b;
       x \<leftarrow> get_elem index blk;
       (emptied, blk) \<leftarrow> set_empty implicit_context index (destroy_elem index blk);
       let pool = pool\<lparr>cq_blocks := (cq_blocks pool)[b := blk]\<rparr>;
       if emptied
       then do { pool \<leftarrow> add_block_to_free_list b pool; Some (Some x, set_value e None p, pool) }
       else Some (Some x, p, pool)
     })"

definition imp_dequeue :: "imp_producer \<times> 'a block_pool \<Rightarrow> ('a option \<times> imp_producer \<times> 'a block_pool) option" where
  "imp_dequeue s =
     (let (p, pool) = s; overcommit = dequeueOvercommit p in
      if circular_less_than (dequeueOptimisticCount p - overcommit) (tailIndex p)
      then do {
        let myDequeueCount = dequeueOptimisticCount p;
        let p = p\<lparr>dequeueOptimisticCount := myDequeueCount + 1\<rparr>;
        assert_that (overcommit \<le> myDequeueCount);
        if circular_less_than (myDequeueCount - overcommit) (tailIndex p)
        then (let index = headIndex p; p = p\<lparr>headIndex := index + 1\<rparr> in imp_take index (p, pool))
        else Some (None, p\<lparr>dequeueOvercommit := dequeueOvercommit p + 1\<rparr>, pool)
      }
      else Some (None, p, pool))"

text \<open>\<^verbatim>\<open>ProducerBase::size_approx\<close>.\<close>

definition prod_size_approx :: "imp_producer \<Rightarrow> u64" where
  "prod_size_approx p = (if circular_less_than (headIndex p) (tailIndex p) then tailIndex p - headIndex p else 0)"

text \<open>The constructor; a failed allocation of the block index is not noticed.\<close>

definition new_imp_producer :: "bool \<Rightarrow> imp_producer option" where
  "new_imp_producer ok =
     do {
       (_, p) \<leftarrow> new_block_index ok \<lparr>inactive = False, tailIndex = 0, headIndex = 0, dequeueOptimisticCount = 0, dequeueOvercommit = 0,
         ip_tailBlock = None, nextBlockIndexCapacity = IMPLICIT_INITIAL_INDEX_SIZE, blockIndex = [], bi_entries = []\<rparr>;
       Some p
     }"

section \<open>A producer as a queue\<close>

text \<open>
  \<open>h\<close> elements have been dequeued in all and \<open>xs\<close> are in the queue. The blocks in use are \<open>bs\<close>, the first one for the
  indices from \<open>32 * (h div 32)\<close> on.
\<close>

definition slot_val :: "'a list \<Rightarrow> nat \<Rightarrow> nat \<Rightarrow> 'a option" where
  "slot_val xs h i = (if h \<le> i \<and> i < h + length xs then Some (xs ! (i - h)) else None)"

definition block_holds :: "'a list \<Rightarrow> nat \<Rightarrow> nat \<Rightarrow> 'a cq_block \<Rightarrow> bool" where
  "block_holds xs h k blk \<longleftrightarrow> elements blk = map (\<lambda>m. slot_val xs h (32 * k + m)) [0..<32] \<and>
     elementsCompletelyDequeued blk = word_of_nat (h - 32 * k)"

definition num_blocks :: "nat \<Rightarrow> nat \<Rightarrow> nat" where
  "num_blocks h n = (h + n + 31) div 32 - h div 32"

definition blocks_hold :: "'a cq_block list \<Rightarrow> nat \<Rightarrow> 'a list \<Rightarrow> nat list \<Rightarrow> bool" where
  "blocks_hold blks h xs bs \<longleftrightarrow> length bs = num_blocks h (length xs) \<and> distinct bs \<and>
     (\<forall>j < length bs. bs ! j < length blks \<and> block_holds xs h (h div 32 + j) (blks ! (bs ! j)))"

definition index_rel :: "imp_producer \<Rightarrow> nat \<Rightarrow> nat list \<Rightarrow> bool" where
  "index_rel p k bs \<longleftrightarrow> (\<exists>c adr spare. ring_at p c adr \<and> ring_view p adr = spare @ map2 live_entry [k..<k + length bs] bs \<and>
     (\<forall>x \<in> set spare. entry_free x))"

definition counters :: "imp_producer \<Rightarrow> nat \<Rightarrow> nat \<Rightarrow> bool" where
  "counters p h n \<longleftrightarrow> headIndex p = word_of_nat h \<and> tailIndex p = word_of_nat (h + n) \<and> dequeueOptimisticCount p = word_of_nat h \<and>
     dequeueOvercommit p = 0 \<and> 32 * ((h + n + 31) div 32) < h + 2 ^ 63"

definition prod_rel :: "imp_producer \<Rightarrow> 'a cq_block list \<Rightarrow> nat \<Rightarrow> 'a list \<Rightarrow> nat list \<Rightarrow> bool" where
  "prod_rel p blks h xs bs \<longleftrightarrow> counters p h (length xs) \<and> blocks_hold blks h xs bs \<and> index_rel p (h div 32) bs \<and>
     (bs \<noteq> [] \<longrightarrow> ip_tailBlock p = Some (last bs))"

lemma counters_small: "counters p h n \<Longrightarrow> n < 2 ^ 63"
proof -
  assume "counters p h n"
  then have "32 * ((h + n + 31) div 32) < h + 2 ^ 63" by (simp add: counters_def)
  moreover have "h + n \<le> 32 * ((h + n + 31) div 32)" by linarith
  ultimately show ?thesis by linarith
qed

lemma prod_rel_frame:
  assumes "prod_rel p blks h xs bs" and "\<forall>b \<in> set bs. b < length blks' \<and> blks' ! b = blks ! b"
  shows "prod_rel p blks' h xs bs"
  using assms by (auto simp: prod_rel_def blocks_hold_def)

lemma live_upd:
  assumes "ring_at p c adr" and "ring_view p adr = spare @ x # live"
  shows "ring_view (set_value (adr ! length spare) v p) adr = spare @ x\<lparr>bie_value := Some v\<rparr> # live"
proof -
  have "length adr = length spare + Suc (length live)" using arg_cong [OF assms(2), of length] by (simp add: ring_view_def)
  then show ?thesis using view_set_value [OF assms(1), of "length spare" v] assms(2) by simp
qed

section \<open>A producer is a queue\<close>

lemma size_approx_correct:
  assumes "counters p h n"
  shows "prod_size_approx p = word_of_nat n" and "unat (prod_size_approx p) = n"
proof -
  have c: "headIndex p = word_of_nat h" "tailIndex p = headIndex p + word_of_nat n" "n < 2 ^ 63"
    using assms counters_small [of p h n] by (auto simp: counters_def)
  then show "prod_size_approx p = word_of_nat n" "unat (prod_size_approx p) = n"
    using circular_less_than_add [of n "headIndex p"] by (auto simp: prod_size_approx_def unat_word_of_nat)
qed

lemma imp_dequeue_empty:
  assumes "counters p h 0"
  shows "imp_dequeue (p, pool) = Some (None, p, pool)"
proof -
  have c: "dequeueOptimisticCount p - dequeueOvercommit p = tailIndex p" using assms by (simp add: counters_def)
  have "\<not> circular_less_than (tailIndex p) (tailIndex p)" by (simp add: circular_less_than_unat)
  then show ?thesis using c by (simp add: imp_dequeue_def)
qed


text \<open>The first element is in the first block.\<close>

lemma first_block:
  assumes "blocks_hold blks h (y # ys) bs"
  shows "bs \<noteq> []" and "block_holds (y # ys) h (h div 32) (blks ! hd bs)" and "hd bs < length blks"
    and "elements (blks ! hd bs) ! (h mod 32) = Some y" and "length (elements (blks ! hd bs)) = 32"
proof -
  have "h div 32 < (h + length (y # ys) + 31) div 32" by simp
  then have "0 < length bs" using assms unfolding blocks_hold_def num_blocks_def by linarith
  then show ne: "bs \<noteq> []" by simp
  then show bh: "block_holds (y # ys) h (h div 32) (blks ! hd bs)" and "hd bs < length blks"
    using assms by (auto simp: blocks_hold_def hd_conv_nth)
  then show "elements (blks ! hd bs) ! (h mod 32) = Some y" "length (elements (blks ! hd bs)) = 32"
    by (simp_all add: block_holds_def slot_val_def)
qed

lemma slot_val_Cons: "slot_val (y # ys) h i = (if i = h then Some y else slot_val ys (Suc h) i)"
  by (auto simp: slot_val_def nth_Cons')

lemma block_holds_other:
  assumes "block_holds (y # ys) h k blk" and "h < 32 * k"
  shows "block_holds ys (Suc h) k blk"
proof -
  have "slot_val (y # ys) h (32 * k + m) = slot_val ys (Suc h) (32 * k + m)" for m using assms(2) by (simp add: slot_val_Cons)
  then show ?thesis using assms by (simp add: block_holds_def)
qed

text \<open>Removing the first element from its block.\<close>

lemma block_take:
  assumes "block_holds (y # ys) h (h div 32) blk"
  shows "\<exists>blk'. set_empty implicit_context (word_of_nat h) (destroy_elem (word_of_nat h) blk) = Some (Suc h mod 32 = 0, blk') \<and>
    block_holds ys (Suc h) (h div 32) blk' \<and> dynamicallyAllocated blk' = dynamicallyAllocated blk"
proof -
  let ?k = "h div 32" and ?m = "h mod 32"
  have cnt: "elementsCompletelyDequeued blk = word_of_nat ?m" using assms by (simp add: block_holds_def minus_mult_div_eq_mod [symmetric])
  have m: "unat (word_of_nat ?m :: u64) = ?m" by (simp add: unat_word_of_nat)
  then have lt: "(word_of_nat ?m :: u64) < BLOCK_SIZE" by (simp add: word_less_nat_alt)
  have "(word_of_nat ?m :: u64) = BLOCK_SIZE - 1 \<longleftrightarrow> ?m = 31" using m by (simp add: word_unat_eq_iff)
  also have "\<dots> \<longleftrightarrow> Suc h mod 32 = 0" by (auto simp: mod_Suc)
  finally have last: "(word_of_nat ?m :: u64) = BLOCK_SIZE - 1 \<longleftrightarrow> Suc h mod 32 = 0" .
  define blk' where "blk' = (destroy_elem (word_of_nat h) blk)\<lparr>elementsCompletelyDequeued := word_of_nat ?m + 1\<rparr>"
  have res: "set_empty implicit_context (word_of_nat h) (destroy_elem (word_of_nat h) blk) = Some (Suc h mod 32 = 0, blk')"
    using cnt lt last by (simp add: set_empty_def Let_def destroy_elem_def blk'_def)
  have "elements blk' = map (\<lambda>m. slot_val ys (Suc h) (32 * ?k + m)) [0..<32]"
  proof (rule nth_equalityI)
    fix m assume "m < length (elements blk')"
    then have m32: "m < 32" using assms by (simp add: blk'_def destroy_elem_def block_holds_def)
    have "32 * ?k + m = h \<longleftrightarrow> m = ?m" using m32 mult_div_mod_eq [of 32 h] by linarith
    then show "elements blk' ! m = map (\<lambda>m. slot_val ys (Suc h) (32 * ?k + m)) [0..<32] ! m"
      using assms m32 by (auto simp: blk'_def destroy_elem_def block_holds_def slot_of_nat nth_list_update slot_val_Cons) (simp add: slot_val_def)
  qed (use assms in \<open>simp add: blk'_def destroy_elem_def block_holds_def\<close>)
  moreover have "word_of_nat ?m + 1 = (word_of_nat (Suc h - 32 * ?k) :: u64)"
  proof -
    have "Suc h - 32 * ?k = Suc ?m" using mult_div_mod_eq [of 32 h] by linarith
    then show ?thesis by simp
  qed
  ultimately have "block_holds ys (Suc h) ?k blk'" by (simp add: block_holds_def blk'_def)
  then show ?thesis using res by (simp add: blk'_def destroy_elem_def)
qed

lemma blocks_hold_take:
  assumes "blocks_hold blks h (y # ys) bs" and "block_holds ys (Suc h) (h div 32) blk"
  shows "blocks_hold (blks[hd bs := blk]) (Suc h) ys (if Suc h mod 32 = 0 then tl bs else bs)"
proof -
  note F = first_block [OF assms(1)] and B = assms(1) [unfolded blocks_hold_def]
  have nth: "(blks[hd bs := blk]) ! (bs ! j) = (if j = 0 then blk else blks ! (bs ! j))" if "j < length bs" for j
  proof -
    have "hd bs = bs ! j \<longleftrightarrow> j = 0" using B that F(1) by (auto simp: hd_conv_nth nth_eq_iff_index_eq)
    then show ?thesis using F(3) by (auto simp: nth_list_update)
  qed
  have other: "block_holds ys (Suc h) (h div 32 + j) (blks ! (bs ! j))" if "j < length bs" "0 < j" for j
    using block_holds_other [of y ys h "h div 32 + j" "blks ! (bs ! j)"] B that by auto
  show ?thesis
  proof (cases "Suc h mod 32 = 0")
    case True
    have d: "Suc h div 32 = Suc (h div 32)" using True by (simp add: div_Suc)
    have "num_blocks (Suc h) (length ys) = num_blocks h (length (y # ys)) - 1" by (simp add: num_blocks_def d)
    moreover have "block_holds ys (Suc h) (Suc h div 32 + j) (blks[hd bs := blk] ! (tl bs ! j))" "tl bs ! j < length blks"
      if "j < length (tl bs)" for j
      using that other [of "Suc j"] nth [of "Suc j"] B by (auto simp: d nth_tl)
    ultimately show ?thesis using True B by (simp add: blocks_hold_def distinct_tl)
  next
    case False
    have d: "Suc h div 32 = h div 32" using False by (simp add: div_Suc)
    have "num_blocks (Suc h) (length ys) = num_blocks h (length (y # ys))" by (simp add: num_blocks_def d)
    moreover have "block_holds ys (Suc h) (Suc h div 32 + j) (blks[hd bs := blk] ! (bs ! j))" if "j < length bs" for j
      using that other [of j] nth [of j] assms(2) by (auto simp: d)
    ultimately show ?thesis using False B by (simp add: blocks_hold_def)
  qed
qed

lemma map2_live_Cons: "map2 live_entry [k..<k + length (b # bs)] (b # bs) = live_entry k b # map2 live_entry [Suc k..<Suc k + length bs] bs"
  by (simp add: upt_conv_Cons del: upt_Suc)

lemma index_rel_lookup:
  assumes "index_rel p (h div 32) (b # bs)"
  shows "\<exists>e. get_block_index_entry_for_index (word_of_nat h) p = Some e \<and> nth_opt (bi_entries p) e = Some (live_entry (h div 32) b) \<and>
    index_rel (set_value e None p) (Suc (h div 32)) bs"
proof -
  let ?k = "h div 32"
  obtain c adr spare where R: "ring_at p c adr" "ring_view p adr = spare @ map2 live_entry [?k..<?k + length (b # bs)] (b # bs)"
    "\<forall>x \<in> set spare. entry_free x" using assms by (auto simp: index_rel_def)
  let ?e = "adr ! length spare"
  have l: "get_block_index_entry_for_index (word_of_nat h) p = Some ?e"
    using lookup_live [OF R(1,2), of 0 h] by simp
  have v: "ring_view p adr = spare @ live_entry ?k b # map2 live_entry [Suc ?k..<Suc ?k + length bs] bs" using R(2) unfolding map2_live_Cons .
  have len: "length spare < length adr" using arg_cong [OF v, of length] by (simp add: ring_view_def)
  have "ring_view p adr ! length spare = live_entry ?k b" unfolding v by simp
  then have "nth_opt (bi_entries p) ?e = Some (live_entry ?k b)" using ring_range [OF R(1) len] len by (simp add: ring_view_def)
  moreover have "index_rel (set_value ?e None p) (Suc ?k) bs"
    unfolding index_rel_def
    using R(1,3) live_upd [OF R(1) v, of None]
    by (intro exI [of _ c] exI [of _ adr] exI [of _ "spare @ [(live_entry ?k b)\<lparr>bie_value := Some None\<rparr>]"]) (auto simp: entry_free_def)
  ultimately show ?thesis using l by blast
qed


lemma index_rel_counters [simp]:
  "index_rel (p\<lparr>dequeueOptimisticCount := o'\<rparr>) k bs \<longleftrightarrow> index_rel p k bs" "index_rel (p\<lparr>headIndex := h'\<rparr>) k bs \<longleftrightarrow> index_rel p k bs"
  "index_rel (p\<lparr>tailIndex := t'\<rparr>) k bs \<longleftrightarrow> index_rel p k bs" "index_rel (p\<lparr>ip_tailBlock := tb\<rparr>) k bs \<longleftrightarrow> index_rel p k bs"
  by (simp_all add: index_rel_def ring_at_def ring_hdr_def current_index_def ring_view_def)

lemma set_value_sel [simp]:
  "headIndex (set_value e v p) = headIndex p" "tailIndex (set_value e v p) = tailIndex p" "ip_tailBlock (set_value e v p) = ip_tailBlock p"
  "dequeueOptimisticCount (set_value e v p) = dequeueOptimisticCount p" "dequeueOvercommit (set_value e v p) = dequeueOvercommit p"
  "inactive (set_value e v p) = inactive p"
  by (simp_all add: set_value_def)

text \<open>Dequeueing from a producer that has elements returns the first one.\<close>

lemma imp_dequeue_Cons:
  assumes rel: "prod_rel p (cq_blocks pool) h (y # ys) bs" and inv: "pool_inv pool used" and sub: "set bs \<subseteq> used"
  shows "\<exists>p' pool' bs'. imp_dequeue (p, pool) = Some (Some y, p', pool') \<and> prod_rel p' (cq_blocks pool') (Suc h) ys bs' \<and>
    set bs' \<subseteq> set bs \<and> pool_inv pool' (used - (set bs - set bs')) \<and> length (cq_blocks pool') = length (cq_blocks pool) \<and>
    (\<forall>b. b \<notin> set bs \<longrightarrow> cq_blocks pool' ! b = cq_blocks pool ! b) \<and> answers pool' = answers pool \<and> inactive p' = inactive p"
proof -
  let ?n = "length (y # ys)" and ?k = "h div 32"
  have c: "counters p h ?n" and bh: "blocks_hold (cq_blocks pool) h (y # ys) bs" and ir: "index_rel p ?k bs"
    and tb: "bs \<noteq> [] \<longrightarrow> ip_tailBlock p = Some (last bs)" using rel by (simp_all add: prod_rel_def)
  note F = first_block [OF bh] and C = c [unfolded counters_def]
  define p1 where "p1 = p\<lparr>dequeueOptimisticCount := word_of_nat h + 1, headIndex := word_of_nat h + 1\<rparr>"
  have less: "circular_less_than (word_of_nat h) (tailIndex p)"
    using circular_less_than_add [of ?n "word_of_nat h"] counters_small [OF c] C by (simp add: add.left_commute)
  have deq: "imp_dequeue (p, pool) = imp_take (word_of_nat h) (p1, pool)"
    using C less by (simp add: imp_dequeue_def Let_def p1_def)
  obtain b bs1 where bs: "bs = b # bs1" using F(1) by (cases bs) auto
  have "index_rel p1 ?k (b # bs1)" using ir by (simp add: p1_def bs)
  then obtain e where e: "get_block_index_entry_for_index (word_of_nat h) p1 = Some e" "nth_opt (bi_entries p1) e = Some (live_entry ?k b)"
    "index_rel (set_value e None p1) (Suc ?k) bs1" using index_rel_lookup by blast
  let ?blk = "cq_blocks pool ! b"
  have b: "nth_opt (cq_blocks pool) b = Some ?blk" "get_elem (word_of_nat h) ?blk = Some y"
    using F(3-5) by (simp_all add: bs get_elem_def slot_of_nat)
  obtain blk' where blk': "set_empty implicit_context (word_of_nat h) (destroy_elem (word_of_nat h) ?blk) = Some (Suc h mod 32 = 0, blk')"
    "block_holds ys (Suc h) ?k blk'" "dynamicallyAllocated blk' = dynamicallyAllocated ?blk"
    using block_take [of y ys h ?blk] F(2) bs by auto
  let ?pool = "pool\<lparr>cq_blocks := (cq_blocks pool)[b := blk']\<rparr>"
  have pinv: "pool_inv ?pool used"
    using sub bs blk'(2,3) by (intro pool_update [OF inv]) (auto simp: block_holds_def)
  have hold: "blocks_hold (cq_blocks ?pool) (Suc h) ys (if Suc h mod 32 = 0 then bs1 else bs)"
    using blocks_hold_take [OF bh blk'(2)] unfolding bs by (simp split: if_splits)
  have cnt: "counters p1 (Suc h) (length ys)" using C by (simp add: counters_def p1_def add.commute)
  have take: "imp_take (word_of_nat h) (p1, pool) =
      (if Suc h mod 32 = 0 then do { pool \<leftarrow> add_block_to_free_list b ?pool; Some (Some y, set_value e None p1, pool) } else Some (Some y, p1, ?pool))"
    using e(1,2) b blk'(1) by (simp add: imp_take_def Let_def live_entry_def)
  show ?thesis
  proof (cases "Suc h mod 32 = 0")
    case False
    have d: "Suc h div 32 = ?k" using False by (simp add: div_Suc)
    have "prod_rel p1 (cq_blocks ?pool) (Suc h) ys bs"
      using cnt hold ir tb False unfolding prod_rel_def d by (simp add: p1_def)
    then show ?thesis unfolding deq take using False pinv by (auto simp: p1_def bs)
  next
    case True
    have d: "Suc h div 32 = Suc ?k" using True by (simp add: div_Suc)
    have "slot_val ys (Suc h) (32 * ?k + m) = None" if "m < 32" for m
    proof -
      have "h mod 32 = 31" using True by (simp add: mod_Suc split: if_splits)
      then have "32 * ?k + m < Suc h" using that mult_div_mod_eq [of 32 h] by linarith
      then show ?thesis by (simp add: slot_val_def)
    qed
    then have "elements (cq_blocks ?pool ! b) = replicate 32 None"
      using blk'(2) F(3) bs by (intro nth_equalityI) (auto simp: block_holds_def)
    then obtain pool' where pool': "add_block_to_free_list b ?pool = Some pool'" "pool_inv pool' (used - {b})" "cq_blocks pool' = cq_blocks ?pool"
      "answers pool' = answers ?pool"
      using add_block_ok [OF pinv, of b] sub bs by auto
    have last: "bs1 \<noteq> [] \<Longrightarrow> ip_tailBlock p = Some (last bs1)" using tb bs by simp
    have "prod_rel (set_value e None p1) (cq_blocks pool') (Suc h) ys bs1"
      using cnt hold e(3) last True unfolding prod_rel_def d pool'(3) by (simp add: p1_def counters_def)
    moreover have "b \<notin> set bs1" using bh bs by (simp add: blocks_hold_def)
    then have "used - (set bs - set bs1) = used - {b}" using bs by auto
    ultimately show ?thesis unfolding deq take using True pool' bs
      by (intro exI [of _ "set_value e None p1"] exI [of _ pool'] exI [of _ bs1]) (auto simp: p1_def)
  qed
qed


text \<open>Before the object is stored, the last of the blocks \<open>bs\<close> has room for it.\<close>

definition pre_store :: "imp_producer \<Rightarrow> 'a cq_block list \<Rightarrow> nat \<Rightarrow> 'a list \<Rightarrow> nat list \<Rightarrow> bool" where
  "pre_store p blks h xs bs \<longleftrightarrow>
     headIndex p = word_of_nat h \<and> tailIndex p = word_of_nat (h + length xs) \<and> dequeueOptimisticCount p = word_of_nat h \<and>
     dequeueOvercommit p = 0 \<and> 32 * ((h + Suc (length xs) + 31) div 32) < h + 2 ^ 63 \<and>
     length bs = num_blocks h (Suc (length xs)) \<and> distinct bs \<and>
     (\<forall>j < length bs. bs ! j < length blks \<and> block_holds xs h (h div 32 + j) (blks ! (bs ! j))) \<and>
     index_rel p (h div 32) bs \<and> ip_tailBlock p = Some (last bs)"

lemma block_pos: "m < 32 \<Longrightarrow> 32 * k + m = i \<longleftrightarrow> k = i div 32 \<and> m = i mod (32 :: nat)"
  by auto

lemma ceil_inside: "i mod 32 \<noteq> 0 \<Longrightarrow> (i + 32) div 32 = (i + 31) div (32 :: nat)"
  using div_Suc [of "i + 31" 32] by simp

lemma ceil_boundary: "i mod 32 = 0 \<Longrightarrow> (i + 31) div 32 = i div (32 :: nat)"
  using mult_div_mod_eq [of 32 i] by linarith

lemma slot_val_snoc: "slot_val (xs @ [x]) h i = (if i = h + length xs then Some x else slot_val xs h i)"
  by (auto simp: slot_val_def nth_append)

lemma block_holds_snoc:
  assumes "block_holds xs h k blk"
  shows "block_holds (xs @ [x]) h k (if k = (h + length xs) div 32 then put_elem (word_of_nat (h + length xs)) x blk else blk)"
proof -
  let ?i = "h + length xs"
  have eq: "32 * k + m = ?i \<longleftrightarrow> k = ?i div 32 \<and> m = ?i mod 32" if "m < 32" for m by (rule block_pos [OF that])
  have len: "length (elements blk) = 32" using assms by (simp add: block_holds_def)
  have "elements (if k = ?i div 32 then put_elem (word_of_nat ?i) x blk else blk) = map (\<lambda>m. slot_val (xs @ [x]) h (32 * k + m)) [0..<32]"
  proof (rule nth_equalityI)
    fix m assume "m < length (elements (if k = ?i div 32 then put_elem (word_of_nat ?i) x blk else blk))"
    then have m: "m < 32" using len by (simp add: put_elem_def split: if_splits)
    have e: "elements blk ! m = slot_val xs h (32 * k + m)" using assms m by (simp add: block_holds_def)
    show "elements (if k = ?i div 32 then put_elem (word_of_nat ?i) x blk else blk) ! m = map (\<lambda>m. slot_val (xs @ [x]) h (32 * k + m)) [0..<32] ! m"
      using eq [OF m] m e len slot_of_nat [of ?i] by (auto simp: put_elem_def nth_list_update slot_val_snoc)
  qed (use len in \<open>simp add: put_elem_def\<close>)
  then show ?thesis using assms by (simp add: block_holds_def put_elem_def)
qed

lemma imp_store_ok:
  assumes pre: "pre_store p (cq_blocks pool) h xs bs" and inv: "pool_inv pool used" and sub: "set bs \<subseteq> used"
  shows "\<exists>p' pool'. imp_store (tailIndex p) x (p, pool) = Some (True, p', pool') \<and> prod_rel p' (cq_blocks pool') h (xs @ [x]) bs \<and>
    pool_inv pool' used \<and> length (cq_blocks pool') = length (cq_blocks pool) \<and>
    (\<forall>b. b \<notin> set bs \<longrightarrow> cq_blocks pool' ! b = cq_blocks pool ! b) \<and> answers pool' = answers pool \<and> inactive p' = inactive p"
proof -
  note P = pre [unfolded pre_store_def]
  let ?i = "h + length xs" and ?k = "h div 32"
  have "h div 32 < (?i + 32) div 32" by simp
  then have n: "length bs = (?i + 32) div 32 - ?k" "0 < length bs" using P by (simp_all add: num_blocks_def add.commute)
  then have last: "bs \<noteq> []" "?k + (length bs - 1) = ?i div 32" by auto
  let ?b = "last bs"
  have bl: "?b = bs ! (length bs - 1)" using last(1) by (simp add: last_conv_nth)
  have b: "?b < length (cq_blocks pool)" "?b \<in> set bs" using P n(2) last(1) bl by auto
  let ?blk = "put_elem (word_of_nat ?i) x (cq_blocks pool ! ?b)"
  let ?pool = "pool\<lparr>cq_blocks := (cq_blocks pool)[?b := ?blk]\<rparr>" and ?p = "p\<lparr>tailIndex := 1 + word_of_nat ?i\<rparr>"
  have res: "imp_store (tailIndex p) x (p, pool) = Some (True, ?p, ?pool)"
    using P b(1) by (simp add: imp_store_def upd_cq_block_def)
  have pinv: "pool_inv ?pool used"
    using sub b(2) pool_inv_elements [OF inv, of ?b] by (intro pool_update [OF inv]) (auto simp: put_elem_def)
  have "block_holds (xs @ [x]) h (?k + j) (cq_blocks ?pool ! (bs ! j))" if j: "j < length bs" for j
  proof -
    have "block_holds xs h (?k + j) (cq_blocks pool ! (bs ! j))" using P j by blast
    note S = block_holds_snoc [OF this, of x]
    have eq: "bs ! j = ?b \<longleftrightarrow> j = length bs - 1" using P bl j n(2) by (simp add: nth_eq_iff_index_eq)
    have blk: "cq_blocks ?pool ! (bs ! j) = (if bs ! j = ?b then ?blk else cq_blocks pool ! (bs ! j))"
      using b(1) by (simp add: nth_list_update)
    have "?k + j = ?i div 32 \<longleftrightarrow> bs ! j = ?b" using last(2) eq by linarith
    then show ?thesis using S unfolding blk by (simp only: simp_thms split: if_splits)
  qed
  moreover have "bs ! j < length (cq_blocks ?pool)" if "j < length bs" for j using P that by simp
  moreover have "length bs = num_blocks h (length (xs @ [x]))" "distinct bs" using P by simp_all
  ultimately have "blocks_hold (cq_blocks ?pool) h (xs @ [x]) bs" unfolding blocks_hold_def by blast
  moreover have "headIndex p = word_of_nat h" "dequeueOptimisticCount p = word_of_nat h" "dequeueOvercommit p = 0"
    "32 * ((h + Suc (length xs) + 31) div 32) < h + 2 ^ 63" using P by blast+
  then have "counters ?p h (length (xs @ [x]))" by (simp add: counters_def)
  moreover have "index_rel ?p ?k bs" "ip_tailBlock ?p = Some (last bs)" using P by simp_all
  ultimately have "prod_rel ?p (cq_blocks ?pool) h (xs @ [x]) bs"
    unfolding prod_rel_def by blast
  moreover have "cq_blocks ?pool ! c = cq_blocks pool ! c" if "c \<notin> set bs" for c using b(2) that by (cases "c = last bs") auto
  ultimately show ?thesis using res pinv by (intro exI [of _ ?p] exI [of _ ?pool]) simp
qed

lemma pre_store_inside:
  assumes "prod_rel p blks h xs bs" and "(h + length xs) mod 32 \<noteq> 0"
  shows "pre_store p blks h xs bs"
proof -
  let ?i = "h + length xs"
  note D = assms(1) [unfolded prod_rel_def counters_def blocks_hold_def]
  have e: "(h + Suc (length xs) + 31) div 32 = (?i + 31) div 32" using ceil_inside [OF assms(2)] by (simp add: add_ac)
  have "h div 32 \<le> ?i div 32" by (simp add: div_le_mono)
  also have "\<dots> < (?i + 31) div 32" using ceil_inside [OF assms(2)] by simp
  finally have "bs \<noteq> []" using D by (auto simp: num_blocks_def)
  then show ?thesis using D unfolding pre_store_def num_blocks_def e by simp
qed


lemma index_rel_frame: "index_only p p' \<Longrightarrow> counters p h n \<Longrightarrow> counters p' h n"
  by (simp add: counters_def index_only_sel)

lemma map2_live_snoc: "map2 live_entry [k..<k + length (bs @ [b])] (bs @ [b]) = map2 live_entry [k..<k + length bs] bs @ [live_entry (k + length bs) b]"
  by (simp add: zip_append)

text \<open>
  Inserting an entry: either the index keeps its live entries and gets a free entry with the new key at its end,
  or nothing is inserted and nothing changes.
\<close>

lemma insert_entry_ok:
  assumes "index_rel p k bs" and "32 * length bs < 2 ^ 63"
  shows "\<exists>r p' pool'. insert_block_index_entry canAlloc start (p, pool) = Some (r, p', pool') \<and> index_only p p' \<and>
    (pool' = pool \<or> pool' = snd (pool_malloc pool) \<and> canAlloc) \<and>
    (case r of
       None \<Rightarrow> index_rel p' k bs \<and> \<not> (canAlloc \<and> answers pool = [])
     | Some e \<Rightarrow> \<exists>c adr spare x. ring_at p' c (adr @ [e]) \<and> ring_view p' (adr @ [e]) = spare @ map2 live_entry [k..<k + length bs] bs @ [x\<lparr>bie_key := start\<rparr>] \<and>
         (\<forall>y \<in> set spare. entry_free y))"
proof -
  obtain c adr spare where R: "ring_at p c adr" "ring_view p adr = spare @ map2 live_entry [k..<k + length bs] bs" "\<forall>x \<in> set spare. entry_free x"
    using assms(1) by (auto simp: index_rel_def)
  have lens: "length adr = 2 ^ c" "length spare + length bs = 2 ^ c"
    using ring_length [OF R(1)] arg_cong [OF R(2), of length] by (simp_all add: ring_view_def)
  then obtain e adr' where adr: "adr = e # adr'" by (cases adr) auto
  show ?thesis
  proof (cases spare)
    case (Cons x spare')
    then have x: "bi_entries p ! e = x" "ring_view p adr' = spare' @ map2 live_entry [k..<k + length bs] bs"
      using R(2) adr by (simp_all add: ring_view_def)
    obtain p' where p': "insert_block_index_entry canAlloc start (p, pool) = Some (Some e, p', pool)" "index_only p p'" "ring_at p' c (adr' @ [e])"
      "ring_view p' (adr' @ [e]) = ring_view p adr' @ [x\<lparr>bie_key := start\<rparr>]"
      using insert_free [of p c e adr' canAlloc start pool] R(1,3) adr x(1) Cons by auto
    then show ?thesis using R(3) Cons x(2) by (intro exI [of _ "Some e"] exI [of _ p'] exI [of _ pool]) auto
  next
    case Nil
    then obtain b bs' where bs: "bs = b # bs'" using lens by (cases bs) auto
    then have e: "bi_entries p ! e = live_entry k b" using R(2) adr Nil unfolding bs map2_live_Cons by (simp add: ring_view_def)
    have "32 * (2 :: nat) ^ c < 2 ^ 63" using assms(2) lens(2) Nil by simp
    then have "(2 :: nat) ^ (5 + c) < 2 ^ 63" by (simp add: power_add)
    then have c: "c < 59" using power_less_imp_less_exp [of "2 :: nat" "5 + c" 63] by simp
    have kv: "bie_key (bi_entries p ! e) \<noteq> INVALID_BLOCK_BASE" "bie_value (bi_entries p ! e) = Some (Some b)"
      using block_base_valid [of k] by (simp_all add: e live_entry_def del: of_nat_mult)
    note I = insert_full [OF R(1) [unfolded adr] kv c]
    show ?thesis
    proof (cases "canAlloc \<and> fst (pool_malloc pool)")
      case False
      then have "insert_block_index_entry canAlloc start (p, pool) = Some (None, p, if canAlloc then snd (pool_malloc pool) else pool)"
        by (rule I(1))
      moreover have "\<not> (canAlloc \<and> answers pool = [])" using False by (auto simp: pool_malloc_def)
      ultimately show ?thesis using assms(1) by auto
    next
      case True
      then obtain p' e' adr1 where "insert_block_index_entry canAlloc start (p, pool) = Some (Some e', p', snd (pool_malloc pool))" "index_only p p'"
        "ring_at p' (Suc c) (adr1 @ [e'])"
        "ring_view p' (adr1 @ [e']) = replicate (2 ^ c - 1) unused_entry @ ring_view p (e # adr') @ [unused_entry\<lparr>bie_key := start\<rparr>]"
        using I(2) [of canAlloc pool start] by blast
      moreover have "ring_view p (e # adr') = map2 live_entry [k..<k + length bs] bs" using R(2) adr Nil by simp
      ultimately show ?thesis using True
        by (intro exI [of _ "Some e'"] exI [of _ p'] exI [of _ "snd (pool_malloc pool)"]) (auto simp del: length_Cons intro!: exI)
    qed
  qed
qed


text \<open>A taken-back entry, and an entry that receives its block.\<close>

lemma rewind_free:
  assumes "ring_at p c (adr @ [e])" and "ring_view p (adr @ [e]) = spare @ live @ [x]" and "\<forall>y \<in> set spare. entry_free y"
    and "live = map2 live_entry [k..<k + length bs] bs"
  shows "\<exists>p'. rewind_block_index_tail p = Some p' \<and> index_only p (set_value e None p') \<and> index_rel (set_value e None p') k bs"
proof -
  obtain h where "ring_hdr p h c (adr @ [e])" using assms(1) by (auto simp: ring_at_def)
  then obtain p' t where p': "rewind_block_index_tail p = Some p'" "ring_at p' c (e # adr)" "p' = set_index_tail t p"
    using ring_rewind by blast
  have v: "ring_view p' (e # adr) = x # spare @ live"
    using assms(2) by (simp add: p'(3) ring_view_def)
  have "ring_view (set_value e None p') (e # adr) = x\<lparr>bie_value := Some None\<rparr> # spare @ live"
    using view_set_value [OF p'(2), of 0 None] v by simp
  then have "index_rel (set_value e None p') k bs"
    unfolding index_rel_def using p'(2) assms(3,4)
    by (intro exI [of _ c] exI [of _ "e # adr"] exI [of _ "x\<lparr>bie_value := Some None\<rparr> # spare"]) (auto simp: entry_free_def)
  then show ?thesis using p'(1,3) index_only_trans [OF index_only_set(3) index_only_set(2)] by blast
qed

lemma entry_gets_block:
  assumes "ring_at p c (adr @ [e])" and "ring_view p (adr @ [e]) = spare @ live @ [x\<lparr>bie_key := word_of_nat (32 * (k + length bs))\<rparr>]"
    and "\<forall>y \<in> set spare. entry_free y" and "live = map2 live_entry [k..<k + length bs] bs"
  shows "index_rel (set_value e (Some b) p) k (bs @ [b])"
proof -
  have len: "length (spare @ live) = length adr" using arg_cong [OF assms(2), of length] by (simp add: ring_view_def)
  have "ring_view p (adr @ [e]) = (spare @ live) @ x\<lparr>bie_key := word_of_nat (32 * (k + length bs))\<rparr> # []" using assms(2) by simp
  from live_upd [OF assms(1) this, of "Some b"]
  have v: "ring_view (set_value e (Some b) p) (adr @ [e]) = (spare @ live) @ [live_entry (k + length bs) b]"
    unfolding len by (simp add: live_entry_def)
  show ?thesis unfolding index_rel_def map2_live_snoc
    using assms(1,3,4) v by (intro exI [of _ c] exI [of _ "adr @ [e]"] exI [of _ spare]) simp
qed

lemma fresh_block_holds:
  assumes "elements blk = replicate 32 None" and "h + length xs \<le> 32 * k"
  shows "block_holds xs h k (reset_empty implicit_context blk)"
proof -
  have "map (\<lambda>m. slot_val xs h (32 * k + m)) [0..<32] = replicate 32 None"
    using assms(2) by (intro nth_equalityI) (auto simp: slot_val_def)
  then show ?thesis using assms by (simp add: block_holds_def reset_empty_def)
qed

lemma room_test:
  assumes "counters p h n"
  shows "\<not> circular_less_than (tailIndex p) (headIndex p)"
    and "circular_less_than (headIndex p) (tailIndex p + BLOCK_SIZE) \<longleftrightarrow> n + 32 < 2 ^ 63"
proof -
  have n: "n < 2 ^ 63" by (rule counters_small [OF assms])
  have t: "tailIndex p = headIndex p + word_of_nat n" "tailIndex p + BLOCK_SIZE = headIndex p + word_of_nat (n + 32)"
    using assms by (simp_all add: counters_def BLOCK_SIZE_def)
  show "\<not> circular_less_than (tailIndex p) (headIndex p)"
  proof (cases "n = 0")
    case False
    then have "circular_less_than (headIndex p) (tailIndex p)" using circular_less_than_add [of n "headIndex p"] n t(1) by simp
    then show ?thesis by (rule circular_less_than_asym)
  qed (simp add: t(1) circular_less_than_unat)
  show "circular_less_than (headIndex p) (tailIndex p + BLOCK_SIZE) \<longleftrightarrow> n + 32 < 2 ^ 63"
    unfolding t(2) using circular_less_than_add [of "n + 32" "headIndex p"] n by simp
qed

lemma boundary_blocks:
  assumes "(h + n) mod 32 = 0"
  shows "h div 32 + num_blocks h n = (h + n) div 32" and "num_blocks h (Suc n) = Suc (num_blocks h n)"
    and "32 * num_blocks h n \<le> n + 31" and "32 * ((h + Suc n + 31) div 32) = h + n + 32"
proof -
  have le: "h div 32 \<le> (h + n) div 32" by (simp add: div_le_mono)
  have c: "(h + n + 31) div 32 = (h + n) div 32" by (rule ceil_boundary [OF assms])
  have c2: "(h + Suc n + 31) div 32 = Suc ((h + n) div 32)" using div_add_self2 [of 32 "h + n"] by (simp add: add_ac)
  have i: "32 * ((h + n) div 32) = h + n" using assms by (metis add.right_neutral mult_div_mod_eq)
  show "h div 32 + num_blocks h n = (h + n) div 32" "num_blocks h (Suc n) = Suc (num_blocks h n)"
    using le by (simp_all add: num_blocks_def c c2)
  have "h mod 32 < 32" by simp
  moreover have "32 * (h div 32) + h mod 32 = h" by simp
  ultimately show "32 * num_blocks h n \<le> n + 31" unfolding num_blocks_def c diff_mult_distrib2 i by linarith
  show "32 * ((h + Suc n + 31) div 32) = h + n + 32" unfolding c2 using i by simp
qed


text \<open>A new tail block: it is taken from the pool and entered in the index, or nothing changes.\<close>

definition tail_outcome :: "bool \<Rightarrow> imp_producer \<Rightarrow> 'a block_pool \<Rightarrow> nat set \<Rightarrow> nat \<Rightarrow> 'a list \<Rightarrow> nat list \<Rightarrow> bool \<Rightarrow> imp_producer \<Rightarrow> 'a block_pool \<Rightarrow> bool" where
  "tail_outcome canAlloc p pool used h xs bs r p' pool' \<longleftrightarrow> inactive p' = inactive p \<and> tailIndex p' = tailIndex p \<and>
     (\<forall>b \<in> used. cq_blocks pool' ! b = cq_blocks pool ! b) \<and> length (cq_blocks pool) \<le> length (cq_blocks pool') \<and>
     (if r then \<exists>b. b \<notin> used \<and> pre_store p' (cq_blocks pool') h xs (bs @ [b]) \<and> pool_inv pool' (insert b used)
      else prod_rel p' (cq_blocks pool') h xs bs \<and> pool_inv pool' used) \<and>
     (answers pool = [] \<longrightarrow> answers pool' = [] \<and> (canAlloc \<and> length xs + 32 < 2 ^ 63 \<longrightarrow> r))"

lemma attach_none:
  assumes rel: "prod_rel p0 blks h xs bs" and io: "index_only p0 p"
    and V: "ring_at p c (adr @ [e])" "ring_view p (adr @ [e]) = spare @ map2 live_entry [h div 32..<h div 32 + length bs] bs @ [x]"
      "\<forall>y \<in> set spare. entry_free y"
    and Q: "requisition_block canAlloc pool = Some (None, pool')"
  shows "\<exists>p'. imp_attach_block canAlloc e (p, pool) = Some (False, p', pool') \<and> prod_rel p' blks h xs bs \<and> index_only p0 p'"
proof -
  obtain p1 where p1: "rewind_block_index_tail p = Some p1" "index_only p (set_value e None p1)" "index_rel (set_value e None p1) (h div 32) bs"
    using rewind_free [OF V refl] by blast
  note io' = index_only_trans [OF io p1(2)]
  have "prod_rel (set_value e None p1) blks h xs bs"
    using rel p1(3) index_rel_frame [OF io'] index_only_sel(6) [OF io'] unfolding prod_rel_def by simp
  then show ?thesis using Q p1(1) io' by (simp add: imp_attach_block_def)
qed

lemma attach_some:
  assumes rel: "prod_rel p0 (cq_blocks pool0) h xs bs" and io: "index_only p0 p" and bd: "(h + length xs) mod 32 = 0" and room: "length xs + 32 < 2 ^ 63"
    and V: "ring_at p c (adr @ [e])"
      "ring_view p (adr @ [e]) = spare @ map2 live_entry [h div 32..<h div 32 + length bs] bs @ [x\<lparr>bie_key := word_of_nat (32 * (h div 32 + length bs))\<rparr>]"
      "\<forall>y \<in> set spare. entry_free y"
    and Q: "requisition_block canAlloc pool = Some (Some b, pool1)" "pool_inv pool1 (insert b used)" "elements (cq_blocks pool1 ! b) = replicate 32 None"
      "b \<notin> used" "set bs \<subseteq> used" "\<forall>i \<in> used. i < length (cq_blocks pool0) \<and> cq_blocks pool1 ! i = cq_blocks pool0 ! i"
  shows "\<exists>p' pool'. imp_attach_block canAlloc e (p, pool) = Some (True, p', pool') \<and> pre_store p' (cq_blocks pool') h xs (bs @ [b]) \<and>
    inactive p' = inactive p0 \<and> tailIndex p' = tailIndex p0 \<and> pool_inv pool' (insert b used) \<and> answers pool' = answers pool1 \<and>
    length (cq_blocks pool') = length (cq_blocks pool1) \<and> (\<forall>i \<in> used. cq_blocks pool' ! i = cq_blocks pool0 ! i)"
proof -
  note B = boundary_blocks [OF bd] and D = rel [unfolded prod_rel_def counters_def blocks_hold_def]
  define blk where "blk = reset_empty implicit_context (cq_blocks pool1 ! b)"
  define pool' where "pool' = pool1\<lparr>cq_blocks := (cq_blocks pool1)[b := blk]\<rparr>"
  define p' where "p' = (set_value e (Some b) p)\<lparr>ip_tailBlock := Some b\<rparr>"
  have b: "b < length (cq_blocks pool1)" using pool_inv_used [OF Q(2)] by auto
  have res: "imp_attach_block canAlloc e (p, pool) = Some (True, p', pool')"
    using Q(1) b by (simp add: imp_attach_block_def upd_cq_block_def p'_def pool'_def blk_def)
  have inv': "pool_inv pool' (insert b used)"
    unfolding pool'_def using Q(3) by (intro pool_update [OF Q(2)]) (auto simp: blk_def reset_empty_def)
  have same: "cq_blocks pool' ! i = cq_blocks pool0 ! i" "i < length (cq_blocks pool')" if "i \<in> used" for i
  proof -
    have "i \<noteq> b" using that Q(4) by blast
    then show "cq_blocks pool' ! i = cq_blocks pool0 ! i" using that Q(6) by (simp add: pool'_def)
    show "i < length (cq_blocks pool')" using that pool_inv_used [OF inv'] by auto
  qed
  have nb: "length bs = num_blocks h (length xs)" using D by blast
  have i: "32 * (h div 32 + length bs) = h + length xs" using B(1) nb bd by (metis add.right_neutral mult_div_mod_eq)
  have bnew: "block_holds xs h (h div 32 + length bs) blk"
    unfolding blk_def by (rule fresh_block_holds [OF Q(3)]) (simp only: i)
  have blocks: "(bs @ [b]) ! j < length (cq_blocks pool') \<and> block_holds xs h (h div 32 + j) (cq_blocks pool' ! ((bs @ [b]) ! j))"
    if "j < length (bs @ [b])" for j
  proof (cases "j < length bs")
    case True
    then have "bs ! j \<in> used" using Q(5) by (metis nth_mem subsetD)
    then show ?thesis using True D same by (simp add: nth_append)
  next
    case False
    then have "j = length bs" using that by simp
    then show ?thesis using bnew b by (simp add: pool'_def nth_append)
  qed
  have "index_rel p' (h div 32) (bs @ [b])" unfolding p'_def using entry_gets_block [OF V refl] by simp
  moreover have "distinct (bs @ [b])" using D Q(4,5) by auto
  moreover have "length (bs @ [b]) = num_blocks h (Suc (length xs))" using nb B(2) by simp
  moreover have "32 * ((h + Suc (length xs) + 31) div 32) < h + 2 ^ 63" using B(4) room by linarith
  moreover have "headIndex p' = word_of_nat h" "tailIndex p' = word_of_nat (h + length xs)" "dequeueOptimisticCount p' = word_of_nat h"
    "dequeueOvercommit p' = 0" "ip_tailBlock p' = Some (last (bs @ [b]))" "inactive p' = inactive p0" "tailIndex p' = tailIndex p0"
    using D index_only_sel [OF io] by (simp_all add: p'_def)
  ultimately have "pre_store p' (cq_blocks pool') h xs (bs @ [b])"
    unfolding pre_store_def using blocks by blast
  then show ?thesis using res inv' same(1) \<open>inactive p' = inactive p0\<close> \<open>tailIndex p' = tailIndex p0\<close>
    by (intro exI [of _ p'] exI [of _ pool']) (simp add: pool'_def)
qed

lemma imp_new_tail_block_ok:
  assumes rel: "prod_rel p (cq_blocks pool) h xs bs" and inv: "pool_inv pool used" and sub: "set bs \<subseteq> used" and bd: "(h + length xs) mod 32 = 0"
  shows "\<exists>r p' pool'. imp_new_tail_block canAlloc (p, pool) = Some (r, p', pool') \<and> tail_outcome canAlloc p pool used h xs bs r p' pool'"
proof (cases "length xs + 32 < 2 ^ 63")
  case False
  have c: "counters p h (length xs)" using rel by (simp add: prod_rel_def)
  have "imp_new_tail_block canAlloc (p, pool) = Some (False, p, pool)"
    using False room_test [OF c] by (simp add: imp_new_tail_block_def Let_def)
  then show ?thesis using rel inv False by (auto simp: tail_outcome_def)
next
  case True
  let ?k = "h div 32"
  have c: "counters p h (length xs)" and ir: "index_rel p ?k bs" and nb: "length bs = num_blocks h (length xs)"
    using rel by (simp_all add: prod_rel_def blocks_hold_def)
  note B = boundary_blocks [OF bd]
  have "32 * (?k + length bs) = h + length xs" using B(1) nb bd by (metis add.right_neutral mult_div_mod_eq)
  then have base: "tailIndex p = word_of_nat (32 * (?k + length bs))" using c by (simp only: counters_def)
  have small: "32 * length bs < 2 ^ 63" using B(3) nb True by linarith
  obtain r1 p1 pool1 where I: "insert_block_index_entry canAlloc (tailIndex p) (p, pool) = Some (r1, p1, pool1)" "index_only p p1"
    "pool1 = pool \<or> pool1 = snd (pool_malloc pool) \<and> canAlloc"
    "case r1 of None \<Rightarrow> index_rel p1 ?k bs \<and> \<not> (canAlloc \<and> answers pool = [])
     | Some e \<Rightarrow> \<exists>c adr spare x. ring_at p1 c (adr @ [e]) \<and> ring_view p1 (adr @ [e]) = spare @ map2 live_entry [?k..<?k + length bs] bs @ [x\<lparr>bie_key := tailIndex p\<rparr>] \<and>
         (\<forall>y \<in> set spare. entry_free y)"
    using insert_entry_ok [OF ir small, of canAlloc "tailIndex p" pool] by blast
  have inv1: "pool_inv pool1 used" and blk1: "cq_blocks pool1 = cq_blocks pool" using I(3) inv by auto
  have ans1: "answers pool = [] \<Longrightarrow> answers pool1 = []" using I(3) by (auto simp: pool_malloc_def)
  have res: "imp_new_tail_block canAlloc (p, pool) = (case r1 of None \<Rightarrow> Some (False, p1, pool1) | Some e \<Rightarrow> imp_attach_block canAlloc e (p1, pool1))"
    using room_test [OF c] True I(1) by (simp add: imp_new_tail_block_def Let_def)
  show ?thesis
  proof (cases r1)
    case None
    have "prod_rel p1 (cq_blocks pool1) h xs bs"
      using rel I(4) None index_rel_frame [OF I(2) c] index_only_sel(6) [OF I(2)] unfolding prod_rel_def blk1 by simp
    then show ?thesis using res None inv1 blk1 ans1 I(4) index_only_sel(1,2) [OF I(2)] by (auto simp: tail_outcome_def)
  next
    case (Some e)
    then obtain cc adr spare x where V: "ring_at p1 cc (adr @ [e])"
      "ring_view p1 (adr @ [e]) = spare @ map2 live_entry [?k..<?k + length bs] bs @ [x\<lparr>bie_key := word_of_nat (32 * (?k + length bs))\<rparr>]" "\<forall>y \<in> set spare. entry_free y"
      using I(4) base by auto
    obtain r2 pool2 where Q: "requisition_block canAlloc pool1 = Some (r2, pool2)" using requisition_ok [OF inv1, of canAlloc] by blast
    note QO = requisition_ok [OF inv1, of canAlloc, unfolded Q, simplified]
    show ?thesis
    proof (cases r2)
      case None
      obtain p2 where p2: "imp_attach_block canAlloc e (p1, pool1) = Some (False, p2, pool2)" "prod_rel p2 (cq_blocks pool) h xs bs" "index_only p p2"
        using attach_none [OF rel I(2) V Q [unfolded None]] by blast
      then show ?thesis using res Some QO None blk1 ans1 index_only_sel(1,2) [OF p2(3)] by (auto simp: tail_outcome_def)
    next
      case (Some b)
      have used: "\<forall>i \<in> used. i < length (cq_blocks pool) \<and> cq_blocks pool2 ! i = cq_blocks pool ! i"
        using QO Some blk1 pool_inv_used [OF inv] by auto
      have q: "pool_inv pool2 (insert b used)" "elements (cq_blocks pool2 ! b) = replicate 32 None" "b \<notin> used" "answers pool1 = [] \<Longrightarrow> answers pool2 = []"
        using QO Some by auto
      obtain p2 pool3 where p2: "imp_attach_block canAlloc e (p1, pool1) = Some (True, p2, pool3)" "pre_store p2 (cq_blocks pool3) h xs (bs @ [b])"
        "inactive p2 = inactive p" "tailIndex p2 = tailIndex p" "pool_inv pool3 (insert b used)" "answers pool3 = answers pool2"
        "length (cq_blocks pool3) = length (cq_blocks pool2)" "\<forall>i \<in> used. cq_blocks pool3 ! i = cq_blocks pool ! i"
        using attach_some [OF rel I(2) bd True V Q [unfolded Some] q(1-3) sub used] by blast
      have "length (cq_blocks pool) \<le> length (cq_blocks pool2)" using QO Some blk1 by auto
      then show ?thesis using res \<open>r1 = Some e\<close> p2 q(3,4) ans1 by (auto simp: tail_outcome_def)
    qed
  qed
qed


text \<open>
  Enqueueing appends the element, or fails and leaves the queue as it is; the blocks of the other producers are not
  touched. With the right to allocate and memory to allocate it succeeds.
\<close>

definition enq_outcome :: "bool \<Rightarrow> imp_producer \<Rightarrow> 'a block_pool \<Rightarrow> nat set \<Rightarrow> nat \<Rightarrow> 'a list \<Rightarrow> nat list \<Rightarrow> 'a \<Rightarrow> bool \<Rightarrow> imp_producer \<Rightarrow> 'a block_pool \<Rightarrow> bool" where
  "enq_outcome canAlloc p pool used h xs bs x r p' pool' \<longleftrightarrow> inactive p' = inactive p \<and>
     (\<forall>b \<in> used - set bs. cq_blocks pool' ! b = cq_blocks pool ! b) \<and> length (cq_blocks pool) \<le> length (cq_blocks pool') \<and>
     (\<exists>bs'. prod_rel p' (cq_blocks pool') h (if r then xs @ [x] else xs) bs' \<and> set bs \<subseteq> set bs' \<and> (set bs' - set bs) \<inter> used = {} \<and>
       pool_inv pool' (used \<union> set bs')) \<and>
     (answers pool = [] \<longrightarrow> answers pool' = [] \<and> (canAlloc \<and> length xs + 32 < 2 ^ 63 \<longrightarrow> r))"

lemma tail_slot: "tailIndex p = word_of_nat i \<Longrightarrow> tailIndex p AND (BLOCK_SIZE - 1) = 0 \<longleftrightarrow> i mod 32 = 0"
  using slot_of_nat [of i] by (metis slot_of_def unat_eq_zero)

lemma imp_enqueue_ok:
  assumes rel: "prod_rel p (cq_blocks pool) h xs bs" and inv: "pool_inv pool used" and sub: "set bs \<subseteq> used"
  shows "\<exists>r p' pool'. imp_enqueue canAlloc x (p, pool) = Some (r, p', pool') \<and> enq_outcome canAlloc p pool used h xs bs x r p' pool'"
proof -
  have ti: "tailIndex p = word_of_nat (h + length xs)" using rel by (simp add: prod_rel_def counters_def)
  show ?thesis
  proof (cases "(h + length xs) mod 32 = 0")
    case False
    then have e: "imp_enqueue canAlloc x (p, pool) = imp_store (tailIndex p) x (p, pool)"
      using tail_slot [OF ti] by (simp add: imp_enqueue_def)
    have "used \<union> set bs = used" using sub by blast
    then show ?thesis using imp_store_ok [OF pre_store_inside [OF rel False] inv sub, of x] unfolding e enq_outcome_def
      by (elim exE conjE) (intro exI conjI, assumption, auto)
  next
    case True
    obtain r p1 pool1 where T: "imp_new_tail_block canAlloc (p, pool) = Some (r, p1, pool1)" "tail_outcome canAlloc p pool used h xs bs r p1 pool1"
      using imp_new_tail_block_ok [OF rel inv sub True] by blast
    note O = T(2) [unfolded tail_outcome_def]
    have e: "imp_enqueue canAlloc x (p, pool) = (if \<not> r then Some (False, p1, pool1) else imp_store (tailIndex p) x (p1, pool1))"
      using tail_slot [OF ti] True T(1) by (simp add: imp_enqueue_def)
    show ?thesis
    proof (cases r)
      case False
      have "used \<union> set bs = used" using sub by blast
      then show ?thesis using e False O unfolding enq_outcome_def by (intro exI [of _ False] exI [of _ p1] exI [of _ pool1]) auto
    next
      case True
      then obtain b where b: "b \<notin> used" "pre_store p1 (cq_blocks pool1) h xs (bs @ [b])" "pool_inv pool1 (insert b used)" using O by auto
      have sub': "set (bs @ [b]) \<subseteq> insert b used" using sub by auto
      obtain p2 pool2 where S: "imp_store (tailIndex p1) x (p1, pool1) = Some (True, p2, pool2)" "prod_rel p2 (cq_blocks pool2) h (xs @ [x]) (bs @ [b])"
        "pool_inv pool2 (insert b used)" "length (cq_blocks pool2) = length (cq_blocks pool1)"
        "\<forall>c. c \<notin> set (bs @ [b]) \<longrightarrow> cq_blocks pool2 ! c = cq_blocks pool1 ! c" "answers pool2 = answers pool1" "inactive p2 = inactive p1"
        using imp_store_ok [OF b(2,3) sub', of x] by blast
      have u: "used \<union> set (bs @ [b]) = insert b used" using sub by auto
      have frame: "cq_blocks pool2 ! c = cq_blocks pool ! c" if "c \<in> used - set bs" for c using S(5) O b(1) that by auto
      have "enq_outcome canAlloc p pool used h xs bs x True p2 pool2"
        unfolding enq_outcome_def using S(2-4,6,7) O frame b(1) u by (intro conjI exI [of _ "bs @ [b]"]) auto
      then show ?thesis using e S(1) O True by auto
    qed
  qed
qed

text \<open>The constructor.\<close>

lemma new_imp_producer_rel:
  "\<exists>p. new_imp_producer True = Some p \<and> prod_rel p blks 0 [] [] \<and> \<not> inactive p"
proof -
  let ?p = "\<lparr>inactive = False, tailIndex = 0, headIndex = 0, dequeueOptimisticCount = 0, dequeueOvercommit = 0,
         ip_tailBlock = None, nextBlockIndexCapacity = IMPLICIT_INITIAL_INDEX_SIZE, blockIndex = [], bi_entries = []\<rparr>"
  obtain p where p: "new_block_index True ?p = Some (True, p)" "ring_at p 5 [0..<2 ^ 5]" "ring_view p [0..<2 ^ 5] = replicate (2 ^ 5) unused_entry" "index_only ?p p"
    using new_block_index_first [of ?p 5] by (auto simp: IMPLICIT_INITIAL_INDEX_SIZE_def)
  have "counters p 0 0" using index_only_sel [OF p(4)] by (simp add: counters_def)
  moreover have "index_rel p 0 []"
    unfolding index_rel_def using p(2,3) by (intro exI [of _ 5] exI [of _ "[0..<2 ^ 5]"] exI [of _ "replicate (2 ^ 5) unused_entry"]) auto
  ultimately have "prod_rel p blks 0 [] []" by (simp add: prod_rel_def blocks_hold_def num_blocks_def)
  then show ?thesis using p(1) index_only_sel(1) [OF p(4)] by (simp add: new_imp_producer_def)
qed

end
