(* ===== verification/MpmcTickets.thy ===== *)
theory MpmcTickets
  imports MpmcProducer
begin

text \<open>
  Concurrent dequeues from one implicit producer (\<^verbatim>\<open>ImplicitProducer::dequeue\<close> of
  \<^verbatim>\<open>src/lib/concurrentqueue/concurrentqueue.h\<close>): which index a consumer gets. Any number of consumers run it, one access
  to the four shared counters at a time, while the producer publishes elements. A consumer draws a ticket from
  \<^verbatim>\<open>dequeueOptimisticCount\<close>, compares it with the tail and then either takes the next index from \<^verbatim>\<open>headIndex\<close> or makes
  up for its ticket in \<^verbatim>\<open>dequeueOvercommit\<close>.

  The lemmas show that the indices handed out are 0, 1, 2 and so on, each once, always of published elements, and that
  the counters agree again when all consumers have left.
\<close>

section \<open>Model\<close>

text \<open>
  The program points, each named after the access that comes next, with the local variables that are still needed:
  the first value of \<^verbatim>\<open>tail\<close>, \<^verbatim>\<open>overcommit\<close> and \<^verbatim>\<open>myDequeueCount\<close>. \<open>DGot\<close> has the index; \<open>DFault\<close> is a violated assertion.
\<close>

datatype dq_pc =
    DIdle
  | DTail
  | DOver u64
  | DTest u64 u64
  | DTicket u64
  | DCheck u64 u64
  | DTake u64
  | DLost u64
  | DGot u64
  | DFault

fun dq_step :: "dq_pc \<Rightarrow> imp_producer \<Rightarrow> dq_pc \<times> imp_producer" where
  "dq_step DTail p = (DOver (tailIndex p), p)"
| "dq_step (DOver tail) p = (DTest tail (dequeueOvercommit p), p)"
| "dq_step (DTest tail overcommit) p =
     (if circular_less_than (dequeueOptimisticCount p - overcommit) tail then DTicket overcommit else DIdle, p)"
| "dq_step (DTicket overcommit) p =
     (let myDequeueCount = dequeueOptimisticCount p
      in (if overcommit \<le> myDequeueCount then DCheck myDequeueCount overcommit else DFault, p\<lparr>dequeueOptimisticCount := myDequeueCount + 1\<rparr>))"
| "dq_step (DCheck myDequeueCount overcommit) p =
     (if circular_less_than (myDequeueCount - overcommit) (tailIndex p) then DTake myDequeueCount else DLost myDequeueCount, p)"
| "dq_step (DTake myDequeueCount) p = (DGot (headIndex p), p\<lparr>headIndex := headIndex p + 1\<rparr>)"
| "dq_step (DLost myDequeueCount) p = (DIdle, p\<lparr>dequeueOvercommit := dequeueOvercommit p + 1\<rparr>)"
| "dq_step DIdle p = (DIdle, p)"
| "dq_step (DGot index) p = (DIdle, p)"
| "dq_step DFault p = (DFault, p)"

text \<open>
  The system: the counters, the program point of each consumer, and three histories: the number of published elements,
  the number of tickets drawn and the indices handed out.
\<close>

record dq_sys =
  dq_prod :: imp_producer
  dq_at :: "nat \<Rightarrow> dq_pc"
  published :: nat
  drawn :: nat
  handed :: "u64 list"

definition publish :: "imp_producer \<Rightarrow> imp_producer" where
  "publish p = p\<lparr>tailIndex := 1 + tailIndex p\<rparr>"

fun draws :: "dq_pc \<Rightarrow> nat" where
  "draws (DTicket overcommit) = 1"
| "draws _ = 0"

fun hands :: "dq_pc \<Rightarrow> imp_producer \<Rightarrow> u64 list" where
  "hands (DTake myDequeueCount) p = [headIndex p]"
| "hands _ p = []"

definition dq_move :: "nat \<Rightarrow> dq_sys \<Rightarrow> dq_sys" where
  "dq_move i s =
     (let c = dq_at s i; (c', p') = dq_step c (dq_prod s)
      in s\<lparr>dq_prod := p', dq_at := (dq_at s)(i := c'), drawn := drawn s + draws c, handed := handed s @ hands c (dq_prod s)\<rparr>)"

inductive dq_conc :: "nat \<Rightarrow> dq_sys \<Rightarrow> dq_sys \<Rightarrow> bool" for N where
  conc_publish: "dq_conc N s (s\<lparr>dq_prod := publish (dq_prod s), published := Suc (published s)\<rparr>)"
| conc_call: "i < N \<Longrightarrow> dq_at s i = DIdle \<Longrightarrow> dq_conc N s (s\<lparr>dq_at := (dq_at s)(i := DTail)\<rparr>)"
| conc_move: "i < N \<Longrightarrow> dq_conc N s (dq_move i s)"

text \<open>A schedule says who moves; an entry that is not possible is skipped.\<close>

datatype dq_event = Publish | Call nat | Move nat

fun dq_happen :: "nat \<Rightarrow> dq_event \<Rightarrow> dq_sys \<Rightarrow> dq_sys" where
  "dq_happen N Publish s = s\<lparr>dq_prod := publish (dq_prod s), published := Suc (published s)\<rparr>"
| "dq_happen N (Call i) s = (if i < N \<and> dq_at s i = DIdle then s\<lparr>dq_at := (dq_at s)(i := DTail)\<rparr> else s)"
| "dq_happen N (Move i) s = (if i < N then dq_move i s else s)"

lemma schedule_reaches: "(dq_conc N)\<^sup>*\<^sup>* s (fold (dq_happen N) es s)"
proof (induction es arbitrary: s)
  case (Cons e es)
  have "(dq_conc N)\<^sup>*\<^sup>* s (dq_happen N e s)" by (cases e) (auto intro: dq_conc.intros)
  then show ?case using Cons [of "dq_happen N e s"] by simp
qed simp

definition dq_start :: "dq_sys \<Rightarrow> bool" where
  "dq_start s \<longleftrightarrow> tailIndex (dq_prod s) = 0 \<and> headIndex (dq_prod s) = 0 \<and> dequeueOptimisticCount (dq_prod s) = 0 \<and> dequeueOvercommit (dq_prod s) = 0 \<and>
     dq_at s = (\<lambda>i. DIdle) \<and> published s = 0 \<and> drawn s = 0 \<and> handed s = []"

definition dq_begin :: "imp_producer \<Rightarrow> dq_sys" where
  "dq_begin p = \<lparr>dq_prod = p, dq_at = (\<lambda>i. DIdle), published = 0, drawn = 0, handed = []\<rparr>"

lemma new_producer_starts: "new_imp_producer canAlloc = Some p \<Longrightarrow> dq_start (dq_begin p)"
  by (auto simp: new_imp_producer_def new_block_index_def current_index_def dq_start_def dq_begin_def split: if_splits bind_splits)

section \<open>A consumer alone\<close>

fun dq_run :: "nat \<Rightarrow> dq_pc \<Rightarrow> imp_producer \<Rightarrow> dq_pc \<times> imp_producer" where
  "dq_run 0 c p = (c, p)"
| "dq_run (Suc n) c p = (case dq_step c p of (DIdle, p') \<Rightarrow> (DIdle, p') | (DGot i, p') \<Rightarrow> (DGot i, p') | (c', p') \<Rightarrow> dq_run n c' p')"

text \<open>Without interference the steps compute the counters of the sequential function.\<close>

lemma dq_alone:
  assumes "dequeueOvercommit p \<le> dequeueOptimisticCount p"
  shows "case dq_run 6 DTail p of
      (DGot i, p') \<Rightarrow> imp_dequeue (p, pool) = imp_take i (p', pool)
    | (DIdle, p') \<Rightarrow> imp_dequeue (p, pool) = Some (None, p', pool)
    | _ \<Rightarrow> False"
  using assms by (simp add: numeral_eq_Suc imp_dequeue_def Let_def)

section \<open>Tickets\<close>

text \<open>The ticket a consumer has drawn and not settled.\<close>

fun ticket :: "dq_pc \<Rightarrow> nat option" where
  "ticket (DCheck my overcommit) = Some (unat my)"
| "ticket (DTake my) = Some (unat my)"
| "ticket (DLost my) = Some (unat my)"
| "ticket _ = None"

text \<open>
  \<open>D\<close> tickets are drawn; those in \<open>W\<close> have won, those in \<open>U\<close> among them have their index; those in \<open>V\<close> were one too
  many and are made up for. What a consumer knows at each program point:
\<close>

fun dq_knows :: "nat \<Rightarrow> nat set \<Rightarrow> nat set \<Rightarrow> nat set \<Rightarrow> dq_pc \<Rightarrow> bool" where
  "dq_knows D U V W (DTest tail overcommit) \<longleftrightarrow> unat overcommit \<le> card V"
| "dq_knows D U V W (DTicket overcommit) \<longleftrightarrow> unat overcommit \<le> card V"
| "dq_knows D U V W (DCheck my overcommit) \<longleftrightarrow> unat my < D \<and> unat my \<notin> V \<union> W \<and> unat overcommit \<le> card (V \<inter> {..<unat my})"
| "dq_knows D U V W (DTake my) \<longleftrightarrow> unat my \<in> W - U"
| "dq_knows D U V W (DLost my) \<longleftrightarrow> unat my < D \<and> unat my \<notin> V \<union> W"
| "dq_knows D U V W DFault \<longleftrightarrow> False"
| "dq_knows D U V W _ \<longleftrightarrow> True"

definition tickets_ok :: "nat \<Rightarrow> nat \<Rightarrow> nat set \<Rightarrow> nat set \<Rightarrow> nat set \<Rightarrow> bool" where
  "tickets_ok T D U V W \<longleftrightarrow> U \<subseteq> W \<and> V \<union> W \<subseteq> {..<D} \<and> V \<inter> W = {} \<and> (\<forall>m \<in> W. Suc m \<le> T + card (V \<inter> {..<m}))"

definition counters_ok :: "dq_sys \<Rightarrow> nat set \<Rightarrow> nat set \<Rightarrow> bool" where
  "counters_ok s U V \<longleftrightarrow> tailIndex (dq_prod s) = word_of_nat (published s) \<and> dequeueOptimisticCount (dq_prod s) = word_of_nat (drawn s) \<and>
     dequeueOvercommit (dq_prod s) = word_of_nat (card V) \<and> headIndex (dq_prod s) = word_of_nat (card U) \<and>
     handed s = map word_of_nat [0..<card U]"

definition dq_inv :: "nat \<Rightarrow> dq_sys \<Rightarrow> nat set \<Rightarrow> nat set \<Rightarrow> nat set \<Rightarrow> bool" where
  "dq_inv N s U V W \<longleftrightarrow> tickets_ok (published s) (drawn s) U V W \<and> counters_ok s U V \<and>
     (\<forall>i < N. dq_knows (drawn s) U V W (dq_at s i)) \<and>
     (\<forall>i < N. \<forall>j < N. \<forall>m. ticket (dq_at s i) = Some m \<longrightarrow> ticket (dq_at s j) = Some m \<longrightarrow> i = j) \<and>
     (\<forall>m < drawn s. m \<notin> U \<union> V \<longrightarrow> (\<exists>i < N. ticket (dq_at s i) = Some m))"

text \<open>
  The last ticket \<open>m\<close> that has won passed the comparison with the tail, and the tickets made up for that the comparison
  counted were all drawn before it. So no more tickets have won than there are elements.
\<close>

lemma winners_bounded:
  assumes "tickets_ok T D U V W"
  shows "card W \<le> T"
proof (cases "W = {}")
  case False
  note K = assms [unfolded tickets_ok_def]
  have fin: "finite W" "finite V" using K finite_subset [of _ "{..<D}"] by auto
  define m where "m = Max W"
  have m: "m \<in> W" "\<forall>k \<in> W. k \<le> m" using fin False by (simp_all add: m_def)
  have "W \<subseteq> {..m} - (V \<inter> {..<m})" using m(2) K by auto
  then have "card W \<le> card ({..m} - (V \<inter> {..<m}))" by (intro card_mono) auto
  also have "\<dots> = Suc m - card (V \<inter> {..<m})" using fin by (subst card_Diff_subset) auto
  also have "\<dots> \<le> T" using K m(1) by fastforce
  finally show ?thesis .
qed simp

section \<open>Every step keeps the invariant\<close>

lemma circ_small:
  assumes "a < 2 ^ 63" and "b < 2 ^ 63"
  shows "circular_less_than (word_of_nat a) (word_of_nat b) \<longleftrightarrow> a < b"
proof (cases "a < b")
  case True
  have "(word_of_nat b :: u64) = word_of_nat a + word_of_nat (b - a)" using True by (simp flip: of_nat_add)
  then show ?thesis using True assms circular_less_than_add [of "b - a" "word_of_nat a"] by simp
next
  case False
  have d: "a - b < 2 ^ 63" using assms(1) by linarith
  have "(word_of_nat a :: u64) = word_of_nat b + word_of_nat (a - b)" using False by (simp flip: of_nat_add)
  then have "circular_less_than (word_of_nat b) (word_of_nat a) \<longleftrightarrow> 0 < a - b" using d circular_less_than_add [of "a - b" "word_of_nat b"] by simp
  then show ?thesis using False circular_less_than_asym [of "word_of_nat b" "word_of_nat a"] by (cases "a = b") (auto simp: circular_less_than_unat)
qed

lemma tickets_finite: "tickets_ok T D U V W \<Longrightarrow> finite U \<and> finite V \<and> finite W"
  unfolding tickets_ok_def by (meson finite_lessThan finite_subset le_sup_iff)

lemma knows_ticket: "dq_knows D U V W c \<Longrightarrow> ticket c = Some m \<Longrightarrow> V \<union> W \<subseteq> {..<D} \<Longrightarrow> m < D"
  by (cases c) auto

lemma knows_mono:
  assumes "dq_knows D U V W c" and "D \<le> D'" and "V \<subseteq> V'" "W \<subseteq> W'" "finite V'"
    and "\<forall>m. ticket c = Some m \<longrightarrow> m \<notin> (V' - V) \<union> (W' - W) \<union> (U' - U)"
  shows "dq_knows D' U' V' W' c"
proof -
  have "card V \<le> card V'" "card (V \<inter> A) \<le> card (V' \<inter> A)" for A using assms(3,5) by (auto intro: card_mono)
  then show ?thesis using assms by (cases c) (auto intro: order_trans)
qed

lemma inv_knows: "dq_inv N s U V W \<Longrightarrow> i < N \<Longrightarrow> dq_knows (drawn s) U V W (dq_at s i)"
  by (simp add: dq_inv_def)

lemma move_inv:
  assumes inv: "dq_inv N s U V W" and i: "i < N" and at: "dq_at s' = (dq_at s)(i := c')" and pub: "published s' = published s" and D: "drawn s \<le> drawn s'"
    and ok: "tickets_ok (published s) (drawn s') U' V' W'" "counters_ok s' U' V'" "dq_knows (drawn s') U' V' W' c'"
    and sub: "U \<subseteq> U'" "V \<subseteq> V'" "W \<subseteq> W'"
    and new: "\<forall>m \<in> (V' - V) \<union> (W' - W) \<union> (U' - U). ticket (dq_at s i) = Some m"
    and tk: "\<forall>m. ticket c' = Some m \<longrightarrow> ticket (dq_at s i) = Some m \<or> m = drawn s"
    and cov: "\<forall>m < drawn s'. m \<notin> U' \<union> V' \<longrightarrow> ticket c' = Some m \<or> m < drawn s \<and> ticket (dq_at s i) \<noteq> Some m"
  shows "dq_inv N s' U' V' W'"
proof -
  note I = inv [unfolded dq_inv_def]
  have VW: "V \<union> W \<subseteq> {..<drawn s}" using I by (simp add: tickets_ok_def)
  have below: "m < drawn s" if "j < N" "ticket (dq_at s j) = Some m" for j m using knows_ticket [OF _ that(2) VW] I that(1) by blast
  have uniq: "j = i" if "j < N" "ticket (dq_at s j) = Some m" "ticket (dq_at s i) = Some m" for j m using I that i by blast
  have fin: "finite V'" using tickets_finite [OF ok(1)] by blast
  have knows: "dq_knows (drawn s') U' V' W' (dq_at s' j)" if j: "j < N" for j
  proof (cases "j = i")
    case True
    then show ?thesis using ok(3) at by simp
  next
    case False
    have "dq_knows (drawn s') U' V' W' (dq_at s j)"
      by (rule knows_mono [OF _ D sub(2,3) fin]) (use I j new uniq [OF j] False in blast)+
    then show ?thesis using at False by simp
  qed
  have inj: "j = k" if "j < N" "k < N" "ticket (dq_at s' j) = Some m" "ticket (dq_at s' k) = Some m" for j k m
  proof -
    have other: "l = i" if "l < N" "ticket (dq_at s' l) = Some m" "ticket c' = Some m" for l
    proof (rule ccontr)
      assume "l \<noteq> i"
      then have "ticket (dq_at s l) = Some m" using that at by simp
      then show False using below [OF that(1)] uniq [OF that(1)] tk that(3) \<open>l \<noteq> i\<close> by blast
    qed
    show ?thesis
    proof (cases "j = i \<or> k = i")
      case True
      then show ?thesis using that other at by (metis fun_upd_same)
    next
      case False
      then show ?thesis using that I at by (metis fun_upd_other)
    qed
  qed
  have "\<exists>j < N. ticket (dq_at s' j) = Some m" if m: "m < drawn s'" "m \<notin> U' \<union> V'" for m
  proof (cases "ticket c' = Some m")
    case True
    then show ?thesis using i at by auto
  next
    case False
    then have "m < drawn s" "ticket (dq_at s i) \<noteq> Some m" "m \<notin> U \<union> V" using cov m sub by auto
    then obtain j where "j < N" "ticket (dq_at s j) = Some m" "j \<noteq> i" using I by blast
    then show ?thesis using at by (intro exI [of _ j]) simp
  qed
  then show ?thesis unfolding dq_inv_def pub using ok(1,2) knows inj by blast
qed

text \<open>Steps that neither draw nor settle a ticket.\<close>

lemma quiet_inv:
  assumes inv: "dq_inv N s U V W" and i: "i < N" and c: "ticket (dq_at s i) = None" "ticket c' = None" "dq_knows (drawn s) U V W c'"
  shows "dq_inv N (s\<lparr>dq_at := (dq_at s)(i := c')\<rparr>) U V W"
proof -
  note I = inv [unfolded dq_inv_def]
  have "\<forall>m < drawn s. m \<notin> U \<union> V \<longrightarrow> ticket c' = Some m \<or> m < drawn s \<and> ticket (dq_at s i) \<noteq> Some m" using c(1) by simp
  then show ?thesis by (intro move_inv [OF inv i, where c' = c']) (use I c in \<open>auto simp: counters_ok_def\<close>)
qed

lemma quiet_move:
  assumes inv: "dq_inv N s U V W" and i: "i < N" and st: "dq_step (dq_at s i) (dq_prod s) = (c', dq_prod s)" and q: "draws (dq_at s i) = 0" "hands (dq_at s i) (dq_prod s) = []"
    and c: "ticket (dq_at s i) = None" "ticket c' = None" "dq_knows (drawn s) U V W c'"
  shows "dq_inv N (dq_move i s) U V W"
proof -
  have "dq_move i s = s\<lparr>dq_at := (dq_at s)(i := c')\<rparr>" by (simp add: dq_move_def st q)
  then show ?thesis using quiet_inv [OF inv i c] by simp
qed

lemma draw_inv:
  assumes inv: "dq_inv N s U V W" and i: "i < N" and at: "dq_at s i = DTicket ov" and small: "drawn s < 2 ^ 63"
  shows "dq_inv N (dq_move i s) U V W"
proof -
  note I = inv [unfolded dq_inv_def tickets_ok_def counters_ok_def]
  have D: "unat (dequeueOptimisticCount (dq_prod s)) = drawn s" using I small by (simp add: unat_word_of_nat)
  have V: "V \<subseteq> {..<drawn s}" "V \<inter> {..<drawn s} = V" using I by auto
  have ov: "unat ov \<le> card V" using inv_knows [OF inv i] at by simp
  also have "\<dots> \<le> drawn s" using card_mono [OF _ V(1)] by simp
  finally have "ov \<le> dequeueOptimisticCount (dq_prod s)" using D by (simp add: word_le_nat_alt)
  then have mv: "dq_move i s = s\<lparr>dq_prod := (dq_prod s)\<lparr>dequeueOptimisticCount := dequeueOptimisticCount (dq_prod s) + 1\<rparr>,
      dq_at := (dq_at s)(i := DCheck (dequeueOptimisticCount (dq_prod s)) ov), drawn := Suc (drawn s)\<rparr>" by (simp add: dq_move_def at Let_def)
  have ok: "tickets_ok (published s) (Suc (drawn s)) U V W" using I by (fastforce simp: tickets_ok_def)
  have "counters_ok (dq_move i s) U V" unfolding mv using I by (simp add: counters_ok_def)
  moreover have "dq_knows (Suc (drawn s)) U V W (DCheck (dequeueOptimisticCount (dq_prod s)) ov)" using ov V I D by auto
  ultimately show ?thesis
    by (intro move_inv [OF inv i, where c' = "DCheck (dequeueOptimisticCount (dq_prod s)) ov"]) (use D ok at in \<open>auto simp: mv less_Suc_eq\<close>)
qed

lemma check_inv:
  assumes inv: "dq_inv N s U V W" and i: "i < N" and at: "dq_at s i = DCheck my ov" and small: "drawn s < 2 ^ 63" "published s < 2 ^ 63"
  shows "\<exists>W'. dq_inv N (dq_move i s) U V W'"
proof -
  note I = inv [unfolded dq_inv_def tickets_ok_def counters_ok_def]
  let ?m = "unat my" and ?k = "unat ov"
  have K: "?m < drawn s" "?m \<notin> V \<union> W" "?k \<le> card (V \<inter> {..<?m})" using inv_knows [OF inv i] at by simp_all
  have "card (V \<inter> {..<?m}) \<le> ?m" using card_mono [of "{..<?m}" "V \<inter> {..<?m}"] by simp
  then have km: "?k \<le> ?m" using K(3) by simp
  then have "my - ov = word_of_nat (?m - ?k)" by (simp add: of_nat_diff)
  moreover have "?m - ?k < 2 ^ 63" using K(1) small(1) by linarith
  ultimately have test: "circular_less_than (my - ov) (tailIndex (dq_prod s)) \<longleftrightarrow> ?m - ?k < published s"
    using I small(2) circ_small by metis
  show ?thesis
  proof (cases "?m - ?k < published s")
    case True
    have mv: "dq_move i s = s\<lparr>dq_at := (dq_at s)(i := DTake my)\<rparr>" using test True by (simp add: dq_move_def at)
    have "Suc ?m \<le> published s + card (V \<inter> {..<?m})" using True K(3) by linarith
    then have "tickets_ok (published s) (drawn s) U V (insert ?m W)" using I K by (auto simp: tickets_ok_def)
    moreover have "?m \<notin> U" using I K(2) by blast
    ultimately have "dq_inv N (dq_move i s) U V (insert ?m W)"
      by (intro move_inv [OF inv i, where c' = "DTake my"]) (use I at in \<open>auto simp: mv counters_ok_def\<close>)
    then show ?thesis ..
  next
    case False
    have mv: "dq_move i s = s\<lparr>dq_at := (dq_at s)(i := DLost my)\<rparr>" using test False by (simp add: dq_move_def at)
    have "dq_inv N (dq_move i s) U V W"
      by (intro move_inv [OF inv i, where c' = "DLost my"]) (use I at K in \<open>auto simp: mv counters_ok_def tickets_ok_def\<close>)
    then show ?thesis ..
  qed
qed

lemma take_inv:
  assumes inv: "dq_inv N s U V W" and i: "i < N" and at: "dq_at s i = DTake my"
  shows "dq_inv N (dq_move i s) (insert (unat my) U) V W"
proof -
  note I = inv [unfolded dq_inv_def]
  let ?m = "unat my"
  have m: "?m \<in> W" "?m \<notin> U" using inv_knows [OF inv i] at by simp_all
  have fin: "finite U" using tickets_finite I by blast
  have mv: "dq_move i s = s\<lparr>dq_prod := (dq_prod s)\<lparr>headIndex := headIndex (dq_prod s) + 1\<rparr>, dq_at := (dq_at s)(i := DGot (headIndex (dq_prod s))),
      handed := handed s @ [headIndex (dq_prod s)]\<rparr>" by (simp add: dq_move_def at)
  have "counters_ok (dq_move i s) (insert ?m U) V" unfolding mv using I m fin by (simp add: counters_ok_def add.commute)
  moreover have "tickets_ok (published s) (drawn s) (insert ?m U) V W" using I m by (auto simp: tickets_ok_def)
  ultimately show ?thesis by (intro move_inv [OF inv i, where c' = "DGot (headIndex (dq_prod s))"]) (use at in \<open>auto simp: mv\<close>)
qed

lemma lost_inv:
  assumes inv: "dq_inv N s U V W" and i: "i < N" and at: "dq_at s i = DLost my"
  shows "dq_inv N (dq_move i s) U (insert (unat my) V) W"
proof -
  note I = inv [unfolded dq_inv_def]
  let ?m = "unat my"
  have m: "?m < drawn s" "?m \<notin> V \<union> W" using inv_knows [OF inv i] at by simp_all
  have fin: "finite V" using tickets_finite I by blast
  have mv: "dq_move i s = s\<lparr>dq_prod := (dq_prod s)\<lparr>dequeueOvercommit := dequeueOvercommit (dq_prod s) + 1\<rparr>, dq_at := (dq_at s)(i := DIdle)\<rparr>"
    by (simp add: dq_move_def at)
  have le: "card (V \<inter> {..<k}) \<le> card (insert ?m V \<inter> {..<k})" for k using fin by (intro card_mono) auto
  have "Suc k \<le> published s + card (insert ?m V \<inter> {..<k})" if "k \<in> W" for k
    using I that le [of k] unfolding tickets_ok_def by fastforce
  then have "tickets_ok (published s) (drawn s) U (insert ?m V) W" using I m by (auto simp: tickets_ok_def)
  moreover have "counters_ok (dq_move i s) U (insert ?m V)" unfolding mv using I m fin by (simp add: counters_ok_def add.commute)
  ultimately show ?thesis by (intro move_inv [OF inv i, where c' = DIdle]) (use at in \<open>auto simp: mv\<close>)
qed

lemma step_inv:
  assumes inv: "dq_inv N s U V W" and i: "i < N" and small: "drawn s < 2 ^ 63" "published s < 2 ^ 63"
  shows "\<exists>U V W. dq_inv N (dq_move i s) U V W"
proof -
  note quiet = quiet_move [OF inv i]
  have V: "unat (dequeueOvercommit (dq_prod s)) \<le> card V" using inv by (simp add: dq_inv_def counters_ok_def unat_of_nat)
  have knows: "dq_knows (drawn s) U V W (dq_at s i)" by (rule inv_knows [OF inv i])
  show ?thesis
  proof (cases "dq_at s i")
    case (DTicket ov)
    then show ?thesis using draw_inv [OF inv i _ small(1)] by blast
  next
    case (DCheck my ov)
    then show ?thesis using check_inv [OF inv i _ small] by blast
  next
    case (DTake my)
    then show ?thesis using take_inv [OF inv i] by blast
  next
    case (DLost my)
    then show ?thesis using lost_inv [OF inv i] by blast
  next
    case (DOver tail)
    then show ?thesis using quiet [of "DTest tail (dequeueOvercommit (dq_prod s))"] V by auto
  next
    case (DTest tail ov)
    then show ?thesis using quiet [of "DTicket ov"] quiet [of DIdle] knows
      by (cases "circular_less_than (dequeueOptimisticCount (dq_prod s) - ov) tail") auto
  next
    case DTail
    then show ?thesis using quiet [of "DOver (tailIndex (dq_prod s))"] by auto
  next
    case DIdle
    then show ?thesis using quiet [of DIdle] by auto
  next
    case (DGot k)
    then show ?thesis using quiet [of DIdle] by auto
  next
    case DFault
    then show ?thesis using knows by simp
  qed
qed

lemma publish_inv:
  assumes "dq_inv N s U V W"
  shows "dq_inv N (s\<lparr>dq_prod := publish (dq_prod s), published := Suc (published s)\<rparr>) U V W"
proof -
  note I = assms [unfolded dq_inv_def]
  have "tickets_ok (Suc (published s)) (drawn s) U V W" using I by (fastforce simp: tickets_ok_def)
  then show ?thesis using I by (simp add: dq_inv_def counters_ok_def publish_def)
qed

lemma conc_inv:
  assumes "dq_conc N s s'" and "dq_inv N s U V W" and "drawn s < 2 ^ 63" "published s < 2 ^ 63"
  shows "\<exists>U V W. dq_inv N s' U V W"
  using assms
proof cases
  case conc_publish
  then show ?thesis using publish_inv [OF assms(2)] by blast
next
  case (conc_call i)
  then show ?thesis using quiet_inv [OF assms(2), of i DTail] by auto
next
  case (conc_move i)
  then show ?thesis using step_inv [OF assms(2) _ assms(3,4)] by blast
qed

lemma conc_grows: "dq_conc N s s' \<Longrightarrow> drawn s \<le> drawn s' \<and> published s \<le> published s'"
  by (induction rule: dq_conc.induct) (auto simp: dq_move_def Let_def split: prod.splits)

lemma reach_inv:
  assumes "(dq_conc N)\<^sup>*\<^sup>* s s'" and "dq_start s" and "drawn s' < 2 ^ 63" "published s' < 2 ^ 63"
  shows "\<exists>U V W. dq_inv N s' U V W"
  using assms
proof (induction rule: rtranclp_induct)
  case base
  then have "dq_inv N s {} {} {}" by (simp add: dq_start_def dq_inv_def tickets_ok_def counters_ok_def)
  then show ?case by blast
next
  case (step t t')
  then show ?case using conc_grows [OF step(2)] conc_inv [OF step(2)] by fastforce
qed

section \<open>What the invariant says of the indices\<close>

lemma inv_handed:
  assumes "dq_inv N s U V W"
  shows "handed s = map word_of_nat [0..<length (handed s)]" and "length (handed s) \<le> published s" and "i < N \<Longrightarrow> dq_at s i \<noteq> DFault"
proof -
  note I = assms [unfolded dq_inv_def]
  show "handed s = map word_of_nat [0..<length (handed s)]" using I by (simp add: counters_ok_def)
  have "card U \<le> card W" using I tickets_finite by (metis card_mono tickets_ok_def)
  then show "length (handed s) \<le> published s" using I winners_bounded by (fastforce simp: counters_ok_def)
  show "i < N \<Longrightarrow> dq_at s i \<noteq> DFault" using I by force
qed

lemma inv_quiescent:
  assumes inv: "dq_inv N s U V W" and none: "\<forall>i < N. ticket (dq_at s i) = None" and small: "drawn s < 2 ^ 63" "published s < 2 ^ 63"
  shows "circular_less_than (dequeueOptimisticCount (dq_prod s) - dequeueOvercommit (dq_prod s)) (tailIndex (dq_prod s)) \<longleftrightarrow> length (handed s) < published s"
proof -
  note I = inv [unfolded dq_inv_def counters_ok_def]
  have fin: "finite U" "finite V" using I tickets_finite by blast+
  have sub: "U \<union> V \<subseteq> {..<drawn s}" "U \<inter> V = {}" using I unfolding tickets_ok_def by blast+
  have "m \<in> U \<union> V" if m: "m < drawn s" for m
  proof (rule ccontr)
    assume "m \<notin> U \<union> V"
    then obtain i where "i < N" "ticket (dq_at s i) = Some m" using I m by blast
    then show False using none by simp
  qed
  then have "U \<union> V = {..<drawn s}" using sub(1) by auto
  then have sum: "drawn s = card U + card V" using card_Un_disjoint [OF fin sub(2)] by simp
  then have "dequeueOptimisticCount (dq_prod s) - dequeueOvercommit (dq_prod s) = word_of_nat (card U)" using I by simp
  then show ?thesis using I sum small circ_small [of "card U" "published s"] by simp
qed

text \<open>C23: 
  However consumers and producer interleave, the indices handed out are 0, 1, 2 and so on, in order and each once, never
  more than elements are published, and the assertion on the overcommit count holds. When no consumer holds a ticket,
  the test a consumer starts with is true exactly if an element is left: no overcommit is forgotten or counted twice.
\<close>
theorem dequeue_tickets_safe:
  assumes "dq_start s0" and "(dq_conc N)\<^sup>*\<^sup>* s0 s" and "drawn s < 2 ^ 63" and "published s < 2 ^ 63"
  shows "handed s = map word_of_nat [0..<length (handed s)] \<and> length (handed s) \<le> published s \<and> (\<forall>i < N. dq_at s i \<noteq> DFault) \<and>
    ((\<forall>i < N. ticket (dq_at s i) = None) \<longrightarrow>
      (circular_less_than (dequeueOptimisticCount (dq_prod s) - dequeueOvercommit (dq_prod s)) (tailIndex (dq_prod s)) \<longleftrightarrow> length (handed s) < published s))"
proof -
  obtain U V W where "dq_inv N s U V W" using reach_inv [OF assms(2,1,3,4)] by blast
  then show ?thesis using inv_handed [of N s U V W] inv_quiescent [of N s U V W] assms(3,4) by simp
qed

text \<open>Two consumers race for one element: both pass the first test, the second draws a ticket too many and makes up for it.\<close>

definition race :: "dq_event list" where
  "race = [Publish, Call 0, Call 1, Move 0, Move 1, Move 0, Move 1, Move 0, Move 1, Move 0, Move 1, Move 1, Move 0, Move 0, Move 1]"

theorem dequeue_tickets_safe_witness:
  "\<exists>p. new_imp_producer True = Some p \<and> length (handed (fold (dq_happen 2) race (dq_begin p))) \<le> 1 \<and>
    dequeueOvercommit (dq_prod (fold (dq_happen 2) race (dq_begin p))) = 1"
proof -
  obtain p where p: "new_imp_producer True = Some p" using new_imp_producer_rel by blast
  let ?s = "fold (dq_happen 2) race (dq_begin p)"
  have z: "tailIndex p = 0" "headIndex p = 0" "dequeueOptimisticCount p = 0" "dequeueOvercommit p = 0"
    using new_producer_starts [OF p] by (simp_all add: dq_start_def dq_begin_def)
  have "published ?s = 1 \<and> drawn ?s = 2 \<and> dequeueOvercommit (dq_prod ?s) = 1"
    by (simp add: race_def dq_begin_def dq_move_def publish_def circular_less_than_unat Let_def z)
  then show ?thesis using p dequeue_tickets_safe [OF new_producer_starts [OF p] schedule_reaches, of 2 race] by simp
qed

end
