(* ===== verification/MpmcExplicit.thy ===== *)
theory MpmcExplicit
  imports MpmcProducer SpscBlock
begin

text \<open>
  Explicit producers (\<^verbatim>\<open>ExplicitProducer\<close> of \<^verbatim>\<open>src/lib/concurrentqueue/concurrentqueue.h\<close>), which tokens use: unlike an implicit
  producer, one of these keeps its blocks in a circle and takes the block after the last one again once it is empty.
  Calls run one after the other; the elements have constructors that do not throw. \<open>None\<close> is a violated assertion or
  undefined behaviour.

  The lemmas show that such a producer is a queue, also when an allocation fails, that the index leads to the right
  block although the quotient of the offset is unsigned, and how many elements fit without allocation.
\<close>

section \<open>Model\<close>

text \<open>
  An entry of the index is \<open>None\<close> until it is written. The newest index comes first in \<open>ep_blockIndex\<close>, the list of
  headers linked by \<^verbatim>\<open>prev\<close>; \<^verbatim>\<open>blockIndex\<close>, \<^verbatim>\<open>pr_blockIndexRaw\<close> and \<^verbatim>\<open>pr_blockIndexEntries\<close> always belong to it.
  \<open>ep_next\<close> are the pointers \<^verbatim>\<open>next\<close> of the producer's blocks.
\<close>

record exp_entry =
  ee_base :: u64
  ee_block :: nat

record exp_header =
  eh_size :: u64
  eh_front :: u64
  eh_entries :: "exp_entry option list"

record exp_producer =
  ep_tailIndex :: u64
  ep_headIndex :: u64
  ep_dequeueOptimisticCount :: u64
  ep_dequeueOvercommit :: u64
  ep_tailBlock :: "nat option"
  ep_next :: "nat \<rightharpoonup> nat"
  ep_blockIndex :: "exp_header list"
  pr_blockIndexSlotsUsed :: u64
  pr_blockIndexSize :: u64
  pr_blockIndexFront :: u64

definition EXPLICIT_INITIAL_INDEX_SIZE :: u64 where "EXPLICIT_INITIAL_INDEX_SIZE = 32"

definition exp_index :: "exp_producer \<Rightarrow> exp_header option" where
  "exp_index p = (case ep_blockIndex p of [] \<Rightarrow> None | h # _ \<Rightarrow> Some h)"

definition exp_entry_at :: "exp_header \<Rightarrow> u64 \<Rightarrow> exp_entry option" where
  "exp_entry_at h i = do { e \<leftarrow> nth_opt (eh_entries h) (unat i); e }"

text \<open>The \<^verbatim>\<open>do\<close> loop of \<^verbatim>\<open>new_block_index\<close>, from slot \<open>i\<close> round to the front.\<close>

fun copy_slots :: "nat \<Rightarrow> exp_header \<Rightarrow> u64 \<Rightarrow> u64 \<Rightarrow> u64 \<Rightarrow> exp_entry list option" where
  "copy_slots 0 h prevBlockSizeMask front i = None"
| "copy_slots (Suc fuel) h prevBlockSizeMask front i =
     do {
       e \<leftarrow> exp_entry_at h i;
       let i' = (i + 1) AND prevBlockSizeMask;
       if i' \<noteq> front then do { es \<leftarrow> copy_slots fuel h prevBlockSizeMask front i'; Some (e # es) } else Some [e]
     }"

definition exp_new_block_index :: "bool \<Rightarrow> u64 \<Rightarrow> exp_producer \<Rightarrow> (bool \<times> exp_producer) option" where
  "exp_new_block_index ok numberOfFilledSlotsToExpose p =
     (let prevBlockSizeMask = pr_blockIndexSize p - 1;
          size = push_bit 1 (pr_blockIndexSize p);
          front = pr_blockIndexFront p
      in if \<not> ok then Some (False, p\<lparr>pr_blockIndexSize := drop_bit 1 size\<rparr>)
         else do {
           old \<leftarrow> (if pr_blockIndexSlotsUsed p \<noteq> 0
                   then do {
                     h \<leftarrow> exp_index p;
                     copy_slots (unat (pr_blockIndexSize p)) h prevBlockSizeMask front ((front - pr_blockIndexSlotsUsed p) AND prevBlockSizeMask)
                   }
                   else Some []);
           assert_that (length old \<le> unat size);
           let header = \<lparr>eh_size = size, eh_front = numberOfFilledSlotsToExpose - 1,
                         eh_entries = map Some old @ replicate (unat size - length old) None\<rparr>;
           Some (True, p\<lparr>ep_blockIndex := header # ep_blockIndex p, pr_blockIndexSize := size, pr_blockIndexFront := word_of_nat (length old)\<rparr>)
         })"

definition ceil_to_pow_2 :: "u64 \<Rightarrow> u64" where
  "ceil_to_pow_2 x0 =
     (let x = x0 - 1;
          x = x OR drop_bit 1 x;
          x = x OR drop_bit 2 x;
          x = x OR drop_bit 4 x
      in ceil_loop 4 x 1 + 1)"

text \<open>The constructor; \<open>initialBlockPoolSize\<close> is that of the queue. A failed allocation is tried again by the first enqueue.\<close>

definition new_exp_producer :: "bool \<Rightarrow> u64 \<Rightarrow> exp_producer option" where
  "new_exp_producer ok blockPoolSize =
     (let size = drop_bit 1 EXPLICIT_INITIAL_INDEX_SIZE;
          poolBasedIndexSize = drop_bit 1 (ceil_to_pow_2 blockPoolSize);
          size = (if poolBasedIndexSize > size then poolBasedIndexSize else size)
      in do {
        (_, p) \<leftarrow> exp_new_block_index ok 0 \<lparr>ep_tailIndex = 0, ep_headIndex = 0, ep_dequeueOptimisticCount = 0, ep_dequeueOvercommit = 0,
          ep_tailBlock = None, ep_next = Map.empty, ep_blockIndex = [], pr_blockIndexSlotsUsed = 0, pr_blockIndexSize = size,
          pr_blockIndexFront = 0\<rparr>;
        Some p
      })"

text \<open>
  \<^verbatim>\<open>enqueue\<close> at the end of a block: the block ahead if it is empty, otherwise a new one, for which the index may have to
  grow.
\<close>

definition exp_block_ahead :: "exp_producer \<Rightarrow> 'a block_pool \<Rightarrow> nat option option" where
  "exp_block_ahead p pool =
     (case ep_tailBlock p of
        None \<Rightarrow> Some None
      | Some t \<Rightarrow> do {
          n \<leftarrow> ep_next p t;
          blk \<leftarrow> nth_opt (cq_blocks pool) n;
          e \<leftarrow> is_empty explicit_context blk;
          Some (if e then Some n else None)
        })"

definition exp_link_block :: "bool \<Rightarrow> exp_producer \<times> 'a block_pool \<Rightarrow> (bool \<times> exp_producer \<times> 'a block_pool) option" where
  "exp_link_block canAlloc s =
     (let (p, pool) = s in do {
       (newBlock, pool) \<leftarrow> requisition_block canAlloc pool;
       case newBlock of
         None \<Rightarrow> Some (False, p, pool)
       | Some b \<Rightarrow> do {
           pool \<leftarrow> upd_cq_block b (reset_empty explicit_context) pool;
           next' \<leftarrow> (case ep_tailBlock p of
               None \<Rightarrow> Some ((ep_next p)(b \<mapsto> b))
             | Some t \<Rightarrow> do { n \<leftarrow> ep_next p t; Some ((ep_next p)(b \<mapsto> n, t \<mapsto> b)) });
           Some (True, p\<lparr>ep_next := next', ep_tailBlock := Some b, pr_blockIndexSlotsUsed := pr_blockIndexSlotsUsed p + 1\<rparr>, pool)
         }
     })"

definition exp_index_room :: "bool \<Rightarrow> exp_producer \<times> 'a block_pool \<Rightarrow> (bool \<times> exp_producer \<times> 'a block_pool) option" where
  "exp_index_room canAlloc s =
     (let (p, pool) = s in
      if ep_blockIndex p = [] \<or> pr_blockIndexSlotsUsed p = pr_blockIndexSize p
      then (if \<not> canAlloc then Some (False, p, pool)
            else (let (ok, pool) = pool_malloc pool in do {
              (made, p) \<leftarrow> exp_new_block_index ok (pr_blockIndexSlotsUsed p) p;
              Some (made, p, pool)
            }))
      else Some (True, p, pool))"

definition exp_add_block :: "bool \<Rightarrow> exp_producer \<times> 'a block_pool \<Rightarrow> (bool \<times> exp_producer \<times> 'a block_pool) option" where
  "exp_add_block canAlloc s =
     (let (p, pool) = s; currentTailIndex = ep_tailIndex p; head = ep_headIndex p in do {
       assert_that (\<not> circular_less_than currentTailIndex head);
       if \<not> circular_less_than head (currentTailIndex + BLOCK_SIZE) \<or>
          MAX_SUBQUEUE_SIZE \<noteq> const_numeric_max \<and> (MAX_SUBQUEUE_SIZE = 0 \<or> MAX_SUBQUEUE_SIZE - BLOCK_SIZE < currentTailIndex - head)
       then Some (False, p, pool)
       else do {
         (room, p, pool) \<leftarrow> exp_index_room canAlloc (p, pool);
         if \<not> room then Some (False, p, pool) else exp_link_block canAlloc (p, pool)
       }
     })"

definition exp_tail_block :: "bool \<Rightarrow> exp_producer \<times> 'a block_pool \<Rightarrow> (bool \<times> exp_producer \<times> 'a block_pool) option" where
  "exp_tail_block canAlloc s =
     (let (p, pool) = s in do {
       ahead \<leftarrow> exp_block_ahead p pool;
       case ahead of
         Some n \<Rightarrow> do { pool \<leftarrow> upd_cq_block n (reset_empty explicit_context) pool; Some (True, p\<lparr>ep_tailBlock := Some n\<rparr>, pool) }
       | None \<Rightarrow> exp_add_block canAlloc (p, pool)
     })"

text \<open>The block is put on the index.\<close>

definition exp_add_entry :: "u64 \<Rightarrow> exp_producer \<Rightarrow> exp_producer option" where
  "exp_add_entry currentTailIndex p =
     do {
       h \<leftarrow> exp_index p;
       t \<leftarrow> ep_tailBlock p;
       let front = pr_blockIndexFront p;
       assert_that (unat front < length (eh_entries h));
       let h = h\<lparr>eh_entries := (eh_entries h)[unat front := Some \<lparr>ee_base = currentTailIndex, ee_block = t\<rparr>], eh_front := front\<rparr>;
       Some (p\<lparr>ep_blockIndex := h # tl (ep_blockIndex p), pr_blockIndexFront := (front + 1) AND (pr_blockIndexSize p - 1)\<rparr>)
     }"

definition exp_store :: "u64 \<Rightarrow> 'a \<Rightarrow> exp_producer \<times> 'a block_pool \<Rightarrow> (bool \<times> exp_producer \<times> 'a block_pool) option" where
  "exp_store currentTailIndex x s =
     (let (p, pool) = s in do {
       b \<leftarrow> ep_tailBlock p;
       pool \<leftarrow> upd_cq_block b (put_elem currentTailIndex x) pool;
       Some (True, p\<lparr>ep_tailIndex := 1 + currentTailIndex\<rparr>, pool)
     })"

definition exp_enqueue :: "bool \<Rightarrow> 'a \<Rightarrow> exp_producer \<times> 'a block_pool \<Rightarrow> (bool \<times> exp_producer \<times> 'a block_pool) option" where
  "exp_enqueue canAlloc x s =
     (let currentTailIndex = ep_tailIndex (fst s) in
      if currentTailIndex AND (BLOCK_SIZE - 1) = 0
      then do {
        (ok, p, pool) \<leftarrow> exp_tail_block canAlloc s;
        if \<not> ok then Some (False, p, pool)
        else do { p \<leftarrow> exp_add_entry currentTailIndex p; exp_store currentTailIndex x (p, pool) }
      }
      else exp_store currentTailIndex x s)"

text \<open>
  \<^verbatim>\<open>dequeue\<close>: the block of an index is found from the entry at the front. \<^verbatim>\<open>BLOCK_SIZE\<close> is unsigned, so the difference is
  converted to an unsigned number before it is divided.
\<close>

definition exp_block_of :: "u64 \<Rightarrow> exp_producer \<Rightarrow> nat option" where
  "exp_block_of index p =
     do {
       localBlockIndex \<leftarrow> exp_index p;
       let localBlockIndexHead = eh_front localBlockIndex;
       headEntry \<leftarrow> exp_entry_at localBlockIndex localBlockIndexHead;
       let headBase = ee_base headEntry;
       let blockBaseIndex = index AND NOT (BLOCK_SIZE - 1);
       let offset = (blockBaseIndex - headBase) div BLOCK_SIZE;
       e \<leftarrow> exp_entry_at localBlockIndex ((localBlockIndexHead + offset) AND (eh_size localBlockIndex - 1));
       Some (ee_block e)
     }"

definition exp_take :: "u64 \<Rightarrow> exp_producer \<times> 'a block_pool \<Rightarrow> ('a option \<times> exp_producer \<times> 'a block_pool) option" where
  "exp_take index s =
     (let (p, pool) = s in do {
       b \<leftarrow> exp_block_of index p;
       blk \<leftarrow> nth_opt (cq_blocks pool) b;
       x \<leftarrow> get_elem index blk;
       (_, blk) \<leftarrow> set_empty explicit_context index (destroy_elem index blk);
       Some (Some x, p, pool\<lparr>cq_blocks := (cq_blocks pool)[b := blk]\<rparr>)
     })"

definition exp_dequeue :: "exp_producer \<times> 'a block_pool \<Rightarrow> ('a option \<times> exp_producer \<times> 'a block_pool) option" where
  "exp_dequeue s =
     (let (p, pool) = s; overcommit = ep_dequeueOvercommit p in
      if circular_less_than (ep_dequeueOptimisticCount p - overcommit) (ep_tailIndex p)
      then do {
        let myDequeueCount = ep_dequeueOptimisticCount p;
        let p = p\<lparr>ep_dequeueOptimisticCount := myDequeueCount + 1\<rparr>;
        assert_that (overcommit \<le> myDequeueCount);
        if circular_less_than (myDequeueCount - overcommit) (ep_tailIndex p)
        then (let index = ep_headIndex p; p = p\<lparr>ep_headIndex := index + 1\<rparr> in exp_take index (p, pool))
        else Some (None, p\<lparr>ep_dequeueOvercommit := ep_dequeueOvercommit p + 1\<rparr>, pool)
      }
      else Some (None, p, pool))"

section \<open>Blocks of a circle\<close>

text \<open>The block for the indices from \<open>32 * k\<close> on: \<open>h\<close> elements are dequeued, and \<open>xs\<close> are in the queue.\<close>

definition exp_holds :: "'a list \<Rightarrow> nat \<Rightarrow> nat \<Rightarrow> 'a cq_block \<Rightarrow> bool" where
  "exp_holds xs h k blk \<longleftrightarrow> elements blk = map (\<lambda>m. slot_val xs h (32 * k + m)) [0..<32] \<and>
     emptyFlags blk = map (\<lambda>m. Some (32 * k + (31 - m) < h)) [0..<32]"

lemma exp_holds_length: "exp_holds xs h k blk \<Longrightarrow> length (elements blk) = 32"
  by (simp add: exp_holds_def)

lemma exp_holds_empty:
  assumes "exp_holds xs h k blk"
  shows "is_empty explicit_context blk = Some (32 * Suc k \<le> h)"
proof -
  have f: "emptyFlags blk = map (\<lambda>m. Some (32 * k + (31 - m) < h)) [0..<32]" using assms by (simp add: exp_holds_def)
  have "is_empty explicit_context blk = Some (\<forall>f \<in> set (emptyFlags blk). f = Some True)"
    using all_flags_iff [of "emptyFlags blk"] unfolding is_empty_def f by simp
  also have "(\<forall>f \<in> set (emptyFlags blk). f = Some True) \<longleftrightarrow> (\<forall>m < 32. 32 * k + (31 - m) < h)" unfolding f by auto
  also have "\<dots> \<longleftrightarrow> 32 * Suc k \<le> h"
  proof
    assume "\<forall>m < 32. 32 * k + (31 - m) < h"
    from this [rule_format, of 0] show "32 * Suc k \<le> h" by simp
  qed auto
  finally show ?thesis .
qed

lemma exp_holds_other:
  assumes "exp_holds (y # ys) h k blk" and "k \<noteq> h div 32"
  shows "exp_holds ys (Suc h) k blk"
proof -
  have "32 * k + m \<noteq> h" "32 * k + (31 - m) \<noteq> h" if "m < 32" for m using assms(2) that by auto
  then have "slot_val (y # ys) h (32 * k + m) = slot_val ys (Suc h) (32 * k + m)" "32 * k + (31 - m) < h \<longleftrightarrow> 32 * k + (31 - m) < Suc h" if "m < 32" for m
    using that less_Suc_eq [of "32 * k + (31 - m)" h] by (simp_all only: slot_val_Cons simp_thms if_False)
  then show ?thesis using assms(1) by (simp add: exp_holds_def)
qed

lemma exp_holds_take:
  assumes "exp_holds (y # ys) h (h div 32) blk"
  shows "get_elem (word_of_nat h) blk = Some y"
    and "\<exists>blk'. set_empty explicit_context (word_of_nat h) (destroy_elem (word_of_nat h) blk) = Some (False, blk') \<and>
      exp_holds ys (Suc h) (h div 32) blk' \<and> dynamicallyAllocated blk' = dynamicallyAllocated blk"
proof -
  let ?k = "h div 32" and ?m = "h mod 32"
  have E: "elements blk = map (\<lambda>m. slot_val (y # ys) h (32 * ?k + m)) [0..<32]" and
    F: "emptyFlags blk = map (\<lambda>m. Some (32 * ?k + (31 - m) < h)) [0..<32]" using assms by (simp_all add: exp_holds_def)
  have m: "?m < 32" "31 - ?m < 32" "31 - (31 - ?m) = ?m" by simp_all
  have h: "32 * ?k + ?m = h" by simp
  show "get_elem (word_of_nat h) blk = Some y" using E by (simp add: get_elem_def slot_of_nat slot_val_def)
  define blk' where "blk' = (destroy_elem (word_of_nat h) blk)\<lparr>emptyFlags := (emptyFlags blk)[31 - ?m := Some True]\<rparr>"
  have res: "set_empty explicit_context (word_of_nat h) (destroy_elem (word_of_nat h) blk) = Some (False, blk')"
    using F m h by (simp add: set_empty_def Let_def destroy_elem_def slot_of_nat blk'_def)
  have "elements blk' = map (\<lambda>m. slot_val ys (Suc h) (32 * ?k + m)) [0..<32]"
  proof (rule nth_equalityI)
    fix i assume "i < length (elements blk')"
    then have i: "i < 32" by (simp add: blk'_def destroy_elem_def E)
    have "32 * ?k + i = h \<longleftrightarrow> i = ?m" using i h by linarith
    then show "elements blk' ! i = map (\<lambda>m. slot_val ys (Suc h) (32 * ?k + m)) [0..<32] ! i"
      using i by (auto simp: blk'_def destroy_elem_def E slot_of_nat nth_list_update slot_val_Cons) (simp add: slot_val_def)
  qed (simp add: blk'_def destroy_elem_def E)
  moreover have "emptyFlags blk' = map (\<lambda>m. Some (32 * ?k + (31 - m) < Suc h)) [0..<32]"
  proof (rule nth_equalityI)
    fix i assume "i < length (emptyFlags blk')"
    then have i: "i < 32" by (simp add: blk'_def F)
    have "32 * ?k + (31 - i) = h \<longleftrightarrow> i = 31 - ?m" using i h m(1) by linarith
    then show "emptyFlags blk' ! i = map (\<lambda>m. Some (32 * ?k + (31 - m) < Suc h)) [0..<32] ! i"
      using i by (auto simp: blk'_def F nth_list_update less_Suc_eq)
  qed (simp add: blk'_def F)
  ultimately show "\<exists>blk'. set_empty explicit_context (word_of_nat h) (destroy_elem (word_of_nat h) blk) = Some (False, blk') \<and>
      exp_holds ys (Suc h) ?k blk' \<and> dynamicallyAllocated blk' = dynamicallyAllocated blk"
    using res by (auto simp: exp_holds_def blk'_def destroy_elem_def)
qed

lemma exp_holds_put:
  assumes "exp_holds xs h k blk"
  shows "exp_holds (xs @ [x]) h k (if k = (h + length xs) div 32 then put_elem (word_of_nat (h + length xs)) x blk else blk)"
proof -
  let ?t = "h + length xs"
  have E: "elements blk = map (\<lambda>m. slot_val xs h (32 * k + m)) [0..<32]" using assms by (simp add: exp_holds_def)
  have "elements (if k = ?t div 32 then put_elem (word_of_nat ?t) x blk else blk) = map (\<lambda>m. slot_val (xs @ [x]) h (32 * k + m)) [0..<32]"
    using block_pos [of _ k ?t]
    by (intro nth_equalityI) (auto simp: put_elem_def E slot_of_nat nth_list_update slot_val_snoc simp del: of_nat_add)
  then show ?thesis using assms by (simp add: exp_holds_def put_elem_def)
qed

lemma exp_holds_fresh:
  assumes "elements blk = replicate 32 None" and "h + length xs \<le> 32 * k"
  shows "exp_holds xs h k (reset_empty explicit_context blk)"
  using assms by (auto simp: exp_holds_def reset_empty_def slot_val_def intro: nth_equalityI)

lemma exp_holds_used:
  assumes "exp_holds xs h k blk" and "32 * Suc k \<le> h"
  shows "elements blk = replicate 32 None"
  using assms by (auto simp: exp_holds_def slot_val_def intro: nth_equalityI)

section \<open>The index\<close>

text \<open>
  \<open>F\<close> entries have been written in all, the last ones for the blocks \<open>cs\<close>, which start with the one for the indices from
  \<open>32 * k\<close> on; the size of the index is \<open>2\<^sup>c\<close>.
\<close>

definition exp_slot :: "nat \<Rightarrow> nat \<Rightarrow> exp_entry" where
  "exp_slot k b = \<lparr>ee_base = word_of_nat (32 * k), ee_block = b\<rparr>"

definition exp_entries :: "exp_entry option list \<Rightarrow> nat \<Rightarrow> nat \<Rightarrow> nat list \<Rightarrow> bool" where
  "exp_entries es F k cs \<longleftrightarrow> length cs \<le> length es \<and> length cs \<le> F \<and>
     (\<forall>j < length cs. es ! ((F - length cs + j) mod length es) = Some (exp_slot (k + j) (cs ! j)))"

definition exp_ring :: "exp_producer \<Rightarrow> exp_header \<Rightarrow> nat \<Rightarrow> nat \<Rightarrow> nat \<Rightarrow> nat list \<Rightarrow> bool" where
  "exp_ring p H c F k cs \<longleftrightarrow> exp_index p = Some H \<and> eh_size H = pr_blockIndexSize p \<and> unat (pr_blockIndexSize p) = 2 ^ c \<and> c \<le> 59 \<and>
     length (eh_entries H) = 2 ^ c \<and> unat (pr_blockIndexFront p) = F mod 2 ^ c \<and> (cs \<noteq> [] \<longrightarrow> unat (eh_front H) = (F - 1) mod 2 ^ c) \<and>
     exp_entries (eh_entries H) F k cs"

definition exp_indexed :: "exp_producer \<Rightarrow> nat \<Rightarrow> nat list \<Rightarrow> bool" where
  "exp_indexed p k cs \<longleftrightarrow> (\<exists>H c F. exp_ring p H c F k cs)"

text \<open>The first allocation of an index may have failed.\<close>

definition exp_unindexed :: "exp_producer \<Rightarrow> bool" where
  "exp_unindexed p \<longleftrightarrow> ep_blockIndex p = [] \<and> (\<exists>c \<le> 58. unat (pr_blockIndexSize p) = 2 ^ c) \<and> pr_blockIndexFront p = 0"

lemma entries_drop:
  assumes "exp_entries es F k cs" and "d \<le> length cs"
  shows "exp_entries es F (k + d) (drop d cs)"
proof -
  have "F - length (drop d cs) + j = F - length cs + (d + j)" for j using assms by (simp add: exp_entries_def)
  then show ?thesis using assms unfolding exp_entries_def by (auto simp: add.assoc)
qed

lemma ring_drop: "exp_ring p H c F k cs \<Longrightarrow> d \<le> length cs \<Longrightarrow> exp_ring p H c F (k + d) (drop d cs)"
  using entries_drop [of "eh_entries H" F k cs d] by (auto simp: exp_ring_def)

lemma entries_add:
  assumes "exp_entries es F k cs" and "length cs < length es"
  shows "exp_entries (es[F mod length es := Some (exp_slot (k + length cs) b)]) (Suc F) k (cs @ [b])"
proof -
  let ?n = "length cs" and ?L = "length es"
  have ne: "(F - ?n + j) mod ?L \<noteq> F mod ?L" if j: "j < ?n" for j
  proof
    assume "(F - ?n + j) mod ?L = F mod ?L"
    moreover have "F = (F - ?n + j) + (?n - j)" using assms(1) j by (simp add: exp_entries_def)
    ultimately have "?L dvd ?n - j" by (metis mod_eq_dvd_iff_nat le_add1 add_diff_cancel_left')
    then show False using assms(2) j by (auto dest: dvd_imp_le)
  qed
  have lt: "F mod ?L < ?L" using assms(2) by (intro mod_less_divisor) linarith
  then have "es[F mod ?L := e] ! ((F - ?n + j) mod ?L) = (if j < ?n then es ! ((F - ?n + j) mod ?L) else e)" if "j \<le> ?n" for j e
    using ne [of j] that assms(1) by (cases "j < ?n") (simp_all add: nth_list_update not_sym exp_entries_def)
  then show ?thesis using assms lt unfolding exp_entries_def by (auto simp: nth_append less_Suc_eq)
qed

lemma add_entry_ok:
  assumes ring: "exp_ring p H c F k cs" and room: "length cs < 2 ^ c" and t: "ep_tailBlock p = Some b"
  shows "\<exists>p'. exp_add_entry (word_of_nat (32 * (k + length cs))) p = Some p' \<and> exp_indexed p' k (cs @ [b]) \<and>
    p' = p\<lparr>ep_blockIndex := ep_blockIndex p', pr_blockIndexFront := pr_blockIndexFront p'\<rparr>"
proof -
  note R = ring [unfolded exp_ring_def]
  let ?f = "pr_blockIndexFront p" and ?e = "Some (exp_slot (k + length cs) b)"
  let ?H = "H\<lparr>eh_entries := (eh_entries H)[unat ?f := ?e], eh_front := ?f\<rparr>"
  let ?p = "p\<lparr>ep_blockIndex := ?H # tl (ep_blockIndex p), pr_blockIndexFront := (?f + 1) AND (pr_blockIndexSize p - 1)\<rparr>"
  have f: "unat ?f < length (eh_entries H)" using R by simp
  then have res: "exp_add_entry (word_of_nat (32 * (k + length cs))) p = Some ?p"
    using R t by (simp add: exp_add_entry_def exp_slot_def Let_def del: of_nat_mult of_nat_add distrib_left_numeral)
  have "unat (?f + 1) mod 2 ^ c = (unat ?f + 1) mod 2 ^ c" using R by (simp add: unat_add_u64 mod64_mod)
  also have "\<dots> = Suc F mod 2 ^ c" using R by (simp add: mod_Suc_eq)
  finally have front: "unat ((?f + 1) AND (pr_blockIndexSize p - 1)) = Suc F mod 2 ^ c" using R and_pow2_minus_1 [of "pr_blockIndexSize p" c "?f + 1"] by simp
  have "exp_entries (eh_entries ?H) (Suc F) k (cs @ [b])"
    using entries_add [of "eh_entries H" F k cs b] R room by simp
  then have "exp_ring ?p ?H c (Suc F) k (cs @ [b])" using R front by (simp add: exp_ring_def exp_index_def)
  then show ?thesis using res by (intro exI [of _ ?p]) (auto simp: exp_indexed_def)
qed

text \<open>The unsigned offset leads back from the front to the block of an index.\<close>

lemma exp_block_of_ok:
  assumes "exp_indexed p k cs" and j: "j < length cs" and i: "i div 32 = k + j"
  shows "exp_block_of (word_of_nat i) p = Some (cs ! j)"
proof -
  obtain H c F where "exp_ring p H c F k cs" using assms(1) by (auto simp: exp_indexed_def)
  note R = this [unfolded exp_ring_def]
  have E: "length cs \<le> 2 ^ c" "length cs \<le> F"
    "\<And>m. m < length cs \<Longrightarrow> eh_entries H ! ((F - length cs + m) mod 2 ^ c) = Some (exp_slot (k + m) (cs ! m))"
    using R by (auto simp: exp_entries_def)
  let ?n = "length cs" and ?d = "length cs - 1 - j"
  have last: "F - ?n + (?n - 1) = F - 1" "k + (?n - 1) = (k + j) + ?d" using E(2) j by simp_all
  have front: "unat (eh_front H) = (F - 1) mod 2 ^ c" using R j by auto
  then have head: "exp_entry_at H (eh_front H) = Some (exp_slot ((k + j) + ?d) (cs ! (?n - 1)))"
    using E(3) [of "?n - 1"] j R last by (simp add: exp_entry_at_def)
  let ?x = "(eh_front H + (word_of_nat (32 * (k + j)) - word_of_nat (32 * ((k + j) + ?d))) div BLOCK_SIZE) AND (eh_size H - 1)"
  have d: "?d < 2 ^ c" using E(1) j by linarith
  have "unat ?x = (unat (eh_front H) + (2 ^ c - ?d)) mod 2 ^ c"
    using R front by (intro lookup_offset [OF _ _ _ d]) simp_all
  also have "\<dots> = (F - 1 + (2 ^ c - ?d)) mod 2 ^ c" by (simp add: front mod_add_left_eq)
  also have "F - 1 + (2 ^ c - ?d) = (F - ?n + j) + 2 ^ c" using E(2) d j by linarith
  finally have "unat ?x = (F - ?n + j) mod 2 ^ c" by simp
  then have "exp_entry_at H ?x = Some (exp_slot (k + j) (cs ! j))"
    using E(3) [OF j] R by (simp add: exp_entry_at_def)
  then show ?thesis unfolding exp_block_of_def Let_def block_base i using R head by (simp add: exp_slot_def del: of_nat_mult of_nat_add distrib_left_numeral)
qed

section \<open>A larger index\<close>

lemma copy_slots_ok:
  assumes "length (eh_entries H) = 2 ^ c" and "c \<le> 59" and "unat sz = 2 ^ c" and "exp_entries (eh_entries H) F k cs" and "unat front = F mod 2 ^ c"
    and "j < length cs" and "unat i = (F - length cs + j) mod 2 ^ c" and "length cs - j \<le> fuel"
  shows "copy_slots fuel H (sz - 1) front i = Some (map (\<lambda>m. exp_slot (k + m) (cs ! m)) [j..<length cs])"
  using assms(6-)
proof (induction fuel arbitrary: j i)
  case (Suc fuel)
  note E = assms(4) [unfolded exp_entries_def assms(1)]
  let ?n = "length cs" and ?i' = "(i + 1) AND (sz - 1)"
  have "unat (i + 1) mod 2 ^ c = (unat i + 1) mod 2 ^ c" using assms(2) by (simp add: unat_add_u64 mod64_mod)
  also have "\<dots> = (F - ?n + Suc j) mod 2 ^ c" using Suc.prems(2) by (simp add: mod_Suc_eq)
  finally have i': "unat ?i' = (F - ?n + Suc j) mod 2 ^ c" using and_pow2_minus_1 [OF assms(3), of "i + 1"] assms(2) by simp
  have "eh_entries H ! ((F - ?n + j) mod 2 ^ c) = Some (exp_slot (k + j) (cs ! j))" using E Suc.prems(1) by blast
  then have e: "exp_entry_at H i = Some (exp_slot (k + j) (cs ! j))" using Suc.prems(2) assms(1) by (simp add: exp_entry_at_def)
  show ?case
  proof (cases "Suc j = ?n")
    case True
    have "F - ?n + Suc j = F" using True E by simp
    then have "?i' = front" using i' assms(5) by (simp add: word_unat_eq_iff)
    then show ?thesis using e True [symmetric] by simp
  next
    case False
    have "(F - ?n + Suc j) mod 2 ^ c \<noteq> F mod 2 ^ c"
    proof
      assume "(F - ?n + Suc j) mod 2 ^ c = F mod 2 ^ c"
      moreover have "F = (F - ?n + Suc j) + (?n - Suc j)" using E Suc.prems(1) by simp
      ultimately have "2 ^ c dvd ?n - Suc j" by (metis mod_eq_dvd_iff_nat le_add1 add_diff_cancel_left')
      moreover have "?n - Suc j < 2 ^ c" "0 < ?n - Suc j" using E Suc.prems(1) False by linarith+
      ultimately show False by (auto dest: dvd_imp_le)
    qed
    then have "?i' \<noteq> front" using i' assms(5) by (metis)
    moreover have "copy_slots fuel H (sz - 1) front ?i' = Some (map (\<lambda>m. exp_slot (k + m) (cs ! m)) [Suc j..<?n])"
      using Suc.prems False i' by (intro Suc.IH) simp_all
    ultimately show ?thesis using e Suc.prems(1) by (simp add: upt_conv_Cons)
  qed
qed simp

lemma new_index_fails: "unat (pr_blockIndexSize p) = 2 ^ c \<Longrightarrow> c < 63 \<Longrightarrow> exp_new_block_index False n p = Some (False, p)"
proof -
  assume a: "unat (pr_blockIndexSize p) = 2 ^ c" "c < 63"
  have "unat (drop_bit 1 (push_bit 1 (pr_blockIndexSize p))) = unat (pr_blockIndexSize p)"
    using unat_double [OF a] a(1) by (simp add: drop_bit_eq_div unat_div)
  then have "drop_bit 1 (push_bit 1 (pr_blockIndexSize p)) = pr_blockIndexSize p" by (rule word_unat_eq_iff [THEN iffD2])
  then show ?thesis by (cases p) (simp add: exp_new_block_index_def Let_def)
qed

lemma mod_cancel_nat: "(a + n) mod m = (b + n) mod m \<Longrightarrow> a mod m = b mod (m :: nat)"
  unfolding nat_mod_eq_iff by (auto simp: algebra_simps)

lemma ring_start:
  assumes ring: "exp_ring p H c F k cs"
  shows "unat ((pr_blockIndexFront p - word_of_nat (length cs)) AND (pr_blockIndexSize p - 1)) = (F - length cs) mod 2 ^ c"
proof -
  note R = ring [unfolded exp_ring_def] and E = ring [unfolded exp_ring_def exp_entries_def]
  let ?n = "length cs" and ?x = "pr_blockIndexFront p - word_of_nat (length cs)"
  have le: "?n \<le> 2 ^ c" "?n \<le> F" "(2 :: nat) ^ c \<le> 2 ^ 59" using E power_increasing [of c 59 "2 :: nat"] by auto
  then have un: "unat (word_of_nat ?n :: u64) = ?n" by (simp add: unat_word_of_nat)
  have "(unat ?x + ?n) mod 2 ^ c = unat (?x + word_of_nat ?n) mod 2 ^ c" using R un by (simp only: unat_add_u64) (simp add: mod64_mod)
  also have "\<dots> = ((F - ?n) + ?n) mod 2 ^ c" using R le by simp
  finally have "unat ?x mod 2 ^ c = (F - ?n) mod 2 ^ c" by (rule mod_cancel_nat)
  then show ?thesis using R and_pow2_minus_1 [of "pr_blockIndexSize p" c ?x] by simp
qed

lemma new_index_grows:
  assumes ring: "exp_ring p H c F k cs" and c: "c < 59" and cs: "cs \<noteq> []" and slots: "pr_blockIndexSlotsUsed p = word_of_nat (length cs)"
  shows "\<exists>p' H'. exp_new_block_index True (pr_blockIndexSlotsUsed p) p = Some (True, p') \<and> exp_ring p' H' (Suc c) (length cs) k cs \<and>
    p' = p\<lparr>ep_blockIndex := ep_blockIndex p', pr_blockIndexSize := pr_blockIndexSize p', pr_blockIndexFront := pr_blockIndexFront p'\<rparr>"
proof -
  note R = ring [unfolded exp_ring_def] and E = ring [unfolded exp_ring_def exp_entries_def]
  let ?n = "length cs" and ?size = "push_bit 1 (pr_blockIndexSize p)" and ?old = "map (\<lambda>m. exp_slot (k + m) (cs ! m)) [0..<length cs]"
  have lt: "(2 :: nat) ^ c < 2 ^ 59" using c by (intro power_strict_increasing) simp_all
  have le: "?n \<le> 2 ^ c" "?n \<le> F" using E by auto
  have un: "unat (word_of_nat ?n :: u64) = ?n" using lt le(1) by (simp add: unat_word_of_nat)
  have sz: "unat ?size = 2 ^ Suc c" using R c by (intro unat_double) auto
  have slots0: "pr_blockIndexSlotsUsed p \<noteq> 0" using un cs slots by (metis length_0_conv unat_0)
  have "copy_slots (unat (pr_blockIndexSize p)) H (pr_blockIndexSize p - 1) (pr_blockIndexFront p)
      ((pr_blockIndexFront p - word_of_nat ?n) AND (pr_blockIndexSize p - 1)) = Some ?old"
    using R le cs ring_start [OF ring] by (intro copy_slots_ok) auto
  moreover define H' where "H' = \<lparr>eh_size = ?size, eh_front = word_of_nat ?n - 1, eh_entries = map Some ?old @ replicate (unat ?size - ?n) None\<rparr>"
  moreover define p' where "p' = p\<lparr>ep_blockIndex := H' # ep_blockIndex p, pr_blockIndexSize := ?size, pr_blockIndexFront := word_of_nat ?n\<rparr>"
  ultimately have res: "exp_new_block_index True (pr_blockIndexSlotsUsed p) p = Some (True, p')"
    using R slots0 slots sz le by (simp add: exp_new_block_index_def Let_def)
  have "(word_of_nat ?n :: u64) - 1 = word_of_nat (?n - 1)" using cs by (simp add: of_nat_diff Suc_le_eq)
  then have "unat (eh_front H') = ?n - 1" using lt le by (simp add: H'_def unat_word_of_nat)
  moreover have "exp_entries (eh_entries H') ?n k cs" using le sz cs by (auto simp: exp_entries_def H'_def nth_append)
  moreover have "?n < 2 * 2 ^ c" using le(1) zero_less_power [of "2 :: nat" c] by linarith
  ultimately have "exp_ring p' H' (Suc c) ?n k cs"
    using le sz c un by (simp add: exp_ring_def exp_index_def p'_def) (simp add: H'_def)
  then show ?thesis using res by (intro exI [of _ p'] exI [of _ H']) (simp add: p'_def)
qed

lemma new_index_first:
  assumes "exp_unindexed p" and "pr_blockIndexSlotsUsed p = 0"
  shows "\<exists>p'. exp_new_block_index True 0 p = Some (True, p') \<and> exp_indexed p' k [] \<and> ep_blockIndex p' \<noteq> [] \<and>
    p' = p\<lparr>ep_blockIndex := ep_blockIndex p', pr_blockIndexSize := pr_blockIndexSize p', pr_blockIndexFront := pr_blockIndexFront p'\<rparr>"
proof -
  obtain c where c: "unat (pr_blockIndexSize p) = 2 ^ c" "c \<le> 58" using assms(1) by (auto simp: exp_unindexed_def)
  let ?size = "push_bit 1 (pr_blockIndexSize p)"
  have sz: "unat ?size = 2 ^ Suc c" using unat_double c by simp
  define H' where "H' = \<lparr>eh_size = ?size, eh_front = 0 - 1, eh_entries = replicate (unat ?size) None\<rparr>"
  define p' where "p' = p\<lparr>ep_blockIndex := [H'], pr_blockIndexSize := ?size, pr_blockIndexFront := 0\<rparr>"
  have "exp_new_block_index True 0 p = Some (True, p')"
    using assms by (simp add: exp_new_block_index_def Let_def p'_def H'_def exp_unindexed_def)
  moreover have "exp_ring p' H' (Suc c) 0 k []" using sz c by (simp add: exp_ring_def exp_index_def p'_def H'_def exp_entries_def)
  ultimately show ?thesis by (intro exI [of _ p']) (auto simp: exp_indexed_def p'_def)
qed

section \<open>A producer as a queue\<close>

definition exp_counters :: "exp_producer \<Rightarrow> nat \<Rightarrow> nat \<Rightarrow> bool" where
  "exp_counters p h n \<longleftrightarrow> ep_headIndex p = word_of_nat h \<and> ep_tailIndex p = word_of_nat (h + n) \<and> ep_dequeueOptimisticCount p = word_of_nat h \<and>
     ep_dequeueOvercommit p = 0 \<and> n \<le> 2 ^ 62"

text \<open>The circle of blocks, the last one being that of the tail.\<close>

definition exp_circle :: "exp_producer \<Rightarrow> nat list \<Rightarrow> bool" where
  "exp_circle p cs \<longleftrightarrow> distinct cs \<and> pr_blockIndexSlotsUsed p = word_of_nat (length cs) \<and> ep_tailBlock p = (if cs = [] then None else Some (last cs)) \<and>
     (\<forall>j < length cs. ep_next p (cs ! j) = Some (cs ! (Suc j mod length cs)))"

definition exp_blocks :: "'a cq_block list \<Rightarrow> nat \<Rightarrow> nat \<Rightarrow> 'a list \<Rightarrow> nat list \<Rightarrow> bool" where
  "exp_blocks blks k h xs cs \<longleftrightarrow> (\<forall>j < length cs. cs ! j < length blks \<and> exp_holds xs h (k + j) (blks ! (cs ! j)))"

definition exp_rel :: "exp_producer \<Rightarrow> 'a cq_block list \<Rightarrow> nat \<Rightarrow> nat \<Rightarrow> 'a list \<Rightarrow> nat list \<Rightarrow> bool" where
  "exp_rel p blks k h xs cs \<longleftrightarrow> exp_counters p h (length xs) \<and> exp_circle p cs \<and> exp_blocks blks k h xs cs \<and>
     (h + length xs + 31) div 32 = k + length cs \<and> k \<le> h div 32 \<and> (exp_indexed p k cs \<or> cs = [] \<and> exp_unindexed p) \<and> length cs \<le> 2 ^ 58"

lemma exp_indexed_counters [simp]:
  "exp_indexed (p\<lparr>ep_dequeueOptimisticCount := o'\<rparr>) k cs \<longleftrightarrow> exp_indexed p k cs" "exp_indexed (p\<lparr>ep_headIndex := h'\<rparr>) k cs \<longleftrightarrow> exp_indexed p k cs"
  "exp_indexed (p\<lparr>ep_tailIndex := t'\<rparr>) k cs \<longleftrightarrow> exp_indexed p k cs" "exp_indexed (p\<lparr>ep_tailBlock := tb\<rparr>) k cs \<longleftrightarrow> exp_indexed p k cs"
  "exp_indexed (p\<lparr>ep_next := nx\<rparr>) k cs \<longleftrightarrow> exp_indexed p k cs" "exp_indexed (p\<lparr>pr_blockIndexSlotsUsed := sl\<rparr>) k cs \<longleftrightarrow> exp_indexed p k cs"
  by (simp_all add: exp_indexed_def exp_ring_def exp_index_def)

lemma exp_circle_counters [simp]:
  "exp_circle (p\<lparr>ep_dequeueOptimisticCount := o'\<rparr>) cs \<longleftrightarrow> exp_circle p cs" "exp_circle (p\<lparr>ep_headIndex := h'\<rparr>) cs \<longleftrightarrow> exp_circle p cs"
  "exp_circle (p\<lparr>ep_tailIndex := t'\<rparr>) cs \<longleftrightarrow> exp_circle p cs"
  by (simp_all add: exp_circle_def)

lemma exp_dequeue_Nil:
  assumes "exp_counters p h 0"
  shows "exp_dequeue (p, pool) = Some (None, p, pool)"
proof -
  have "ep_dequeueOptimisticCount p - ep_dequeueOvercommit p = ep_tailIndex p" using assms by (simp add: exp_counters_def)
  then show ?thesis by (simp add: exp_dequeue_def circular_less_than_unat)
qed

lemma exp_dequeue_Cons:
  assumes rel: "exp_rel p (cq_blocks pool) k h (y # ys) cs" and inv: "pool_inv pool used" and sub: "set cs \<subseteq> used"
  shows "\<exists>p' pool'. exp_dequeue (p, pool) = Some (Some y, p', pool') \<and> exp_rel p' (cq_blocks pool') k (Suc h) ys cs \<and> pool_inv pool' used \<and>
    answers pool' = answers pool"
proof -
  note R = rel [unfolded exp_rel_def] and C = rel [unfolded exp_rel_def exp_counters_def]
  let ?n = "length (y # ys)" and ?j = "h div 32 - k" and ?p = "p\<lparr>ep_dequeueOptimisticCount := word_of_nat h + 1, ep_headIndex := word_of_nat h + 1\<rparr>"
  have "h div 32 < (h + ?n + 31) div 32" by simp
  then have j: "?j < length cs" "h div 32 = k + ?j" using R by linarith+
  then have ix: "exp_indexed p k cs" using R by auto
  have "circular_less_than (word_of_nat h) (ep_tailIndex p)"
    using circular_less_than_add [of ?n "word_of_nat h"] C by (simp add: add.left_commute)
  then have deq: "exp_dequeue (p, pool) = exp_take (word_of_nat h) (?p, pool)"
    using C by (simp add: exp_dequeue_def Let_def)
  let ?b = "cs ! ?j" and ?blks = "cq_blocks pool"
  have b: "?b < length ?blks" "exp_holds (y # ys) h (h div 32) (?blks ! ?b)" using R j by (auto simp: exp_blocks_def)
  obtain blk' where blk': "set_empty explicit_context (word_of_nat h) (destroy_elem (word_of_nat h) (?blks ! ?b)) = Some (False, blk')"
    "exp_holds ys (Suc h) (h div 32) blk'" "dynamicallyAllocated blk' = dynamicallyAllocated (?blks ! ?b)" using exp_holds_take(2) [OF b(2)] by blast
  let ?pool = "pool\<lparr>cq_blocks := ?blks[?b := blk']\<rparr>"
  have "exp_block_of (word_of_nat h) ?p = Some ?b" using ix j by (intro exp_block_of_ok [where k = k]) auto
  then have take: "exp_take (word_of_nat h) (?p, pool) = Some (Some y, ?p, ?pool)"
    using b(1) exp_holds_take(1) [OF b(2)] blk'(1) by (simp add: exp_take_def)
  have "exp_holds ys (Suc h) (k + i) (?blks[?b := blk'] ! (cs ! i))" if "i < length cs" for i
  proof (cases "i = ?j")
    case True
    then show ?thesis using b(1) blk'(2) j(2) by simp
  next
    case False
    then have "cs ! i \<noteq> ?b" "k + i \<noteq> h div 32" using R that j by (auto simp: exp_circle_def nth_eq_iff_index_eq)
    then show ?thesis using exp_holds_other [of y ys h "k + i" "?blks ! (cs ! i)"] R that by (simp add: exp_blocks_def)
  qed
  then have "exp_blocks (?blks[?b := blk']) k (Suc h) ys cs" using R by (auto simp: exp_blocks_def)
  then have "exp_rel ?p (cq_blocks ?pool) k (Suc h) ys cs"
    using R ix by (auto simp: exp_rel_def exp_counters_def add.commute intro: le_trans div_le_mono)
  moreover have "pool_inv ?pool used" using sub j(1) blk'(2,3) by (intro pool_update [OF inv]) (auto simp: exp_holds_length)
  ultimately show ?thesis unfolding deq take by simp
qed

text \<open>Before the object is stored, the last block has room for it.\<close>

definition exp_pre :: "exp_producer \<Rightarrow> 'a cq_block list \<Rightarrow> nat \<Rightarrow> nat \<Rightarrow> 'a list \<Rightarrow> nat list \<Rightarrow> bool" where
  "exp_pre p blks k h xs cs \<longleftrightarrow> exp_counters p h (length xs) \<and> exp_circle p cs \<and> exp_blocks blks k h xs cs \<and>
     Suc ((h + length xs) div 32) = k + length cs \<and> k \<le> h div 32 \<and> exp_indexed p k cs \<and> length cs \<le> 2 ^ 58"

lemma exp_store_ok:
  assumes pre: "exp_pre p (cq_blocks pool) k h xs cs" and room: "length xs < 2 ^ 62" and inv: "pool_inv pool used" and sub: "set cs \<subseteq> used"
  shows "\<exists>p' pool'. exp_store (ep_tailIndex p) x (p, pool) = Some (True, p', pool') \<and> exp_rel p' (cq_blocks pool') k h (xs @ [x]) cs \<and>
    pool_inv pool' used \<and> answers pool' = answers pool"
proof -
  note P = pre [unfolded exp_pre_def]
  let ?t = "h + length xs" and ?b = "last cs" and ?blks = "cq_blocks pool"
  have "k + length cs \<noteq> k" using P div_le_mono [of h ?t 32] by linarith
  then have ne: "cs \<noteq> []" by auto
  have last: "?b = cs ! (length cs - 1)" using ne by (rule last_conv_nth)
  have tail: "ep_tailIndex p = word_of_nat ?t" using P by (simp add: exp_counters_def)
  let ?blk = "put_elem (word_of_nat ?t) x (?blks ! ?b)"
  have "length cs - 1 < length cs" using ne by simp
  then have "?b < length ?blks \<and> exp_holds xs h (k + (length cs - 1)) (?blks ! ?b)" unfolding last using P unfolding exp_blocks_def by blast
  then have b: "?b < length ?blks" "length (elements (?blks ! ?b)) = 32" using exp_holds_length by blast+
  have store: "exp_store (ep_tailIndex p) x (p, pool) = Some (True, p\<lparr>ep_tailIndex := 1 + word_of_nat ?t\<rparr>, pool\<lparr>cq_blocks := ?blks[?b := ?blk]\<rparr>)"
    using P ne b tail by (simp add: exp_store_def upd_cq_block_def exp_circle_def del: of_nat_add)
  have "exp_holds (xs @ [x]) h (k + j) (?blks[?b := ?blk] ! (cs ! j))" if j: "j < length cs" for j
  proof -
    have "cs ! j = ?b \<longleftrightarrow> k + j = ?t div 32" using P j ne unfolding last by (auto simp: exp_circle_def nth_eq_iff_index_eq)
    then show ?thesis using exp_holds_put [of xs h "k + j" "?blks ! (cs ! j)" x] P j b(1) by (auto simp: exp_blocks_def nth_list_update split: if_splits)
  qed
  then have "exp_blocks (?blks[?b := ?blk]) k h (xs @ [x]) cs" using P by (auto simp: exp_blocks_def)
  moreover have "(h + length (xs @ [x]) + 31) div 32 = k + length cs" using P div_add_self2 [of 32 ?t] by simp
  moreover have "exp_counters (p\<lparr>ep_tailIndex := 1 + word_of_nat ?t\<rparr>) h (length (xs @ [x]))" using P room by (simp add: exp_counters_def)
  ultimately have "exp_rel (p\<lparr>ep_tailIndex := 1 + word_of_nat ?t\<rparr>) (?blks[?b := ?blk]) k h (xs @ [x]) cs"
    using P by (simp add: exp_rel_def)
  moreover have "pool_inv (pool\<lparr>cq_blocks := ?blks[?b := ?blk]\<rparr>) used"
    using sub ne b(2) by (intro pool_update [OF inv]) (auto simp: put_elem_def)
  ultimately show ?thesis unfolding store by simp
qed

text \<open>Taking the empty block ahead turns the circle by one block.\<close>

lemma circle_turn:
  assumes "exp_circle p cs" and "cs \<noteq> []"
  shows "exp_circle (p\<lparr>ep_tailBlock := Some (hd cs)\<rparr>) (rotate1 cs)" and "ep_next p (last cs) = Some (hd cs)"
proof -
  note C = assms(1) [unfolded exp_circle_def]
  have n: "0 < length cs" using assms(2) by simp
  have "last (rotate1 cs) = hd cs" using assms(2) by (simp add: rotate1_hd_tl)
  moreover have "ep_next p (rotate1 cs ! j) = Some (rotate1 cs ! (Suc j mod length cs))" if "j < length cs" for j
    using C that n by (simp add: nth_rotate1)
  ultimately show "exp_circle (p\<lparr>ep_tailBlock := Some (hd cs)\<rparr>) (rotate1 cs)" using C assms(2) by (simp add: exp_circle_def)
  have "ep_next p (cs ! (length cs - 1)) = Some (cs ! (Suc (length cs - 1) mod length cs))" using C n by (metis diff_less zero_less_one)
  then show "ep_next p (last cs) = Some (hd cs)" using assms(2) n by (simp add: last_conv_nth hd_conv_nth)
qed

lemma circle_grow:
  assumes "exp_circle p cs" and "b \<notin> set cs"
    and next': "next' = (if cs = [] then (ep_next p)(b \<mapsto> b) else (ep_next p)(b \<mapsto> hd cs, last cs \<mapsto> b))"
  shows "exp_circle (p\<lparr>ep_next := next', ep_tailBlock := Some b, pr_blockIndexSlotsUsed := pr_blockIndexSlotsUsed p + 1\<rparr>) (cs @ [b])"
proof (cases "cs = []")
  case True
  then show ?thesis using assms by (simp add: exp_circle_def)
next
  case False
  note C = assms(1) [unfolded exp_circle_def]
  let ?n = "length cs"
  have "next' ((cs @ [b]) ! j) = Some ((cs @ [b]) ! (Suc j mod Suc ?n))" if j: "j < Suc ?n" for j
  proof -
    consider "j = ?n" | "Suc j = ?n" | "Suc j < ?n" using j by linarith
    then show ?thesis
    proof cases
      case 1
      then show ?thesis using False next' assms(2) by (auto simp: hd_conv_nth nth_append)
    next
      case 2
      then have "cs ! j = last cs" using False by (metis diff_Suc_1 last_conv_nth)
      then show ?thesis using 2 False next' by (simp add: nth_append)
    next
      case 3
      then have "cs ! j \<noteq> last cs" using C False by (auto simp: last_conv_nth nth_eq_iff_index_eq)
      moreover have "cs ! j \<noteq> b" using assms(2) 3 by (metis Suc_lessD nth_mem)
      ultimately show ?thesis using 3 C False next' by (simp add: nth_append)
    qed
  qed
  then show ?thesis using C assms(2) by (simp add: exp_circle_def add.commute)
qed

text \<open>The end of a block: the tail index is a multiple of 32.\<close>

lemma reuse_ok:
  assumes rel: "exp_rel p (cq_blocks pool) k h xs cs" and T: "(h + length xs) mod 32 = 0" and ne: "cs \<noteq> []" and e: "32 * Suc k \<le> h"
    and inv: "pool_inv pool used" and sub: "set cs \<subseteq> used"
  shows "\<exists>p1 pool1 p2. exp_tail_block canAlloc (p, pool) = Some (True, p1, pool1) \<and> exp_add_entry (ep_tailIndex p) p1 = Some p2 \<and>
    ep_tailIndex p2 = ep_tailIndex p \<and> exp_pre p2 (cq_blocks pool1) (Suc k) h xs (rotate1 cs) \<and> pool_inv pool1 used \<and> answers pool1 = answers pool"
proof -
  note R = rel [unfolded exp_rel_def]
  let ?b = "hd cs" and ?blks = "cq_blocks pool" and ?p = "p\<lparr>ep_tailBlock := Some (hd cs)\<rparr>"
  let ?blk = "reset_empty explicit_context (?blks ! ?b)"
  let ?pool = "pool\<lparr>cq_blocks := ?blks[?b := ?blk]\<rparr>"
  have K: "(h + length xs) div 32 = k + length cs" "h + length xs = 32 * (k + length cs)" using R ceil_boundary [OF T] T by auto
  have circ: "exp_circle p cs" using R by blast
  note turn = circle_turn [OF circ ne]
  have t: "ep_tailBlock p = Some (last cs)" using circ ne by (simp add: exp_circle_def)
  have b: "?b < length ?blks" "exp_holds xs h k (?blks ! ?b)" using R ne by (auto simp: exp_blocks_def hd_conv_nth dest: spec [of _ 0])
  have tail: "exp_tail_block canAlloc (p, pool) = Some (True, ?p, ?pool)"
    using t turn(2) b(1) exp_holds_empty [OF b(2)] e by (simp add: exp_tail_block_def exp_block_ahead_def upd_cq_block_def)
  obtain H c F where ring: "exp_ring p H c F k cs" using R ne by (auto simp: exp_indexed_def)
  have "exp_ring ?p H c F (Suc k) (tl cs)" using ring_drop [OF ring, of 1] ne by (simp add: exp_ring_def exp_index_def drop_Suc Suc_le_eq)
  moreover have "length (tl cs) < 2 ^ c" using ring ne by (simp add: exp_ring_def exp_entries_def) (metis Suc_le_lessD Suc_pred length_greater_0_conv)
  ultimately have "\<exists>p2. exp_add_entry (word_of_nat (32 * (Suc k + length (tl cs)))) ?p = Some p2 \<and> exp_indexed p2 (Suc k) (tl cs @ [?b]) \<and>
      p2 = ?p\<lparr>ep_blockIndex := ep_blockIndex p2, pr_blockIndexFront := pr_blockIndexFront p2\<rparr>" by (rule add_entry_ok) simp
  moreover have "Suc k + length (tl cs) = k + length cs" using ne by (cases cs) simp_all
  ultimately obtain p2 where p2: "exp_add_entry (word_of_nat (32 * (k + length cs))) ?p = Some p2" "exp_indexed p2 (Suc k) (tl cs @ [?b])"
    "p2 = ?p\<lparr>ep_blockIndex := ep_blockIndex p2, pr_blockIndexFront := pr_blockIndexFront p2\<rparr>"
    by (simp only:) blast
  have tailIdx: "ep_tailIndex p = word_of_nat (32 * (k + length cs))" using R K(2) by (simp add: exp_counters_def del: of_nat_mult of_nat_add distrib_left_numeral)
  have fresh: "exp_holds xs h (k + length cs) ?blk" using exp_holds_used [OF b(2) e] K(2) by (intro exp_holds_fresh) simp_all
  have "exp_holds xs h (Suc k + j) (?blks[?b := ?blk] ! (rotate1 cs ! j)) \<and> rotate1 cs ! j < length ?blks" if j: "j < length cs" for j
  proof (cases "Suc j = length cs")
    case True
    then have "rotate1 cs ! j = ?b" using ne j by (simp add: nth_rotate1 hd_conv_nth)
    moreover have "Suc k + j = k + length cs" using True by simp
    ultimately show ?thesis using fresh b(1) by (simp only: nth_list_update_eq simp_thms)
  next
    case False
    then have "rotate1 cs ! j = cs ! Suc j" "cs ! Suc j \<noteq> ?b" using j circ ne by (auto simp: nth_rotate1 exp_circle_def hd_conv_nth nth_eq_iff_index_eq)
    moreover have "cs ! Suc j < length ?blks" "exp_holds xs h (k + Suc j) (?blks ! (cs ! Suc j))"
      using R j False spec [of _ "Suc j"] unfolding exp_blocks_def by (metis Suc_lessI)+
    ultimately show ?thesis by simp
  qed
  then have blocks: "exp_blocks (cq_blocks ?pool) (Suc k) h xs (rotate1 cs)" by (auto simp: exp_blocks_def)
  have "exp_circle p2 (rotate1 cs)" by (subst p2(3)) (use turn(1) in \<open>simp add: exp_circle_def\<close>)
  moreover have "exp_counters p2 h (length xs)" by (subst p2(3)) (use R in \<open>simp add: exp_counters_def\<close>)
  ultimately have "exp_pre p2 (cq_blocks ?pool) (Suc k) h xs (rotate1 cs)"
    using blocks K(1) e p2(2) ne R by (simp add: exp_pre_def rotate1_hd_tl)
  moreover have "ep_tailIndex p2 = ep_tailIndex p" by (subst p2(3)) simp
  moreover have "pool_inv ?pool used" using sub ne exp_holds_length [OF b(2)] by (intro pool_update [OF inv]) (auto simp: reset_empty_def)
  ultimately show ?thesis using tail p2(1) tailIdx by auto
qed

text \<open>Room in the index: it is there, or a larger index is made, or the call gives up with the producer as it was.\<close>

lemma index_room_ok:
  assumes rel: "exp_rel p blks k h xs cs" and T: "(h + length xs) mod 32 = 0" and full: "cs \<noteq> [] \<Longrightarrow> h < 32 * Suc k"
  shows "\<exists>r p' pool'. exp_index_room canAlloc (p, pool) = Some (r, p', pool') \<and> exp_rel p' blks k h xs cs \<and>
    (pool' = pool \<or> pool' = snd (pool_malloc pool)) \<and>
    (if r then \<exists>H c F. exp_ring p' H c F k cs \<and> length cs < 2 ^ c else p' = p \<and> \<not> (canAlloc \<and> answers pool = [])) \<and>
    p' = p\<lparr>ep_blockIndex := ep_blockIndex p', pr_blockIndexSize := pr_blockIndexSize p', pr_blockIndexFront := pr_blockIndexFront p'\<rparr>"
proof -
  note R = rel [unfolded exp_rel_def]
  have slots: "pr_blockIndexSlotsUsed p = word_of_nat (length cs)" using R by (simp add: exp_circle_def)
  have keep: "exp_rel p' blks k h xs cs" if "exp_indexed p' k cs"
    "p' = p\<lparr>ep_blockIndex := ep_blockIndex p', pr_blockIndexSize := pr_blockIndexSize p', pr_blockIndexFront := pr_blockIndexFront p'\<rparr>" for p'
  proof -
    have "exp_counters p' h (length xs)" "exp_circle p' cs" by (subst that(2), use R in \<open>simp add: exp_counters_def exp_circle_def\<close>)+
    then show ?thesis using R that(1) by (simp add: exp_rel_def)
  qed
  have malloc: "\<not> (canAlloc \<and> answers pool = [])" if "\<not> (canAlloc \<and> fst (pool_malloc pool))" using that by (auto simp: pool_malloc_def)
  have size: "\<exists>c \<le> 59. unat (pr_blockIndexSize p) = 2 ^ c" using R by (force simp: exp_indexed_def exp_ring_def exp_unindexed_def)
  let ?need = "ep_blockIndex p = [] \<or> pr_blockIndexSlotsUsed p = pr_blockIndexSize p"
  have grow: "\<exists>p' H c F. exp_new_block_index True (pr_blockIndexSlotsUsed p) p = Some (True, p') \<and> exp_ring p' H c F k cs \<and> length cs < 2 ^ c \<and>
      p' = p\<lparr>ep_blockIndex := ep_blockIndex p', pr_blockIndexSize := pr_blockIndexSize p', pr_blockIndexFront := pr_blockIndexFront p'\<rparr>" if need: ?need
  proof (cases "exp_indexed p k cs")
    case True
    then obtain H c F where ring: "exp_ring p H c F k cs" by (auto simp: exp_indexed_def)
    note G = ring [unfolded exp_ring_def exp_entries_def]
    have "(2 :: nat) ^ c \<le> 2 ^ 59" using G by (intro power_increasing) simp_all
    then have small: "length cs < 2 ^ 64" using G by (auto intro: le_less_trans)
    have "pr_blockIndexSlotsUsed p = pr_blockIndexSize p" using need G by (auto simp: exp_index_def)
    then have n: "length cs = 2 ^ c" using G slots small by (simp add: word_unat_eq_iff unat_word_of_nat)
    then have ne: "cs \<noteq> []" by auto
    have "h + length xs = 32 * (k + length cs)" using R ceil_boundary [OF T] T by auto
    then have "32 * 2 ^ c < length xs + 32" using full [OF ne] n by simp
    moreover have "length xs \<le> 2 ^ 62" using R by (simp add: exp_counters_def)
    ultimately have "(2 :: nat) ^ c < 2 ^ 59" by simp
    then have c: "c < 59" by (rule power_less_imp_less_exp [rotated]) simp
    obtain p' H' where "exp_new_block_index True (pr_blockIndexSlotsUsed p) p = Some (True, p')" "exp_ring p' H' (Suc c) (length cs) k cs"
      "p' = p\<lparr>ep_blockIndex := ep_blockIndex p', pr_blockIndexSize := pr_blockIndexSize p', pr_blockIndexFront := pr_blockIndexFront p'\<rparr>"
      using new_index_grows [OF ring c ne slots] by blast
    moreover have "length cs < 2 ^ Suc c" using n by simp
    ultimately show ?thesis by blast
  next
    case False
    then have cs: "cs = []" and un: "exp_unindexed p" using R by auto
    obtain p' where p': "exp_new_block_index True 0 p = Some (True, p')" "exp_indexed p' k []"
      "p' = p\<lparr>ep_blockIndex := ep_blockIndex p', pr_blockIndexSize := pr_blockIndexSize p', pr_blockIndexFront := pr_blockIndexFront p'\<rparr>"
      using new_index_first [OF un, of k] slots cs by auto
    obtain H c F where "exp_ring p' H c F k []" using p'(2) by (auto simp: exp_indexed_def)
    then show ?thesis using p'(1,3) cs slots by (intro exI [of _ p'] exI [of _ H] exI [of _ c] exI [of _ F]) simp
  qed
  show ?thesis
  proof (cases ?need)
    case False
    then obtain H c F where ring: "exp_ring p H c F k cs" using R by (auto simp: exp_indexed_def exp_unindexed_def)
    have "length cs \<noteq> 2 ^ c"
    proof
      assume "length cs = 2 ^ c"
      then have "word_of_nat (unat (pr_blockIndexSize p)) = (word_of_nat (length cs) :: u64)" using ring by (simp add: exp_ring_def)
      then have "pr_blockIndexSize p = word_of_nat (length cs)" by simp
      then show False using False slots by simp
    qed
    then have "length cs < 2 ^ c" using ring by (simp add: exp_ring_def exp_entries_def)
    then show ?thesis using False rel ring by (intro exI [of _ True] exI [of _ p] exI [of _ pool]) (auto simp: exp_index_room_def)
  next
    case need: True
    show ?thesis
    proof (cases "canAlloc \<and> fst (pool_malloc pool)")
      case True
      obtain p' H c F where p': "exp_new_block_index True (pr_blockIndexSlotsUsed p) p = Some (True, p')" "exp_ring p' H c F k cs" "length cs < 2 ^ c"
        "p' = p\<lparr>ep_blockIndex := ep_blockIndex p', pr_blockIndexSize := pr_blockIndexSize p', pr_blockIndexFront := pr_blockIndexFront p'\<rparr>"
        using grow [OF need] by blast
      have "exp_index_room canAlloc (p, pool) = Some (True, p', snd (pool_malloc pool))"
        using need True p'(1) by (simp add: exp_index_room_def split_beta Let_def)
      moreover have "exp_indexed p' k cs" using p'(2) by (auto simp: exp_indexed_def)
      ultimately show ?thesis using keep p' by (intro exI [of _ True] exI [of _ p'] exI [of _ "snd (pool_malloc pool)"]) auto
    next
      case False
      have "exp_index_room canAlloc (p, pool) = Some (False, p, if canAlloc then snd (pool_malloc pool) else pool)"
        using need False size new_index_fails [of p] by (auto simp: exp_index_room_def split_beta Let_def)
      then show ?thesis using rel malloc [OF False] by (intro exI [of _ False] exI [of _ p]) auto
    qed
  qed
qed

lemma link_ok:
  assumes rel: "exp_rel p (cq_blocks pool) k h xs cs" and T: "(h + length xs) mod 32 = 0" and ring: "exp_ring p H c F k cs" and room: "length cs < 2 ^ c"
    and few: "32 * length cs < length xs + 32" and inv: "pool_inv pool used" and sub: "set cs \<subseteq> used"
  shows "\<exists>r p1 pool1. exp_link_block canAlloc (p, pool) = Some (r, p1, pool1) \<and> (answers pool = [] \<longrightarrow> answers pool1 = []) \<and>
    (if r then \<exists>b p2. exp_add_entry (ep_tailIndex p) p1 = Some p2 \<and> ep_tailIndex p2 = ep_tailIndex p \<and> exp_pre p2 (cq_blocks pool1) k h xs (cs @ [b]) \<and>
       pool_inv pool1 (used \<union> set (cs @ [b]))
     else p1 = p \<and> cq_blocks pool1 = cq_blocks pool \<and> pool_inv pool1 used \<and> \<not> (canAlloc \<and> answers pool = []))"
proof -
  note R = rel [unfolded exp_rel_def]
  obtain nb pool0 where rq: "requisition_block canAlloc pool = Some (nb, pool0)" and q: "case nb of
       None \<Rightarrow> pool_inv pool0 used \<and> cq_blocks pool0 = cq_blocks pool \<and> used = {..<length (cq_blocks pool)} \<and>
         \<not> (canAlloc \<and> answers pool = []) \<and> (answers pool = [] \<longrightarrow> answers pool0 = [])
     | Some b \<Rightarrow> b \<notin> used \<and> pool_inv pool0 (insert b used) \<and> elements (cq_blocks pool0 ! b) = replicate 32 None \<and>
         (\<forall>i < length (cq_blocks pool). cq_blocks pool0 ! i = cq_blocks pool ! i) \<and>
         length (cq_blocks pool) \<le> length (cq_blocks pool0) \<and> (answers pool = [] \<longrightarrow> answers pool0 = []) \<and>
         (used \<noteq> {..<length (cq_blocks pool)} \<longrightarrow> length (cq_blocks pool0) = length (cq_blocks pool) \<and> answers pool0 = answers pool)"
    using requisition_ok [OF inv, of canAlloc] by blast
  show ?thesis
  proof (cases nb)
    case None
    then show ?thesis using rq q by (intro exI [of _ False] exI [of _ p] exI [of _ pool0]) (auto simp: exp_link_block_def)
  next
    case (Some b)
    note Q = q [unfolded Some option.case]
    let ?blks = "cq_blocks pool0"
    let ?blk = "reset_empty explicit_context (?blks ! b)"
    let ?pool = "pool0\<lparr>cq_blocks := ?blks[b := ?blk]\<rparr>"
    define next' where "next' = (if cs = [] then (ep_next p)(b \<mapsto> b) else (ep_next p)(b \<mapsto> hd cs, last cs \<mapsto> b))"
    let ?p = "p\<lparr>ep_next := next', ep_tailBlock := Some b, pr_blockIndexSlotsUsed := pr_blockIndexSlotsUsed p + 1\<rparr>"
    have b: "b < length ?blks" "b \<notin> set cs" using pool_inv_used [of pool0 "insert b used"] Q sub by auto
    have circ: "exp_circle p cs" using R by blast
    have link: "exp_link_block canAlloc (p, pool) = Some (True, ?p, ?pool)"
      using rq Some b circ circle_turn(2) [OF circ] by (simp add: exp_link_block_def upd_cq_block_def next'_def exp_circle_def)
    have circ': "exp_circle ?p (cs @ [b])" by (rule circle_grow [OF circ b(2) next'_def])
    have K: "(h + length xs) div 32 = k + length cs" "h + length xs = 32 * (k + length cs)" using R ceil_boundary [OF T] T by auto
    have tail: "ep_tailIndex p = word_of_nat (32 * (k + length cs))" using R K(2) by (simp add: exp_counters_def del: of_nat_mult of_nat_add distrib_left_numeral)
    have "exp_ring ?p H c F k cs" using ring by (simp add: exp_ring_def exp_index_def)
    then obtain p2 where p2: "exp_add_entry (ep_tailIndex p) ?p = Some p2" "exp_indexed p2 k (cs @ [b])"
      "p2 = ?p\<lparr>ep_blockIndex := ep_blockIndex p2, pr_blockIndexFront := pr_blockIndexFront p2\<rparr>"
      using add_entry_ok [of ?p H c F k cs b] room unfolding tail by auto
    have "exp_holds xs h (k + length cs) ?blk" using Q K(2) by (intro exp_holds_fresh) simp_all
    moreover have "?blks[b := ?blk] ! (cs ! j) = cq_blocks pool ! (cs ! j)" "cs ! j < length ?blks" if "j < length cs" for j
      using that b Q R by (auto simp: exp_blocks_def nth_list_update dest: nth_mem)
    ultimately have "exp_blocks (cq_blocks ?pool) k h xs (cs @ [b])" using R b(1) by (auto simp: exp_blocks_def nth_append less_Suc_eq)
    moreover have "exp_circle p2 (cs @ [b])" by (subst p2(3)) (use circ' in \<open>simp add: exp_circle_def\<close>)
    moreover have "exp_counters p2 h (length xs)" by (subst p2(3)) (use R in \<open>simp add: exp_counters_def\<close>)
    moreover have "length (cs @ [b]) \<le> 2 ^ 58" using few R by (simp add: exp_counters_def)
    ultimately have "exp_pre p2 (cq_blocks ?pool) k h xs (cs @ [b])" using R K(1) p2(2) by (simp add: exp_pre_def)
    moreover have "ep_tailIndex p2 = ep_tailIndex p" by (subst p2(3)) simp
    moreover have "pool_inv ?pool (insert b used)" using Q by (intro pool_update) (auto simp: reset_empty_def)
    then have "pool_inv ?pool (used \<union> set (cs @ [b]))" using sub by (simp add: Un_absorb2)
    ultimately show ?thesis using link p2(1) Q by (intro exI [of _ True] exI [of _ ?p] exI [of _ ?pool]) auto
  qed
qed

lemma room_words:
  assumes "exp_counters p h n"
  shows "\<not> circular_less_than (ep_tailIndex p) (ep_headIndex p)" and "circular_less_than (ep_headIndex p) (ep_tailIndex p + BLOCK_SIZE)"
proof -
  have n: "n \<le> 2 ^ 62" and t: "ep_tailIndex p = ep_headIndex p + word_of_nat n" "ep_tailIndex p + BLOCK_SIZE = ep_headIndex p + word_of_nat (n + 32)"
    using assms by (simp_all add: exp_counters_def BLOCK_SIZE_def)
  show "\<not> circular_less_than (ep_tailIndex p) (ep_headIndex p)"
  proof (cases "n = 0")
    case False
    then have "circular_less_than (ep_headIndex p) (ep_tailIndex p)" using circular_less_than_add [of n "ep_headIndex p"] n t(1) by simp
    then show ?thesis by (rule circular_less_than_asym)
  qed (simp add: t(1) circular_less_than_unat)
  show "circular_less_than (ep_headIndex p) (ep_tailIndex p + BLOCK_SIZE)"
    unfolding t(2) using circular_less_than_add [of "n + 32" "ep_headIndex p"] n by simp
qed

lemma not_ahead:
  assumes rel: "exp_rel p (cq_blocks pool) k h xs cs" and full: "\<not> (cs \<noteq> [] \<and> 32 * Suc k \<le> h)"
  shows "exp_tail_block canAlloc (p, pool) = exp_add_block canAlloc (p, pool)"
proof (cases "cs = []")
  case True
  then show ?thesis using rel by (simp add: exp_rel_def exp_tail_block_def exp_block_ahead_def exp_circle_def)
next
  case ne: False
  note R = rel [unfolded exp_rel_def]
  have t: "ep_tailBlock p = Some (last cs)" "ep_next p (last cs) = Some (hd cs)" using R ne circle_turn(2) by (auto simp: exp_circle_def)
  have b: "hd cs < length (cq_blocks pool)" "exp_holds xs h k (cq_blocks pool ! hd cs)"
    using R ne by (auto simp: exp_blocks_def hd_conv_nth dest: spec [of _ 0])
  show ?thesis using t b(1) exp_holds_empty [OF b(2)] full ne by (simp add: exp_tail_block_def exp_block_ahead_def)
qed

lemma fresh_ok:
  assumes rel: "exp_rel p (cq_blocks pool) k h xs cs" and T: "(h + length xs) mod 32 = 0" and full: "\<not> (cs \<noteq> [] \<and> 32 * Suc k \<le> h)"
    and few: "32 * length cs < length xs + 32" and inv: "pool_inv pool used" and sub: "set cs \<subseteq> used"
  shows "\<exists>r p1 pool1. exp_tail_block canAlloc (p, pool) = Some (r, p1, pool1) \<and> (answers pool = [] \<longrightarrow> answers pool1 = []) \<and>
    (if r then \<exists>b p2. exp_add_entry (ep_tailIndex p) p1 = Some p2 \<and> ep_tailIndex p2 = ep_tailIndex p \<and> exp_pre p2 (cq_blocks pool1) k h xs (cs @ [b]) \<and>
       pool_inv pool1 (used \<union> set (cs @ [b]))
     else exp_rel p1 (cq_blocks pool1) k h xs cs \<and> pool_inv pool1 used \<and> \<not> (canAlloc \<and> answers pool = []))"
proof -
  obtain r1 p1 pool1 where ir: "exp_index_room canAlloc (p, pool) = Some (r1, p1, pool1)" "exp_rel p1 (cq_blocks pool) k h xs cs"
    "pool1 = pool \<or> pool1 = snd (pool_malloc pool)"
    "if r1 then \<exists>H c F. exp_ring p1 H c F k cs \<and> length cs < 2 ^ c else p1 = p \<and> \<not> (canAlloc \<and> answers pool = [])"
    "p1 = p\<lparr>ep_blockIndex := ep_blockIndex p1, pr_blockIndexSize := pr_blockIndexSize p1, pr_blockIndexFront := pr_blockIndexFront p1\<rparr>"
    using index_room_ok [OF rel T, of canAlloc pool] full by (metis not_le)
  have tl1: "ep_tailIndex p1 = ep_tailIndex p" by (subst ir(5)) simp
  have pool1: "cq_blocks pool1 = cq_blocks pool" "pool_inv pool1 used" using ir(3) inv by auto
  have ans: "answers pool = [] \<Longrightarrow> answers pool1 = []" using ir(3) by (auto simp: pool_malloc_def)
  have counters: "exp_counters p h (length xs)" using rel by (simp add: exp_rel_def)
  have add: "exp_tail_block canAlloc (p, pool) = (if \<not> r1 then Some (False, p1, pool1) else exp_link_block canAlloc (p1, pool1))"
    unfolding not_ahead [OF rel full] using room_words [OF counters] ir(1) by (simp add: exp_add_block_def Let_def)
  show ?thesis
  proof (cases r1)
    case False
    then show ?thesis using add ir(2,4) pool1 ans by (intro exI [of _ False] exI [of _ p1] exI [of _ pool1]) simp
  next
    case True
    then obtain H c F where ring: "exp_ring p1 H c F k cs" "length cs < 2 ^ c" using ir(4) by auto
    have rel1: "exp_rel p1 (cq_blocks pool1) k h xs cs" using ir(2) pool1(1) by simp
    obtain r2 p2 pool2 where link: "exp_link_block canAlloc (p1, pool1) = Some (r2, p2, pool2)" "answers pool1 = [] \<longrightarrow> answers pool2 = []"
      "if r2 then \<exists>b p3. exp_add_entry (ep_tailIndex p1) p2 = Some p3 \<and> ep_tailIndex p3 = ep_tailIndex p1 \<and> exp_pre p3 (cq_blocks pool2) k h xs (cs @ [b]) \<and>
         pool_inv pool2 (used \<union> set (cs @ [b]))
       else p2 = p1 \<and> cq_blocks pool2 = cq_blocks pool1 \<and> pool_inv pool2 used \<and> \<not> (canAlloc \<and> answers pool1 = [])"
      using link_ok [OF rel1 T ring few pool1(2) sub, of canAlloc] by blast
    then have "exp_tail_block canAlloc (p, pool) = Some (r2, p2, pool2)" using add True by simp
    then show ?thesis using link rel1 pool1 ans tl1 by (intro exI [of _ r2] exI [of _ p2] exI [of _ pool2]) (cases r2; auto)
  qed
qed

text \<open>
  What an enqueue does. It fails only when an allocation is needed and not allowed or refused; a producer with \<open>n\<close>
  blocks takes elements without allocation as long as it has at most \<open>32 * (n - 1)\<close> of them.
\<close>

lemma exp_enqueue_ok:
  assumes rel: "exp_rel p (cq_blocks pool) k h xs cs" and room: "length xs < 2 ^ 62" and inv: "pool_inv pool used" and sub: "set cs \<subseteq> used"
  shows "\<exists>r p' pool' k' cs'. exp_enqueue canAlloc x (p, pool) = Some (r, p', pool') \<and> exp_rel p' (cq_blocks pool') k' h (if r then xs @ [x] else xs) cs' \<and>
    pool_inv pool' (used \<union> set cs') \<and> (answers pool = [] \<longrightarrow> answers pool' = []) \<and> set cs \<subseteq> set cs' \<and>
    (\<not> r \<longrightarrow> \<not> (canAlloc \<and> answers pool = []) \<and> 32 * length cs < length xs + 32)"
proof -
  note R = rel [unfolded exp_rel_def]
  let ?t = "h + length xs" and ?T = "ep_tailIndex p"
  have tail: "?T = word_of_nat ?t" using R by (simp add: exp_counters_def)
  have at_end: "?T AND (BLOCK_SIZE - 1) = 0 \<longleftrightarrow> ?t mod 32 = 0"
    using slot_of_nat [of ?t] unfolding tail slot_of_def by (metis unat_eq_zero)
  have store: "\<exists>p' pool'. exp_store ?T x (p1, pool1) = Some (True, p', pool') \<and> exp_rel p' (cq_blocks pool') k1 h (xs @ [x]) cs1 \<and>
      pool_inv pool' (used \<union> set cs1) \<and> answers pool' = answers pool1"
    if "exp_pre p1 (cq_blocks pool1) k1 h xs cs1" "pool_inv pool1 (used \<union> set cs1)" "ep_tailIndex p1 = ?T" for p1 pool1 k1 cs1
    using exp_store_ok [OF that(1) room that(2)] that(3) by auto
  have finish: ?thesis if fin: "exp_enqueue canAlloc x (p, pool) = exp_store ?T x (p1, pool1)" "exp_pre p1 (cq_blocks pool1) k1 h xs cs1"
    "pool_inv pool1 (used \<union> set cs1)" "ep_tailIndex p1 = ?T" "answers pool = [] \<longrightarrow> answers pool1 = []" "set cs \<subseteq> set cs1" for p1 pool1 k1 cs1
  proof -
    obtain p' pool' where "exp_store ?T x (p1, pool1) = Some (True, p', pool')" "exp_rel p' (cq_blocks pool') k1 h (xs @ [x]) cs1"
      "pool_inv pool' (used \<union> set cs1)" "answers pool' = answers pool1" using store [OF fin(2-4)] by blast
    then show ?thesis using fin(1,5,6) by (intro exI [of _ True] exI [of _ p'] exI [of _ pool'] exI [of _ k1] exI [of _ cs1]) simp
  qed
  show ?thesis
  proof (cases "?t mod 32 = 0")
    case False
    have "(?t + 31) div 32 = Suc (?t div 32)" using False ceil_inside [of ?t] div_add_self2 [of 32 ?t] by simp
    moreover have "cs \<noteq> []" using R False div_le_mono [of h ?t 32] calculation by auto
    ultimately have "exp_pre p (cq_blocks pool) k h xs cs" using R by (auto simp: exp_pre_def)
    moreover have "exp_enqueue canAlloc x (p, pool) = exp_store ?T x (p, pool)" using at_end False by (simp add: exp_enqueue_def)
    ultimately show ?thesis using finish [of p pool k cs] inv sub by (simp add: Un_absorb2)
  next
    case T: True
    have enq: "exp_enqueue canAlloc x (p, pool) = (case exp_tail_block canAlloc (p, pool) of
        None \<Rightarrow> None
      | Some (ok, p1, pool1) \<Rightarrow> if \<not> ok then Some (False, p1, pool1) else do { p2 \<leftarrow> exp_add_entry ?T p1; exp_store ?T x (p2, pool1) })"
      using at_end T by (simp add: exp_enqueue_def Let_def split: option.splits)
    show ?thesis
    proof (cases "cs \<noteq> [] \<and> 32 * Suc k \<le> h")
      case True
      obtain p1 pool1 p2 where s: "exp_tail_block canAlloc (p, pool) = Some (True, p1, pool1)" "exp_add_entry ?T p1 = Some p2"
        "ep_tailIndex p2 = ?T" "exp_pre p2 (cq_blocks pool1) (Suc k) h xs (rotate1 cs)" "pool_inv pool1 used" "answers pool1 = answers pool"
        using reuse_ok [OF rel T _ _ inv sub] True by blast
      show ?thesis using finish [OF _ s(4)] s sub by (simp add: enq Un_absorb2)
    next
      case False
      have few: "32 * length cs < length xs + 32" using False R ceil_boundary [OF T] T by auto
      obtain r p1 pool1 where f: "exp_tail_block canAlloc (p, pool) = Some (r, p1, pool1)" "answers pool = [] \<longrightarrow> answers pool1 = []"
        "if r then \<exists>b p2. exp_add_entry ?T p1 = Some p2 \<and> ep_tailIndex p2 = ?T \<and> exp_pre p2 (cq_blocks pool1) k h xs (cs @ [b]) \<and> pool_inv pool1 (used \<union> set (cs @ [b]))
         else exp_rel p1 (cq_blocks pool1) k h xs cs \<and> pool_inv pool1 used \<and> \<not> (canAlloc \<and> answers pool = [])"
        using fresh_ok [OF rel T False few inv sub, of canAlloc] by blast
      show ?thesis
      proof (cases r)
        case True
        then obtain b p2 where "exp_add_entry ?T p1 = Some p2" "ep_tailIndex p2 = ?T" "exp_pre p2 (cq_blocks pool1) k h xs (cs @ [b])"
          "pool_inv pool1 (used \<union> set (cs @ [b]))" using f(3) by auto
        then show ?thesis using finish [of p2 pool1 k "cs @ [b]"] f(1,2) True by (simp add: enq subset_insertI)
      next
        case False
        then show ?thesis using f few sub
          by (intro exI [of _ False] exI [of _ p1] exI [of _ pool1] exI [of _ k] exI [of _ cs]) (simp add: enq Un_absorb2)
      qed
    qed
  qed
qed

section \<open>The constructor\<close>

lemma ceil_to_pow_2_eq: "ceil_to_pow_2 = ceilToPow2"
  by (rule ext) (simp only: ceil_to_pow_2_def ceilToPow2_def)

lemma ceil_to_pow_2_small: "ceil_to_pow_2 0 = 0" "ceil_to_pow_2 1 = 1"
  by code_simp+

lemma first_size:
  assumes "unat n \<le> 2 ^ 59"
  shows "\<exists>c \<le> 58. unat (let size = drop_bit 1 EXPLICIT_INITIAL_INDEX_SIZE; poolBasedIndexSize = drop_bit 1 (ceil_to_pow_2 n)
    in if poolBasedIndexSize > size then poolBasedIndexSize else size) = 2 ^ c"
proof (cases "1 < unat n")
  case True
  then obtain m where m: "unat (ceilToPow2 n) = 2 ^ m" "0 < m" "2 ^ m < 2 * unat n" using ceilToPow2_correct [of n] assms by auto
  have "(2 :: nat) ^ m < 2 ^ 60" using m(3) assms by simp
  then have "m < 60" by (rule power_less_imp_less_exp [rotated]) simp
  moreover have "unat (drop_bit 1 (ceilToPow2 n)) = 2 ^ (m - 1)" using m(1,2) by (cases m) (simp_all add: drop_bit_eq_div unat_div)
  ultimately show ?thesis using m(2)
    by (cases "drop_bit 1 (ceilToPow2 n) > drop_bit 1 EXPLICIT_INITIAL_INDEX_SIZE")
      (auto simp: ceil_to_pow_2_eq Let_def EXPLICIT_INITIAL_INDEX_SIZE_def intro: exI [of _ "m - 1"] exI [of _ 4])
next
  case False
  then have "n = 0 \<or> n = 1" by (cases "unat n = 0") (auto simp: word_unat_eq_iff)
  then have "ceil_to_pow_2 n = n" using ceil_to_pow_2_small by blast
  then show ?thesis using \<open>n = 0 \<or> n = 1\<close> by (intro exI [of _ 4]) (auto simp: Let_def EXPLICIT_INITIAL_INDEX_SIZE_def)
qed

lemma new_exp_producer_rel:
  assumes "unat n \<le> 2 ^ 59"
  shows "\<exists>p. new_exp_producer ok n = Some p \<and> exp_rel p blks 0 0 [] []"
proof -
  define sz where "sz = (let size = drop_bit 1 EXPLICIT_INITIAL_INDEX_SIZE; poolBasedIndexSize = drop_bit 1 (ceil_to_pow_2 n)
    in if poolBasedIndexSize > size then poolBasedIndexSize else size)"
  define p0 where "p0 = \<lparr>ep_tailIndex = 0, ep_headIndex = 0, ep_dequeueOptimisticCount = 0, ep_dequeueOvercommit = 0,
    ep_tailBlock = None, ep_next = Map.empty, ep_blockIndex = [], pr_blockIndexSlotsUsed = 0, pr_blockIndexSize = sz, pr_blockIndexFront = 0\<rparr>"
  obtain c where c: "c \<le> 58" "unat sz = 2 ^ c" using first_size [OF assms] unfolding sz_def by blast
  have un: "exp_unindexed p0" using c by (auto simp: exp_unindexed_def p0_def)
  have new: "new_exp_producer ok n = do { (_, p) \<leftarrow> exp_new_block_index ok 0 p0; Some p }" by (simp add: new_exp_producer_def p0_def sz_def Let_def)
  have rel0: "exp_rel p blks 0 0 [] []" if "exp_indexed p 0 [] \<or> exp_unindexed p"
    "p = p0\<lparr>ep_blockIndex := ep_blockIndex p, pr_blockIndexSize := pr_blockIndexSize p, pr_blockIndexFront := pr_blockIndexFront p\<rparr>" for p
  proof -
    have "exp_counters p 0 0" "exp_circle p []" by (subst that(2), simp add: exp_counters_def exp_circle_def p0_def)+
    then show ?thesis using that(1) by (simp add: exp_rel_def exp_blocks_def)
  qed
  show ?thesis
  proof (cases ok)
    case True
    obtain p where p: "exp_new_block_index True 0 p0 = Some (True, p)" "exp_indexed p 0 []"
      "p = p0\<lparr>ep_blockIndex := ep_blockIndex p, pr_blockIndexSize := pr_blockIndexSize p, pr_blockIndexFront := pr_blockIndexFront p\<rparr>"
      using new_index_first [OF un, of 0] by (auto simp: p0_def)
    then show ?thesis using rel0 [OF _ p(3)] new True by simp
  next
    case False
    then have "new_exp_producer ok n = Some p0" using new new_index_fails [of p0 c] c by (simp add: p0_def)
    moreover have "exp_rel p0 blks 0 0 [] []" using un by (intro rel0) simp_all
    ultimately show ?thesis by blast
  qed
qed

end
