(* ===== verification/MpmcProducers.thy ===== *)
theory MpmcProducers
  imports MpmcExplicit
begin

text \<open>
  What both kinds of producers of \<^verbatim>\<open>concurrentqueue.h\<close> promise, as one contract: \<^verbatim>\<open>ProducerBase::dequeue\<close> calls the one or the
  other, so a queue with tokens and one without must not be told apart by the order of its elements. The contract is
  the locale \<open>producer_queue\<close>, and \<open>ready_producer\<close> if memory does not run out.
\<close>

section \<open>Sequences of calls\<close>

text \<open>\<open>Put c x\<close> enqueues \<open>x\<close>, with the right to allocate if \<open>c\<close>.\<close>

datatype 'a prod_op = Put bool 'a | Take

datatype 'a prod_reply = WasPut bool | Taken "'a option"

fun prod_run :: "(bool \<Rightarrow> 'a \<Rightarrow> 's \<Rightarrow> (bool \<times> 's) option) \<Rightarrow> ('s \<Rightarrow> ('a option \<times> 's) option) \<Rightarrow> 'a prod_op list \<Rightarrow> 's \<Rightarrow>
    ('a prod_reply list \<times> 's) option" where
  "prod_run enq deq [] s = Some ([], s)"
| "prod_run enq deq (Put c x # ops) s = do { (r, s) \<leftarrow> enq c x s; (rs, s) \<leftarrow> prod_run enq deq ops s; Some (WasPut r # rs, s) }"
| "prod_run enq deq (Take # ops) s = do { (y, s) \<leftarrow> deq s; (rs, s) \<leftarrow> prod_run enq deq ops s; Some (Taken y # rs, s) }"

text \<open>A queue that gives these replies, and what is in it afterwards; the queue decides which elements it refuses.\<close>

fun replay :: "'a prod_op list \<Rightarrow> 'a prod_reply list \<Rightarrow> 'a list \<Rightarrow> 'a list option" where
  "replay [] [] xs = Some xs"
| "replay (Put c x # ops) (WasPut r # rs) xs = replay ops rs (if r then xs @ [x] else xs)"
| "replay (Take # ops) (Taken y # rs) xs = (if y = (if xs = [] then None else Some (hd xs)) then replay ops rs (tl xs) else None)"
| "replay _ _ xs = None"

fun queue_replies :: "'a prod_op list \<Rightarrow> 'a list \<Rightarrow> 'a prod_reply list" where
  "queue_replies [] xs = []"
| "queue_replies (Put c x # ops) xs = WasPut True # queue_replies ops (xs @ [x])"
| "queue_replies (Take # ops) xs = Taken (if xs = [] then None else Some (hd xs)) # queue_replies ops (tl xs)"

fun may_alloc :: "'a prod_op \<Rightarrow> bool" where
  "may_alloc (Put c x) = c"
| "may_alloc Take = True"

section \<open>The contract\<close>

locale producer_queue =
  fixes enq :: "bool \<Rightarrow> 'a \<Rightarrow> 's \<Rightarrow> (bool \<times> 's) option"
    and deq :: "'s \<Rightarrow> ('a option \<times> 's) option"
    and holds :: "'s \<Rightarrow> 'a list \<Rightarrow> bool"
    and limit :: nat
  assumes enq_holds: "holds s xs \<Longrightarrow> length xs < limit \<Longrightarrow> \<exists>r s'. enq c x s = Some (r, s') \<and> holds s' (if r then xs @ [x] else xs)"
    and deq_holds: "holds s xs \<Longrightarrow> \<exists>s'. deq s = Some (if xs = [] then None else Some (hd xs), s') \<and> holds s' (tl xs)"
begin

lemma run_replays:
  "holds s xs \<Longrightarrow> length xs + length ops \<le> limit \<Longrightarrow> \<exists>rs s' ys. prod_run enq deq ops s = Some (rs, s') \<and> replay ops rs xs = Some ys \<and> holds s' ys"
proof (induction ops arbitrary: s xs)
  case (Cons op ops)
  show ?case
  proof (cases op)
    case (Put c x)
    obtain r s1 where s1: "enq c x s = Some (r, s1)" "holds s1 (if r then xs @ [x] else xs)" using enq_holds [OF Cons.prems(1)] Cons.prems(2) by fastforce
    then obtain rs s' ys where "prod_run enq deq ops s1 = Some (rs, s')" "replay ops rs (if r then xs @ [x] else xs) = Some ys" "holds s' ys"
      using Cons.IH [OF s1(2)] Cons.prems(2) by (auto split: if_splits)
    then show ?thesis using s1(1) Put by (intro exI [of _ "WasPut r # rs"]) simp
  next
    case Take
    obtain s1 where s1: "deq s = Some (if xs = [] then None else Some (hd xs), s1)" "holds s1 (tl xs)" using deq_holds [OF Cons.prems(1)] by blast
    have "length (tl xs) + length ops \<le> limit" using Cons.prems(2) by simp
    then obtain rs s' ys where "prod_run enq deq ops s1 = Some (rs, s')" "replay ops rs (tl xs) = Some ys" "holds s' ys"
      using Cons.IH [OF s1(2)] by blast
    then show ?thesis using s1(1) Take by (intro exI [of _ "Taken (if xs = [] then None else Some (hd xs)) # rs"]) simp
  qed
qed auto

end

text \<open>While \<open>ready\<close>, an element that may be allocated for is never refused.\<close>

locale ready_producer = producer_queue enq deq holds limit
  for enq :: "bool \<Rightarrow> 'a \<Rightarrow> 's \<Rightarrow> (bool \<times> 's) option" and deq :: "'s \<Rightarrow> ('a option \<times> 's) option"
    and holds :: "'s \<Rightarrow> 'a list \<Rightarrow> bool" and limit :: nat +
  fixes ready :: "'s \<Rightarrow> bool"
  assumes ready_enq: "holds s xs \<Longrightarrow> ready s \<Longrightarrow> length xs < limit \<Longrightarrow> enq c x s = Some (r, s') \<Longrightarrow> (c \<longrightarrow> r) \<and> ready s'"
    and ready_deq: "holds s xs \<Longrightarrow> ready s \<Longrightarrow> deq s = Some (y, s') \<Longrightarrow> ready s'"
begin

lemma run_replies:
  "holds s xs \<Longrightarrow> ready s \<Longrightarrow> length xs + length ops \<le> limit \<Longrightarrow> list_all may_alloc ops \<Longrightarrow>
    \<exists>s'. prod_run enq deq ops s = Some (queue_replies ops xs, s')"
proof (induction ops arbitrary: s xs)
  case (Cons op ops)
  show ?case
  proof (cases op)
    case (Put c x)
    have len: "length xs < limit" using Cons.prems(3) by simp
    obtain r s1 where s1: "enq c x s = Some (r, s1)" "holds s1 (if r then xs @ [x] else xs)" using enq_holds [OF Cons.prems(1) len] by blast
    have r: "r" "ready s1" using ready_enq [OF Cons.prems(1,2) len s1(1)] Cons.prems(4) Put by simp_all
    then have h1: "holds s1 (xs @ [x])" using s1(2) by simp
    show ?thesis using Cons.IH [OF h1 r(2)] Cons.prems(3,4) s1(1) r(1) Put by auto
  next
    case Take
    obtain s1 where s1: "deq s = Some (if xs = [] then None else Some (hd xs), s1)" "holds s1 (tl xs)" using deq_holds [OF Cons.prems(1)] by blast
    have "length (tl xs) + length ops \<le> limit" "list_all may_alloc ops" using Cons.prems(3,4) by simp_all
    then obtain s' where "prod_run enq deq ops s1 = Some (queue_replies ops (tl xs), s')" using Cons.IH [OF s1(2) ready_deq [OF Cons.prems(1,2) s1(1)]] by blast
    then show ?thesis using s1(1) Take by simp
  qed
qed simp

end

section \<open>Both producers keep it\<close>

definition memory_left :: "'p \<times> 'a block_pool \<Rightarrow> bool" where
  "memory_left s \<longleftrightarrow> answers (snd s) = []"

definition exp_queue :: "exp_producer \<times> 'a block_pool \<Rightarrow> 'a list \<Rightarrow> bool" where
  "exp_queue s xs \<longleftrightarrow> (\<exists>k h cs. exp_rel (fst s) (cq_blocks (snd s)) k h xs cs \<and> pool_inv (snd s) (set cs))"

definition imp_queue :: "imp_producer \<times> 'a block_pool \<Rightarrow> 'a list \<Rightarrow> bool" where
  "imp_queue s xs \<longleftrightarrow> (\<exists>h bs. prod_rel (fst s) (cq_blocks (snd s)) h xs bs \<and> pool_inv (snd s) (set bs))"

lemma exp_queue_enq:
  assumes "exp_queue s xs" and "length xs < 2 ^ 62"
  shows "\<exists>r s'. exp_enqueue c x s = Some (r, s') \<and> exp_queue s' (if r then xs @ [x] else xs) \<and> (memory_left s \<longrightarrow> memory_left s' \<and> (c \<longrightarrow> r))"
proof -
  obtain k h cs where R: "exp_rel (fst s) (cq_blocks (snd s)) k h xs cs" "pool_inv (snd s) (set cs)" using assms(1) by (auto simp: exp_queue_def)
  obtain r p' pool' k' cs' where E: "exp_enqueue c x (fst s, snd s) = Some (r, p', pool')" "exp_rel p' (cq_blocks pool') k' h (if r then xs @ [x] else xs) cs'"
    "pool_inv pool' (set cs \<union> set cs')" "answers (snd s) = [] \<longrightarrow> answers pool' = []" "\<not> r \<longrightarrow> \<not> (c \<and> answers (snd s) = [])"
    "set cs \<subseteq> set cs'"
    using exp_enqueue_ok [OF R(1) assms(2) R(2), of c x] by blast
  have "pool_inv pool' (set cs')" using E(3,6) by (simp add: Un_absorb1)
  then have "exp_queue (p', pool') (if r then xs @ [x] else xs)" unfolding exp_queue_def using E(2) by (intro exI [of _ k'] exI [of _ h] exI [of _ cs']) simp
  then show ?thesis using E(1,4,5) by (intro exI [of _ r] exI [of _ "(p', pool')"]) (auto simp: memory_left_def)
qed

lemma exp_queue_deq:
  assumes "exp_queue s xs"
  shows "\<exists>s'. exp_dequeue s = Some (if xs = [] then None else Some (hd xs), s') \<and> exp_queue s' (tl xs) \<and> (memory_left s \<longrightarrow> memory_left s')"
proof -
  obtain k h cs where R: "exp_rel (fst s) (cq_blocks (snd s)) k h xs cs" "pool_inv (snd s) (set cs)" using assms by (auto simp: exp_queue_def)
  show ?thesis
  proof (cases xs)
    case Nil
    then have "exp_counters (fst s) h 0" using R(1) by (simp add: exp_rel_def)
    then show ?thesis using exp_dequeue_Nil [of "fst s" h "snd s"] Nil assms by auto
  next
    case (Cons y ys)
    obtain p' pool' where "exp_dequeue (fst s, snd s) = Some (Some y, p', pool')" "exp_rel p' (cq_blocks pool') k (Suc h) ys cs" "pool_inv pool' (set cs)"
      "answers pool' = answers (snd s)" using exp_dequeue_Cons [OF R(1) [unfolded Cons] R(2)] by blast
    then show ?thesis using Cons by (intro exI [of _ "(p', pool')"]) (auto simp: exp_queue_def memory_left_def)
  qed
qed

lemma imp_queue_enq:
  assumes "imp_queue s xs" and "length xs < 2 ^ 62"
  shows "\<exists>r s'. imp_enqueue c x s = Some (r, s') \<and> imp_queue s' (if r then xs @ [x] else xs) \<and> (memory_left s \<longrightarrow> memory_left s' \<and> (c \<longrightarrow> r))"
proof -
  obtain h bs where R: "prod_rel (fst s) (cq_blocks (snd s)) h xs bs" "pool_inv (snd s) (set bs)" using assms(1) by (auto simp: imp_queue_def)
  obtain r p' pool' where E: "imp_enqueue c x (fst s, snd s) = Some (r, p', pool')" "enq_outcome c (fst s) (snd s) (set bs) h xs bs x r p' pool'"
    using imp_enqueue_ok [OF R, of c x] by blast
  note O = E(2) [unfolded enq_outcome_def]
  obtain bs' where "prod_rel p' (cq_blocks pool') h (if r then xs @ [x] else xs) bs'" "set bs \<subseteq> set bs'" "pool_inv pool' (set bs \<union> set bs')"
    using O by blast
  then have "imp_queue (p', pool') (if r then xs @ [x] else xs)"
    unfolding imp_queue_def by (intro exI [of _ h] exI [of _ bs']) (simp add: Un_absorb1)
  then show ?thesis using E(1) O assms(2) by (intro exI [of _ r] exI [of _ "(p', pool')"]) (auto simp: memory_left_def)
qed

lemma imp_queue_deq:
  assumes "imp_queue s xs"
  shows "\<exists>s'. imp_dequeue s = Some (if xs = [] then None else Some (hd xs), s') \<and> imp_queue s' (tl xs) \<and> (memory_left s \<longrightarrow> memory_left s')"
proof -
  obtain h bs where R: "prod_rel (fst s) (cq_blocks (snd s)) h xs bs" "pool_inv (snd s) (set bs)" using assms by (auto simp: imp_queue_def)
  show ?thesis
  proof (cases xs)
    case Nil
    then have "counters (fst s) h 0" using R(1) by (simp add: prod_rel_def)
    then show ?thesis using imp_dequeue_empty [of "fst s" h "snd s"] Nil assms by auto
  next
    case (Cons y ys)
    obtain p' pool' bs' where D: "imp_dequeue (fst s, snd s) = Some (Some y, p', pool')" "prod_rel p' (cq_blocks pool') (Suc h) ys bs'" "set bs' \<subseteq> set bs"
      "pool_inv pool' (set bs - (set bs - set bs'))" "answers pool' = answers (snd s)" using imp_dequeue_Cons [OF R(1) [unfolded Cons] R(2)] by blast
    moreover have "set bs - (set bs - set bs') = set bs'" using D(3) by blast
    ultimately show ?thesis using Cons by (intro exI [of _ "(p', pool')"]) (auto simp: imp_queue_def memory_left_def)
  qed
qed

lemma exp_queue_laws:
  "exp_queue s xs \<Longrightarrow> length xs < 2 ^ 62 \<Longrightarrow> \<exists>r s'. exp_enqueue c x s = Some (r, s') \<and> exp_queue s' (if r then xs @ [x] else xs)"
  "exp_queue s xs \<Longrightarrow> \<exists>s'. exp_dequeue s = Some (if xs = [] then None else Some (hd xs), s') \<and> exp_queue s' (tl xs)"
  "exp_queue s xs \<Longrightarrow> memory_left s \<Longrightarrow> length xs < 2 ^ 62 \<Longrightarrow> exp_enqueue c x s = Some (r, s') \<Longrightarrow> (c \<longrightarrow> r) \<and> memory_left s'"
  "exp_queue s xs \<Longrightarrow> memory_left s \<Longrightarrow> exp_dequeue s = Some (y, s') \<Longrightarrow> memory_left s'"
  using exp_queue_enq [of s xs c x] exp_queue_deq [of s xs] by fastforce+

interpretation ex: ready_producer exp_enqueue exp_dequeue exp_queue "2 ^ 62" memory_left
  by unfold_locales (fact exp_queue_laws)+

lemma imp_queue_laws:
  "imp_queue s xs \<Longrightarrow> length xs < 2 ^ 62 \<Longrightarrow> \<exists>r s'. imp_enqueue c x s = Some (r, s') \<and> imp_queue s' (if r then xs @ [x] else xs)"
  "imp_queue s xs \<Longrightarrow> \<exists>s'. imp_dequeue s = Some (if xs = [] then None else Some (hd xs), s') \<and> imp_queue s' (tl xs)"
  "imp_queue s xs \<Longrightarrow> memory_left s \<Longrightarrow> length xs < 2 ^ 62 \<Longrightarrow> imp_enqueue c x s = Some (r, s') \<Longrightarrow> (c \<longrightarrow> r) \<and> memory_left s'"
  "imp_queue s xs \<Longrightarrow> memory_left s \<Longrightarrow> imp_dequeue s = Some (y, s') \<Longrightarrow> memory_left s'"
  using imp_queue_enq [of s xs c x] imp_queue_deq [of s xs] by fastforce+

interpretation im: ready_producer imp_enqueue imp_dequeue imp_queue "2 ^ 62" memory_left
  by unfold_locales (fact imp_queue_laws)+

section \<open>What callers see\<close>

lemma replay_length: "replay ops rs xs = Some ys \<Longrightarrow> length ys \<le> length xs + length ops"
  by (induction ops rs xs rule: replay.induct) (auto split: if_splits)

lemma exp_slots:
  assumes "exp_rel p blks k h xs cs"
  shows "unat (pr_blockIndexSlotsUsed p) = length cs"
proof -
  have "length cs \<le> 2 ^ 58" using assms by (simp add: exp_rel_def)
  then show ?thesis using assms by (simp add: exp_rel_def exp_circle_def unat_word_of_nat)
qed

lemma pool_size_le: "unat (initialBlockPoolSize (populate_initial_block_list n alloc)) \<le> unat n"
  by (simp add: populate_initial_block_list_def Let_def pool_malloc_def split: list.splits)

lemma new_exp_queue:
  assumes "pool = populate_initial_block_list n alloc" and "unat n \<le> 2 ^ 59"
  shows "\<exists>p. new_exp_producer ok (initialBlockPoolSize pool) = Some p \<and> exp_queue (p, pool) []"
proof -
  have "unat (initialBlockPoolSize pool) \<le> 2 ^ 59" unfolding assms(1) using pool_size_le assms(2) by (rule le_trans)
  then obtain p where "new_exp_producer ok (initialBlockPoolSize pool) = Some p" "exp_rel p (cq_blocks pool) 0 0 [] []"
    using new_exp_producer_rel by blast
  then show ?thesis using populate_inv [OF assms(1)] unfolding exp_queue_def
    by (intro exI [of _ p] conjI exI [of _ 0] exI [of _ "[]"]) simp_all
qed

lemma new_imp_queue:
  assumes "pool = populate_initial_block_list n alloc"
  shows "\<exists>p. new_imp_producer True = Some p \<and> imp_queue (p, pool) []"
proof -
  obtain p where "new_imp_producer True = Some p" "prod_rel p (cq_blocks pool) 0 [] []" using new_imp_producer_rel by blast
  then show ?thesis using populate_inv [OF assms] unfolding imp_queue_def by (intro exI [of _ p] conjI exI [of _ 0] exI [of _ "[]"]) simp_all
qed

lemma populate_ready: "memory_left (p, populate_initial_block_list n [])"
  by (simp add: memory_left_def populate_initial_block_list_def pool_malloc_def Let_def)

text \<open>C25: 
  An explicit producer is a queue: whatever allocations fail, every sequence of calls returns, with the replies of a
  queue that refuses the elements the producer refused. No assertion fails, no block is used after it was given away
  or before it is empty, and the block index, however often it has grown and gone round, leads to the right block.
\<close>
theorem explicit_producer_fifo:
  assumes "pool = populate_initial_block_list n alloc" and "unat n \<le> 2 ^ 59" and "length ops \<le> 2 ^ 62"
  shows "\<exists>p rs s ys. new_exp_producer ok (initialBlockPoolSize pool) = Some p \<and> prod_run exp_enqueue exp_dequeue ops (p, pool) = Some (rs, s) \<and>
    replay ops rs [] = Some ys"
proof -
  obtain p where p: "new_exp_producer ok (initialBlockPoolSize pool) = Some p" "exp_queue (p, pool) []" using new_exp_queue [OF assms(1,2)] by blast
  then show ?thesis using ex.run_replays [OF p(2)] assms(3) by fastforce
qed

text \<open>Witness of \<open>explicit_producer_fifo\<close>: the index cannot be allocated at first, the pool has two blocks.\<close>
theorem explicit_producer_fifo_witness:
  "\<exists>p rs s ys. new_exp_producer False (initialBlockPoolSize (populate_initial_block_list 2 [True, False, True] :: nat block_pool)) = Some p \<and>
    prod_run exp_enqueue exp_dequeue [Put True (7 :: nat), Put True 8, Take, Take] (p, populate_initial_block_list 2 [True, False, True]) = Some (rs, s) \<and>
    replay [Put True 7, Put True 8, Take, Take] rs [] = Some ys"
  using explicit_producer_fifo [of "populate_initial_block_list 2 [True, False, True]" 2 "[True, False, True]" "[Put True (7 :: nat), Put True 8, Take, Take]" False]
  by (simp del: prod_run.simps replay.simps)

text \<open>
  While no allocation fails, explicit and implicit producers cannot be told apart: both give the replies of an
  unbounded queue to every sequence of calls.
\<close>
theorem producers_agree:
  assumes "pool = populate_initial_block_list n []" and "unat n \<le> 2 ^ 59" and "length ops \<le> 2 ^ 62" and "list_all may_alloc ops"
  shows "\<exists>p q s t. new_exp_producer True (initialBlockPoolSize pool) = Some p \<and> new_imp_producer True = Some q \<and>
    prod_run exp_enqueue exp_dequeue ops (p, pool) = Some (queue_replies ops [], s) \<and>
    prod_run imp_enqueue imp_dequeue ops (q, pool) = Some (queue_replies ops [], t)"
proof -
  obtain p where p: "new_exp_producer True (initialBlockPoolSize pool) = Some p" "exp_queue (p, pool) []" using new_exp_queue [OF assms(1,2)] by blast
  obtain q where q: "new_imp_producer True = Some q" "imp_queue (q, pool) []" using new_imp_queue [OF assms(1)] by blast
  have ready: "memory_left (r, pool)" for r using populate_ready assms(1) by simp
  obtain s where s: "prod_run exp_enqueue exp_dequeue ops (p, pool) = Some (queue_replies ops [], s)"
    using ex.run_replies [OF p(2) ready _ assms(4)] assms(3) by auto
  obtain t where "prod_run imp_enqueue imp_dequeue ops (q, pool) = Some (queue_replies ops [], t)"
    using im.run_replies [OF q(2) ready _ assms(4)] assms(3) by auto
  then show ?thesis using s p(1) q(1) by blast
qed

text \<open>Witness of \<open>producers_agree\<close>.\<close>
theorem producers_agree_witness:
  "\<exists>p q s t. new_exp_producer True (initialBlockPoolSize (populate_initial_block_list 1 [] :: nat block_pool)) = Some p \<and> new_imp_producer True = Some q \<and>
    prod_run exp_enqueue exp_dequeue [Take, Put True (7 :: nat), Take] (p, populate_initial_block_list 1 []) = Some ([Taken None, WasPut True, Taken (Some 7)], s) \<and>
    prod_run imp_enqueue imp_dequeue [Take, Put True (7 :: nat), Take] (q, populate_initial_block_list 1 []) = Some ([Taken None, WasPut True, Taken (Some 7)], t)"
  using producers_agree [of "populate_initial_block_list 1 []" 1 "[Take, Put True (7 :: nat), Take]"] by (simp del: prod_run.simps)

text \<open>
  A difference when memory is short: the blocks an explicit producer has stay with it, so one with \<open>m\<close> blocks accepts
  elements without allocation while it has at most \<open>32 * (m - 1)\<close> of them.
\<close>
theorem explicit_blocks_suffice:
  assumes "pool = populate_initial_block_list n alloc" and "unat n \<le> 2 ^ 59" and "length ops < 2 ^ 62"
    and "new_exp_producer ok (initialBlockPoolSize pool) = Some p" and "prod_run exp_enqueue exp_dequeue ops (p, pool) = Some (rs, p', pool')"
    and "replay ops rs [] = Some ys" and "length ys + 32 \<le> 32 * unat (pr_blockIndexSlotsUsed p')"
  shows "\<exists>s. exp_enqueue False x (p', pool') = Some (True, s)"
proof -
  have "exp_queue (p, pool) []" using new_exp_queue [OF assms(1,2), of ok] assms(4) by simp
  then have q: "exp_queue (p', pool') ys" using ex.run_replays [of "(p, pool)" "[]" ops] assms(3,5,6) by fastforce
  then obtain k h cs where R: "exp_rel p' (cq_blocks pool') k h ys cs" "pool_inv pool' (set cs)" by (auto simp: exp_queue_def)
  have "length ys \<le> length ops" using replay_length [OF assms(6)] by simp
  then have len: "length ys < 2 ^ 62" using assms(3) by linarith
  obtain r p2 pool2 where E: "exp_enqueue False x (p', pool') = Some (r, p2, pool2)" "\<not> r \<longrightarrow> 32 * length cs < length ys + 32"
    using exp_enqueue_ok [OF R(1) len R(2), of False x] by blast
  moreover have "32 * length cs \<ge> length ys + 32" using exp_slots [OF R(1)] assms(7) by simp
  ultimately show ?thesis by (cases r) auto
qed

text \<open>One element put and taken: the producer keeps its block.\<close>

lemma one_block_run:
  "(case new_exp_producer True (initialBlockPoolSize (populate_initial_block_list 1 [] :: nat block_pool)) of
      None \<Rightarrow> False
    | Some p \<Rightarrow> (case prod_run exp_enqueue exp_dequeue [Put True (7 :: nat), Take] (p, populate_initial_block_list 1 []) of
        None \<Rightarrow> False
      | Some (rs, p', pool') \<Rightarrow> rs = [WasPut True, Taken (Some 7)] \<and> pr_blockIndexSlotsUsed p' = 1))"
  by code_simp

theorem explicit_blocks_suffice_witness:
  "\<exists>p rs p' pool' s. new_exp_producer True (initialBlockPoolSize (populate_initial_block_list 1 [] :: nat block_pool)) = Some p \<and>
    prod_run exp_enqueue exp_dequeue [Put True (7 :: nat), Take] (p, populate_initial_block_list 1 []) = Some (rs, p', pool') \<and>
    exp_enqueue False 8 (p', pool') = Some (True, s)"
proof -
  obtain p p' pool' where p: "new_exp_producer True (initialBlockPoolSize (populate_initial_block_list 1 [] :: nat block_pool)) = Some p"
    "prod_run exp_enqueue exp_dequeue [Put True (7 :: nat), Take] (p, populate_initial_block_list 1 []) = Some ([WasPut True, Taken (Some 7)], p', pool')"
    "pr_blockIndexSlotsUsed p' = 1"
    using one_block_run by (auto simp del: prod_run.simps split: option.splits)
  show ?thesis using explicit_blocks_suffice [OF refl _ _ p(1,2), of "[]" 8] p by (auto simp del: prod_run.simps)
qed

end
