(* ===== verification/MpmcExpDestroy.thy ===== *)
theory MpmcExpDestroy
  imports MpmcProducers
begin

text \<open>
  The destructor of explicit producers (\<^verbatim>\<open>~ExplicitProducer\<close> of \<^verbatim>\<open>src/lib/concurrentqueue/concurrentqueue.h\<close>): the elements left in
  the queue are destroyed, the blocks that were allocated on their own are freed, and the others are given back to
  the pool. Destroying an element where none is constructed is undefined behaviour, \<open>None\<close>.
\<close>

section \<open>Model\<close>

text \<open>The loop that looks for the block the head is in.\<close>

fun exp_find_half :: "nat \<Rightarrow> exp_header \<Rightarrow> u64 \<Rightarrow> u64 \<Rightarrow> u64 \<Rightarrow> exp_entry option" where
  "exp_find_half 0 h sizeMask head i = None"
| "exp_find_half (Suc fuel) h sizeMask head i =
     do {
       e \<leftarrow> exp_entry_at h i;
       if circular_less_than (ee_base e + BLOCK_SIZE) head then exp_find_half fuel h sizeMask head ((i + 1) AND sizeMask) else Some e
     }"

definition exp_half_block :: "exp_producer \<Rightarrow> nat option option" where
  "exp_half_block p =
     (let head = ep_headIndex p; sizeMask = pr_blockIndexSize p - 1 in
      if head AND (BLOCK_SIZE - 1) \<noteq> 0
      then do {
        h \<leftarrow> exp_index p;
        e \<leftarrow> exp_find_half (unat (pr_blockIndexSize p)) h sizeMask head ((pr_blockIndexFront p - pr_blockIndexSlotsUsed p) AND sizeMask);
        assert_that (circular_less_than (ee_base e) head);
        Some (Some (ee_block e))
      }
      else Some None)"

text \<open>The inner loop from offset \<open>i\<close>; it ends at the end of the block or at the offset \<open>stop\<close> of the tail. 33 is one more than it needs.\<close>

fun destroy_slots :: "nat \<Rightarrow> nat option \<Rightarrow> nat \<Rightarrow> 'a option list \<Rightarrow> ('a list \<times> 'a option list) option" where
  "destroy_slots 0 stop i es = None"
| "destroy_slots (Suc fuel) stop i es =
     (if i \<noteq> unat BLOCK_SIZE \<and> stop \<noteq> Some i
      then do {
        e \<leftarrow> nth_opt es (i mod unat BLOCK_SIZE);
        x \<leftarrow> e;
        (xs, es) \<leftarrow> destroy_slots fuel stop (Suc i) (es[i mod unat BLOCK_SIZE := None]);
        Some (x # xs, es)
      }
      else Some ([], es))"

definition exp_destroy_block :: "exp_producer \<Rightarrow> nat option \<Rightarrow> nat \<Rightarrow> 'a block_pool \<Rightarrow> ('a list \<times> 'a block_pool) option" where
  "exp_destroy_block p halfDequeuedBlock b pool =
     do {
       blk \<leftarrow> nth_opt (cq_blocks pool) b;
       empty \<leftarrow> is_empty explicit_context blk;
       if empty then Some ([], pool)
       else do {
         let i = (if halfDequeuedBlock = Some b then unat (ep_headIndex p AND (BLOCK_SIZE - 1)) else 0);
         let lastValidIndex = (if ep_tailIndex p AND (BLOCK_SIZE - 1) = 0 then unat BLOCK_SIZE else unat (ep_tailIndex p AND (BLOCK_SIZE - 1)));
         (xs, es) \<leftarrow> destroy_slots 33 (if ep_tailBlock p = Some b then Some lastValidIndex else None) i (elements blk);
         Some (xs, pool\<lparr>cq_blocks := (cq_blocks pool)[b := blk\<lparr>elements := es\<rparr>]\<rparr>)
       }
     }"

text \<open>The walk over the circle, which starts behind \<open>block\<close> and ends with the tail block.\<close>

partial_function (option) exp_walk :: "exp_producer \<Rightarrow> nat option \<Rightarrow> nat \<Rightarrow> 'a block_pool \<Rightarrow> ('a list \<times> 'a block_pool) option" where
  "exp_walk p halfDequeuedBlock block pool =
     do {
       b \<leftarrow> ep_next p block;
       (xs, pool) \<leftarrow> exp_destroy_block p halfDequeuedBlock b pool;
       if Some b \<noteq> ep_tailBlock p
       then do { (ys, pool) \<leftarrow> exp_walk p halfDequeuedBlock b pool; Some (xs @ ys, pool) }
       else Some (xs, pool)
     }"

text \<open>The second walk, which starts with the tail block; the blocks that are freed are returned.\<close>

partial_function (option) exp_release :: "exp_producer \<Rightarrow> nat \<Rightarrow> 'a block_pool \<Rightarrow> (nat list \<times> 'a block_pool) option" where
  "exp_release p block pool =
     do {
       nextBlock \<leftarrow> ep_next p block;
       blk \<leftarrow> nth_opt (cq_blocks pool) block;
       pool \<leftarrow> (if dynamicallyAllocated blk then Some pool else add_block_to_free_list block pool);
       (bs, pool) \<leftarrow> (if Some nextBlock \<noteq> ep_tailBlock p then exp_release p nextBlock pool else Some ([], pool));
       Some (if dynamicallyAllocated blk then block # bs else bs, pool)
     }"

declare exp_walk.simps [code] exp_release.simps [code]

text \<open>The destroyed elements, the freed blocks and the number of freed indices.\<close>

definition exp_destroy :: "exp_producer \<times> 'a block_pool \<Rightarrow> ('a list \<times> nat list \<times> nat \<times> 'a block_pool) option" where
  "exp_destroy s =
     (let (p, pool) = s in do {
       (xs, pool) \<leftarrow> (case ep_tailBlock p of None \<Rightarrow> Some ([], pool) | Some t \<Rightarrow> do { half \<leftarrow> exp_half_block p; exp_walk p half t pool });
       (bs, pool) \<leftarrow> (case ep_tailBlock p of None \<Rightarrow> Some ([], pool) | Some t \<Rightarrow> exp_release p t pool);
       Some (xs, bs, length (ep_blockIndex p), pool)
     })"

section \<open>The block the head is in\<close>

lemma circ_before:
  assumes "a \<noteq> b" and "a < b + 2 ^ 63" and "b < a + 2 ^ 63"
  shows "circular_less_than (word_of_nat a) (word_of_nat b) \<longleftrightarrow> a < b"
proof (cases "a < b")
  case True
  have "(word_of_nat b :: u64) = word_of_nat a + word_of_nat (b - a)" using True by (simp flip: of_nat_add)
  then show ?thesis using True assms circular_less_than_add [of "b - a" "word_of_nat a"] by simp
next
  case False
  have "(word_of_nat a :: u64) = word_of_nat b + word_of_nat (a - b)" using False by (simp flip: of_nat_add)
  then have "circular_less_than (word_of_nat b) (word_of_nat a)" using False assms circular_less_than_add [of "a - b" "word_of_nat b"] by simp
  then show ?thesis using False circular_less_than_asym by blast
qed

lemma find_half_ok:
  assumes ring: "exp_ring p H c F k cs" and near: "h < 32 * k + 2 ^ 63" and m: "h mod 32 \<noteq> 0" and j: "h div 32 = k + j" "j < length cs"
    and "i \<le> j" "unat w = (F - length cs + i) mod 2 ^ c" "j - i < fuel"
  shows "exp_find_half fuel H (pr_blockIndexSize p - 1) (word_of_nat h) w = Some (exp_slot (k + j) (cs ! j))"
  using assms(6-)
proof (induction fuel arbitrary: i w)
  case (Suc fuel)
  note R = ring [unfolded exp_ring_def exp_entries_def]
  have "eh_entries H ! ((F - length cs + i) mod 2 ^ c) = Some (exp_slot (k + i) (cs ! i))" using R j(2) Suc.prems(1) by auto
  then have e: "exp_entry_at H w = Some (exp_slot (k + i) (cs ! i))" using Suc.prems(2) R by (simp add: exp_entry_at_def)
  have base: "ee_base (exp_slot (k + i) (cs ! i)) + BLOCK_SIZE = word_of_nat (32 * Suc (k + i))" by (simp add: exp_slot_def BLOCK_SIZE_def)
  have h: "32 * (k + j) \<le> h" "h < 32 * Suc (k + j)" "h \<noteq> 32 * Suc (k + i)" using j(1) m by auto
  have "circular_less_than (word_of_nat (32 * Suc (k + i))) (word_of_nat h) \<longleftrightarrow> 32 * Suc (k + i) < h"
    using h near Suc.prems(1) by (intro circ_before) simp_all
  also have "\<dots> \<longleftrightarrow> i < j"
  proof
    assume "i < j"
    then have "32 * Suc (k + i) \<le> 32 * (k + j)" by (intro mult_le_mono2) simp
    then have "32 * Suc (k + i) \<le> h" using h(1) by (rule le_trans)
    then show "32 * Suc (k + i) < h" using h(3) by simp
  next
    assume "32 * Suc (k + i) < h"
    then have "32 * Suc (k + i) < 32 * Suc (k + j)" using h(2) by (rule less_trans)
    then show "i < j" by simp
  qed
  finally have test: "circular_less_than (word_of_nat (32 * Suc (k + i))) (word_of_nat h) \<longleftrightarrow> i < j" .
  show ?case
  proof (cases "i < j")
    case False
    then show ?thesis using e test base Suc.prems(1) by (simp del: of_nat_mult of_nat_add of_nat_Suc mult_Suc_right)
  next
    case True
    have "unat (w + 1) mod 2 ^ c = (unat w + 1) mod 2 ^ c" using R by (simp add: unat_add_u64 mod64_mod)
    then have "unat ((w + 1) AND (pr_blockIndexSize p - 1)) = (F - length cs + Suc i) mod 2 ^ c"
      using R and_pow2_minus_1 [of "pr_blockIndexSize p" c "w + 1"] Suc.prems(2) by (simp add: mod_Suc_eq)
    then show ?thesis using Suc.IH [of "Suc i"] e test base True Suc.prems by (simp del: of_nat_mult of_nat_add of_nat_Suc mult_Suc_right)
  qed
qed simp

lemma half_block_ok:
  assumes rel: "exp_rel p blks k h xs cs" and ne: "cs \<noteq> []"
  shows "exp_half_block p = Some (if h mod 32 = 0 then None else Some (cs ! (h div 32 - k)))" and "h mod 32 \<noteq> 0 \<Longrightarrow> h div 32 - k < length cs"
proof -
  note R = rel [unfolded exp_rel_def]
  have head: "ep_headIndex p = word_of_nat h" using R by (simp add: exp_counters_def)
  have slot: "ep_headIndex p AND (BLOCK_SIZE - 1) = 0 \<longleftrightarrow> h mod 32 = 0" using slot_of_nat [of h] unfolding head slot_of_def by (metis unat_eq_zero)
  obtain H c F where ring: "exp_ring p H c F k cs" using R ne by (auto simp: exp_indexed_def)
  note G = ring [unfolded exp_ring_def exp_entries_def]
  let ?j = "h div 32 - k" and ?w = "(pr_blockIndexFront p - word_of_nat (length cs)) AND (pr_blockIndexSize p - 1)"
  have j: "?j < length cs" "h div 32 = k + ?j" if "h mod 32 \<noteq> 0"
  proof -
    have "h div 32 < (h + length xs + 31) div 32" using that ceil_inside [of h] div_add_self2 [of 32 h] div_le_mono [of "h + 31" "h + length xs + 31" 32] by simp
    then show "?j < length cs" "h div 32 = k + ?j" using R by linarith+
  qed
  then show "h mod 32 \<noteq> 0 \<Longrightarrow> ?j < length cs" by blast
  have "exp_find_half (unat (pr_blockIndexSize p)) H (pr_blockIndexSize p - 1) (word_of_nat h) ?w = Some (exp_slot (k + ?j) (cs ! ?j))" if m: "h mod 32 \<noteq> 0"
  proof (rule find_half_ok [OF ring _ m j(2) [OF m] j(1) [OF m], of 0])
    have "h < 32 * (k + length cs)" using j [OF m] by auto
    then show "h < 32 * k + 2 ^ 63" using R by simp
    show "unat ?w = (F - length cs + 0) mod 2 ^ c" using ring_start [OF ring] R by (simp add: exp_circle_def)
    have "?j < 2 ^ c" using j(1) [OF m] G by simp
    then show "?j - 0 < unat (pr_blockIndexSize p)" using G by simp
  qed simp
  moreover have "circular_less_than (ee_base (exp_slot (k + ?j) (cs ! ?j))) (word_of_nat h)" if m: "h mod 32 \<noteq> 0"
  proof -
    have "32 * (k + ?j) + h mod 32 = h" using j(2) [OF m] by (metis mult_div_mod_eq)
    then have "32 * (k + ?j) < h" "h < 32 * (k + ?j) + 32" using m mod_less_divisor [of 32 h] by linarith+
    then show ?thesis using circ_before [of "32 * (k + ?j)" h] by (simp add: exp_slot_def del: of_nat_mult of_nat_add distrib_left_numeral)
  qed
  ultimately show "exp_half_block p = Some (if h mod 32 = 0 then None else Some (cs ! ?j))"
    using slot G R by (auto simp: exp_half_block_def Let_def head exp_circle_def exp_slot_def)
qed

section \<open>Elements\<close>

definition live :: "'a option list \<Rightarrow> 'a list" where
  "live es = map the (filter (\<lambda>e. e \<noteq> None) es)"

lemma live_append [simp]: "live (as @ bs) = live as @ live bs"
  by (simp add: live_def)

lemma live_none: "\<forall>e \<in> set es. e = None \<Longrightarrow> live es = []"
  by (induction es) (simp_all add: live_def)

text \<open>The loop destroys the objects from offset \<open>i\<close> up to \<open>e\<close>.\<close>

lemma destroy_slots_ok:
  assumes "length es = 32" and "i \<le> e" and "e \<le> 32" and "stop = Some e \<or> e = 32 \<and> stop = None" and "\<forall>m. i \<le> m \<and> m < e \<longrightarrow> es ! m \<noteq> None" and "e - i < fuel"
  shows "\<exists>es'. destroy_slots fuel stop i es = Some (live (drop i (take e es)), es') \<and> length es' = 32 \<and>
    (\<forall>m < 32. es' ! m = (if i \<le> m \<and> m < e then None else es ! m))"
  using assms
proof (induction fuel arbitrary: i es)
  case (Suc fuel)
  show ?case
  proof (cases "i = e")
    case True
    then show ?thesis using Suc.prems by (auto simp: live_def)
  next
    case False
    then have i: "i < e" "i < 32" using Suc.prems(2,3) by simp_all
    then obtain x where x: "es ! i = Some x" using Suc.prems(5) by (metis le_refl option.exhaust)
    let ?es = "es[i := None]"
    obtain es' where es': "destroy_slots fuel stop (Suc i) ?es = Some (live (drop (Suc i) (take e ?es)), es')" "length es' = 32"
      "\<forall>m < 32. es' ! m = (if Suc i \<le> m \<and> m < e then None else ?es ! m)"
    proof -
      have "length ?es = 32" "Suc i \<le> e" "\<forall>m. Suc i \<le> m \<and> m < e \<longrightarrow> ?es ! m \<noteq> None" "e - Suc i < fuel" using Suc.prems(1,5,6) i by auto
      from Suc.IH [OF this(1,2) Suc.prems(3,4) this(3,4)] show ?thesis using that by blast
    qed
    have "drop i (take e es) = Some x # drop (Suc i) (take e ?es)"
      using x i Suc.prems(1,3) by (subst Cons_nth_drop_Suc [symmetric]) (auto simp: take_update_swap)
    moreover have "stop \<noteq> Some i" using Suc.prems(4) i by auto
    ultimately show ?thesis using es' x i Suc.prems(1) by (intro exI [of _ es']) (auto simp: live_def nth_list_update)
  qed
qed simp

text \<open>A block that is not empty: exactly its elements are destroyed.\<close>

lemma destroy_block_ok:
  assumes hold: "exp_holds xs h m (cq_blocks pool ! b)" and b: "b < length (cq_blocks pool)"
    and head: "ep_headIndex p = word_of_nat h" and tail: "ep_tailIndex p = word_of_nat (h + length xs)"
    and half: "h < 32 * Suc m \<Longrightarrow> half = Some b \<longleftrightarrow> h mod 32 \<noteq> 0 \<and> h div 32 = m"
    and is_tail: "ep_tailBlock p = Some b \<longleftrightarrow> h + length xs \<le> 32 * Suc m" and started: "32 * m < h + length xs"
  shows "\<exists>blk. exp_destroy_block p half b pool = Some (live (elements (cq_blocks pool ! b)), pool\<lparr>cq_blocks := (cq_blocks pool)[b := blk]\<rparr>) \<and>
    elements blk = replicate 32 None \<and> dynamicallyAllocated blk = dynamicallyAllocated (cq_blocks pool ! b)"
proof -
  let ?blk = "cq_blocks pool ! b" and ?T = "h + length xs"
  have E: "elements ?blk = map (\<lambda>i. slot_val xs h (32 * m + i)) [0..<32]" using hold by (simp add: exp_holds_def)
  note empty = exp_holds_empty [OF hold]
  show ?thesis
  proof (cases "32 * Suc m \<le> h")
    case True
    have none: "elements ?blk = replicate 32 None" by (rule exp_holds_used [OF hold True])
    then have "live (elements ?blk) = []" by (intro live_none) simp
    then show ?thesis using b empty True none by (intro exI [of _ ?blk]) (simp add: exp_destroy_block_def)
  next
    case False
    define i where "i = (if h mod 32 \<noteq> 0 \<and> h div 32 = m then h mod 32 else 0)"
    define e where "e = (if ?T \<le> 32 * Suc m then (if ?T mod 32 = 0 then 32 else ?T mod 32) else 32)"
    have i: "32 * m + i = max h (32 * m)"
    proof (cases "h < 32 * m")
      case True
      then have "h div 32 < m" by (simp add: div_less_iff_less_mult mult.commute)
      then show ?thesis using True by (simp add: i_def)
    next
      case below: False
      then have "h div 32 = m" "h mod 32 = h - 32 * m" using block_pos [of "h - 32 * m" m h] False by simp_all
      then show ?thesis using below by (simp add: i_def)
    qed
    have e: "32 * m + e = min ?T (32 * Suc m)"
    proof (cases "?T < 32 * Suc m")
      case True
      then have "?T mod 32 = ?T - 32 * m" using block_pos [of "?T - 32 * m" m ?T] started by simp
      then show ?thesis using True started by (simp add: e_def)
    next
      case False
      then show ?thesis by (cases "?T = 32 * Suc m") (simp_all add: e_def)
    qed
    have val: "elements ?blk ! s = (if i \<le> s \<and> s < e then Some (xs ! (32 * m + s - h)) else None)" if "s < 32" for s
      using that i e False started by (auto simp: E slot_val_def max_def min_def split: if_splits)
    have ie: "i \<le> e" "e \<le> 32" "length (elements ?blk) = 32" using i e False started by (auto simp: E max_def min_def split: if_splits)
    let ?stop = "if ep_tailBlock p = Some b then Some e else None"
    have stop: "?stop = Some e \<or> e = 32 \<and> ?stop = None" using is_tail by (auto simp: e_def)
    have "\<forall>s. i \<le> s \<and> s < e \<longrightarrow> elements ?blk ! s \<noteq> None" "e - i < 33" using val ie(2) by auto
    then obtain es where es: "destroy_slots 33 ?stop i (elements ?blk) = Some (live (drop i (take e (elements ?blk))), es)" "length es = 32"
      "\<forall>s < 32. es ! s = (if i \<le> s \<and> s < e then None else elements ?blk ! s)"
      using destroy_slots_ok [OF ie(3,1,2) stop] by blast
    have none: "es = replicate 32 None" using es(2,3) val by (intro nth_equalityI) auto
    have "elements ?blk = take i (elements ?blk) @ drop i (take e (elements ?blk)) @ drop e (elements ?blk)"
      using ie by (metis append_assoc append_take_drop_id min.absorb1 take_take)
    moreover have "live (take i (elements ?blk)) = []" "live (drop e (elements ?blk)) = []"
      using val ie by (auto intro!: live_none simp: in_set_conv_nth)
    ultimately have "live (drop i (take e (elements ?blk))) = live (elements ?blk)" by (metis append_Nil append_Nil2 live_append)
    moreover have "unat (ep_headIndex p AND (BLOCK_SIZE - 1)) = h mod 32" "unat (ep_tailIndex p AND (BLOCK_SIZE - 1)) = ?T mod 32"
      using slot_of_nat [of h] slot_of_nat [of ?T] unfolding slot_of_def head tail by simp_all
    ultimately have "exp_destroy_block p half b pool = Some (live (elements ?blk), pool\<lparr>cq_blocks := (cq_blocks pool)[b := ?blk\<lparr>elements := es\<rparr>]\<rparr>)"
      using b empty False es(1) half is_tail by (auto simp: exp_destroy_block_def Let_def i_def e_def unat_eq_zero [symmetric] split: if_splits)
    then show ?thesis using none by (intro exI [of _ "?blk\<lparr>elements := es\<rparr>"]) simp
  qed
qed

section \<open>The walks\<close>

lemma tail_bounds:
  assumes "exp_rel p blks k h xs cs"
  shows "h + length xs \<le> 32 * (k + length cs)" and "32 * (k + length cs) < h + length xs + 32" and "32 * k \<le> h"
proof -
  let ?T = "h + length xs"
  have K: "(?T + 31) div 32 = k + length cs" "k \<le> h div 32" using assms by (auto simp: exp_rel_def)
  have "32 * (k + length cs) + (?T + 31) mod 32 = ?T + 31" using mult_div_mod_eq [of 32 "?T + 31"] unfolding K(1) .
  moreover have "(?T + 31) mod 32 < 32" by simp
  ultimately show "?T \<le> 32 * (k + length cs)" "32 * (k + length cs) < ?T + 32" by linarith+
  show "32 * k \<le> h" using K(2) mult_div_mod_eq [of 32 h] by linarith
qed

lemma circle_block_ok:
  assumes rel: "exp_rel p blks k h xs cs" and half: "exp_half_block p = Some half" and i: "i < length cs"
    and same: "cq_blocks pool ! (cs ! i) = blks ! (cs ! i)" "length (cq_blocks pool) = length blks"
  shows "\<exists>blk. exp_destroy_block p half (cs ! i) pool =
      Some (live (elements (blks ! (cs ! i))), pool\<lparr>cq_blocks := (cq_blocks pool)[cs ! i := blk]\<rparr>) \<and>
    elements blk = replicate 32 None \<and> dynamicallyAllocated blk = dynamicallyAllocated (blks ! (cs ! i))"
proof -
  note R = rel [unfolded exp_rel_def]
  let ?n = "length cs" and ?T = "h + length xs"
  have ne: "cs \<noteq> []" using i by auto
  have eq: "cs ! i = cs ! j \<longleftrightarrow> i = j" if "j < ?n" for j using R i that by (simp add: exp_circle_def nth_eq_iff_index_eq)
  have half': "half = (if h mod 32 = 0 then None else Some (cs ! (h div 32 - k)))" using half half_block_ok(1) [OF rel ne] by simp
  have hb: "half = Some (cs ! i) \<longleftrightarrow> h mod 32 \<noteq> 0 \<and> h div 32 = k + i"
  proof (cases "h mod 32 = 0")
    case False
    have "half = Some (cs ! i) \<longleftrightarrow> cs ! i = cs ! (h div 32 - k)" using half' False by auto
    also have "\<dots> \<longleftrightarrow> i = h div 32 - k" by (rule eq [OF half_block_ok(2) [OF rel ne False]])
    also have "\<dots> \<longleftrightarrow> h div 32 = k + i" using R by linarith
    finally show ?thesis using False by simp
  qed (simp add: half')
  have last: "ep_tailBlock p = Some (cs ! (?n - 1))" using R ne by (simp add: exp_circle_def last_conv_nth)
  note bounds = tail_bounds [OF rel]
  have tb: "ep_tailBlock p = Some (cs ! i) \<longleftrightarrow> ?T \<le> 32 * Suc (k + i)"
  proof (cases "i = ?n - 1")
    case True
    then have "k + ?n = Suc (k + i)" using i by simp
    then show ?thesis using last True bounds(1) by simp
  next
    case False
    then have "32 * Suc (k + i) + 32 \<le> 32 * (k + ?n)" using i by simp
    then have "\<not> ?T \<le> 32 * Suc (k + i)" using bounds(2) by linarith
    moreover have "cs ! i \<noteq> cs ! (?n - 1)" using False eq [of "?n - 1"] ne by simp
    ultimately show ?thesis using last by auto
  qed
  have "32 * (k + i) + 32 \<le> 32 * (k + ?n)" using i by simp
  then have started: "32 * (k + i) < ?T" using bounds(2) by linarith
  have b: "cs ! i < length blks" "exp_holds xs h (k + i) (blks ! (cs ! i))" using R i by (auto simp: exp_blocks_def)
  have c: "ep_headIndex p = word_of_nat h" "ep_tailIndex p = word_of_nat ?T" using R by (auto simp: exp_counters_def)
  from destroy_block_ok [of xs h "k + i" pool "cs ! i" p half, unfolded same, OF b(2,1) c hb tb started] show ?thesis by simp
qed

lemma walk_ok:
  assumes rel: "exp_rel p blks k h xs cs" and half: "exp_half_block p = Some half" and j: "j < length cs" and prev: "ep_next p prev = Some (cs ! j)"
    and same: "\<forall>i. j \<le> i \<and> i < length cs \<longrightarrow> cq_blocks pool ! (cs ! i) = blks ! (cs ! i)" "length (cq_blocks pool) = length blks"
    and inv: "pool_inv pool used" and sub: "set cs \<subseteq> used"
  shows "\<exists>pool'. exp_walk p half prev pool = Some (concat (map (\<lambda>i. live (elements (blks ! (cs ! i)))) [j..<length cs]), pool') \<and> pool_inv pool' used \<and>
    (\<forall>i < length cs. elements (cq_blocks pool' ! (cs ! i)) = (if j \<le> i then replicate 32 None else elements (cq_blocks pool ! (cs ! i))))"
  using j prev same inv
proof (induction "length cs - j" arbitrary: j prev pool)
  case (Suc d)
  note R = rel [unfolded exp_rel_def]
  let ?n = "length cs" and ?b = "cs ! j"
  have eq: "cs ! i = ?b \<longleftrightarrow> i = j" if "i < ?n" for i using R Suc.prems(1) that by (simp add: exp_circle_def nth_eq_iff_index_eq)
  have b: "?b < length blks" using R Suc.prems(1) by (simp add: exp_blocks_def)
  obtain blk where blk: "exp_destroy_block p half ?b pool = Some (live (elements (blks ! ?b)), pool\<lparr>cq_blocks := (cq_blocks pool)[?b := blk]\<rparr>)"
    "elements blk = replicate 32 None" "dynamicallyAllocated blk = dynamicallyAllocated (blks ! ?b)"
    using circle_block_ok [OF rel half Suc.prems(1), of pool] Suc.prems by auto
  let ?pool = "pool\<lparr>cq_blocks := (cq_blocks pool)[?b := blk]\<rparr>"
  have inv1: "pool_inv ?pool used" using Suc.prems blk(2,3) sub by (intro pool_update) auto
  have nth: "cq_blocks ?pool ! (cs ! i) = (if i = j then blk else cq_blocks pool ! (cs ! i))" if "i < ?n" for i
    using eq [OF that] b Suc.prems(4) by (auto simp: nth_list_update)
  have ne: "cs \<noteq> []" using Suc.prems(1) by auto
  have "ep_tailBlock p = Some (cs ! (?n - 1))" using R ne by (simp add: exp_circle_def last_conv_nth)
  then have "Some ?b = ep_tailBlock p \<longleftrightarrow> cs ! (?n - 1) = ?b" by auto
  also have "\<dots> \<longleftrightarrow> ?n - 1 = j" using ne by (intro eq) simp
  finally have tb: "Some ?b = ep_tailBlock p \<longleftrightarrow> Suc j = ?n" using Suc.prems(1) by linarith
  have step: "exp_walk p half prev pool = (if Suc j \<noteq> ?n then do { (ys, pool) \<leftarrow> exp_walk p half ?b ?pool; Some (live (elements (blks ! ?b)) @ ys, pool) }
      else Some (live (elements (blks ! ?b)), ?pool))" by (subst exp_walk.simps) (simp add: Suc.prems(2) blk(1) tb)
  show ?case
  proof (cases "Suc j = ?n")
    case True
    then show ?thesis using step inv1 nth blk(2) by (intro exI [of _ ?pool]) (auto simp flip: True)
  next
    case False
    then have j': "Suc j < ?n" using Suc.prems(1) by simp
    then have next': "ep_next p ?b = Some (cs ! Suc j)" using R Suc.prems(1) by (simp add: exp_circle_def)
    have d: "d = ?n - Suc j" using Suc.hyps(2) by simp
    have same': "\<forall>i. Suc j \<le> i \<and> i < ?n \<longrightarrow> cq_blocks ?pool ! (cs ! i) = blks ! (cs ! i)" using nth Suc.prems(3) by auto
    obtain pool' where w: "exp_walk p half ?b ?pool = Some (concat (map (\<lambda>i. live (elements (blks ! (cs ! i)))) [Suc j..<?n]), pool')" "pool_inv pool' used"
      "\<forall>i < ?n. elements (cq_blocks pool' ! (cs ! i)) = (if Suc j \<le> i then replicate 32 None else elements (cq_blocks ?pool ! (cs ! i)))"
      using Suc.hyps(1) [OF d j' next' same' _ inv1] Suc.prems(4) by auto
    have "\<forall>i < ?n. elements (cq_blocks pool' ! (cs ! i)) = (if j \<le> i then replicate 32 None else elements (cq_blocks pool ! (cs ! i)))"
      using w(3) nth blk(2) by auto
    then show ?thesis using step False w(1,2) Suc.prems(1) by (intro exI [of _ pool']) (simp add: upt_conv_Cons)
  qed
qed simp

lemma upt_split: "i \<le> j \<Longrightarrow> j \<le> k \<Longrightarrow> [i..<k] = [i..<j] @ [j..<k]"
  using upt_add_eq_append [of i j "k - j"] by simp

lemma live_slots:
  assumes "a \<le> h" and "h + length xs \<le> b"
  shows "live (map (slot_val xs h) [a..<b]) = xs"
proof -
  let ?T = "h + length xs"
  have "[a..<b] = [a..<h] @ [h..<?T] @ [?T..<b]" using assms upt_split [of a h b] upt_split [of h ?T b] by simp
  moreover have "map (slot_val xs h) [h..<?T] = map Some xs" by (intro nth_equalityI) (simp_all add: slot_val_def)
  moreover have "live (map (slot_val xs h) [a..<h]) = []" "live (map (slot_val xs h) [?T..<b]) = []" by (auto intro!: live_none simp: slot_val_def)
  moreover have "live (map Some xs) = xs" by (induction xs) (simp_all add: live_def)
  ultimately show ?thesis by simp
qed

lemma all_elements:
  assumes "exp_rel p blks k h xs cs"
  shows "concat (map (\<lambda>i. live (elements (blks ! (cs ! i)))) [0..<length cs]) = xs"
proof -
  note R = assms [unfolded exp_rel_def]
  have E: "live (elements (blks ! (cs ! i))) = live (map (slot_val xs h) [32 * (k + i)..<32 * Suc (k + i)])" if "i < length cs" for i
  proof -
    have "map (slot_val xs h) [32 * (k + i)..<32 * Suc (k + i)] = map (\<lambda>m. slot_val xs h (32 * (k + i) + m)) [0..<32]"
      by (intro nth_equalityI) simp_all
    then show ?thesis using R that by (simp add: exp_blocks_def exp_holds_def)
  qed
  have "concat (map (\<lambda>i. live (elements (blks ! (cs ! i)))) [0..<n]) = live (map (slot_val xs h) [32 * k..<32 * (k + n)])" if "n \<le> length cs" for n
    using that
  proof (induction n)
    case (Suc n)
    have "[32 * k..<32 * (k + Suc n)] = [32 * k..<32 * (k + n)] @ [32 * (k + n)..<32 * Suc (k + n)]" using upt_split [of "32 * k" "32 * (k + n)" "32 * Suc (k + n)"] by simp
    then show ?case using Suc E [of n] by simp
  qed (simp add: live_def)
  then show ?thesis using tail_bounds [OF assms] live_slots [of "32 * k" h xs "32 * (k + length cs)"] by simp
qed

text \<open>The blocks in the order of the second walk.\<close>

fun released :: "exp_producer \<Rightarrow> nat list \<Rightarrow> bool" where
  "released p [] \<longleftrightarrow> False"
| "released p [b] \<longleftrightarrow> ep_next p b = ep_tailBlock p \<and> ep_next p b \<noteq> None"
| "released p (b # c # bs) \<longleftrightarrow> ep_next p b = Some c \<and> ep_tailBlock p \<noteq> Some c \<and> released p (c # bs)"

lemma release_ok:
  assumes "released p bs" and "distinct bs" and "set bs \<subseteq> used" and "pool_inv pool used"
    and "\<forall>b \<in> set bs. elements (cq_blocks pool ! b) = replicate 32 None"
  shows "\<exists>pool'. exp_release p (hd bs) pool = Some (filter (\<lambda>b. dynamicallyAllocated (cq_blocks pool ! b)) bs, pool') \<and> cq_blocks pool' = cq_blocks pool \<and>
    pool_inv pool' (used - {b \<in> set bs. \<not> dynamicallyAllocated (cq_blocks pool ! b)})"
  using assms
proof (induction bs arbitrary: used pool)
  case (Cons b bs)
  let ?dyn = "\<lambda>b. dynamicallyAllocated (cq_blocks pool ! b)" and ?used = "if dynamicallyAllocated (cq_blocks pool ! b) then used else used - {b}"
  obtain c where c: "ep_next p b = Some c" using Cons.prems(1) by (cases bs) (metis released.simps(2,3) option.exhaust)+
  have b: "nth_opt (cq_blocks pool) b = Some (cq_blocks pool ! b)" using pool_inv_elements [OF Cons.prems(4)] Cons.prems(3) by simp
  obtain pool1 where p1: "(if ?dyn b then Some pool else add_block_to_free_list b pool) = Some pool1" "pool_inv pool1 ?used" "cq_blocks pool1 = cq_blocks pool"
  proof (cases "?dyn b")
    case False
    have "b \<in> used" "elements (cq_blocks pool ! b) = replicate 32 None" using Cons.prems(3,5) by simp_all
    from add_block_ok [OF Cons.prems(4) this] show ?thesis using that False by auto
  next
    case True
    then show ?thesis using that [of pool] Cons.prems(4) by (simp only: if_True simp_thms)
  qed
  have step: "exp_release p b pool = do {
      (bs, pool) \<leftarrow> (if Some c \<noteq> ep_tailBlock p then exp_release p c pool1 else Some ([], pool1));
      Some (if ?dyn b then b # bs else bs, pool) }"
    by (subst exp_release.simps) (simp add: c b p1(1))
  show ?case
  proof (cases bs)
    case Nil
    then have "Some c = ep_tailBlock p" using Cons.prems(1) c by simp
    then show ?thesis using step Nil p1(2,3) by (intro exI [of _ pool1]) (auto simp: Collect_conv_if)
  next
    case ds: (Cons d ds)
    have D: "c = d" "ep_tailBlock p \<noteq> Some d" "released p bs" using Cons.prems(1) c ds by auto
    have sub: "distinct bs" "set bs \<subseteq> ?used" "\<forall>b \<in> set bs. elements (cq_blocks pool1 ! b) = replicate 32 None" using Cons.prems(2,3,5) p1(3) by auto
    obtain pool2 where p2: "exp_release p (hd bs) pool1 = Some (filter (\<lambda>b. dynamicallyAllocated (cq_blocks pool1 ! b)) bs, pool2)"
      "cq_blocks pool2 = cq_blocks pool1" "pool_inv pool2 (?used - {b \<in> set bs. \<not> dynamicallyAllocated (cq_blocks pool1 ! b)})"
      using Cons.IH [OF D(3) sub(1,2) p1(2) sub(3)] by blast
    have "hd bs = c" "Some c \<noteq> ep_tailBlock p" using D(1,2) ds by auto
    then have "exp_release p (hd (b # bs)) pool = Some (filter ?dyn (b # bs), pool2)" using step p2(1) p1(3) by simp
    moreover have "?used - {b \<in> set bs. \<not> ?dyn b} = used - {c \<in> set (b # bs). \<not> ?dyn c}" by auto
    ultimately show ?thesis using p2(2,3) p1(3) by (intro exI [of _ pool2]) (simp only: simp_thms)
  qed
qed simp

lemma released_nth:
  "bs \<noteq> [] \<Longrightarrow> \<forall>i. Suc i < length bs \<longrightarrow> ep_next p (bs ! i) = Some (bs ! Suc i) \<and> ep_tailBlock p \<noteq> Some (bs ! Suc i) \<Longrightarrow>
    ep_next p (last bs) = ep_tailBlock p \<Longrightarrow> ep_tailBlock p \<noteq> None \<Longrightarrow> released p bs"
proof (induction bs)
  case (Cons b bs)
  show ?case
  proof (cases bs)
    case ds: (Cons d ds)
    have "released p bs" using Cons.prems ds by (intro Cons.IH) auto
    then show ?thesis using Cons.prems(2) ds by fastforce
  qed (use Cons.prems in simp)
qed simp

lemma circle_released:
  assumes "exp_circle p cs" and ne: "cs \<noteq> []"
  shows "released p (last cs # butlast cs)"
proof -
  note C = assms(1) [unfolded exp_circle_def]
  let ?n = "length cs" and ?rs = "last cs # butlast cs"
  have tail: "ep_tailBlock p = Some (cs ! (?n - 1))" "last cs = cs ! (?n - 1)" using C ne by (simp_all add: last_conv_nth)
  have nth: "?rs ! Suc i = cs ! i" "cs ! i \<noteq> cs ! (?n - 1)" if "i < ?n - 1" for i
    using that C by (simp_all add: nth_butlast nth_eq_iff_index_eq)
  have next1: "ep_next p (cs ! i) = Some (cs ! Suc i)" if "i < ?n - 1" for i
  proof -
    have "Suc i mod ?n = Suc i" using that by simp
    then show ?thesis using C that by simp
  qed
  have "ep_next p (?rs ! i) = Some (?rs ! Suc i) \<and> ep_tailBlock p \<noteq> Some (?rs ! Suc i)" if i: "Suc i < length ?rs" for i
  proof (cases i)
    case 0
    then show ?thesis using circle_turn(2) [OF assms] nth [of 0] i tail(1) ne by (auto simp: hd_conv_nth)
  next
    case (Suc j)
    have j: "Suc j < ?n - 1" using i Suc by simp
    have "?rs ! i = cs ! j" unfolding Suc using j by (intro nth(1)) simp
    moreover have "?rs ! Suc i = cs ! Suc j" unfolding Suc using j by (rule nth(1))
    ultimately show ?thesis using next1 [of j] nth(2) [of "Suc j"] j tail(1) by auto
  qed
  moreover have "ep_next p (last ?rs) = ep_tailBlock p"
  proof (cases "?n = 1")
    case True
    then have "butlast cs = []" by (cases cs) simp_all
    then show ?thesis using C True tail by simp
  next
    case False
    moreover have "0 < ?n" using ne by simp
    ultimately have n: "2 \<le> ?n" by linarith
    obtain ys y where ys: "cs = ys @ [y]" using ne by (metis append_butlast_last_id)
    then have "ys \<noteq> []" using n by auto
    then have "last ?rs = cs ! (?n - 2)" by (simp add: ys last_conv_nth nth_append numeral_2_eq_2)
    moreover have "Suc (?n - 2) = ?n - 1" using n by simp
    ultimately show ?thesis using next1 [of "?n - 2"] n tail(1) by simp
  qed
  ultimately show ?thesis using tail(1) by (intro released_nth) auto
qed

lemma exp_destroy_ok:
  assumes "exp_queue s xs"
  shows "\<exists>freed pool'. exp_destroy s = Some (xs, freed, length (ep_blockIndex (fst s)), pool') \<and> distinct freed \<and>
    (\<forall>b \<in> set freed. dynamicallyAllocated (cq_blocks pool' ! b)) \<and> pool_inv pool' (set freed)"
proof -
  obtain p pool where s: "s = (p, pool)" by (cases s)
  obtain k h cs where R: "exp_rel p (cq_blocks pool) k h xs cs" "pool_inv pool (set cs)" using assms by (auto simp: exp_queue_def s)
  have circ: "exp_circle p cs" using R(1) by (simp add: exp_rel_def)
  show ?thesis
  proof (cases "cs = []")
    case True
    then have "ep_tailBlock p = None" "xs = []" using circ all_elements [OF R(1)] by (simp_all add: exp_circle_def)
    then show ?thesis using R(2) True by (simp add: exp_destroy_def s)
  next
    case ne: False
    have t: "ep_tailBlock p = Some (last cs)" "ep_next p (last cs) = Some (cs ! 0)" using circ ne circle_turn(2) [OF circ ne] by (simp_all add: exp_circle_def hd_conv_nth)
    obtain half where half: "exp_half_block p = Some half" using half_block_ok(1) [OF R(1) ne] by blast
    obtain pool1 where w: "exp_walk p half (last cs) pool = Some (xs, pool1)" "pool_inv pool1 (set cs)"
      "\<forall>i < length cs. elements (cq_blocks pool1 ! (cs ! i)) = replicate 32 None"
      using walk_ok [OF R(1) half _ t(2) _ _ R(2), unfolded all_elements [OF R(1)]] ne by auto
    let ?rs = "last cs # butlast cs" and ?dyn = "\<lambda>b. dynamicallyAllocated (cq_blocks pool1 ! b)"
    obtain ys y where "cs = ys @ [y]" using ne by (metis append_butlast_last_id)
    then have perm: "set ?rs = set cs" "distinct ?rs" using circ by (auto simp: exp_circle_def)
    have empty: "\<forall>b \<in> set ?rs. elements (cq_blocks pool1 ! b) = replicate 32 None" unfolding perm(1) using w(3) by (auto simp: in_set_conv_nth)
    obtain pool2 where r: "exp_release p (hd ?rs) pool1 = Some (filter ?dyn ?rs, pool2)" "cq_blocks pool2 = cq_blocks pool1"
      "pool_inv pool2 (set cs - {b \<in> set ?rs. \<not> ?dyn b})"
      using release_ok [OF circle_released [OF circ ne] perm(2) equalityD1 [OF perm(1)] w(2) empty] by blast
    have "set cs - {b \<in> set ?rs. \<not> ?dyn b} = set (filter ?dyn ?rs)" unfolding set_filter perm(1) by blast
    moreover have "exp_destroy s = Some (xs, filter ?dyn ?rs, length (ep_blockIndex p), pool2)" using t(1) half w(1) r(1) by (simp add: exp_destroy_def s)
    ultimately show ?thesis using r(2,3) perm(2) s by (intro exI [of _ "filter ?dyn ?rs"] exI [of _ pool2]) (auto simp: distinct_filter)
  qed
qed

text \<open>C26: 
  Destruction of an explicit producer after any calls: exactly the elements left in the queue are destroyed, in order
  and each once; exactly its blocks that were allocated on their own are freed, each once; all its other blocks are
  back in the pool, whose blocks are then either free or among those freed; the loops end and no assertion fails.
\<close>
theorem explicit_destroy_once:
  assumes "pool = populate_initial_block_list n alloc" and "unat n \<le> 2 ^ 59" and "length ops \<le> 2 ^ 62"
    and "new_exp_producer ok (initialBlockPoolSize pool) = Some p" and "prod_run exp_enqueue exp_dequeue ops (p, pool) = Some (rs, s)"
    and "replay ops rs [] = Some ys"
  shows "\<exists>freed pool'. exp_destroy s = Some (ys, freed, length (ep_blockIndex (fst s)), pool') \<and> distinct freed \<and>
    (\<forall>b \<in> set freed. dynamicallyAllocated (cq_blocks pool' ! b)) \<and> pool_inv pool' (set freed)"
proof -
  have "exp_queue (p, pool) []" using new_exp_queue [OF assms(1,2), of ok] assms(4) by simp
  then have "exp_queue s ys" using ex.run_replays [of "(p, pool)" "[]" ops] assms(3,5,6) by fastforce
  then show ?thesis by (rule exp_destroy_ok)
qed

text \<open>Witness of \<open>explicit_destroy_once\<close>: one element is taken and one left; the block is not from the pool.\<close>

lemma left_over_run:
  "\<exists>p s. new_exp_producer True (initialBlockPoolSize (populate_initial_block_list 0 [] :: nat block_pool)) = Some p \<and>
    prod_run exp_enqueue exp_dequeue [Put True (7 :: nat), Put True 8, Take] (p, populate_initial_block_list 0 []) =
      Some ([WasPut True, WasPut True, Taken (Some 7)], s)"
proof -
  let ?pool = "populate_initial_block_list 0 [] :: nat block_pool" and ?ops = "[Put True (7 :: nat), Put True 8, Take]"
  obtain p where p: "new_exp_producer True (initialBlockPoolSize ?pool) = Some p" "exp_queue (p, ?pool) []"
    using new_exp_queue [OF refl, of 0 True "[]"] by auto
  have "\<exists>s. prod_run exp_enqueue exp_dequeue ?ops (p, ?pool) = Some (queue_replies ?ops [], s)"
    by (rule ex.run_replies [OF p(2) populate_ready]) simp_all
  then show ?thesis using p(1) by simp
qed

theorem explicit_destroy_once_witness:
  "\<exists>p rs s freed n pool'. new_exp_producer True (initialBlockPoolSize (populate_initial_block_list 0 [] :: nat block_pool)) = Some p \<and>
    prod_run exp_enqueue exp_dequeue [Put True (7 :: nat), Put True 8, Take] (p, populate_initial_block_list 0 []) = Some (rs, s) \<and>
    exp_destroy s = Some ([8], freed, n, pool') \<and> distinct freed"
proof -
  obtain p s where p: "new_exp_producer True (initialBlockPoolSize (populate_initial_block_list 0 [] :: nat block_pool)) = Some p"
    "prod_run exp_enqueue exp_dequeue [Put True (7 :: nat), Put True 8, Take] (p, populate_initial_block_list 0 []) = Some ([WasPut True, WasPut True, Taken (Some 7)], s)"
    using left_over_run by blast
  have "\<exists>freed pool'. exp_destroy s = Some ([8], freed, length (ep_blockIndex (fst s)), pool') \<and> distinct freed \<and>
    (\<forall>b \<in> set freed. dynamicallyAllocated (cq_blocks pool' ! b)) \<and> pool_inv pool' (set freed)"
    by (rule explicit_destroy_once [OF refl _ _ p]) simp_all
  then show ?thesis using p by blast
qed

end
