(* ===== verification/MpmcHash.thy ===== *)
theory MpmcHash
  imports MpmcBlock
begin

text \<open>
  The hash tables from thread identifiers to implicit producers (\<^verbatim>\<open>src/lib/concurrentqueue/concurrentqueue.h\<close>,
  \<^verbatim>\<open>ImplicitProducerHash\<close> and the probing loops of \<^verbatim>\<open>get_or_add_implicit_producer\<close>). The chain through \<open>prev\<close> is a list
  with the main table first. The probing loops have no bound in the source; here they have one step per slot of the
  table, and \<open>None\<close> when that is not enough. The lemmas show that it always is, because a slot stays free, and that a
  table is a finite map.
\<close>

section \<open>Model\<close>

record producer_kvp =
  kvp_key :: u64
  kvp_value :: "nat option"

record producer_hash =
  ph_capacity :: u64
  ph_entries :: "producer_kvp list"

definition new_producer_hash :: "u64 \<Rightarrow> producer_hash" where
  "new_producer_hash cap = \<lparr>ph_capacity = cap, ph_entries = replicate (unat cap) \<lparr>kvp_key = invalid_thread_id, kvp_value = None\<rparr>\<rparr>"

definition populate_initial_implicit_producer_hash :: "producer_hash list" where
  "populate_initial_implicit_producer_hash = [new_producer_hash INITIAL_IMPLICIT_PRODUCER_HASH_SIZE]"

text \<open>The search in one table: the index of the entry, or \<open>None\<close> at the first free slot.\<close>

fun hash_find :: "nat \<Rightarrow> u64 \<Rightarrow> u64 \<Rightarrow> producer_hash \<Rightarrow> nat option option" where
  "hash_find 0 ident index t = None"
| "hash_find (Suc fuel) ident index t =
     do {
       let index = index AND (ph_capacity t - 1);
       e \<leftarrow> nth_opt (ph_entries t) (unat index);
       if kvp_key e = ident then Some (Some (unat index))
       else if kvp_key e = invalid_thread_id then Some None
       else hash_find fuel ident (index + 1) t
     }"

text \<open>The insertion loop: the first free slot gets the key and the value.\<close>

fun hash_put :: "nat \<Rightarrow> u64 \<Rightarrow> nat option \<Rightarrow> u64 \<Rightarrow> producer_hash \<Rightarrow> producer_hash option" where
  "hash_put 0 ident v index t = None"
| "hash_put (Suc fuel) ident v index t =
     do {
       let index = index AND (ph_capacity t - 1);
       e \<leftarrow> nth_opt (ph_entries t) (unat index);
       if kvp_key e = invalid_thread_id
       then Some (t\<lparr>ph_entries := (ph_entries t)[unat index := \<lparr>kvp_key = ident, kvp_value = v\<rparr>]\<rparr>)
       else hash_put fuel ident v (index + 1) t
     }"

text \<open>The search through all tables: the value, and the position of its table in the chain.\<close>

fun hash_search :: "u64 \<Rightarrow> u64 \<Rightarrow> producer_hash list \<Rightarrow> (nat option \<times> nat) option option" where
  "hash_search ident hashedId [] = Some None"
| "hash_search ident hashedId (t # ts) =
     do {
       r \<leftarrow> hash_find (unat (ph_capacity t)) ident hashedId t;
       case r of
         Some i \<Rightarrow> Some (Some (kvp_value (ph_entries t ! i), 0))
       | None \<Rightarrow> do { s \<leftarrow> hash_search ident hashedId ts; Some (map_option (\<lambda>(v, d). (v, Suc d)) s) }
     }"

text \<open>The loop that finds a capacity of which the new count is less than half.\<close>

fun grow_capacity :: "nat \<Rightarrow> u64 \<Rightarrow> u64 \<Rightarrow> u64 option" where
  "grow_capacity 0 newCount newCapacity = None"
| "grow_capacity (Suc fuel) newCount newCapacity =
     (if newCount \<ge> drop_bit 1 newCapacity then grow_capacity fuel newCount (push_bit 1 newCapacity) else Some newCapacity)"

section \<open>One table is a map\<close>

definition key_at :: "producer_hash \<Rightarrow> nat \<Rightarrow> u64" where
  "key_at t q = kvp_key (ph_entries t ! q)"

definition probe_pos :: "nat \<Rightarrow> u64 \<Rightarrow> nat \<Rightarrow> nat" where
  "probe_pos c ident j = (unat (hash_thread_id ident) + j) mod 2 ^ c"

definition used_slots :: "producer_hash \<Rightarrow> nat set" where
  "used_slots t = {q. q < length (ph_entries t) \<and> key_at t q \<noteq> invalid_thread_id}"

text \<open>
  A table of \<open>2\<^sup>c\<close> slots with a free one, in which no free slot lies on the way from a key's first slot to the key.
\<close>

definition table_ok :: "nat \<Rightarrow> producer_hash \<Rightarrow> bool" where
  "table_ok c t \<longleftrightarrow> c < 64 \<and> unat (ph_capacity t) = 2 ^ c \<and> length (ph_entries t) = 2 ^ c \<and> card (used_slots t) < 2 ^ c \<and>
     inj_on (key_at t) (used_slots t) \<and>
     (\<forall>q \<in> used_slots t. \<exists>i < 2 ^ c. q = probe_pos c (key_at t q) i \<and> (\<forall>i' < i. probe_pos c (key_at t q) i' \<in> used_slots t))"

definition table_has :: "producer_hash \<Rightarrow> u64 \<Rightarrow> nat option \<Rightarrow> bool" where
  "table_has t ident v \<longleftrightarrow> (\<exists>q \<in> used_slots t. ph_entries t ! q = \<lparr>kvp_key = ident, kvp_value = v\<rparr>)"

definition table_keys :: "producer_hash \<Rightarrow> u64 set" where
  "table_keys t = key_at t ` used_slots t"

lemma used_finite [simp]: "finite (used_slots t)"
  by (simp add: used_slots_def)

lemma probe_reaches:
  assumes "q < 2 ^ c"
  shows "\<exists>i < 2 ^ c. q = probe_pos c ident i"
proof -
  let ?s = "unat (hash_thread_id ident) mod 2 ^ c"
  let ?i = "(q + 2 ^ c - ?s) mod 2 ^ c"
  have "?s < 2 ^ c" by simp
  have "probe_pos c ident ?i = (?s + (q + 2 ^ c - ?s)) mod 2 ^ c" unfolding probe_pos_def by (simp add: mod_add_left_eq mod_add_right_eq)
  also have "?s + (q + 2 ^ c - ?s) = q + 2 ^ c" using \<open>?s < 2 ^ c\<close> by linarith
  finally have q: "q = probe_pos c ident ?i" using assms by simp
  have lt: "?i < 2 ^ c" by simp
  show ?thesis by (rule exI [of _ ?i], rule conjI [OF lt q])
qed

lemma free_slot_reached:
  assumes "table_ok c t"
  shows "\<exists>i < 2 ^ c. probe_pos c ident i \<notin> used_slots t"
proof -
  have "used_slots t \<noteq> {..<2 ^ c}" using assms by (metis card_lessThan less_irrefl table_ok_def)
  moreover have "used_slots t \<subseteq> {..<2 ^ c}" using assms by (auto simp: used_slots_def table_ok_def)
  ultimately obtain q where "q < 2 ^ c" "q \<notin> used_slots t" by blast
  then show ?thesis using probe_reaches [of q c ident] by auto
qed

lemma probe_mask:
  assumes "unat (ph_capacity t) = 2 ^ c" and "c < 64" and "unat index mod 2 ^ c = probe_pos c ident j"
  shows "unat (index AND (ph_capacity t - 1)) = probe_pos c ident j"
    and "unat ((index AND (ph_capacity t - 1)) + 1) mod 2 ^ c = probe_pos c ident (Suc j)"
proof -
  show m: "unat (index AND (ph_capacity t - 1)) = probe_pos c ident j" using and_pow2_minus_1 [OF assms(1,2)] assms(3) by simp
  have dvd: "(2 :: nat) ^ c dvd 2 ^ 64" using assms(2) by (intro le_imp_power_dvd) simp
  have "unat ((index AND (ph_capacity t - 1)) + 1) mod 2 ^ c = (probe_pos c ident j + 1) mod 2 ^ 64 mod 2 ^ c"
    by (simp add: unat_add_u64 m)
  also have "\<dots> = (probe_pos c ident j + 1) mod 2 ^ c" using dvd by (rule mod_mod_cancel)
  also have "\<dots> = probe_pos c ident (Suc j)" by (simp add: probe_pos_def mod_Suc_eq)
  finally show "unat ((index AND (ph_capacity t - 1)) + 1) mod 2 ^ c = probe_pos c ident (Suc j)" .
qed

text \<open>Both loops stop at the first slot of the probe sequence that they are looking for.\<close>

lemma hash_find_run:
  assumes "unat (ph_capacity t) = 2 ^ c" and "c < 64" and "length (ph_entries t) = 2 ^ c"
    and "\<forall>i < j. key_at t (probe_pos c ident (k + i)) \<notin> {ident, invalid_thread_id}" and "key_at t (probe_pos c ident (k + j)) \<in> {ident, invalid_thread_id}"
    and "j < fuel" and "unat index mod 2 ^ c = probe_pos c ident k"
  shows "hash_find fuel ident index t = Some (if key_at t (probe_pos c ident (k + j)) = ident then Some (probe_pos c ident (k + j)) else None)"
  using assms(4-7)
proof (induction fuel arbitrary: j k index)
  case (Suc fuel)
  note M = probe_mask [OF assms(1,2) Suc.prems(4)]
  have lt: "probe_pos c ident k < length (ph_entries t)" using assms(3) by (simp add: probe_pos_def)
  show ?case
  proof (cases j)
    case 0
    then show ?thesis using Suc.prems(2) lt M(1) by (auto simp: Let_def key_at_def)
  next
    case (Suc j')
    have "hash_find fuel ident ((index AND (ph_capacity t - 1)) + 1) t =
        Some (if key_at t (probe_pos c ident (Suc k + j')) = ident then Some (probe_pos c ident (Suc k + j')) else None)"
      using Suc.prems(1-3) \<open>j = Suc j'\<close> by (intro Suc.IH [OF _ _ _ M(2)]) auto
    moreover have "key_at t (probe_pos c ident k) \<notin> {ident, invalid_thread_id}" using Suc.prems(1) [rule_format, of 0] \<open>j = Suc j'\<close> by simp
    ultimately show ?thesis using lt M(1) \<open>j = Suc j'\<close> by (simp add: Let_def key_at_def)
  qed
qed simp

lemma hash_put_run:
  assumes "unat (ph_capacity t) = 2 ^ c" and "c < 64" and "length (ph_entries t) = 2 ^ c"
    and "\<forall>i < j. key_at t (probe_pos c ident (k + i)) \<noteq> invalid_thread_id" and "key_at t (probe_pos c ident (k + j)) = invalid_thread_id"
    and "j < fuel" and "unat index mod 2 ^ c = probe_pos c ident k"
  shows "hash_put fuel ident v index t = Some (t\<lparr>ph_entries := (ph_entries t)[probe_pos c ident (k + j) := \<lparr>kvp_key = ident, kvp_value = v\<rparr>]\<rparr>)"
  using assms(4-7)
proof (induction fuel arbitrary: j k index)
  case (Suc fuel)
  note M = probe_mask [OF assms(1,2) Suc.prems(4)]
  have lt: "probe_pos c ident k < length (ph_entries t)" using assms(3) by (simp add: probe_pos_def)
  show ?case
  proof (cases j)
    case 0
    then show ?thesis using Suc.prems(2) lt M(1) by (auto simp: Let_def key_at_def)
  next
    case (Suc j')
    have "hash_put fuel ident v ((index AND (ph_capacity t - 1)) + 1) t =
        Some (t\<lparr>ph_entries := (ph_entries t)[probe_pos c ident (Suc k + j') := \<lparr>kvp_key = ident, kvp_value = v\<rparr>]\<rparr>)"
      using Suc.prems(1-3) \<open>j = Suc j'\<close> by (intro Suc.IH [OF _ _ _ M(2)]) auto
    moreover have "key_at t (probe_pos c ident k) \<noteq> invalid_thread_id" using Suc.prems(1) [rule_format, of 0] \<open>j = Suc j'\<close> by simp
    ultimately show ?thesis using lt M(1) \<open>j = Suc j'\<close> by (simp add: Let_def key_at_def)
  qed
qed simp


lemma least_stop:
  assumes "P (n :: nat)"
  obtains j where "j \<le> n" and "P j" and "\<forall>i < j. \<not> P i"
  using assms by (metis LeastI Least_le not_less_Least)

lemma table_has_key: "table_has t ident v \<Longrightarrow> ident \<in> table_keys t"
  by (auto simp: table_has_def table_keys_def key_at_def image_iff intro!: bexI)

lemma table_keys_has: "ident \<in> table_keys t \<Longrightarrow> \<exists>v. table_has t ident v"
proof -
  assume "ident \<in> table_keys t"
  then obtain q where q: "q \<in> used_slots t" "key_at t q = ident" by (auto simp: table_keys_def)
  then have "ph_entries t ! q = \<lparr>kvp_key = ident, kvp_value = kvp_value (ph_entries t ! q)\<rparr>" by (simp add: key_at_def)
  then show ?thesis using q(1) unfolding table_has_def by blast
qed

text \<open>The search ends, and finds a key exactly when the table has it.\<close>

lemma hash_find_spec:
  assumes ok: "table_ok c t" and ident: "ident \<noteq> invalid_thread_id"
  shows "\<exists>r. hash_find (unat (ph_capacity t)) ident (hash_thread_id ident) t = Some r \<and>
    (case r of None \<Rightarrow> ident \<notin> table_keys t | Some i \<Rightarrow> i < length (ph_entries t) \<and> table_has t ident (kvp_value (ph_entries t ! i)))"
proof -
  note T = ok [unfolded table_ok_def]
  let ?p = "probe_pos c ident" and ?stop = "\<lambda>j. key_at t (probe_pos c ident j) \<in> {ident, invalid_thread_id}"
  obtain n where n: "n < 2 ^ c" "?p n \<notin> used_slots t" using free_slot_reached [OF ok, of ident] by blast
  have lt: "?p j < length (ph_entries t)" for j using T by (simp add: probe_pos_def)
  have "?stop n" using n(2) lt [of n] by (simp add: used_slots_def)
  then obtain j where j: "j \<le> n" "?stop j" "\<forall>i < j. \<not> ?stop i" by (rule least_stop)
  have run: "hash_find (unat (ph_capacity t)) ident (hash_thread_id ident) t = Some (if key_at t (?p j) = ident then Some (?p j) else None)"
    using hash_find_run [of t c j ident 0 "unat (ph_capacity t)" "hash_thread_id ident"] T j n(1) by (simp add: probe_pos_def)
  show ?thesis
  proof (cases "key_at t (?p j) = ident")
    case True
    then have "?p j \<in> used_slots t" using lt ident by (simp add: used_slots_def)
    moreover have "ph_entries t ! ?p j = \<lparr>kvp_key = ident, kvp_value = kvp_value (ph_entries t ! ?p j)\<rparr>" using True by (simp add: key_at_def)
    ultimately have "table_has t ident (kvp_value (ph_entries t ! ?p j))" unfolding table_has_def by blast
    then show ?thesis using run True lt by simp
  next
    case False
    have "ident \<notin> table_keys t"
    proof
      assume "ident \<in> table_keys t"
      then obtain q where q: "q \<in> used_slots t" "key_at t q = ident" by (auto simp: table_keys_def)
      then obtain i where i: "q = ?p i" "\<forall>i' < i. ?p i' \<in> used_slots t" using T by blast
      have "key_at t (?p j) = invalid_thread_id" using j(2) False by simp
      then have "\<not> j < i" using i(2) by (auto simp: used_slots_def)
      moreover have "\<not> i < j" using j(3) i(1) q(2) by auto
      ultimately show False using False i(1) q(2) by (metis nat_neq_iff)
    qed
    then show ?thesis using run False by simp
  qed
qed

text \<open>Inserting a new key ends, and adds exactly that key.\<close>

lemma hash_put_spec:
  assumes ok: "table_ok c t" and ident: "ident \<noteq> invalid_thread_id" "ident \<notin> table_keys t" and room: "card (used_slots t) + 1 < 2 ^ c"
  shows "\<exists>t'. hash_put (unat (ph_capacity t)) ident v (hash_thread_id ident) t = Some t' \<and> table_ok c t' \<and> ph_capacity t' = ph_capacity t \<and>
    table_keys t' = insert ident (table_keys t) \<and> card (used_slots t') = card (used_slots t) + 1 \<and>
    (\<forall>k w. table_has t' k w \<longleftrightarrow> k = ident \<and> w = v \<or> table_has t k w)"
proof -
  note T = ok [unfolded table_ok_def]
  let ?p = "probe_pos c ident" and ?stop = "\<lambda>j. key_at t (probe_pos c ident j) = invalid_thread_id"
  obtain n where n: "n < 2 ^ c" "?p n \<notin> used_slots t" using free_slot_reached [OF ok, of ident] by blast
  have lt: "?p j < length (ph_entries t)" for j using T by (simp add: probe_pos_def)
  have "?stop n" using n(2) lt [of n] by (simp add: used_slots_def)
  then obtain j where j: "j \<le> n" "?stop j" "\<forall>i < j. \<not> ?stop i" by (rule least_stop)
  let ?q = "?p j" and ?e = "\<lparr>kvp_key = ident, kvp_value = v\<rparr>"
  let ?t = "t\<lparr>ph_entries := (ph_entries t)[?q := ?e]\<rparr>"
  have run: "hash_put (unat (ph_capacity t)) ident v (hash_thread_id ident) t = Some ?t"
    using hash_put_run [of t c j ident 0 "unat (ph_capacity t)" "hash_thread_id ident"] T j n(1) by (simp add: probe_pos_def)
  have q: "?q \<notin> used_slots t" using j(2) by (simp add: used_slots_def)
  have key: "key_at ?t q' = (if q' = ?q then ident else key_at t q')" for q' using lt by (auto simp: key_at_def nth_list_update)
  have used: "used_slots ?t = insert ?q (used_slots t)" using lt [of j] ident(1) by (auto simp: used_slots_def key)
  have card: "card (used_slots ?t) = card (used_slots t) + 1" using q unfolding used by simp
  have keys: "table_keys ?t = insert ident (table_keys t)"
    unfolding table_keys_def used using q by (auto simp: key)
  have inj: "inj_on (key_at ?t) (used_slots ?t)"
    unfolding used using T q ident(2) by (auto simp: inj_on_def key table_keys_def)
  have probe: "\<exists>i < 2 ^ c. q' = probe_pos c (key_at ?t q') i \<and> (\<forall>i' < i. probe_pos c (key_at ?t q') i' \<in> used_slots ?t)" if "q' \<in> used_slots ?t" for q'
  proof (cases "q' = ?q")
    case True
    have "?p i \<in> used_slots t" if "i < j" for i using j(3) that lt by (simp add: used_slots_def)
    then show ?thesis using True j(1) n(1) unfolding key used by (intro exI [of _ j]) auto
  next
    case False
    then have "q' \<in> used_slots t" using that used by blast
    then obtain i where i: "i < 2 ^ c" "q' = probe_pos c (key_at t q') i" "\<forall>i' < i. probe_pos c (key_at t q') i' \<in> used_slots t"
      using T by blast
    have k: "key_at ?t q' = key_at t q'" using False by (simp add: key)
    show ?thesis unfolding k used using i by (intro exI [of _ i]) blast
  qed
  have "table_ok c ?t" unfolding table_ok_def using T card room inj probe by simp
  moreover have "table_has ?t k w \<longleftrightarrow> k = ident \<and> w = v \<or> table_has t k w" for k w
    unfolding table_has_def used using q lt [of j] by (auto simp: nth_list_update)
  ultimately show ?thesis using run keys card by simp
qed

lemma new_table_ok: "c < 64 \<Longrightarrow> unat cap = 2 ^ c \<Longrightarrow> table_ok c (new_producer_hash cap) \<and> table_keys (new_producer_hash cap) = {} \<and> used_slots (new_producer_hash cap) = {}"
proof -
  assume a: "c < 64" "unat cap = 2 ^ c"
  have "used_slots (new_producer_hash cap) = {}" by (auto simp: used_slots_def new_producer_hash_def key_at_def)
  then show ?thesis using a by (simp add: table_ok_def table_keys_def new_producer_hash_def)
qed

lemma table_has_unique: "table_ok c t \<Longrightarrow> table_has t k v \<Longrightarrow> table_has t k w \<Longrightarrow> v = w"
proof -
  assume ok: "table_ok c t" and "table_has t k v" "table_has t k w"
  then obtain q q' where q: "q \<in> used_slots t" "ph_entries t ! q = \<lparr>kvp_key = k, kvp_value = v\<rparr>" "q' \<in> used_slots t" "ph_entries t ! q' = \<lparr>kvp_key = k, kvp_value = w\<rparr>"
    by (auto simp: table_has_def)
  then have "q = q'" using ok by (auto simp: table_ok_def inj_on_def key_at_def)
  then show "v = w" using q by simp
qed

text \<open>The capacity is doubled until it exceeds twice the count.\<close>

lemma grow_capacity_spec:
  assumes "unat cap = 2 ^ c" and "c \<le> 62" and "unat newCount < 2 ^ 61" and "63 \<le> fuel + c"
  shows "\<exists>cap' c'. grow_capacity fuel newCount cap = Some cap' \<and> unat cap' = 2 ^ c' \<and> c \<le> c' \<and> c' \<le> 62 \<and> 2 * unat newCount < 2 ^ c'"
  using assms
proof (induction fuel arbitrary: cap c)
  case 0
  then show ?case by simp
next
  case (Suc fuel)
  have half: "unat (drop_bit 1 cap) = 2 ^ c div 2" using Suc.prems(1) by (simp add: unat_drop_bit)
  show ?case
  proof (cases "newCount \<ge> drop_bit 1 cap")
    case False
    then have "unat newCount < 2 ^ c div 2" using half by (simp add: not_le word_less_nat_alt)
    then have "2 * unat newCount < 2 ^ c" by linarith
    then show ?thesis using False Suc.prems(1,2) by auto
  next
    case True
    then have le: "2 ^ c div 2 \<le> unat newCount" using half by (simp add: word_le_nat_alt)
    have "c \<noteq> 62"
    proof
      assume "c = 62"
      then show False using le Suc.prems(3) by simp
    qed
    then have c: "Suc c \<le> 62" using Suc.prems(2) by simp
    have "(2 :: nat) ^ Suc c < 2 ^ 64" using c by (intro power_strict_increasing) simp_all
    then have "unat (push_bit 1 cap) = 2 ^ Suc c" using Suc.prems(1) by (simp only: unat_push_bit) simp
    from Suc.IH [OF this c Suc.prems(3)] obtain cap' c' where
      "grow_capacity fuel newCount (push_bit 1 cap) = Some cap'" "unat cap' = 2 ^ c'" "Suc c \<le> c'" "c' \<le> 62" "2 * unat newCount < 2 ^ c'"
      using Suc.prems(4) by auto
    then show ?thesis using True by (intro exI [of _ cap'] exI [of _ c']) simp
  qed
qed

end
