(* ===== verification/MpmcQueue.thy ===== *)
theory MpmcQueue
  imports MpmcProducer MpmcHash
begin

text \<open>
  The multi-producer multi-consumer queue as the pipes use it: \<^verbatim>\<open>ConcurrentQueue\<close> of
  \<^verbatim>\<open>src/lib/concurrentqueue/concurrentqueue.h\<close> without tokens, one call after the other, from any number of
  threads. A thread that enqueues for the first time gets an implicit producer of its own, found through the hash
  tables; \<open>producerListTail\<close> is the list of producers reached through \<open>next\<close>, newest first.

  The lemmas relate a queue to one sequence of elements per thread.
\<close>

section \<open>Model\<close>

record 'a cqueue =
  producerListTail :: "nat list"
  cq_producers :: "imp_producer list"
  producerCount :: u32
  cq_pool :: "'a block_pool"
  implicitProducerHash :: "producer_hash list"
  implicitProducerHashCount :: u64
  implicitProducerHashResizeInProgress :: bool

text \<open>The constructor; \<open>as\<close> are the results of the calls of \<^verbatim>\<open>malloc\<close>.\<close>

definition ConcurrentQueue :: "u64 \<Rightarrow> bool list \<Rightarrow> 'a cqueue" where
  "ConcurrentQueue capacity as =
     \<lparr>producerListTail = [], cq_producers = [], producerCount = 0,
      cq_pool = populate_initial_block_list (capacity div BLOCK_SIZE + (if capacity AND (BLOCK_SIZE - 1) = 0 then 0 else 1)) as,
      implicitProducerHash = populate_initial_implicit_producer_hash, implicitProducerHashCount = 0,
      implicitProducerHashResizeInProgress = False\<rparr>"

definition main_hash :: "'a cqueue \<Rightarrow> producer_hash option" where
  "main_hash q = (case implicitProducerHash q of [] \<Rightarrow> None | t # _ \<Rightarrow> Some t)"

definition cq_malloc :: "'a cqueue \<Rightarrow> bool \<times> 'a cqueue" where
  "cq_malloc q = (let (ok, pool) = pool_malloc (cq_pool q) in (ok, q\<lparr>cq_pool := pool\<rparr>))"

text \<open>
  The part of \<^verbatim>\<open>get_or_add_implicit_producer\<close> that replaces the main table by a larger one; \<^verbatim>\<open>false\<close> where the
  allocation fails.
\<close>

definition resize_hash :: "u64 \<Rightarrow> 'a cqueue \<Rightarrow> (bool \<times> 'a cqueue) option" where
  "resize_hash newCount q =
     do {
       mainHash \<leftarrow> main_hash q;
       if newCount \<ge> drop_bit 1 (ph_capacity mainHash) \<and> \<not> implicitProducerHashResizeInProgress q
       then do {
         let q = q\<lparr>implicitProducerHashResizeInProgress := True\<rparr>;
         mainHash \<leftarrow> main_hash q;
         if newCount \<ge> drop_bit 1 (ph_capacity mainHash)
         then do {
           newCapacity \<leftarrow> grow_capacity 64 newCount (push_bit 1 (ph_capacity mainHash));
           let (ok, q) = cq_malloc q;
           if \<not> ok
           then Some (False, q\<lparr>implicitProducerHashCount := implicitProducerHashCount q - 1, implicitProducerHashResizeInProgress := False\<rparr>)
           else Some (True, q\<lparr>implicitProducerHash := new_producer_hash newCapacity # implicitProducerHash q,
                              implicitProducerHashResizeInProgress := False\<rparr>)
         }
         else Some (True, q\<lparr>implicitProducerHashResizeInProgress := False\<rparr>)
       }
       else Some (True, q)
     }"

definition add_producer :: "imp_producer \<Rightarrow> 'a cqueue \<Rightarrow> nat \<times> 'a cqueue" where
  "add_producer p q =
     (let i = length (cq_producers q)
      in (i, q\<lparr>cq_producers := cq_producers q @ [p], producerCount := producerCount q + 1, producerListTail := i # producerListTail q\<rparr>))"

definition recycle_or_create_producer :: "'a cqueue \<Rightarrow> (nat option \<times> bool \<times> 'a cqueue) option" where
  "recycle_or_create_producer q =
     (case find (\<lambda>i. inactive (cq_producers q ! i)) (producerListTail q) of
        Some i \<Rightarrow> Some (Some i, True, q\<lparr>cq_producers := (cq_producers q)[i := (cq_producers q ! i)\<lparr>inactive := False\<rparr>]\<rparr>)
      | None \<Rightarrow>
          (let (ok, q) = cq_malloc q
           in if \<not> ok then Some (None, False, q)
              else (let (ok, q) = cq_malloc q
                    in do {
                         p \<leftarrow> new_imp_producer ok;
                         let (i, q) = add_producer p q;
                         Some (Some i, False, q)
                       })))"

text \<open>Entering a key and a value into the main table.\<close>

definition put_main :: "u64 \<Rightarrow> u64 \<Rightarrow> nat option \<Rightarrow> 'a cqueue \<Rightarrow> 'a cqueue option" where
  "put_main ident hashedId v q =
     do {
       t \<leftarrow> main_hash q;
       t \<leftarrow> hash_put (unat (ph_capacity t)) ident v hashedId t;
       Some (q\<lparr>implicitProducerHash := t # tl (implicitProducerHash q)\<rparr>)
     }"

text \<open>The loop that inserts a thread; \<open>None\<close> when it does not end.\<close>

partial_function (option) insert_producer :: "u64 \<Rightarrow> u64 \<Rightarrow> u64 \<Rightarrow> 'a cqueue \<Rightarrow> (nat option \<times> 'a cqueue) option" where
  "insert_producer ident hashedId newCount q =
     do {
       r \<leftarrow> resize_hash newCount q;
       if \<not> fst r then Some (None, snd r)
       else do {
         mainHash \<leftarrow> main_hash (snd r);
         if newCount < drop_bit 1 (ph_capacity mainHash) + drop_bit 2 (ph_capacity mainHash)
         then do {
           s \<leftarrow> recycle_or_create_producer (snd r);
           (case s of
              (None, _, q) \<Rightarrow> Some (None, q\<lparr>implicitProducerHashCount := implicitProducerHashCount q - 1\<rparr>)
            | (Some i, recycled, q) \<Rightarrow> do {
                q \<leftarrow> put_main ident hashedId (Some i)
                  (if recycled then q\<lparr>implicitProducerHashCount := implicitProducerHashCount q - 1\<rparr> else q);
                Some (Some i, q)
              })
         }
         else insert_producer ident hashedId newCount (snd r)
       }
     }"

declare insert_producer.simps [code]

definition get_or_add_implicit_producer :: "u64 \<Rightarrow> 'a cqueue \<Rightarrow> (nat option \<times> 'a cqueue) option" where
  "get_or_add_implicit_producer ident q =
     do {
       let hashedId = hash_thread_id ident;
       r \<leftarrow> hash_search ident hashedId (implicitProducerHash q);
       case r of
         Some (value, depth) \<Rightarrow> do { q \<leftarrow> (if depth \<noteq> 0 then put_main ident hashedId value q else Some q); Some (value, q) }
       | None \<Rightarrow>
           (let newCount = 1 + implicitProducerHashCount q
            in insert_producer ident hashedId newCount (q\<lparr>implicitProducerHashCount := newCount\<rparr>))
     }"

definition cq_inner_enqueue :: "bool \<Rightarrow> u64 \<Rightarrow> 'a \<Rightarrow> 'a cqueue \<Rightarrow> (bool \<times> 'a cqueue) option" where
  "cq_inner_enqueue canAlloc ident x q =
     do {
       (producer, q) \<leftarrow> get_or_add_implicit_producer ident q;
       case producer of
         None \<Rightarrow> Some (False, q)
       | Some i \<Rightarrow> do {
           p \<leftarrow> nth_opt (cq_producers q) i;
           (r, p, pool) \<leftarrow> imp_enqueue canAlloc x (p, cq_pool q);
           Some (r, q\<lparr>cq_producers := (cq_producers q)[i := p], cq_pool := pool\<rparr>)
         }
     }"

definition cq_enqueue :: "u64 \<Rightarrow> 'a \<Rightarrow> 'a cqueue \<Rightarrow> (bool \<times> 'a cqueue) option" where
  "cq_enqueue ident x q = (if INITIAL_IMPLICIT_PRODUCER_HASH_SIZE = 0 then Some (False, q) else cq_inner_enqueue True ident x q)"

definition cq_try_enqueue :: "u64 \<Rightarrow> 'a \<Rightarrow> 'a cqueue \<Rightarrow> (bool \<times> 'a cqueue) option" where
  "cq_try_enqueue ident x q = (if INITIAL_IMPLICIT_PRODUCER_HASH_SIZE = 0 then Some (False, q) else cq_inner_enqueue False ident x q)"

definition cq_dequeue_from :: "nat \<Rightarrow> 'a cqueue \<Rightarrow> ('a option \<times> 'a cqueue) option" where
  "cq_dequeue_from i q =
     do {
       p \<leftarrow> nth_opt (cq_producers q) i;
       (x, p, pool) \<leftarrow> imp_dequeue (p, cq_pool q);
       Some (x, q\<lparr>cq_producers := (cq_producers q)[i := p], cq_pool := pool\<rparr>)
     }"

text \<open>The first loop of \<^verbatim>\<open>try_dequeue\<close>: the longest of the first three producers that are not empty.\<close>

fun pick_best :: "imp_producer list \<Rightarrow> nat list \<Rightarrow> nat \<Rightarrow> nat option \<Rightarrow> u64 \<Rightarrow> nat \<times> nat option" where
  "pick_best ps [] nonEmptyCount best bestSize = (nonEmptyCount, best)"
| "pick_best ps (i # ptrs) nonEmptyCount best bestSize =
     (if nonEmptyCount < 3
      then (let sz = prod_size_approx (ps ! i)
            in if sz > 0
               then (if sz > bestSize then pick_best ps ptrs (Suc nonEmptyCount) (Some i) sz
                     else pick_best ps ptrs (Suc nonEmptyCount) best bestSize)
               else pick_best ps ptrs nonEmptyCount best bestSize)
      else (nonEmptyCount, best))"

text \<open>The second loop tries every other producer.\<close>

fun try_others :: "nat \<Rightarrow> nat list \<Rightarrow> 'a cqueue \<Rightarrow> ('a option \<times> 'a cqueue) option" where
  "try_others best [] q = Some (None, q)"
| "try_others best (i # ptrs) q =
     (if i \<noteq> best
      then do { (x, q) \<leftarrow> cq_dequeue_from i q; case x of Some y \<Rightarrow> Some (Some y, q) | None \<Rightarrow> try_others best ptrs q }
      else try_others best ptrs q)"

definition cq_try_dequeue :: "'a cqueue \<Rightarrow> ('a option \<times> 'a cqueue) option" where
  "cq_try_dequeue q =
     (let (nonEmptyCount, best) = pick_best (cq_producers q) (producerListTail q) 0 None 0
      in if nonEmptyCount > 0
         then do {
           b \<leftarrow> best;
           (x, q) \<leftarrow> cq_dequeue_from b q;
           case x of Some y \<Rightarrow> Some (Some y, q) | None \<Rightarrow> try_others b (producerListTail q) q
         }
         else Some (None, q))"

definition cq_size_approx :: "'a cqueue \<Rightarrow> u64" where
  "cq_size_approx q = foldl (\<lambda>sz i. sz + prod_size_approx (cq_producers q ! i)) 0 (producerListTail q)"

section \<open>One queue per thread\<close>

text \<open>
  A producer whose block index could not be allocated by the constructor: it is empty, and enqueueing to it follows a
  null pointer.
\<close>

definition broken :: "imp_producer \<Rightarrow> bool" where
  "broken p \<longleftrightarrow> blockIndex p = [] \<and> bi_entries p = [] \<and> counters p 0 0"

definition prod_state :: "imp_producer \<Rightarrow> 'a cq_block list \<Rightarrow> nat \<Rightarrow> 'a list \<Rightarrow> nat list \<Rightarrow> bool" where
  "prod_state p blks h xs bs \<longleftrightarrow> prod_rel p blks h xs bs \<or> broken p \<and> h = 0 \<and> xs = [] \<and> bs = []"

text \<open>Thread \<open>owners ! i\<close> has producer \<open>i\<close>; every table maps only to the right producers.\<close>

definition hash_rel :: "producer_hash list \<Rightarrow> u64 list \<Rightarrow> bool" where
  "hash_rel ts owners \<longleftrightarrow> distinct owners \<and> invalid_thread_id \<notin> set owners \<and> ts \<noteq> [] \<and>
     (\<forall>t \<in> set ts. \<exists>c \<le> 62. table_ok c t) \<and>
     (\<forall>t \<in> set ts. \<forall>k v. table_has t k v \<longrightarrow> (\<exists>i < length owners. owners ! i = k \<and> v = Some i)) \<and>
     (\<forall>k \<in> set owners. \<exists>t \<in> set ts. k \<in> table_keys t) \<and>
     2 * length owners < unat (ph_capacity (hd ts))"

definition queue_rel :: "'a cqueue \<Rightarrow> u64 list \<Rightarrow> (nat \<Rightarrow> nat) \<Rightarrow> (nat \<Rightarrow> 'a list) \<Rightarrow> (nat \<Rightarrow> nat list) \<Rightarrow> bool" where
  "queue_rel q owners H X B \<longleftrightarrow>
     length (cq_producers q) = length owners \<and> producerListTail q = rev [0..<length owners] \<and>
     (\<forall>i < length owners. \<not> inactive (cq_producers q ! i) \<and> prod_state (cq_producers q ! i) (cq_blocks (cq_pool q)) (H i) (X i) (B i)) \<and>
     (\<forall>i < length owners. \<forall>j < length owners. i \<noteq> j \<longrightarrow> set (B i) \<inter> set (B j) = {}) \<and>
     pool_inv (cq_pool q) (\<Union>i < length owners. set (B i)) \<and>
     hash_rel (implicitProducerHash q) owners \<and> implicitProducerHashCount q = word_of_nat (length owners) \<and>
     \<not> implicitProducerHashResizeInProgress q \<and> length owners < 2 ^ 60"


section \<open>Finding a thread's producer\<close>

lemma hash_search_spec:
  assumes "\<forall>t \<in> set ts. \<exists>c. table_ok c t" and "ident \<noteq> invalid_thread_id"
  shows "\<exists>r. hash_search ident (hash_thread_id ident) ts = Some r \<and>
    (case r of None \<Rightarrow> \<forall>t \<in> set ts. ident \<notin> table_keys t
     | Some (v, d) \<Rightarrow> d < length ts \<and> table_has (ts ! d) ident v \<and> (\<forall>d' < d. ident \<notin> table_keys (ts ! d')))"
  using assms(1)
proof (induction ts)
  case (Cons t ts)
  obtain c where "table_ok c t" using Cons.prems by auto
  from hash_find_spec [OF this assms(2)] obtain f where f: "hash_find (unat (ph_capacity t)) ident (hash_thread_id ident) t = Some f"
    "case f of None \<Rightarrow> ident \<notin> table_keys t | Some i \<Rightarrow> i < length (ph_entries t) \<and> table_has t ident (kvp_value (ph_entries t ! i))" by blast
  obtain r where r: "hash_search ident (hash_thread_id ident) ts = Some r"
    "case r of None \<Rightarrow> \<forall>t \<in> set ts. ident \<notin> table_keys t
     | Some (v, d) \<Rightarrow> d < length ts \<and> table_has (ts ! d) ident v \<and> (\<forall>d' < d. ident \<notin> table_keys (ts ! d'))"
    using Cons by auto
  show ?case
  proof (cases f)
    case (Some i)
    then show ?thesis using f by simp
  next
    case None
    have "ident \<notin> table_keys ((t # ts) ! d')" if "d' < Suc d" "\<forall>d' < d. ident \<notin> table_keys (ts ! d')" for d d'
      using that f None by (cases d') auto
    then show ?thesis using f r None by (auto split: option.splits)
  qed
qed simp

lemma hash_rel_search:
  assumes rel: "hash_rel ts owners" and ident: "ident \<noteq> invalid_thread_id"
  shows "i < length owners \<Longrightarrow> owners ! i = ident \<Longrightarrow>
      \<exists>d. hash_search ident (hash_thread_id ident) ts = Some (Some (Some i, d)) \<and> (d \<noteq> 0 \<longrightarrow> ident \<notin> table_keys (hd ts))"
    and "ident \<notin> set owners \<Longrightarrow> hash_search ident (hash_thread_id ident) ts = Some None"
proof -
  note R = rel [unfolded hash_rel_def]
  have "\<forall>t \<in> set ts. \<exists>c. table_ok c t" using R by blast
  from hash_search_spec [OF this ident] obtain r where r: "hash_search ident (hash_thread_id ident) ts = Some r"
    "case r of None \<Rightarrow> \<forall>t \<in> set ts. ident \<notin> table_keys t
     | Some (v, d) \<Rightarrow> d < length ts \<and> table_has (ts ! d) ident v \<and> (\<forall>d' < d. ident \<notin> table_keys (ts ! d'))" by blast
  show "\<exists>d. hash_search ident (hash_thread_id ident) ts = Some (Some (Some i, d)) \<and> (d \<noteq> 0 \<longrightarrow> ident \<notin> table_keys (hd ts))"
    if i: "i < length owners" "owners ! i = ident"
  proof (cases r)
    case None
    then show ?thesis using r R i by (auto dest: nth_mem)
  next
    case (Some vd)
    then obtain v d where vd: "vd = (v, d)" by (cases vd)
    then have d: "d < length ts" "table_has (ts ! d) ident v" "\<forall>d' < d. ident \<notin> table_keys (ts ! d')" using r Some by auto
    then obtain j where "j < length owners" "owners ! j = ident" "v = Some j" using R nth_mem by blast
    then have "v = Some i" using R i by (metis nth_eq_iff_index_eq)
    moreover have "d \<noteq> 0 \<Longrightarrow> ident \<notin> table_keys (hd ts)" using d(1,3) by (cases ts) auto
    ultimately show ?thesis using r Some vd by auto
  qed
  show "hash_search ident (hash_thread_id ident) ts = Some None" if "ident \<notin> set owners"
  proof (cases r)
    case (Some vd)
    then obtain v d where "d < length ts" "table_has (ts ! d) ident v" using r by (cases vd) auto
    then obtain j where "j < length owners" "owners ! j = ident" using R nth_mem by blast
    then show ?thesis using that nth_mem by blast
  qed (use r in simp)
qed

text \<open>The main table has at most one slot in use for each thread.\<close>

lemma main_keys:
  assumes "hash_rel ts owners"
  shows "table_keys (hd ts) \<subseteq> set owners"
proof
  note R = assms [unfolded hash_rel_def]
  have hd: "hd ts \<in> set ts" using R by auto
  fix k assume "k \<in> table_keys (hd ts)"
  then obtain v where "table_has (hd ts) k v" using table_keys_has by blast
  then obtain i where "i < length owners" "owners ! i = k" using R hd by blast
  then show "k \<in> set owners" by auto
qed

lemma main_used:
  assumes "hash_rel ts owners" and "ident \<notin> table_keys (hd ts)"
  shows "card (used_slots (hd ts)) \<le> length owners" and "ident \<in> set owners \<Longrightarrow> card (used_slots (hd ts)) < length owners"
proof -
  note R = assms(1) [unfolded hash_rel_def]
  have hd: "hd ts \<in> set ts" using R by auto
  then obtain c where "table_ok c (hd ts)" using R by blast
  then have card: "card (used_slots (hd ts)) = card (table_keys (hd ts))" unfolding table_keys_def by (simp add: table_ok_def card_image)
  note sub = main_keys [OF assms(1)]
  have set: "card (set owners) = length owners" using R by (simp add: distinct_card)
  show "card (used_slots (hd ts)) \<le> length owners" using card_mono [OF _ sub] card set by simp
  show "card (used_slots (hd ts)) < length owners" if "ident \<in> set owners"
    using psubset_card_mono [of "set owners" "table_keys (hd ts)"] sub that assms(2) card set by auto
qed

lemma hash_rel_put:
  assumes rel: "hash_rel ts owners" and ident: "ident \<noteq> invalid_thread_id" "ident \<notin> table_keys (hd ts)"
    and own: "if ident \<in> set owners then i < length owners \<and> owners ! i = ident \<and> owners' = owners
              else i = length owners \<and> owners' = owners @ [ident] \<and> 2 * Suc (length owners) < unat (ph_capacity (hd ts))"
  shows "\<exists>t'. hash_put (unat (ph_capacity (hd ts))) ident (Some i) (hash_thread_id ident) (hd ts) = Some t' \<and> hash_rel (t' # tl ts) owners'"
proof -
  note R = rel [unfolded hash_rel_def]
  have hd: "hd ts \<in> set ts" "ts = hd ts # tl ts" using R by auto
  obtain c where c: "table_ok c (hd ts)" "c \<le> 62" using R hd by blast
  have cap: "unat (ph_capacity (hd ts)) = 2 ^ c" using c(1) by (simp add: table_ok_def)
  have "card (used_slots (hd ts)) + 1 < 2 ^ c"
    using main_used [OF rel ident(2)] own R cap by (cases "ident \<in> set owners") auto
  from hash_put_spec [OF c(1) ident this, of "Some i"] obtain t' where t': "hash_put (unat (ph_capacity (hd ts))) ident (Some i) (hash_thread_id ident) (hd ts) = Some t'"
    "table_ok c t'" "ph_capacity t' = ph_capacity (hd ts)" "table_keys t' = insert ident (table_keys (hd ts))"
    "\<forall>k w. table_has t' k w \<longleftrightarrow> k = ident \<and> w = Some i \<or> table_has (hd ts) k w" by blast
  have tl: "t \<in> set (tl ts) \<Longrightarrow> t \<in> set ts" for t using hd(2) by (metis list.set_intros(2))
  have owners': "distinct owners'" "invalid_thread_id \<notin> set owners'" "set owners' = insert ident (set owners)" "i < length owners'" "owners' ! i = ident"
    "2 * length owners' < unat (ph_capacity t')" "length owners \<le> length owners'" "\<forall>j < length owners. owners' ! j = owners ! j"
    using own R ident(1) t'(3) by (auto split: if_splits simp: nth_append)
  have has: "\<exists>j < length owners'. owners' ! j = k \<and> v = Some j" if "table_has t k v" "t \<in> set (t' # tl ts)" for t k v
  proof (cases "t \<in> set ts \<or> k \<noteq> ident \<or> v \<noteq> Some i")
    case True
    then have "\<exists>t \<in> set ts. table_has t k v" using that t'(5) hd(1) tl by auto
    then obtain j where "j < length owners" "owners ! j = k" "v = Some j" using R by blast
    then show ?thesis using owners'(7,8) by auto
  next
    case False
    then show ?thesis using owners'(4,5) by blast
  qed
  have keys: "\<exists>t \<in> set (t' # tl ts). k \<in> table_keys t" if "k \<in> set owners'" for k
  proof (cases "k = ident")
    case False
    then have "k \<in> set owners" using that owners'(3) by blast
    then obtain t where "t \<in> set ts" "k \<in> table_keys t" using R by blast
    then show ?thesis using hd(2) t'(4) by (metis insertCI list.set_intros set_ConsD)
  qed (use t'(4) in auto)
  have oks: "\<exists>c \<le> 62. table_ok c t" if "t \<in> set (t' # tl ts)" for t using that t'(2) c(2) R tl by auto
  have "hash_rel (t' # tl ts) owners'"
    unfolding hash_rel_def using owners'(1,2,6) has keys oks by auto
  then show ?thesis using t'(1) by blast
qed


lemma hash_rel_grow:
  assumes "hash_rel ts owners" and "unat cap = 2 ^ c" and "c \<le> 62" and "2 * length owners < 2 ^ c"
  shows "hash_rel (new_producer_hash cap # ts) owners"
proof -
  have n: "table_ok c (new_producer_hash cap)" "table_keys (new_producer_hash cap) = {}" using new_table_ok [of c cap] assms(2,3) by auto
  then have "\<not> table_has (new_producer_hash cap) k v" for k v using table_has_key by blast
  moreover have "ph_capacity (new_producer_hash cap) = cap" by (simp add: new_producer_hash_def)
  ultimately show ?thesis using assms n unfolding hash_rel_def by auto
qed

lemma main_hash_rel: "hash_rel (implicitProducerHash q) owners \<Longrightarrow> main_hash q = Some (hd (implicitProducerHash q))"
  by (cases "implicitProducerHash q") (simp_all add: hash_rel_def main_hash_def)

lemma cq_malloc_simps [simp]:
  "cq_producers (snd (cq_malloc q)) = cq_producers q" "producerListTail (snd (cq_malloc q)) = producerListTail q"
  "implicitProducerHash (snd (cq_malloc q)) = implicitProducerHash q" "implicitProducerHashCount (snd (cq_malloc q)) = implicitProducerHashCount q"
  "implicitProducerHashResizeInProgress (snd (cq_malloc q)) = implicitProducerHashResizeInProgress q"
  "cq_pool (snd (cq_malloc q)) = snd (pool_malloc (cq_pool q))" "fst (cq_malloc q) = fst (pool_malloc (cq_pool q))"
  by (simp_all add: cq_malloc_def split_beta Let_def)

text \<open>The new table is large enough for one thread more, or there is no memory for it.\<close>

lemma resize_hash_spec:
  assumes rel: "hash_rel (implicitProducerHash q) owners" and fl: "\<not> implicitProducerHashResizeInProgress q" and len: "Suc (length owners) < 2 ^ 61"
    and cnt: "newCount = word_of_nat (Suc (length owners))"
  shows "\<exists>r q'. resize_hash newCount q = Some (r, q') \<and> \<not> implicitProducerHashResizeInProgress q' \<and>
    cq_producers q' = cq_producers q \<and> producerListTail q' = producerListTail q \<and>
    (cq_pool q' = cq_pool q \<or> cq_pool q' = snd (pool_malloc (cq_pool q))) \<and> hash_rel (implicitProducerHash q') owners \<and>
    implicitProducerHashCount q' = (if r then implicitProducerHashCount q else implicitProducerHashCount q - 1) \<and>
    (if r then 2 * Suc (length owners) < unat (ph_capacity (hd (implicitProducerHash q'))) else answers (cq_pool q) \<noteq> [] \<and> \<not> hd (answers (cq_pool q)))"
proof -
  let ?t = "hd (implicitProducerHash q)"
  note R = rel [unfolded hash_rel_def]
  have mh: "main_hash q = Some ?t" by (rule main_hash_rel [OF rel])
  obtain c where c: "table_ok c ?t" "c \<le> 62" using R by (metis list.set_sel(1))
  have cap: "unat (ph_capacity ?t) = 2 ^ c" using c(1) by (simp add: table_ok_def)
  have n: "unat newCount = Suc (length owners)" using cnt len by (simp add: unat_word_of_nat del: of_nat_Suc)
  have half: "unat (drop_bit 1 (ph_capacity ?t)) = 2 ^ c div 2" using cap by (simp add: unat_drop_bit)
  show ?thesis
  proof (cases "newCount \<ge> drop_bit 1 (ph_capacity ?t)")
    case False
    then have "Suc (length owners) < 2 ^ c div 2" using half n by (simp add: not_le word_less_nat_alt)
    then have "2 * Suc (length owners) < 2 ^ c" by (rule less_le_trans [OF mult_less_mono2 times_div_less_eq_dividend]) simp
    moreover have "resize_hash newCount q = Some (True, q)" using mh False by (simp add: resize_hash_def)
    ultimately show ?thesis using rel fl cap by auto
  next
    case True
    then have le: "2 ^ c div 2 \<le> Suc (length owners)" using half n by (simp add: word_le_nat_alt)
    have "c \<noteq> 62"
    proof
      assume "c = 62"
      then show False using le len by simp
    qed
    then have c62: "Suc c \<le> 62" using c(2) by simp
    have "(2 :: nat) ^ Suc c < 2 ^ 64" using c62 by (intro power_strict_increasing) simp_all
    then have "unat (push_bit 1 (ph_capacity ?t)) = 2 ^ Suc c" using cap by (simp only: unat_push_bit) simp
    from grow_capacity_spec [OF this c62, of newCount 64] obtain cap' c' where
      g: "grow_capacity 64 newCount (push_bit 1 (ph_capacity ?t)) = Some cap'" "unat cap' = 2 ^ c'" "c' \<le> 62" "2 * Suc (length owners) < 2 ^ c'"
      using n len by auto
    define q1 where "q1 = q\<lparr>implicitProducerHashResizeInProgress := True\<rparr>"
    have mh1: "main_hash q1 = Some ?t" using mh by (simp add: q1_def main_hash_def)
    have res: "resize_hash newCount q = (let (ok, q) = cq_malloc q1 in
        if \<not> ok then Some (False, q\<lparr>implicitProducerHashCount := implicitProducerHashCount q - 1, implicitProducerHashResizeInProgress := False\<rparr>)
        else Some (True, q\<lparr>implicitProducerHash := new_producer_hash cap' # implicitProducerHash q, implicitProducerHashResizeInProgress := False\<rparr>))"
      using mh mh1 True fl g(1) by (simp add: resize_hash_def Let_def q1_def)
    have hr: "hash_rel (new_producer_hash cap' # implicitProducerHash q) owners"
      using hash_rel_grow [OF rel g(2,3)] g(4) by simp
    have c1: "ph_capacity (new_producer_hash cap') = cap'" by (simp add: new_producer_hash_def)
    have q1: "cq_pool q1 = cq_pool q" "cq_producers q1 = cq_producers q" "producerListTail q1 = producerListTail q"
      "implicitProducerHash q1 = implicitProducerHash q" "implicitProducerHashCount q1 = implicitProducerHashCount q" by (simp_all add: q1_def)
    have fail: "\<not> fst (pool_malloc (cq_pool q)) \<Longrightarrow> answers (cq_pool q) \<noteq> [] \<and> \<not> hd (answers (cq_pool q))"
      by (auto simp: pool_malloc_def split: list.splits)
    show ?thesis
      by (cases "fst (pool_malloc (cq_pool q))") (use res hr rel g c1 fail in \<open>simp_all add: split_beta Let_def q1 ex_bool_eq\<close>)
  qed
qed

section \<open>The relation is kept\<close>

lemma UN_upd: "i < n \<Longrightarrow> (\<Union>j < n. set ((B(i := bs)) j)) = set bs \<union> (\<Union>j \<in> {..<n} - {i}. set (B j))"
  by (auto split: if_splits)

lemma UN_split: "i < n \<Longrightarrow> (\<Union>j < n. set (B j)) = set (B i) \<union> (\<Union>j \<in> {..<n} - {i}. set (B j))" for i n :: nat
  by blast

lemma UN_upd_add: "i < n \<Longrightarrow> set (B i) \<subseteq> set bs \<Longrightarrow> (\<Union>j < n. set (B j)) \<union> set bs = (\<Union>j < n. set ((B(i := bs)) j))" for i n :: nat
  unfolding UN_upd UN_split by blast

lemma UN_upd_remove:
  "i < n \<Longrightarrow> set bs \<subseteq> set (B i) \<Longrightarrow> (\<And>j b. j < n \<Longrightarrow> j \<noteq> i \<Longrightarrow> b \<in> set (B j) \<Longrightarrow> b \<notin> set (B i)) \<Longrightarrow>
   (\<Union>j < n. set (B j)) - (set (B i) - set bs) = (\<Union>j < n. set ((B(i := bs)) j))" for i n :: nat
  unfolding UN_upd UN_split by blast

lemma ConcurrentQueue_rel: "queue_rel (ConcurrentQueue capacity as) [] H X B"
proof -
  have "table_ok 5 (new_producer_hash INITIAL_IMPLICIT_PRODUCER_HASH_SIZE)" "table_keys (new_producer_hash INITIAL_IMPLICIT_PRODUCER_HASH_SIZE) = {}"
    using new_table_ok [of 5 INITIAL_IMPLICIT_PRODUCER_HASH_SIZE] by (simp_all add: INITIAL_IMPLICIT_PRODUCER_HASH_SIZE_def)
  moreover from this have "\<not> table_has (new_producer_hash INITIAL_IMPLICIT_PRODUCER_HASH_SIZE) k v" for k v using table_has_key by blast
  ultimately have "hash_rel populate_initial_implicit_producer_hash []"
    by (auto simp: hash_rel_def populate_initial_implicit_producer_hash_def new_producer_hash_def INITIAL_IMPLICIT_PRODUCER_HASH_SIZE_def intro!: exI [of _ 5])
  then show ?thesis by (simp add: queue_rel_def ConcurrentQueue_def populate_inv)
qed

lemma queue_rel_cong:
  assumes "queue_rel q owners H X B" and "\<And>i. i < length owners \<Longrightarrow> H i = H' i \<and> X i = X' i \<and> B i = B' i"
  shows "queue_rel q owners H' X' B'"
  using assms unfolding queue_rel_def by simp

lemma prod_state_frame:
  assumes "prod_state p blks h xs bs" and "\<forall>b \<in> set bs. b < length blks' \<and> blks' ! b = blks ! b"
  shows "prod_state p blks' h xs bs"
  using assms prod_rel_frame unfolding prod_state_def by blast

text \<open>Work on one producer and the pool leaves the other producers alone.\<close>

lemma queue_rel_upd:
  assumes rel: "queue_rel q owners H X B" and i: "i < length owners" and p: "\<not> inactive p'" "prod_state p' (cq_blocks pool') h xs bs"
    and frame: "\<forall>j < length owners. j \<noteq> i \<longrightarrow> (\<forall>b \<in> set (B j). b \<notin> set bs \<and> b < length (cq_blocks pool') \<and> cq_blocks pool' ! b = cq_blocks (cq_pool q) ! b)"
    and inv: "pool_inv pool' (\<Union>j < length owners. set ((B(i := bs)) j))"
  shows "queue_rel (q\<lparr>cq_producers := (cq_producers q)[i := p'], cq_pool := pool'\<rparr>) owners (H(i := h)) (X(i := xs)) (B(i := bs))"
proof -
  note R = rel [unfolded queue_rel_def]
  have st: "prod_state (cq_producers q ! j) (cq_blocks pool') (H j) (X j) (B j)" if "j < length owners" "j \<noteq> i" for j
  proof (rule prod_state_frame)
    show "prod_state (cq_producers q ! j) (cq_blocks (cq_pool q)) (H j) (X j) (B j)" using R that(1) by simp
    show "\<forall>b \<in> set (B j). b < length (cq_blocks pool') \<and> cq_blocks pool' ! b = cq_blocks (cq_pool q) ! b" using frame that by simp
  qed
  have "\<not> inactive ((cq_producers q)[i := p'] ! j) \<and> prod_state ((cq_producers q)[i := p'] ! j) (cq_blocks pool') ((H(i := h)) j) ((X(i := xs)) j) ((B(i := bs)) j)"
    if "j < length owners" for j
    using that R p st by (cases "j = i") auto
  moreover have "set ((B(i := bs)) j) \<inter> set ((B(i := bs)) k) = {}" if "j < length owners" "k < length owners" "j \<noteq> k" for j k
  proof (cases "j = i \<or> k = i")
    case True
    then show ?thesis using that frame by auto
  next
    case False
    then show ?thesis using that R by auto
  qed
  ultimately show ?thesis using R inv unfolding queue_rel_def by simp
qed

text \<open>A thread that has a producer gets it; the main table then knows the thread.\<close>

lemma get_or_add_known:
  assumes rel: "queue_rel q owners H X B" and ident: "ident \<noteq> invalid_thread_id" and i: "i < length owners" "owners ! i = ident"
  shows "\<exists>q'. get_or_add_implicit_producer ident q = Some (Some i, q') \<and> queue_rel q' owners H X B \<and> cq_pool q' = cq_pool q \<and> cq_producers q' = cq_producers q"
proof -
  note R = rel [unfolded queue_rel_def]
  have hr: "hash_rel (implicitProducerHash q) owners" using R by blast
  obtain d where d: "hash_search ident (hash_thread_id ident) (implicitProducerHash q) = Some (Some (Some i, d))"
    "d \<noteq> 0 \<longrightarrow> ident \<notin> table_keys (hd (implicitProducerHash q))" using hash_rel_search(1) [OF hr ident i] by blast
  show ?thesis
  proof (cases "d = 0")
    case True
    then show ?thesis using d rel by (simp add: get_or_add_implicit_producer_def)
  next
    case False
    then have nk: "ident \<notin> table_keys (hd (implicitProducerHash q))" using d by simp
    have "ident \<in> set owners" using i by auto
    then obtain t' where t': "hash_put (unat (ph_capacity (hd (implicitProducerHash q)))) ident (Some i) (hash_thread_id ident) (hd (implicitProducerHash q)) = Some t'"
      "hash_rel (t' # tl (implicitProducerHash q)) owners" using hash_rel_put [OF hr ident nk, of i owners] i by auto
    define q' where "q' = q\<lparr>implicitProducerHash := t' # tl (implicitProducerHash q)\<rparr>"
    have "put_main ident (hash_thread_id ident) (Some i) q = Some q'" using main_hash_rel [OF hr] t'(1) by (simp add: put_main_def q'_def)
    moreover have "queue_rel q' owners H X B" using R t'(2) by (simp add: queue_rel_def q'_def)
    ultimately show ?thesis using d(1) False by (simp add: get_or_add_implicit_producer_def q'_def)
  qed
qed

lemma new_imp_producer_state:
  "\<exists>p. new_imp_producer ok = Some p \<and> \<not> inactive p \<and> prod_state p blks 0 [] [] \<and> (ok \<longrightarrow> prod_rel p blks 0 [] [])"
proof (cases ok)
  case True
  then show ?thesis using new_imp_producer_rel [of blks] by (auto simp: prod_state_def)
next
  case False
  then show ?thesis
    by (auto simp: new_imp_producer_def new_block_index_def prod_state_def broken_def counters_def current_index_def)
qed

lemma queue_rel_add:
  assumes rel: "queue_rel q owners H X B" and p: "\<not> inactive p" "prod_state p (cq_blocks (cq_pool q)) 0 [] []"
    and room: "Suc (length owners) < 2 ^ 60" and hr: "hash_rel (implicitProducerHash q') (owners @ [ident])"
    and q': "cq_producers q' = cq_producers q @ [p]" "producerListTail q' = length owners # producerListTail q"
      "cq_blocks (cq_pool q') = cq_blocks (cq_pool q)" "\<And>used. pool_inv (cq_pool q') used \<longleftrightarrow> pool_inv (cq_pool q) used"
      "implicitProducerHashCount q' = word_of_nat (Suc (length owners))" "\<not> implicitProducerHashResizeInProgress q'"
  shows "queue_rel q' (owners @ [ident]) (H(length owners := 0)) (X(length owners := [])) (B(length owners := []))"
proof -
  let ?n = "length owners"
  note R = rel [unfolded queue_rel_def]
  have st: "\<not> inactive (cq_producers q' ! i) \<and>
      prod_state (cq_producers q' ! i) (cq_blocks (cq_pool q')) ((H(?n := 0)) i) ((X(?n := [])) i) ((B(?n := [])) i)" if "i < Suc ?n" for i
    using that R p by (cases "i = ?n") (auto simp: q'(1,3) nth_append)
  have dj: "set ((B(?n := [])) i) \<inter> set ((B(?n := [])) j) = {}" if "i < Suc ?n" "j < Suc ?n" "i \<noteq> j" for i j
    using that R by (cases "i = ?n \<or> j = ?n") auto
  have "(\<Union>i < Suc ?n. set ((B(?n := [])) i)) = (\<Union>i < ?n. set (B i))" by (force simp: less_Suc_eq)
  then have inv: "pool_inv (cq_pool q') (\<Union>i < Suc ?n. set ((B(?n := [])) i))" using R q'(4) by simp
  show ?thesis using R st dj inv hr room q'(1,2,5,6) unfolding queue_rel_def by simp
qed

lemma three_quarters:
  assumes "2 * n < unat (cap :: u64)" and "unat cap = 2 ^ c" and "0 < n"
  shows "word_of_nat n < drop_bit 1 cap + drop_bit 2 cap"
proof -
  have "c \<noteq> 0" "c \<noteq> 1" using assms by (auto intro: gr0I)
  then obtain e where e: "c = Suc (Suc e)" by (metis One_nat_def not0_implies_Suc)
  have cap: "unat cap = 4 * 2 ^ e" using assms(2) e by simp
  have "unat (drop_bit 1 cap) = 2 * 2 ^ e" "unat (drop_bit 2 cap) = 2 ^ e" using cap by (simp_all add: unat_drop_bit)
  moreover have "3 * 2 ^ e < (2 :: nat) ^ 64" using cap unat_bound_u64 [of cap] by simp
  ultimately have "unat (drop_bit 1 cap + drop_bit 2 cap) = 3 * 2 ^ e" by (simp add: unat_add_u64)
  moreover have "n < 3 * 2 ^ e" using assms(1) cap by simp
  moreover have "n < 2 ^ 64" using assms(1) unat_bound_u64 [of cap] by simp
  then have "unat (word_of_nat n :: u64) = n" by (simp add: unat_word_of_nat)
  ultimately show ?thesis by (simp add: word_less_nat_alt)
qed

lemma prod_rel_not_broken: "prod_rel p blks h xs bs \<Longrightarrow> \<not> broken p"
  by (auto simp: prod_rel_def index_rel_def ring_at_def ring_hdr_def current_index_def broken_def)

lemma no_inactive:
  assumes "queue_rel q owners H X B"
  shows "find (\<lambda>i. inactive (cq_producers q ! i)) (producerListTail q) = None"
  using assms by (auto simp: queue_rel_def find_None_iff)

lemma queue_rel_pool:
  assumes "queue_rel q owners H X B" and "cq_producers q' = cq_producers q" "producerListTail q' = producerListTail q"
    and "cq_pool q' = cq_pool q \<or> cq_pool q' = snd (pool_malloc (cq_pool q))" and "hash_rel (implicitProducerHash q') owners"
    and "implicitProducerHashCount q' = word_of_nat (length owners)" "\<not> implicitProducerHashResizeInProgress q'"
  shows "queue_rel q' owners H X B"
proof -
  have "cq_blocks (cq_pool q') = cq_blocks (cq_pool q)" "pool_inv (cq_pool q') used \<longleftrightarrow> pool_inv (cq_pool q) used" for used using assms(4) by auto
  then show ?thesis using assms unfolding queue_rel_def by simp
qed

text \<open>The producer for a thread that has none, once the main table is large enough.\<close>

lemma create_producer:
  assumes rel: "queue_rel (q\<lparr>implicitProducerHashCount := word_of_nat (length owners)\<rparr>) owners H X B"
    and cnt: "implicitProducerHashCount q = word_of_nat (Suc (length owners))" and room: "Suc (length owners) < 2 ^ 60"
    and cap: "2 * Suc (length owners) < unat (ph_capacity (hd (implicitProducerHash q)))"
    and ident: "ident \<noteq> invalid_thread_id" "ident \<notin> set owners"
  shows "\<exists>r b q'. recycle_or_create_producer q = Some (r, b, q') \<and>
    (case r of
       None \<Rightarrow> queue_rel (q'\<lparr>implicitProducerHashCount := implicitProducerHashCount q' - 1\<rparr>) owners H X B \<and> cq_producers q' = cq_producers q \<and> answers (cq_pool q) \<noteq> []
     | Some i \<Rightarrow> \<not> b \<and> i = length owners \<and> (\<exists>q''. put_main ident (hash_thread_id ident) (Some i) q' = Some q'' \<and>
         queue_rel q'' (owners @ [ident]) (H(i := 0)) (X(i := [])) (B(i := [])) \<and>
         (\<exists>p ok. new_imp_producer ok = Some p \<and> cq_producers q'' = cq_producers q @ [p] \<and> (answers (cq_pool q) = [] \<longrightarrow> answers (cq_pool q'') = [] \<and> \<not> broken p))))"
proof -
  let ?q0 = "q\<lparr>implicitProducerHashCount := word_of_nat (length owners)\<rparr>"
  define q1 where "q1 = snd (cq_malloc q)"
  define q2 where "q2 = snd (cq_malloc q1)"
  note R = rel [unfolded queue_rel_def, simplified]
  have hr: "hash_rel (implicitProducerHash q) owners" using R by blast
  have nf: "find (\<lambda>i. inactive (cq_producers q ! i)) (producerListTail q) = None" using no_inactive [OF rel] by simp
  have cnt': "implicitProducerHashCount q - 1 = word_of_nat (length owners)" using cnt by simp
  show ?thesis
  proof (cases "fst (cq_malloc q)")
    case False
    then have "recycle_or_create_producer q = Some (None, False, q1)"
      using nf by (simp add: recycle_or_create_producer_def split_beta Let_def q1_def)
    moreover have "queue_rel (q1\<lparr>implicitProducerHashCount := implicitProducerHashCount q1 - 1\<rparr>) owners H X B"
      by (rule queue_rel_pool [OF rel]) (use R cnt' in \<open>simp_all add: q1_def\<close>)
    moreover have "answers (cq_pool q) \<noteq> []" using False by (auto simp: pool_malloc_def)
    moreover have "cq_producers q1 = cq_producers q" by (simp add: q1_def)
    ultimately show ?thesis by auto
  next
    case True
    obtain p where p: "new_imp_producer (fst (cq_malloc q1)) = Some p" "\<not> inactive p" "prod_state p (cq_blocks (cq_pool q)) 0 [] []"
      "fst (cq_malloc q1) \<longrightarrow> prod_rel p (cq_blocks (cq_pool q)) 0 [] []" using new_imp_producer_state by blast
    let ?n = "length owners"
    define q3 where "q3 = q2\<lparr>cq_producers := cq_producers q @ [p], producerCount := producerCount q2 + 1, producerListTail := ?n # producerListTail q\<rparr>"
    have len: "length (cq_producers q) = ?n" using R by blast
    have r: "recycle_or_create_producer q = Some (Some ?n, False, q3)"
      using nf True p(1) len by (simp add: recycle_or_create_producer_def split_beta Let_def add_producer_def q1_def q2_def q3_def)
    have h3: "implicitProducerHash q3 = implicitProducerHash q" by (simp add: q1_def q2_def q3_def)
    have "table_keys (hd (implicitProducerHash q)) \<subseteq> set owners" by (rule main_keys [OF hr])
    then have nk: "ident \<notin> table_keys (hd (implicitProducerHash q))" using ident(2) by blast
    obtain t where t: "hash_put (unat (ph_capacity (hd (implicitProducerHash q)))) ident (Some ?n) (hash_thread_id ident) (hd (implicitProducerHash q)) = Some t"
      "hash_rel (t # tl (implicitProducerHash q)) (owners @ [ident])" using hash_rel_put [OF hr ident(1) nk, of ?n "owners @ [ident]"] ident cap by auto
    define q4 where "q4 = q3\<lparr>implicitProducerHash := t # tl (implicitProducerHash q)\<rparr>"
    have put: "put_main ident (hash_thread_id ident) (Some ?n) q3 = Some q4"
      using main_hash_rel [of q3 owners] hr h3 t(1) by (simp add: put_main_def q4_def)
    have "queue_rel q4 (owners @ [ident]) (H(?n := 0)) (X(?n := [])) (B(?n := []))"
      by (rule queue_rel_add [OF rel p(2) _ room]) (use R t(2) p(3) cnt in \<open>simp_all add: q1_def q2_def q3_def q4_def\<close>)
    moreover have "cq_producers q4 = cq_producers q @ [p]" by (simp add: q3_def q4_def)
    moreover have "answers (cq_pool q4) = [] \<and> \<not> broken p" if "answers (cq_pool q) = []"
      using that p(4) by (auto simp: q1_def q2_def q3_def q4_def pool_malloc_def dest: prod_rel_not_broken)
    ultimately show ?thesis using r put p(1) by auto
  qed
qed

text \<open>A thread without a producer gets a new one, or there is no memory for it and the queue is as before.\<close>

lemma get_or_add_new:
  assumes rel: "queue_rel q owners H X B" and ident: "ident \<noteq> invalid_thread_id" "ident \<notin> set owners" and room: "Suc (length owners) < 2 ^ 60"
  shows "\<exists>r q'. get_or_add_implicit_producer ident q = Some (r, q') \<and>
    (case r of
       None \<Rightarrow> queue_rel q' owners H X B \<and> cq_producers q' = cq_producers q \<and> answers (cq_pool q) \<noteq> []
     | Some i \<Rightarrow> i = length owners \<and> queue_rel q' (owners @ [ident]) (H(i := 0)) (X(i := [])) (B(i := [])) \<and>
         (\<exists>p ok. new_imp_producer ok = Some p \<and> cq_producers q' = cq_producers q @ [p] \<and> (answers (cq_pool q) = [] \<longrightarrow> answers (cq_pool q') = [] \<and> \<not> broken p)))"
proof -
  let ?n = "length owners" and ?h = "hash_thread_id ident"
  note R = rel [unfolded queue_rel_def]
  define newCount :: u64 where "newCount = word_of_nat (Suc ?n)"
  define q0 where "q0 = q\<lparr>implicitProducerHashCount := newCount\<rparr>"
  have hr: "hash_rel (implicitProducerHash q) owners" and cnt: "implicitProducerHashCount q = word_of_nat ?n" using R by auto
  have get: "get_or_add_implicit_producer ident q = insert_producer ident ?h newCount q0"
    using hash_rel_search(2) [OF hr ident] cnt by (simp add: get_or_add_implicit_producer_def q0_def newCount_def Let_def)
  have hr0: "hash_rel (implicitProducerHash q0) owners" and f0: "\<not> implicitProducerHashResizeInProgress q0" using R by (simp_all add: q0_def)
  have room': "Suc ?n < 2 ^ 61" using room by simp
  have q0s: "cq_producers q0 = cq_producers q" "producerListTail q0 = producerListTail q" "cq_pool q0 = cq_pool q" "implicitProducerHashCount q0 = newCount"
    by (simp_all add: q0_def)
  obtain r1 q1 where r1: "resize_hash newCount q0 = Some (r1, q1)" "\<not> implicitProducerHashResizeInProgress q1"
    "cq_producers q1 = cq_producers q" "producerListTail q1 = producerListTail q" "cq_pool q1 = cq_pool q \<or> cq_pool q1 = snd (pool_malloc (cq_pool q))"
    "hash_rel (implicitProducerHash q1) owners" "implicitProducerHashCount q1 = (if r1 then newCount else newCount - 1)"
    "if r1 then 2 * Suc ?n < unat (ph_capacity (hd (implicitProducerHash q1))) else answers (cq_pool q) \<noteq> [] \<and> \<not> hd (answers (cq_pool q))"
    using resize_hash_spec [OF hr0 f0 room' newCount_def] unfolding q0s by blast
  have nc: "newCount - 1 = word_of_nat ?n" by (simp add: newCount_def)
  show ?thesis
  proof (cases r1)
    case False
    then have "insert_producer ident ?h newCount q0 = Some (None, q1)" using r1(1) by (subst insert_producer.simps) simp
    moreover have "queue_rel q1 owners H X B"
      by (rule queue_rel_pool [OF rel]) (use r1 False nc in simp_all)
    ultimately show ?thesis using get r1(3,8) False by simp
  next
    case True
    have rel1: "queue_rel (q1\<lparr>implicitProducerHashCount := word_of_nat ?n\<rparr>) owners H X B"
      by (rule queue_rel_pool [OF rel]) (use r1 in simp_all)
    have cap: "2 * Suc ?n < unat (ph_capacity (hd (implicitProducerHash q1)))" and cnt1: "implicitProducerHashCount q1 = word_of_nat (Suc ?n)"
      using r1(7,8) True by (simp_all add: newCount_def)
    obtain c where "table_ok c (hd (implicitProducerHash q1))" using r1(6) unfolding hash_rel_def by (metis list.set_sel(1))
    then have c: "unat (ph_capacity (hd (implicitProducerHash q1))) = 2 ^ c" by (simp add: table_ok_def)
    have tq: "newCount < drop_bit 1 (ph_capacity (hd (implicitProducerHash q1))) + drop_bit 2 (ph_capacity (hd (implicitProducerHash q1)))"
      using three_quarters [OF cap c] by (simp add: newCount_def)
    have ans: "answers (cq_pool q) = [] \<Longrightarrow> answers (cq_pool q1) = []" using r1(5) by (auto simp: pool_malloc_def)
    have ans': "answers (cq_pool q1) \<noteq> [] \<Longrightarrow> answers (cq_pool q) \<noteq> []" using ans by blast
    obtain r b q2 where C: "recycle_or_create_producer q1 = Some (r, b, q2)"
      "case r of
         None \<Rightarrow> queue_rel (q2\<lparr>implicitProducerHashCount := implicitProducerHashCount q2 - 1\<rparr>) owners H X B \<and> cq_producers q2 = cq_producers q1 \<and> answers (cq_pool q1) \<noteq> []
       | Some i \<Rightarrow> \<not> b \<and> i = ?n \<and> (\<exists>q''. put_main ident ?h (Some i) q2 = Some q'' \<and>
           queue_rel q'' (owners @ [ident]) (H(i := 0)) (X(i := [])) (B(i := [])) \<and>
           (\<exists>p ok. new_imp_producer ok = Some p \<and> cq_producers q'' = cq_producers q1 @ [p] \<and> (answers (cq_pool q1) = [] \<longrightarrow> answers (cq_pool q'') = [] \<and> \<not> broken p)))"
      using create_producer [OF rel1 cnt1 room cap ident] by blast
    have ins: "insert_producer ident ?h newCount q0 = (case r of
        None \<Rightarrow> Some (None, q2\<lparr>implicitProducerHashCount := implicitProducerHashCount q2 - 1\<rparr>)
      | Some i \<Rightarrow> Option.bind (put_main ident ?h (Some i) (if b then q2\<lparr>implicitProducerHashCount := implicitProducerHashCount q2 - 1\<rparr> else q2)) (\<lambda>q. Some (Some i, q)))"
      using r1(1) True tq C(1) main_hash_rel [OF r1(6)] by (subst insert_producer.simps) (simp split: option.split)
    show ?thesis
    proof (cases r)
      case None
      then show ?thesis using get ins C(2) ans' r1(3) by simp
    next
      case (Some i)
      then obtain q3 where "\<not> b" "i = ?n" "put_main ident ?h (Some i) q2 = Some q3" "queue_rel q3 (owners @ [ident]) (H(i := 0)) (X(i := [])) (B(i := []))"
        "\<exists>p ok. new_imp_producer ok = Some p \<and> cq_producers q3 = cq_producers q1 @ [p] \<and> (answers (cq_pool q1) = [] \<longrightarrow> answers (cq_pool q3) = [] \<and> \<not> broken p)" using C(2) by auto
      then show ?thesis using get ins Some r1(3) ans by auto
    qed
  qed
qed

section \<open>Enqueueing and dequeueing\<close>

text \<open>Without a block index, enqueueing follows a null pointer.\<close>

lemma broken_enqueue:
  assumes "broken p"
  shows "imp_enqueue canAlloc x (p, pool) = None"
proof -
  have p: "blockIndex p = []" "tailIndex p = 0" "headIndex p = 0" using assms by (simp_all add: broken_def counters_def)
  have "imp_new_tail_block canAlloc (p, pool) = None"
    using p by (simp add: imp_new_tail_block_def insert_block_index_entry_def current_index_def Let_def circular_less_than_unat)
  then show ?thesis using p by (simp add: imp_enqueue_def)
qed

lemma enqueue_at:
  assumes rel: "queue_rel q owners H X B" and i: "i < length owners"
  shows "broken (cq_producers q ! i) \<and> imp_enqueue canAlloc x (cq_producers q ! i, cq_pool q) = None \<or>
    (\<exists>r p' pool' bs'. imp_enqueue canAlloc x (cq_producers q ! i, cq_pool q) = Some (r, p', pool') \<and>
       queue_rel (q\<lparr>cq_producers := (cq_producers q)[i := p'], cq_pool := pool'\<rparr>) owners H (X(i := if r then X i @ [x] else X i)) (B(i := bs')) \<and> \<not> broken p' \<and>
       (answers (cq_pool q) = [] \<longrightarrow> answers pool' = [] \<and> (canAlloc \<and> length (X i) + 32 < 2 ^ 63 \<longrightarrow> r)))"
proof (cases "broken (cq_producers q ! i)")
  case False
  let ?p = "cq_producers q ! i" and ?used = "\<Union>j < length owners. set (B j)"
  note R = rel [unfolded queue_rel_def]
  have pr: "prod_rel ?p (cq_blocks (cq_pool q)) (H i) (X i) (B i)" and inv: "pool_inv (cq_pool q) ?used" and sub: "set (B i) \<subseteq> ?used"
    using R i False unfolding prod_state_def by blast+
  obtain r p' pool' where E: "imp_enqueue canAlloc x (?p, cq_pool q) = Some (r, p', pool')" "enq_outcome canAlloc ?p (cq_pool q) ?used (H i) (X i) (B i) x r p' pool'"
    using imp_enqueue_ok [OF pr inv sub] by blast
  note O = E(2) [unfolded enq_outcome_def]
  obtain bs' where bs: "prod_rel p' (cq_blocks pool') (H i) (if r then X i @ [x] else X i) bs'" "set (B i) \<subseteq> set bs'" "(set bs' - set (B i)) \<inter> ?used = {}"
    "pool_inv pool' (?used \<union> set bs')" using O by blast
  have "?used \<union> set bs' = (\<Union>j < length owners. set ((B(i := bs')) j))"
    by (rule UN_upd_add [of i _ B bs', OF i bs(2)])
  then have inv': "pool_inv pool' (\<Union>j < length owners. set ((B(i := bs')) j))" using bs(4) by simp
  have "b \<notin> set bs' \<and> b < length (cq_blocks pool') \<and> cq_blocks pool' ! b = cq_blocks (cq_pool q) ! b"
    if "j < length owners" "j \<noteq> i" "b \<in> set (B j)" for j b
  proof -
    have b: "b \<in> ?used" "b \<notin> set (B i)" using that R i by blast+
    then have "b < length (cq_blocks (cq_pool q))" using pool_inv_used [OF inv] by blast
    then show ?thesis using b O bs(3) by auto
  qed
  then have "queue_rel (q\<lparr>cq_producers := (cq_producers q)[i := p'], cq_pool := pool'\<rparr>) owners (H(i := H i)) (X(i := if r then X i @ [x] else X i)) (B(i := bs'))"
    by (intro queue_rel_upd [OF rel i]) (use R i O bs(1) inv' in \<open>simp_all add: prod_state_def\<close>)
  moreover have "\<not> broken p'" by (rule prod_rel_not_broken [OF bs(1)])
  ultimately show ?thesis using E(1) O by auto
qed (simp add: broken_enqueue)

lemma prod_state_counters: "prod_state p blks h xs bs \<Longrightarrow> counters p h (length xs)"
  by (auto simp: prod_state_def prod_rel_def broken_def)

lemma cq_dequeue_from_empty:
  assumes rel: "queue_rel q owners H X B" and i: "i < length owners" "X i = []"
  shows "cq_dequeue_from i q = Some (None, q)"
proof -
  have "counters (cq_producers q ! i) (H i) 0" and "i < length (cq_producers q)"
    using rel i prod_state_counters unfolding queue_rel_def by fastforce+
  then show ?thesis using imp_dequeue_empty [of "cq_producers q ! i" "H i" "cq_pool q"] by (simp add: cq_dequeue_from_def)
qed

lemma cq_dequeue_from_Cons:
  assumes rel: "queue_rel q owners H X B" and i: "i < length owners" "X i = y # ys"
  shows "\<exists>q' bs'. cq_dequeue_from i q = Some (Some y, q') \<and> queue_rel q' owners (H(i := Suc (H i))) (X(i := ys)) (B(i := bs')) \<and>
    answers (cq_pool q') = answers (cq_pool q) \<and> (\<exists>p'. cq_producers q' = (cq_producers q)[i := p'] \<and> \<not> broken p')"
proof -
  let ?p = "cq_producers q ! i" and ?used = "\<Union>j < length owners. set (B j)"
  note R = rel [unfolded queue_rel_def]
  have "prod_state ?p (cq_blocks (cq_pool q)) (H i) (X i) (B i)" and inv: "pool_inv (cq_pool q) ?used" and sub: "set (B i) \<subseteq> ?used"
    using R i(1) by blast+
  then have pr: "prod_rel ?p (cq_blocks (cq_pool q)) (H i) (y # ys) (B i)" using i(2) by (simp add: prod_state_def)
  obtain p' pool' bs' where D: "imp_dequeue (?p, cq_pool q) = Some (Some y, p', pool')" "prod_rel p' (cq_blocks pool') (Suc (H i)) ys bs'"
    "set bs' \<subseteq> set (B i)" "pool_inv pool' (?used - (set (B i) - set bs'))" "length (cq_blocks pool') = length (cq_blocks (cq_pool q))"
    "\<forall>b. b \<notin> set (B i) \<longrightarrow> cq_blocks pool' ! b = cq_blocks (cq_pool q) ! b" "answers pool' = answers (cq_pool q)" "inactive p' = inactive ?p"
    using imp_dequeue_Cons [OF pr inv sub] by blast
  let ?q = "q\<lparr>cq_producers := (cq_producers q)[i := p'], cq_pool := pool'\<rparr>"
  have out: "b \<notin> set (B i)" if "j < length owners" "j \<noteq> i" "b \<in> set (B j)" for j b using that R i(1) by blast
  have "?used - (set (B i) - set bs') = (\<Union>j < length owners. set ((B(i := bs')) j))"
    by (rule UN_upd_remove [of i _ bs' B, OF i(1) D(3)]) (use out in blast)
  then have "queue_rel ?q owners (H(i := Suc (H i))) (X(i := ys)) (B(i := bs'))"
    by (intro queue_rel_upd [OF rel i(1)]) (use R i(1) D out pool_inv_used [OF inv] in \<open>auto simp: prod_state_def\<close>)
  moreover have "cq_dequeue_from i q = Some (Some y, ?q)" using D(1) R i(1) by (simp add: cq_dequeue_from_def)
  ultimately show ?thesis using D(7) prod_rel_not_broken [OF D(2)] by auto
qed

text \<open>The producer chosen is the first of the longest of the first three that are not empty.\<close>

fun longer :: "('b \<Rightarrow> nat) \<Rightarrow> 'b \<Rightarrow> 'b option \<Rightarrow> 'b option" where
  "longer f i None = Some i"
| "longer f i (Some b) = (if f b < f i then Some i else Some b)"

definition first_longest :: "('b \<Rightarrow> nat) \<Rightarrow> 'b list \<Rightarrow> 'b option" where
  "first_longest f is = fold (longer f) is None"

lemma fold_longer: "\<exists>b'. fold (longer f) is (Some b) = Some b' \<and> b' \<in> set (b # is) \<and> (\<forall>j \<in> set (b # is). f j \<le> f b')"
proof (induction "is" arbitrary: b)
  case (Cons i "is")
  show ?case
  proof (cases "f b < f i")
    case True
    then show ?thesis using Cons.IH [of i] by auto
  next
    case False
    then show ?thesis using Cons.IH [of b] by (auto simp: not_less)
  qed
qed simp

lemma first_longest_Some: "first_longest f is = Some b \<Longrightarrow> b \<in> set is \<and> (\<forall>j \<in> set is. f j \<le> f b)"
  using fold_longer [of f "tl is" "hd is"] by (cases "is") (auto simp: first_longest_def)

lemma first_longest_None: "first_longest f is = None \<longleftrightarrow> is = []"
  using fold_longer [of f "tl is" "hd is"] by (cases "is") (auto simp: first_longest_def)

lemma fold_longer_cong:
  "\<forall>j \<in> set is. f j = g j \<Longrightarrow> (\<forall>b. best = Some b \<longrightarrow> f b = g b) \<Longrightarrow> fold (longer f) is best = fold (longer g) is best"
proof (induction "is" arbitrary: best)
  case (Cons i "is")
  have "longer f i best = longer g i best \<and> (\<forall>b. longer g i best = Some b \<longrightarrow> f b = g b)"
    using Cons.prems by (cases best) auto
  then show ?case using Cons by simp
qed simp

lemma fold_longer_map: "map_option e (fold (longer (\<lambda>i. f (e i))) is b) = fold (longer f) (map e is) (map_option e b)"
proof (induction "is" arbitrary: b)
  case (Cons i "is")
  have "map_option e (longer (\<lambda>i. f (e i)) i b) = longer f (e i) (map_option e b)" by (cases b) simp_all
  then show ?case using Cons by simp
qed simp

lemma pick_best_eq:
  assumes "n \<le> 3" and "n = 0 \<longleftrightarrow> best = None" and "sz = (case best of None \<Rightarrow> 0 | Some b \<Rightarrow> prod_size_approx (ps ! b))"
  shows "pick_best ps ptrs n best sz =
    (let is = take (3 - n) (filter (\<lambda>i. 0 < prod_size_approx (ps ! i)) ptrs)
     in (n + length is, fold (longer (\<lambda>i. unat (prod_size_approx (ps ! i)))) is best))"
  using assms
proof (induction ptrs arbitrary: n best sz)
  case (Cons i ptrs)
  let ?s = "prod_size_approx (ps ! i)"
  show ?case
  proof (cases "n < 3 \<and> 0 < ?s")
    case False
    then show ?thesis using Cons.prems Cons.IH [OF Cons.prems] by (cases "n < 3") auto
  next
    case True
    define best' where "best' = longer (\<lambda>i. unat (prod_size_approx (ps ! i))) i best"
    define sz' where "sz' = (case best' of None \<Rightarrow> 0 | Some b \<Rightarrow> prod_size_approx (ps ! b))"
    have t: "3 - n = Suc (3 - Suc n)" using True by linarith
    have ne: "best' \<noteq> None" by (cases best) (simp_all add: best'_def)
    have "pick_best ps (i # ptrs) n best sz = pick_best ps ptrs (Suc n) best' sz'"
      using True Cons.prems(3) by (cases best) (auto simp: Let_def best'_def sz'_def word_less_nat_alt)
    also have "\<dots> = (let is = take (3 - Suc n) (filter (\<lambda>i. 0 < prod_size_approx (ps ! i)) ptrs)
        in (Suc n + length is, fold (longer (\<lambda>i. unat (prod_size_approx (ps ! i)))) is best'))"
      by (rule Cons.IH) (use True ne in \<open>simp_all add: sz'_def\<close>)
    finally show ?thesis using True by (simp add: t Let_def best'_def del: pick_best.simps)
  qed
qed simp

text \<open>The three producers a dequeue compares: the last ones created, of those that are not empty.\<close>

definition candidates :: "nat \<Rightarrow> (nat \<Rightarrow> 'a list) \<Rightarrow> nat list" where
  "candidates n X = take 3 (filter (\<lambda>i. X i \<noteq> []) (rev [0..<n]))"

lemma queue_sizes:
  assumes "queue_rel q owners H X B" and "i < length owners"
  shows "prod_size_approx (cq_producers q ! i) = word_of_nat (length (X i))" and "unat (prod_size_approx (cq_producers q ! i)) = length (X i)"
  using assms prod_state_counters size_approx_correct unfolding queue_rel_def by metis+

lemma candidates_mem: "i \<in> set (candidates n X) \<Longrightarrow> i < n \<and> X i \<noteq> []"
  by (auto simp: candidates_def dest: in_set_takeD)

lemma pick_best_candidates:
  assumes rel: "queue_rel q owners H X B"
  shows "pick_best (cq_producers q) (producerListTail q) 0 None 0 =
    (length (candidates (length owners) X), first_longest (\<lambda>i. length (X i)) (candidates (length owners) X))"
proof -
  let ?c = "candidates (length owners) X"
  have "filter (\<lambda>i. 0 < prod_size_approx (cq_producers q ! i)) (rev [0..<length owners]) = filter (\<lambda>i. X i \<noteq> []) (rev [0..<length owners])"
  proof (rule filter_cong)
    fix i assume "i \<in> set (rev [0..<length owners])"
    then show "0 < prod_size_approx (cq_producers q ! i) \<longleftrightarrow> X i \<noteq> []" using queue_sizes(2) [OF rel, of i] by (simp add: word_less_nat_alt)
  qed simp
  moreover have "producerListTail q = rev [0..<length owners]" using rel by (simp add: queue_rel_def)
  ultimately have "pick_best (cq_producers q) (producerListTail q) 0 None 0 =
      (length ?c, fold (longer (\<lambda>i. unat (prod_size_approx (cq_producers q ! i)))) ?c None)"
    using pick_best_eq [of 0 None 0 "cq_producers q" "rev [0..<length owners]"] by (simp add: candidates_def Let_def)
  moreover have "\<forall>j \<in> set ?c. unat (prod_size_approx (cq_producers q ! j)) = length (X j)"
    using candidates_mem queue_sizes(2) [OF rel] by blast
  ultimately show ?thesis using fold_longer_cong [of ?c _ _ None] by (simp add: first_longest_def)
qed

text \<open>A dequeue takes the first element of that producer; it fails only when there is none.\<close>

lemma try_dequeue_ok:
  assumes rel: "queue_rel q owners H X B"
  shows "case first_longest (\<lambda>i. length (X i)) (candidates (length owners) X) of
      None \<Rightarrow> cq_try_dequeue q = Some (None, q) \<and> (\<forall>i < length owners. X i = [])
    | Some b \<Rightarrow> b < length owners \<and> (\<exists>y ys q' bs'. X b = y # ys \<and> cq_try_dequeue q = Some (Some y, q') \<and>
        queue_rel q' owners (H(b := Suc (H b))) (X(b := ys)) (B(b := bs')) \<and> answers (cq_pool q') = answers (cq_pool q) \<and>
        (\<exists>p'. cq_producers q' = (cq_producers q)[b := p'] \<and> \<not> broken p'))"
proof (cases "first_longest (\<lambda>i. length (X i)) (candidates (length owners) X)")
  case None
  then have none: "candidates (length owners) X = []" by (simp add: first_longest_None)
  then have "\<forall>i < length owners. X i = []" by (auto simp: candidates_def filter_empty_conv)
  then show ?thesis using None none pick_best_candidates [OF rel] by (simp add: cq_try_dequeue_def)
next
  case (Some b)
  then have b: "b < length owners" "X b \<noteq> []" "candidates (length owners) X \<noteq> []" using first_longest_Some candidates_mem by fastforce+
  then obtain y ys where y: "X b = y # ys" by (cases "X b") auto
  obtain q' bs' where D: "cq_dequeue_from b q = Some (Some y, q')" "queue_rel q' owners (H(b := Suc (H b))) (X(b := ys)) (B(b := bs'))"
    "answers (cq_pool q') = answers (cq_pool q)" "\<exists>p'. cq_producers q' = (cq_producers q)[b := p'] \<and> \<not> broken p'"
    using cq_dequeue_from_Cons [OF rel b(1) y] by blast
  have "cq_try_dequeue q = Some (Some y, q')" using pick_best_candidates [OF rel] Some D(1) b(3) by (simp add: cq_try_dequeue_def)
  then show ?thesis unfolding Some option.case using b(1) y D(2-4) by blast
qed

lemma foldl_sizes: "foldl (\<lambda>sz i. sz + f i) (a :: u64) is = a + sum_list (map f is)"
  by (induction "is" arbitrary: a) (simp_all add: add.assoc)

lemma size_approx_total:
  assumes rel: "queue_rel q owners H X B"
  shows "cq_size_approx q = word_of_nat (\<Sum>i < length owners. length (X i))"
proof -
  have "cq_size_approx q = sum_list (map (\<lambda>i. prod_size_approx (cq_producers q ! i)) (rev [0..<length owners]))"
    using rel by (simp add: cq_size_approx_def foldl_sizes queue_rel_def)
  also have "\<dots> = sum_list (map (\<lambda>i. word_of_nat (length (X i))) (rev [0..<length owners]))"
    using queue_sizes(1) [OF rel] by (intro arg_cong [of _ _ sum_list] map_cong) simp_all
  also have "\<dots> = (\<Sum>i < length owners. word_of_nat (length (X i)))"
    by (simp add: rev_map [symmetric] sum_list_rev interv_sum_list_conv_sum_set_nat atLeast0LessThan del: rev_map)
  finally show ?thesis by simp
qed

end
