(* ===== verification/MpmcRefine.thy ===== *)
theory MpmcRefine
  imports MpmcQueue
begin

text \<open>
  What the multi-producer multi-consumer queue promises: one queue of elements per thread that has enqueued, the newest
  thread first. The specification has the same calls as the pipes use of \<^verbatim>\<open>ConcurrentQueue\<close>
  (\<^verbatim>\<open>src/lib/concurrentqueue/concurrentqueue.h\<close>), and every sequence of calls from any threads is shown to behave as it
  says.
\<close>

section \<open>Specification\<close>

type_synonym 'a fifos = "(u64 \<times> 'a list) list"

definition fifo_register :: "u64 \<Rightarrow> 'a fifos \<Rightarrow> 'a fifos" where
  "fifo_register t st = (if t \<in> fst ` set st then st else (t, []) # st)"

definition fifo_update :: "u64 \<Rightarrow> ('a list \<Rightarrow> 'a list) \<Rightarrow> 'a fifos \<Rightarrow> 'a fifos" where
  "fifo_update t f st = map (\<lambda>(u, xs). (u, if u = t then f xs else xs)) st"

definition fifo_add :: "u64 \<Rightarrow> 'a \<Rightarrow> 'a fifos \<Rightarrow> 'a fifos" where
  "fifo_add t x st = fifo_update t (\<lambda>xs. xs @ [x]) (fifo_register t st)"

text \<open>A dequeue serves the first of the longest of the first three queues that are not empty.\<close>

definition fifo_best :: "'a fifos \<Rightarrow> (u64 \<times> 'a list) option" where
  "fifo_best st = first_longest (\<lambda>e. length (snd e)) (take 3 (filter (\<lambda>e. snd e \<noteq> []) st))"

definition fifo_take :: "'a fifos \<Rightarrow> 'a option \<times> 'a fifos" where
  "fifo_take st = (case fifo_best st of None \<Rightarrow> (None, st) | Some (t, xs) \<Rightarrow> (Some (hd xs), fifo_update t tl st))"

definition fifo_count :: "'a fifos \<Rightarrow> nat" where
  "fifo_count st = sum_list (map (\<lambda>e. length (snd e)) st)"

datatype 'a cq_call = Enqueue u64 'a | TryEnqueue u64 'a | TryDequeue | SizeApprox

datatype 'a cq_return = Accepted bool | Dequeued "'a option" | Counted u64

text \<open>A refused element may still leave its thread registered.\<close>

fun fifo_step :: "'a cq_call \<Rightarrow> 'a cq_return \<Rightarrow> 'a fifos \<Rightarrow> 'a fifos \<Rightarrow> bool" where
  "fifo_step (Enqueue t x) (Accepted r) st st' \<longleftrightarrow> (if r then st' = fifo_add t x st else st' = st \<or> st' = fifo_register t st)"
| "fifo_step (TryEnqueue t x) (Accepted r) st st' \<longleftrightarrow> (if r then st' = fifo_add t x st else st' = st \<or> st' = fifo_register t st)"
| "fifo_step TryDequeue (Dequeued y) st st' \<longleftrightarrow> (y, st') = fifo_take st"
| "fifo_step SizeApprox (Counted n) st st' \<longleftrightarrow> n = word_of_nat (fifo_count st) \<and> st' = st"
| "fifo_step _ _ st st' \<longleftrightarrow> False"

fun fifo_run :: "'a cq_call list \<Rightarrow> 'a cq_return list \<Rightarrow> 'a fifos \<Rightarrow> 'a fifos \<Rightarrow> bool" where
  "fifo_run [] [] st st' \<longleftrightarrow> st' = st"
| "fifo_run (c # cs) (r # rs) st st' \<longleftrightarrow> (\<exists>st1. fifo_step c r st st1 \<and> fifo_run cs rs st1 st')"
| "fifo_run _ _ st st' \<longleftrightarrow> False"

text \<open>The answers when memory never runs out and \<^verbatim>\<open>try_enqueue\<close> is not used.\<close>

fun fifo_answers :: "'a cq_call list \<Rightarrow> 'a fifos \<Rightarrow> 'a cq_return list" where
  "fifo_answers [] st = []"
| "fifo_answers (Enqueue t x # cs) st = Accepted True # fifo_answers cs (fifo_add t x st)"
| "fifo_answers (TryEnqueue t x # cs) st = Accepted True # fifo_answers cs (fifo_add t x st)"
| "fifo_answers (TryDequeue # cs) st = Dequeued (fst (fifo_take st)) # fifo_answers cs (snd (fifo_take st))"
| "fifo_answers (SizeApprox # cs) st = Counted (word_of_nat (fifo_count st)) # fifo_answers cs st"

section \<open>Calls of the queue\<close>

fun cq_exec :: "'a cq_call \<Rightarrow> 'a cqueue \<Rightarrow> ('a cq_return \<times> 'a cqueue) option" where
  "cq_exec (Enqueue t x) q = do { (r, q) \<leftarrow> cq_enqueue t x q; Some (Accepted r, q) }"
| "cq_exec (TryEnqueue t x) q = do { (r, q) \<leftarrow> cq_try_enqueue t x q; Some (Accepted r, q) }"
| "cq_exec TryDequeue q = do { (y, q) \<leftarrow> cq_try_dequeue q; Some (Dequeued y, q) }"
| "cq_exec SizeApprox q = Some (Counted (cq_size_approx q), q)"

fun cq_run :: "'a cq_call list \<Rightarrow> 'a cqueue \<Rightarrow> ('a cq_return list \<times> 'a cqueue) option" where
  "cq_run [] q = Some ([], q)"
| "cq_run (c # cs) q = do { (r, q) \<leftarrow> cq_exec c q; (rs, q) \<leftarrow> cq_run cs q; Some (r # rs, q) }"

text \<open>The thread of a call is a real one.\<close>

fun cq_call_ok :: "'a cq_call \<Rightarrow> bool" where
  "cq_call_ok (Enqueue t x) \<longleftrightarrow> t \<noteq> invalid_thread_id"
| "cq_call_ok (TryEnqueue t x) \<longleftrightarrow> t \<noteq> invalid_thread_id"
| "cq_call_ok _ \<longleftrightarrow> True"

text \<open>
  The one way a run can fault. The constructor of a producer does not look at the answer of the allocator for its block
  index: \<open>null_index\<close> says that a call of thread \<open>ident\<close> would now get a producer without one, and \<open>follows_null\<close> that some
  call of the sequence is made in such a state.
\<close>

definition null_index :: "u64 \<Rightarrow> 'a cqueue \<Rightarrow> bool" where
  "null_index ident q \<longleftrightarrow>
     (case get_or_add_implicit_producer ident q of
        Some (Some i, q') \<Rightarrow> (case nth_opt (cq_producers q') i of Some p \<Rightarrow> blockIndex p = [] | None \<Rightarrow> False)
      | _ \<Rightarrow> False)"

fun enqueues_for :: "'a cq_call \<Rightarrow> u64 option" where
  "enqueues_for (Enqueue t x) = Some t"
| "enqueues_for (TryEnqueue t x) = Some t"
| "enqueues_for _ = None"

fun follows_null :: "'a cq_call list \<Rightarrow> 'a cqueue \<Rightarrow> bool" where
  "follows_null [] q \<longleftrightarrow> False"
| "follows_null (c # cs) q \<longleftrightarrow>
     (case enqueues_for c of Some t \<Rightarrow> null_index t q | None \<Rightarrow> False) \<or>
     (case cq_exec c q of Some (r, q') \<Rightarrow> follows_null cs q' | None \<Rightarrow> False)"

section \<open>The queue as one queue per thread\<close>

definition queue_view :: "u64 list \<Rightarrow> (nat \<Rightarrow> 'a list) \<Rightarrow> 'a fifos" where
  "queue_view owners X = map (\<lambda>i. (owners ! i, X i)) (rev [0..<length owners])"

definition queue_abs :: "'a cqueue \<Rightarrow> 'a fifos \<Rightarrow> bool" where
  "queue_abs q st \<longleftrightarrow> (\<exists>owners H X B. queue_rel q owners H X B \<and> st = queue_view owners X)"

text \<open>No allocation fails from now on, and none has failed that matters.\<close>

definition healthy :: "'a cqueue \<Rightarrow> bool" where
  "healthy q \<longleftrightarrow> answers (cq_pool q) = [] \<and> (\<forall>p \<in> set (cq_producers q). \<not> broken p)"

lemma view_threads: "fst ` set (queue_view owners X) = set owners"
proof -
  have "map fst (queue_view owners X) = rev owners" by (simp add: queue_view_def rev_map [symmetric] map_nth comp_def del: rev_map)
  then show ?thesis by (metis set_map set_rev)
qed

lemma view_length [simp]: "length (queue_view owners X) = length owners"
  by (simp add: queue_view_def)

lemma view_update:
  assumes "distinct owners" and "i < length owners"
  shows "fifo_update (owners ! i) f (queue_view owners X) = queue_view owners (X(i := f (X i)))"
  using assms by (simp add: fifo_update_def queue_view_def nth_eq_iff_index_eq)

lemma view_add: "queue_view (owners @ [t]) (X(length owners := [])) = (t, []) # queue_view owners X"
  by (simp add: queue_view_def nth_append)

lemma view_count: "fifo_count (queue_view owners X) = (\<Sum>i < length owners. length (X i))"
  by (simp add: fifo_count_def queue_view_def rev_map [symmetric] sum_list_rev comp_def interv_sum_list_conv_sum_set_nat atLeast0LessThan del: rev_map)

lemma view_best: "fifo_best (queue_view owners X) = map_option (\<lambda>i. (owners ! i, X i)) (first_longest (\<lambda>i. length (X i)) (candidates (length owners) X))"
proof -
  have "take 3 (filter (\<lambda>e. snd e \<noteq> []) (queue_view owners X)) = map (\<lambda>i. (owners ! i, X i)) (candidates (length owners) X)"
    by (simp add: queue_view_def candidates_def filter_map comp_def take_map)
  then show ?thesis
    using fold_longer_map [of "\<lambda>i. (owners ! i, X i)" "\<lambda>e. length (snd e)" "candidates (length owners) X" None] by (simp add: fifo_best_def first_longest_def)
qed

lemma abs_new: "queue_abs (ConcurrentQueue capacity as) []"
  unfolding queue_abs_def using ConcurrentQueue_rel [of capacity as] by (fastforce simp: queue_view_def)

lemma queue_rel_distinct: "queue_rel q owners H X B \<Longrightarrow> distinct owners"
  by (simp add: queue_rel_def hash_rel_def)

lemma abs_count: "queue_abs q st \<Longrightarrow> cq_size_approx q = word_of_nat (fifo_count st)"
  by (auto simp: queue_abs_def view_count size_approx_total)

text \<open>Dequeueing does what the specification says, whatever the memory.\<close>

lemma abs_dequeue:
  assumes "queue_abs q st"
  shows "\<exists>q'. cq_try_dequeue q = Some (fst (fifo_take st), q') \<and> queue_abs q' (snd (fifo_take st)) \<and> (healthy q \<longrightarrow> healthy q')"
proof -
  obtain owners H X B where rel: "queue_rel q owners H X B" and st: "st = queue_view owners X" using assms by (auto simp: queue_abs_def)
  note D = try_dequeue_ok [OF rel] and V = view_best [of owners X]
  show ?thesis
  proof (cases "first_longest (\<lambda>i. length (X i)) (candidates (length owners) X)")
    case None
    then show ?thesis using D V assms st by (auto simp: fifo_take_def)
  next
    case (Some b)
    then obtain y ys q' bs' where b: "b < length owners" "X b = y # ys" "cq_try_dequeue q = Some (Some y, q')"
      "queue_rel q' owners (H(b := Suc (H b))) (X(b := ys)) (B(b := bs'))" "answers (cq_pool q') = answers (cq_pool q)"
      "\<exists>p'. cq_producers q' = (cq_producers q)[b := p'] \<and> \<not> broken p'" using D [unfolded Some option.case] by blast
    have take: "fifo_take st = (Some y, queue_view owners (X(b := ys)))"
      using V Some view_update [OF queue_rel_distinct [OF rel] b(1), of tl X] b(2) by (simp add: fifo_take_def st)
    moreover have "queue_abs q' (queue_view owners (X(b := ys)))" using b(4) by (auto simp: queue_abs_def)
    moreover have "healthy q \<longrightarrow> healthy q'" using b(5,6) set_update_subset_insert [of "cq_producers q" b] by (fastforce simp: healthy_def)
    ultimately show ?thesis using b(3) by simp
  qed
qed

text \<open>An enqueue at a producer that exists.\<close>

lemma abs_enqueue_at:
  assumes rel: "queue_rel q owners H X B" and i: "i < length owners" "nth_opt (cq_producers q) i = Some p"
  shows "case imp_enqueue canAlloc x (p, cq_pool q) of
      None \<Rightarrow> \<not> healthy q
    | Some (r, p', pool') \<Rightarrow> let q' = q\<lparr>cq_producers := (cq_producers q)[i := p'], cq_pool := pool'\<rparr> in
        queue_abs q' (if r then fifo_update (owners ! i) (\<lambda>xs. xs @ [x]) (queue_view owners X) else queue_view owners X) \<and>
        (healthy q \<longrightarrow> healthy q' \<and> (canAlloc \<and> length (X i) + 32 < 2 ^ 63 \<longrightarrow> r))"
proof -
  have p: "p = cq_producers q ! i" "p \<in> set (cq_producers q)" using i(2) by (auto simp: nth_opt_def split: if_splits)
  note V = view_update [OF queue_rel_distinct [OF rel] i(1), of "\<lambda>xs. xs @ [x]" X]
  from enqueue_at [OF rel i(1), of canAlloc x, folded p(1)] show ?thesis
  proof (elim disjE exE conjE)
    assume "broken p" "imp_enqueue canAlloc x (p, cq_pool q) = None"
    then show ?thesis using p(2) by (auto simp: healthy_def)
  next
    fix r p' pool' bs'
    assume E: "imp_enqueue canAlloc x (p, cq_pool q) = Some (r, p', pool')"
      "queue_rel (q\<lparr>cq_producers := (cq_producers q)[i := p'], cq_pool := pool'\<rparr>) owners H (X(i := if r then X i @ [x] else X i)) (B(i := bs'))" "\<not> broken p'"
      "answers (cq_pool q) = [] \<longrightarrow> answers pool' = [] \<and> (canAlloc \<and> length (X i) + 32 < 2 ^ 63 \<longrightarrow> r)"
    have "queue_abs (q\<lparr>cq_producers := (cq_producers q)[i := p'], cq_pool := pool'\<rparr>)
        (if r then fifo_update (owners ! i) (\<lambda>xs. xs @ [x]) (queue_view owners X) else queue_view owners X)"
      unfolding queue_abs_def V using E(2) by (intro exI conjI, assumption) (cases r, simp_all)
    moreover have "healthy q \<longrightarrow> healthy (q\<lparr>cq_producers := (cq_producers q)[i := p'], cq_pool := pool'\<rparr>)"
      using E(3,4) set_update_subset_insert [of "cq_producers q" i p'] by (fastforce simp: healthy_def)
    ultimately show ?thesis using E(1,4) by (simp add: Let_def healthy_def)
  qed
qed

text \<open>An enqueue by a thread with or without a producer.\<close>

lemma abs_enqueue:
  assumes abs: "queue_abs q st" and ident: "ident \<noteq> invalid_thread_id" and room: "Suc (length st) < 2 ^ 60"
  shows "case cq_inner_enqueue canAlloc ident x q of
      None \<Rightarrow> \<not> healthy q
    | Some (r, q') \<Rightarrow> (if r then queue_abs q' (fifo_add ident x st) else queue_abs q' st \<or> queue_abs q' (fifo_register ident st)) \<and>
        (healthy q \<longrightarrow> healthy q' \<and> (canAlloc \<and> (\<forall>e \<in> set st. length (snd e) + 32 < 2 ^ 63) \<longrightarrow> r))"
proof -
  obtain owners H X B where rel: "queue_rel q owners H X B" and st: "st = queue_view owners X" using abs by (auto simp: queue_abs_def)
  have th: "fst ` set st = set owners" by (simp add: st view_threads)
  show ?thesis
  proof (cases "ident \<in> set owners")
    case True
    then obtain i where i: "i < length owners" "owners ! i = ident" by (auto simp: in_set_conv_nth)
    then obtain q1 where q1: "get_or_add_implicit_producer ident q = Some (Some i, q1)" "queue_rel q1 owners H X B" "cq_pool q1 = cq_pool q" "cq_producers q1 = cq_producers q"
      using get_or_add_known [OF rel ident] by blast
    have h1: "healthy q1 = healthy q" using q1(3,4) by (simp add: healthy_def)
    have "i < length (cq_producers q1)" using q1(2) i(1) by (simp add: queue_rel_def)
    then have p: "nth_opt (cq_producers q1) i = Some (cq_producers q1 ! i)" by (simp add: nth_opt_def)
    have add: "fifo_add ident x st = fifo_update ident (\<lambda>xs. xs @ [x]) st" using True th by (simp add: fifo_add_def fifo_register_def)
    have len: "\<forall>e \<in> set st. length (snd e) + 32 < 2 ^ 63 \<Longrightarrow> length (X i) + 32 < 2 ^ 63" using i by (auto simp: st queue_view_def)
    show ?thesis
      using abs_enqueue_at [OF q1(2) i(1) p, of x canAlloc] q1(1) p i(2) add len
      by (cases "imp_enqueue canAlloc x (cq_producers q1 ! i, cq_pool q1)") (auto simp: cq_inner_enqueue_def h1 st Let_def simp del: add_less_cancel_right split: if_splits)
  next
    case False
    let ?n = "length owners"
    have reg: "fifo_register ident st = (ident, []) # st" using False th by (simp add: fifo_register_def)
    obtain r q1 where G: "get_or_add_implicit_producer ident q = Some (r, q1)"
      "case r of
         None \<Rightarrow> queue_rel q1 owners H X B \<and> cq_producers q1 = cq_producers q \<and> answers (cq_pool q) \<noteq> []
       | Some i \<Rightarrow> i = ?n \<and> queue_rel q1 (owners @ [ident]) (H(i := 0)) (X(i := [])) (B(i := [])) \<and>
           (\<exists>p ok. new_imp_producer ok = Some p \<and> cq_producers q1 = cq_producers q @ [p] \<and> (answers (cq_pool q) = [] \<longrightarrow> answers (cq_pool q1) = [] \<and> \<not> broken p))"
      using get_or_add_new [OF rel ident False] room by (auto simp: st)
    show ?thesis
    proof (cases r)
      case None
      then show ?thesis using G by (auto simp: cq_inner_enqueue_def healthy_def queue_abs_def st)
    next
      case (Some i)
      then have i: "i = ?n" and rel1: "queue_rel q1 (owners @ [ident]) (H(?n := 0)) (X(?n := [])) (B(?n := []))" and h1: "healthy q \<longrightarrow> healthy q1"
        using G(2) by (auto simp: healthy_def)
      have "?n < length (cq_producers q1)" using rel1 by (simp add: queue_rel_def)
      then have p: "nth_opt (cq_producers q1) ?n = Some (cq_producers q1 ! ?n)" by (simp add: nth_opt_def)
      note E = abs_enqueue_at [OF rel1 _ p, of x canAlloc, simplified, unfolded view_add, folded st]
      show ?thesis
        using E G(1) Some i p h1
        by (cases "imp_enqueue canAlloc x (cq_producers q1 ! ?n, cq_pool q1)") (auto simp: cq_inner_enqueue_def fifo_add_def Let_def reg split: if_splits)
    qed
  qed
qed

text \<open>It faults exactly when the producer has no block index.\<close>

lemma enqueue_none_iff:
  assumes rel: "queue_rel q owners H X B" and i: "i < length owners"
  shows "imp_enqueue canAlloc x (cq_producers q ! i, cq_pool q) = None \<longleftrightarrow> blockIndex (cq_producers q ! i) = []"
proof
  assume "imp_enqueue canAlloc x (cq_producers q ! i, cq_pool q) = None"
  then show "blockIndex (cq_producers q ! i) = []" using enqueue_at [OF rel i, of canAlloc x] by (auto simp: broken_def)
next
  assume e: "blockIndex (cq_producers q ! i) = []"
  have "prod_state (cq_producers q ! i) (cq_blocks (cq_pool q)) (H i) (X i) (B i)" using rel i by (simp add: queue_rel_def)
  then have "broken (cq_producers q ! i)"
    using e by (auto simp: prod_state_def prod_rel_def index_rel_def ring_at_def ring_hdr_def current_index_def)
  then show "imp_enqueue canAlloc x (cq_producers q ! i, cq_pool q) = None" by (rule broken_enqueue)
qed

lemma get_or_add_rel:
  assumes abs: "queue_abs q st" and ident: "ident \<noteq> invalid_thread_id" and room: "Suc (length st) < 2 ^ 60"
  shows "\<exists>r q' owners H X B. get_or_add_implicit_producer ident q = Some (r, q') \<and> queue_rel q' owners H X B \<and> (\<forall>i. r = Some i \<longrightarrow> i < length owners)"
proof -
  obtain owners H X B where rel: "queue_rel q owners H X B" and st: "st = queue_view owners X" using abs by (auto simp: queue_abs_def)
  show ?thesis
  proof (cases "ident \<in> set owners")
    case True
    then obtain i where "i < length owners" "owners ! i = ident" by (auto simp: in_set_conv_nth)
    then show ?thesis using get_or_add_known [OF rel ident] by blast
  next
    case False
    obtain r q' where G: "get_or_add_implicit_producer ident q = Some (r, q')"
      "case r of None \<Rightarrow> queue_rel q' owners H X B | Some i \<Rightarrow> i = length owners \<and> queue_rel q' (owners @ [ident]) (H(i := 0)) (X(i := [])) (B(i := []))"
      using get_or_add_new [OF rel ident False] room by (fastforce simp: st split: option.splits)
    then show ?thesis by (cases r) fastforce+
  qed
qed

lemma inner_enqueue_none_iff:
  assumes "queue_abs q st" and "ident \<noteq> invalid_thread_id" and "Suc (length st) < 2 ^ 60"
  shows "cq_inner_enqueue canAlloc ident x q = None \<longleftrightarrow> null_index ident q"
proof -
  obtain r q' owners H X B where G: "get_or_add_implicit_producer ident q = Some (r, q')" "queue_rel q' owners H X B" "\<forall>i. r = Some i \<longrightarrow> i < length owners"
    using get_or_add_rel [OF assms] by blast
  show ?thesis
  proof (cases r)
    case None
    then show ?thesis using G(1) by (simp add: cq_inner_enqueue_def null_index_def)
  next
    case (Some i)
    then have i: "i < length owners" "nth_opt (cq_producers q') i = Some (cq_producers q' ! i)" using G(2,3) by (auto simp: nth_opt_def queue_rel_def)
    show ?thesis
      using enqueue_none_iff [OF G(2) i(1), of canAlloc x] G(1) Some i(2)
      by (cases "imp_enqueue canAlloc x (cq_producers q' ! i, cq_pool q')") (auto simp: cq_inner_enqueue_def null_index_def)
  qed
qed

section \<open>Sequences of calls\<close>

text \<open>After \<open>n\<close> calls there are at most \<open>n\<close> threads, with at most \<open>n\<close> elements each.\<close>

definition sized :: "nat \<Rightarrow> 'a fifos \<Rightarrow> bool" where
  "sized n st \<longleftrightarrow> length st \<le> n \<and> (\<forall>e \<in> set st. length (snd e) \<le> n)"

lemma sized_mono: "sized n st \<Longrightarrow> sized (Suc n) st"
  by (auto simp: sized_def)

lemma sized_register: "sized n st \<Longrightarrow> sized (Suc n) (fifo_register t st)"
  by (auto simp: sized_def fifo_register_def)

lemma sized_add: "sized n st \<Longrightarrow> sized (Suc n) (fifo_add t x st)"
  by (auto simp: sized_def fifo_register_def fifo_add_def fifo_update_def split: if_splits)

lemma sized_take: "sized n st \<Longrightarrow> sized (Suc n) (snd (fifo_take st))"
  by (force simp: sized_def fifo_take_def fifo_update_def split: option.splits)

lemma sized_step: "fifo_step c r st st' \<Longrightarrow> sized n st \<Longrightarrow> sized (Suc n) st'"
  using sized_mono [of n st] sized_register [of n st] sized_add [of n st] sized_take [of n st]
  by (cases "(c, r, st, st')" rule: fifo_step.cases) (auto split: if_splits simp: prod_eq_iff)

definition enqueued :: "'a cq_call \<Rightarrow> 'a cq_return \<Rightarrow> bool" where
  "enqueued c r \<longleftrightarrow> (\<forall>t x. c = Enqueue t x \<longrightarrow> r = Accepted True)"

lemma refused_or_added:
  "(if r then queue_abs q (fifo_add t x st) else queue_abs q st \<or> queue_abs q (fifo_register t st)) \<longleftrightarrow>
   (\<exists>st'. (if r then st' = fifo_add t x st else st' = st \<or> st' = fifo_register t st) \<and> queue_abs q st')"
  by (cases r) auto

lemma cq_exec_abs:
  assumes abs: "queue_abs q st" and c: "cq_call_ok c" and n: "sized n st" "Suc n < 2 ^ 60"
  shows "case cq_exec c q of
      None \<Rightarrow> \<not> healthy q
    | Some (r, q') \<Rightarrow> (\<exists>st'. fifo_step c r st st' \<and> queue_abs q' st') \<and> (healthy q \<longrightarrow> healthy q' \<and> enqueued c r)"
proof -
  have n': "Suc (length st) < 2 ^ 60" "\<forall>e \<in> set st. length (snd e) + 32 < 2 ^ 63" using n by (auto simp: sized_def)
  show ?thesis
  proof (cases c)
    case (Enqueue t x)
    have e: "cq_enqueue t x q = cq_inner_enqueue True t x q" by (simp add: cq_enqueue_def INITIAL_IMPLICIT_PRODUCER_HASH_SIZE_def)
    then show ?thesis using abs_enqueue [OF abs _ n'(1), of t x True, unfolded refused_or_added] n'(2) c Enqueue
      by (cases "cq_inner_enqueue True t x q") (simp_all add: enqueued_def split_beta)
  next
    case (TryEnqueue t x)
    have e: "cq_try_enqueue t x q = cq_inner_enqueue False t x q" by (simp add: cq_try_enqueue_def INITIAL_IMPLICIT_PRODUCER_HASH_SIZE_def)
    then show ?thesis using abs_enqueue [OF abs _ n'(1), of t x False, unfolded refused_or_added] c TryEnqueue
      by (cases "cq_inner_enqueue False t x q") (simp_all add: enqueued_def split_beta)
  next
    case TryDequeue
    then show ?thesis using abs_dequeue [OF abs] by (auto simp: enqueued_def intro!: exI [of _ "snd (fifo_take st)"])
  next
    case SizeApprox
    then show ?thesis using abs abs_count [OF abs] by (auto simp: enqueued_def)
  qed
qed

lemma cq_run_abs:
  assumes "queue_abs q st" and "list_all cq_call_ok cs" and "sized n st" and "n + length cs < 2 ^ 60"
  shows "case cq_run cs q of
      None \<Rightarrow> \<not> healthy q
    | Some (rs, q') \<Rightarrow> (\<exists>st'. fifo_run cs rs st st' \<and> queue_abs q' st') \<and> (healthy q \<longrightarrow> list_all2 enqueued cs rs)"
  using assms
proof (induction cs arbitrary: q st n)
  case (Cons c cs)
  note E = cq_exec_abs [OF Cons.prems(1) _ Cons.prems(3), of c]
  show ?case
  proof (cases "cq_exec c q")
    case None
    then show ?thesis using E Cons.prems by simp
  next
    case (Some rq)
    obtain r q1 where rq: "rq = (r, q1)" by (cases rq)
    then obtain st1 where st1: "fifo_step c r st st1" "queue_abs q1 st1" "healthy q \<longrightarrow> healthy q1 \<and> enqueued c r" using E Some Cons.prems by auto
    have "case cq_run cs q1 of None \<Rightarrow> \<not> healthy q1
        | Some (rs, q') \<Rightarrow> (\<exists>st'. fifo_run cs rs st1 st' \<and> queue_abs q' st') \<and> (healthy q1 \<longrightarrow> list_all2 enqueued cs rs)"
      by (rule Cons.IH [OF st1(2) _ sized_step [OF st1(1) Cons.prems(3)]]) (use Cons.prems in auto)
    then show ?thesis using Some rq st1(1,3) by (cases "cq_run cs q1") (simp_all add: split_beta, blast+)
  qed
qed simp

text \<open>A run ends early exactly when it follows the null pointer.\<close>

lemma cq_exec_none_iff:
  assumes abs: "queue_abs q st" and c: "cq_call_ok c" and room: "Suc (length st) < 2 ^ 60"
  shows "cq_exec c q = None \<longleftrightarrow> (case enqueues_for c of Some t \<Rightarrow> null_index t q | None \<Rightarrow> False)"
proof (cases c)
  case TryDequeue
  then show ?thesis using abs_dequeue [OF abs] by auto
qed (use c inner_enqueue_none_iff [OF abs _ room] in
  \<open>auto simp: cq_enqueue_def cq_try_enqueue_def INITIAL_IMPLICIT_PRODUCER_HASH_SIZE_def bind_eq_None_conv split_beta\<close>)

lemma cq_run_none_iff:
  assumes "queue_abs q st" and "list_all cq_call_ok cs" and "sized n st" and "n + length cs < 2 ^ 60"
  shows "cq_run cs q = None \<longleftrightarrow> follows_null cs q"
  using assms
proof (induction cs arbitrary: q st n)
  case (Cons c cs)
  have n: "Suc n < 2 ^ 60" "Suc (length st) < 2 ^ 60" "cq_call_ok c" using Cons.prems by (auto simp: sized_def)
  note N = cq_exec_none_iff [OF Cons.prems(1) n(3,2)] and E = cq_exec_abs [OF Cons.prems(1) n(3) Cons.prems(3) n(1)]
  show ?case
  proof (cases "cq_exec c q")
    case None
    then show ?thesis using N by simp
  next
    case (Some rq)
    obtain r q1 where rq: "rq = (r, q1)" by (cases rq)
    then obtain st1 where st1: "fifo_step c r st st1" "queue_abs q1 st1" using E Some by auto
    have "cq_run cs q1 = None \<longleftrightarrow> follows_null cs q1"
      by (rule Cons.IH [OF st1(2) _ sized_step [OF st1(1) Cons.prems(3)]]) (use Cons.prems in auto)
    then show ?thesis using Some rq N by (cases "cq_run cs q1") auto
  qed
qed simp

lemma cq_run_completes:
  assumes "list_all cq_call_ok cs" and "length cs < 2 ^ 60"
  shows "cq_run cs (ConcurrentQueue capacity as) = None \<longleftrightarrow> follows_null cs (ConcurrentQueue capacity as)"
    and "cq_run cs (ConcurrentQueue capacity as) = Some (rs, q) \<Longrightarrow> \<exists>st. fifo_run cs rs [] st \<and> queue_abs q st"
  using cq_run_none_iff [OF abs_new assms(1), of 0 capacity as] cq_run_abs [OF abs_new assms(1), of 0 capacity as] assms(2) by (simp_all add: sized_def)

lemma fifo_run_answers:
  "fifo_run cs rs st st' \<Longrightarrow> list_all2 enqueued cs rs \<Longrightarrow> \<forall>t x. TryEnqueue t x \<notin> set cs \<Longrightarrow> rs = fifo_answers cs st"
proof (induction cs rs st st' rule: fifo_run.induct)
  case (2 c cs r rs st st')
  then obtain st1 where st1: "fifo_step c r st st1" "fifo_run cs rs st1 st'" by auto
  then have "rs = fifo_answers cs st1" using 2 by auto
  moreover have "r # fifo_answers cs st1 = fifo_answers (c # cs) st"
    using st1(1) 2(3,4) by (cases "(c, r, st, st1)" rule: fifo_step.cases) (auto simp: enqueued_def prod_eq_iff)
  ultimately show ?case by simp
qed simp_all

lemma healthy_new: "healthy (ConcurrentQueue capacity [])"
  by (auto simp: healthy_def ConcurrentQueue_def populate_initial_block_list_def pool_malloc_def Let_def)

text \<open>
  A run in which the second allocation fails, that of the first producer: the element is refused, and the thread tries
  again.
\<close>

definition example_calls :: "nat cq_call list" where
  "example_calls = [TryEnqueue 7 10, TryEnqueue 7 10, TryEnqueue 39 20, SizeApprox, TryDequeue, TryDequeue, TryDequeue]"

lemma example_run:
  "map_option fst (cq_run example_calls (ConcurrentQueue 64 [True, False])) =
     Some [Accepted False, Accepted True, Accepted True, Counted 2, Dequeued (Some 20), Dequeued (Some 10), Dequeued None]"
  by code_simp

lemma example_ok: "list_all cq_call_ok example_calls" "length example_calls < 2 ^ 60" "\<forall>t x. Enqueue t x \<notin> set example_calls"
  by (simp_all add: example_calls_def invalid_thread_id_def)

text \<open>
  The same calls when it is the third allocation that fails, that of the block index of the first producer.
\<close>

lemma example_null: "follows_null example_calls (ConcurrentQueue 64 [True, True, False])"
  by code_simp

text \<open>C19: 
  Every sequence of fewer than \<open>2 ^ 60\<close> calls by real threads on a new queue, whatever the capacity and whatever allocations
  fail, either reaches a call whose producer was left without a block index by a failed allocation, and only then ends
  early, or runs to its end and answers each call as the queues per thread would: elements of one thread leave in the
  order they were enqueued, a dequeue takes the head of the longest of the first three queues that are not empty and fails
  only when all are empty, and the count is exact.
\<close>
theorem mpmc_queue_refines:
  assumes "list_all cq_call_ok calls" and "length calls < 2 ^ 60"
  shows "case cq_run calls (ConcurrentQueue capacity as) of
      None \<Rightarrow> follows_null calls (ConcurrentQueue capacity as)
    | Some (rs, q) \<Rightarrow> \<not> follows_null calls (ConcurrentQueue capacity as) \<and> (\<exists>st. fifo_run calls rs [] st \<and> queue_abs q st)"
  using cq_run_completes [OF assms, of capacity as] by (auto split: option.split)

theorem mpmc_queue_refines_witness:
  "(\<exists>q st. cq_run example_calls (ConcurrentQueue 64 [True, False]) =
      Some ([Accepted False, Accepted True, Accepted True, Counted 2, Dequeued (Some 20), Dequeued (Some 10), Dequeued None], q) \<and>
    fifo_run example_calls [Accepted False, Accepted True, Accepted True, Counted 2, Dequeued (Some 20), Dequeued (Some 10), Dequeued None] [] st \<and>
    queue_abs q st) \<and>
   cq_run example_calls (ConcurrentQueue 64 [True, True, False]) = None"
proof
  show "cq_run example_calls (ConcurrentQueue 64 [True, True, False]) = None"
    using mpmc_queue_refines [OF example_ok(1,2), of 64 "[True, True, False]"] example_null by (simp split: option.splits)
qed (use example_run mpmc_queue_refines [OF example_ok(1,2), of 64 "[True, False]"] in fastforce)

text \<open>C20: 
  When no allocation fails, every sequence of \<^verbatim>\<open>enqueue\<close>, \<^verbatim>\<open>try_dequeue\<close> and \<^verbatim>\<open>size_approx\<close> runs to its end, every enqueue
  succeeds, and the answers are exactly those of the specification.
\<close>
theorem mpmc_queue_answers:
  assumes "list_all cq_call_ok calls" and "length calls < 2 ^ 60" and "\<forall>t x. TryEnqueue t x \<notin> set calls"
  shows "map_option fst (cq_run calls (ConcurrentQueue capacity [])) = Some (fifo_answers calls [])"
  using cq_run_abs [OF abs_new assms(1), of 0 capacity "[]"] assms(2,3) healthy_new [of capacity] fifo_run_answers
  by (auto simp: sized_def split: option.splits)

theorem mpmc_queue_answers_witness:
  "map_option fst (cq_run [Enqueue 7 (10 :: nat), Enqueue 39 20, Enqueue 7 11, SizeApprox, TryDequeue, TryDequeue, TryDequeue, TryDequeue] (ConcurrentQueue 64 [])) =
     Some [Accepted True, Accepted True, Accepted True, Counted 3, Dequeued (Some 10), Dequeued (Some 20), Dequeued (Some 11), Dequeued None]"
proof -
  have "fifo_answers [Enqueue 7 (10 :: nat), Enqueue 39 20, Enqueue 7 11, SizeApprox, TryDequeue, TryDequeue, TryDequeue, TryDequeue] [] =
      [Accepted True, Accepted True, Accepted True, Counted 3, Dequeued (Some 10), Dequeued (Some 20), Dequeued (Some 11), Dequeued None]" by code_simp
  then show ?thesis
    using mpmc_queue_answers [of "[Enqueue 7 (10 :: nat), Enqueue 39 20, Enqueue 7 11, SizeApprox, TryDequeue, TryDequeue, TryDequeue, TryDequeue]" 64]
    by (simp add: invalid_thread_id_def del: cq_run.simps)
qed

text \<open>C29: 
  A producer whose block index could not be allocated is handed out all the same; the first enqueue then follows the
  null pointer.
\<close>
theorem mpmc_failed_index_null:
  "\<exists>p. new_imp_producer False = Some p \<and> (\<forall>canAlloc x pool. imp_enqueue canAlloc x (p, pool) = None)"
proof -
  obtain p where p: "new_imp_producer False = Some p" using new_imp_producer_state by blast
  then have "broken p" by (auto simp: new_imp_producer_def new_block_index_def broken_def counters_def current_index_def)
  then show ?thesis using p by (auto intro: broken_enqueue)
qed

end
