(* ===== verification/MpmcLimit.thy ===== *)
theory MpmcLimit
  imports MpmcRefine
begin

text \<open>
  The limit of \<^verbatim>\<open>try_enqueue\<close>, which may not allocate: the block index of a producer
  (\<^verbatim>\<open>src/lib/concurrentqueue/concurrentqueue.h\<close>) keeps the 32 entries it was created with, so a thread that only uses
  \<^verbatim>\<open>try_enqueue\<close> never has more than 1024 elements in the queue, whatever the capacity the queue was made for and whatever
  the other threads do.
\<close>

section \<open>The size of the block index\<close>

definition index_capacity :: "imp_producer \<Rightarrow> u64 option" where
  "index_capacity p = map_option bih_capacity (current_index p)"

definition small_index :: "imp_producer \<Rightarrow> bool" where
  "small_index p \<longleftrightarrow> index_capacity p = None \<or> index_capacity p = Some IMPLICIT_INITIAL_INDEX_SIZE"

text \<open>The producer of thread \<open>t\<close>, when it has one, still has the index it was created with.\<close>

definition small_owner :: "u64 \<Rightarrow> 'a cqueue \<Rightarrow> u64 list \<Rightarrow> bool" where
  "small_owner t q owners \<longleftrightarrow> (\<forall>i < length owners. owners ! i = t \<longrightarrow> small_index (cq_producers q ! i))"

definition small_for :: "u64 \<Rightarrow> 'a cqueue \<Rightarrow> bool" where
  "small_for t q \<longleftrightarrow> (\<exists>owners H X B. queue_rel q owners H X B \<and> small_owner t q owners)"

lemma index_capacity_simps [simp]:
  "index_capacity (set_value e v p) = index_capacity p" "index_capacity (set_key e k p) = index_capacity p"
  "index_capacity (set_index_tail t p) = index_capacity p" "index_capacity (p\<lparr>tailIndex := a\<rparr>) = index_capacity p"
  "index_capacity (p\<lparr>ip_tailBlock := b\<rparr>) = index_capacity p" "index_capacity (p\<lparr>headIndex := a\<rparr>) = index_capacity p"
  "index_capacity (p\<lparr>dequeueOptimisticCount := a\<rparr>) = index_capacity p" "index_capacity (p\<lparr>dequeueOvercommit := a\<rparr>) = index_capacity p"
  "index_capacity (p\<lparr>inactive := c\<rparr>) = index_capacity p"
  by (auto simp: index_capacity_def current_index_def set_value_def set_key_def set_index_tail_def split: list.split)

lemma insert_capacity:
  "insert_block_index_entry False i (p, pool) = Some (r, p', pool') \<Longrightarrow> index_capacity p' = index_capacity p"
  by (auto simp: insert_block_index_entry_def Let_def split: if_splits bind_splits)

lemma attach_capacity: "imp_attach_block canAlloc e (p, pool) = Some (r, p', pool') \<Longrightarrow> index_capacity p' = index_capacity p"
  by (auto simp: imp_attach_block_def rewind_block_index_tail_def split: bind_splits option.splits)

lemma store_capacity: "imp_store i x (p, pool) = Some (r, p', pool') \<Longrightarrow> index_capacity p' = index_capacity p"
  by (auto simp: imp_store_def split: bind_splits)

lemma new_tail_capacity: "imp_new_tail_block False (p, pool) = Some (r, p', pool') \<Longrightarrow> index_capacity p' = index_capacity p"
  by (auto simp: imp_new_tail_block_def Let_def split: if_splits bind_splits option.splits dest!: insert_capacity attach_capacity)

lemma enqueue_capacity: "imp_enqueue False x (p, pool) = Some (r, p', pool') \<Longrightarrow> index_capacity p' = index_capacity p"
  by (auto simp: imp_enqueue_def Let_def split: if_splits bind_splits dest!: new_tail_capacity store_capacity)

lemma take_capacity: "imp_take i (p, pool) = Some (r, p', pool') \<Longrightarrow> index_capacity p' = index_capacity p"
  by (auto simp: imp_take_def Let_def split: if_splits bind_splits)

lemma dequeue_capacity: "imp_dequeue (p, pool) = Some (r, p', pool') \<Longrightarrow> index_capacity p' = index_capacity p"
  by (auto simp: imp_dequeue_def Let_def split: if_splits bind_splits dest!: take_capacity)

lemma new_small: "new_imp_producer ok = Some p \<Longrightarrow> small_index p"
  by (auto simp: new_imp_producer_def new_block_index_def small_index_def index_capacity_def current_index_def Let_def split: if_splits bind_splits)

section \<open>What keeps it\<close>

text \<open>The tables determine which thread has which producer.\<close>

lemma queue_rel_owners:
  assumes "queue_rel q owners H X B" and "queue_rel q owners' H' X' B'"
  shows "owners' = owners"
proof (rule nth_equalityI)
  show "length owners' = length owners" using assms by (simp add: queue_rel_def)
  fix i assume i: "i < length owners'"
  have len: "length owners = length owners'" and R: "hash_rel (implicitProducerHash q) owners" and R': "hash_rel (implicitProducerHash q) owners'"
    using assms by (simp_all add: queue_rel_def)
  have mem: "owners ! i \<in> set owners" using i len by simp
  then obtain tab where tab: "tab \<in> set (implicitProducerHash q)" "owners ! i \<in> table_keys tab" using R unfolding hash_rel_def by blast
  obtain v where v: "table_has tab (owners ! i) v" using table_keys_has [OF tab(2)] by blast
  obtain j where j: "j < length owners" "owners ! j = owners ! i" "v = Some j" using R tab(1) v unfolding hash_rel_def by blast
  have "distinct owners" using R by (simp add: hash_rel_def)
  then have "j = i" using j(1,2) i len by (simp add: nth_eq_iff_index_eq)
  moreover obtain k where "owners' ! k = owners ! i" "v = Some k" using R' tab(1) v unfolding hash_rel_def by blast
  ultimately show "owners' ! i = owners ! i" using j(3) by simp
qed

lemma get_or_add_small:
  assumes abs: "queue_abs q st" and ident: "ident \<noteq> invalid_thread_id" and room: "Suc (length st) < 2 ^ 60" and small: "small_for t q"
    and res: "get_or_add_implicit_producer ident q = Some (r, q')"
  shows "\<exists>owners H X B. queue_rel q' owners H X B \<and> small_owner t q' owners \<and> (\<forall>i. r = Some i \<longrightarrow> i < length owners \<and> owners ! i = ident)"
proof -
  obtain owners H X B where rel: "queue_rel q owners H X B" and sm: "small_owner t q owners" using small by (auto simp: small_for_def)
  have len: "length (cq_producers q) = length owners" using rel by (simp add: queue_rel_def)
  obtain owners1 H1 X1 B1 where rel1: "queue_rel q owners1 H1 X1 B1" "st = queue_view owners1 X1" using abs by (auto simp: queue_abs_def)
  then have room': "Suc (length owners) < 2 ^ 60" using room queue_rel_owners [OF rel rel1(1)] by simp
  show ?thesis
  proof (cases "ident \<in> set owners")
    case True
    then obtain i where i: "i < length owners" "owners ! i = ident" by (auto simp: in_set_conv_nth)
    then have "r = Some i" "queue_rel q' owners H X B" "cq_producers q' = cq_producers q" using get_or_add_known [OF rel ident] res by auto
    then show ?thesis using i sm by (auto simp: small_owner_def)
  next
    case False
    note G = get_or_add_new [OF rel ident False room']
    show ?thesis
    proof (cases r)
      case None
      then have "queue_rel q' owners H X B" "cq_producers q' = cq_producers q" using G res by simp_all
      then show ?thesis using sm None unfolding small_owner_def by auto
    next
      case (Some i)
      then have i: "i = length owners" and rel': "queue_rel q' (owners @ [ident]) (H(i := 0)) (X(i := [])) (B(i := []))" using G res by auto
      obtain p ok where p: "new_imp_producer ok = Some p" "cq_producers q' = cq_producers q @ [p]" using G res Some by auto
      have "small_owner t q' (owners @ [ident])" using p(2) sm len new_small [OF p(1)] by (simp add: small_owner_def nth_append less_Suc_eq)
      moreover have "\<forall>j. r = Some j \<longrightarrow> j < length (owners @ [ident]) \<and> (owners @ [ident]) ! j = ident" using i Some by simp
      ultimately show ?thesis using rel' by blast
    qed
  qed
qed

text \<open>An enqueue by another thread, or one that may not allocate.\<close>

lemma enqueue_small:
  assumes "queue_abs q st" and "ident \<noteq> invalid_thread_id" and "Suc (length st) < 2 ^ 60" and "small_for t q"
    and res: "cq_inner_enqueue canAlloc ident x q = Some (r, q')" and who: "ident = t \<longrightarrow> \<not> canAlloc"
  shows "small_for t q'"
proof -
  obtain i q1 where G: "get_or_add_implicit_producer ident q = Some (i, q1)" using res by (auto simp: cq_inner_enqueue_def split: bind_splits)
  obtain owners H X B where rel: "queue_rel q1 owners H X B" "small_owner t q1 owners" "\<forall>j. i = Some j \<longrightarrow> j < length owners \<and> owners ! j = ident"
    using get_or_add_small [OF assms(1-4) G] by blast
  show ?thesis
  proof (cases i)
    case None
    then show ?thesis using res G rel by (auto simp: cq_inner_enqueue_def small_for_def)
  next
    case (Some j)
    then have j: "j < length owners" "owners ! j = ident" using rel(3) by auto
    have p: "nth_opt (cq_producers q1) j = Some (cq_producers q1 ! j)" using rel(1) j(1) by (simp add: nth_opt_def queue_rel_def)
    obtain p' pool' where E: "imp_enqueue canAlloc x (cq_producers q1 ! j, cq_pool q1) = Some (r, p', pool')"
      "q' = q1\<lparr>cq_producers := (cq_producers q1)[j := p'], cq_pool := pool'\<rparr>"
      using res G Some p by (auto simp: cq_inner_enqueue_def split: bind_splits)
    obtain H' X' B' where "queue_rel q' owners H' X' B'" using enqueue_at [OF rel(1) j(1), of canAlloc x] E by auto
    moreover have "small_index p'" if "ident = t"
      using enqueue_capacity [of x _ _ r p' pool'] E(1) who that rel(2) j by (auto simp: small_owner_def small_index_def)
    then have "small_owner t q' owners" using rel(2) E(2) j rel(1) by (auto simp: small_owner_def nth_list_update queue_rel_def)
    ultimately show ?thesis by (auto simp: small_for_def)
  qed
qed

text \<open>A dequeue, whichever producer it serves.\<close>

definition same_capacities :: "'a cqueue \<Rightarrow> 'a cqueue \<Rightarrow> bool" where
  "same_capacities q q' \<longleftrightarrow> map index_capacity (cq_producers q') = map index_capacity (cq_producers q)"

lemma dequeue_capacities: "cq_dequeue_from i q = Some (x, q') \<Longrightarrow> same_capacities q q'"
  by (auto simp: cq_dequeue_from_def same_capacities_def nth_opt_def map_update list_update_same_conv dest!: dequeue_capacity split: if_splits bind_splits)

lemma same_capacities_trans: "same_capacities q q1 \<Longrightarrow> same_capacities q1 q2 \<Longrightarrow> same_capacities q q2"
  by (simp add: same_capacities_def)

lemma try_others_capacities: "try_others b is q = Some (x, q') \<Longrightarrow> same_capacities q q'"
proof (induction b "is" q rule: try_others.induct)
  case (2 best i ptrs q)
  show ?case
  proof (cases "i = best")
    case False
    then obtain y q1 where d: "cq_dequeue_from i q = Some (y, q1)" using 2(3) by (auto split: bind_splits)
    note D = dequeue_capacities [OF d]
    show ?thesis
    proof (cases y)
      case None
      then have "same_capacities q1 q'" using 2(1) [OF False d refl] 2(3) False d by simp
      then show ?thesis using D same_capacities_trans by blast
    qed (use 2(3) False d D in simp)
  qed (use 2(2,3) in simp)
qed (simp add: same_capacities_def)

lemma try_dequeue_capacities: "cq_try_dequeue q = Some (x, q') \<Longrightarrow> same_capacities q q'"
  by (auto simp: cq_try_dequeue_def split_beta Let_def split: if_splits bind_splits option.splits
      dest!: dequeue_capacities try_others_capacities intro: same_capacities_trans) (simp_all add: same_capacities_def)

lemma dequeue_small:
  assumes small: "small_for t q" and res: "cq_try_dequeue q = Some (x, q')"
  shows "small_for t q'"
proof -
  obtain owners H X B where rel: "queue_rel q owners H X B" and sm: "small_owner t q owners" using small by (auto simp: small_for_def)
  obtain H' X' B' where rel': "queue_rel q' owners H' X' B'" using try_dequeue_ok [OF rel] res rel by (auto split: option.splits)
  have len: "length (cq_producers q) = length owners" "length (cq_producers q') = length owners" using rel rel' by (simp_all add: queue_rel_def)
  then have "index_capacity (cq_producers q' ! i) = index_capacity (cq_producers q ! i)" if "i < length owners" for i
    using arg_cong [OF try_dequeue_capacities [OF res, unfolded same_capacities_def], of "\<lambda>cs. cs ! i"] that by simp
  then have "small_owner t q' owners" using sm by (simp add: small_owner_def small_index_def)
  then show ?thesis using rel' by (auto simp: small_for_def)
qed

lemma cq_exec_small:
  assumes "cq_exec c q = Some (r, q')" and "\<forall>x. c \<noteq> Enqueue t x" and "queue_abs q st" and "cq_call_ok c" and "Suc (length st) < 2 ^ 60" and "small_for t q"
  shows "small_for t q'"
  using assms enqueue_small [OF assms(3) _ assms(5,6)] dequeue_small [OF assms(6)]
  by (cases c) (auto simp: cq_enqueue_def cq_try_enqueue_def INITIAL_IMPLICIT_PRODUCER_HASH_SIZE_def split: bind_splits)

lemma cq_run_small:
  assumes "cq_run cs q = Some (rs, q')" and "\<forall>x. Enqueue t x \<notin> set cs" and "queue_abs q st" and "list_all cq_call_ok cs"
    and "sized n st" and "n + length cs < 2 ^ 60" and "small_for t q"
  shows "small_for t q'"
  using assms
proof (induction cs arbitrary: q st n rs)
  case (Cons c cs)
  obtain r q1 rs1 where e: "cq_exec c q = Some (r, q1)" "cq_run cs q1 = Some (rs1, q')" using Cons.prems(1) by (auto split: bind_splits)
  have n: "Suc n < 2 ^ 60" "Suc (length st) < 2 ^ 60" "cq_call_ok c" using Cons.prems by (auto simp: sized_def)
  obtain st1 where st1: "fifo_step c r st st1" "queue_abs q1 st1" using cq_exec_abs [OF Cons.prems(3) n(3) Cons.prems(5) n(1)] e(1) by auto
  have "\<forall>x. c \<noteq> Enqueue t x" using Cons.prems(2) by auto
  then have "small_for t q1" using cq_exec_small [OF e(1) _ Cons.prems(3) n(3,2) Cons.prems(7)] by blast
  then show ?case using Cons.IH [OF e(2) _ st1(2) _ sized_step [OF st1(1) Cons.prems(5)]] Cons.prems by auto
qed simp

section \<open>The limit\<close>

lemma small_index_limit:
  assumes "prod_state p blks h xs bs" and "small_index p"
  shows "length xs \<le> 1024"
proof (cases "broken p \<and> xs = []")
  case False
  then have rel: "prod_rel p blks h xs bs" using assms(1) by (auto simp: prod_state_def)
  then obtain c adr spare where R: "ring_at p c adr" "ring_view p adr = spare @ map2 live_entry [h div 32..<h div 32 + length bs] bs"
    by (auto simp: prod_rel_def index_rel_def)
  then obtain hd where hd: "ring_hdr p hd c adr" by (auto simp: ring_at_def)
  then have "unat (bih_capacity hd) = 2 ^ c" "length adr = 2 ^ c" "current_index p = Some hd" by (auto simp: ring_hdr_def)
  then have "length adr = 32" using assms(2) by (auto simp: small_index_def index_capacity_def IMPLICIT_INITIAL_INDEX_SIZE_def)
  then have "length spare + length bs = 32" using arg_cong [OF R(2), of length] by (simp add: ring_view_def)
  then have "(h + length xs + 31) div 32 - h div 32 \<le> 32" using rel by (simp add: prod_rel_def blocks_hold_def num_blocks_def)
  then show ?thesis by linarith
qed simp

lemma small_for_limit:
  assumes abs: "queue_abs q st" and small: "small_for t q" and mem: "(t, xs) \<in> set st"
  shows "length xs \<le> 1024"
proof -
  obtain owners H X B where rel: "queue_rel q owners H X B" and st: "st = queue_view owners X" using abs by (auto simp: queue_abs_def)
  have "small_owner t q owners" using small queue_rel_owners [OF rel] by (auto simp: small_for_def)
  moreover obtain i where i: "i < length owners" "t = owners ! i" "xs = X i" using mem by (auto simp: st queue_view_def)
  ultimately have "small_index (cq_producers q ! i)" by (simp add: small_owner_def)
  moreover have "prod_state (cq_producers q ! i) (cq_blocks (cq_pool q)) (H i) (X i) (B i)" using rel i(1) by (simp add: queue_rel_def)
  ultimately show ?thesis using small_index_limit i(3) by blast
qed

text \<open>Another thread enqueues once, then one thread tries 1025 times, on a queue made for 4096 elements.\<close>

definition limit_calls :: "nat cq_call list" where
  "limit_calls = Enqueue 39 20 # replicate 1025 (TryEnqueue 7 10)"

lemma limit_ok: "list_all cq_call_ok limit_calls" "length limit_calls < 2 ^ 60" "\<forall>x. Enqueue 7 x \<notin> set limit_calls"
  by (auto simp: limit_calls_def invalid_thread_id_def list_all_iff)

lemma limit_completes: "\<not> follows_null limit_calls (ConcurrentQueue 4096 [])"
  using cq_run_completes(1) [OF limit_ok(1,2), of 4096 "[]"] cq_run_abs [OF abs_new limit_ok(1), of 0 4096 "[]"] healthy_new [of 4096] limit_ok(2)
  by (auto simp: sized_def split: option.splits)

lemma all_accepted:
  assumes "fifo_run (replicate n (TryEnqueue t x)) rs st st'" and "Accepted False \<notin> set rs" and "(t, xs) \<in> set st"
  shows "(t, xs @ replicate n x) \<in> set st'"
  using assms
proof (induction n arbitrary: rs st xs)
  case 0
  then show ?case by (cases rs) auto
next
  case (Suc n)
  then obtain r rs1 st1 where r: "rs = r # rs1" "fifo_step (TryEnqueue t x) r st st1" "fifo_run (replicate n (TryEnqueue t x)) rs1 st1 st'" by (cases rs) auto
  then have "r = Accepted True" "st1 = fifo_add t x st" using Suc.prems(2) by (cases r; auto split: if_splits)+
  then have "(t, xs @ [x]) \<in> set st1" using Suc.prems(3) by (force simp: fifo_add_def fifo_register_def fifo_update_def)
  then show ?case using Suc.IH [OF r(3)] r(1) Suc.prems(2) by fastforce
qed

text \<open>C27: 
  A thread that only enqueues with \<^verbatim>\<open>try_enqueue\<close> never has more than 1024 elements in the queue, even in a queue made for
  more: after every sequence of fewer than \<open>2 ^ 60\<close> calls by real threads in which this thread does not call \<^verbatim>\<open>enqueue\<close>
  (the others may), whatever allocations fail, short of reaching a producer left without a block index.
\<close>
theorem mpmc_try_enqueue_limit:
  assumes "list_all cq_call_ok calls" and "length calls < 2 ^ 60" and "\<forall>x. Enqueue t x \<notin> set calls"
    and "\<not> follows_null calls (ConcurrentQueue capacity as)"
  shows "\<exists>rs q st. cq_run calls (ConcurrentQueue capacity as) = Some (rs, q) \<and> fifo_run calls rs [] st \<and> queue_abs q st \<and>
    (\<forall>xs. (t, xs) \<in> set st \<longrightarrow> length xs \<le> 1024)"
proof -
  obtain rs q where r: "cq_run calls (ConcurrentQueue capacity as) = Some (rs, q)" using cq_run_completes(1) [OF assms(1,2)] assms(4) by fastforce
  obtain st where st: "fifo_run calls rs [] st" "queue_abs q st" using cq_run_completes(2) [OF assms(1,2) r] by blast
  have "small_for t (ConcurrentQueue capacity as)" unfolding small_for_def small_owner_def using ConcurrentQueue_rel [of capacity as] by fastforce
  then have "small_for t q"
    using cq_run_small [OF r assms(3) abs_new assms(1), of 0] assms(2) by (simp add: sized_def)
  then show ?thesis using r st small_for_limit [OF st(2)] by blast
qed

theorem mpmc_try_enqueue_limit_witness:
  "\<exists>rs q. cq_run limit_calls (ConcurrentQueue 4096 []) = Some (rs, q) \<and> Accepted False \<in> set rs"
proof -
  obtain rs q st where r: "cq_run limit_calls (ConcurrentQueue 4096 []) = Some (rs, q)" "fifo_run limit_calls rs [] st"
    "\<forall>xs. (7, xs) \<in> set st \<longrightarrow> length xs \<le> 1024"
    using mpmc_try_enqueue_limit [OF limit_ok limit_completes] by blast
  have "Accepted False \<in> set rs"
  proof (rule ccontr)
    assume no: "Accepted False \<notin> set rs"
    have "fifo_run (Enqueue 39 20 # TryEnqueue 7 10 # replicate 1024 (TryEnqueue 7 10)) rs [] st"
      using r(2) by (simp add: limit_calls_def flip: replicate_Suc)
    then obtain a b rs' st1 st2 where s: "rs = a # b # rs'" "fifo_step (TryEnqueue 7 10) b st1 st2" "fifo_step (Enqueue 39 20) a [] st1"
      "fifo_run (replicate 1024 (TryEnqueue 7 10)) rs' st2 st" by (cases rs; cases "tl rs") auto
    have "st1 = fifo_add 39 20 []" "st2 = fifo_add 7 10 st1" using s(1-3) no by (cases a; cases b; auto split: if_splits)+
    then have "(7, [10]) \<in> set st2" by (simp add: fifo_add_def fifo_register_def fifo_update_def)
    from all_accepted [OF s(4) _ this] no s(1) have "(7, [10] @ replicate 1024 10) \<in> set st" by simp
    then show False using r(3) by fastforce
  qed
  then show ?thesis using r(1) by blast
qed

end
