(* ===== verification/MpmcDestroy.thy ===== *)
theory MpmcDestroy
  imports MpmcRefine
begin

text \<open>
  The destructors of \<^verbatim>\<open>ImplicitProducer\<close> and \<^verbatim>\<open>ConcurrentQueue\<close> (\<^verbatim>\<open>src/lib/concurrentqueue/concurrentqueue.h\<close>): the
  remaining elements are destroyed, every block goes to the free list, the chains of block index headers and of hash
  tables are walked and freed, and the free list is walked to free the blocks that were allocated one by one. The lemmas
  show that each of them is freed exactly once.
\<close>

section \<open>Model\<close>

text \<open>The loop that destroys the remaining elements; \<open>block\<close> is the block of the previous element.\<close>

definition drain_block :: "imp_producer \<Rightarrow> u64 \<Rightarrow> nat option \<Rightarrow> 'a block_pool \<Rightarrow> (nat option \<times> 'a block_pool) option" where
  "drain_block p index block pool =
     (if index AND (BLOCK_SIZE - 1) = 0 \<or> block = None
      then do {
        pool \<leftarrow> (case block of Some b \<Rightarrow> add_block_to_free_list b pool | None \<Rightarrow> Some pool);
        e \<leftarrow> get_block_index_entry_for_index index p;
        entry \<leftarrow> nth_opt (bi_entries p) e;
        v \<leftarrow> bie_value entry;
        Some (v, pool)
      }
      else Some (block, pool))"

function imp_drain :: "imp_producer \<Rightarrow> u64 \<Rightarrow> u64 \<Rightarrow> nat option \<Rightarrow> 'a block_pool \<Rightarrow> 'a block_pool option" where
  "imp_drain p tail index block pool =
     (if index = tail then Some pool
      else (case drain_block p index block pool of
          None \<Rightarrow> None
        | Some (block, pool) \<Rightarrow>
            (case Option.bind block (\<lambda>b. upd_cq_block b (destroy_elem index) pool) of
               None \<Rightarrow> None
             | Some pool \<Rightarrow> imp_drain p tail (index + 1) block pool)))"
  by pat_completeness auto

lemma unat_less_step: "index \<noteq> tail \<Longrightarrow> unat (tail - (index + 1)) < unat (tail - index)" for index tail :: u64
proof -
  assume "index \<noteq> tail"
  then have "tail - index \<noteq> 0" by simp
  moreover have "tail - (index + 1) = tail - index - 1" by simp
  ultimately show ?thesis by (metis measure_unat)
qed

termination imp_drain
  by (relation "measure (\<lambda>(p, tail, index, block, pool). unat (tail - index))") (simp_all add: unat_less_step)

declare imp_drain.simps [simp del]

text \<open>
  The block index. The headers of a producer are numbered in the order they were allocated, so \<open>length prev\<close> is the header
  in front of the chain \<open>prev\<close>; the first loop destroys the entries the newest header points to, the second frees the
  headers along \<^verbatim>\<open>prev\<close>.
\<close>

function destroy_entries :: "block_index_header \<Rightarrow> u64 \<Rightarrow> nat list option" where
  "destroy_entries h i =
     (if i = bih_capacity h then Some []
      else do { e \<leftarrow> nth_opt (bih_index h) (unat i); es \<leftarrow> destroy_entries h (i + 1); Some (e # es) })"
  by pat_completeness auto

termination destroy_entries
  by (relation "measure (\<lambda>(h, i). unat (bih_capacity h - i))") (simp_all add: unat_less_step)

declare destroy_entries.simps [simp del]

fun free_headers :: "block_index_header list \<Rightarrow> nat list" where
  "free_headers [] = []"
| "free_headers (h # prev) = length prev # free_headers prev"

definition destroy_block_index :: "imp_producer \<Rightarrow> (nat list \<times> nat list) option" where
  "destroy_block_index p =
     (case blockIndex p of
        [] \<Rightarrow> Some ([], [])
      | h # prev \<Rightarrow> do { es \<leftarrow> destroy_entries h 0; Some (es, free_headers (h # prev)) })"

text \<open>The destructor of a producer; the result has the block index entries destroyed and the headers freed.\<close>

definition imp_destroy :: "imp_producer \<Rightarrow> 'a block_pool \<Rightarrow> (nat list \<times> nat list \<times> 'a block_pool) option" where
  "imp_destroy p pool =
     do {
       let tail = tailIndex p;
       let index = headIndex p;
       assert_that (index = tail \<or> circular_less_than index tail);
       let forceFreeLastBlock = index \<noteq> tail;
       pool \<leftarrow> imp_drain p tail index None pool;
       pool \<leftarrow> (case ip_tailBlock p of
           Some b \<Rightarrow> if forceFreeLastBlock \<or> tail AND (BLOCK_SIZE - 1) \<noteq> 0 then add_block_to_free_list b pool else Some pool
         | None \<Rightarrow> Some pool);
       (es, hs) \<leftarrow> destroy_block_index p;
       Some (es, hs, pool)
     }"

text \<open>The loop over the free list: the blocks that were allocated dynamically are freed.\<close>

partial_function (option) destroy_free_list :: "'a block_pool \<Rightarrow> nat option \<Rightarrow> nat list option" where
  "destroy_free_list pool block =
     (case block of
        None \<Rightarrow> Some []
      | Some b \<Rightarrow> do {
          blk \<leftarrow> nth_opt (cq_blocks pool) b;
          bs \<leftarrow> destroy_free_list pool (freeListNext (freeList pool) b);
          Some (if dynamicallyAllocated blk then b # bs else bs)
        })"

declare destroy_free_list.simps [code]

text \<open>
  What is destroyed and freed, in the order it happens: the block index entries and headers with the number of their
  producer, the hash tables numbered in the order they were made (table 0 is part of the queue) and their slots.
\<close>

record cq_freed =
  freed_producers :: "nat list"
  destroyed_entries :: "(nat \<times> nat) list"
  freed_headers :: "(nat \<times> nat) list"
  destroyed_slots :: "(nat \<times> nat) list"
  freed_hashes :: "nat list"
  freed_blocks :: "nat list"
  freed_pool :: bool

text \<open>The loop over the producers; implicit producers have no token.\<close>

fun destroy_producers ::
  "imp_producer list \<Rightarrow> nat list \<Rightarrow> 'a block_pool \<Rightarrow> (nat list \<times> (nat \<times> nat) list \<times> (nat \<times> nat) list \<times> 'a block_pool) option" where
  "destroy_producers ps [] pool = Some ([], [], [], pool)"
| "destroy_producers ps (ptr # ptrs) pool =
     do {
       p \<leftarrow> nth_opt ps ptr;
       (es, hs, pool) \<leftarrow> imp_destroy p pool;
       (ptrs', es', hs', pool) \<leftarrow> destroy_producers ps ptrs pool;
       Some (ptr # ptrs', map (Pair ptr) es @ es', map (Pair ptr) hs @ hs', pool)
     }"

text \<open>The loop over the hash tables: the last one is part of the queue and is not freed.\<close>

function destroy_kvps :: "producer_hash \<Rightarrow> u64 \<Rightarrow> nat list option" where
  "destroy_kvps hash i =
     (if i = ph_capacity hash then Some []
      else do { e \<leftarrow> nth_opt (ph_entries hash) (unat i); is \<leftarrow> destroy_kvps hash (i + 1); Some (unat i # is) })"
  by pat_completeness auto

termination destroy_kvps
  by (relation "measure (\<lambda>(hash, i). unat (ph_capacity hash - i))") (simp_all add: unat_less_step)

declare destroy_kvps.simps [simp del]

fun destroy_hashes :: "producer_hash list \<Rightarrow> ((nat \<times> nat) list \<times> nat list) option" where
  "destroy_hashes [] = Some ([], [])"
| "destroy_hashes (hash # prev) =
     (if prev \<noteq> []
      then do {
        is \<leftarrow> destroy_kvps hash 0;
        (slots, hashes) \<leftarrow> destroy_hashes prev;
        Some (map (Pair (length prev)) is @ slots, length prev # hashes)
      }
      else destroy_hashes prev)"

text \<open>\<^verbatim>\<open>~ConcurrentQueue\<close>; the blocks of the initial pool are one array.\<close>

definition ConcurrentQueue_destroy :: "'a cqueue \<Rightarrow> cq_freed option" where
  "ConcurrentQueue_destroy q =
     do {
       (ptrs, es, hs, pool) \<leftarrow> destroy_producers (cq_producers q) (producerListTail q) (cq_pool q);
       (slots, hashes) \<leftarrow> (if INITIAL_IMPLICIT_PRODUCER_HASH_SIZE \<noteq> 0 then destroy_hashes (implicitProducerHash q) else Some ([], []));
       bs \<leftarrow> destroy_free_list pool (freeListHead (freeList pool));
       Some \<lparr>freed_producers = ptrs, destroyed_entries = es, freed_headers = hs, destroyed_slots = slots, freed_hashes = hashes,
             freed_blocks = bs, freed_pool = (initialBlockPoolSize pool \<noteq> 0)\<rparr>
     }"

section \<open>What has to be freed\<close>

definition exactly_once :: "'b list \<Rightarrow> 'b set \<Rightarrow> bool" where
  "exactly_once xs A \<longleftrightarrow> distinct xs \<and> set xs = A"

text \<open>Everything the queue has allocated.\<close>

definition header_addrs :: "'a cqueue \<Rightarrow> (nat \<times> nat) set" where
  "header_addrs q = {(i, k). i < length (cq_producers q) \<and> k < length (blockIndex (cq_producers q ! i))}"

definition entry_addrs :: "'a cqueue \<Rightarrow> (nat \<times> nat) set" where
  "entry_addrs q = {(i, e). i < length (cq_producers q) \<and> e < length (bi_entries (cq_producers q ! i))}"

definition slot_addrs :: "'a cqueue \<Rightarrow> (nat \<times> nat) set" where
  "slot_addrs q = {(k, i). 0 < k \<and> k < length (implicitProducerHash q) \<and> i < length (ph_entries (rev (implicitProducerHash q) ! k))}"

definition block_addrs :: "'a cqueue \<Rightarrow> nat set" where
  "block_addrs q = {b. b < length (cq_blocks (cq_pool q)) \<and> dynamicallyAllocated (cq_blocks (cq_pool q) ! b)}"

definition frees_once :: "'a cqueue \<Rightarrow> cq_freed \<Rightarrow> bool" where
  "frees_once q f \<longleftrightarrow>
     exactly_once (freed_producers f) {..<length (cq_producers q)} \<and>
     exactly_once (destroyed_entries f) (entry_addrs q) \<and> exactly_once (freed_headers f) (header_addrs q) \<and>
     exactly_once (destroyed_slots f) (slot_addrs q) \<and> exactly_once (freed_hashes f) {0<..<length (implicitProducerHash q)} \<and>
     exactly_once (freed_blocks f) (block_addrs q) \<and> freed_pool f = (initialBlockPoolSize (cq_pool q) \<noteq> 0)"

text \<open>The loops over the block index.\<close>

lemma unat_succ_below:
  fixes i c :: u64
  assumes "i \<noteq> c" and "unat i \<le> unat c"
  shows "unat i < unat c" and "unat (i + 1) = Suc (unat i)"
proof -
  show lt: "unat i < unat c" using assms by (metis le_neq_implies_less word_unat_eq_iff)
  moreover have "unat c < 2 ^ 64" using unsigned_less [of c] by simp
  ultimately show "unat (i + 1) = Suc (unat i)" unfolding unat_add_u64 by simp
qed

lemma destroy_entries_from:
  assumes "length (bih_index h) = unat (bih_capacity h)" and "unat i \<le> unat (bih_capacity h)"
  shows "destroy_entries h i = Some (drop (unat i) (bih_index h))"
  using assms
proof (induction h i rule: destroy_entries.induct)
  case (1 h i)
  show ?case
  proof (cases "i = bih_capacity h")
    case False
    note lt = unat_succ_below(1) [OF False "1.prems"(2)] and s = unat_succ_below(2) [OF False "1.prems"(2)]
    have "destroy_entries h (i + 1) = Some (drop (Suc (unat i)) (bih_index h))"
      using "1.IH" [OF False, of "bih_index h ! unat i"] lt "1.prems"(1) by (simp add: s)
    then show ?thesis using False lt "1.prems"(1) by (subst destroy_entries.simps) (simp add: Cons_nth_drop_Suc)
  qed (use "1.prems" in \<open>simp add: destroy_entries.simps\<close>)
qed

lemma free_headers_eq: "free_headers hs = rev [0..<length hs]"
  by (induction hs) simp_all

lemma destroy_block_index_ok:
  assumes "prod_state p blks h xs bs"
  shows "\<exists>es. destroy_block_index p = Some (es, rev [0..<length (blockIndex p)]) \<and> exactly_once es {..<length (bi_entries p)}"
proof (cases "broken p")
  case True
  then show ?thesis by (simp add: destroy_block_index_def broken_def exactly_once_def)
next
  case False
  then obtain c adr hdr where "ring_hdr p hdr c adr" using assms by (auto simp: prod_state_def prod_rel_def index_rel_def ring_at_def)
  note R = ring_hdrD [OF this]
  obtain prev where b: "blockIndex p = hdr # prev" using R(1) by (auto simp: current_index_def split: list.splits)
  have "destroy_entries hdr 0 = Some (bih_index hdr)" using destroy_entries_from [of hdr 0] R(2,5) by simp
  moreover have idx: "distinct (bih_index hdr)" "set (bih_index hdr) \<subseteq> {..<2 ^ c}" using R(8-11) by auto
  moreover have "set (bih_index hdr) = {..<2 ^ c}"
    by (rule card_subset_eq [OF _ idx(2)]) (simp_all add: distinct_card [OF idx(1)] R(5))
  ultimately show ?thesis using b R(11) by (simp add: destroy_block_index_def free_headers_eq exactly_once_def)
qed

text \<open>The loops over the hash tables.\<close>

lemma destroy_kvps_from:
  assumes "length (ph_entries t) = unat (ph_capacity t)" and "unat i \<le> unat (ph_capacity t)"
  shows "destroy_kvps t i = Some [unat i..<length (ph_entries t)]"
  using assms
proof (induction t i rule: destroy_kvps.induct)
  case (1 t i)
  show ?case
  proof (cases "i = ph_capacity t")
    case False
    note lt = unat_succ_below(1) [OF False "1.prems"(2)] and s = unat_succ_below(2) [OF False "1.prems"(2)]
    have "destroy_kvps t (i + 1) = Some [Suc (unat i)..<length (ph_entries t)]"
      using "1.IH" [OF False, of "ph_entries t ! unat i"] lt "1.prems"(1) by (simp add: s)
    then show ?thesis using False lt "1.prems"(1) by (subst destroy_kvps.simps) (simp add: upt_conv_Cons)
  qed (use "1.prems" in \<open>simp add: destroy_kvps.simps\<close>)
qed

lemma exactly_once_append: "exactly_once xs A \<Longrightarrow> exactly_once ys B \<Longrightarrow> A \<inter> B = {} \<Longrightarrow> C = A \<union> B \<Longrightarrow> exactly_once (xs @ ys) C"
  by (auto simp: exactly_once_def)

lemma exactly_once_pair: "exactly_once xs A \<Longrightarrow> exactly_once (map (Pair k) xs) ({k} \<times> A)"
  by (auto simp: exactly_once_def distinct_map inj_on_def)

lemma destroy_hashes_ok:
  assumes "\<forall>t \<in> set ts. length (ph_entries t) = unat (ph_capacity t)"
  shows "\<exists>slots. destroy_hashes ts = Some (slots, rev [1..<length ts]) \<and>
    exactly_once slots {(k, i). 0 < k \<and> k < length ts \<and> i < length (ph_entries (rev ts ! k))}"
  using assms
proof (induction ts)
  case (Cons t ts)
  then obtain slots where I: "destroy_hashes ts = Some (slots, rev [1..<length ts])"
    "exactly_once slots {(k, i). 0 < k \<and> k < length ts \<and> i < length (ph_entries (rev ts ! k))}" by auto
  show ?case
  proof (cases "ts = []")
    case True
    then show ?thesis by (auto simp: exactly_once_def)
  next
    case False
    let ?n = "length ts"
    have "destroy_kvps t 0 = Some [0..<length (ph_entries t)]" using destroy_kvps_from [of t 0] Cons.prems by simp
    moreover have "exactly_once (map (Pair ?n) [0..<length (ph_entries t)] @ slots)
        {(k, i). 0 < k \<and> k < length (t # ts) \<and> i < length (ph_entries (rev (t # ts) ! k))}"
      by (rule exactly_once_append [OF exactly_once_pair I(2)]) (use False in \<open>auto simp: exactly_once_def nth_append less_Suc_eq\<close>)
    ultimately show ?thesis using False I(1) by (cases ts) auto
  qed
qed (simp add: exactly_once_def)

section \<open>Every block is freed once\<close>

text \<open>The elements of a block when those before index \<open>i\<close> are gone.\<close>

definition elements_hold :: "'a list \<Rightarrow> nat \<Rightarrow> nat \<Rightarrow> 'a cq_block \<Rightarrow> bool" where
  "elements_hold ys i k blk \<longleftrightarrow> elements blk = map (\<lambda>m. slot_val ys i (32 * k + m)) [0..<32]"

lemma elements_hold_destroy:
  assumes "elements_hold (y # ys) i k blk" and "i div 32 = k"
  shows "elements_hold ys (Suc i) k (destroy_elem (word_of_nat i) blk)"
proof -
  have "elements (destroy_elem (word_of_nat i) blk) = (elements blk)[i mod 32 := None]" by (simp add: destroy_elem_def slot_of_nat)
  also have "\<dots> = map (\<lambda>m. slot_val ys (Suc i) (32 * k + m)) [0..<32]"
  proof (rule nth_equalityI)
    fix m assume "m < length ((elements blk)[i mod 32 := None])"
    then have m: "m < 32" using assms(1) by (simp add: elements_hold_def)
    have "32 * k + m = i \<longleftrightarrow> m = i mod 32" using m assms(2) mult_div_mod_eq [of 32 i] by linarith
    then show "(elements blk)[i mod 32 := None] ! m = map (\<lambda>m. slot_val ys (Suc i) (32 * k + m)) [0..<32] ! m"
      using assms(1) m by (auto simp: elements_hold_def nth_list_update slot_val_Cons) (simp add: slot_val_def)
  qed (use assms(1) in \<open>simp add: elements_hold_def\<close>)
  finally show ?thesis by (simp add: elements_hold_def)
qed

lemma elements_hold_other: "elements_hold (y # ys) i k blk \<Longrightarrow> i < 32 * k \<Longrightarrow> elements_hold ys (Suc i) k blk"
  by (simp add: elements_hold_def slot_val_Cons)

lemma elements_hold_gone: "elements_hold ys i k blk \<Longrightarrow> 32 * Suc k \<le> i \<or> ys = [] \<Longrightarrow> elements blk = replicate 32 None"
proof -
  assume e: "elements_hold ys i k blk" and g: "32 * Suc k \<le> i \<or> ys = []"
  have "slot_val ys i (32 * k + m) = None" if "m < 32" for m using g that by (auto simp: slot_val_def)
  then have "map (\<lambda>m. slot_val ys i (32 * k + m)) [0..<32] = map (\<lambda>m. None) [0..<32]" by (intro map_cong) simp_all
  then show ?thesis using e by (simp add: elements_hold_def map_replicate_const)
qed

text \<open>The index leads to the blocks \<open>bs\<close> from the \<open>k\<close>-th on.\<close>

definition finds :: "imp_producer \<Rightarrow> nat \<Rightarrow> nat list \<Rightarrow> bool" where
  "finds p k bs \<longleftrightarrow> (\<forall>j < length bs. \<forall>t. t div 32 = k + j \<longrightarrow>
     (\<exists>e. get_block_index_entry_for_index (word_of_nat t) p = Some e \<and> nth_opt (bi_entries p) e = Some (live_entry (k + j) (bs ! j))))"

lemma index_rel_finds:
  assumes "index_rel p k bs"
  shows "finds p k bs"
proof -
  obtain c adr spare where R: "ring_at p c adr" "ring_view p adr = spare @ map2 live_entry [k..<k + length bs] bs"
    using assms by (auto simp: index_rel_def)
  have len: "length adr = length spare + length bs" using arg_cong [OF R(2), of length] by (simp add: ring_view_def)
  have "nth_opt (bi_entries p) (adr ! (length spare + j)) = Some (live_entry (k + j) (bs ! j))" if "j < length bs" for j
  proof -
    have "ring_view p adr ! (length spare + j) = live_entry (k + j) (bs ! j)" using R(2) that by (simp add: nth_append)
    then show ?thesis using ring_range [OF R(1), of "length spare + j"] that len by (simp add: ring_view_def)
  qed
  then show ?thesis unfolding finds_def using lookup_live [OF R] by blast
qed

lemma finds_tl: "finds p k bs \<Longrightarrow> bs \<noteq> [] \<Longrightarrow> finds p (Suc k) (tl bs)"
  by (cases bs) (force simp: finds_def)+

definition drain_inv :: "imp_producer \<Rightarrow> 'a block_pool \<Rightarrow> nat set \<Rightarrow> nat \<Rightarrow> 'a list \<Rightarrow> nat list \<Rightarrow> nat option \<Rightarrow> bool" where
  "drain_inv p pool used i ys bs pb \<longleftrightarrow>
     finds p (i div 32) bs \<and> pool_inv pool used \<and> set bs \<subseteq> used \<and> distinct bs \<and> length bs = num_blocks i (length ys) \<and> length ys < 2 ^ 63 \<and>
     (\<forall>j < length bs. elements_hold ys i (i div 32 + j) (cq_blocks pool ! (bs ! j))) \<and>
     (if i mod 32 = 0 then \<forall>b. pb = Some b \<longrightarrow> b \<in> used \<and> b \<notin> set bs \<and> elements (cq_blocks pool ! b) = replicate 32 None
      else pb = None \<or> pb = Some (hd bs))"

text \<open>The blocks that are still to be released, the previous one included when its last element is gone.\<close>

definition drain_rest :: "nat \<Rightarrow> nat option \<Rightarrow> nat list \<Rightarrow> nat list" where
  "drain_rest i pb bs = (if i mod 32 = 0 then (case pb of Some b \<Rightarrow> [b] | None \<Rightarrow> []) else []) @ bs"

lemma drain_rest_simps:
  "drain_rest i None bs = bs" "i mod 32 \<noteq> 0 \<Longrightarrow> drain_rest i pb bs = bs" "i mod 32 = 0 \<Longrightarrow> drain_rest i (Some b) bs = b # bs"
  by (simp_all add: drain_rest_def)

lemma drain_block_ok:
  assumes inv: "drain_inv p pool used i (y # ys) bs pb"
  shows "\<exists>pool1. drain_block p (word_of_nat i) pb pool = Some (Some (hd bs), pool1) \<and> pool_inv pool1 (used - set (drain_rest i pb [])) \<and>
    cq_blocks pool1 = cq_blocks pool \<and> bs \<noteq> []"
proof -
  note D = inv [unfolded drain_inv_def]
  have "i div 32 < (i + length (y # ys) + 31) div 32" by simp
  then have ne: "bs \<noteq> []" using D unfolding num_blocks_def by auto
  then obtain e where e: "get_block_index_entry_for_index (word_of_nat i) p = Some e" "nth_opt (bi_entries p) e = Some (live_entry (i div 32) (hd bs))"
    using D unfolding finds_def by (metis add.right_neutral hd_conv_nth length_greater_0_conv)
  have z: "(word_of_nat i :: u64) AND (BLOCK_SIZE - 1) = 0 \<longleftrightarrow> i mod 32 = 0" using slot_of_nat [of i] by (metis slot_of_def unat_eq_zero)
  show ?thesis
  proof (cases "i mod 32 = 0 \<and> pb \<noteq> None")
    case True
    then obtain b where b: "pb = Some b" "b \<in> used" "elements (cq_blocks pool ! b) = replicate 32 None" using D by auto
    then obtain pool1 where "add_block_to_free_list b pool = Some pool1" "pool_inv pool1 (used - {b})" "cq_blocks pool1 = cq_blocks pool"
      using add_block_ok D by blast
    then show ?thesis using True b(1) z e ne by (simp add: drain_block_def drain_rest_def live_entry_def)
  next
    case False
    have pool: "pool_inv pool used" using D by blast
    from False D consider "pb = None" | "i mod 32 \<noteq> 0" "pb = Some (hd bs)" by (metis (full_types))
    then show ?thesis
    proof cases
      case 1
      then have "drain_block p (word_of_nat i) pb pool = Some (Some (hd bs), pool)" using e by (simp add: drain_block_def live_entry_def)
      then show ?thesis using 1 ne pool by (simp add: drain_rest_simps)
    next
      case 2
      then have "drain_block p (word_of_nat i) pb pool = Some (Some (hd bs), pool)" using z by (simp only: drain_block_def) simp
      then show ?thesis using 2 ne pool by (simp add: drain_rest_simps)
    qed
  qed
qed

lemma drain_inv_step:
  assumes inv: "drain_inv p pool used i (y # ys) bs pb" and ne: "bs \<noteq> []"
    and pool1: "pool_inv pool1 (used - set (drain_rest i pb []))" "cq_blocks pool1 = cq_blocks pool"
  defines "pool2 \<equiv> pool1\<lparr>cq_blocks := (cq_blocks pool)[hd bs := destroy_elem (word_of_nat i) (cq_blocks pool ! hd bs)]\<rparr>"
  shows "drain_inv p pool2 (used - set (drain_rest i pb [])) (Suc i) ys (if Suc i mod 32 = 0 then tl bs else bs) (Some (hd bs))"
proof -
  note D = inv [unfolded drain_inv_def]
  let ?k = "i div 32" and ?b = "hd bs" and ?used = "used - set (drain_rest i pb [])"
  obtain ds where bs: "bs = ?b # ds" using ne by (metis list.collapse)
  have sub: "set bs \<subseteq> ?used"
  proof (cases "i mod 32 = 0 \<and> pb \<noteq> None")
    case True
    then obtain b where b: "pb = Some b" "b \<notin> set bs" using D by (metis option.exhaust_sel)
    then show ?thesis using D True drain_rest_simps(3) [of i b "[]"] by auto
  next
    case False
    then have "drain_rest i pb [] = []" using drain_rest_simps(1,2) by (metis)
    then show ?thesis using D by simp
  qed
  have mem: "?b \<in> ?used" using sub ne by (metis hd_in_set subsetD)
  have b: "?b < length (cq_blocks pool)" "length (elements (cq_blocks pool ! ?b)) = 32" "?b \<in> ?used"
    using pool_inv_elements [OF pool1(1) mem] mem pool1(2) by simp_all
  have inv2: "pool_inv pool2 ?used"
    unfolding pool2_def pool1(2) [symmetric] using b pool1 by (intro pool_update [OF pool1(1)]) (simp_all add: destroy_elem_def)
  have first: "elements_hold ys (Suc i) ?k (cq_blocks pool2 ! ?b)"
  proof -
    have "elements_hold (y # ys) i ?k (cq_blocks pool ! ?b)" using D bs by (metis add.right_neutral length_greater_0_conv ne nth_Cons_0)
    then show ?thesis using elements_hold_destroy [of y ys i ?k] b(1) by (simp add: pool2_def)
  qed
  have other: "elements_hold ys (Suc i) (Suc (?k + j)) (cq_blocks pool2 ! (ds ! j))" if "j < length ds" for j
  proof -
    have "elements_hold (y # ys) i (?k + Suc j) (cq_blocks pool ! (bs ! Suc j))" using D bs that by (metis length_Cons Suc_less_eq)
    moreover have "bs ! Suc j = ds ! j" by (subst bs) simp
    moreover have "ds ! j \<noteq> ?b" using D bs that by (metis distinct.simps(2) nth_mem)
    moreover have "i < 32 * Suc (?k + j)" by simp
    ultimately show ?thesis using elements_hold_other [of y ys i "Suc (?k + j)"] by (simp add: pool2_def)
  qed
  show ?thesis
  proof (cases "Suc i mod 32 = 0")
    case True
    have d: "Suc i div 32 = Suc ?k" using True by (simp add: div_Suc)
    have "32 * Suc ?k \<le> Suc i" using d True mult_div_mod_eq [of 32 "Suc i"] by simp
    then have "elements (cq_blocks pool2 ! ?b) = replicate 32 None" using elements_hold_gone [OF first] by blast
    moreover have "Suc (length ds) = num_blocks i (length (y # ys))" using D bs by (metis length_Cons)
    then have "length ds = num_blocks (Suc i) (length ys)" by (simp add: num_blocks_def d)
    moreover have "finds p (Suc ?k) ds" using finds_tl [of p ?k bs] D bs by (metis list.sel(3) ne)
    moreover have "?b \<notin> set ds" "distinct ds" "set ds \<subseteq> ?used" using D sub bs by (metis distinct.simps(2), metis distinct.simps(2), metis set_subset_Cons subset_trans)
    moreover have "tl bs = ds" by (subst bs) simp
    ultimately show ?thesis using D inv2 other b(3) True unfolding drain_inv_def d by simp
  next
    case False
    have d: "Suc i div 32 = ?k" using False by (simp add: div_Suc)
    have "length bs = num_blocks (Suc i) (length ys)" using D by (simp add: num_blocks_def d)
    moreover have "elements_hold ys (Suc i) (?k + j) (cq_blocks pool2 ! (bs ! j))" if "j < length bs" for j
    proof (cases j)
      case 0
      then show ?thesis using first ne by (simp add: hd_conv_nth)
    next
      case (Suc m)
      moreover have "bs ! Suc m = ds ! m" "m < length ds" using that Suc by (metis bs nth_Cons_Suc, metis bs length_Cons Suc_less_eq)
      ultimately show ?thesis using other by simp
    qed
    ultimately show ?thesis using D inv2 sub False unfolding drain_inv_def d by simp
  qed
qed

lemma drain_ok:
  assumes "drain_inv p pool used i ys bs pb"
  shows "\<exists>pool'. imp_drain p (word_of_nat (i + length ys)) (word_of_nat i) pb pool = Some pool' \<and>
    pool_inv pool' (used - set (butlast (drain_rest i pb bs))) \<and> length (cq_blocks pool') = length (cq_blocks pool) \<and>
    (drain_rest i pb bs \<noteq> [] \<longrightarrow> elements (cq_blocks pool' ! last (drain_rest i pb bs)) = replicate 32 None) \<and>
    (\<forall>b. b \<notin> set bs \<longrightarrow> cq_blocks pool' ! b = cq_blocks pool ! b)"
  using assms
proof (induction ys arbitrary: pool used i bs pb)
  case Nil
  note D = Nil [unfolded drain_inv_def]
  have res: "imp_drain p (word_of_nat (i + length [])) (word_of_nat i) pb pool = Some pool" by (subst imp_drain.simps) simp
  have "butlast (drain_rest i pb bs) = [] \<and> (drain_rest i pb bs \<noteq> [] \<longrightarrow> elements (cq_blocks pool ! last (drain_rest i pb bs)) = replicate 32 None)"
  proof (cases "i mod 32 = 0")
    case True
    then have "bs = []" using D ceil_boundary [of i] by (simp add: num_blocks_def)
    then show ?thesis using D True by (cases pb) (simp_all add: drain_rest_simps)
  next
    case False
    have "(i + 31) div 32 = Suc (i div 32)" using False mult_div_mod_eq [of 32 i] by linarith
    then have "length bs = 1" using D by (simp add: num_blocks_def)
    then obtain b where b: "bs = [b]" by (metis One_nat_def length_0_conv length_Suc_conv)
    have "elements_hold [] i (i div 32) (cq_blocks pool ! b)" using D b by force
    then show ?thesis using elements_hold_gone b False by (auto simp: drain_rest_simps)
  qed
  then show ?case using res D by auto
next
  case (Cons y ys)
  let ?ds = "if Suc i mod 32 = 0 then tl bs else bs" and ?used = "used - set (drain_rest i pb [])"
  obtain pool1 where P: "drain_block p (word_of_nat i) pb pool = Some (Some (hd bs), pool1)" "pool_inv pool1 ?used"
    "cq_blocks pool1 = cq_blocks pool" "bs \<noteq> []" using drain_block_ok [OF Cons.prems] by blast
  define pool2 where "pool2 = pool1\<lparr>cq_blocks := (cq_blocks pool)[hd bs := destroy_elem (word_of_nat i) (cq_blocks pool ! hd bs)]\<rparr>"
  have inv2: "drain_inv p pool2 ?used (Suc i) ys ?ds (Some (hd bs))"
    unfolding pool2_def by (rule drain_inv_step [OF Cons.prems P(4,2,3)])
  have small: "length ys < 2 ^ 63" "set bs \<subseteq> used" using Cons.prems by (auto simp: drain_inv_def)
  have "hd bs < length (cq_blocks pool)" using pool_inv_used Cons.prems small(2) P(4) unfolding drain_inv_def by (metis hd_in_set lessThan_iff subsetD)
  then have upd: "upd_cq_block (hd bs) (destroy_elem (word_of_nat i)) pool1 = Some pool2" using P(3) by (simp add: upd_cq_block_def pool2_def)
  have "(word_of_nat (i + length (y # ys)) :: u64) - word_of_nat i = word_of_nat (Suc (length ys))" by simp
  moreover have "unat (word_of_nat (Suc (length ys)) :: u64) = Suc (length ys)" using small(1) by (simp add: unat_word_of_nat del: of_nat_Suc)
  ultimately have neq: "(word_of_nat i :: u64) \<noteq> word_of_nat (i + length (y # ys))" by (metis diff_self unat_0 Zero_not_Suc)
  have tail: "i + length (y # ys) = Suc i + length ys" by simp
  have res: "imp_drain p (word_of_nat (i + length (y # ys))) (word_of_nat i) pb pool = imp_drain p (word_of_nat (Suc i + length ys)) (word_of_nat (Suc i)) (Some (hd bs)) pool2"
    by (subst imp_drain.simps) (use neq P(1) upd in \<open>simp add: tail add.commute\<close>)
  have rest: "drain_rest (Suc i) (Some (hd bs)) ?ds = bs" using P(4) by (simp add: drain_rest_simps)
  obtain pool' where I: "imp_drain p (word_of_nat (Suc i + length ys)) (word_of_nat (Suc i)) (Some (hd bs)) pool2 = Some pool'"
    "pool_inv pool' (?used - set (butlast bs))" "length (cq_blocks pool') = length (cq_blocks pool2)"
    "elements (cq_blocks pool' ! last bs) = replicate 32 None" "\<forall>b. b \<notin> set ?ds \<longrightarrow> cq_blocks pool' ! b = cq_blocks pool2 ! b"
    using Cons.IH [OF inv2] unfolding rest using P(4) by blast
  have split: "drain_rest i pb bs = drain_rest i pb [] @ bs" by (simp add: drain_rest_def)
  have "set (butlast (drain_rest i pb bs)) = set (drain_rest i pb []) \<union> set (butlast bs)" unfolding split using P(4) by (simp add: butlast_append)
  then have "?used - set (butlast bs) = used - set (butlast (drain_rest i pb bs))" by blast
  moreover have "last (drain_rest i pb bs) = last bs" unfolding split using P(4) by simp
  moreover have "cq_blocks pool' ! b = cq_blocks pool ! b" if "b \<notin> set bs" for b
  proof -
    have "b \<noteq> hd bs" "b \<notin> set ?ds" using that P(4) by (auto dest: list.set_sel(2))
    then show ?thesis using I(5) by (auto simp: pool2_def)
  qed
  ultimately show ?case using res I(1-4) by (simp add: pool2_def)
qed

text \<open>The destructor of a producer releases all its blocks and no other.\<close>

lemma imp_destroy_empty:
  assumes "counters p h 0" and "h mod 32 = 0" and "destroy_block_index p = Some (es, hs)"
  shows "imp_destroy p pool = Some (es, hs, pool)"
proof -
  have c: "headIndex p = word_of_nat h" "tailIndex p = word_of_nat h" using assms(1) by (simp_all add: counters_def)
  have z: "(word_of_nat h :: u64) AND (BLOCK_SIZE - 1) = 0" using slot_of_nat [of h] assms(2) by (metis slot_of_def unat_eq_zero)
  have d: "imp_drain p (word_of_nat h) (word_of_nat h) None pool = Some pool" by (subst imp_drain.simps) simp
  show ?thesis using c z d assms(3) by (simp add: imp_destroy_def Let_def split: option.split)
qed

lemma imp_destroy_blocks:
  assumes rel: "prod_rel p (cq_blocks pool) h xs bs" and inv: "pool_inv pool used" and sub: "set bs \<subseteq> used" and ne: "bs \<noteq> []"
    and idx: "destroy_block_index p = Some (es, hs)"
  shows "\<exists>pool'. imp_destroy p pool = Some (es, hs, pool') \<and> pool_inv pool' (used - set bs) \<and>
    length (cq_blocks pool') = length (cq_blocks pool) \<and> (\<forall>b. b \<notin> set bs \<longrightarrow> cq_blocks pool' ! b = cq_blocks pool ! b)"
proof -
  note P = rel [unfolded prod_rel_def] and B = rel [unfolded prod_rel_def blocks_hold_def block_holds_def]
  have c: "counters p h (length xs)" using P by blast
  have hd: "headIndex p = word_of_nat h" and tl: "tailIndex p = word_of_nat (h + length xs)" using c by (simp_all add: counters_def)
  have small: "length xs < 2 ^ 63" by (rule counters_small [OF c])
  have "drain_inv p pool used h xs bs None"
    unfolding drain_inv_def elements_hold_def using B inv sub small index_rel_finds [of p "h div 32" bs] by (auto split: if_splits)
  from drain_ok [OF this] obtain pool1 where D: "imp_drain p (tailIndex p) (headIndex p) None pool = Some pool1" "pool_inv pool1 (used - set (butlast bs))"
    "length (cq_blocks pool1) = length (cq_blocks pool)" "elements (cq_blocks pool1 ! last bs) = replicate 32 None"
    "\<forall>b. b \<notin> set bs \<longrightarrow> cq_blocks pool1 ! b = cq_blocks pool ! b" using ne unfolding hd tl drain_rest_simps(1) by blast
  have dist: "distinct bs" and len: "length bs = num_blocks h (length xs)" using B by blast+
  have lst: "last bs \<notin> set (butlast bs)" "set bs = insert (last bs) (set (butlast bs))"
    using dist ne by (metis append_butlast_last_id distinct_butlast not_distinct_conv_prefix, metis append_butlast_last_id list.simps(15) rotate1.simps(2) set_rotate1)
  have mem: "last bs \<in> used - set (butlast bs)" using lst(1) sub ne by auto
  obtain pool2 where A: "add_block_to_free_list (last bs) pool1 = Some pool2" "pool_inv pool2 (used - set (butlast bs) - {last bs})" "cq_blocks pool2 = cq_blocks pool1"
    using add_block_ok [OF D(2) mem D(4)] by blast
  have "(h + length xs) mod 32 \<noteq> 0 \<or> xs \<noteq> []"
  proof (rule ccontr)
    assume "\<not> ?thesis"
    then have "h mod 32 = 0" "xs = []" by auto
    then have "num_blocks h (length xs) = 0" using ceil_boundary [of h] by (simp add: num_blocks_def)
    then show False using len ne by simp
  qed
  moreover have "headIndex p \<noteq> tailIndex p" if "xs \<noteq> []"
  proof
    assume "headIndex p = tailIndex p"
    then have "(word_of_nat (length xs) :: u64) = 0" unfolding hd tl by simp
    moreover have "unat (word_of_nat (length xs) :: u64) = length xs" using small by (simp add: unat_word_of_nat)
    ultimately show False using that by simp
  qed
  moreover have "tailIndex p AND (BLOCK_SIZE - 1) = 0 \<longleftrightarrow> (h + length xs) mod 32 = 0" by (rule tail_slot [OF tl])
  ultimately have force: "headIndex p \<noteq> tailIndex p \<or> tailIndex p AND (BLOCK_SIZE - 1) \<noteq> 0" by (cases "xs = []") auto
  have asm: "headIndex p = tailIndex p \<or> circular_less_than (headIndex p) (tailIndex p)"
  proof (cases "xs = []")
    case False
    have "tailIndex p = headIndex p + word_of_nat (length xs)" unfolding hd tl by simp
    then show ?thesis using circular_less_than_add [of "length xs" "headIndex p"] small False by simp
  qed (simp add: hd tl)
  have tb: "ip_tailBlock p = Some (last bs)" using P ne by blast
  have "imp_destroy p pool = Some (es, hs, pool2)"
    using asm D(1) force tb A(1) idx by (simp add: imp_destroy_def Let_def assert_that_def)
  moreover have "used - set (butlast bs) - {last bs} = used - set bs" using lst(2) by blast
  ultimately show ?thesis using A(2,3) D(3,5) by simp
qed

lemma imp_destroy_ok:
  assumes st: "prod_state p (cq_blocks pool) h xs bs" and inv: "pool_inv pool used" and sub: "set bs \<subseteq> used"
    and idx: "destroy_block_index p = Some (es, hs)"
  shows "\<exists>pool'. imp_destroy p pool = Some (es, hs, pool') \<and> pool_inv pool' (used - set bs) \<and>
    length (cq_blocks pool') = length (cq_blocks pool) \<and> (\<forall>b. b \<notin> set bs \<longrightarrow> cq_blocks pool' ! b = cq_blocks pool ! b)"
proof (cases "bs = []")
  case True
  have c: "counters p h (length xs)" by (rule prod_state_counters [OF st])
  have "length xs = 0 \<and> h mod 32 = 0"
  proof (cases "broken p \<and> h = 0 \<and> xs = []")
    case False
    then have "num_blocks h (length xs) = 0" using st True by (auto simp: prod_state_def prod_rel_def blocks_hold_def)
    then have "(h + length xs + 31) div 32 \<le> h div 32" by (simp add: num_blocks_def)
    then show ?thesis using mult_div_mod_eq [of 32 h] by linarith
  qed simp
  then show ?thesis using imp_destroy_empty [OF _ _ idx, of h pool] c True inv by simp
next
  case False
  then show ?thesis using imp_destroy_blocks [OF _ inv sub _ idx] st by (auto simp: prod_state_def)
qed

lemma destroy_producers_ok:
  assumes "\<forall>i \<in> set is. i < length ps \<and> prod_state (ps ! i) (cq_blocks pool) (H i) (X i) (B i) \<and> set (B i) \<subseteq> used"
    and "\<forall>i \<in> set is. \<forall>j \<in> set is. i \<noteq> j \<longrightarrow> set (B i) \<inter> set (B j) = {}" and "distinct is" and "pool_inv pool used"
  shows "\<exists>es hs pool'. destroy_producers ps is pool = Some (is, es, hs, pool') \<and>
    exactly_once es {(i, e). i \<in> set is \<and> e < length (bi_entries (ps ! i))} \<and> exactly_once hs {(i, k). i \<in> set is \<and> k < length (blockIndex (ps ! i))} \<and>
    pool_inv pool' (used - (\<Union>i \<in> set is. set (B i))) \<and> length (cq_blocks pool') = length (cq_blocks pool)"
  using assms
proof (induction "is" arbitrary: pool used)
  case (Cons i "is")
  then have i: "i < length ps" "prod_state (ps ! i) (cq_blocks pool) (H i) (X i) (B i)" "set (B i) \<subseteq> used" "pool_inv pool used" by simp_all
  obtain es where es: "destroy_block_index (ps ! i) = Some (es, rev [0..<length (blockIndex (ps ! i))])" "exactly_once es {..<length (bi_entries (ps ! i))}"
    using destroy_block_index_ok [OF i(2)] by blast
  let ?hs = "rev [0..<length (blockIndex (ps ! i))]"
  obtain pool1 where P: "imp_destroy (ps ! i) pool = Some (es, ?hs, pool1)" "pool_inv pool1 (used - set (B i))"
    "length (cq_blocks pool1) = length (cq_blocks pool)" "\<forall>b. b \<notin> set (B i) \<longrightarrow> cq_blocks pool1 ! b = cq_blocks pool ! b"
    using imp_destroy_ok [OF i(2,4,3) es(1)] by blast
  have rest: "\<forall>j \<in> set is. j < length ps \<and> prod_state (ps ! j) (cq_blocks pool1) (H j) (X j) (B j) \<and> set (B j) \<subseteq> used - set (B i)"
  proof
    fix j assume j: "j \<in> set is"
    then have dj: "set (B j) \<inter> set (B i) = {}" "set (B j) \<subseteq> used" "prod_state (ps ! j) (cq_blocks pool) (H j) (X j) (B j)" "j < length ps"
      using Cons.prems(1-3) by auto
    have "\<forall>b \<in> set (B j). b < length (cq_blocks pool1) \<and> cq_blocks pool1 ! b = cq_blocks pool ! b"
      using dj(1,2) P(3,4) pool_inv_used [OF i(4)] by auto
    then show "j < length ps \<and> prod_state (ps ! j) (cq_blocks pool1) (H j) (X j) (B j) \<and> set (B j) \<subseteq> used - set (B i)"
      using prod_state_frame [OF dj(3)] dj by blast
  qed
  obtain es' hs' pool2 where D: "destroy_producers ps is pool1 = Some (is, es', hs', pool2)"
    "exactly_once es' {(i, e). i \<in> set is \<and> e < length (bi_entries (ps ! i))}" "exactly_once hs' {(i, k). i \<in> set is \<and> k < length (blockIndex (ps ! i))}"
    "pool_inv pool2 (used - set (B i) - (\<Union>i \<in> set is. set (B i)))" "length (cq_blocks pool2) = length (cq_blocks pool1)"
    using Cons.IH [OF rest _ _ P(2)] Cons.prems(2,3) by auto
  have new: "i \<notin> set is" using Cons.prems(3) by simp
  have "exactly_once ?hs {..<length (blockIndex (ps ! i))}" by (auto simp: exactly_once_def)
  then have "exactly_once (map (Pair i) ?hs @ hs') {(j, k). j \<in> set (i # is) \<and> k < length (blockIndex (ps ! j))}"
    by (rule exactly_once_append [OF exactly_once_pair D(3)]) (use new in auto)
  moreover have "exactly_once (map (Pair i) es @ es') {(j, e). j \<in> set (i # is) \<and> e < length (bi_entries (ps ! j))}"
    by (rule exactly_once_append [OF exactly_once_pair [OF es(2)] D(2)]) (use new in auto)
  moreover have "used - set (B i) - (\<Union>i \<in> set is. set (B i)) = used - (\<Union>i \<in> set (i # is). set (B i))" by auto
  ultimately show ?case using P(1,3) i(1) D(1,4,5) by simp
qed (simp add: exactly_once_def)

text \<open>Where the blocks of the initial pool end does not change.\<close>

lemma add_block_size: "add_block_to_free_list b pool = Some pool' \<Longrightarrow> initialBlockPoolSize pool' = initialBlockPoolSize pool"
  by (auto simp: add_block_to_free_list_def split: bind_splits)

lemma drain_block_size: "drain_block p i pb pool = Some (b, pool') \<Longrightarrow> initialBlockPoolSize pool' = initialBlockPoolSize pool"
  by (auto simp: drain_block_def split: if_splits bind_splits option.splits dest!: add_block_size)

lemma drain_size: "imp_drain p tail index pb pool = Some pool' \<Longrightarrow> initialBlockPoolSize pool' = initialBlockPoolSize pool"
proof (induction p tail index pb pool rule: imp_drain.induct)
  case (1 p tail index block pool)
  show ?case
  proof (cases "index = tail")
    case True
    then show ?thesis using "1.prems" by (subst (asm) imp_drain.simps) simp
  next
    case False
    then obtain b pool1 pool2 where s: "drain_block p index block pool = Some (b, pool1)" "Option.bind b (\<lambda>b. upd_cq_block b (destroy_elem index) pool1) = Some pool2"
      "imp_drain p tail (index + 1) b pool2 = Some pool'" using "1.prems" by (subst (asm) imp_drain.simps) (auto split: option.splits)
    have "initialBlockPoolSize pool2 = initialBlockPoolSize pool1" using s(2) by (auto simp: upd_cq_block_def split: bind_splits)
    then show ?thesis using "1.IH" [OF False s(1) refl s(2) s(3)] drain_block_size [OF s(1)] by simp
  qed
qed

lemma destroy_size: "imp_destroy p pool = Some (es, hs, pool') \<Longrightarrow> initialBlockPoolSize pool' = initialBlockPoolSize pool"
  by (auto simp: imp_destroy_def Let_def split: if_splits bind_splits option.splits dest!: add_block_size drain_size)

lemma destroy_producers_size: "destroy_producers ps is pool = Some (ptrs, es, hs, pool') \<Longrightarrow> initialBlockPoolSize pool' = initialBlockPoolSize pool"
proof (induction "is" arbitrary: ptrs es hs pool)
  case (Cons i "is")
  then obtain p es1 hs1 pool1 ptrs2 es2 hs2 where "imp_destroy p pool = Some (es1, hs1, pool1)" "destroy_producers ps is pool1 = Some (ptrs2, es2, hs2, pool')"
    by (auto split: bind_splits)
  then show ?case using Cons.IH destroy_size by fastforce
qed simp

lemma destroy_free_list_ok:
  assumes "fl_chain (freeListNext (freeList pool)) b0 ns" and "\<forall>b \<in> set ns. b < length (cq_blocks pool)"
  shows "destroy_free_list pool b0 = Some (filter (\<lambda>b. dynamicallyAllocated (cq_blocks pool ! b)) ns)"
  using assms
proof (induction ns arbitrary: b0)
  case Nil
  then show ?case by (subst destroy_free_list.simps) simp
next
  case (Cons b ns)
  then show ?case by (subst destroy_free_list.simps) simp
qed

lemma ConcurrentQueue_destroy_ok:
  assumes "queue_abs q st"
  shows "\<exists>f. ConcurrentQueue_destroy q = Some f \<and> frees_once q f"
proof -
  obtain owners H X B where rel: "queue_rel q owners H X B" using assms by (auto simp: queue_abs_def)
  note R = rel [unfolded queue_rel_def]
  let ?ps = "cq_producers q" and ?is = "rev [0..<length owners]" and ?used = "\<Union>i < length owners. set (B i)"
  have sub: "\<forall>i \<in> set ?is. set (B i) \<subseteq> ?used" by force
  obtain es hs pool where P: "destroy_producers ?ps ?is (cq_pool q) = Some (?is, es, hs, pool)"
    "pool_inv pool (?used - (\<Union>i \<in> set ?is. set (B i)))" "length (cq_blocks pool) = length (cq_blocks (cq_pool q))"
    "exactly_once es {(i, e). i \<in> set ?is \<and> e < length (bi_entries (?ps ! i))}" "exactly_once hs {(i, k). i \<in> set ?is \<and> k < length (blockIndex (?ps ! i))}"
    using destroy_producers_ok [of ?is ?ps "cq_pool q" H X B ?used] R sub by auto
  have "?used - (\<Union>i \<in> set ?is. set (B i)) = {}" by auto
  then have "pool_inv pool {}" using P(2) by metis
  then obtain ns where ns: "pool_parts pool {} ns" by (auto simp: pool_inv_def)
  note N = ns [unfolded pool_parts_def]
  obtain ms where ms: "pool_parts (cq_pool q) ?used ms" using R by (auto simp: pool_inv_def)
  note M = ms [unfolded pool_parts_def]
  have size: "initialBlockPoolSize pool = initialBlockPoolSize (cq_pool q)" by (rule destroy_producers_size [OF P(1)])
  let ?bs = "filter (\<lambda>b. dynamicallyAllocated (cq_blocks pool ! b)) ns"
  have fl: "destroy_free_list pool (freeListHead (freeList pool)) = Some ?bs"
    by (rule destroy_free_list_ok) (use N in \<open>auto simp: fl_listed_def\<close>)
  have dist: "distinct ?bs" using N by (simp add: fl_listed_def)
  have dyn: "dynamicallyAllocated (cq_blocks pool ! b) \<longleftrightarrow> dynamicallyAllocated (cq_blocks (cq_pool q) ! b)" if "b < length (cq_blocks pool)" for b
    using that N M P(3) size by simp
  have "set ?bs = {b. b < length (cq_blocks pool) \<and> dynamicallyAllocated (cq_blocks pool ! b)}"
  proof (intro set_eqI iffI)
    fix b assume b: "b \<in> {b. b < length (cq_blocks pool) \<and> dynamicallyAllocated (cq_blocks pool ! b)}"
    then have "unat (initialBlockPoolSize pool) \<le> b" "b \<in> set ns \<union> unissued pool" using N by auto
    then show "b \<in> set ?bs" using b by (auto simp: unissued_def)
  qed (use N in auto)
  also have "\<dots> = {b. b < length (cq_blocks (cq_pool q)) \<and> dynamicallyAllocated (cq_blocks (cq_pool q) ! b)}" using dyn P(3) by auto
  finally have set: "set ?bs = {b. b < length (cq_blocks (cq_pool q)) \<and> dynamicallyAllocated (cq_blocks (cq_pool q) ! b)}" .
  have len: "length ?ps = length owners" "producerListTail q = ?is" using R by simp_all
  have "\<forall>t \<in> set (implicitProducerHash q). length (ph_entries t) = unat (ph_capacity t)" using R by (fastforce simp: hash_rel_def table_ok_def)
  from destroy_hashes_ok [OF this] obtain slots where
    T: "destroy_hashes (implicitProducerHash q) = Some (slots, rev [1..<length (implicitProducerHash q)])" "exactly_once slots (slot_addrs q)"
    unfolding slot_addrs_def by blast
  have "ConcurrentQueue_destroy q =
      Some \<lparr>freed_producers = ?is, destroyed_entries = es, freed_headers = hs, destroyed_slots = slots, freed_hashes = rev [1..<length (implicitProducerHash q)],
            freed_blocks = ?bs, freed_pool = (initialBlockPoolSize (cq_pool q) \<noteq> 0)\<rparr>"
    using P(1) T(1) fl size by (simp add: ConcurrentQueue_destroy_def len INITIAL_IMPLICIT_PRODUCER_HASH_SIZE_def)
  then show ?thesis
    using P(4,5) T(2) dist set by (auto simp: frees_once_def exactly_once_def len entry_addrs_def header_addrs_def block_addrs_def)
qed

text \<open>A deletion after an enqueue that the allocator refused once.\<close>

lemma example_completes: "\<not> follows_null example_calls (ConcurrentQueue 64 [True, False])"
  by code_simp

text \<open>C24: 
  After any sequence of fewer than \<open>2 ^ 60\<close> calls by real threads that does not reach a producer without a block index, whatever
  other allocations failed, deleting the queue finishes: it frees each producer, each of its block index headers, each
  hash table but the one inside the queue, each block that was allocated on its own and the array of the initial blocks
  exactly once and nothing else, and destroys each block index entry and each slot of a freed table exactly once.
\<close>
theorem mpmc_delete_frees_once:
  assumes "list_all cq_call_ok calls" and "length calls < 2 ^ 60" and "\<not> follows_null calls (ConcurrentQueue capacity as)"
  shows "\<exists>rs q f. cq_run calls (ConcurrentQueue capacity as) = Some (rs, q) \<and> ConcurrentQueue_destroy q = Some f \<and> frees_once q f"
proof -
  obtain rs q where r: "cq_run calls (ConcurrentQueue capacity as) = Some (rs, q)" using cq_run_completes(1) [OF assms(1,2)] assms(3) by fastforce
  then obtain st where "queue_abs q st" using cq_run_completes(2) [OF assms(1,2)] by blast
  then show ?thesis using r ConcurrentQueue_destroy_ok by blast
qed

theorem mpmc_delete_frees_once_witness:
  "\<exists>rs q f. cq_run example_calls (ConcurrentQueue 64 [True, False]) = Some (rs, q) \<and> ConcurrentQueue_destroy q = Some f \<and> frees_once q f"
  by (rule mpmc_delete_frees_once [OF example_ok(1,2) example_completes])

end
