(* ===== verification/PipeMpmc.thy ===== *)
theory PipeMpmc
  imports MpmcLimit MpmcDestroy
begin

text \<open>
  \<^verbatim>\<open>src/src/pipe.cpp\<close>, the functions on the multi-producer multi-consumer queue, and what the queue promises through
  them. The queue holds pointers, 64-bit addresses; \<open>t\<close> is the identifier of the calling thread. \<open>None\<close> stands for
  \<^verbatim>\<open>std::bad_alloc\<close> in \<open>pipe_mpmc_new\<close> and for undefined behaviour elsewhere.
\<close>

section \<open>Model\<close>

definition pipe_mpmc_new :: "bool \<Rightarrow> bool list \<Rightarrow> u32 \<Rightarrow> u64 cqueue option" where
  "pipe_mpmc_new new_ok as capacity = (if new_ok then Some (ConcurrentQueue (scast capacity) as) else None)"

definition pipe_mpmc_delete :: "u64 cqueue \<Rightarrow> cq_freed option" where
  "pipe_mpmc_delete q = ConcurrentQueue_destroy q"

definition pipe_mpmc_enqueue :: "u64 \<Rightarrow> u64 cqueue \<Rightarrow> u64 \<Rightarrow> u64 cqueue option" where
  "pipe_mpmc_enqueue t q data = map_option snd (cq_enqueue t data q)"

definition pipe_mpmc_try_enqueue :: "u64 \<Rightarrow> u64 cqueue \<Rightarrow> u64 \<Rightarrow> (bool \<times> u64 cqueue) option" where
  "pipe_mpmc_try_enqueue t q data = cq_try_enqueue t data q"

definition pipe_mpmc_try_dequeue :: "u64 cqueue \<Rightarrow> (u64 \<times> u64 cqueue) option" where
  "pipe_mpmc_try_dequeue q = do { (ok, q) \<leftarrow> cq_try_dequeue q; Some (case ok of Some data \<Rightarrow> data | None \<Rightarrow> 0, q) }"

definition pipe_mpmc_count :: "u64 cqueue \<Rightarrow> u64" where
  "pipe_mpmc_count q = cq_size_approx q"

section \<open>Sending and receiving\<close>

primrec mpmc_send_all :: "u64 \<Rightarrow> u64 list \<Rightarrow> u64 cqueue \<Rightarrow> u64 cqueue option" where
  "mpmc_send_all t [] q = Some q"
| "mpmc_send_all t (x # xs) q = do { q \<leftarrow> pipe_mpmc_enqueue t q x; mpmc_send_all t xs q }"

primrec mpmc_receive :: "nat \<Rightarrow> u64 cqueue \<Rightarrow> (u64 list \<times> u64 cqueue) option" where
  "mpmc_receive 0 q = Some ([], q)"
| "mpmc_receive (Suc n) q = do { (y, q) \<leftarrow> pipe_mpmc_try_dequeue q; (ys, q) \<leftarrow> mpmc_receive n q; Some (y # ys, q) }"

lemma pipe_enqueue_ok:
  assumes "queue_abs q st" and "healthy q" and "t \<noteq> invalid_thread_id" and "sized n st" and "Suc n < 2 ^ 60"
  shows "\<exists>q'. pipe_mpmc_enqueue t q x = Some q' \<and> queue_abs q' (fifo_add t x st) \<and> healthy q'"
  using cq_exec_abs [OF assms(1), of "Enqueue t x" n] assms(2-5)
  by (cases "cq_enqueue t x q") (auto simp: pipe_mpmc_enqueue_def enqueued_def)

lemma send_all_ok:
  assumes "queue_abs q st" and "healthy q" and "t \<noteq> invalid_thread_id" and "sized n st" and "n + length xs < 2 ^ 60"
  shows "\<exists>q'. mpmc_send_all t xs q = Some q' \<and> queue_abs q' (fold (fifo_add t) xs st) \<and> healthy q'"
  using assms
proof (induction xs arbitrary: q st n)
  case (Cons x xs)
  obtain q1 where q1: "pipe_mpmc_enqueue t q x = Some q1" "queue_abs q1 (fifo_add t x st)" "healthy q1"
    using pipe_enqueue_ok [OF Cons.prems(1-4)] Cons.prems(5) by auto
  show ?case using Cons.IH [OF q1(2,3) Cons.prems(3) sized_add [OF Cons.prems(4)]] Cons.prems(5) q1(1) by simp
qed simp

lemma fold_add_one: "fold (fifo_add t) xs [(t, ys)] = [(t, ys @ xs)]"
  by (induction xs arbitrary: ys) (simp_all add: fifo_add_def fifo_register_def fifo_update_def)

lemma fold_add_new: "fold (fifo_add t) xs [] = (if xs = [] then [] else [(t, xs)])"
  using fold_add_one [of t "tl xs" "[hd xs]"]
  by (cases xs) (simp_all add: fifo_add_def fifo_register_def fifo_update_def)

lemma pipe_dequeue_ok:
  assumes "queue_abs q st"
  shows "\<exists>q'. pipe_mpmc_try_dequeue q = Some (case fst (fifo_take st) of Some y \<Rightarrow> y | None \<Rightarrow> 0, q') \<and> queue_abs q' (snd (fifo_take st))"
  using abs_dequeue [OF assms] by (auto simp: pipe_mpmc_try_dequeue_def)

lemma take_one: "fifo_take [(t, y # ys)] = (Some y, [(t, ys)])" "fifo_take [(t, [])] = (None, [(t, [])])" "fifo_take [] = (None, [])"
  by (simp_all add: fifo_take_def fifo_best_def first_longest_def fifo_update_def)

lemma receive_ok:
  assumes "queue_abs q [(t, ys)]"
  shows "\<exists>q'. mpmc_receive (Suc (length ys)) q = Some (ys @ [0], q')"
  using assms
proof (induction ys arbitrary: q)
  case Nil
  then show ?case using pipe_dequeue_ok [OF Nil] by (auto simp: take_one)
next
  case (Cons y ys)
  obtain q1 where "pipe_mpmc_try_dequeue q = Some (y, q1)" "queue_abs q1 [(t, ys)]" using pipe_dequeue_ok [OF Cons.prems] by (auto simp: take_one)
  then show ?case using Cons.IH [of q1] by (auto simp del: mpmc_receive.simps(2) simp: mpmc_receive.simps(2) [of "Suc (length ys)"])
qed

text \<open>C28: 
  While no allocation fails, what a thread sends through a new pipe is received completely and in order, and then the
  null pointer, whatever the capacity asked for.
\<close>
theorem pipe_mpmc_roundtrip:
  assumes "t \<noteq> invalid_thread_id" and "length xs < 2 ^ 60"
  shows "(do { q \<leftarrow> pipe_mpmc_new True [] capacity; q \<leftarrow> mpmc_send_all t xs q; (ys, q) \<leftarrow> mpmc_receive (Suc (length xs)) q; Some ys }) = Some (xs @ [0])"
proof -
  let ?q0 = "ConcurrentQueue (scast capacity) [] :: u64 cqueue"
  have "sized 0 []" "0 + length xs < 2 ^ 60" using assms(2) by (simp_all add: sized_def)
  from send_all_ok [OF abs_new healthy_new assms(1) this] obtain q where
    q: "mpmc_send_all t xs ?q0 = Some q" "queue_abs q (fold (fifo_add t) xs [])" by blast
  have "\<exists>q'. mpmc_receive (Suc (length xs)) q = Some (xs @ [0], q')"
  proof (cases "xs = []")
    case True
    then show ?thesis using q(2) pipe_dequeue_ok [of q "[]"] by (auto simp: take_one)
  next
    case False
    then show ?thesis using q(2) receive_ok by (simp add: fold_add_new del: mpmc_receive.simps)
  qed
  then show ?thesis using q(1) by (auto simp: pipe_mpmc_new_def simp del: mpmc_receive.simps)
qed

theorem pipe_mpmc_roundtrip_witness:
  "(do { q \<leftarrow> pipe_mpmc_new True [] 512; q \<leftarrow> mpmc_send_all 7 [100, 200, 300] q; (ys, q) \<leftarrow> mpmc_receive 4 q; Some ys }) = Some [100, 200, 300, 0]"
proof -
  have "Suc (length [100 :: u64, 200, 300]) = 4" "(7 :: u64) \<noteq> invalid_thread_id" "length [100 :: u64, 200, 300] < 2 ^ 60" "[100 :: u64, 200, 300] @ [0] = [100, 200, 300, 0]"
    by (simp_all add: invalid_thread_id_def)
  then show ?thesis using pipe_mpmc_roundtrip [of 7 "[100, 200, 300]" 512] by (simp only: bind.bind_lunit simp_thms)
qed

end
