(* ===== verification/Resources.thy ===== *)
theory Resources
  imports LM_Prelude "HOL-Library.Multiset"
begin

text \<open>
  Accounting for resources, shared by the kernel drivers. A driver's effects are a trace of calls; what a trace
  holds is what its calls have acquired and not released. Releasing a resource that is not held leaves
  no mark on an empty account, but it takes the resource from a trace that holds it for someone else: a
  statement that holds for every earlier trace also excludes releasing twice.

  The locale is the contract of a cleanup routine: it releases exactly what the object it is given records
  as owned. Its consequences for whole arrays of objects are proved once.
\<close>

definition held_by :: "('c \<Rightarrow> 'r multiset) \<Rightarrow> ('c \<Rightarrow> 'r multiset) \<Rightarrow> 'c list \<Rightarrow> 'r multiset" where
  "held_by acq rel t = foldl (\<lambda>r c. r + acq c - rel c) {#} t"

lemma held_by_append: "held_by acq rel (s @ t) = foldl (\<lambda>r c. r + acq c - rel c) (held_by acq rel s) t"
  by (simp add: held_by_def)

lemma held_by_Nil [simp]: "held_by acq rel [] = {#}"
  by (simp add: held_by_def)

locale resource_owner =
  fixes held :: "'c list \<Rightarrow> 'r multiset"
    and owned :: "'s \<Rightarrow> 'r multiset"
    and release :: "'s \<Rightarrow> 'c list \<Rightarrow> 'c list"
  assumes release_law: "held (release s t) = held t - owned s"
begin

lemma release_all: "held (foldl (\<lambda>t s. release s t) t ss) = held t - sum_list (map owned ss)"
  by (induction ss arbitrary: t) (simp_all add: release_law)

lemma gives_back: "held t' = held t + owned s \<Longrightarrow> held (release s t') = held t"
  by (simp add: release_law)

end

end
