(* ===== verification/IgbUio.thy ===== *)
theory IgbUio
  imports Resources
begin

text \<open>
  \<^verbatim>\<open>src/deps/dpdk-kmods/linux/igb_uio/igb_uio.c\<close> and \<^verbatim>\<open>compat.h\<close>: the UIO kernel driver that hands a PCI device
  to the user-space library. The Linux kernel is a parameter: what its functions return is the record
  \<open>kernel\<close>, each answer a function of the calls made so far, and what they do is appended to a trace of
  \<open>kcall\<close>s (a call that fails acquires nothing and leaves no entry). The lemmas show that the error path
  of \<^verbatim>\<open>probe\<close> releases exactly what was acquired, that \<^verbatim>\<open>probe\<close>, any sequence of opens and closes and
  \<^verbatim>\<open>remove\<close> are balanced while at most one descriptor stays open, and what happens when that fails.
\<close>

section \<open>Kernel interface\<close>

type_synonym rte_intr_mode = u32

definition RTE_INTR_MODE_NONE :: rte_intr_mode where "RTE_INTR_MODE_NONE = 0"
definition RTE_INTR_MODE_LEGACY :: rte_intr_mode where "RTE_INTR_MODE_LEGACY = 1"
definition RTE_INTR_MODE_MSI :: rte_intr_mode where "RTE_INTR_MODE_MSI = 2"
definition RTE_INTR_MODE_MSIX :: rte_intr_mode where "RTE_INTR_MODE_MSIX = 3"

lemmas intr_mode_defs = RTE_INTR_MODE_NONE_def RTE_INTR_MODE_LEGACY_def RTE_INTR_MODE_MSI_def
  RTE_INTR_MODE_MSIX_def

definition EINVAL :: int where "EINVAL = 22"
definition ENOMEM :: int where "ENOMEM = 12"
definition ENODEV :: int where "ENODEV = 19"
definition ENOENT :: int where "ENOENT = 2"

lemmas errno_defs = EINVAL_def ENOMEM_def ENODEV_def ENOENT_def

datatype kcall =
    Kzalloc | Kfree
  | Pci_enable_device | Pci_disable_device
  | Pci_set_master | Pci_clear_master
  | Ioremap u64 u64 u64
  | Iounmap u64
  | Dma_set_mask
  | Sysfs_create_group | Sysfs_remove_group
  | Uio_register_device | Uio_unregister_device
  | Set_drvdata bool
  | Dma_alloc_coherent nat | Dma_free_coherent nat
  | Enable_vectors rte_intr_mode
  | Free_vectors rte_intr_mode
  | Request_irq int u32 | Free_irq int
  | Cfg_lock | Cfg_unlock
  | Msi_mask bool
  | Msix_writel u64 u32 | Msi_write_config u32 u32
  | Pci_intx bool
  | Uio_event_notify
  | Enable_sriov u64 | Disable_sriov
  | Register_driver | Unregister_driver

type_synonym ktrace = "kcall list"

text \<open>
  The preprocessor switches of \<^verbatim>\<open>compat.h\<close> and the results of the kernel functions. A pointer result is
  a 64-bit address, 0 for \<^verbatim>\<open>NULL\<close>; \<open>k_enable_vectors\<close> is what the allocation of one vector of a kind
  returns, with the number of the vector.
\<close>

record kernel =
  have_msi_mask_irq :: bool
  have_alloc_irq_vectors :: bool
  have_is_bridge :: bool
  k_locked_down :: bool
  k_is_bridge :: bool
  k_kzalloc :: "ktrace \<Rightarrow> bool"
  k_enable_device :: "ktrace \<Rightarrow> int"
  k_ioremap :: "ktrace \<Rightarrow> u64 \<Rightarrow> u64 \<Rightarrow> u64"
  k_dma_set_mask :: "ktrace \<Rightarrow> int"
  k_sysfs_create :: "ktrace \<Rightarrow> int"
  k_uio_register :: "ktrace \<Rightarrow> int"
  k_dma_alloc :: "ktrace \<Rightarrow> bool"
  k_enable_vectors :: "ktrace \<Rightarrow> rte_intr_mode \<Rightarrow> int \<times> int"
  k_intx_mask_supported :: "ktrace \<Rightarrow> bool"
  k_check_and_mask_intx :: "ktrace \<Rightarrow> bool"
  k_request_irq :: "ktrace \<Rightarrow> int \<Rightarrow> int"
  k_pdev_irq :: int
  k_num_vf :: "ktrace \<Rightarrow> u64"
  k_enable_sriov :: "ktrace \<Rightarrow> u64 \<Rightarrow> int"
  k_register_driver :: "ktrace \<Rightarrow> int"

record pci_bar =
  bar_start :: u64
  bar_len :: u64
  bar_flags :: u64

record uio_mem =
  mem_name :: string
  mem_addr :: u64
  mem_internal_addr :: u64
  mem_size :: u64
  mem_memtype :: int

record uio_port =
  port_name :: string
  port_start :: u64
  port_size :: u64
  port_porttype :: int

record uio_info =
  info_name :: string
  info_version :: string
  info_mem :: "uio_mem list"
  info_port :: "uio_port list"
  info_irq :: int
  info_irq_flags :: u32

record rte_uio_pci_dev =
  udev_info :: uio_info
  udev_mode :: rte_intr_mode
  udev_refcnt :: u32

definition MAX_UIO_MAPS :: nat where "MAX_UIO_MAPS = 5"
definition MAX_UIO_PORT_REGIONS :: nat where "MAX_UIO_PORT_REGIONS = 5"
definition UIO_IRQ_NONE :: int where "UIO_IRQ_NONE = 0"
definition UIO_MEM_PHYS :: int where "UIO_MEM_PHYS = 1"
definition UIO_PORT_X86 :: int where "UIO_PORT_X86 = 1"
definition IRQF_SHARED :: u32 where "IRQF_SHARED = 0x80"
definition IRQF_NO_THREAD :: u32 where "IRQF_NO_THREAD = 0x10000"
definition IORESOURCE_IO :: u64 where "IORESOURCE_IO = 0x100"
definition IORESOURCE_MEM :: u64 where "IORESOURCE_MEM = 0x200"

text \<open>What \<^verbatim>\<open>kzalloc\<close> returns for a \<^verbatim>\<open>struct rte_uio_pci_dev\<close>.\<close>

definition zero_mem :: uio_mem where
  "zero_mem = \<lparr>mem_name = [], mem_addr = 0, mem_internal_addr = 0, mem_size = 0, mem_memtype = 0\<rparr>"

definition zero_port :: uio_port where
  "zero_port = \<lparr>port_name = [], port_start = 0, port_size = 0, port_porttype = 0\<rparr>"

definition zero_udev :: rte_uio_pci_dev where
  "zero_udev = \<lparr>udev_info = \<lparr>info_name = [], info_version = [], info_mem = replicate MAX_UIO_MAPS zero_mem,
      info_port = replicate MAX_UIO_PORT_REGIONS zero_port, info_irq = 0, info_irq_flags = 0\<rparr>,
    udev_mode = 0, udev_refcnt = 0\<rparr>"

section \<open>SR-IOV attribute\<close>

text \<open>\<open>parsed\<close> is what \<^verbatim>\<open>kstrtoul\<close> makes of the written text, \<open>None\<close> when it is not a number.\<close>

definition store_max_vfs :: "kernel \<Rightarrow> u64 option \<Rightarrow> int \<Rightarrow> ktrace \<Rightarrow> int \<times> ktrace" where
  "store_max_vfs k parsed cnt t =
     (case parsed of
        None \<Rightarrow> (- EINVAL, t)
      | Some max_vfs \<Rightarrow>
          let (err, t') =
            (if max_vfs = 0 then (0, t @ [Disable_sriov])
             else if k_num_vf k t = 0
             then (let e = k_enable_sriov k t max_vfs in (e, if e = 0 then t @ [Enable_sriov max_vfs] else t))
             else (- EINVAL, t))
          in (if err \<noteq> 0 then err else cnt, t'))"

section \<open>Interrupt masking\<close>

text \<open>One entry of the device's list of message interrupts; \<open>desc_irq\<close> and the device's \<open>irq\<close> are unsigned.\<close>

record msi_desc =
  desc_masked :: u32
  desc_entry_nr :: u16
  desc_mask_base :: u64
  desc_irq :: u32
  desc_maskbit :: bool
  desc_mask_pos :: u32

definition PCI_MSIX_ENTRY_SIZE :: u32 where "PCI_MSIX_ENTRY_SIZE = 16"
definition PCI_MSIX_ENTRY_VECTOR_CTRL :: u32 where "PCI_MSIX_ENTRY_VECTOR_CTRL = 12"
definition PCI_MSIX_ENTRY_CTRL_MASKBIT :: u32 where "PCI_MSIX_ENTRY_CTRL_MASKBIT = 1"

definition igbuio_msix_mask_irq :: "msi_desc \<Rightarrow> int \<Rightarrow> ktrace \<Rightarrow> msi_desc \<times> ktrace" where
  "igbuio_msix_mask_irq desc state t =
     (let offset = ucast (desc_entry_nr desc) * PCI_MSIX_ENTRY_SIZE + PCI_MSIX_ENTRY_VECTOR_CTRL;
          mask_bits = (if state \<noteq> 0 then desc_masked desc AND NOT PCI_MSIX_ENTRY_CTRL_MASKBIT
                       else desc_masked desc OR PCI_MSIX_ENTRY_CTRL_MASKBIT)
      in if mask_bits \<noteq> desc_masked desc
         then (desc\<lparr>desc_masked := mask_bits\<rparr>, t @ [Msix_writel (desc_mask_base desc + ucast offset) mask_bits])
         else (desc, t))"

text \<open>A shift count of 32 or more is undefined in C: the value is \<open>None\<close>.\<close>

definition igbuio_msi_mask_irq :: "u32 \<Rightarrow> msi_desc \<Rightarrow> int \<Rightarrow> ktrace \<Rightarrow> (msi_desc \<times> ktrace) option" where
  "igbuio_msi_mask_irq pdev_irq desc state t =
     (let offset = desc_irq desc - pdev_irq in
      if 32 \<le> unat offset then None
      else let bit = push_bit (unat offset) 1 in
        if \<not> desc_maskbit desc then Some (desc, t)
        else let mask_bits = (if state \<noteq> 0 then desc_masked desc AND NOT bit else desc_masked desc OR bit) in
          if mask_bits \<noteq> desc_masked desc
          then Some (desc\<lparr>desc_masked := mask_bits\<rparr>, t @ [Msi_write_config (desc_mask_pos desc) mask_bits])
          else Some (desc, t))"

fun mask_each_msix :: "msi_desc list \<Rightarrow> int \<Rightarrow> ktrace \<Rightarrow> msi_desc list \<times> ktrace" where
  "mask_each_msix [] state t = ([], t)"
| "mask_each_msix (d # ds) state t =
     (let (d', t1) = igbuio_msix_mask_irq d state t; (ds', t2) = mask_each_msix ds state t1 in (d' # ds', t2))"

fun mask_each_msi :: "u32 \<Rightarrow> msi_desc list \<Rightarrow> int \<Rightarrow> ktrace \<Rightarrow> (msi_desc list \<times> ktrace) option" where
  "mask_each_msi irq [] state t = Some ([], t)"
| "mask_each_msi irq (d # ds) state t =
     (case igbuio_msi_mask_irq irq d state t of
        None \<Rightarrow> None
      | Some (d', t1) \<Rightarrow>
          (case mask_each_msi irq ds state t1 of None \<Rightarrow> None | Some (ds', t2) \<Rightarrow> Some (d' # ds', t2)))"

definition igbuio_mask_irq :: "u32 \<Rightarrow> rte_intr_mode \<Rightarrow> int \<Rightarrow> msi_desc list \<Rightarrow> ktrace
    \<Rightarrow> (msi_desc list \<times> ktrace) option" where
  "igbuio_mask_irq pdev_irq mode irq_state msi_list t =
     (if mode = RTE_INTR_MODE_MSIX then Some (mask_each_msix msi_list irq_state t)
      else if mode = RTE_INTR_MODE_MSI then mask_each_msi pdev_irq msi_list irq_state t
      else Some (msi_list, t))"

definition igbuio_pci_irqcontrol :: "kernel \<Rightarrow> u32 \<Rightarrow> rte_uio_pci_dev \<Rightarrow> int \<Rightarrow> msi_desc list \<Rightarrow> ktrace
    \<Rightarrow> (int \<times> msi_desc list \<times> ktrace) option" where
  "igbuio_pci_irqcontrol k pdev_irq udev irq_state msi_list t =
     (let m = udev_mode udev; t0 = t @ [Cfg_lock];
          masked = (if m = RTE_INTR_MODE_MSIX \<or> m = RTE_INTR_MODE_MSI
                    then if have_msi_mask_irq k then Some (msi_list, t0 @ [Msi_mask (irq_state \<noteq> 1)])
                         else igbuio_mask_irq pdev_irq m irq_state msi_list t0
                    else Some (msi_list, t0))
      in case masked of
           None \<Rightarrow> None
         | Some (l, t1) \<Rightarrow>
             let t2 = (if m = RTE_INTR_MODE_LEGACY then t1 @ [Pci_intx (irq_state \<noteq> 0)] else t1)
             in Some (0, l, t2 @ [Cfg_unlock]))"

datatype irqreturn = IRQ_NONE | IRQ_HANDLED

definition igbuio_pci_irqhandler :: "kernel \<Rightarrow> rte_uio_pci_dev \<Rightarrow> ktrace \<Rightarrow> irqreturn \<times> ktrace" where
  "igbuio_pci_irqhandler k udev t =
     (if udev_mode udev = RTE_INTR_MODE_LEGACY \<and> \<not> k_check_and_mask_intx k t then (IRQ_NONE, t)
      else (IRQ_HANDLED, t @ [Uio_event_notify]))"

section \<open>Enabling and disabling interrupts\<close>

definition set_irq :: "rte_uio_pci_dev \<Rightarrow> rte_intr_mode \<Rightarrow> int \<Rightarrow> u32 \<Rightarrow> rte_uio_pci_dev" where
  "set_irq udev m irq flags =
     udev\<lparr>udev_info := (udev_info udev)\<lparr>info_irq := irq, info_irq_flags := flags\<rparr>, udev_mode := m\<rparr>"

text \<open>
  The four cases of the switch, each falling through to the next. With \<^verbatim>\<open>pci_alloc_irq_vectors\<close> success
  is the number of vectors, 1; with the older functions it is 0, and in MSI mode the interrupt number
  is the device's own.
\<close>

definition vectors_ok :: "kernel \<Rightarrow> int \<Rightarrow> bool" where
  "vectors_ok k r = (if have_alloc_irq_vectors k then r = 1 else r = 0)"

definition intr_none :: "rte_uio_pci_dev \<Rightarrow> ktrace \<Rightarrow> int \<times> rte_uio_pci_dev \<times> ktrace" where
  "intr_none udev t =
     (0, udev\<lparr>udev_info := (udev_info udev)\<lparr>info_irq := UIO_IRQ_NONE\<rparr>, udev_mode := RTE_INTR_MODE_NONE\<rparr>, t)"

definition intr_legacy :: "kernel \<Rightarrow> rte_uio_pci_dev \<Rightarrow> ktrace \<Rightarrow> int \<times> rte_uio_pci_dev \<times> ktrace" where
  "intr_legacy k udev t =
     (if k_intx_mask_supported k t
      then (0, set_irq udev RTE_INTR_MODE_LEGACY (k_pdev_irq k) (IRQF_SHARED OR IRQF_NO_THREAD), t)
      else intr_none udev t)"

definition intr_msi :: "kernel \<Rightarrow> rte_uio_pci_dev \<Rightarrow> ktrace \<Rightarrow> int \<times> rte_uio_pci_dev \<times> ktrace" where
  "intr_msi k udev t =
     (let (r, v) = k_enable_vectors k t RTE_INTR_MODE_MSI in
      if vectors_ok k r
      then (0, set_irq udev RTE_INTR_MODE_MSI (if have_alloc_irq_vectors k then v else k_pdev_irq k) IRQF_NO_THREAD,
            t @ [Enable_vectors RTE_INTR_MODE_MSI])
      else intr_legacy k udev t)"

definition intr_msix :: "kernel \<Rightarrow> rte_uio_pci_dev \<Rightarrow> ktrace \<Rightarrow> int \<times> rte_uio_pci_dev \<times> ktrace" where
  "intr_msix k udev t =
     (let (r, v) = k_enable_vectors k t RTE_INTR_MODE_MSIX in
      if vectors_ok k r
      then (0, set_irq udev RTE_INTR_MODE_MSIX v IRQF_NO_THREAD, t @ [Enable_vectors RTE_INTR_MODE_MSIX])
      else intr_msi k udev t)"

definition intr_invalid :: "rte_uio_pci_dev \<Rightarrow> ktrace \<Rightarrow> int \<times> rte_uio_pci_dev \<times> ktrace" where
  "intr_invalid udev t = (- EINVAL, udev\<lparr>udev_info := (udev_info udev)\<lparr>info_irq := UIO_IRQ_NONE\<rparr>\<rparr>, t)"

definition igbuio_pci_enable_interrupts :: "kernel \<Rightarrow> rte_intr_mode \<Rightarrow> rte_uio_pci_dev \<Rightarrow> ktrace
    \<Rightarrow> int \<times> rte_uio_pci_dev \<times> ktrace" where
  "igbuio_pci_enable_interrupts k preferred udev t =
     (let (err, udev1, t1) =
        (if preferred = RTE_INTR_MODE_MSIX then intr_msix k udev t
         else if preferred = RTE_INTR_MODE_MSI then intr_msi k udev t
         else if preferred = RTE_INTR_MODE_LEGACY then intr_legacy k udev t
         else if preferred = RTE_INTR_MODE_NONE then intr_none udev t
         else intr_invalid udev t);
          irq = info_irq (udev_info udev1)
      in if irq \<noteq> UIO_IRQ_NONE
         then (let r = k_request_irq k t1 irq in
               (r, udev1, if r = 0 then t1 @ [Request_irq irq (info_irq_flags (udev_info udev1))] else t1))
         else (err, udev1, t1))"

definition igbuio_pci_disable_interrupts :: "rte_uio_pci_dev \<Rightarrow> ktrace \<Rightarrow> rte_uio_pci_dev \<times> ktrace" where
  "igbuio_pci_disable_interrupts udev t =
     (let irq = info_irq (udev_info udev);
          (udev1, t1) = (if irq \<noteq> 0 then (udev\<lparr>udev_info := (udev_info udev)\<lparr>info_irq := 0\<rparr>\<rparr>, t @ [Free_irq irq])
                         else (udev, t));
          m = udev_mode udev1
      in (udev1, if m = RTE_INTR_MODE_MSIX \<or> m = RTE_INTR_MODE_MSI then t1 @ [Free_vectors m] else t1))"

definition igbuio_pci_open :: "kernel \<Rightarrow> rte_intr_mode \<Rightarrow> rte_uio_pci_dev \<Rightarrow> ktrace
    \<Rightarrow> int \<times> rte_uio_pci_dev \<times> ktrace" where
  "igbuio_pci_open k preferred udev t =
     (let udev1 = udev\<lparr>udev_refcnt := udev_refcnt udev + 1\<rparr> in
      if udev_refcnt udev1 \<noteq> 1 then (0, udev1, t)
      else let (err, udev2, t2) = igbuio_pci_enable_interrupts k preferred udev1 (t @ [Pci_set_master]) in
        if err \<noteq> 0 then (err, udev2\<lparr>udev_refcnt := udev_refcnt udev2 - 1\<rparr>, t2)
        else (err, udev2, t2))"

definition igbuio_pci_release :: "rte_uio_pci_dev \<Rightarrow> ktrace \<Rightarrow> int \<times> rte_uio_pci_dev \<times> ktrace" where
  "igbuio_pci_release udev t =
     (let udev1 = udev\<lparr>udev_refcnt := udev_refcnt udev - 1\<rparr> in
      if udev_refcnt udev1 = 0
      then (let (udev2, t2) = igbuio_pci_disable_interrupts udev1 t in (0, udev2, t2 @ [Pci_clear_master]))
      else (0, udev1, t))"

section \<open>Mapping the BARs\<close>

definition igbuio_pci_setup_iomem :: "kernel \<Rightarrow> int \<Rightarrow> (nat \<Rightarrow> pci_bar) \<Rightarrow> uio_info \<Rightarrow> nat \<Rightarrow> nat \<Rightarrow> string \<Rightarrow> ktrace
    \<Rightarrow> int \<times> uio_info \<times> ktrace" where
  "igbuio_pci_setup_iomem k wc_activate bars info n bar name t =
     (if length (info_mem info) \<le> n then (- EINVAL, info, t)
      else let addr = bar_start (bars bar); len = bar_len (bars bar) in
        if addr = 0 \<or> len = 0 then (- 1, info, t)
        else let fill = (\<lambda>ia. info\<lparr>info_mem := (info_mem info)[n :=
               \<lparr>mem_name = name, mem_addr = addr, mem_internal_addr = ia, mem_size = len,
                mem_memtype = UIO_MEM_PHYS\<rparr>]\<rparr>) in
          if wc_activate = 0
          then (let ia = k_ioremap k t addr len in
                if ia = 0 then (- 1, info, t) else (0, fill ia, t @ [Ioremap addr len ia]))
          else (0, fill 0, t))"

definition igbuio_pci_setup_ioport :: "(nat \<Rightarrow> pci_bar) \<Rightarrow> uio_info \<Rightarrow> nat \<Rightarrow> nat \<Rightarrow> string
    \<Rightarrow> int \<times> uio_info" where
  "igbuio_pci_setup_ioport bars info n bar name =
     (if length (info_port info) \<le> n then (- EINVAL, info)
      else let addr = bar_start (bars bar); len = bar_len (bars bar) in
        if addr = 0 \<or> len = 0 then (- EINVAL, info)
        else (0, info\<lparr>info_port := (info_port info)[n :=
               \<lparr>port_name = name, port_start = addr, port_size = len, port_porttype = UIO_PORT_X86\<rparr>]\<rparr>))"

definition igbuio_pci_release_iomem :: "uio_info \<Rightarrow> ktrace \<Rightarrow> ktrace" where
  "igbuio_pci_release_iomem info t =
     foldl (\<lambda>t m. if mem_internal_addr m \<noteq> 0 then t @ [Iounmap (mem_internal_addr m)] else t) t (info_mem info)"

definition bar_names :: "string list" where
  "bar_names = [''BAR0'', ''BAR1'', ''BAR2'', ''BAR3'', ''BAR4'', ''BAR5'']"

text \<open>
  The loop over the BARs. \<open>ret\<close> is the local variable that the source does not initialise: \<open>None\<close> is its
  indeterminate value, and \<open>Inl\<close> an early return.
\<close>

fun setup_bars_loop :: "kernel \<Rightarrow> int \<Rightarrow> (nat \<Rightarrow> pci_bar) \<Rightarrow> (nat \<times> string) list \<Rightarrow> nat \<Rightarrow> nat \<Rightarrow> int option
    \<Rightarrow> uio_info \<Rightarrow> ktrace \<Rightarrow> (int + nat \<times> nat \<times> int option) \<times> uio_info \<times> ktrace" where
  "setup_bars_loop k wc bars [] iom iop ret info t = (Inr (iom, iop, ret), info, t)"
| "setup_bars_loop k wc bars ((i, name) # rest) iom iop ret info t =
     (if bar_len (bars i) \<noteq> 0 \<and> bar_start (bars i) \<noteq> 0
      then if bar_flags (bars i) AND IORESOURCE_MEM \<noteq> 0
           then (case igbuio_pci_setup_iomem k wc bars info iom i name t of
                   (r, info', t') \<Rightarrow>
                     if r \<noteq> 0 then (Inl r, info', t')
                     else setup_bars_loop k wc bars rest (iom + 1) iop (Some r) info' t')
           else if bar_flags (bars i) AND IORESOURCE_IO \<noteq> 0
           then (case igbuio_pci_setup_ioport bars info iop i name of
                   (r, info') \<Rightarrow>
                     if r \<noteq> 0 then (Inl r, info', t)
                     else setup_bars_loop k wc bars rest iom (iop + 1) (Some r) info' t)
           else setup_bars_loop k wc bars rest iom iop ret info t
      else setup_bars_loop k wc bars rest iom iop ret info t)"

definition igbuio_setup_bars :: "kernel \<Rightarrow> int \<Rightarrow> (nat \<Rightarrow> pci_bar) \<Rightarrow> uio_info \<Rightarrow> ktrace
    \<Rightarrow> int option \<times> uio_info \<times> ktrace" where
  "igbuio_setup_bars k wc bars info t =
     (case setup_bars_loop k wc bars (List.enumerate 0 bar_names) 0 0 None info t of
        (Inl r, info', t') \<Rightarrow> (Some r, info', t')
      | (Inr (iom, iop, ret), info', t') \<Rightarrow> (if iom \<noteq> 0 \<or> iop \<noteq> 0 then ret else Some (- ENOENT), info', t'))"

section \<open>Probe and remove\<close>

definition fail_free :: "int \<Rightarrow> ktrace \<Rightarrow> int \<times> rte_uio_pci_dev option \<times> ktrace" where
  "fail_free err t = (err, None, t @ [Kfree])"

definition fail_release_iomem :: "int \<Rightarrow> uio_info \<Rightarrow> ktrace \<Rightarrow> int \<times> rte_uio_pci_dev option \<times> ktrace" where
  "fail_release_iomem err info t = fail_free err (igbuio_pci_release_iomem info t @ [Pci_disable_device])"

definition fail_remove_group :: "int \<Rightarrow> uio_info \<Rightarrow> ktrace \<Rightarrow> int \<times> rte_uio_pci_dev option \<times> ktrace" where
  "fail_remove_group err info t = fail_release_iomem err info (t @ [Sysfs_remove_group])"

text \<open>
  The driver data is \<open>Some udev\<close> on success. An indeterminate result of \<open>igbuio_setup_bars\<close> is the
  outer \<open>None\<close>.
\<close>

definition igbuio_pci_probe :: "kernel \<Rightarrow> int \<Rightarrow> (nat \<Rightarrow> pci_bar) \<Rightarrow> ktrace
    \<Rightarrow> (int \<times> rte_uio_pci_dev option \<times> ktrace) option" where
  "igbuio_pci_probe k wc bars t =
     (if have_is_bridge k \<and> k_is_bridge k then Some (- ENODEV, None, t)
      else if \<not> k_kzalloc k t then Some (- ENOMEM, None, t)
      else let t1 = t @ [Kzalloc]; err = k_enable_device k t1 in
      if err \<noteq> 0 then Some (fail_free err t1)
      else let (bres, info, t2) = igbuio_setup_bars k wc bars (udev_info zero_udev)
                 (t1 @ [Pci_enable_device, Pci_set_master]) in
      case bres of
        None \<Rightarrow> None
      | Some err \<Rightarrow>
          if err \<noteq> 0 then Some (fail_release_iomem err info t2)
          else let err = k_dma_set_mask k t2 in
          if err \<noteq> 0 then Some (fail_release_iomem err info t2)
          else let t3 = t2 @ [Dma_set_mask];
                   udev = zero_udev\<lparr>udev_info := info\<lparr>info_name := ''igb_uio'', info_version := ''0.1''\<rparr>,
                                    udev_refcnt := 0\<rparr>;
                   err = k_sysfs_create k t3 in
          if err \<noteq> 0 then Some (fail_release_iomem err (udev_info udev) t3)
          else let t4 = t3 @ [Sysfs_create_group]; err = k_uio_register k t4 in
          if err \<noteq> 0 then Some (fail_remove_group err (udev_info udev) t4)
          else let t5 = t4 @ [Uio_register_device, Set_drvdata True];
                   t6 = (if k_dma_alloc k t5 then t5 @ [Dma_alloc_coherent 1024, Dma_free_coherent 1024] else t5)
               in Some (0, Some udev, t6))"

definition igbuio_pci_remove :: "rte_uio_pci_dev \<Rightarrow> ktrace \<Rightarrow> ktrace" where
  "igbuio_pci_remove udev t =
     (let (r, udev1, t1) = igbuio_pci_release udev t;
          t2 = igbuio_pci_release_iomem (udev_info udev1) (t1 @ [Sysfs_remove_group, Uio_unregister_device])
      in t2 @ [Pci_disable_device, Set_drvdata False, Kfree])"

section \<open>Module\<close>

definition igbuio_config_intr_mode :: "rte_intr_mode \<Rightarrow> string option \<Rightarrow> int \<times> rte_intr_mode" where
  "igbuio_config_intr_mode preferred intr_str =
     (case intr_str of
        None \<Rightarrow> (0, preferred)
      | Some s \<Rightarrow>
          if s = ''msix'' then (0, RTE_INTR_MODE_MSIX)
          else if s = ''msi'' then (0, RTE_INTR_MODE_MSI)
          else if s = ''legacy'' then (0, RTE_INTR_MODE_LEGACY)
          else (- EINVAL, preferred))"

definition igbuio_intr_mode_preferred :: rte_intr_mode where
  "igbuio_intr_mode_preferred = RTE_INTR_MODE_MSIX"

definition igbuio_pci_init_module :: "kernel \<Rightarrow> string option \<Rightarrow> ktrace \<Rightarrow> int \<times> rte_intr_mode \<times> ktrace" where
  "igbuio_pci_init_module k intr_mode t =
     (if k_locked_down k then (- EINVAL, igbuio_intr_mode_preferred, t)
      else let (ret, preferred) = igbuio_config_intr_mode igbuio_intr_mode_preferred intr_mode in
        if ret < 0 then (ret, preferred, t)
        else let r = k_register_driver k t in (r, preferred, if r = 0 then t @ [Register_driver] else t))"

definition igbuio_pci_exit_module :: "ktrace \<Rightarrow> ktrace" where
  "igbuio_pci_exit_module t = t @ [Unregister_driver]"

section \<open>Interrupt pin masking on old kernels\<close>

text \<open>
  \<^verbatim>\<open>compat.h\<close> brings its own \<^verbatim>\<open>pci_intx_mask_supported\<close> and \<^verbatim>\<open>pci_check_and_mask_intx\<close> for kernels before
  3.3. The configuration space is an argument: the command and the status register, and \<open>wr\<close>, what the
  command register holds after a 16-bit write.
\<close>

definition PCI_COMMAND_INTX_DISABLE :: u16 where "PCI_COMMAND_INTX_DISABLE = 0x400"
definition PCI_STATUS_INTERRUPT :: u32 where "PCI_STATUS_INTERRUPT = 0x08"

definition pci_intx_mask_supported :: "(u16 \<Rightarrow> u16 \<Rightarrow> u16) \<Rightarrow> u16 \<Rightarrow> bool \<times> u16" where
  "pci_intx_mask_supported wr orig =
     (let new = wr orig (orig XOR PCI_COMMAND_INTX_DISABLE) in
      if (new XOR orig) AND NOT PCI_COMMAND_INTX_DISABLE \<noteq> 0 then (False, new)
      else if (new XOR orig) AND PCI_COMMAND_INTX_DISABLE \<noteq> 0 then (True, wr new orig)
      else (False, new))"

definition pci_check_and_mask_intx :: "(u16 \<Rightarrow> u16 \<Rightarrow> u16) \<Rightarrow> u16 \<Rightarrow> u16 \<Rightarrow> bool \<times> u16" where
  "pci_check_and_mask_intx wr command status_reg =
     (let status = ucast command OR push_bit 16 (ucast status_reg) :: u32;
          pending = drop_bit 16 status AND PCI_STATUS_INTERRUPT \<noteq> 0
      in if pending
         then (let old = ucast status :: u16;
                   new = (if status \<noteq> 0 then old AND NOT PCI_COMMAND_INTX_DISABLE
                          else old OR PCI_COMMAND_INTX_DISABLE)
               in (pending, if old \<noteq> new then wr command new else command))
         else (pending, command))"

section \<open>Resources held\<close>

text \<open>
  What a trace has acquired and not released. Disabling the device also clears bus mastering, as
  documented for \<^verbatim>\<open>pci_disable_device\<close>.
\<close>

datatype resource = RMem | RDevice | RMap u64 | RSysfs | RUio | RDma nat | RVectors rte_intr_mode | RIrq int

fun acquired :: "kcall \<Rightarrow> resource multiset" where
  "acquired Kzalloc = {#RMem#}"
| "acquired Pci_enable_device = {#RDevice#}"
| "acquired (Ioremap a l ia) = {#RMap ia#}"
| "acquired Sysfs_create_group = {#RSysfs#}"
| "acquired Uio_register_device = {#RUio#}"
| "acquired (Dma_alloc_coherent n) = {#RDma n#}"
| "acquired (Enable_vectors m) = {#RVectors m#}"
| "acquired (Request_irq i f) = {#RIrq i#}"
| "acquired c = {#}"

fun released :: "kcall \<Rightarrow> resource multiset" where
  "released Kfree = {#RMem#}"
| "released Pci_disable_device = {#RDevice#}"
| "released (Iounmap ia) = {#RMap ia#}"
| "released Sysfs_remove_group = {#RSysfs#}"
| "released Uio_unregister_device = {#RUio#}"
| "released (Dma_free_coherent n) = {#RDma n#}"
| "released (Free_vectors m) = {#RVectors m#}"
| "released (Free_irq i) = {#RIrq i#}"
| "released c = {#}"

definition held :: "ktrace \<Rightarrow> resource multiset" where
  "held t = held_by acquired released t"

fun sets_master :: "kcall \<Rightarrow> bool \<Rightarrow> bool" where
  "sets_master Pci_set_master b = True"
| "sets_master Pci_clear_master b = False"
| "sets_master Pci_disable_device b = False"
| "sets_master c b = b"

definition bus_master :: "ktrace \<Rightarrow> bool" where
  "bus_master t = foldl (\<lambda>b c. sets_master c b) False t"

lemma bus_master_append [simp]: "bus_master (s @ t) = foldl (\<lambda>b c. sets_master c b) (bus_master s) t"
  by (simp add: bus_master_def)

lemma held_append [simp]: "held (s @ t) = foldl (\<lambda>r c. r + acquired c - released c) (held s) t"
  by (simp add: held_def held_by_append)

definition maps :: "uio_info \<Rightarrow> resource multiset" where
  "maps info = image_mset RMap (filter_mset (\<lambda>a. a \<noteq> 0) (image_mset mem_internal_addr (mset (info_mem info))))"

text \<open>One region of the table, and the loop over all of them.\<close>

definition region_maps :: "uio_mem \<Rightarrow> resource multiset" where
  "region_maps m = (if mem_internal_addr m \<noteq> 0 then {#RMap (mem_internal_addr m)#} else {#})"

definition unmap_region :: "uio_mem \<Rightarrow> ktrace \<Rightarrow> ktrace" where
  "unmap_region m t = (if mem_internal_addr m \<noteq> 0 then t @ [Iounmap (mem_internal_addr m)] else t)"

interpretation region: resource_owner held region_maps unmap_region
  by unfold_locales (simp add: region_maps_def unmap_region_def)

lemma maps_regions: "maps info = sum_list (map region_maps (info_mem info))"
proof -
  have "image_mset RMap (filter_mset (\<lambda>a. a \<noteq> 0) (image_mset mem_internal_addr (mset ms))) = sum_list (map region_maps ms)" for ms
    by (induction ms) (auto simp: region_maps_def)
  then show ?thesis by (simp add: maps_def)
qed

lemma held_release_iomem: "held (igbuio_pci_release_iomem info t) = held t - maps info"
  using region.release_all [of t "info_mem info"] by (simp add: igbuio_pci_release_iomem_def unmap_region_def maps_regions)

text \<open>The slots from \<open>n\<close> on hold no mapping.\<close>

definition free_from :: "uio_info \<Rightarrow> nat \<Rightarrow> bool" where
  "free_from info n \<longleftrightarrow> (\<forall>j. n \<le> j \<longrightarrow> j < length (info_mem info) \<longrightarrow> mem_internal_addr (info_mem info ! j) = 0)"

lemma maps_update:
  assumes "n < length (info_mem info)" and "mem_internal_addr (info_mem info ! n) = 0"
  shows "maps (info\<lparr>info_mem := (info_mem info)[n := m]\<rparr>)
    = maps info + (if mem_internal_addr m \<noteq> 0 then {#RMap (mem_internal_addr m)#} else {#})"
proof -
  obtain M where M: "mset (info_mem info) = add_mset (info_mem info ! n) M"
    using assms(1) by (metis mset_add nth_mem_mset)
  then show ?thesis using assms by (auto simp: maps_def mset_update)
qed

lemma setup_iomem_held:
  assumes "igbuio_pci_setup_iomem k wc bars info n bar name t = (r, info', t')"
    and "free_from info n" and "held t = base + maps info"
  shows "held t' = base + maps info' \<and> free_from info' (n + 1) \<and> (r \<noteq> 0 \<longrightarrow> info' = info \<and> t' = t)"
proof (cases "n < length (info_mem info)")
  case True
  moreover have "mem_internal_addr (info_mem info ! n) = 0" using assms(2) True by (simp add: free_from_def)
  ultimately show ?thesis using assms
    by (auto simp: igbuio_pci_setup_iomem_def Let_def maps_update free_from_def split: if_splits)
next
  case False
  then show ?thesis using assms
    by (auto simp: igbuio_pci_setup_iomem_def free_from_def split: if_splits)
qed

lemma setup_ioport_mem:
  "igbuio_pci_setup_ioport bars info n bar name = (r, info') \<Longrightarrow> info_mem info' = info_mem info"
  by (auto simp: igbuio_pci_setup_ioport_def Let_def split: if_splits)

lemma same_mem: "info_mem j = info_mem i \<Longrightarrow> maps j = maps i \<and> free_from j n = free_from i n"
  by (simp add: maps_def free_from_def)

lemma setup_bars_loop_held:
  assumes "setup_bars_loop k wc bars ns iom iop ret info t = (res, info', t')"
    and "free_from info iom" and "held t = base + maps info"
  shows "held t' = base + maps info'"
  using assms
proof (induction ns arbitrary: iom iop ret info t)
  case (Cons x rest)
  obtain i name where x: "x = (i, name)" by force
  obtain r1 j1 t1 where io: "igbuio_pci_setup_iomem k wc bars info iom i name t = (r1, j1, t1)"
    using prod_cases3 by blast
  obtain r2 j2 where po: "igbuio_pci_setup_ioport bars info iop i name = (r2, j2)" by force
  have 1: "held t1 = base + maps j1 \<and> free_from j1 (iom + 1) \<and> (r1 \<noteq> 0 \<longrightarrow> j1 = info \<and> t1 = t)"
    by (rule setup_iomem_held [OF io Cons.prems(2,3)])
  have 2: "held t = base + maps j2 \<and> free_from j2 iom"
    using same_mem [OF setup_ioport_mem [OF po]] Cons.prems(2,3) by simp
  show ?case
    using Cons.prems(1) 1 2 Cons.prems(2,3) Cons.IH
    by (simp add: x io po split: if_splits) 
qed simp

lemma setup_bars_loop_ret:
  assumes "setup_bars_loop k wc bars ns iom iop ret info t = (Inr (m, p, r), info', t')"
    and "iom \<noteq> 0 \<or> iop \<noteq> 0 \<longrightarrow> ret = Some 0"
  shows "m \<noteq> 0 \<or> p \<noteq> 0 \<longrightarrow> r = Some 0"
  using assms
  by (induction k wc bars ns iom iop ret info t arbitrary: info' t' rule: setup_bars_loop.induct)
    (auto split: if_splits prod.splits)

text \<open>\<^verbatim>\<open>setup_bars\<close> never returns its uninitialised variable, and returns 0 exactly when the loop ended with a region.\<close>

lemma setup_bars_total: "\<exists>r info' t'. igbuio_setup_bars k wc bars info t = (Some r, info', t')"
  using setup_bars_loop_ret [of k wc bars "List.enumerate 0 bar_names" 0 0 None info t]
  by (fastforce simp: igbuio_setup_bars_def split: prod.splits sum.splits)

lemma setup_bars_held:
  assumes "igbuio_setup_bars k wc bars info t = (r, info', t')"
    and "free_from info 0" and "held t = base + maps info"
  shows "held t' = base + maps info'"
  using assms
  by (auto simp: igbuio_setup_bars_def split: prod.splits sum.splits if_splits dest: setup_bars_loop_held)

section \<open>Probe\<close>

lemma zero_udev_maps [simp]: "maps (udev_info zero_udev) = {#}" "free_from (udev_info zero_udev) 0"
  by (simp_all add: zero_udev_def maps_def free_from_def zero_mem_def)

lemma maps_rename [simp]: "maps (info\<lparr>info_name := a, info_version := b\<rparr>) = maps info"
  by (simp add: maps_def)

lemmas probe_unfold = igbuio_pci_probe_def fail_remove_group_def fail_release_iomem_def fail_free_def
  errno_defs held_release_iomem Let_def

lemma probe_bars:
  obtains r info t2 where "igbuio_setup_bars k wc bars (udev_info zero_udev)
      ((t @ [Kzalloc]) @ [Pci_enable_device, Pci_set_master]) = (Some r, info, t2)"
    and "held t2 = held t + {#RMem, RDevice#} + maps info"
proof -
  obtain r info t2 where bars: "igbuio_setup_bars k wc bars (udev_info zero_udev)
      ((t @ [Kzalloc]) @ [Pci_enable_device, Pci_set_master]) = (Some r, info, t2)"
    using setup_bars_total by blast
  have "held t2 = held t + {#RMem, RDevice#} + maps info"
    by (rule setup_bars_held [OF bars]) simp_all
  with bars show ?thesis by (rule that)
qed

lemma probe_success:
  assumes "igbuio_pci_probe k wc bars t = Some (0, Some u, t')"
  shows "udev_refcnt u = 0 \<and> held t' = held t + {#RMem, RDevice, RSysfs, RUio#} + maps (udev_info u)"
  using assms
  by (rule_tac probe_bars [of k wc bars t])
    (auto simp: probe_unfold zero_udev_def split: if_splits)

text \<open>C30: 
  Whatever the kernel answers, \<^verbatim>\<open>probe\<close> either fails with a non-zero error, holding nothing it did not
  hold before, or succeeds holding the device structure, the enabled device, the attribute
  group, the UIO registration and one kernel mapping per mapped memory BAR, all of which are recorded
  in the driver data. It never uses the uninitialised variable of \<^verbatim>\<open>igbuio_setup_bars\<close>.
\<close>
theorem probe_holds_all_or_nothing:
  "case igbuio_pci_probe k wc bars t of
     None \<Rightarrow> False
   | Some (err, None, t') \<Rightarrow> err \<noteq> 0 \<and> held t' = held t
   | Some (err, Some udev, t') \<Rightarrow>
       err = 0 \<and> udev_refcnt udev = 0 \<and>
       held t' = held t + {#RMem, RDevice, RSysfs, RUio#} + maps (udev_info udev)"
  by (rule probe_bars [of k wc bars t]) (simp add: probe_unfold)

section \<open>Descriptors\<close>

text \<open>The message vectors of the chosen mode, and what an enabled device holds for its interrupt.\<close>

definition vectors_held :: "rte_uio_pci_dev \<Rightarrow> resource multiset" where
  "vectors_held udev =
     (if udev_mode udev = RTE_INTR_MODE_MSIX \<or> udev_mode udev = RTE_INTR_MODE_MSI
      then {#RVectors (udev_mode udev)#} else {#})"

definition irq_held :: "rte_uio_pci_dev \<Rightarrow> resource multiset" where
  "irq_held udev =
     (if info_irq (udev_info udev) \<noteq> 0 then {#RIrq (info_irq (udev_info udev))#} else {#}) + vectors_held udev"

lemma irq_held_refcnt [simp]: "vectors_held (v\<lparr>udev_refcnt := c\<rparr>) = vectors_held v" "irq_held (v\<lparr>udev_refcnt := c\<rparr>) = irq_held v"
  by (simp_all add: irq_held_def vectors_held_def)

text \<open>The modes the module can be loaded with.\<close>

definition intr_modes :: "rte_intr_mode list" where
  "intr_modes = [RTE_INTR_MODE_MSIX, RTE_INTR_MODE_MSI, RTE_INTR_MODE_LEGACY, RTE_INTR_MODE_NONE]"

lemma init_module_mode: "fst (snd (igbuio_pci_init_module k intr_mode t)) \<in> set intr_modes"
  by (simp add: igbuio_pci_init_module_def igbuio_config_intr_mode_def igbuio_intr_mode_preferred_def intr_modes_def
      Let_def split: option.splits prod.splits)

text \<open>
  The steps of a bound device: a successful open adds a descriptor, a failed one adds none, a close
  removes one. The number of descriptors stays below \<open>2 ^ 32\<close>.
\<close>

inductive fd_step :: "kernel \<Rightarrow> rte_intr_mode \<Rightarrow> rte_uio_pci_dev \<times> nat \<times> ktrace
    \<Rightarrow> rte_uio_pci_dev \<times> nat \<times> ktrace \<Rightarrow> bool" for k preferred where
  open_ok: "igbuio_pci_open k preferred u t = (0, u', t') \<Longrightarrow> Suc n < 2 ^ 32
    \<Longrightarrow> fd_step k preferred (u, n, t) (u', Suc n, t')"
| open_fail: "igbuio_pci_open k preferred u t = (e, u', t') \<Longrightarrow> e \<noteq> 0
    \<Longrightarrow> fd_step k preferred (u, n, t) (u', n, t')"
| close: "igbuio_pci_release u t = (r, u', t') \<Longrightarrow> fd_step k preferred (u, Suc n, t) (u', n, t')"

inductive_cases fd_stepE: "fd_step k preferred s s'"

text \<open>
  An open that fails (the only step that keeps the number of descriptors) has allocated the vectors of the
  mode it chose, and does not free them. A run collects what its failed opens leave behind.
\<close>

fun left_behind :: "rte_uio_pci_dev \<times> nat \<times> ktrace \<Rightarrow> rte_uio_pci_dev \<times> nat \<times> ktrace \<Rightarrow> resource multiset" where
  "left_behind (u, n, t) (u', n', t') = (if n' = n then vectors_held u' else {#})"

inductive fd_run :: "kernel \<Rightarrow> rte_intr_mode \<Rightarrow> rte_uio_pci_dev \<times> nat \<times> ktrace \<Rightarrow> resource multiset
    \<Rightarrow> rte_uio_pci_dev \<times> nat \<times> ktrace \<Rightarrow> bool" for k preferred where
  refl: "fd_run k preferred s {#} s"
| step: "fd_run k preferred s L s' \<Longrightarrow> fd_step k preferred s' s'' \<Longrightarrow> fd_run k preferred s (L + left_behind s' s'') s''"

definition fd_inv :: "resource multiset \<Rightarrow> resource multiset \<Rightarrow> rte_uio_pci_dev \<times> nat \<times> ktrace \<Rightarrow> bool" where
  "fd_inv base M s = (case s of (u, n, t) \<Rightarrow>
     udev_refcnt u = word_of_nat n \<and> n < 2 ^ 32 \<and> maps (udev_info u) = M \<and>
     held t = base + (if n = 0 then {#} else irq_held u) \<and> (n \<noteq> 0 \<longrightarrow> bus_master t))"

lemma maps_irq [simp]: "maps (info\<lparr>info_irq := i\<rparr>) = maps info"
  "maps (info\<lparr>info_irq := i, info_irq_flags := f\<rparr>) = maps info"
  by (simp_all add: maps_def)

lemmas intr_cases = intr_msix_def intr_msi_def intr_legacy_def intr_none_def intr_invalid_def set_irq_def

lemma enable_held:
  assumes "igbuio_pci_enable_interrupts k p u t = (e, u', t')" and "p \<in> set intr_modes"
  shows "held t' = held t + (if e = 0 then irq_held u' else vectors_held u') \<and> maps (udev_info u') = maps (udev_info u)
    \<and> udev_refcnt u' = udev_refcnt u \<and> bus_master t' = bus_master t"
  using assms
  by (auto simp: igbuio_pci_enable_interrupts_def intr_cases irq_held_def vectors_held_def intr_modes_def intr_mode_defs
      UIO_IRQ_NONE_def Let_def split: if_splits prod.splits)

lemma enable_succeeds:
  assumes "igbuio_pci_enable_interrupts k p u t = (e, u', t')" and "p \<in> set intr_modes"
    and "\<forall>t i. k_request_irq k t i = 0"
  shows "e = 0"
  using assms
  by (auto simp: igbuio_pci_enable_interrupts_def intr_cases intr_modes_def Let_def split: if_splits prod.splits)

lemma disable_held:
  assumes "igbuio_pci_disable_interrupts u t = (u', t')" and "held t = base + irq_held u"
  shows "held t' = base \<and> maps (udev_info u') = maps (udev_info u) \<and> udev_refcnt u' = udev_refcnt u"
  using assms
  by (auto simp: igbuio_pci_disable_interrupts_def irq_held_def vectors_held_def intr_mode_defs Let_def split: if_splits)

lemma word_of_nat_u32_inj:
  assumes "n < 2 ^ 32" and "(word_of_nat n :: u32) = word_of_nat m" and "m < 2 ^ 32"
  shows "n = m"
  using arg_cong [OF assms(2), of unat] assms(1,3) by (simp add: unat_word_of_nat)

lemma refcnt_one_iff:
  assumes "n < 4294967295"
  shows "(word_of_nat n + 1 :: u32) = 1 \<longleftrightarrow> n = 0"
  using assms word_of_nat_u32_inj [of n 0] by auto

lemma open_inv:
  assumes "fd_inv base M (u, n, t)" and "p \<in> set intr_modes"
    and "igbuio_pci_open k p u t = (e, u', t')"
  shows "e = 0 \<Longrightarrow> n < 4294967295 \<Longrightarrow> fd_inv base M (u', Suc n, t')"
    and "e \<noteq> 0 \<Longrightarrow> fd_inv (base + vectors_held u') M (u', n, t')"
proof -
  let ?u1 = "u\<lparr>udev_refcnt := udev_refcnt u + 1\<rparr>"
  obtain e2 u2 t2 where en: "igbuio_pci_enable_interrupts k p ?u1 (t @ [Pci_set_master]) = (e2, u2, t2)"
    using prod_cases3 by blast
  note eh = enable_held [OF en assms(2)]
  show "fd_inv base M (u', Suc n, t')" if "e = 0" "n < 4294967295"
    using that assms(1,3) en eh refcnt_one_iff [of n]
    by (auto simp: fd_inv_def igbuio_pci_open_def Let_def add.commute split: if_splits)
  show "fd_inv (base + vectors_held u') M (u', n, t')" if "e \<noteq> 0"
    using that assms(1,3) en eh word_of_nat_u32_inj [of n 0]
    by (auto simp: fd_inv_def igbuio_pci_open_def Let_def split: if_splits)
qed

lemma release_inv:
  assumes "fd_inv base M (u, Suc n, t)" and "igbuio_pci_release u t = (r, u', t')"
  shows "fd_inv base M (u', n, t')"
proof -
  let ?u1 = "u\<lparr>udev_refcnt := udev_refcnt u - 1\<rparr>"
  obtain u2 t2 where di: "igbuio_pci_disable_interrupts ?u1 t = (u2, t2)" by force
  have dh: "held t2 = base \<and> maps (udev_info u2) = M \<and> udev_refcnt u2 = udev_refcnt u - 1"
    using disable_held [OF di, of base] assms(1) by (simp add: fd_inv_def)
  show ?thesis
    using assms di dh word_of_nat_u32_inj [of n 0]
    by (auto simp: fd_inv_def igbuio_pci_release_def Let_def split: if_splits)
qed

lemma fd_step_inv:
  assumes "fd_step k p s s'" and "p \<in> set intr_modes" and "fd_inv base M s"
  shows "fd_inv (base + left_behind s s') M s'"
  using assms(1)
proof (cases rule: fd_step.cases)
  case (open_ok u t u' t' n)
  with open_inv(1) [OF _ assms(2) open_ok(3)] assms(3) show ?thesis by simp
next
  case (open_fail u t e u' t' n)
  with open_inv(2) [OF _ assms(2) open_fail(3)] assms(3) show ?thesis by simp
next
  case (close u t r u' t' n)
  with release_inv assms(3) show ?thesis by simp
qed

lemma fd_run_inv:
  assumes "fd_run k p s L s'" and "p \<in> set intr_modes" and "fd_inv base M s"
  shows "fd_inv (base + L) M s'"
  using assms
proof (induction rule: fd_run.induct)
  case (step s L s' s'')
  then show ?case using fd_step_inv [OF step(2) step(4), of "base + L" M] by (simp add: add.assoc)
qed simp

text \<open>If interrupt lines can always be requested, no open fails and nothing is left behind.\<close>

lemma fd_run_no_failure:
  assumes "fd_run k p s L s'" and "p \<in> set intr_modes" and "\<forall>t i. k_request_irq k t i = 0"
  shows "L = {#}"
  using assms
proof (induction rule: fd_run.induct)
  case (step s L s' s'')
  have "igbuio_pci_open k p u t \<noteq> (e, u', t')" if "e \<noteq> 0" for u t e u' t'
    using that enable_succeeds [OF _ step.prems]
    by (auto simp: igbuio_pci_open_def Let_def split: if_splits prod.splits)
  with step show ?case by (auto elim!: fd_stepE)
qed simp

lemma release_last:
  assumes "fd_inv base M (u, n, t)" and "igbuio_pci_release u t = (r, u', t')"
  shows "maps (udev_info u') = M \<and> held t' = base + (if n \<le> 1 then {#} else irq_held u)"
proof (cases n)
  case 0
  then have "udev_refcnt u = 0" using assms(1) by (simp add: fd_inv_def)
  then show ?thesis using assms 0 by (auto simp: fd_inv_def igbuio_pci_release_def)
next
  case (Suc m)
  have inv: "fd_inv base M (u', m, t')" using release_inv assms Suc by blast
  have "irq_held u' = irq_held u" if "m \<noteq> 0"
    using that assms Suc word_of_nat_u32_inj [of m 0]
    by (auto simp: fd_inv_def igbuio_pci_release_def Let_def split: if_splits)
  then show ?thesis using inv Suc by (auto simp: fd_inv_def)
qed

lemma remove_held:
  assumes "fd_inv (base + {#RMem, RDevice, RSysfs, RUio#} + M) M (u, n, t)"
  shows "held (igbuio_pci_remove u t) = base + (if n \<le> 1 then {#} else irq_held u)"
proof -
  obtain r u' t' where rel: "igbuio_pci_release u t = (r, u', t')" using prod_cases3 by blast
  show ?thesis
    using release_last [OF assms rel] by (simp add: igbuio_pci_remove_def rel held_release_iomem)
qed

text \<open>C31: C31:
  A device that was probed, opened and closed any number of times and then removed holds again exactly
  what was held before the probe, and besides only: the message vectors of every open that failed because
  its interrupt line could not be requested (the failed open does not free them; none if requests never
  fail), and, when two or more descriptors are still open, the interrupt handler and the vectors of the
  device. In that last case \<^verbatim>\<open>remove\<close> drops only one reference, and the handler, whose argument is the device
  structure, stays registered although the structure is freed.
\<close>
theorem probe_remove_balance:
  assumes "igbuio_pci_probe k wc bars t0 = Some (0, Some u0, t1)"
    and "preferred \<in> set intr_modes"
    and "fd_run k preferred (u0, 0, t1) L (u, n, t)"
  shows "held (igbuio_pci_remove u t) = held t0 + L + (if n \<le> 1 then {#} else irq_held u)
    \<and> ((\<forall>t i. k_request_irq k t i = 0) \<longrightarrow> L = {#})"
proof -
  let ?own = "{#RMem, RDevice, RSysfs, RUio#}" and ?M = "maps (udev_info u0)"
  have "fd_inv (held t0 + ?own + ?M) ?M (u0, 0, t1)"
    using probe_success [OF assms(1)] by (simp add: fd_inv_def)
  from fd_run_inv [OF assms(3,2) this] have "fd_inv (held t0 + L + ?own + ?M) ?M (u, n, t)"
    by (simp add: ac_simps)
  from remove_held [OF this] fd_run_no_failure [OF assms(3,2)] show ?thesis by simp
qed

text \<open>A concrete kernel with one memory BAR: the MSI-X vector is granted once, but its line 40 cannot be
  requested; the legacy line 11 can.\<close>

definition demo_kernel :: kernel where
  "demo_kernel = \<lparr>have_msi_mask_irq = True, have_alloc_irq_vectors = True, have_is_bridge = True,
     k_locked_down = False, k_is_bridge = False, k_kzalloc = (\<lambda>_. True), k_enable_device = (\<lambda>_. 0),
     k_ioremap = (\<lambda>_ a l. a + 0x1000), k_dma_set_mask = (\<lambda>_. 0), k_sysfs_create = (\<lambda>_. 0),
     k_uio_register = (\<lambda>_. 0), k_dma_alloc = (\<lambda>_. False),
     k_enable_vectors = (\<lambda>t m. if m = RTE_INTR_MODE_MSIX \<and> Enable_vectors m \<notin> set t then (1, 40) else (- 22, 0)),
     k_intx_mask_supported = (\<lambda>_. True), k_check_and_mask_intx = (\<lambda>_. True),
     k_request_irq = (\<lambda>_ i. if i = 40 then - 16 else 0),
     k_pdev_irq = 11, k_num_vf = (\<lambda>_. 0), k_enable_sriov = (\<lambda>_ _. 0), k_register_driver = (\<lambda>_. 0)\<rparr>"

definition demo_bars :: "nat \<Rightarrow> pci_bar" where
  "demo_bars i = (if i = 0 then \<lparr>bar_start = 0x10000, bar_len = 0x4000, bar_flags = 0x200\<rparr>
                  else \<lparr>bar_start = 0, bar_len = 0, bar_flags = 0\<rparr>)"

lemmas kernel_run = demo_kernel_def demo_bars_def zero_udev_def zero_mem_def zero_port_def bar_names_def
  igbuio_pci_probe_def igbuio_setup_bars_def igbuio_pci_setup_iomem_def igbuio_pci_open_def
  igbuio_pci_enable_interrupts_def intr_msix_def intr_msi_def intr_legacy_def vectors_ok_def set_irq_def intr_mode_defs
  MAX_UIO_MAPS_def MAX_UIO_PORT_REGIONS_def UIO_IRQ_NONE_def IORESOURCE_MEM_def Let_def

lemma enumerate_bars: "List.enumerate 0 bar_names = [(0, ''BAR0''), (1, ''BAR1''), (2, ''BAR2''), (3, ''BAR3''),
    (4, ''BAR4''), (5, ''BAR5'')]"
  by (simp add: bar_names_def)

lemma demo_probe: "\<exists>u0 t1. igbuio_pci_probe demo_kernel 0 demo_bars [] = Some (0, Some u0, t1) \<and> udev_refcnt u0 = 0
    \<and> Enable_vectors RTE_INTR_MODE_MSIX \<notin> set t1"
  by (simp add: kernel_run enumerate_bars)

lemma demo_open1: "udev_refcnt u = 0 \<Longrightarrow> Enable_vectors RTE_INTR_MODE_MSIX \<notin> set t \<Longrightarrow>
    \<exists>u' t'. igbuio_pci_open demo_kernel RTE_INTR_MODE_MSIX u t = (- 16, u', t')
    \<and> udev_refcnt u' = 0 \<and> vectors_held u' = {#RVectors RTE_INTR_MODE_MSIX#} \<and> Enable_vectors RTE_INTR_MODE_MSIX \<in> set t'"
  by (simp add: kernel_run vectors_held_def)

lemma demo_open2: "udev_refcnt u = 0 \<Longrightarrow> Enable_vectors RTE_INTR_MODE_MSIX \<in> set t \<Longrightarrow>
    \<exists>u' t'. igbuio_pci_open demo_kernel RTE_INTR_MODE_MSIX u t = (0, u', t') \<and> udev_refcnt u' = 1 \<and> irq_held u' = {#RIrq 11#}"
  by (simp add: kernel_run irq_held_def vectors_held_def)

lemma demo_open3: "udev_refcnt u = 1 \<Longrightarrow> \<exists>u'. igbuio_pci_open demo_kernel RTE_INTR_MODE_MSIX u t = (0, u', t)
    \<and> irq_held u' = irq_held u"
  by (simp add: igbuio_pci_open_def irq_held_def vectors_held_def)

text \<open>One failed open, then two descriptors, then the device is removed.\<close>

theorem probe_remove_balance_witness:
  "\<exists>u0 t1 u t. igbuio_pci_probe demo_kernel 0 demo_bars [] = Some (0, Some u0, t1)
     \<and> fd_run demo_kernel RTE_INTR_MODE_MSIX (u0, 0, t1) {#RVectors RTE_INTR_MODE_MSIX#} (u, 2, t)
     \<and> held (igbuio_pci_remove u t) = {#RVectors RTE_INTR_MODE_MSIX, RIrq 11#}"
proof -
  let ?m = RTE_INTR_MODE_MSIX
  obtain u0 t1 where p: "igbuio_pci_probe demo_kernel 0 demo_bars [] = Some (0, Some u0, t1)"
    and r0: "udev_refcnt u0 = 0" "Enable_vectors ?m \<notin> set t1" using demo_probe by blast
  obtain u1 t2 where o1: "igbuio_pci_open demo_kernel ?m u0 t1 = (- 16, u1, t2)"
    and r1: "udev_refcnt u1 = 0" "Enable_vectors ?m \<in> set t2" and i1: "vectors_held u1 = {#RVectors ?m#}"
    using demo_open1 [OF r0] by blast
  obtain u2 t3 where o2: "igbuio_pci_open demo_kernel ?m u1 t2 = (0, u2, t3)"
    and r2: "udev_refcnt u2 = 1" and i2: "irq_held u2 = {#RIrq 11#}" using demo_open2 [OF r1] by blast
  obtain u3 where o3: "igbuio_pci_open demo_kernel ?m u2 t3 = (0, u3, t3)"
    and i3: "irq_held u3 = irq_held u2" using demo_open3 [OF r2] by blast
  have "fd_run demo_kernel ?m (u0, 0, t1) ({#} + left_behind (u0, 0, t1) (u1, 0, t2)) (u1, 0, t2)"
    by (rule fd_run.step [OF fd_run.refl open_fail [OF o1]]) simp
  then have "fd_run demo_kernel ?m (u0, 0, t1) {#RVectors ?m#} (u1, 0, t2)" by (simp add: i1)
  from fd_run.step [OF this open_ok [OF o2]]
  have "fd_run demo_kernel ?m (u0, 0, t1) {#RVectors ?m#} (u2, Suc 0, t3)" by simp
  from fd_run.step [OF this open_ok [OF o3]]
  have run: "fd_run demo_kernel ?m (u0, 0, t1) {#RVectors ?m#} (u3, Suc (Suc 0), t3)" by simp
  have "held (igbuio_pci_remove u3 t3) = held [] + {#RVectors ?m#} + (if Suc (Suc 0) \<le> 1 then {#} else irq_held u3)"
    using probe_remove_balance [OF p _ run] by (simp add: intr_modes_def)
  then have "held (igbuio_pci_remove u3 t3) = {#RVectors ?m, RIrq 11#}" by (simp add: held_def i2 i3)
  with p run show ?thesis by (auto simp: numeral_2_eq_2)
qed

section \<open>Interrupt mode\<close>

definition mode_supported :: "kernel \<Rightarrow> ktrace \<Rightarrow> rte_intr_mode \<Rightarrow> bool" where
  "mode_supported k t m =
     (if m = RTE_INTR_MODE_MSIX \<or> m = RTE_INTR_MODE_MSI then vectors_ok k (fst (k_enable_vectors k t m))
      else if m = RTE_INTR_MODE_LEGACY then k_intx_mask_supported k t
      else m = RTE_INTR_MODE_NONE)"

text \<open>
  Enabling interrupts chooses the first mode, from the preferred one downwards, that the kernel supports,
  whether or not the interrupt line can then be requested.
\<close>
theorem enable_interrupts_mode:
  assumes "preferred \<in> set intr_modes"
  shows "find (mode_supported k t) (dropWhile (\<lambda>m. m \<noteq> preferred) intr_modes)
    = Some (udev_mode (fst (snd (igbuio_pci_enable_interrupts k preferred udev t))))"
proof -
  have m: "udev_mode (fst (snd (igbuio_pci_enable_interrupts k preferred udev t)))
    = udev_mode (fst (snd (if preferred = RTE_INTR_MODE_MSIX then intr_msix k udev t
         else if preferred = RTE_INTR_MODE_MSI then intr_msi k udev t
         else if preferred = RTE_INTR_MODE_LEGACY then intr_legacy k udev t
         else if preferred = RTE_INTR_MODE_NONE then intr_none udev t
         else intr_invalid udev t)))"
    by (simp add: igbuio_pci_enable_interrupts_def Let_def split: prod.splits)
  show ?thesis
    unfolding m using assms
    by (auto simp: intr_modes_def intr_mode_defs mode_supported_def intr_cases split: prod.splits)
qed

text \<open>
  When the interrupt line of an allocated message vector cannot be requested, the failed open gives back
  its reference but neither the vectors nor bus mastering.
\<close>

lemma open_failure_keeps_vectors:
  assumes "udev_refcnt u = 0" and "k_enable_vectors k (t @ [Pci_set_master]) RTE_INTR_MODE_MSIX = (r, v)"
    and "vectors_ok k r" and "v \<noteq> 0" and "\<And>t i. k_request_irq k t i = - 16"
  shows "\<exists>u' t'. igbuio_pci_open k RTE_INTR_MODE_MSIX u t = (- 16, u', t') \<and> udev_refcnt u' = 0
    \<and> held t' = held t + {#RVectors RTE_INTR_MODE_MSIX#} \<and> bus_master t'"
  using assms
  by (simp add: igbuio_pci_open_def igbuio_pci_enable_interrupts_def intr_msix_def set_irq_def UIO_IRQ_NONE_def)

section \<open>Masking\<close>

text \<open>Masking a message interrupt sets, unmasking clears, exactly its mask bit, with at most one register write.\<close>

lemma msix_mask_bits:
  assumes "igbuio_msix_mask_irq d st t = (d', t')"
  shows "desc_masked d' = (if st \<noteq> 0 then desc_masked d AND NOT 1 else desc_masked d OR 1)
    \<and> (t' = t \<longleftrightarrow> desc_masked d' = desc_masked d)"
  using assms
  by (auto simp: igbuio_msix_mask_irq_def PCI_MSIX_ENTRY_CTRL_MASKBIT_def Let_def split: if_splits)

text \<open>
  The replacement of \<^verbatim>\<open>pci_check_and_mask_intx\<close> for old kernels never masks: whenever it reports a pending
  interrupt the status is non-zero, so that the branch that would set the disable bit is dead and the
  value written has the bit cleared.
\<close>

lemma check_and_mask_never_masks:
  assumes "fst (pci_check_and_mask_intx (\<lambda>_ new. new) command status_reg)"
  shows "snd (pci_check_and_mask_intx (\<lambda>_ new. new) command status_reg) AND PCI_COMMAND_INTX_DISABLE = 0"
proof -
  let ?s = "ucast command OR push_bit 16 (ucast status_reg) :: u32"
  have nz: "?s \<noteq> 0"
  proof
    assume "?s = 0"
    then have "drop_bit 16 ?s AND PCI_STATUS_INTERRUPT = 0" by (simp only: drop_bit_0 and_zero_eq) simp
    then show False using assms by (simp add: pci_check_and_mask_intx_def Let_def split: if_splits)
  qed
  have lo: "(ucast ?s :: u16) = command" by (rule bit_word_eqI) (auto simp: bit_simps)
  have "snd (pci_check_and_mask_intx (\<lambda>_ new. new) command status_reg)
      = command AND NOT PCI_COMMAND_INTX_DISABLE"
    using assms nz unfolding pci_check_and_mask_intx_def Let_def lo by (simp split: if_splits)
  then show ?thesis by (simp add: and.assoc)
qed

end
