(* ===== verification/Virt2Phys.thy ===== *)
theory Virt2Phys
  imports LM_Prelude "HOL-Library.Multiset"
begin

text \<open>
  \<^verbatim>\<open>src/deps/dpdk-kmods/windows/virt2phys\<close>: the Windows driver that locks the memory region around an
  address and reports its physical address. The state is the list of tracked processes, each with the
  blocks locked for it, together with what the driver owes to the system: the locked memory descriptors
  and the structures taken from the pool. The memory manager, the pool and the driver framework are
  parameters. An access outside an array or to a freed structure is the value \<open>None\<close>.
\<close>

section \<open>Status codes and parameters\<close>

type_synonym ntstatus = u32

definition NT_SUCCESS :: "ntstatus \<Rightarrow> bool" where
  "NT_SUCCESS status \<longleftrightarrow> 0 \<le> sint status"

definition STATUS_SUCCESS :: ntstatus where "STATUS_SUCCESS = 0"
definition STATUS_UNSUCCESSFUL :: ntstatus where "STATUS_UNSUCCESSFUL = 0xC0000001"
definition STATUS_OBJECT_NAME_NOT_FOUND :: ntstatus where "STATUS_OBJECT_NAME_NOT_FOUND = 0xC0000034"
definition STATUS_QUOTA_EXCEEDED :: ntstatus where "STATUS_QUOTA_EXCEEDED = 0xC0000044"
definition STATUS_INSUFFICIENT_RESOURCES :: ntstatus where "STATUS_INSUFFICIENT_RESOURCES = 0xC000009A"
definition STATUS_NOT_SUPPORTED :: ntstatus where "STATUS_NOT_SUPPORTED = 0xC00000BB"

lemma status_success [simp]:
  "NT_SUCCESS STATUS_SUCCESS" "\<not> NT_SUCCESS STATUS_UNSUCCESSFUL" "\<not> NT_SUCCESS STATUS_QUOTA_EXCEEDED"
  "\<not> NT_SUCCESS STATUS_INSUFFICIENT_RESOURCES" "\<not> NT_SUCCESS STATUS_NOT_SUPPORTED"
  by (simp_all add: NT_SUCCESS_def STATUS_SUCCESS_def STATUS_UNSUCCESSFUL_def STATUS_QUOTA_EXCEEDED_def
      STATUS_INSUFFICIENT_RESOURCES_def STATUS_NOT_SUPPORTED_def)

definition PAGE_SIZE :: u64 where "PAGE_SIZE = 4096"
definition MEM_COMMIT :: u32 where "MEM_COMMIT = 0x1000"
definition MEM_PRIVATE :: u32 where "MEM_PRIVATE = 0x20000"

record virt2phys_params =
  process_count_limit :: u32
  process_memory_limit :: u64

text \<open>A memory descriptor list: the described address and length, and the frames of its pages once locked.\<close>

record mdl =
  mdl_va :: u64
  mdl_byte_count :: u32
  mdl_pfn :: "u64 list"

definition mdl_start_va :: "mdl \<Rightarrow> u64" where
  "mdl_start_va m = mdl_va m AND NOT 0xFFF"

definition span_pages :: "mdl \<Rightarrow> nat" where
  "span_pages m = (unat (mdl_va m AND 0xFFF) + unat (mdl_byte_count m) + 0xFFF) div 4096"

record memory_info =
  mi_allocation_base :: u64
  mi_region_size :: u64
  mi_state :: u32
  mi_type :: u32

text \<open>
  What the system answers: \<^verbatim>\<open>ZwQueryVirtualMemory\<close> for the current process, whether \<^verbatim>\<open>IoAllocateMdl\<close> and the
  pool allocations succeed, and the frames that \<^verbatim>\<open>MmProbeAndLockPages\<close> locks (\<open>None\<close> when it raises).
\<close>

record v2p_os =
  os_pid :: u64
  os_query :: "u64 \<Rightarrow> ntstatus \<times> memory_info"
  os_query_locked :: "u64 \<Rightarrow> ntstatus \<times> memory_info"
  os_alloc_mdl :: "u64 \<Rightarrow> u32 \<Rightarrow> bool"
  os_lock_pages :: "mdl \<Rightarrow> u64 list option"
  os_alloc_block :: bool
  os_alloc_process :: bool

record virt2phys_process =
  proc_id :: u64
  proc_blocks :: "mdl list"
  proc_memory :: u64

record v2p_state =
  g_params :: virt2phys_params
  g_processes :: "virt2phys_process list"
  g_process_count :: u32
  locked :: "mdl multiset"
  mdls :: "mdl multiset"
  block_pool :: "mdl multiset"
  process_pool :: "u64 multiset"

section \<open>Blocks\<close>

definition virt2phys_block_create :: "v2p_os \<Rightarrow> mdl \<Rightarrow> v2p_state \<Rightarrow> bool \<times> v2p_state" where
  "virt2phys_block_create os m s =
     (if os_alloc_block os then (True, s\<lparr>block_pool := add_mset m (block_pool s)\<rparr>) else (False, s))"

definition virt2phys_block_free :: "mdl \<Rightarrow> bool \<Rightarrow> v2p_state \<Rightarrow> v2p_state" where
  "virt2phys_block_free m unmap s =
     (let s1 = (if unmap then s\<lparr>locked := locked s - {#m#}\<rparr> else s)
      in s1\<lparr>mdls := mdls s1 - {#m#}, block_pool := block_pool s1 - {#m#}\<rparr>)"

definition virt2phys_block_translate :: "mdl \<Rightarrow> u64 \<Rightarrow> u64 option" where
  "virt2phys_block_translate m virt =
     (case mdl_pfn m of [] \<Rightarrow> None | f # fs \<Rightarrow> Some (f * PAGE_SIZE + (virt - mdl_va m)))"

section \<open>Processes\<close>

definition new_process :: "u64 \<Rightarrow> virt2phys_process" where
  "new_process pid = \<lparr>proc_id = pid, proc_blocks = [], proc_memory = 0\<rparr>"

lemma new_process_simps [simp]:
  "proc_id (new_process i) = i" "proc_blocks (new_process i) = []" "proc_memory (new_process i) = 0"
  by (simp_all add: new_process_def)

definition virt2phys_process_create :: "v2p_os \<Rightarrow> u64 \<Rightarrow> v2p_state \<Rightarrow> virt2phys_process option \<times> v2p_state" where
  "virt2phys_process_create os pid s =
     (if os_alloc_process os
      then (Some (new_process pid), s\<lparr>process_pool := add_mset pid (process_pool s)\<rparr>)
      else (None, s))"

definition virt2phys_process_free :: "virt2phys_process \<Rightarrow> bool \<Rightarrow> v2p_state \<Rightarrow> v2p_state" where
  "virt2phys_process_free p unmap s =
     (let s1 = foldl (\<lambda>s m. virt2phys_block_free m unmap s) s (proc_blocks p)
      in s1\<lparr>process_pool := process_pool s1 - {#proc_id p#}\<rparr>)"

fun find_process :: "virt2phys_process list \<Rightarrow> u64 \<Rightarrow> virt2phys_process option" where
  "find_process [] pid = None"
| "find_process (p # ps) pid = (if proc_id p = pid then Some p else find_process ps pid)"

definition virt2phys_process_find :: "v2p_state \<Rightarrow> u64 \<Rightarrow> virt2phys_process option" where
  "virt2phys_process_find s pid = find_process (g_processes s) pid"

fun find_start :: "mdl list \<Rightarrow> u64 \<Rightarrow> mdl option" where
  "find_start [] virt = None"
| "find_start (m # ms) virt = (if mdl_start_va m = virt then Some m else find_start ms virt)"

definition virt2phys_process_find_block :: "virt2phys_process \<Rightarrow> u64 \<Rightarrow> mdl option" where
  "virt2phys_process_find_block p virt = find_start (proc_blocks p) virt"

section \<open>Module state\<close>

text \<open>The global variables before \<^verbatim>\<open>virt2phys_init\<close> are zero; \<open>lock_ok\<close> is the allocation of the spin lock.\<close>

definition virt2phys_init :: "bool \<Rightarrow> virt2phys_params \<Rightarrow> v2p_state \<Rightarrow> ntstatus \<times> v2p_state" where
  "virt2phys_init lock_ok params s =
     (if \<not> lock_ok then (STATUS_INSUFFICIENT_RESOURCES, s)
      else (STATUS_SUCCESS, s\<lparr>g_processes := [], g_params := params\<rparr>))"

fun cleanup_loop :: "virt2phys_process list \<Rightarrow> v2p_state \<Rightarrow> v2p_state" where
  "cleanup_loop [] s = s"
| "cleanup_loop (p # ps) s =
     cleanup_loop ps (virt2phys_process_free p False (s\<lparr>g_processes := remove1 p (g_processes s)\<rparr>))"

definition virt2phys_cleanup :: "v2p_state \<Rightarrow> v2p_state" where
  "virt2phys_cleanup s = cleanup_loop (g_processes s) s"

definition virt2phys_process_detach :: "u64 \<Rightarrow> v2p_state \<Rightarrow> virt2phys_process option \<times> v2p_state" where
  "virt2phys_process_detach pid s =
     (case virt2phys_process_find s pid of
        None \<Rightarrow> (None, s)
      | Some p \<Rightarrow> (Some p, s\<lparr>g_processes := remove1 p (g_processes s)\<rparr>))"

definition virt2phys_process_cleanup :: "u64 \<Rightarrow> v2p_state \<Rightarrow> v2p_state" where
  "virt2phys_process_cleanup pid s =
     (case virt2phys_process_detach pid s of
        (None, s1) \<Rightarrow> s1
      | (Some p, s1) \<Rightarrow>
          let s2 = virt2phys_process_free p True s1 in s2\<lparr>g_process_count := g_process_count s2 - 1\<rparr>)"

text \<open>The found process and its block.\<close>

definition virt2phys_find_block :: "u64 \<Rightarrow> u64 \<Rightarrow> v2p_state \<Rightarrow> virt2phys_process option \<times> mdl option" where
  "virt2phys_find_block pid virt s =
     (case find_process (g_processes s) pid of
        Some cur \<Rightarrow> (Some cur, virt2phys_process_find_block cur virt)
      | None \<Rightarrow> (None, None))"

text \<open>\<open>count\<close> is a signed 64-bit number, the limit is converted to one.\<close>

definition virt2phys_exceeeds :: "int \<Rightarrow> u64 \<Rightarrow> bool" where
  "virt2phys_exceeeds n limit \<longleftrightarrow> 0 < limit \<and> sint limit < n"

fun update_process :: "virt2phys_process list \<Rightarrow> u64 \<Rightarrow> (virt2phys_process \<Rightarrow> virt2phys_process)
    \<Rightarrow> virt2phys_process list" where
  "update_process [] pid f = []"
| "update_process (p # ps) pid f = (if proc_id p = pid then f p # ps else p # update_process ps pid f)"

text \<open>
  A pointer to a process structure is either one that is on the list or a fresh one. The second argument
  of the result says whether the process was tracked. A listed structure that is gone by the time of the
  call is a use of freed memory.
\<close>

datatype process_ptr = Listed u64 | Fresh virt2phys_process

fun ptr_id :: "process_ptr \<Rightarrow> u64" where
  "ptr_id (Listed i) = i"
| "ptr_id (Fresh p) = proc_id p"

definition attach_block :: "u64 \<Rightarrow> mdl \<Rightarrow> virt2phys_process \<Rightarrow> v2p_state \<Rightarrow> ntstatus \<times> v2p_state" where
  "attach_block pid m p s =
     (let sz = ucast (mdl_byte_count m) :: u64 in
      if virt2phys_exceeeds (sint (proc_memory p + sz)) (process_memory_limit (g_params s))
      then (STATUS_QUOTA_EXCEEDED, s)
      else (STATUS_SUCCESS, s\<lparr>g_processes := update_process (g_processes s) pid
              (\<lambda>p. p\<lparr>proc_blocks := m # proc_blocks p, proc_memory := proc_memory p + sz\<rparr>)\<rparr>))"

definition virt2phys_add_block :: "process_ptr \<Rightarrow> mdl \<Rightarrow> v2p_state \<Rightarrow> (ntstatus \<times> bool \<times> v2p_state) option" where
  "virt2phys_add_block pp m s =
     (case virt2phys_process_find s (ptr_id pp) of
        Some existing \<Rightarrow> (case attach_block (ptr_id pp) m existing s of (st, s') \<Rightarrow> Some (st, True, s'))
      | None \<Rightarrow>
          (case pp of
             Listed i \<Rightarrow> None
           | Fresh p \<Rightarrow>
               if virt2phys_exceeeds (sint (g_process_count s + 1)) (ucast (process_count_limit (g_params s)))
               then Some (STATUS_QUOTA_EXCEEDED, False, s)
               else (case attach_block (proc_id p) m p
                            (s\<lparr>g_processes := p # g_processes s, g_process_count := g_process_count s + 1\<rparr>) of
                       (st, s') \<Rightarrow> Some (st, False, s'))))"

definition virt2phys_query_memory :: "v2p_os \<Rightarrow> u64 \<Rightarrow> ntstatus \<times> u64 \<times> u64" where
  "virt2phys_query_memory os virt =
     (case os_query os virt of (st, info) \<Rightarrow> (st, mi_allocation_base info, mi_region_size info))"

fun contiguous_from :: "u64 list \<Rightarrow> nat \<Rightarrow> nat \<Rightarrow> bool option" where
  "contiguous_from pfn i 0 = Some True"
| "contiguous_from pfn i (Suc n) =
     (if i < length pfn
      then if pfn ! i \<noteq> pfn ! (i - 1) + 1 then Some False else contiguous_from pfn (i + 1) n
      else None)"

definition virt2phys_is_contiguous :: "mdl \<Rightarrow> bool option" where
  "virt2phys_is_contiguous m = contiguous_from (mdl_pfn m) 1 (span_pages m - 1)"

definition virt2phys_check_memory :: "v2p_os \<Rightarrow> mdl \<Rightarrow> ntstatus option" where
  "virt2phys_check_memory os m =
     (case virt2phys_is_contiguous m of
        None \<Rightarrow> None
      | Some False \<Rightarrow> Some STATUS_UNSUCCESSFUL
      | Some True \<Rightarrow>
          (case os_query_locked os (mdl_va m) of (st, info) \<Rightarrow>
             Some (if \<not> NT_SUCCESS st then st
                   else if mi_allocation_base info \<noteq> mdl_va m \<or> mi_region_size info \<noteq> ucast (mdl_byte_count m)
                   then STATUS_UNSUCCESSFUL
                   else if mi_state info \<noteq> MEM_COMMIT then STATUS_UNSUCCESSFUL
                   else if mi_type info \<noteq> MEM_PRIVATE then STATUS_UNSUCCESSFUL
                   else st)))"

text \<open>The length handed to \<^verbatim>\<open>IoAllocateMdl\<close> is truncated to 32 bits.\<close>

definition virt2phys_lock_memory :: "v2p_os \<Rightarrow> u64 \<Rightarrow> u64 \<Rightarrow> v2p_state \<Rightarrow> (ntstatus + mdl) \<times> v2p_state" where
  "virt2phys_lock_memory os virt sz s =
     (let len = ucast sz :: u32 in
      if \<not> os_alloc_mdl os virt len then (Inl STATUS_INSUFFICIENT_RESOURCES, s)
      else case os_lock_pages os \<lparr>mdl_va = virt, mdl_byte_count = len, mdl_pfn = []\<rparr> of
        None \<Rightarrow> (Inl STATUS_UNSUCCESSFUL, s)
      | Some frames \<Rightarrow>
          let m = \<lparr>mdl_va = virt, mdl_byte_count = len, mdl_pfn = frames\<rparr>
          in (Inr m, s\<lparr>locked := add_mset m (locked s), mdls := add_mset m (mdls s)\<rparr>))"

definition virt2phys_unlock_memory :: "mdl \<Rightarrow> v2p_state \<Rightarrow> v2p_state" where
  "virt2phys_unlock_memory m s = s\<lparr>locked := locked s - {#m#}, mdls := mdls s - {#m#}\<rparr>"

text \<open>
  \<^verbatim>\<open>virt2phys_translate\<close> takes the lock twice. Its three parts are: the query and the first critical section
  (\<open>translate_look\<close>, an answer or the region to lock and the process found); the work outside the lock
  (\<open>translate_prepare\<close>, an error or a process structure and a block ready to be registered); and the second
  critical section with what follows it (\<open>translate_finish\<close>).
\<close>

definition translate_look :: "v2p_os \<Rightarrow> u64 \<Rightarrow> v2p_state
    \<Rightarrow> ((ntstatus \<times> u64 option) + (u64 \<times> u64 \<times> virt2phys_process option)) option" where
  "translate_look os virt s =
     (case virt2phys_query_memory os virt of (st, base, sz) \<Rightarrow>
      if \<not> NT_SUCCESS st then Some (Inl (st, None))
      else case virt2phys_find_block (os_pid os) base s of
        (found, Some m) \<Rightarrow>
          (case virt2phys_block_translate m virt of
             None \<Rightarrow> None | Some phys \<Rightarrow> Some (Inl (STATUS_SUCCESS, Some phys)))
      | (found, None) \<Rightarrow> Some (Inr (base, sz, found)))"

definition translate_prepare :: "v2p_os \<Rightarrow> u64 \<Rightarrow> u64 \<Rightarrow> virt2phys_process option \<Rightarrow> v2p_state
    \<Rightarrow> ((ntstatus + process_ptr \<times> mdl) \<times> v2p_state) option" where
  "translate_prepare os base sz found s =
     (case virt2phys_lock_memory os base sz s of
        (Inl st, s1) \<Rightarrow> Some (Inl st, s1)
      | (Inr m, s1) \<Rightarrow>
          (case virt2phys_check_memory os m of
             None \<Rightarrow> None
           | Some st \<Rightarrow>
               if \<not> NT_SUCCESS st then Some (Inl st, virt2phys_unlock_memory m s1)
               else case virt2phys_block_create os m s1 of
                 (False, s2) \<Rightarrow> Some (Inl STATUS_INSUFFICIENT_RESOURCES, virt2phys_unlock_memory m s2)
               | (True, s2) \<Rightarrow>
                   (case found of
                      Some p \<Rightarrow> Some (Inr (Listed (proc_id p), m), s2)
                    | None \<Rightarrow>
                        (case virt2phys_process_create os (os_pid os) s2 of
                           (None, s3) \<Rightarrow> Some (Inl STATUS_INSUFFICIENT_RESOURCES, virt2phys_block_free m True s3)
                         | (Some p, s3) \<Rightarrow> Some (Inr (Fresh p, m), s3)))))"

definition translate_finish :: "u64 \<Rightarrow> process_ptr \<Rightarrow> mdl \<Rightarrow> v2p_state \<Rightarrow> (ntstatus \<times> u64 option \<times> v2p_state) option" where
  "translate_finish virt pp m s =
     (case virt2phys_add_block pp m s of
        None \<Rightarrow> None
      | Some (st, tracked, s2) \<Rightarrow>
          let s3 = (case pp of Fresh p \<Rightarrow> if tracked then virt2phys_process_free p False s2 else s2
                             | Listed i \<Rightarrow> s2)
          in if NT_SUCCESS st
             then (case virt2phys_block_translate m virt of
                     None \<Rightarrow> None | Some phys \<Rightarrow> Some (st, Some phys, s3))
             else Some (st, None, s3))"

definition virt2phys_translate :: "v2p_os \<Rightarrow> u64 \<Rightarrow> v2p_state \<Rightarrow> (ntstatus \<times> u64 option \<times> v2p_state) option" where
  "virt2phys_translate os virt s =
     (case translate_look os virt s of
        None \<Rightarrow> None
      | Some (Inl (st, ph)) \<Rightarrow> Some (st, ph, s)
      | Some (Inr (base, sz, found)) \<Rightarrow>
          (case translate_prepare os base sz found s of
             None \<Rightarrow> None
           | Some (Inl st, s1) \<Rightarrow> Some (st, None, s1)
           | Some (Inr (pp, m), s1) \<Rightarrow> translate_finish virt pp m s1))"

text \<open>
  Calls of any number of threads, interleaved: each part is one step, and between them the other threads do
  theirs. \<open>Looked\<close> and \<open>Ready\<close> are calls before their second and third part. A process ends (the notification
  runs \<^verbatim>\<open>virt2phys_process_cleanup\<close>) only when none of its threads is in a call: Windows delivers the
  notification after the last thread of the process has terminated. The label is the answer of a call.
\<close>

datatype v2p_call =
    Looked v2p_os u64 u64 u64 "virt2phys_process option"
  | Ready v2p_os u64 process_ptr mdl

fun call_pid :: "v2p_call \<Rightarrow> u64" where
  "call_pid (Looked os virt base sz found) = os_pid os"
| "call_pid (Ready os virt pp m) = os_pid os"

type_synonym v2p_conf = "v2p_call multiset \<times> v2p_state"
type_synonym v2p_answer = "v2p_os \<times> u64 \<times> ntstatus \<times> u64 option"

text \<open>
  The memory manager: allocations start at a page, a region is not empty, and a locked descriptor has a
  frame for each of its pages.
\<close>

definition os_ok :: "v2p_os \<Rightarrow> bool" where
  "os_ok os \<longleftrightarrow>
     (\<forall>v. NT_SUCCESS (fst (os_query os v)) \<longrightarrow> mi_allocation_base (snd (os_query os v)) AND 0xFFF = 0) \<and>
     (\<forall>v. NT_SUCCESS (fst (os_query_locked os v)) \<longrightarrow> mi_region_size (snd (os_query_locked os v)) \<noteq> 0) \<and>
     (\<forall>m fs. os_lock_pages os m = Some fs \<longrightarrow> length fs = span_pages m)"

inductive v2p_step :: "v2p_conf \<Rightarrow> v2p_answer option \<Rightarrow> v2p_conf \<Rightarrow> bool" where
  look_answer: "os_ok os \<Longrightarrow> translate_look os virt s = Some (Inl (st, ph))
    \<Longrightarrow> v2p_step (C, s) (Some (os, virt, st, ph)) (C, s)"
| look_miss: "os_ok os \<Longrightarrow> translate_look os virt s = Some (Inr (base, sz, found))
    \<Longrightarrow> v2p_step (C, s) None (add_mset (Looked os virt base sz found) C, s)"
| prepare_fail: "translate_prepare os base sz found s = Some (Inl st, s')
    \<Longrightarrow> v2p_step (add_mset (Looked os virt base sz found) C, s) (Some (os, virt, st, None)) (C, s')"
| prepare_ok: "translate_prepare os base sz found s = Some (Inr (pp, m), s')
    \<Longrightarrow> v2p_step (add_mset (Looked os virt base sz found) C, s) None (add_mset (Ready os virt pp m) C, s')"
| finish: "translate_finish virt pp m s = Some (st, ph, s')
    \<Longrightarrow> v2p_step (add_mset (Ready os virt pp m) C, s) (Some (os, virt, st, ph)) (C, s')"
| process_exit: "i \<notin># image_mset call_pid C \<Longrightarrow> v2p_step (C, s) None (C, virt2phys_process_cleanup i s)"

abbreviation v2p_steps :: "v2p_conf \<Rightarrow> v2p_conf \<Rightarrow> bool" where
  "v2p_steps \<equiv> (\<lambda>c c'. \<exists>a. v2p_step c a c')\<^sup>*\<^sup>*"

text \<open>A call whose next part uses a freed structure or reads outside an array.\<close>

fun call_faults :: "v2p_state \<Rightarrow> v2p_call \<Rightarrow> bool" where
  "call_faults s (Looked os virt base sz found) \<longleftrightarrow> translate_prepare os base sz found s = None"
| "call_faults s (Ready os virt pp m) \<longleftrightarrow> translate_finish virt pp m s = None"

section \<open>Driver entry points\<close>

text \<open>
  \<^verbatim>\<open>virt2phys.c\<close>. The driver framework's answers: creating the driver, opening the registry key, the two
  values (a status and, on success, a 32-bit number), installing the notification, creating the device and
  its interface.
\<close>

record wdf =
  wdf_driver_create :: ntstatus
  wdf_open_key :: ntstatus
  wdf_query_ulong :: "string \<Rightarrow> ntstatus \<times> u32"
  wdf_notify :: ntstatus
  wdf_device_create :: ntstatus
  wdf_interface_create :: ntstatus
  wdf_lock_alloc :: bool

definition PROCESS_COUNT_LIMIT_DEF :: u32 where "PROCESS_COUNT_LIMIT_DEF = push_bit 4 1"
definition PROCESS_MEMORY_LIMIT_DEF :: u32 where "PROCESS_MEMORY_LIMIT_DEF = 16 * push_bit 10 1"

definition virt2phys_read_param :: "wdf \<Rightarrow> string \<Rightarrow> u32 \<Rightarrow> ntstatus \<times> u32" where
  "virt2phys_read_param w name def =
     (case wdf_query_ulong w name of (st, v) \<Rightarrow>
        if st = STATUS_OBJECT_NAME_NOT_FOUND then (STATUS_SUCCESS, def) else (st, v))"

definition virt2phys_read_mb :: "wdf \<Rightarrow> string \<Rightarrow> u32 \<Rightarrow> ntstatus \<times> u64 option" where
  "virt2phys_read_mb w name def_mb =
     (case virt2phys_read_param w name def_mb of (st, mb) \<Rightarrow>
        (st, if NT_SUCCESS st then Some (ucast mb * push_bit 20 1) else None))"

text \<open>The second component counts the registry keys left open.\<close>

definition virt2phys_load_params :: "wdf \<Rightarrow> (ntstatus + virt2phys_params) \<times> nat" where
  "virt2phys_load_params w =
     (if \<not> NT_SUCCESS (wdf_open_key w) then (Inl (wdf_open_key w), 0)
      else let keys = (1 :: nat);
               (st1, n) = virt2phys_read_param w ''ProcessCountLimit'' PROCESS_COUNT_LIMIT_DEF in
        if \<not> NT_SUCCESS st1 then (Inl st1, keys - 1)
        else case virt2phys_read_mb w ''ProcessMemoryLimitMB'' PROCESS_MEMORY_LIMIT_DEF of
          (st2, None) \<Rightarrow> (Inl st2, keys - 1)
        | (st2, Some bytes) \<Rightarrow>
            (Inr \<lparr>process_count_limit = n, process_memory_limit = bytes\<rparr>, keys - 1))"

text \<open>The state after loading, and whether the process notification is installed.\<close>

definition DriverEntry :: "wdf \<Rightarrow> v2p_state \<Rightarrow> ntstatus \<times> bool \<times> v2p_state" where
  "DriverEntry w s =
     (if \<not> NT_SUCCESS (wdf_driver_create w) then (wdf_driver_create w, False, s)
      else case virt2phys_load_params w of
        (Inl st, _) \<Rightarrow> (st, False, s)
      | (Inr params, _) \<Rightarrow>
          (case virt2phys_init (wdf_lock_alloc w) params s of (st, s1) \<Rightarrow>
             if \<not> NT_SUCCESS st then (st, False, s1)
             else if \<not> NT_SUCCESS (wdf_notify w) then (wdf_notify w, False, s1)
             else (wdf_notify w, True, s1)))"

definition virt2phys_driver_unload :: "bool \<times> v2p_state \<Rightarrow> bool \<times> v2p_state" where
  "virt2phys_driver_unload = (\<lambda>(notify, s). (False, virt2phys_cleanup s))"

definition virt2phys_driver_EvtDeviceAdd :: "wdf \<Rightarrow> ntstatus" where
  "virt2phys_driver_EvtDeviceAdd w =
     (if \<not> NT_SUCCESS (wdf_device_create w) then wdf_device_create w
      else if \<not> NT_SUCCESS (wdf_interface_create w) then wdf_interface_create w
      else STATUS_SUCCESS)"

definition CTL_CODE :: "u32 \<Rightarrow> u32 \<Rightarrow> u32 \<Rightarrow> u32 \<Rightarrow> u32" where
  "CTL_CODE devtype func meth acc = push_bit 16 devtype OR push_bit 14 acc OR push_bit 2 func OR meth"

definition VIRT2PHYS_DEVTYPE :: u32 where "VIRT2PHYS_DEVTYPE = 0x8000"

definition IOCTL_VIRT2PHYS_TRANSLATE :: u32 where
  "IOCTL_VIRT2PHYS_TRANSLATE = CTL_CODE VIRT2PHYS_DEVTYPE 0x800 0 0"

text \<open>
  A request: whether it is a device control, its code, and what retrieving the input and output buffers
  gives. The completion is the status and the number of bytes reported to the caller.
\<close>

record v2p_request =
  req_device_control :: bool
  req_code :: u32
  req_input :: "ntstatus + u64"
  req_output :: ntstatus

definition virt2phys_device_EvtIoInCallerContext :: "v2p_os \<Rightarrow> v2p_request \<Rightarrow> v2p_state
    \<Rightarrow> (ntstatus \<times> nat \<times> u64 option \<times> v2p_state) option" where
  "virt2phys_device_EvtIoInCallerContext os r s =
     (if \<not> req_device_control r then Some (STATUS_NOT_SUPPORTED, 0, None, s)
      else if req_code r \<noteq> IOCTL_VIRT2PHYS_TRANSLATE then Some (STATUS_NOT_SUPPORTED, 0, None, s)
      else case req_input r of
        Inl st \<Rightarrow> Some (st, 0, None, s)
      | Inr virt \<Rightarrow>
          if \<not> NT_SUCCESS (req_output r) then Some (req_output r, 0, None, s)
          else case virt2phys_translate os virt s of
            None \<Rightarrow> None
          | Some (st, phys, s') \<Rightarrow> Some (st, if NT_SUCCESS st then 8 else 0, phys, s'))"

definition virt2phys_on_process_event :: "u64 \<Rightarrow> bool \<Rightarrow> v2p_state \<Rightarrow> v2p_state" where
  "virt2phys_on_process_event pid create s = (if create then s else virt2phys_process_cleanup pid s)"

section \<open>Translation of one block\<close>

text \<open>\<open>n\<close> steps of the loop succeed exactly on consecutive frames.\<close>

lemma contiguous_from_frames:
  assumes "contiguous_from pfn i n = Some True" and "0 < i" and "j \<le> n"
  shows "pfn ! (i - 1 + j) = pfn ! (i - 1) + word_of_nat j"
  using assms
proof (induction pfn i n arbitrary: j rule: contiguous_from.induct)
  case (2 pfn i n)
  then have step: "pfn ! i = pfn ! (i - 1) + 1" and rest: "contiguous_from pfn (i + 1) n = Some True"
    by (auto split: if_splits)
  show ?case
  proof (cases j)
    case (Suc j')
    then have "pfn ! (i + j') = pfn ! i + word_of_nat j'" using 2 rest step by (auto split: if_splits)
    then show ?thesis using Suc step 2(3) by (simp add: algebra_simps)
  qed simp
qed simp

lemma word_page_split: "(d :: u64) = (d div 4096) * 4096 + d mod 4096"
  by (simp only: word_mod_div_equality)

lemma unat_div_page: "unat ((d :: u64) div 4096) = unat d div 4096"
  by (simp add: unat_div)

lemma block_translate_page:
  assumes "virt2phys_is_contiguous m = Some True"
    and "mdl_pfn m \<noteq> []"
    and "mdl_va m AND 0xFFF = 0"
    and "unat (virt - mdl_va m) < unat (mdl_byte_count m)"
  shows "virt2phys_block_translate m virt
    = Some (mdl_pfn m ! (unat (virt - mdl_va m) div 4096) * PAGE_SIZE + (virt - mdl_va m) mod PAGE_SIZE)"
proof -
  let ?d = "virt - mdl_va m" let ?k = "unat ?d div 4096"
  have "?k \<le> span_pages m - 1"
    using assms(3,4) by (simp add: span_pages_def)
  then have "mdl_pfn m ! ?k = mdl_pfn m ! 0 + word_of_nat ?k"
    using contiguous_from_frames [of "mdl_pfn m" 1 "span_pages m - 1" ?k] assms(1)
    by (simp add: virt2phys_is_contiguous_def)
  moreover have "(word_of_nat ?k :: u64) = ?d div 4096"
    by (simp only: unat_div_page [symmetric]) simp
  ultimately have "mdl_pfn m ! ?k * PAGE_SIZE + ?d mod PAGE_SIZE
      = mdl_pfn m ! 0 * PAGE_SIZE + (?d div 4096 * 4096 + ?d mod 4096)"
    by (simp add: PAGE_SIZE_def algebra_simps)
  then have "mdl_pfn m ! ?k * PAGE_SIZE + ?d mod PAGE_SIZE = mdl_pfn m ! 0 * PAGE_SIZE + ?d"
    by (simp only: word_page_split [symmetric])
  then show ?thesis
    using assms(2) by (cases "mdl_pfn m") (simp_all add: virt2phys_block_translate_def)
qed

section \<open>The invariant\<close>

lemma find_process_Some: "find_process ps i = Some p \<Longrightarrow> p \<in> set ps \<and> proc_id p = i"
  by (induction ps) (auto split: if_splits)

lemma find_process_None: "find_process ps i = None \<longleftrightarrow> i \<notin> proc_id ` set ps"
  by (induction ps) auto

lemma find_start_Some: "find_start ms v = Some m \<Longrightarrow> m \<in> set ms \<and> mdl_start_va m = v"
  by (induction ms) (auto split: if_splits)

definition owned :: "v2p_state \<Rightarrow> mdl multiset" where
  "owned s = mset (concat (map proc_blocks (g_processes s)))"

definition owned_ids :: "v2p_state \<Rightarrow> u64 multiset" where
  "owned_ids s = mset (map proc_id (g_processes s))"

text \<open>
  A tracked block has been checked: it starts at a page and its frames are consecutive. A process's counter is the memory locked
  for it and stays within the limit.
\<close>

definition block_ok :: "mdl \<Rightarrow> bool" where
  "block_ok m \<longleftrightarrow> mdl_pfn m \<noteq> [] \<and> mdl_va m AND 0xFFF = 0 \<and> virt2phys_is_contiguous m = Some True"

definition block_bytes :: "mdl list \<Rightarrow> u64" where
  "block_bytes ms = sum_list (map (\<lambda>m. ucast (mdl_byte_count m)) ms)"

definition process_ok :: "virt2phys_params \<Rightarrow> virt2phys_process \<Rightarrow> bool" where
  "process_ok params p \<longleftrightarrow>
     proc_memory p = block_bytes (proc_blocks p) \<and>
     (process_memory_limit params = 0 \<or> proc_memory p \<le> process_memory_limit params) \<and>
     list_all block_ok (proc_blocks p)"

definition params_ok :: "virt2phys_params \<Rightarrow> bool" where
  "params_ok params \<longleftrightarrow> unat (process_memory_limit params) < 2 ^ 62 \<and> unat (process_count_limit params) < 2 ^ 31 - 1"

text \<open>
  The invariant between critical sections. \<open>R\<close> and \<open>P\<close> are the blocks and process structures that running
  calls hold privately: they are locked and allocated beside everything that is tracked.
\<close>

definition v2p_inv :: "mdl multiset \<Rightarrow> u64 multiset \<Rightarrow> v2p_state \<Rightarrow> bool" where
  "v2p_inv R P s \<longleftrightarrow>
     distinct (map proc_id (g_processes s)) \<and>
     g_process_count s = word_of_nat (length (g_processes s)) \<and>
     (process_count_limit (g_params s) = 0 \<or> length (g_processes s) \<le> unat (process_count_limit (g_params s))) \<and>
     list_all (process_ok (g_params s)) (g_processes s) \<and>
     owned s + R \<subseteq># locked s \<and> owned s + R \<subseteq># mdls s \<and> owned s + R \<subseteq># block_pool s \<and>
     owned_ids s + P \<subseteq># process_pool s"

lemma v2p_inv_weaken:
  assumes "v2p_inv (R + X) (P + Y) s"
  shows "v2p_inv R P s"
proof -
  have "owned s + R \<subseteq># Z" if "owned s + (R + X) \<subseteq># Z" for Z
    using that by (metis add.assoc mset_subset_eq_add_left subset_mset.order_trans)
  moreover have "owned_ids s + P \<subseteq># Z" if "owned_ids s + (P + Y) \<subseteq># Z" for Z
    using that by (metis add.assoc mset_subset_eq_add_left subset_mset.order_trans)
  ultimately show ?thesis using assms unfolding v2p_inv_def by blast
qed

text \<open>A block registered for a process, and that it is locked then.\<close>

definition tracked_for :: "u64 \<Rightarrow> mdl \<Rightarrow> v2p_state \<Rightarrow> bool" where
  "tracked_for i m s \<longleftrightarrow> (\<exists>p \<in> set (g_processes s). proc_id p = i \<and> m \<in> set (proc_blocks p))"

abbreviation listed :: "u64 \<Rightarrow> v2p_state \<Rightarrow> bool" where
  "listed i s \<equiv> i \<in> proc_id ` set (g_processes s)"

lemma tracked_locked:
  assumes "v2p_inv R P s" and "tracked_for i m s"
  shows "m \<in># locked s"
proof -
  have "m \<in># owned s" using assms(2) by (auto simp: tracked_for_def owned_def)
  moreover have "owned s \<subseteq># locked s"
    using assms(1) subset_mset.order_trans [OF mset_subset_eq_add_left] by (auto simp: v2p_inv_def)
  ultimately show ?thesis by (rule mset_subset_eqD [rotated])
qed

lemma find_update:
  assumes "find_process ps i = Some p" and "\<And>p. proc_id (f p) = proc_id p"
  shows "find_process (update_process ps i f) i = Some (f p)"
  using assms(1) by (induction ps) (auto simp: assms(2))

lemma update_ids:
  assumes "\<And>p. proc_id (f p) = proc_id p"
  shows "map proc_id (update_process ps i f) = map proc_id ps"
  by (induction ps) (auto simp: assms)

lemma update_blocks:
  assumes "find_process ps i = Some p" and "\<And>p. proc_blocks (f p) = m # proc_blocks p"
  shows "mset (concat (map proc_blocks (update_process ps i f))) = add_mset m (mset (concat (map proc_blocks ps)))"
  using assms(1) by (induction ps) (auto simp: assms(2))

lemma update_all:
  assumes "find_process ps i = Some p" and "list_all Q ps" and "Q (f p)"
  shows "list_all Q (update_process ps i f)"
  using assms by (induction ps) auto

lemma length_update [simp]: "length (update_process ps i f) = length ps"
  by (induction ps) auto

lemma sint_u64_small:
  assumes "unat (x :: u64) < 9223372036854775808"
  shows "sint x = int (unat x)"
proof -
  define n where "n = unat x"
  have n: "n < 9223372036854775808" using assms by (simp add: n_def)
  have "signed_take_bit 63 (int n) = int n"
    by (rule signed_take_bit_int_eq_self) (use n in simp_all)
  moreover have "uint x = int n" by (simp add: n_def)
  ultimately have "sint x = int n" using sint_uint [of x] by simp
  then show ?thesis by (simp only: n_def)
qed

text \<open>Within the limits the signed comparison is the comparison of the numbers.\<close>

lemma memory_within_limit:
  assumes "\<not> virt2phys_exceeeds (sint (mem + ucast (c :: u32))) limit" and "limit \<noteq> 0"
    and "unat limit < 2 ^ 62" and "mem \<le> limit"
  shows "mem + ucast c \<le> limit"
proof -
  have s: "unat (mem + ucast c) = unat mem + unat c" "unat mem + unat c < 9223372036854775808"
    using assms(3,4) unat_bound_u32 [of c]
    by (simp_all add: unat_add_u64 unat_ucast_mod word_le_nat_alt)
  then have "sint (mem + ucast c) = int (unat mem + unat c)" "sint limit = int (unat limit)"
    using sint_u64_small [of "mem + ucast c"] sint_u64_small [of limit] assms(3) by simp_all
  then show ?thesis
    using assms(1,2) s
    by (simp only: virt2phys_exceeeds_def word_le_nat_alt word_neq_0_conv simp_thms)
qed

lemma count_within_limit:
  assumes "\<not> virt2phys_exceeeds (sint (word_of_nat n + 1 :: u32)) (ucast (limit :: u32))" and "limit \<noteq> 0"
    and "unat limit < 2 ^ 31 - 1" and "n \<le> unat limit"
  shows "Suc n \<le> unat limit"
proof -
  have u: "unat (word_of_nat n + 1 :: u32) = Suc n"
    using assms(3,4) by (simp add: unat_add_u32 unat_word_of_nat)
  have "Suc n < 2147483648" using assms(3,4) by simp
  then have "sint (word_of_nat n + 1 :: u32) = int (Suc n)"
    using sint_u32_small [of "word_of_nat n + 1"] by (simp only: u)
  moreover have ul: "unat (ucast limit :: u64) = unat limit"
    using unat_bound_u32 [of limit] by (simp add: unat_ucast_mod)
  then have "sint (ucast limit :: u64) = int (unat limit)"
    using sint_u64_small [of "ucast limit"] unat_bound_u32 [of limit] by (simp only: ul)
  moreover have "0 < (ucast limit :: u64)"
    using ul assms(2) by (metis unat_eq_zero word_gt_0 unat_0 )
  ultimately show ?thesis using assms(1) by (simp only: virt2phys_exceeeds_def simp_thms not_less of_nat_le_iff)
qed

lemma attach_inv:
  assumes "v2p_inv (add_mset m R) P s" and "params_ok (g_params s)" and "block_ok m"
    and "find_process (g_processes s) i = Some p" and "attach_block i m p s = (st, s')"
  shows "v2p_inv R P s' \<and> g_params s' = g_params s \<and> map proc_id (g_processes s') = map proc_id (g_processes s)
    \<and> (NT_SUCCESS st \<longrightarrow> tracked_for i m s')"
proof (cases "st = STATUS_SUCCESS")
  case False
  then have "s' = s \<and> \<not> NT_SUCCESS st" using assms(5) by (auto simp: attach_block_def Let_def split: if_splits)
  then show ?thesis using assms(1) v2p_inv_weaken [of R "{#m#}" P "{#}" s] by simp
next
  case True
  let ?c = "ucast (mdl_byte_count m) :: u64"
  let ?f = "\<lambda>p. p\<lparr>proc_blocks := m # proc_blocks p, proc_memory := proc_memory p + ?c\<rparr>"
  have s': "s' = s\<lparr>g_processes := update_process (g_processes s) i ?f\<rparr>"
    and q: "\<not> virt2phys_exceeeds (sint (proc_memory p + ?c)) (process_memory_limit (g_params s))"
    using assms(5) True
    by (auto simp: attach_block_def Let_def STATUS_SUCCESS_def STATUS_QUOTA_EXCEEDED_def split: if_splits)
  have p: "process_ok (g_params s) p"
    using assms(1) find_process_Some [OF assms(4)] by (auto simp: v2p_inv_def list_all_iff)
  then have "process_ok (g_params s) (?f p)"
    using memory_within_limit [OF q _ _] assms(2,3)
    by (cases "process_memory_limit (g_params s) = 0")
      (auto simp: process_ok_def block_bytes_def params_ok_def add.commute)
  moreover have "map proc_id (update_process (g_processes s) i ?f) = map proc_id (g_processes s)"
    by (rule update_ids) simp
  moreover have "find_process (update_process (g_processes s) i ?f) i = Some (?f p)"
    by (rule find_update [OF assms(4)]) simp
  then have "tracked_for i m s'"
    using find_process_Some unfolding tracked_for_def s' by (intro bexI [of _ "?f p"]) force+
  moreover have "owned s' = add_mset m (owned s)"
    using update_blocks [OF assms(4), of ?f m] by (simp add: s' owned_def)
  moreover have "list_all (process_ok (g_params s)) (update_process (g_processes s) i ?f)"
    using update_all [OF assms(4)] assms(1) calculation(1) by (simp add: v2p_inv_def)
  ultimately show ?thesis
    using assms(1) by (simp add: v2p_inv_def s' owned_ids_def)
qed

lemma map_eq_set: "map f xs = map f ys \<Longrightarrow> f ` set xs = f ` set ys"
  by (metis set_map)

lemma add_block_inv:
  assumes "v2p_inv (add_mset m R) (case pp of Fresh p \<Rightarrow> add_mset (proc_id p) P | Listed i \<Rightarrow> P) s"
    and "params_ok (g_params s)" and "block_ok m"
    and "\<And>i. pp = Listed i \<Longrightarrow> i \<in> proc_id ` set (g_processes s)"
    and "\<And>p. pp = Fresh p \<Longrightarrow> proc_blocks p = [] \<and> proc_memory p = 0"
  shows "\<exists>st tracked s'. virt2phys_add_block pp m s = Some (st, tracked, s') \<and> g_params s' = g_params s
    \<and> (NT_SUCCESS st \<longrightarrow> tracked_for (ptr_id pp) m s') \<and> proc_id ` set (g_processes s) \<subseteq> proc_id ` set (g_processes s')
    \<and> v2p_inv R (case pp of Fresh p \<Rightarrow> if tracked then add_mset (proc_id p) P else P | Listed i \<Rightarrow> P) s'"
proof (cases "find_process (g_processes s) (ptr_id pp)")
  case (Some p)
  obtain st s' where at: "attach_block (ptr_id pp) m p s = (st, s')" by force
  show ?thesis
    using attach_inv [OF assms(1-3) Some at] Some at
      map_eq_set [of proc_id "g_processes s'" "g_processes s"]
    by (cases pp) (auto simp: virt2phys_add_block_def virt2phys_process_find_def)
next
  case None
  then obtain p where pp: "pp = Fresh p" and fresh: "proc_blocks p = []" "proc_memory p = 0"
    using assms(4,5) find_process_None by (cases pp) auto
  let ?s = "s\<lparr>g_processes := p # g_processes s, g_process_count := g_process_count s + 1\<rparr>"
  obtain st s' where at: "attach_block (proc_id p) m p ?s = (st, s')" by force
  show ?thesis
  proof (cases "virt2phys_exceeeds (sint (g_process_count s + 1)) (ucast (process_count_limit (g_params s)))")
    case True
    have "v2p_inv (R + {#m#}) (P + {#proc_id p#}) s" using assms(1) by (simp add: pp)
    then have "v2p_inv R P s" by (rule v2p_inv_weaken)
    then show ?thesis using True None
      by (auto simp: pp virt2phys_add_block_def virt2phys_process_find_def)
  next
    case False
    have "process_ok (g_params s) p"
      by (simp add: process_ok_def fresh block_bytes_def)
    moreover have "process_count_limit (g_params s) = 0 \<or>
        Suc (length (g_processes s)) \<le> unat (process_count_limit (g_params s))"
      using count_within_limit [of "length (g_processes s)"] False assms(1,2)
      by (auto simp: v2p_inv_def params_ok_def)
    moreover have "owned ?s = owned s" by (simp add: owned_def fresh)
    moreover have "owned_ids ?s = add_mset (proc_id p) (owned_ids s)" by (simp add: owned_ids_def)
    ultimately have "v2p_inv (add_mset m R) P ?s"
      using assms(1) None by (simp add: v2p_inv_def pp find_process_None add.commute)
    then show ?thesis
      using attach_inv [of m R P ?s "proc_id p" p] at assms(2,3) None False
        map_eq_set [of proc_id "g_processes s'" "p # g_processes s"]
      by (auto simp: pp virt2phys_add_block_def virt2phys_process_find_def)
  qed
qed

lemma contiguous_from_total: "i + n \<le> length pfn \<Longrightarrow> \<exists>b. contiguous_from pfn i n = Some b"
  by (induction pfn i n rule: contiguous_from.induct) auto

lemma lock_memory_pfn:
  assumes "os_ok os" and "virt2phys_lock_memory os base sz s = (Inr m, s1)"
  shows "mdl_va m = base \<and> length (mdl_pfn m) = span_pages m
    \<and> s1 = s\<lparr>locked := add_mset m (locked s), mdls := add_mset m (mdls s)\<rparr>"
  using assms by (auto simp: virt2phys_lock_memory_def Let_def os_ok_def span_pages_def split: if_splits option.splits)

lemma check_memory_total:
  assumes "length (mdl_pfn m) = span_pages m"
  shows "\<exists>st. virt2phys_check_memory os m = Some st"
proof -
  obtain b where "virt2phys_is_contiguous m = Some b"
    using contiguous_from_total [of 1 "span_pages m - 1" "mdl_pfn m"] assms
    by (cases "span_pages m") (auto simp: virt2phys_is_contiguous_def)
  then show ?thesis by (cases b) (auto simp: virt2phys_check_memory_def split: prod.splits)
qed

lemma check_memory_ok:
  assumes "os_ok os" and "virt2phys_check_memory os m = Some st" and "NT_SUCCESS st"
    and "length (mdl_pfn m) = span_pages m" and "mdl_va m AND 0xFFF = 0"
  shows "block_ok m"
proof -
  obtain st' info where q: "os_query_locked os (mdl_va m) = (st', info)" by force
  have c: "virt2phys_is_contiguous m = Some True"
    using assms(2,3) by (auto simp: virt2phys_check_memory_def split: option.splits bool.splits)
  then have "NT_SUCCESS st'" "mi_region_size info = ucast (mdl_byte_count m)"
    using assms(2,3) q by (auto simp: virt2phys_check_memory_def split: if_splits)
  then have "(ucast (mdl_byte_count m) :: u64) \<noteq> 0"
    using assms(1) q unfolding os_ok_def by (metis fst_conv snd_conv)
  then have "mdl_byte_count m \<noteq> 0" by auto
  then have "0 < unat (mdl_byte_count m)" by (simp add: unat_gt_0)
  then have "0 < span_pages m" unfolding span_pages_def by (simp add: div_greater_zero_iff)
  then show ?thesis using c assms(4,5) by (auto simp: block_ok_def)
qed

lemma inv_private:
  assumes "v2p_inv R P s"
  shows "v2p_inv (add_mset m R) P (s\<lparr>locked := add_mset m (locked s), mdls := add_mset m (mdls s),
      block_pool := add_mset m (block_pool s)\<rparr>)"
    and "v2p_inv R (add_mset i P) (s\<lparr>process_pool := add_mset i (process_pool s)\<rparr>)"
  using assms by (simp_all add: v2p_inv_def owned_def owned_ids_def)

lemma inv_drop_process:
  assumes "v2p_inv R (add_mset i P) s"
  shows "v2p_inv R P (s\<lparr>process_pool := process_pool s - {#i#}\<rparr>)"
  using assms by (auto simp: v2p_inv_def owned_def owned_ids_def insert_subset_eq_iff)

lemma inv_free_block:
  assumes "v2p_inv (add_mset m R) P s"
  shows "v2p_inv R P (virt2phys_block_free m True s)"
  using assms
  by (auto simp: v2p_inv_def owned_def owned_ids_def virt2phys_block_free_def insert_subset_eq_iff)

lemma inv_unlock:
  assumes "v2p_inv R P s"
  shows "v2p_inv R P (virt2phys_unlock_memory m (s\<lparr>locked := add_mset m (locked s), mdls := add_mset m (mdls s)\<rparr>))"
  using assms by (simp add: v2p_inv_def owned_def owned_ids_def virt2phys_unlock_memory_def)

lemma find_block_Some:
  assumes "virt2phys_find_block i base s = (found, Some m)"
  shows "\<exists>p. p \<in> set (g_processes s) \<and> proc_id p = i \<and> m \<in> set (proc_blocks p) \<and> mdl_start_va m = base"
  using assms find_process_Some [of "g_processes s" i] find_start_Some [of _ base m]
  by (auto simp: virt2phys_find_block_def virt2phys_process_find_block_def split: option.splits)

lemma word_mask_split: "(x :: 'a::len word) = (x AND k) OR (x AND NOT k)"
  by (rule bit_word_eqI) (auto simp: bit_or_iff bit_and_iff bit_not_iff)

lemma start_va_aligned:
  assumes "mdl_va m AND 0xFFF = 0"
  shows "mdl_start_va m = mdl_va m"
proof -
  have "mdl_va m = (mdl_va m AND 0xFFF) OR (mdl_va m AND NOT 0xFFF)"
    by (rule word_mask_split)
  then show ?thesis using assms by (simp add: mdl_start_va_def)
qed

lemma find_block_listed:
  assumes "virt2phys_find_block i base s = (Some p, b)"
  shows "p \<in> set (g_processes s) \<and> proc_id p = i"
  using assms find_process_Some by (auto simp: virt2phys_find_block_def split: option.splits)

text \<open>The three parts of a call. \<open>region_of\<close> is the base of the allocation an address lies in.\<close>

abbreviation region_of :: "v2p_os \<Rightarrow> u64 \<Rightarrow> u64" where
  "region_of os virt \<equiv> fst (snd (virt2phys_query_memory os virt))"

lemma block_translate_total: "block_ok m \<Longrightarrow> virt2phys_block_translate m virt \<noteq> None"
  by (cases "mdl_pfn m") (auto simp: virt2phys_block_translate_def block_ok_def)

lemma look_safe:
  assumes inv: "v2p_inv R P s" and os: "os_ok os"
  shows "(\<exists>st. translate_look os virt s = Some (Inl (st, None)))
    \<or> (\<exists>st m. translate_look os virt s = Some (Inl (st, virt2phys_block_translate m virt))
         \<and> block_ok m \<and> mdl_va m = region_of os virt \<and> tracked_for (os_pid os) m s)
    \<or> (\<exists>sz found. translate_look os virt s = Some (Inr (region_of os virt, sz, found))
         \<and> region_of os virt AND 0xFFF = 0 \<and> (\<forall>p. found = Some p \<longrightarrow> proc_id p = os_pid os \<and> listed (os_pid os) s))"
proof -
  obtain st base sz where q: "virt2phys_query_memory os virt = (st, base, sz)" using prod_cases3 by blast
  obtain found b where fb: "virt2phys_find_block (os_pid os) base s = (found, b)" by force
  show ?thesis
  proof (cases "NT_SUCCESS st")
    case False
    then show ?thesis using q by (simp add: translate_look_def)
  next
    case ok: True
    have base: "base AND 0xFFF = 0"
      using q ok os by (auto simp: virt2phys_query_memory_def os_ok_def split: prod.splits) (metis fst_conv snd_conv)
    show ?thesis
    proof (cases b)
      case (Some m)
      then obtain p where p: "p \<in> set (g_processes s)" "proc_id p = os_pid os" "m \<in> set (proc_blocks p)"
          "mdl_start_va m = base"
        using find_block_Some fb by blast
      then have m: "block_ok m" "tracked_for (os_pid os) m s"
        using inv by (auto simp: v2p_inv_def list_all_iff process_ok_def tracked_for_def)
      then have "mdl_va m = base" using start_va_aligned p(4) by (simp add: block_ok_def)
      moreover obtain phys where "virt2phys_block_translate m virt = Some phys" using block_translate_total m(1) by blast
      ultimately have "translate_look os virt s = Some (Inl (STATUS_SUCCESS, virt2phys_block_translate m virt))"
          "mdl_va m = region_of os virt"
        using q ok fb Some by (simp_all add: translate_look_def)
      with m show ?thesis by blast
    next
      case None
      have "\<forall>p. found = Some p \<longrightarrow> proc_id p = os_pid os \<and> listed (os_pid os) s"
        using find_block_listed [of "os_pid os" base s] fb by (metis imageI)
      with None show ?thesis using q ok fb base by (auto simp: translate_look_def)
    qed
  qed
qed

fun fresh_ids :: "process_ptr \<Rightarrow> u64 multiset" where
  "fresh_ids (Fresh p) = {#proc_id p#}"
| "fresh_ids (Listed i) = {#}"

lemma prepare_safe:
  assumes inv: "v2p_inv R P s" and os: "os_ok os" and base: "base AND 0xFFF = 0"
  shows "\<exists>res s'. translate_prepare os base sz found s = Some (res, s') \<and> g_params s' = g_params s
    \<and> g_processes s' = g_processes s
    \<and> (case res of Inl st \<Rightarrow> v2p_inv R P s'
       | Inr (pp, m) \<Rightarrow> v2p_inv (add_mset m R) (fresh_ids pp + P) s' \<and> block_ok m \<and> mdl_va m = base
           \<and> pp = (case found of Some p \<Rightarrow> Listed (proc_id p) | None \<Rightarrow> Fresh (new_process (os_pid os))))"
proof -
  obtain lk s1 where lm: "virt2phys_lock_memory os base sz s = (lk, s1)" by force
  show ?thesis
  proof (cases lk)
    case (Inl e)
    then have "s1 = s" using lm by (auto simp: virt2phys_lock_memory_def Let_def split: if_splits option.splits)
    then show ?thesis using lm Inl inv by (simp add: translate_prepare_def)
  next
    case (Inr m)
    note L = lock_memory_pfn [OF os lm [unfolded Inr]]
    obtain st where ck: "virt2phys_check_memory os m = Some st" using check_memory_total L by blast
    note run = translate_prepare_def lm Inr ck
    show ?thesis
    proof (cases "NT_SUCCESS st \<and> os_alloc_block os")
      case False
      then show ?thesis using inv_unlock [OF inv, of m] L
        by (auto simp: run virt2phys_block_create_def virt2phys_unlock_memory_def)
    next
      case True
      have m: "block_ok m" using check_memory_ok [OF os ck] True L base by simp
      let ?s2 = "s1\<lparr>block_pool := add_mset m (block_pool s1)\<rparr>"
      have i: "v2p_inv (add_mset m R) P ?s2" using inv_private(1) [OF inv, of m] L by simp
      show ?thesis
      proof (cases found)
        case (Some p)
        then show ?thesis using True i m L by (simp add: run virt2phys_block_create_def)
      next
        case None
        show ?thesis
          using True None i m L inv_free_block [OF i] inv_private(2) [OF i, of "os_pid os"]
          by (cases "os_alloc_process os")
             (auto simp: run virt2phys_block_create_def virt2phys_process_create_def virt2phys_block_free_def Let_def)
      qed
    qed
  qed
qed

lemma finish_safe:
  assumes inv: "v2p_inv (add_mset m R) (fresh_ids pp + P) s" and params: "params_ok (g_params s)" and m: "block_ok m"
    and pp: "pp = Listed i \<and> listed i s \<or> pp = Fresh (new_process i)"
  shows "\<exists>st ph s'. translate_finish virt pp m s = Some (st, ph, s') \<and> v2p_inv R P s' \<and> g_params s' = g_params s
    \<and> (\<forall>j. listed j s \<longrightarrow> listed j s')
    \<and> (ph \<noteq> None \<longrightarrow> ph = virt2phys_block_translate m virt \<and> tracked_for i m s')"
proof -
  obtain phys where ph: "virt2phys_block_translate m virt = Some phys" using block_translate_total [OF m] by blast
  have "v2p_inv (add_mset m R) (case pp of Fresh p \<Rightarrow> add_mset (proc_id p) P | Listed i \<Rightarrow> P) s"
    using inv by (cases pp) simp_all
  then obtain st tr s' where ab: "virt2phys_add_block pp m s = Some (st, tr, s')" "g_params s' = g_params s"
      "NT_SUCCESS st \<longrightarrow> tracked_for i m s'" "proc_id ` set (g_processes s) \<subseteq> proc_id ` set (g_processes s')"
      "v2p_inv R (case pp of Fresh p \<Rightarrow> if tr then add_mset (proc_id p) P else P | Listed i \<Rightarrow> P) s'"
    using add_block_inv [where m = m and R = R and pp = pp and P = P and s = s] params m pp by (auto 0 3)
  note listed = subsetD [OF ab(4)]
  show ?thesis
  proof (cases pp)
    case (Listed j)
    then show ?thesis using ab ph listed by (simp add: translate_finish_def)
  next
    case (Fresh p)
    have p: "p = new_process i" using pp Fresh by simp
    let ?t = "if tr then s'\<lparr>process_pool := process_pool s' - {#i#}\<rparr> else s'"
    have "v2p_inv R P ?t" using ab(5) inv_drop_process Fresh p by auto
    moreover have "translate_finish virt pp m s = Some (if NT_SUCCESS st then (st, Some phys, ?t) else (st, None, ?t))"
      using ab(1) ph Fresh p by (simp add: translate_finish_def virt2phys_process_free_def Let_def)
    ultimately show ?thesis using ab(2,3) ph listed by (simp add: tracked_for_def)
  qed
qed

section \<open>Interleaved calls\<close>

text \<open>
  The invariant of a configuration: the blocks and fresh structures of calls before their last part are
  theirs alone, and a process found by a running call is still listed.
\<close>

fun call_blocks :: "v2p_call \<Rightarrow> mdl multiset" where
  "call_blocks (Looked os virt base sz found) = {#}"
| "call_blocks (Ready os virt pp m) = {#m#}"

fun call_fresh :: "v2p_call \<Rightarrow> u64 multiset" where
  "call_fresh (Looked os virt base sz found) = {#}"
| "call_fresh (Ready os virt pp m) = fresh_ids pp"

fun call_ok :: "v2p_state \<Rightarrow> v2p_call \<Rightarrow> bool" where
  "call_ok s (Looked os virt base sz found) \<longleftrightarrow> os_ok os \<and> base = region_of os virt \<and> base AND 0xFFF = 0
     \<and> (\<forall>p. found = Some p \<longrightarrow> proc_id p = os_pid os \<and> listed (os_pid os) s)"
| "call_ok s (Ready os virt pp m) \<longleftrightarrow> os_ok os \<and> block_ok m \<and> mdl_va m = region_of os virt
     \<and> (pp = Listed (os_pid os) \<and> listed (os_pid os) s \<or> pp = Fresh (new_process (os_pid os)))"

definition conf_inv :: "v2p_conf \<Rightarrow> bool" where
  "conf_inv c = (case c of (C, s) \<Rightarrow>
     v2p_inv (\<Sum>\<^sub># (image_mset call_blocks C)) (\<Sum>\<^sub># (image_mset call_fresh C)) s
     \<and> params_ok (g_params s) \<and> (\<forall>c \<in># C. call_ok s c))"

lemma call_ok_mono:
  assumes "call_ok s c" and "listed (call_pid c) s \<Longrightarrow> listed (call_pid c) s'"
  shows "call_ok s' c"
  using assms by (cases c) auto

text \<open>An answer with an address comes from a block that is tracked for the caller.\<close>

definition answer_ok :: "v2p_state \<Rightarrow> v2p_answer \<Rightarrow> bool" where
  "answer_ok s a = (case a of (os, virt, st, ph) \<Rightarrow> ph \<noteq> None \<longrightarrow>
     (\<exists>m. ph = virt2phys_block_translate m virt \<and> block_ok m \<and> mdl_va m = region_of os virt \<and> tracked_for (os_pid os) m s))"

section \<open>Ending a process\<close>

lemma fold_free:
  "foldl (\<lambda>s m. virt2phys_block_free m True s) s ms
    = s\<lparr>locked := locked s - mset ms, mdls := mdls s - mset ms, block_pool := block_pool s - mset ms\<rparr>"
  by (induction ms arbitrary: s) (simp_all add: virt2phys_block_free_def)

lemma process_cleanup_run:
  assumes "virt2phys_process_find s i = Some p"
  shows "virt2phys_process_cleanup i s = s\<lparr>g_processes := remove1 p (g_processes s),
      locked := locked s - mset (proc_blocks p), mdls := mdls s - mset (proc_blocks p),
      block_pool := block_pool s - mset (proc_blocks p), process_pool := process_pool s - {#proc_id p#},
      g_process_count := g_process_count s - 1\<rparr>"
  using assms
  by (simp add: virt2phys_process_cleanup_def virt2phys_process_detach_def virt2phys_process_free_def fold_free)

lemma process_cleanup_untracked:
  "virt2phys_process_find s i = None \<Longrightarrow> virt2phys_process_cleanup i s = s"
  by (simp add: virt2phys_process_cleanup_def virt2phys_process_detach_def)

lemma owned_split:
  assumes "p \<in> set (g_processes s)"
  shows "owned s = mset (proc_blocks p) + owned (s\<lparr>g_processes := remove1 p (g_processes s)\<rparr>)"
    and "owned_ids s = add_mset (proc_id p) (owned_ids (s\<lparr>g_processes := remove1 p (g_processes s)\<rparr>))"
proof -
  obtain xs ys where s: "g_processes s = xs @ p # ys" "p \<notin> set xs" using assms by (meson split_list_first)
  then show "owned s = mset (proc_blocks p) + owned (s\<lparr>g_processes := remove1 p (g_processes s)\<rparr>)"
    and "owned_ids s = add_mset (proc_id p) (owned_ids (s\<lparr>g_processes := remove1 p (g_processes s)\<rparr>))"
    by (simp_all add: owned_def owned_ids_def remove1_append)
qed

lemma subseteq_diff_add:
  assumes "A + (B :: 'a multiset) + C \<subseteq># D"
  shows "B + C \<subseteq># D - A"
proof (rule mset_subset_eqI)
  fix x
  show "count (B + C) x \<le> count (D - A) x" using mset_subset_eq_count [OF assms, of x] by simp
qed

lemma distinct_map_remove1: "distinct (map f xs) \<Longrightarrow> distinct (map f (remove1 x xs))"
  by (induction xs) (auto dest: set_remove1_subset [THEN subsetD])

lemma process_cleanup_inv:
  assumes "v2p_inv R P s"
  shows "v2p_inv R P (virt2phys_process_cleanup i s)"
proof (cases "virt2phys_process_find s i")
  case None
  then show ?thesis using assms by (simp add: process_cleanup_untracked)
next
  case (Some p)
  have p: "p \<in> set (g_processes s)" using find_process_Some Some unfolding virt2phys_process_find_def by blast
  note spl = owned_split [OF p]
  let ?t = "s\<lparr>g_processes := remove1 p (g_processes s)\<rparr>"
  have own: "owned (virt2phys_process_cleanup i s) = owned ?t" "owned_ids (virt2phys_process_cleanup i s) = owned_ids ?t"
    by (simp_all add: process_cleanup_run [OF Some] owned_def owned_ids_def)
  have len: "length (g_processes s) = Suc (length (remove1 p (g_processes s)))"
    using p by (metis One_nat_def Suc_pred length_pos_if_in_set length_remove1)
  have "owned ?t + R \<subseteq># X - mset (proc_blocks p)" if "owned s + R \<subseteq># X" for X
    using that unfolding spl(1) by (rule subseteq_diff_add)
  moreover have "owned_ids ?t + P \<subseteq># X - {#proc_id p#}" if "owned_ids s + P \<subseteq># X" for X
    using that subseteq_diff_add [of "{#proc_id p#}" "owned_ids ?t" P X] unfolding spl(2) by simp
  moreover have "distinct (map proc_id (remove1 p (g_processes s)))"
    using assms distinct_map_remove1 by (auto simp: v2p_inv_def)
  ultimately show ?thesis
    using assms len set_remove1_subset [of p "g_processes s"] unfolding v2p_inv_def own
    by (auto simp: process_cleanup_run [OF Some] list_all_iff)
qed

text \<open>C33: C33:
  When a process ends, exactly the pages locked for it are unlocked; its memory descriptors, its block
  structures and its process structure are freed, each exactly once; it is no longer tracked, the count of
  processes drops by one, and the other processes and the parameters are untouched.
\<close>
theorem process_end_unlocks:
  assumes "v2p_inv R P s" and "virt2phys_process_find s i = Some p"
  shows "v2p_inv R P (virt2phys_process_cleanup i s)
    \<and> locked (virt2phys_process_cleanup i s) + mset (proc_blocks p) = locked s
    \<and> mdls (virt2phys_process_cleanup i s) + mset (proc_blocks p) = mdls s
    \<and> block_pool (virt2phys_process_cleanup i s) + mset (proc_blocks p) = block_pool s
    \<and> process_pool (virt2phys_process_cleanup i s) + {#i#} = process_pool s
    \<and> g_process_count (virt2phys_process_cleanup i s) + 1 = g_process_count s
    \<and> g_params (virt2phys_process_cleanup i s) = g_params s
    \<and> virt2phys_process_find (virt2phys_process_cleanup i s) i = None
    \<and> (\<forall>j. j \<noteq> i \<longrightarrow> virt2phys_process_find (virt2phys_process_cleanup i s) j = virt2phys_process_find s j)"
proof -
  have p: "p \<in> set (g_processes s)" "proc_id p = i"
    using find_process_Some assms(2) unfolding virt2phys_process_find_def by blast+
  have "mset (proc_blocks p) \<subseteq># X" if "owned s + R \<subseteq># X" for X
    using that unfolding owned_split(1) [OF p(1)] by (metis add.assoc mset_subset_eq_add_left subset_mset.order_trans)
  then have sub: "mset (proc_blocks p) \<subseteq># locked s" "mset (proc_blocks p) \<subseteq># mdls s" "mset (proc_blocks p) \<subseteq># block_pool s"
    using assms(1) by (simp_all add: v2p_inv_def)
  have "owned_ids s + P \<subseteq># process_pool s" using assms(1) by (simp add: v2p_inv_def)
  then have pool: "i \<in># process_pool s"
    unfolding owned_split(2) [OF p(1)] p(2) by (meson insert_subset_eq_iff mset_subset_eqD union_single_eq_member subset_mset.order_trans mset_subset_eq_add_left)
  have d: "distinct (map proc_id (g_processes s))" using assms(1) by (simp add: v2p_inv_def)
  have gone: "find_process (remove1 p ps) i = None" if "distinct (map proc_id ps)" "p \<in> set ps" for ps
    using that p(2) by (induction ps) (auto simp: find_process_None intro: rev_image_eqI)
  have kept: "find_process (remove1 p ps) j = find_process ps j" if "j \<noteq> i" for j ps
    using that p(2) by (induction ps) auto
  show ?thesis
    using process_cleanup_inv [OF assms(1), of i] sub pool gone [OF d p(1)] kept p(2)
    by (simp add: process_cleanup_run [OF assms(2)] virt2phys_process_find_def)
qed

section \<open>The running system\<close>

lemma process_cleanup_keeps:
  assumes "listed j s" and "j \<noteq> i"
  shows "listed j (virt2phys_process_cleanup i s)"
proof -
  obtain q where "find_process (g_processes s) j = Some q" using assms(1) find_process_None by fastforce
  moreover have "find_process (remove1 p ps) j = find_process ps j" if "proc_id p = i" for p ps
    using that assms(2) by (induction ps) auto
  ultimately show ?thesis
    using find_process_None [of "g_processes (virt2phys_process_cleanup i s)" j]
      find_process_Some [of "g_processes s" i]
    by (cases "virt2phys_process_find s i")
      (auto simp: process_cleanup_run process_cleanup_untracked virt2phys_process_find_def)
qed

lemma process_cleanup_params: "g_params (virt2phys_process_cleanup i s) = g_params s"
  by (cases "virt2phys_process_find s i") (simp_all add: process_cleanup_run process_cleanup_untracked)

lemma call_step_inv:
  assumes "v2p_step c a c'" and "conf_inv c"
  shows "conf_inv c' \<and> (\<forall>x. a = Some x \<longrightarrow> answer_ok (snd c') x)"
  using assms
proof (induction rule: v2p_step.induct)
  case (look_answer os virt s st ph C)
  then have "v2p_inv (\<Sum>\<^sub># (image_mset call_blocks C)) (\<Sum>\<^sub># (image_mset call_fresh C)) s" by (simp add: conf_inv_def)
  from look_safe [OF this look_answer(1), of virt] look_answer show ?case by (auto simp: answer_ok_def)
next
  case (look_miss os virt s base sz found C)
  then have "v2p_inv (\<Sum>\<^sub># (image_mset call_blocks C)) (\<Sum>\<^sub># (image_mset call_fresh C)) s" by (simp add: conf_inv_def)
  from look_safe [OF this look_miss(1), of virt] look_miss show ?case by (auto simp: conf_inv_def)
next
  case (prepare_fail os base sz found s st s' virt C)
  then have i: "v2p_inv (\<Sum>\<^sub># (image_mset call_blocks C)) (\<Sum>\<^sub># (image_mset call_fresh C)) s"
      "os_ok os" "base AND 0xFFF = 0" by (auto simp: conf_inv_def)
  from prepare_safe [OF i, of sz found] prepare_fail show ?case
    by (auto simp: conf_inv_def answer_ok_def intro: call_ok_mono)
next
  case (prepare_ok os base sz found s pp m s' virt C)
  then have i: "v2p_inv (\<Sum>\<^sub># (image_mset call_blocks C)) (\<Sum>\<^sub># (image_mset call_fresh C)) s"
      "os_ok os" "base AND 0xFFF = 0" by (auto simp: conf_inv_def)
  from prepare_safe [OF i, of sz found] prepare_ok show ?case
    by (cases found) (auto simp: conf_inv_def intro: call_ok_mono)
next
  case (finish virt pp m s st ph s' os C)
  then have i: "v2p_inv (add_mset m (\<Sum>\<^sub># (image_mset call_blocks C))) (fresh_ids pp + (\<Sum>\<^sub># (image_mset call_fresh C))) s"
      "params_ok (g_params s)" "block_ok m" "mdl_va m = region_of os virt"
      "pp = Listed (os_pid os) \<and> listed (os_pid os) s \<or> pp = Fresh (new_process (os_pid os))"
    by (simp_all add: conf_inv_def)
  from finish_safe [OF i(1-3,5), of virt] finish i(3,4) show ?case
    by (auto simp: conf_inv_def answer_ok_def intro: call_ok_mono)
next
  case (process_exit i C s)
  have "call_ok (virt2phys_process_cleanup i s) c" if "c \<in># C" for c
  proof (rule call_ok_mono)
    show "call_ok s c" using that process_exit(2) by (simp add: conf_inv_def)
    have "call_pid c \<noteq> i" using that process_exit(1) by auto
    then show "listed (call_pid c) s \<Longrightarrow> listed (call_pid c) (virt2phys_process_cleanup i s)"
      by (rule process_cleanup_keeps [rotated])
  qed
  with process_exit(2) show ?case by (auto simp: conf_inv_def process_cleanup_params process_cleanup_inv)
qed

lemma v2p_steps_step: "v2p_steps c d \<Longrightarrow> v2p_step d a e \<Longrightarrow> v2p_steps c e"
  by (rule rtranclp.rtrancl_into_rtrancl) blast+

lemma steps_inv:
  assumes "v2p_steps c c'" and "conf_inv c"
  shows "conf_inv c'"
  using assms by (induction rule: rtranclp_induct) (auto dest: call_step_inv)

lemma conf_no_fault:
  assumes "conf_inv (C, s)"
  shows "os_ok os \<Longrightarrow> translate_look os virt s \<noteq> None" and "c \<in># C \<Longrightarrow> \<not> call_faults s c"
proof -
  have i: "v2p_inv (\<Sum>\<^sub># (image_mset call_blocks C)) (\<Sum>\<^sub># (image_mset call_fresh C)) s" "params_ok (g_params s)"
    using assms by (simp_all add: conf_inv_def)
  show "translate_look os virt s \<noteq> None" if "os_ok os" using look_safe [OF i(1) that, of virt] by auto
  assume c: "c \<in># C"
  then obtain D where D: "C = add_mset c D" by (metis mset_add)
  have ok: "call_ok s c" using assms c by (simp add: conf_inv_def)
  show "\<not> call_faults s c"
  proof (cases c)
    case (Looked os virt base sz found)
    with ok prepare_safe [OF i(1), of os base sz found] show ?thesis by auto
  next
    case (Ready os virt pp m)
    have "v2p_inv (add_mset m (\<Sum>\<^sub># (image_mset call_blocks D))) (fresh_ids pp + (\<Sum>\<^sub># (image_mset call_fresh D))) s"
      using i(1) D Ready by simp
    with ok Ready finish_safe [OF this i(2), of "os_pid os" virt] show ?thesis by auto
  qed
qed

text \<open>C32: C32:
  The stated goal of the driver, that no process obtains the physical address of pageable memory, for any
  number of threads whose calls interleave at the lock, and processes that end in between: from the state
  after loading, no call ever uses a freed structure or reads outside an array, and when a call reports an
  address, a block that starts at the base of the address's allocation is tracked for the calling process
  and is locked, its frames are consecutive, and the address reported is that of the block's first frame
  plus the distance from the base. For an address inside the block this is the frame of its own page plus
  the offset in the page; for an address behind it (the code does not look at the block's length) it is
  the linear continuation of the locked frames.
\<close>
theorem translate_reports_locked_memory:
  assumes "v2p_inv {#} {#} s0" and "params_ok (g_params s0)" and "v2p_steps ({#}, s0) (C, s)"
  shows "(\<forall>os virt. os_ok os \<longrightarrow> translate_look os virt s \<noteq> None) \<and> (\<forall>c \<in># C. \<not> call_faults s c)
    \<and> (\<forall>os virt st phys C' s'. v2p_step (C, s) (Some (os, virt, st, Some phys)) (C', s') \<longrightarrow>
      (\<exists>m. tracked_for (os_pid os) m s' \<and> m \<in># locked s' \<and> mdl_va m = fst (snd (virt2phys_query_memory os virt))
        \<and> virt2phys_is_contiguous m = Some True \<and> mdl_pfn m \<noteq> []
        \<and> phys = mdl_pfn m ! 0 * PAGE_SIZE + (virt - mdl_va m)
        \<and> (unat (virt - mdl_va m) < unat (mdl_byte_count m) \<longrightarrow>
            phys = mdl_pfn m ! (unat (virt - mdl_va m) div 4096) * PAGE_SIZE + (virt - mdl_va m) mod PAGE_SIZE)))"
proof (intro conjI allI impI ballI)
  have inv: "conf_inv (C, s)" using steps_inv [OF assms(3)] assms(1,2) by (simp add: conf_inv_def)
  show "translate_look os virt s \<noteq> None" if "os_ok os" for os virt by (rule conf_no_fault(1) [OF inv that])
  show "\<not> call_faults s c" if "c \<in># C" for c by (rule conf_no_fault(2) [OF inv that])
  fix os virt st phys C' s'
  assume "v2p_step (C, s) (Some (os, virt, st, Some phys)) (C', s')"
  from call_step_inv [OF this inv] have i: "conf_inv (C', s')" and "answer_ok s' (os, virt, st, Some phys)" by simp_all
  then obtain m where m: "virt2phys_block_translate m virt = Some phys" "block_ok m" "mdl_va m = region_of os virt"
      "tracked_for (os_pid os) m s'" by (auto simp: answer_ok_def)
  have "m \<in># locked s'" using i tracked_locked [OF _ m(4)] by (auto simp: conf_inv_def)
  moreover have "phys = mdl_pfn m ! 0 * PAGE_SIZE + (virt - mdl_va m)"
    using m(1,2) by (cases "mdl_pfn m") (simp_all add: virt2phys_block_translate_def)
  ultimately show "\<exists>m. tracked_for (os_pid os) m s' \<and> m \<in># locked s' \<and> mdl_va m = region_of os virt
        \<and> virt2phys_is_contiguous m = Some True \<and> mdl_pfn m \<noteq> []
        \<and> phys = mdl_pfn m ! 0 * PAGE_SIZE + (virt - mdl_va m)
        \<and> (unat (virt - mdl_va m) < unat (mdl_byte_count m) \<longrightarrow>
            phys = mdl_pfn m ! (unat (virt - mdl_va m) div 4096) * PAGE_SIZE + (virt - mdl_va m) mod PAGE_SIZE)"
    using m block_translate_page [of m virt] by (intro exI [of _ m]) (simp add: block_ok_def)
qed

text \<open>
  When the limit on processes is reached, the new block stays locked and allocated although no process
  owns it, and so does the new process structure: ending the process will not unlock it.
\<close>

lemma quota_keeps_block_locked:
  assumes "virt2phys_process_find s (os_pid os) = None"
    and "virt2phys_exceeeds (sint (g_process_count s + 1)) (ucast (process_count_limit (g_params s)))"
  shows "translate_finish virt (Fresh (new_process (os_pid os))) m s = Some (STATUS_QUOTA_EXCEEDED, None, s)"
  using assms
  by (simp add: translate_finish_def virt2phys_add_block_def virt2phys_process_find_def)

text \<open>
  An address of the same allocation behind the locked region is translated as if it belonged to the block:
  the length of the block is not consulted.
\<close>

lemma translate_ignores_block_length:
  assumes "virt2phys_query_memory os virt = (st, base, sz)" and "NT_SUCCESS st"
    and "virt2phys_find_block (os_pid os) base s = (found, Some m)" and "mdl_pfn m = f # fs"
  shows "virt2phys_translate os virt s = Some (STATUS_SUCCESS, Some (f * PAGE_SIZE + (virt - mdl_va m)), s)"
  using assms by (simp add: virt2phys_translate_def translate_look_def virt2phys_block_translate_def)

section \<open>A concrete run\<close>

definition demo_info :: memory_info where
  "demo_info = \<lparr>mi_allocation_base = 0x10000, mi_region_size = 0x2000, mi_state = 0x1000, mi_type = 0x20000\<rparr>"

definition demo_os :: v2p_os where
  "demo_os = \<lparr>os_pid = 7, os_query = (\<lambda>v. (0, demo_info)), os_query_locked = (\<lambda>v. (0, demo_info)),
     os_alloc_mdl = (\<lambda>v n. True),
     os_lock_pages = (\<lambda>m. Some (map (\<lambda>i. 100 + word_of_nat i) [0..<span_pages m])),
     os_alloc_block = True, os_alloc_process = True\<rparr>"

definition demo_v2p :: v2p_state where
  "demo_v2p = \<lparr>g_params = \<lparr>process_count_limit = 16, process_memory_limit = 0x400000000\<rparr>, g_processes = [],
     g_process_count = 0, locked = {#}, mdls = {#}, block_pool = {#}, process_pool = {#}\<rparr>"

lemma demo_v2p_inv: "v2p_inv {#} {#} demo_v2p" "params_ok (g_params demo_v2p)"
  by (simp_all add: v2p_inv_def demo_v2p_def owned_def owned_ids_def params_ok_def)

lemma demo_os_ok: "os_ok demo_os"
  by (simp add: os_ok_def demo_os_def demo_info_def)

text \<open>Two threads of process 7 translate addresses of two regions. The second runs all three parts of its
  call while the first is between its second and third one; the first then finds the process listed and its
  own structure superfluous.\<close>

definition demo_os2 :: v2p_os where
  "demo_os2 = demo_os\<lparr>os_query := (\<lambda>v. (0, demo_info\<lparr>mi_allocation_base := 0x40000\<rparr>)),
     os_query_locked := (\<lambda>v. (0, demo_info\<lparr>mi_allocation_base := 0x40000\<rparr>)),
     os_lock_pages := (\<lambda>m. Some (map (\<lambda>i. 200 + word_of_nat i) [0..<span_pages m]))\<rparr>"

lemma demo_os2_ok: "os_ok demo_os2"
  by (simp add: os_ok_def demo_os2_def demo_os_def demo_info_def)

definition demo_mdl :: mdl where "demo_mdl = \<lparr>mdl_va = 0x10000, mdl_byte_count = 0x2000, mdl_pfn = [100, 101]\<rparr>"
definition demo_mdl2 :: mdl where "demo_mdl2 = \<lparr>mdl_va = 0x40000, mdl_byte_count = 0x2000, mdl_pfn = [200, 201]\<rparr>"

lemma demo_spans: "span_pages \<lparr>mdl_va = 0x10000, mdl_byte_count = 0x2000, mdl_pfn = f\<rparr> = 2"
  "span_pages \<lparr>mdl_va = 0x40000, mdl_byte_count = 0x2000, mdl_pfn = f\<rparr> = 2"
  by (simp_all add: span_pages_def)

lemma demo_ok: "virt2phys_is_contiguous demo_mdl = Some True" "virt2phys_is_contiguous demo_mdl2 = Some True"
  by (simp_all add: virt2phys_is_contiguous_def demo_mdl_def demo_mdl2_def demo_spans)

lemma demo_look: "g_processes s = [] \<Longrightarrow> translate_look demo_os virt s = Some (Inr (0x10000, 0x2000, None))"
  "g_processes s = [] \<Longrightarrow> translate_look demo_os2 virt s = Some (Inr (0x40000, 0x2000, None))"
  by (simp_all add: translate_look_def virt2phys_query_memory_def demo_os2_def demo_os_def demo_info_def
      virt2phys_find_block_def NT_SUCCESS_def)

definition demo_held :: "mdl \<Rightarrow> v2p_state \<Rightarrow> v2p_state" where
  "demo_held m s = s\<lparr>locked := add_mset m (locked s), mdls := add_mset m (mdls s),
     block_pool := add_mset m (block_pool s), process_pool := add_mset 7 (process_pool s)\<rparr>"

lemma demo_prepare:
  "translate_prepare demo_os 0x10000 0x2000 None s = Some (Inr (Fresh (new_process 7), demo_mdl), demo_held demo_mdl s)"
  "translate_prepare demo_os2 0x40000 0x2000 None s = Some (Inr (Fresh (new_process 7), demo_mdl2), demo_held demo_mdl2 s)"
  using demo_ok
  by (simp_all add: translate_prepare_def virt2phys_lock_memory_def demo_os2_def demo_os_def demo_spans
      virt2phys_check_memory_def demo_info_def virt2phys_block_create_def virt2phys_process_create_def NT_SUCCESS_def
      demo_held_def demo_mdl_def demo_mdl2_def upt_rec MEM_COMMIT_def MEM_PRIVATE_def Let_def)

definition demo_first :: v2p_state where
  "demo_first = (demo_held demo_mdl2 (demo_held demo_mdl demo_v2p))\<lparr>
     g_processes := [\<lparr>proc_id = 7, proc_blocks = [demo_mdl2], proc_memory = 0x2000\<rparr>], g_process_count := 1\<rparr>"

definition demo_second :: v2p_state where
  "demo_second = demo_first\<lparr>g_processes := [\<lparr>proc_id = 7, proc_blocks = [demo_mdl, demo_mdl2], proc_memory = 0x4000\<rparr>],
     process_pool := {#7#}\<rparr>"

lemma demo_not_exceeded:
  "\<not> virt2phys_exceeeds (sint (1 :: u32)) (ucast (16 :: u32))" "\<not> virt2phys_exceeeds (sint (0x2000 :: u64)) 0x400000000"
  "\<not> virt2phys_exceeeds (sint (0x4000 :: u64)) 0x400000000"
  by (simp_all add: virt2phys_exceeeds_def)

lemma demo_finish:
  "translate_finish 0x40010 (Fresh (new_process 7)) demo_mdl2 (demo_held demo_mdl2 (demo_held demo_mdl demo_v2p))
    = Some (0, Some 0xC8010, demo_first)"
  "translate_finish 0x11234 (Fresh (new_process 7)) demo_mdl demo_first = Some (0, Some 0x65234, demo_second)"
  using demo_not_exceeded
  by (simp_all add: translate_finish_def virt2phys_add_block_def virt2phys_process_find_def attach_block_def
      virt2phys_process_free_def virt2phys_block_translate_def NT_SUCCESS_def STATUS_SUCCESS_def PAGE_SIZE_def
      demo_first_def demo_second_def demo_held_def demo_v2p_def demo_mdl_def demo_mdl2_def new_process_def Let_def)

theorem translate_reports_locked_memory_witness:
  "\<exists>C s. v2p_steps ({#}, demo_v2p) (C, s) \<and> v2p_step (C, s) (Some (demo_os, 0x11234, 0, Some 0x65234)) ({#}, demo_second)
    \<and> (\<forall>c \<in># C. \<not> call_faults s c)
    \<and> (\<exists>m. tracked_for 7 m demo_second \<and> m \<in># locked demo_second \<and> 0x65234 = mdl_pfn m ! 0 * PAGE_SIZE + (0x11234 - mdl_va m))"
proof -
  let ?A = "Looked demo_os 0x11234 0x10000 0x2000 None" and ?A' = "Ready demo_os 0x11234 (Fresh (new_process 7)) demo_mdl"
  let ?B = "Looked demo_os2 0x40010 0x40000 0x2000 None" and ?B' = "Ready demo_os2 0x40010 (Fresh (new_process 7)) demo_mdl2"
  let ?s1 = "demo_held demo_mdl demo_v2p" and ?s2 = "demo_held demo_mdl2 (demo_held demo_mdl demo_v2p)"
  have p: "g_processes demo_v2p = []" "g_processes ?s1 = []" by (simp_all add: demo_v2p_def demo_held_def)
  note st = look_miss [OF demo_os_ok demo_look(1) [OF p(1)], of "{#}" "0x11234"]
    prepare_ok [OF demo_prepare(1), of "0x11234" "{#}" demo_v2p]
    look_miss [OF demo_os2_ok demo_look(2) [OF p(2)], of "{#?A'#}" "0x40010"]
    prepare_ok [OF demo_prepare(2), of "0x40010" "{#?A'#}" ?s1]
    finish [OF demo_finish(1), of demo_os2 "{#?A'#}"]
  have run: "v2p_steps ({#}, demo_v2p) ({#?A'#}, demo_first)"
    by (rule v2p_steps_step [OF v2p_steps_step [OF v2p_steps_step [OF v2p_steps_step [OF
        v2p_steps_step [OF rtranclp.rtrancl_refl st(1)] st(2)] st(3)] st(4)] st(5)])
  have ans: "v2p_step ({#?A'#}, demo_first) (Some (demo_os, 0x11234, 0, Some 0x65234)) ({#}, demo_second)"
    by (rule finish [OF demo_finish(2)])
  have pid: "os_pid demo_os = 7" by (simp add: demo_os_def)
  show ?thesis
    using translate_reports_locked_memory [OF demo_v2p_inv run] ans run unfolding pid [symmetric] by blast
qed

theorem process_end_unlocks_witness:
  "locked (virt2phys_process_cleanup 7 demo_second) = {#} \<and> mdls (virt2phys_process_cleanup 7 demo_second) = {#}
    \<and> block_pool (virt2phys_process_cleanup 7 demo_second) = {#} \<and> process_pool (virt2phys_process_cleanup 7 demo_second) = {#}"
proof -
  let ?p = "\<lparr>proc_id = 7, proc_blocks = [demo_mdl, demo_mdl2], proc_memory = 0x4000\<rparr>"
  have b: "block_ok demo_mdl" "block_ok demo_mdl2"
    using demo_ok by (simp_all add: block_ok_def) (simp_all add: demo_mdl_def demo_mdl2_def)
  have i: "v2p_inv {#} {#} demo_second"
    using b by (simp add: v2p_inv_def demo_second_def demo_first_def demo_held_def demo_v2p_def owned_def owned_ids_def
        process_ok_def block_bytes_def) (simp add: demo_mdl_def demo_mdl2_def word_le_nat_alt)
  have f: "virt2phys_process_find demo_second 7 = Some ?p" by (simp add: virt2phys_process_find_def demo_second_def)
  have res: "locked demo_second = {#demo_mdl, demo_mdl2#}" "mdls demo_second = {#demo_mdl, demo_mdl2#}"
      "block_pool demo_second = {#demo_mdl, demo_mdl2#}" "process_pool demo_second = {#7#}"
    by (simp_all add: demo_second_def demo_first_def demo_held_def demo_v2p_def)
  show ?thesis using process_end_unlocks [OF i f] by (simp add: res)
qed

section \<open>From the entry point\<close>

text \<open>
  A successful load starts in the invariant with parameters within the bounds, when the limit on processes
  read from the registry is below \<open>2 ^ 31 - 1\<close>.
\<close>

lemma read_mb_bound:
  assumes "virt2phys_read_mb w name d = (st, Some b)"
  shows "unat b < 2 ^ 62"
proof -
  obtain mb :: u32 where b: "b = ucast mb * push_bit 20 1"
    using assms by (auto simp: virt2phys_read_mb_def split: prod.splits if_splits)
  have "unat b = unat mb * 1048576"
    using unat_bound_u32 [of mb] unfolding b by (simp add: unat_word_ariths unat_ucast_mod)
  then show ?thesis using unat_bound_u32 [of mb] by simp
qed

text \<open>A request is completed with eight bytes exactly when an address is reported.\<close>

lemma request_reports:
  assumes "virt2phys_device_EvtIoInCallerContext os r s = Some (st, n, ph, s')"
  shows "n = 8 \<longleftrightarrow> req_device_control r \<and> req_code r = 0x80002000 \<and> (\<exists>virt. req_input r = Inr virt) \<and>
    NT_SUCCESS (req_output r) \<and> NT_SUCCESS st"
  using assms
  by (auto simp: virt2phys_device_EvtIoInCallerContext_def IOCTL_VIRT2PHYS_TRANSLATE_def CTL_CODE_def
      VIRT2PHYS_DEVTYPE_def split: if_splits sum.splits option.splits)

lemma driver_entry_starts:
  assumes "DriverEntry w s0 = (st, True, s)" and "g_process_count s0 = 0"
    and "unat (snd (virt2phys_read_param w ''ProcessCountLimit'' PROCESS_COUNT_LIMIT_DEF)) < 2 ^ 31 - 1"
  shows "v2p_inv {#} {#} s \<and> params_ok (g_params s)"
  using assms read_mb_bound [of w "''ProcessMemoryLimitMB''" PROCESS_MEMORY_LIMIT_DEF]
  by (auto simp: DriverEntry_def virt2phys_load_params_def virt2phys_init_def v2p_inv_def owned_def owned_ids_def
      params_ok_def Let_def split: if_splits sum.splits prod.splits option.splits)

end
