(* ===== verification/Netuio.thy ===== *)
theory Netuio
  imports Virt2Phys Resources
begin

text \<open>
  \<^verbatim>\<open>src/deps/dpdk-kmods/windows/netuio\<close>: the Windows counterpart of the UIO driver. It maps the device's BARs,
  maps them again into the process of a caller, and reads and writes PCI configuration space. The memory
  manager, the bus interface and the driver framework are parameters; the answers of the memory manager may
  depend on the calls made so far, and the successful calls are recorded in a trace.
\<close>

section \<open>State\<close>

definition PCI_MAX_BAR :: nat where "PCI_MAX_BAR = 6"

definition STATUS_INVALID_DEVICE_REQUEST :: ntstatus where "STATUS_INVALID_DEVICE_REQUEST = 0xC0000010"
definition STATUS_INVALID_PARAMETER :: ntstatus where "STATUS_INVALID_PARAMETER = 0xC000000D"
definition STATUS_DEVICE_CONFIGURATION_ERROR :: ntstatus where "STATUS_DEVICE_CONFIGURATION_ERROR = 0xC0000182"

text \<open>Pointers are 64-bit addresses, 0 for \<^verbatim>\<open>NULL\<close>.\<close>

record netuio_bar =
  nb_base_addr :: u64
  nb_virt_addr :: u64
  nb_size :: u64

record mem_map_region =
  mr_mdl :: u64
  mr_size :: u64
  mr_user_va :: u64

record netuio_ctx =
  ctx_bar :: "netuio_bar list"
  ctx_hw :: "mem_map_region list"
  ctx_bus_num :: u32
  ctx_dev_num :: u16
  ctx_func_num :: u16

definition zero_bar :: netuio_bar where
  "zero_bar = \<lparr>nb_base_addr = 0, nb_virt_addr = 0, nb_size = 0\<rparr>"

definition zero_region :: mem_map_region where
  "zero_region = \<lparr>mr_mdl = 0, mr_size = 0, mr_user_va = 0\<rparr>"

definition clear_hw :: "netuio_ctx \<Rightarrow> netuio_ctx" where
  "clear_hw ctx = ctx\<lparr>ctx_bar := replicate PCI_MAX_BAR zero_bar, ctx_hw := replicate PCI_MAX_BAR zero_region\<rparr>"

datatype ntcall =
    MapIoSpace u64 u64 u64
  | UnmapIoSpace u64 u64
  | AllocMdl u64 u32 u64
  | FreeMdl u64
  | MapUser u64 u64
  | UnmapUser u64 u64

text \<open>The memory manager: an address or 0, and for the user mapping also the code of an exception.\<close>

record nt_mm =
  mm_map_io :: "ntcall list \<Rightarrow> u64 \<Rightarrow> u64 \<Rightarrow> u64"
  mm_alloc_mdl :: "ntcall list \<Rightarrow> u64 \<Rightarrow> u32 \<Rightarrow> u64"
  mm_map_user :: "ntcall list \<Rightarrow> u64 \<Rightarrow> ntstatus + u64"

text \<open>A resource descriptor: whether it is a memory resource, its flags, and its range.\<close>

record cm_descriptor =
  cm_is_memory :: bool
  cm_flags :: u16
  cm_start :: u64
  cm_length :: u32

definition CM_RESOURCE_MEMORY_BAR :: u16 where "CM_RESOURCE_MEMORY_BAR = 0x80"
definition PCI_TYPE_64BIT :: u32 where "PCI_TYPE_64BIT = 4"

section \<open>Hardware resources\<close>

text \<open>\<^verbatim>\<open>netuio_free_hw_resources\<close>: one slot, then all slots, then both arrays are zeroed.\<close>

definition free_slot :: "netuio_bar \<times> mem_map_region \<Rightarrow> ntcall list \<Rightarrow> ntcall list" where
  "free_slot bh t =
     (case bh of (b, h) \<Rightarrow>
        let t1 = (if mr_mdl h \<noteq> 0 then t @ [FreeMdl (mr_mdl h)] else t)
        in if nb_virt_addr b \<noteq> 0 then t1 @ [UnmapIoSpace (nb_virt_addr b) (nb_size b)] else t1)"

definition netuio_free_hw_resources :: "netuio_ctx \<Rightarrow> ntcall list \<Rightarrow> netuio_ctx \<times> ntcall list" where
  "netuio_free_hw_resources ctx t =
     (clear_hw ctx, foldl (\<lambda>t bh. free_slot bh t) t (zip (ctx_bar ctx) (ctx_hw ctx)))"

text \<open>The inner loop: the next memory resource with the BAR flag, and the descriptors behind it.\<close>

fun next_memory :: "cm_descriptor list \<Rightarrow> (cm_descriptor \<times> cm_descriptor list) option" where
  "next_memory [] = None"
| "next_memory (d # ds) =
     (if \<not> cm_is_memory d \<or> cm_flags d AND CM_RESOURCE_MEMORY_BAR = 0 then next_memory ds else Some (d, ds))"

text \<open>Mapping one BAR and allocating its descriptor list; every failure is the status \<^verbatim>\<open>STATUS_INSUFFICIENT_RESOURCES\<close>.\<close>

definition map_one_bar :: "nt_mm \<Rightarrow> nat \<Rightarrow> cm_descriptor \<Rightarrow> netuio_ctx \<Rightarrow> ntcall list
    \<Rightarrow> ntstatus \<times> netuio_ctx \<times> ntcall list" where
  "map_one_bar mm i d ctx t =
     (let sz = ucast (cm_length d);
          va = mm_map_io mm t (cm_start d) sz;
          ctx1 = ctx\<lparr>ctx_bar := (ctx_bar ctx)[i := \<lparr>nb_base_addr = cm_start d, nb_virt_addr = va, nb_size = sz\<rparr>]\<rparr>
      in if va = 0 then (STATUS_INSUFFICIENT_RESOURCES, ctx1, t)
         else let t1 = t @ [MapIoSpace (cm_start d) sz va];
                  m = mm_alloc_mdl mm t1 va (cm_length d)
              in if m = 0 then (STATUS_INSUFFICIENT_RESOURCES, ctx1, t1)
                 else (STATUS_SUCCESS,
                       ctx1\<lparr>ctx_hw := (ctx_hw ctx1)[i := (ctx_hw ctx1 ! i)\<lparr>mr_mdl := m, mr_size := sz\<rparr>]\<rparr>,
                       t1 @ [AllocMdl va (cm_length d) m]))"

text \<open>The loop over the six BAR registers \<open>cfg\<close>; a 64-bit BAR skips the next register.\<close>

function map_bars :: "nt_mm \<Rightarrow> u32 list \<Rightarrow> nat \<Rightarrow> cm_descriptor list \<Rightarrow> netuio_ctx \<Rightarrow> ntcall list
    \<Rightarrow> ntstatus \<times> netuio_ctx \<times> ntcall list" where
  "map_bars mm cfg i ds ctx t =
     (if PCI_MAX_BAR \<le> i then (STATUS_SUCCESS, ctx, t)
      else if cfg ! i = 0 then map_bars mm cfg (i + 1) ds ctx t
      else case next_memory ds of
        None \<Rightarrow> (STATUS_DEVICE_CONFIGURATION_ERROR, ctx, t)
      | Some (d, ds') \<Rightarrow>
          (case map_one_bar mm i d ctx t of
             (st, ctx1, t1) \<Rightarrow>
               if st \<noteq> STATUS_SUCCESS then (st, ctx1, t1)
               else map_bars mm cfg (if cfg ! i AND PCI_TYPE_64BIT \<noteq> 0 then i + 2 else i + 1) ds' ctx1 t1))"
  by pat_completeness auto
termination by (relation "measure (\<lambda>(mm, cfg, i, ds, ctx, t). PCI_MAX_BAR - i)") auto

declare map_bars.simps [simp del]

text \<open>\<open>cfg\<close> is \<open>None\<close> when the configuration header could not be read in full, else its six BAR registers.\<close>

definition netuio_map_hw_resources :: "nt_mm \<Rightarrow> u32 list option \<Rightarrow> cm_descriptor list \<Rightarrow> netuio_ctx \<Rightarrow> ntcall list
    \<Rightarrow> ntstatus \<times> netuio_ctx \<times> ntcall list" where
  "netuio_map_hw_resources mm cfg ds ctx t =
     (case (case cfg of
              None \<Rightarrow> (STATUS_NOT_SUPPORTED, ctx, t)
            | Some bars \<Rightarrow> map_bars mm bars 0 ds (clear_hw ctx) t) of
        (st, ctx1, t1) \<Rightarrow>
          if st \<noteq> STATUS_SUCCESS then (case netuio_free_hw_resources ctx1 t1 of (ctx2, t2) \<Rightarrow> (st, ctx2, t2))
          else (st, ctx1, t1))"

definition netuio_evt_prepare_hw :: "nt_mm \<Rightarrow> u32 list option \<Rightarrow> cm_descriptor list \<Rightarrow> netuio_ctx \<Rightarrow> ntcall list
    \<Rightarrow> ntstatus \<times> netuio_ctx \<times> ntcall list" where
  "netuio_evt_prepare_hw mm cfg ds ctx t = netuio_map_hw_resources mm cfg ds ctx t"

definition netuio_evt_release_hw :: "netuio_ctx \<Rightarrow> ntcall list \<Rightarrow> ntstatus \<times> netuio_ctx \<times> ntcall list" where
  "netuio_evt_release_hw ctx t = (case netuio_free_hw_resources ctx t of (ctx', t') \<Rightarrow> (STATUS_SUCCESS, ctx', t'))"

section \<open>Creating the device\<close>

text \<open>
  The framework's answers: device, interface, bus interface, the two device properties (\<open>None\<close> when there
  is no physical device object), symbolic link and queue.
\<close>

record netuio_wdf =
  nw_driver_create :: ntstatus
  nw_device_create :: ntstatus
  nw_interface_create :: ntstatus
  nw_bus_interface :: ntstatus
  nw_properties :: "((ntstatus \<times> u32) \<times> (ntstatus \<times> u32)) option"
  nw_symlink :: "u32 \<Rightarrow> u16 \<Rightarrow> u16 \<Rightarrow> ntstatus"
  nw_queue_create :: ntstatus

definition get_pci_device_info :: "netuio_wdf \<Rightarrow> netuio_ctx \<Rightarrow> ntstatus \<times> netuio_ctx" where
  "get_pci_device_info w ctx =
     (if \<not> NT_SUCCESS (nw_bus_interface w) then (nw_bus_interface w, ctx)
      else case nw_properties w of
        None \<Rightarrow> (nw_bus_interface w, ctx)
      | Some ((st1, bus), (st2, prop)) \<Rightarrow>
          if \<not> NT_SUCCESS st1 then (st1, ctx)
          else let ctx1 = ctx\<lparr>ctx_bus_num := bus\<rparr> in
            if \<not> NT_SUCCESS st2 then (st2, ctx1)
            else (st2, ctx1\<lparr>ctx_func_num := ucast (prop AND 0xFFFF),
                            ctx_dev_num := ucast (drop_bit 16 prop AND 0xFFFF)\<rparr>))"

definition create_device_specific_symbolic_link :: "netuio_wdf \<Rightarrow> netuio_ctx \<Rightarrow> ntstatus" where
  "create_device_specific_symbolic_link w ctx = nw_symlink w (ctx_bus_num ctx) (ctx_dev_num ctx) (ctx_func_num ctx)"

definition netuio_queue_initialize :: "netuio_wdf \<Rightarrow> ntstatus" where
  "netuio_queue_initialize w = nw_queue_create w"

definition netuio_create_device :: "netuio_wdf \<Rightarrow> netuio_ctx \<Rightarrow> ntstatus \<times> netuio_ctx" where
  "netuio_create_device w ctx =
     (let st = nw_device_create w;
          st = (if NT_SUCCESS st then nw_interface_create w else st);
          (st, ctx) = (if NT_SUCCESS st then get_pci_device_info w ctx else (st, ctx));
          st = (if NT_SUCCESS st then create_device_specific_symbolic_link w ctx else st);
          st = (if NT_SUCCESS st then netuio_queue_initialize w else st)
      in (st, ctx))"

definition netuio_DriverEntry :: "netuio_wdf \<Rightarrow> ntstatus" where
  "netuio_DriverEntry w = nw_driver_create w"

definition netuio_evt_device_add :: "netuio_wdf \<Rightarrow> netuio_ctx \<Rightarrow> ntstatus \<times> netuio_ctx" where
  "netuio_evt_device_add w ctx = netuio_create_device w ctx"

section \<open>Mapping into a process\<close>

text \<open>
  \<open>file\<close>s are the open handles of the device; each has its own flag \<^verbatim>\<open>bMapped\<close>, while the mapped addresses
  are in the device context. A request without a file object is \<open>None\<close>.
\<close>

type_synonym mapped_flags = "nat \<Rightarrow> bool"

definition netuio_get_usermode_mapping_flag :: "mapped_flags \<Rightarrow> nat option \<Rightarrow> bool" where
  "netuio_get_usermode_mapping_flag fl fo = (case fo of None \<Rightarrow> False | Some f \<Rightarrow> fl f)"

definition netuio_set_usermode_mapping_flag :: "mapped_flags \<Rightarrow> nat option \<Rightarrow> mapped_flags" where
  "netuio_set_usermode_mapping_flag fl fo = (case fo of None \<Rightarrow> fl | Some f \<Rightarrow> fl(f := True))"

fun unmap_regions :: "mem_map_region list \<Rightarrow> ntcall list \<Rightarrow> mem_map_region list \<times> ntcall list" where
  "unmap_regions [] t = ([], t)"
| "unmap_regions (h # hs) t =
     (if mr_user_va h \<noteq> 0
      then (case unmap_regions hs (t @ [UnmapUser (mr_user_va h) (mr_mdl h)]) of
              (hs', t') \<Rightarrow> (h\<lparr>mr_user_va := 0\<rparr> # hs', t'))
      else (case unmap_regions hs t of (hs', t') \<Rightarrow> (h # hs', t')))"

definition netuio_unmap_address_from_user_process :: "netuio_ctx \<Rightarrow> ntcall list \<Rightarrow> netuio_ctx \<times> ntcall list" where
  "netuio_unmap_address_from_user_process ctx t =
     (case unmap_regions (ctx_hw ctx) t of (hs, t') \<Rightarrow> (ctx\<lparr>ctx_hw := hs\<rparr>, t'))"

text \<open>The loop over the regions: a failed mapping stores \<^verbatim>\<open>NULL\<close>, an exception stores nothing.\<close>

fun map_regions :: "nt_mm \<Rightarrow> mem_map_region list \<Rightarrow> ntcall list \<Rightarrow> ntstatus \<times> mem_map_region list \<times> ntcall list" where
  "map_regions mm [] t = (STATUS_SUCCESS, [], t)"
| "map_regions mm (h # hs) t =
     (if mr_mdl h = 0
      then (case map_regions mm hs t of (st, hs', t') \<Rightarrow> (st, h # hs', t'))
      else case mm_map_user mm t (mr_mdl h) of
        Inl e \<Rightarrow> (e, h # hs, t)
      | Inr va \<Rightarrow>
          if va = 0 then (STATUS_INSUFFICIENT_RESOURCES, h\<lparr>mr_user_va := va\<rparr> # hs, t)
          else (case map_regions mm hs (t @ [MapUser va (mr_mdl h)]) of
                  (st, hs', t') \<Rightarrow> (st, h\<lparr>mr_user_va := va\<rparr> # hs', t')))"

definition netuio_map_address_into_user_process :: "nt_mm \<Rightarrow> netuio_ctx \<Rightarrow> mapped_flags \<Rightarrow> nat option \<Rightarrow> ntcall list
    \<Rightarrow> ntstatus \<times> netuio_ctx \<times> ntcall list" where
  "netuio_map_address_into_user_process mm ctx fl fo t =
     (if netuio_get_usermode_mapping_flag fl fo then (STATUS_SUCCESS, ctx, t)
      else case map_regions mm (ctx_hw ctx) t of
        (st, hs, t') \<Rightarrow>
          let ctx' = ctx\<lparr>ctx_hw := hs\<rparr> in
          if st \<noteq> STATUS_SUCCESS
          then (case netuio_unmap_address_from_user_process ctx' t' of (ctx'', t'') \<Rightarrow> (st, ctx'', t''))
          else (st, ctx', t'))"

text \<open>The reply: per BAR the physical address, the user address and the size.\<close>

definition netuio_handle_get_hw_data_request :: "netuio_ctx \<Rightarrow> (u64 \<times> u64 \<times> u64) list" where
  "netuio_handle_get_hw_data_request ctx =
     map (\<lambda>i. (nb_base_addr (ctx_bar ctx ! i), mr_user_va (ctx_hw ctx ! i), nb_size (ctx_bar ctx ! i))) [0..<PCI_MAX_BAR]"

definition FILE_DEVICE_NETWORK :: u32 where "FILE_DEVICE_NETWORK = 0x12"

definition IOCTL_NETUIO_MAP_HW_INTO_USERSPACE :: u32 where
  "IOCTL_NETUIO_MAP_HW_INTO_USERSPACE = CTL_CODE FILE_DEVICE_NETWORK 51 0 3"

definition IOCTL_NETUIO_PCI_CONFIG_IO :: u32 where
  "IOCTL_NETUIO_PCI_CONFIG_IO = CTL_CODE FILE_DEVICE_NETWORK 52 0 3"

text \<open>
  How a request ends: it is passed on to the queue, or completed with a status, a number of bytes and
  possibly the reply. \<open>out\<close> is the result of retrieving the output buffer, of the given size.
\<close>

datatype nt_completion = Enqueued | Completed ntstatus nat "(u64 \<times> u64 \<times> u64) list option"

definition netuio_evt_IO_in_caller_context :: "nt_mm \<Rightarrow> bool \<Rightarrow> u32 \<Rightarrow> ntstatus \<Rightarrow> ntstatus + nat \<Rightarrow> nat option
    \<Rightarrow> netuio_ctx \<Rightarrow> mapped_flags \<Rightarrow> ntcall list \<Rightarrow> nt_completion \<times> netuio_ctx \<times> mapped_flags \<times> ntcall list" where
  "netuio_evt_IO_in_caller_context mm is_control code enqueue out fo ctx fl t =
     (if \<not> is_control then (Completed STATUS_INVALID_DEVICE_REQUEST 0 None, ctx, fl, t)
      else if code \<noteq> IOCTL_NETUIO_MAP_HW_INTO_USERSPACE
      then (if NT_SUCCESS enqueue then Enqueued else Completed enqueue 0 None, ctx, fl, t)
      else case out of
        Inl st \<Rightarrow> (Completed st 0 None, ctx, fl, t)
      | Inr sz \<Rightarrow>
          (case netuio_map_address_into_user_process mm ctx fl fo t of
             (st, ctx', t') \<Rightarrow>
               if \<not> NT_SUCCESS st then (Completed st 0 None, ctx', fl, t')
               else (Completed st sz (Some (netuio_handle_get_hw_data_request ctx')), ctx',
                     netuio_set_usermode_mapping_flag fl fo, t')))"

definition netuio_evt_file_cleanup :: "nat \<Rightarrow> netuio_ctx \<Rightarrow> mapped_flags \<Rightarrow> ntcall list
    \<Rightarrow> netuio_ctx \<times> mapped_flags \<times> ntcall list" where
  "netuio_evt_file_cleanup f ctx fl t =
     (if fl f
      then (case netuio_unmap_address_from_user_process ctx t of (ctx', t') \<Rightarrow> (ctx', fl(f := False), t'))
      else (ctx, fl, t))"

section \<open>Configuration space\<close>

record dpdk_pci_config_io =
  io_offset :: u32
  io_op :: u8
  io_access_size :: u32
  io_data :: u64

text \<open>
  The bus interface: reading returns the number of bytes and the data, writing the number of bytes and the
  new configuration space \<open>'c\<close>. The reply is the number of bytes and the 64-bit output buffer.
  \<open>aliased\<close> tells whether the framework hands out one system buffer for input and output, as it does for
  control codes with \<^verbatim>\<open>METHOD_BUFFERED\<close>; then clearing the first eight bytes of the output clears the fields
  \<open>offset\<close> and \<open>op\<close> of the request.
\<close>

record 'c bus_interface =
  bus_get :: "'c \<Rightarrow> u32 \<Rightarrow> u32 \<Rightarrow> u32 \<times> u64"
  bus_set :: "'c \<Rightarrow> u32 \<Rightarrow> u32 \<Rightarrow> u64 \<Rightarrow> u32 \<times> 'c"

definition clear_output :: "bool \<Rightarrow> dpdk_pci_config_io \<Rightarrow> dpdk_pci_config_io" where
  "clear_output aliased io = (if aliased then io\<lparr>io_offset := 0, io_op := 0\<rparr> else io)"

definition netuio_evt_IO_device_control :: "bool \<Rightarrow> 'c bus_interface \<Rightarrow> u32 \<Rightarrow> ntstatus + dpdk_pci_config_io \<Rightarrow> ntstatus
    \<Rightarrow> 'c \<Rightarrow> ntstatus \<times> u32 \<times> u64 option \<times> 'c" where
  "netuio_evt_IO_device_control aliased bus code inp out c =
     (if code \<noteq> IOCTL_NETUIO_PCI_CONFIG_IO then (STATUS_INVALID_DEVICE_REQUEST, 0, None, c)
      else case inp of
        Inl st \<Rightarrow> (st, 0, None, c)
      | Inr io \<Rightarrow>
          if io_access_size io \<noteq> 1 \<and> io_access_size io \<noteq> 2 \<and> io_access_size io \<noteq> 4 \<and> io_access_size io \<noteq> 8
          then (STATUS_INVALID_PARAMETER, 0, None, c)
          else if \<not> NT_SUCCESS out then (out, 0, None, c)
          else let done = (\<lambda>n. if n \<noteq> io_access_size io then STATUS_INVALID_PARAMETER else out) in
            if io_op io = 0
            then (let io' = clear_output aliased io;
                      (n, v) = bus_get bus c (io_offset io') (io_access_size io') in (done n, n, Some v, c))
            else if io_op io = 1
            then (let (n, c') = bus_set bus c (io_offset io) (io_access_size io) (io_data io) in (done n, n, None, c'))
            else (STATUS_INVALID_PARAMETER, 0, None, c))"

section \<open>Resources held\<close>

datatype nt_resource = RIoSpace u64 u64 | RMdl u64 | RUserMap u64 u64

fun nt_acquired :: "ntcall \<Rightarrow> nt_resource multiset" where
  "nt_acquired (MapIoSpace a n va) = {#RIoSpace va n#}"
| "nt_acquired (AllocMdl va n m) = {#RMdl m#}"
| "nt_acquired (MapUser va m) = {#RUserMap va m#}"
| "nt_acquired c = {#}"

fun nt_released :: "ntcall \<Rightarrow> nt_resource multiset" where
  "nt_released (UnmapIoSpace va n) = {#RIoSpace va n#}"
| "nt_released (FreeMdl m) = {#RMdl m#}"
| "nt_released (UnmapUser va m) = {#RUserMap va m#}"
| "nt_released c = {#}"

definition nt_held :: "ntcall list \<Rightarrow> nt_resource multiset" where
  "nt_held t = held_by nt_acquired nt_released t"

lemma nt_held_append [simp]: "nt_held (s @ t) = foldl (\<lambda>r c. r + nt_acquired c - nt_released c) (nt_held s) t"
  by (simp add: nt_held_def held_by_append)

definition slot_held :: "netuio_bar \<times> mem_map_region \<Rightarrow> nt_resource multiset" where
  "slot_held bh = (case bh of (b, h) \<Rightarrow>
     (if nb_virt_addr b \<noteq> 0 then {#RIoSpace (nb_virt_addr b) (nb_size b)#} else {#}) +
     (if mr_mdl h \<noteq> 0 then {#RMdl (mr_mdl h)#} else {#}))"

definition hw_held :: "netuio_ctx \<Rightarrow> nt_resource multiset" where
  "hw_held ctx = sum_list (map slot_held (zip (ctx_bar ctx) (ctx_hw ctx)))"

interpretation slot: resource_owner nt_held slot_held free_slot
  by unfold_locales (auto simp: free_slot_def slot_held_def Let_def split: prod.splits)

lemmas held_free_slots = slot.release_all

interpretation hw: resource_owner nt_held hw_held "\<lambda>ctx t. snd (netuio_free_hw_resources ctx t)"
  by unfold_locales (simp add: netuio_free_hw_resources_def held_free_slots hw_held_def)

lemma sum_list_fill:
  "k < length xs \<Longrightarrow> xs ! k = 0 \<Longrightarrow> sum_list (xs[k := x]) = sum_list xs + (x :: 'a::comm_monoid_add)"
  by (induction xs arbitrary: k) (auto simp: nth_Cons ac_simps split: nat.splits)

text \<open>The slots from \<open>i\<close> on are empty.\<close>

definition empty_from :: "nat \<Rightarrow> netuio_ctx \<Rightarrow> bool" where
  "empty_from i ctx \<longleftrightarrow> length (ctx_bar ctx) = PCI_MAX_BAR \<and> length (ctx_hw ctx) = PCI_MAX_BAR \<and>
     (\<forall>j. i \<le> j \<longrightarrow> j < PCI_MAX_BAR \<longrightarrow> slot_held (ctx_bar ctx ! j, ctx_hw ctx ! j) = {#})"

lemma hw_held_fill:
  assumes "empty_from i ctx" and "i < PCI_MAX_BAR"
  shows "hw_held (ctx\<lparr>ctx_bar := (ctx_bar ctx)[i := b], ctx_hw := (ctx_hw ctx)[i := h]\<rparr>) = hw_held ctx + slot_held (b, h)"
  using assms sum_list_fill [of i "map slot_held (zip (ctx_bar ctx) (ctx_hw ctx))" "slot_held (b, h)"]
  by (simp add: hw_held_def empty_from_def zip_update map_update)

lemma empty_from_fill:
  assumes "empty_from i ctx" and "i < j"
  shows "empty_from j (ctx\<lparr>ctx_bar := (ctx_bar ctx)[i := b], ctx_hw := (ctx_hw ctx)[i := h]\<rparr>)"
  using assms by (auto simp: empty_from_def)

lemma slot_mdl_empty: "slot_held (b, h) = {#} \<Longrightarrow> mr_mdl h = 0"
  by (auto simp: slot_held_def split: if_splits)

lemma map_one_bar_held:
  assumes "map_one_bar mm i d ctx t = (st, ctx', t')" and "empty_from i ctx" and "i < PCI_MAX_BAR"
    and "nt_held t = base + hw_held ctx" and "i < j"
  shows "nt_held t' = base + hw_held ctx' \<and> empty_from j ctx'"
proof -
  have z: "mr_mdl (ctx_hw ctx ! i) = 0" using assms(2,3) slot_mdl_empty unfolding empty_from_def by auto
  have held: "hw_held (ctx\<lparr>ctx_bar := (ctx_bar ctx)[i := b]\<rparr>) = hw_held ctx + slot_held (b, ctx_hw ctx ! i)" for b
    using hw_held_fill [OF assms(2,3), where b = b and h = "ctx_hw ctx ! i"] by simp
  have empt: "empty_from j (ctx\<lparr>ctx_bar := (ctx_bar ctx)[i := b]\<rparr>)" for b
    using empty_from_fill [OF assms(2,5), where b = b and h = "ctx_hw ctx ! i"] by simp
  show ?thesis
    using assms(1,4) z
    by (auto simp: map_one_bar_def Let_def hw_held_fill [OF assms(2,3)] held empty_from_fill [OF assms(2,5)] empt
        slot_held_def split: if_splits)
qed

lemma map_bars_held:
  assumes "map_bars mm cfg i ds ctx t = (st, ctx', t')" and "empty_from i ctx" and "nt_held t = base + hw_held ctx"
  shows "nt_held t' = base + hw_held ctx'"
  using assms
proof (induction mm cfg i ds ctx t rule: map_bars.induct)
  case (1 mm cfg i ds ctx t)
  consider "PCI_MAX_BAR \<le> i" | "i < PCI_MAX_BAR" "cfg ! i = 0" | "i < PCI_MAX_BAR" "cfg ! i \<noteq> 0" "next_memory ds = None"
    | d ds' where "i < PCI_MAX_BAR" "cfg ! i \<noteq> 0" "next_memory ds = Some (d, ds')"
    by (metis not_le old.prod.exhaust option.exhaust)
  then show ?case
  proof cases
    case 2
    have "empty_from (i + 1) ctx" using "1.prems"(2) by (simp add: empty_from_def)
    then show ?thesis using "1.IH"(1) "1.prems" 2 map_bars.simps [of mm cfg i] by simp
  next
    case (4 d ds')
    obtain st1 ctx1 t1 where o: "map_one_bar mm i d ctx t = (st1, ctx1, t1)" using prod_cases3 by blast
    let ?n = "if cfg ! i AND PCI_TYPE_64BIT \<noteq> 0 then i + 2 else i + 1"
    have "nt_held t1 = base + hw_held ctx1 \<and> empty_from ?n ctx1"
      by (rule map_one_bar_held [OF o "1.prems"(2) 4(1) "1.prems"(3)]) simp
    then show ?thesis
      using "1.IH"(2) [OF _ _ 4(3) refl o [symmetric] refl] "1.prems"(1) 4 o map_bars.simps [of mm cfg i ds ctx t]
      by (auto split: if_splits)
  qed (use "1.prems" map_bars.simps [of mm cfg i ds ctx t] in auto)
qed

lemma clear_hw_empty [simp]: "hw_held (clear_hw ctx) = {#}" "empty_from 0 (clear_hw ctx)"
  by (simp_all add: hw_held_def clear_hw_def empty_from_def slot_held_def zero_bar_def zero_region_def PCI_MAX_BAR_def
      eval_nat_numeral All_less_Suc)

lemma status_distinct [simp]: "STATUS_NOT_SUPPORTED \<noteq> STATUS_SUCCESS" "STATUS_INSUFFICIENT_RESOURCES \<noteq> STATUS_SUCCESS"
  "STATUS_DEVICE_CONFIGURATION_ERROR \<noteq> STATUS_SUCCESS" "STATUS_INVALID_PARAMETER \<noteq> STATUS_SUCCESS"
  "STATUS_INVALID_DEVICE_REQUEST \<noteq> STATUS_SUCCESS"
  by (simp_all add: STATUS_INVALID_PARAMETER_def STATUS_INVALID_DEVICE_REQUEST_def STATUS_NOT_SUPPORTED_def STATUS_INSUFFICIENT_RESOURCES_def
      STATUS_DEVICE_CONFIGURATION_ERROR_def STATUS_SUCCESS_def)

text \<open>C34: 
  Starting with a context that records nothing, preparing the hardware either fails, with every mapping and
  descriptor list given back and none recorded in the context, or succeeds with everything it holds recorded in the context, so that releasing the hardware gives
  it all back.
\<close>
theorem prepare_hw_all_or_nothing:
  assumes "hw_held ctx = {#}" and "netuio_evt_prepare_hw mm cfg ds ctx t = (st, ctx', t')"
  shows "if st = STATUS_SUCCESS
    then nt_held t' = nt_held t + hw_held ctx' \<and> nt_held (snd (snd (netuio_evt_release_hw ctx' t'))) = nt_held t
    else nt_held t' = nt_held t \<and> hw_held ctx' = {#}"
proof (cases cfg)
  case None
  then show ?thesis using assms
    by (auto simp: netuio_evt_prepare_hw_def netuio_map_hw_resources_def netuio_free_hw_resources_def held_free_slots
        hw_held_def [symmetric])
next
  case (Some bars)
  obtain st1 ctx1 t1 where m: "map_bars mm bars 0 ds (clear_hw ctx) t = (st1, ctx1, t1)" using prod_cases3 by blast
  have "nt_held t1 = nt_held t + hw_held ctx1" by (rule map_bars_held [OF m]) simp_all
  then show ?thesis using assms(2) Some m
    by (cases "st1 = STATUS_SUCCESS") (auto simp: netuio_evt_prepare_hw_def netuio_map_hw_resources_def netuio_evt_release_hw_def
        netuio_free_hw_resources_def held_free_slots hw_held_def [symmetric])
qed

section \<open>Which BAR gets which resource\<close>

text \<open>
  The reference: the indices of the registers that start a BAR, and the memory resources in order. The
  loop stores the \<open>k\<close>-th memory resource at the \<open>k\<close>-th such index.
\<close>

function bar_slots :: "u32 list \<Rightarrow> nat \<Rightarrow> nat list" where
  "bar_slots cfg i =
     (if PCI_MAX_BAR \<le> i then []
      else if cfg ! i = 0 then bar_slots cfg (i + 1)
      else i # bar_slots cfg (if cfg ! i AND PCI_TYPE_64BIT \<noteq> 0 then i + 2 else i + 1))"
  by pat_completeness auto
termination by (relation "measure (\<lambda>(cfg, i). PCI_MAX_BAR - i)") auto

declare bar_slots.simps [simp del]

definition memory_bars :: "cm_descriptor list \<Rightarrow> cm_descriptor list" where
  "memory_bars ds = filter (\<lambda>d. cm_is_memory d \<and> cm_flags d AND CM_RESOURCE_MEMORY_BAR \<noteq> 0) ds"

definition store_bars :: "(nat \<times> cm_descriptor) list \<Rightarrow> u64 list \<Rightarrow> u64 list" where
  "store_bars ps xs = foldl (\<lambda>xs (i, d). xs[i := cm_start d]) xs ps"

lemma next_memory_filter:
  "next_memory ds = Some (d, ds') \<Longrightarrow> memory_bars ds = d # memory_bars ds'"
  by (induction ds) (auto simp: memory_bars_def split: if_splits)

lemma map_one_bar_base:
  "map_one_bar mm i d ctx t = (st, ctx', t') \<Longrightarrow>
     map nb_base_addr (ctx_bar ctx') = (map nb_base_addr (ctx_bar ctx))[i := cm_start d]"
  by (auto simp: map_one_bar_def Let_def map_update split: if_splits)

lemma map_bars_store:
  assumes "map_bars mm cfg i ds ctx t = (STATUS_SUCCESS, ctx', t')"
  shows "length (bar_slots cfg i) \<le> length (memory_bars ds) \<and>
    map nb_base_addr (ctx_bar ctx') = store_bars (zip (bar_slots cfg i) (memory_bars ds)) (map nb_base_addr (ctx_bar ctx))"
  using assms
proof (induction mm cfg i ds ctx t rule: map_bars.induct)
  case (1 mm cfg i ds ctx t)
  consider "PCI_MAX_BAR \<le> i" | "i < PCI_MAX_BAR" "cfg ! i = 0" | "i < PCI_MAX_BAR" "cfg ! i \<noteq> 0" "next_memory ds = None"
    | d ds' where "i < PCI_MAX_BAR" "cfg ! i \<noteq> 0" "next_memory ds = Some (d, ds')"
    by (metis not_le old.prod.exhaust option.exhaust)
  then show ?case
  proof cases
    case 2
    then show ?thesis using "1.IH"(1) "1.prems" map_bars.simps [of mm cfg i] bar_slots.simps [of cfg i] by simp
  next
    case (4 d ds')
    obtain st1 ctx1 t1 where o: "map_one_bar mm i d ctx t = (st1, ctx1, t1)" using prod_cases3 by blast
    have "st1 = STATUS_SUCCESS" using "1.prems" 4 o map_bars.simps [of mm cfg i ds ctx t] by (auto split: if_splits)
    then show ?thesis
      using "1.IH"(2) [OF _ _ 4(3) refl o [symmetric] refl] "1.prems" 4 o map_bars.simps [of mm cfg i ds ctx t]
        bar_slots.simps [of cfg i] next_memory_filter [OF 4(3)] map_one_bar_base [OF o]
      by (simp add: store_bars_def)
  qed (use "1.prems" map_bars.simps [of mm cfg i ds ctx t] bar_slots.simps [of cfg i] in \<open>auto simp: store_bars_def\<close>)
qed

lemma store_bars_other: "j \<notin> fst ` set ps \<Longrightarrow> store_bars ps xs ! j = xs ! j"
  by (induction ps arbitrary: xs) (auto simp: store_bars_def)

lemma length_store_bars: "length (store_bars ps xs) = length xs"
  by (induction ps arbitrary: xs) (auto simp: store_bars_def)

lemma store_bars_nth:
  assumes "distinct (map fst ps)" and "k < length ps" and "\<And>i. i \<in> fst ` set ps \<Longrightarrow> i < length xs"
  shows "store_bars ps xs ! fst (ps ! k) = cm_start (snd (ps ! k))"
  using assms
proof (induction ps arbitrary: xs k)
  case (Cons p ps)
  obtain i d where p: "p = (i, d)" by force
  have st: "store_bars ((i, d) # ps) xs = store_bars ps (xs[i := cm_start d])" by (simp add: store_bars_def)
  show ?case
  proof (cases k)
    case 0
    then show ?thesis using Cons.prems by (simp add: st store_bars_other p)
  next
    case (Suc k')
    then show ?thesis using Cons.prems Cons.IH [of k' "xs[i := cm_start d]"] by (simp add: st p)
  qed
qed simp

lemma bar_slots_sorted: "distinct (bar_slots cfg i) \<and> (\<forall>j \<in> set (bar_slots cfg i). i \<le> j \<and> j < PCI_MAX_BAR)"
proof (induction cfg i rule: bar_slots.induct)
  case (1 cfg i)
  then show ?case by (subst (1 2) bar_slots.simps) (fastforce split: if_splits)
qed

text \<open>
  On success there is a memory resource for every BAR register, and the \<open>k\<close>-th BAR, counted without the
  upper halves of 64-bit BARs, holds the start address of the \<open>k\<close>-th memory resource; all other entries
  are zero.
\<close>
theorem bars_keep_physical_index:
  assumes "netuio_map_hw_resources mm (Some cfg) ds ctx t = (STATUS_SUCCESS, ctx', t')"
  shows "(\<forall>k < length (bar_slots cfg 0). k < length (memory_bars ds) \<and>
      nb_base_addr (ctx_bar ctx' ! (bar_slots cfg 0 ! k)) = cm_start (memory_bars ds ! k)) \<and>
    (\<forall>i < PCI_MAX_BAR. i \<notin> set (bar_slots cfg 0) \<longrightarrow> nb_base_addr (ctx_bar ctx' ! i) = 0)"
proof -
  let ?ps = "zip (bar_slots cfg 0) (memory_bars ds)" and ?xs = "map nb_base_addr (ctx_bar (clear_hw ctx))"
  have m: "map_bars mm cfg 0 ds (clear_hw ctx) t = (STATUS_SUCCESS, ctx', t')"
    using assms by (auto simp: netuio_map_hw_resources_def split: prod.splits if_splits)
  have le: "length (bar_slots cfg 0) \<le> length (memory_bars ds)" and st: "map nb_base_addr (ctx_bar ctx') = store_bars ?ps ?xs"
    using map_bars_store [OF m] by blast+
  have fs: "map fst ?ps = bar_slots cfg 0" using le by (simp add: map_fst_zip_take)
  have fset: "fst ` set ?ps = set (bar_slots cfg 0)" using arg_cong [OF fs, of set] by (simp only: set_map)
  have len: "length (ctx_bar ctx') = PCI_MAX_BAR"
    using arg_cong [OF st, of length] by (simp add: length_store_bars clear_hw_def)
  have at: "nb_base_addr (ctx_bar ctx' ! i) = store_bars ?ps ?xs ! i" if "i < PCI_MAX_BAR" for i
    using that len by (metis nth_map st)
  have sl: "distinct (bar_slots cfg 0)" "\<And>i. i \<in> set (bar_slots cfg 0) \<Longrightarrow> i < PCI_MAX_BAR"
    using bar_slots_sorted [of cfg 0] by blast+
  have "nb_base_addr (ctx_bar ctx' ! (bar_slots cfg 0 ! k)) = cm_start (memory_bars ds ! k)"
    if "k < length (bar_slots cfg 0)" for k
    using store_bars_nth [of ?ps k ?xs] that le fs sl at by (simp add: clear_hw_def fset)
  moreover have "nb_base_addr (ctx_bar ctx' ! i) = 0" if "i < PCI_MAX_BAR" "i \<notin> set (bar_slots cfg 0)" for i
    using store_bars_other [of i ?ps ?xs] at [of i] that by (simp add: clear_hw_def zero_bar_def fset)
  ultimately show ?thesis using le by auto
qed

section \<open>User mappings\<close>

definition region_user :: "mem_map_region \<Rightarrow> nt_resource multiset" where
  "region_user h = (if mr_user_va h \<noteq> 0 then {#RUserMap (mr_user_va h) (mr_mdl h)#} else {#})"

definition user_held :: "netuio_ctx \<Rightarrow> nt_resource multiset" where
  "user_held ctx = sum_list (map region_user (ctx_hw ctx))"

text \<open>Only regions with a descriptor list are mapped.\<close>

definition user_wf :: "mem_map_region list \<Rightarrow> bool" where
  "user_wf hs \<longleftrightarrow> list_all (\<lambda>h. mr_mdl h = 0 \<longrightarrow> mr_user_va h = 0) hs"

lemma unmap_regions_held:
  assumes "unmap_regions hs t = (hs', t')"
  shows "nt_held t' = nt_held t - sum_list (map region_user hs) \<and> list_all (\<lambda>h. mr_user_va h = 0) hs'"
  using assms
proof (induction hs arbitrary: t hs')
  case (Cons h hs)
  then show ?case by (auto simp: region_user_def split: if_splits prod.splits)
qed simp

interpretation user: resource_owner nt_held user_held "\<lambda>ctx t. snd (netuio_unmap_address_from_user_process ctx t)"
proof
  fix ctx :: netuio_ctx and t :: "ntcall list"
  obtain hs t' where u: "unmap_regions (ctx_hw ctx) t = (hs, t')" by force
  show "nt_held (snd (netuio_unmap_address_from_user_process ctx t)) = nt_held t - user_held ctx"
    using unmap_regions_held [OF u] u by (simp add: netuio_unmap_address_from_user_process_def user_held_def)
qed

lemma map_regions_ok:
  assumes "map_regions mm hs t = (STATUS_SUCCESS, hs', t')" and "user_wf hs"
    and "\<And>t m e. mm_map_user mm t m = Inl e \<Longrightarrow> \<not> NT_SUCCESS e"
  shows "nt_held t' = nt_held t + sum_list (map region_user hs') \<and> user_wf hs'"
  using assms(1,2)
proof (induction hs arbitrary: t hs')
  case (Cons h hs)
  have e: "mm_map_user mm t (mr_mdl h) \<noteq> Inl STATUS_SUCCESS" using assms(3) status_success(1) by blast
  show ?case using Cons e
    by (auto simp: region_user_def user_wf_def split: if_splits prod.splits sum.splits)
qed (simp add: user_wf_def)

lemma no_user: "list_all (\<lambda>h. mr_user_va h = 0) hs \<Longrightarrow> sum_list (map region_user hs) = {#}"
  by (induction hs) (auto simp: region_user_def)

lemma map_regions_fresh:
  assumes "map_regions mm hs t = (st, hs', t')" and "list_all (\<lambda>h. mr_user_va h = 0) hs"
  shows "nt_held t' = nt_held t + sum_list (map region_user hs')"
  using assms
proof (induction hs arbitrary: t hs')
  case (Cons h hs)
  then show ?case using no_user [of hs, unfolded region_user_def]
    by (auto simp: region_user_def split: if_splits prod.splits sum.splits)
qed simp

text \<open>
  With no mapping recorded, mapping the BARs into a process holds exactly the recorded mappings on success
  and nothing on failure, and closing the handle unmaps them.
\<close>
theorem user_mapping_balance:
  assumes "list_all (\<lambda>h. mr_user_va h = 0) (ctx_hw ctx)" and "\<not> fl f"
    and "netuio_map_address_into_user_process mm ctx fl (Some f) t = (st, ctx', t')"
  shows "if st = STATUS_SUCCESS
    then nt_held t' = nt_held t + user_held ctx' \<and>
      nt_held (snd (snd (netuio_evt_file_cleanup f ctx' (netuio_set_usermode_mapping_flag fl (Some f)) t'))) = nt_held t
    else nt_held t' = nt_held t \<and> user_held ctx' = {#}"
proof -
  obtain st1 hs t1 where m: "map_regions mm (ctx_hw ctx) t = (st1, hs, t1)" using prod_cases3 by blast
  have fresh: "nt_held t1 = nt_held t + user_held (ctx\<lparr>ctx_hw := hs\<rparr>)"
    using map_regions_fresh [OF m assms(1)] by (simp add: user_held_def)
  have none: "user_held (fst (netuio_unmap_address_from_user_process c t)) = {#}" for c t
    using unmap_regions_held no_user by (fastforce simp: netuio_unmap_address_from_user_process_def user_held_def split: prod.splits)
  have clean: "snd (snd (netuio_evt_file_cleanup f c (netuio_set_usermode_mapping_flag fl (Some f)) t))
      = snd (netuio_unmap_address_from_user_process c t)" for c t
    by (simp add: netuio_evt_file_cleanup_def netuio_set_usermode_mapping_flag_def split: prod.splits)
  show ?thesis
    using assms(2,3) m fresh user.gives_back [OF fresh] none [of "ctx\<lparr>ctx_hw := hs\<rparr>" t1]
    unfolding clean by (cases "st1 = STATUS_SUCCESS")
      (auto simp: netuio_map_address_into_user_process_def netuio_get_usermode_mapping_flag_def split: prod.splits)
qed

text \<open>
  The flag is per handle but the addresses are per device: when a second handle maps the device as well, the
  addresses of the first mapping are overwritten, and after both handles are closed that mapping is still
  in place.
\<close>

lemma second_handle_leaks:
  assumes ctx: "list_all (\<lambda>h. mr_user_va h = 0) (ctx_hw ctx)" and fl: "\<not> fl f" "\<not> fl g" "f \<noteq> g"
    and exc: "\<And>t m e. mm_map_user mm t m = Inl e \<Longrightarrow> \<not> NT_SUCCESS e"
    and first: "netuio_map_address_into_user_process mm ctx fl (Some f) t = (STATUS_SUCCESS, ctx1, t1)"
    and second: "netuio_map_address_into_user_process mm ctx1 (fl(f := True)) (Some g) t1 = (STATUS_SUCCESS, ctx2, t2)"
    and close1: "netuio_evt_file_cleanup f ctx2 (fl(f := True, g := True)) t2 = (ctx3, fl3, t3)"
    and close2: "netuio_evt_file_cleanup g ctx3 fl3 t3 = (ctx4, fl4, t4)"
  shows "nt_held t4 = nt_held t + user_held ctx1"
proof -
  have m1: "map_regions mm (ctx_hw ctx) t = (STATUS_SUCCESS, ctx_hw ctx1, t1)"
    using first fl by (auto simp: netuio_map_address_into_user_process_def netuio_get_usermode_mapping_flag_def
        netuio_unmap_address_from_user_process_def Let_def split: prod.splits if_splits)
  have m2: "map_regions mm (ctx_hw ctx1) t1 = (STATUS_SUCCESS, ctx_hw ctx2, t2)"
    using second fl by (auto simp: netuio_map_address_into_user_process_def netuio_get_usermode_mapping_flag_def
        netuio_unmap_address_from_user_process_def Let_def split: prod.splits if_splits)
  have wf: "user_wf (ctx_hw ctx)" using ctx by (auto simp: user_wf_def list_all_iff)
  have h1: "nt_held t1 = nt_held t + user_held ctx1" "user_wf (ctx_hw ctx1)"
    using map_regions_ok [OF m1 wf exc] by (simp_all add: user_held_def)
  have h2: "nt_held t2 = nt_held t1 + user_held ctx2"
    using map_regions_ok [OF m2 h1(2) exc] by (simp add: user_held_def)
  obtain hs t' where u: "unmap_regions (ctx_hw ctx2) t2 = (hs, t')" by force
  obtain hs' t'' where u': "unmap_regions hs t' = (hs', t'')" by force
  have "sum_list (map region_user hs) = {#}"
    using unmap_regions_held [OF u] no_user by blast
  then have "nt_held t'' = nt_held t + user_held ctx1"
    using unmap_regions_held [OF u] unmap_regions_held [OF u'] h1 h2 by (simp add: user_held_def)
  moreover have "t4 = t''"
    using close1 close2 u u' fl(3)
    by (auto simp: netuio_evt_file_cleanup_def netuio_unmap_address_from_user_process_def)
  ultimately show ?thesis by simp
qed

text \<open>Only accesses of one, two, four or eight bytes reach the bus, and success means that all bytes were transferred.\<close>

lemma config_io_success:
  assumes "netuio_evt_IO_device_control aliased bus code (Inr io) STATUS_SUCCESS c = (STATUS_SUCCESS, n, v, c')"
  shows "n = io_access_size io \<and> io_access_size io \<in> {1, 2, 4, 8} \<and>
    (io_op io = 0 \<and> c' = c \<and> v = Some (snd (bus_get bus c (if aliased then 0 else io_offset io) (io_access_size io))) \<or>
     io_op io = 1 \<and> (n, c') = bus_set bus c (io_offset io) (io_access_size io) (io_data io))"
  using assms
  by (auto simp: netuio_evt_IO_device_control_def clear_output_def Let_def
      split: if_splits prod.splits)

text \<open>
  With one buffer for input and output, the documented behaviour for the transfer method of this control
  code, a read of the configuration space ignores the offset asked for: the reply is the data at offset 0.
\<close>
theorem config_read_ignores_offset:
  "netuio_evt_IO_device_control True bus IOCTL_NETUIO_PCI_CONFIG_IO
     (Inr \<lparr>io_offset = off, io_op = 0, io_access_size = 4, io_data = d\<rparr>) STATUS_SUCCESS c
   = (if fst (bus_get bus c 0 4) = 4 then STATUS_SUCCESS else STATUS_INVALID_PARAMETER,
      fst (bus_get bus c 0 4), Some (snd (bus_get bus c 0 4)), c)"
  by (simp add: netuio_evt_IO_device_control_def clear_output_def Let_def NT_SUCCESS_def STATUS_SUCCESS_def
      split: prod.splits)

section \<open>A concrete device\<close>

text \<open>Two 64-bit memory BARs, with an interrupt resource between their descriptors.\<close>

definition demo_mm :: nt_mm where
  "demo_mm = \<lparr>mm_map_io = (\<lambda>t a n. a + 0x1000), mm_alloc_mdl = (\<lambda>t va n. va + 1), mm_map_user = (\<lambda>t m. Inr (m + 2))\<rparr>"

definition demo_cfg :: "u32 list" where
  "demo_cfg = [0xC840000C, 0, 0xC800000C, 0, 0, 0]"

definition demo_ds :: "cm_descriptor list" where
  "demo_ds = [\<lparr>cm_is_memory = True, cm_flags = 0x80, cm_start = 0xC8400000, cm_length = 0x4000\<rparr>,
              \<lparr>cm_is_memory = False, cm_flags = 0, cm_start = 0, cm_length = 0\<rparr>,
              \<lparr>cm_is_memory = True, cm_flags = 0x80, cm_start = 0xC8000000, cm_length = 0x8000\<rparr>]"

definition demo_ctx :: netuio_ctx where
  "demo_ctx = \<lparr>ctx_bar = replicate 6 zero_bar, ctx_hw = replicate 6 zero_region,
     ctx_bus_num = 0, ctx_dev_num = 0, ctx_func_num = 0\<rparr>"

lemma demo_ctx_empty: "hw_held demo_ctx = {#}" "list_all (\<lambda>h. mr_user_va h = 0) (ctx_hw demo_ctx)"
  by (simp_all add: demo_ctx_def hw_held_def slot_held_def zero_bar_def zero_region_def eval_nat_numeral)

lemma demo_map_status: "fst (netuio_map_hw_resources demo_mm (Some demo_cfg) demo_ds demo_ctx []) = STATUS_SUCCESS"
  by code_simp

lemma demo_slots: "bar_slots demo_cfg 0 = [0, 2]"
  by code_simp

theorem bars_keep_physical_index_witness:
  "\<exists>ctx' t'. netuio_map_hw_resources demo_mm (Some demo_cfg) demo_ds demo_ctx [] = (STATUS_SUCCESS, ctx', t') \<and>
     nb_base_addr (ctx_bar ctx' ! 2) = 0xC8000000 \<and> nb_base_addr (ctx_bar ctx' ! 1) = 0"
proof -
  obtain ctx' t' where r: "netuio_map_hw_resources demo_mm (Some demo_cfg) demo_ds demo_ctx [] = (STATUS_SUCCESS, ctx', t')"
    using demo_map_status by (metis prod.collapse)
  have "cm_start (memory_bars demo_ds ! 1) = 0xC8000000"
    by (simp add: demo_ds_def memory_bars_def CM_RESOURCE_MEMORY_BAR_def)
  then show ?thesis
    using r bars_keep_physical_index [OF r] by (auto simp: demo_slots PCI_MAX_BAR_def)
qed

theorem prepare_hw_all_or_nothing_witness:
  "\<exists>ctx' t'. netuio_evt_prepare_hw demo_mm (Some demo_cfg) demo_ds demo_ctx [] = (STATUS_SUCCESS, ctx', t') \<and>
     nt_held (snd (snd (netuio_evt_release_hw ctx' t'))) = {#}"
proof -
  obtain ctx' t' where r: "netuio_evt_prepare_hw demo_mm (Some demo_cfg) demo_ds demo_ctx [] = (STATUS_SUCCESS, ctx', t')"
    using demo_map_status unfolding netuio_evt_prepare_hw_def by (metis prod.collapse)
  then show ?thesis using prepare_hw_all_or_nothing [OF demo_ctx_empty(1) r] by (auto simp: nt_held_def)
qed

theorem user_mapping_balance_witness:
  "\<exists>st ctx' t'. netuio_map_address_into_user_process demo_mm demo_ctx (\<lambda>_. False) (Some 3) [] = (st, ctx', t') \<and>
     nt_held t' = user_held ctx'"
proof -
  obtain st ctx' t' where r: "netuio_map_address_into_user_process demo_mm demo_ctx (\<lambda>_. False) (Some 3) [] = (st, ctx', t')"
    using prod_cases3 by blast
  then show ?thesis
    using user_mapping_balance [OF demo_ctx_empty(2) _ r] by (cases "st = STATUS_SUCCESS") (simp_all add: nt_held_def)
qed

end
