(* ===== verification/SwapMacs.thy ===== *)
theory SwapMacs
  imports LM_Prelude
begin

text \<open>
  \<^verbatim>\<open>src/examples/c-integration/swap-macs.c\<close>: the example of a C module that is called for every batch of packets.
  A packet is the list of its bytes, accessed as 16-bit words; an access outside it is \<open>None\<close>. Buffers live
  in a store, so that the same buffer may occur twice in a batch.
\<close>

section \<open>Model\<close>

definition swap_mac :: "u8 list \<Rightarrow> u8 list option" where
  "swap_mac pkt =
     (if length pkt < 12 then None
      else let tmp1 = load16 pkt 0; tmp2 = load16 pkt 2; tmp3 = load16 pkt 4;
               pkt = store16 pkt 0 (load16 pkt 6);
               pkt = store16 pkt 2 (load16 pkt 8);
               pkt = store16 pkt 4 (load16 pkt 10);
               pkt = store16 pkt 6 tmp1;
               pkt = store16 pkt 8 tmp2
           in Some (store16 pkt 10 tmp3))"

fun swap_macs_loop :: "('p \<rightharpoonup> u8 list) \<Rightarrow> 'p list \<Rightarrow> ('p \<rightharpoonup> u8 list) option" where
  "swap_macs_loop heap [] = Some heap"
| "swap_macs_loop heap (p # ps) =
     (case heap p of
        None \<Rightarrow> None
      | Some pkt \<Rightarrow> (case swap_mac pkt of None \<Rightarrow> None | Some pkt' \<Rightarrow> swap_macs_loop (heap(p \<mapsto> pkt')) ps))"

definition swap_macs :: "('p \<rightharpoonup> u8 list) \<Rightarrow> 'p list \<Rightarrow> u32 \<Rightarrow> ('p \<rightharpoonup> u8 list) option" where
  "swap_macs heap mbufs num_bufs =
     (if length mbufs < unat num_bufs then None else swap_macs_loop heap (take (unat num_bufs) mbufs))"

section \<open>What is swapped\<close>

lemma load16_halves: "ucast (load16 m i) = m ! i" "ucast (drop_bit 8 (load16 m i)) = m ! (i + 1)"
  by (rule bit_word_eqI; auto simp: load16_def bit_simps simp del: push_bit_numeral dest: bit_imp_le_length)+

lemma copy16: "store16 m j (load16 m' i) = m[j := m' ! i, j + 1 := m' ! (i + 1)]"
  by (simp add: store16_def load16_halves)

text \<open>
  The first two six-byte fields of the packet, destination and source address, change places; nothing else changes.
\<close>

lemma swap_mac_bytes:
  assumes "12 \<le> length pkt"
  shows "swap_mac pkt = Some (take 6 (drop 6 pkt) @ take 6 pkt @ drop 12 pkt)"
proof -
  obtain a0 a1 a2 a3 a4 a5 b0 b1 b2 b3 b4 b5 r where "pkt = [a0, a1, a2, a3, a4, a5, b0, b1, b2, b3, b4, b5] @ r"
    using assms by (auto simp: Suc_le_length_iff numeral_eq_Suc)
  then show ?thesis by (simp add: swap_mac_def Let_def copy16)
qed

lemma swap_mac_twice: "swap_mac pkt = Some pkt' \<Longrightarrow> swap_mac pkt' = Some pkt"
proof -
  assume s: "swap_mac pkt = Some pkt'"
  then have l: "12 \<le> length pkt" by (simp add: swap_mac_def split: if_splits)
  then have p: "pkt' = take 6 (drop 6 pkt) @ take 6 pkt @ drop 12 pkt" using s swap_mac_bytes by simp
  then have "length pkt' = length pkt" using l by simp
  then have "swap_mac pkt' = Some (take 6 (drop 6 pkt') @ take 6 pkt' @ drop 12 pkt')" using l swap_mac_bytes by simp
  moreover have "take 6 (drop 6 pkt') = take 6 pkt" "take 6 pkt' = take 6 (drop 6 pkt)" "drop 12 pkt' = drop 12 pkt"
    unfolding p using l by simp_all
  moreover have "take 6 pkt @ take 6 (drop 6 pkt) @ drop 12 pkt = pkt"
    by (metis append_assoc append_take_drop_id drop_drop numeral_Bit0)
  ultimately show ?thesis by simp
qed

text \<open>
  A batch: every packet has its addresses swapped once for each time it occurs, so a packet that occurs
  twice is unchanged; packets outside the batch are untouched.
\<close>

lemma swap_macs_batch:
  assumes "\<And>p. p \<in> set ps \<Longrightarrow> \<exists>pkt. heap p = Some pkt \<and> 12 \<le> length pkt"
  shows "swap_macs_loop heap ps
    = Some (\<lambda>p. if odd (count_list ps p) then Option.bind (heap p) swap_mac else heap p)"
  using assms
proof (induction ps arbitrary: heap)
  case (Cons p ps)
  obtain pkt pkt' where h: "heap p = Some pkt" "swap_mac pkt = Some pkt'" "12 \<le> length pkt'"
    using Cons.prems [of p] swap_mac_bytes by fastforce
  have "swap_macs_loop (heap(p \<mapsto> pkt')) ps
      = Some (\<lambda>q. if odd (count_list ps q) then Option.bind ((heap(p \<mapsto> pkt')) q) swap_mac else (heap(p \<mapsto> pkt')) q)"
    by (rule Cons.IH) (use Cons.prems h(3) in auto)
  then show ?case using h swap_mac_twice [OF h(2)] by (auto simp: fun_eq_iff)
qed simp

end
