(* ===== verification/Spec2Isabelle.thy ===== *)
theory Spec2Isabelle
  imports Checksum PktSizedRing ByteSizedRing Memory DeviceIO Timestamping Ice TxSchedIce FdirInfo Pcap Barrier Stores Startup
    SpscConcurrent MpmcTickets MpmcExpDestroy PipeMpmc IgbUio Netuio SwapMacs
begin

text \<open>
  A verification development for the C and C++ core of libmoon, a Lua framework on top of DPDK for fast packet
  processing, and for the kernel drivers its build brings along.

  \<^bold>\<open>The program.\<close> A process starts in \<^verbatim>\<open>main.cpp\<close>, finds its Lua files and runs the master task; further tasks
  run on their own cores (\<^verbatim>\<open>task.cpp\<close>). Tasks configure ports (\<^verbatim>\<open>device.c\<close>), allocate packet buffers
  (\<^verbatim>\<open>memory.c\<close>), fill in checksums (\<^verbatim>\<open>util.c\<close>), send and receive (\<^verbatim>\<open>device.c\<close>), timestamp packets
  (\<^verbatim>\<open>timestamping*.c\<close>, \<^verbatim>\<open>ice.c\<close>), set rates (\<^verbatim>\<open>tx_scheduler_ice.c\<close>), read filters (\<^verbatim>\<open>filter.c\<close>) and capture files
  (\<^verbatim>\<open>pcap.cpp\<close>). They exchange packets through rings and pipes and share results, named maps, locks and barriers;
  all of them poll \<^verbatim>\<open>lifecycle.cpp\<close> to know when to stop. Below, the drivers \<^verbatim>\<open>igb_uio\<close> (Linux), \<^verbatim>\<open>virt2phys\<close> and
  \<^verbatim>\<open>netuio\<close> (Windows) hand devices and physical addresses to user space.

  \<^bold>\<open>Modelling.\<close> C structures are records, switches and unrolled loops are functions with the source's control
  flow, integers are words of their C width; signed values that are compared as such are read with \<open>sint\<close>. A loop
  whose end is not structural has fuel or a termination proof; where there is fuel, a lemma shows that the given
  amount is enough (the bounds are the number of list elements, of descriptors, of blocks of a queue). Undefined
  behaviour, violated assertions and aborts are \<open>None\<close> or a constructor \<open>Fault\<close>. DPDK, the Linux and Windows kernels,
  Lua and the file system are parameters: functions or records of functions, their documented behaviour the
  hypotheses of the theorems, with a concrete instance in each witness. State shared between threads is modelled
  with step relations (barrier, single-producer pipe, free list, tickets of a dequeue, the calls of \<^verbatim>\<open>virt2phys\<close> between
  their critical sections).

  \<^bold>\<open>Theories.\<close>
  \<^item> \<open>LM_Prelude\<close>: C integers, byte memory, word and list lemmas. \<open>Resources\<close>: what a trace of calls holds, and the
    contract of cleanup routines as the locale \<open>resource_owner\<close>.
  \<^item> \<open>Checksum\<close> (\<^verbatim>\<open>util.c\<close>): the pseudo-header sums equal the one's complement sums of RFC 1071, byte by byte and for
    whole batches, for protocol numbers below 128; for the others, when exactly a carry is lost and how large the
    error is.
  \<^item> \<open>RteRing\<close> (\<^verbatim>\<open>ring.c\<close> and the interface of \<^verbatim>\<open>rte_ring\<close>) with the locale \<open>packet_fifo\<close>, the first-in first-out contract
    with its consequences for sequences of operations; \<open>PktSizedRing\<close> and \<open>ByteSizedRing\<close> interpret it: every run of
    a packet-sized ring answers as a bounded list (\<open>ps_spec\<close>), capacity in packets and in bytes, and the accounting
    fault of the burst enqueue.
  \<^item> \<open>Memory\<close> (\<^verbatim>\<open>memory.c\<close>): the unrolled loop of \<^verbatim>\<open>alloc_mbufs\<close> against its specification, its failures for
    no buffers and for an empty pool.
  \<^item> \<open>Lifecycle\<close>, \<open>Device\<close>, \<open>DeviceIO\<close>: run time and signals; configuration as a trace of calls, within the
    capabilities of the device, symmetric receive-side scaling; delivery by the send loop, and return of the receive loop by the deadline of
    \<^verbatim>\<open>set_runtime\<close>.
  \<^item> \<open>Timestamping\<close>, \<open>Ice\<close>, \<open>TxSchedIce\<close>, \<open>FdirInfo\<close>: clock synchronisation, reading a 64-bit timer through 32-bit
    registers, the command, effect and locking of the scheduler updates against their own specification (\<open>switched\<close>),
    the text of the filter report.
  \<^item> \<open>Pcap\<close> (\<^verbatim>\<open>pcap.cpp\<close>): writing and reading records is a round trip, packets cut to the size of the buffers included;
    the read past the end of the file.
  \<^item> \<open>Barrier\<close>: no thread passes early, and without the help of spurious wake-ups (\<open>bown\<close>) all pass after at most two
    steps each; \<open>Stores\<close> (locks, task results, namespaces as an instance of the locale \<open>kv_store\<close>), \<open>Startup\<close>.
  \<^item> \<open>SpscBlock\<close>, \<open>SpscQueue\<close>, \<open>Pipe\<close>, \<open>SpscConcurrent\<close> (\<^verbatim>\<open>readerwriterqueue.h\<close>, \<^verbatim>\<open>pipe.cpp\<close>): rounding to a power
    of two and the memory layout of a block; the circle of blocks related to a list (\<open>rwq_rel\<close>); order, guaranteed
    capacity, size, destruction; and the same queue with the producer's and the consumer's accesses interleaved one by one.
    A thread running alone computes the sequential functions, and both operations are wait-free.
  \<^item> \<open>MpmcDetails\<close>, \<open>MpmcFreeList\<close>, \<open>MpmcBlock\<close>, \<open>MpmcIndex\<close>, \<open>MpmcProducer\<close>, \<open>MpmcHash\<close>, \<open>MpmcQueue\<close> (\<^verbatim>\<open>concurrentqueue.h\<close>
    without tokens): comparison of wrapping indices and the hash of thread identifiers; the lock-free free list with its
    accesses interleaved (\<open>fl_inv\<close> says who has which block) and one call at a time; blocks and the block pool
    (\<open>pool_inv\<close>); the growing ring of the block index (\<open>ring_at\<close>); a producer as a queue (\<open>prod_rel\<close>); open hashing
    as a map (\<open>table_ok\<close>); the whole queue (\<open>queue_rel\<close>). The probing loops have one step per slot as fuel, enough
    because a slot is always free, and the loop that finds a new capacity 64, one per bit; the other loops are
    structural, terminate by a measure or are \<open>None\<close> when they do not end, which is shown not to happen.
    Allocation answers come from a list, so every one of them can fail.
  \<^item> \<open>MpmcTickets\<close>: the four counters of \<^verbatim>\<open>ImplicitProducer::dequeue\<close> with any number of consumers, one access at a time
    (\<open>dq_inv\<close> says which tickets have won, which were one too many and who holds the others); indices stay below \<open>2 ^ 63\<close>.
  \<^item> \<open>MpmcRefine\<close>, \<open>MpmcLimit\<close>, \<open>MpmcDestroy\<close>, \<open>PipeMpmc\<close>: the queue refines one list per thread (\<open>fifo_step\<close>)
    unless a call reaches a producer whose block index could not be allocated (\<open>follows_null\<close>), which is the only way
    it can fault; the limit of \<^verbatim>\<open>try_enqueue\<close> for a thread, whatever the others do; destruction, whose loops free every
    allocation exactly once (\<open>frees_once\<close>); and the \<^verbatim>\<open>pipe_mpmc\<close> functions on top. Runs have fewer than \<open>2 ^ 60\<close> calls.
  \<^item> \<open>MpmcExplicit\<close>, \<open>MpmcProducers\<close>, \<open>MpmcExpDestroy\<close>: the explicit producers of the same queue, with a circle of blocks
    that are used again and an index of their own (\<open>exp_rel\<close>). The locales \<open>producer_queue\<close> and \<open>ready_producer\<close> are the
    contract of a producer; both kinds of producers are interpretations, so they give the same replies. Destruction
    destroys what is left and returns every block; how many elements fit without allocation. A queue has at most
    \<open>2 ^ 62\<close> elements here and an initial pool of at most \<open>2 ^ 59\<close> blocks, for which memory does not suffice anyway.
  \<^item> \<open>IgbUio\<close> (\<^verbatim>\<open>igb_uio.c\<close>, \<^verbatim>\<open>compat.h\<close>): probe, remove, open, release, interrupt modes and masks over a trace of kernel
    calls; what is held after every outcome, and what failed opens leave behind.
  \<^item> \<open>Virt2Phys\<close> (\<^verbatim>\<open>virt2phys.c\<close>, \<^verbatim>\<open>virt2phys_logic.c\<close>): tracked processes and locked blocks, translations of
    any number of threads (\<open>v2p_step\<close>), release at the end of a process. \<open>Netuio\<close> (\<^verbatim>\<open>netuio_dev.c\<close>, \<^verbatim>\<open>netuio_queue.c\<close>, \<^verbatim>\<open>netuio_drv.c\<close>): BARs and their
    physical index, user mappings per handle, configuration space requests.
  \<^item> \<open>SwapMacs\<close>: the example C module.

  \<^bold>\<open>Not modelled.\<close> Of \<^verbatim>\<open>concurrentqueue.h\<close>, which libmoon uses through the \<^verbatim>\<open>pipe_mpmc\<close> functions only: tokens (of
  the code behind them, the explicit producers are modelled), bulk operations, swap and move, thread-exit hooks
  (disabled by the preprocessor) and debugging code; calls that overlap in time, except inside the free list and on
  the counters of a dequeue. \<^verbatim>\<open>atomicops.h\<close>, whose fences appear only as the program
  order of the interleaving models (weaker memory models are not considered); \<^verbatim>\<open>rdtsc.h\<close> and \<^verbatim>\<open>config.h\<close> (inline
  assembly, constants); functions that only forward to a system call (\<^verbatim>\<open>alloc_huge\<close>, \<^verbatim>\<open>free_ring\<close>, \<^verbatim>\<open>print_ptr\<close>); the
  byte-sized ring with concurrent callers; the Lua layer.
\<close>

end
